(* ===== verification/Prelude.thy ===== *)
theory Prelude
  imports Main "HOL-Library.Word" "HOL-Library.Multiset" "HOL-Library.While_Combinator"
begin

text \<open>
  Shared vocabulary of the development: the machine types of the sources (types.h), the
  result of kernel code, and the sequencing operators every component uses.

  The kernel is C for the i386: \<open>uint\<close> and pointers are 32-bit words, \<open>uchar\<close> is an
  8-bit word. A C \<open>int\<close> that only counts (a nesting depth, a loop index) is an
  \<open>int\<close> or a \<open>nat\<close>; signed overflow is undefined in C and never relied on by the code.
\<close>

type_synonym u8 = "8 word"
type_synonym u16 = "16 word"
type_synonym u32 = "32 word"

text \<open>
  What running a piece of kernel code yields: a value, a call of \<open>panic\<close> with its message
  (panic never returns), a dereference of a pointer that is not mapped, a busy-wait that this CPU
  cannot leave by itself (a spin lock held elsewhere), or a call of \<open>sleep\<close> in code whose
  continuation is not modelled (another process has to run first).
\<close>

datatype 'a kresult = Done 'a | Panic string | Fault | Spin | Asleep

primrec kbind :: "'a kresult \<Rightarrow> ('a \<Rightarrow> 'b kresult) \<Rightarrow> 'b kresult" where
  "kbind (Done x) f = f x"
| "kbind (Panic m) f = Panic m"
| "kbind Fault f = Fault"
| "kbind Spin f = Spin"
| "kbind Asleep f = Asleep"

text \<open>The statement \<open>if (!c) panic(m)\<close> in front of a continuation.\<close>

definition kassert :: "bool \<Rightarrow> string \<Rightarrow> 'a kresult \<Rightarrow> 'a kresult" where
  "kassert c m k = (if c then k else Panic m)"

text \<open>
  A loop that need not end has type \<open>'a kresult option\<close>; \<open>None\<close> is a run that never
  returns. \<open>lbind\<close> sequences such computations, \<open>lift\<close> embeds straight-line code.
\<close>

definition lbind :: "'a kresult option \<Rightarrow> ('a \<Rightarrow> 'b kresult option) \<Rightarrow> 'b kresult option" where
  "lbind m f = Option.bind m (\<lambda>r. case r of Done x \<Rightarrow> f x | Panic s \<Rightarrow> Some (Panic s)
      | Fault \<Rightarrow> Some Fault | Spin \<Rightarrow> Some Spin | Asleep \<Rightarrow> Some Asleep)"

definition lift :: "'a kresult \<Rightarrow> 'a kresult option" where
  "lift r = Some r"

lemma lbind_simps [simp]:
  "lbind None f = None"
  "lbind (Some (Done x)) f = f x"
  "lbind (Some (Panic s)) f = Some (Panic s)"
  "lbind (Some Fault) f = Some Fault"
  "lbind (Some Spin) f = Some Spin"
  "lbind (Some Asleep) f = Some Asleep"
  by (simp_all add: lbind_def)

lemma lbind_mono [partial_function_mono]:
  assumes "mono_option B" and "\<And>y. mono_option (\<lambda>f. C y f)"
  shows "mono_option (\<lambda>f. lbind (B f) (\<lambda>y. C y f))"
  unfolding lbind_def
proof (rule bind_mono [OF assms(1)])
  fix r :: "'c kresult"
  show "mono_option (\<lambda>f. case r of Done x \<Rightarrow> C x f | Panic s \<Rightarrow> Some (Panic s)
      | Fault \<Rightarrow> Some Fault | Spin \<Rightarrow> Some Spin | Asleep \<Rightarrow> Some Asleep)"
    by (cases r) (auto intro: assms(2) option.const_mono)
qed

lemma kbind_Done_iff [simp]:
  "kbind m f = Done y \<longleftrightarrow> (\<exists>x. m = Done x \<and> f x = Done y)"
  by (cases m) auto

lemma kassert_simps [simp]:
  "kassert True m k = k"
  "kassert False m k = Panic m"
  by (simp_all add: kassert_def)

lemma kassert_Done_iff [simp]: "kassert c m k = Done y \<longleftrightarrow> c \<and> k = Done y"
  by (simp add: kassert_def)

lemma unat_u32: "unat (a :: u32) < 4294967296"
  using unsigned_less [of a, where ?'a = nat] by simp

lemma unat_add_u32: "unat a + unat b < 2 ^ 32 \<Longrightarrow> unat (a + b :: u32) = unat a + unat b"
  by (simp add: unat_word_ariths)

text \<open>Ring buffers indexed by free-running 32-bit counters.\<close>

lemma of_nat_u32_eq: "i < 2 ^ 32 \<Longrightarrow> j < 2 ^ 32 \<Longrightarrow> (of_nat i :: u32) = of_nat j \<longleftrightarrow> i = j"
  by (simp add: word_unat_eq_iff unat_of_nat)

lemma ring_index: "n dvd 2 ^ 32 \<Longrightarrow> unat (w + of_nat i :: u32) mod n = (unat w + i) mod n"
  by (simp add: unat_word_ariths unat_of_nat mod_mod_cancel mod_add_right_eq)

lemma ring_distinct: "i < k \<Longrightarrow> k < n \<Longrightarrow> ((a::nat) + i) mod n \<noteq> (a + k) mod n"
  using mod_eq_dvd_iff_nat [of "a + i" "a + k" n] nat_dvd_not_less [of "k - i" n] by force

lemma in_set_tlD: "x \<in> set (tl xs) \<Longrightarrow> x \<in> set xs"
  by (cases xs) auto

section \<open>Loops\<close>

text \<open>A counting loop: the body is run for every element of a list, in order.\<close>

primrec kfold :: "('a \<Rightarrow> 's \<Rightarrow> 's kresult) \<Rightarrow> 'a list \<Rightarrow> 's \<Rightarrow> 's kresult" where
  "kfold f [] s = Done s"
| "kfold f (x # xs) s = kbind (f x s) (kfold f xs)"

lemma kfold_append: "kfold f (xs @ ys) s = kbind (kfold f xs s) (kfold f ys)"
proof (induction xs arbitrary: s)
  case (Cons x xs)
  then show ?case by (cases "f x s") auto
qed simp

lemma kfold_map: "kfold f (map g xs) s = kfold (\<lambda>x. f (g x)) xs s"
  by (induction xs arbitrary: s) (auto intro!: arg_cong2 [of _ _ _ _ kbind])

text \<open>
  A loop of the kernel: while \<open>b\<close> holds, run \<open>c\<close>, which goes on with a new loop state (\<open>Inl\<close>) or returns
  from the surrounding function (\<open>Inr\<close>). A loop that never ends is \<open>Spin\<close>, like any other busy wait.
\<close>

definition loop_test :: "('x \<Rightarrow> bool) \<Rightarrow> ('x + 'r) kresult \<Rightarrow> bool" where
  "loop_test b y = (case y of Done (Inl x) \<Rightarrow> b x | _ \<Rightarrow> False)"

definition loop_body :: "('x \<Rightarrow> ('x + 'r) kresult) \<Rightarrow> ('x + 'r) kresult \<Rightarrow> ('x + 'r) kresult" where
  "loop_body c y = kbind y (case_sum c (\<lambda>r. Done (Inr r)))"

definition kloop :: "('x \<Rightarrow> bool) \<Rightarrow> ('x \<Rightarrow> ('x + 'r) kresult) \<Rightarrow> 'x \<Rightarrow> ('x + 'r) kresult" where
  "kloop b c x = (case while_option (loop_test b) (loop_body c) (Done (Inl x)) of None \<Rightarrow> Spin | Some y \<Rightarrow> y)"

lemma kloop_unfold:
  "kloop b c x = (if b x then kbind (c x) (case_sum (kloop b c) (\<lambda>r. Done (Inr r))) else Done (Inl x))"
proof (cases "b x")
  case True
  have u: "while_option (loop_test b) (loop_body c) y = (if loop_test b y
      then while_option (loop_test b) (loop_body c) (loop_body c y) else Some y)" for y
    by (rule while_option_unfold)
  have stop: "while_option (loop_test b) (loop_body c) y = Some y" if "\<not> loop_test b y" for y
    using u [of y] that by simp
  have "while_option (loop_test b) (loop_body c) (Done (Inl x)) = while_option (loop_test b) (loop_body c) (c x)"
    using u [of "Done (Inl x)"] True by (simp add: loop_test_def loop_body_def)
  then have eq: "kloop b c x = (case while_option (loop_test b) (loop_body c) (c x) of None \<Rightarrow> Spin | Some y \<Rightarrow> y)"
    by (simp add: kloop_def)
  show ?thesis
  proof (cases "c x")
    case (Done y)
    then show ?thesis using eq True stop [of "Done y"]
      by (cases y) (simp_all add: kloop_def loop_test_def)
  qed (use eq True stop [of "c x"] in \<open>simp_all add: loop_test_def\<close>)
next
  case False
  then show ?thesis
    using while_option_unfold [of "loop_test b" "loop_body c" "Done (Inl x)"] by (simp add: kloop_def loop_test_def)
qed

text \<open>Total correctness of a loop: an invariant, a measure, and what an early return establishes.\<close>

lemma kloop_rule:
  assumes "I x"
    and "\<And>x. I x \<Longrightarrow> b x \<Longrightarrow> \<exists>y. c x = Done y \<and> (case y of Inl x' \<Rightarrow> I x' \<and> f x' < (f x :: nat) | Inr r \<Rightarrow> Q r)"
  shows "\<exists>y. kloop b c x = Done y \<and> (case y of Inl x' \<Rightarrow> I x' \<and> \<not> b x' | Inr r \<Rightarrow> Q r)"
  using assms(1)
proof (induction "f x" arbitrary: x rule: less_induct)
  case less
  show ?case
  proof (cases "b x")
    case True
    obtain y where y: "c x = Done y" "case y of Inl x' \<Rightarrow> I x' \<and> f x' < f x | Inr r \<Rightarrow> Q r"
      using assms(2) [OF less.prems True] by blast
    show ?thesis
    proof (cases y)
      case (Inl x')
      then show ?thesis using y less.hyps [of x'] True by (simp add: kloop_unfold [of b c x])
    next
      case (Inr r)
      then show ?thesis using y True by (simp add: kloop_unfold [of b c x])
    qed
  next
    case False
    then show ?thesis using less.prems by (simp add: kloop_unfold [of b c x])
  qed
qed

text \<open>Partial correctness: what every turn keeps holds at the end, if there is one.\<close>

lemma kloop_keeps:
  assumes "kloop b c x = Done y" and "I x" and "\<And>x x'. I x \<Longrightarrow> c x = Done (Inl x') \<Longrightarrow> I x'" and "\<And>x r. I x \<Longrightarrow> c x = Done (Inr r) \<Longrightarrow> Q r"
  shows "case y of Inl x' \<Rightarrow> I x' | Inr r \<Rightarrow> Q r"
proof -
  let ?P = "\<lambda>z. \<forall>y. z = Done y \<longrightarrow> (case y of Inl x' \<Rightarrow> I x' | Inr r \<Rightarrow> Q r)"
  have w: "while_option (loop_test b) (loop_body c) (Done (Inl x)) = Some (Done y)"
    using assms(1) by (auto simp: kloop_def split: option.splits)
  have "?P (Done y)"
  proof (rule while_option_rule [OF _ w])
    show "?P (loop_body c z)" if z: "?P z" "loop_test b z" for z
    proof -
      obtain x' where x': "z = Done (Inl x')" using z(2) by (auto simp: loop_test_def split: kresult.splits sum.splits)
      then have "I x'" using z(1) by simp
      then show ?thesis using assms(3,4) by (auto simp: loop_body_def x' split: sum.splits)
    qed
  qed (use assms(2) in simp)
  then show ?thesis by simp
qed

text \<open>A loop without a return in its body.\<close>

definition kwhile :: "('x \<Rightarrow> bool) \<Rightarrow> ('x \<Rightarrow> 'x kresult) \<Rightarrow> 'x \<Rightarrow> 'x kresult" where
  "kwhile b c x = kbind (kloop b (\<lambda>x. kbind (c x) (\<lambda>y. Done (Inl y :: 'x + 'x))) x) (case_sum Done Done)"

lemma kwhile_unfold: "kwhile b c x = (if b x then kbind (c x) (kwhile b c) else Done x)"
  unfolding kwhile_def
  by (subst kloop_unfold) (cases "c x"; simp)

lemma kwhile_rule:
  assumes "I x" and "\<And>x. I x \<Longrightarrow> b x \<Longrightarrow> \<exists>y. c x = Done y \<and> I y \<and> f y < (f x :: nat)"
  shows "\<exists>y. kwhile b c x = Done y \<and> I y \<and> \<not> b y"
proof -
  have "\<exists>y. kloop b (\<lambda>x. kbind (c x) (\<lambda>y. Done (Inl y :: 'a + 'a))) x = Done y
      \<and> (case y of Inl x' \<Rightarrow> I x' \<and> \<not> b x' | Inr r \<Rightarrow> False)"
  proof (rule kloop_rule [where I = I and f = f and Q = "\<lambda>_. False"])
    fix x assume "I x" "b x"
    then show "\<exists>y. kbind (c x) (\<lambda>y. Done (Inl y :: 'a + 'a)) = Done y \<and> (case y of Inl x' \<Rightarrow> I x' \<and> f x' < f x | Inr r \<Rightarrow> False)"
      using assms(2) by fastforce
  qed (rule assms(1))
  then obtain y where "kloop b (\<lambda>x. kbind (c x) (\<lambda>y. Done (Inl y :: 'a + 'a))) x = Done y"
    "case y of Inl x' \<Rightarrow> I x' \<and> \<not> b x' | Inr r \<Rightarrow> False" by blast
  then show ?thesis by (cases y) (simp_all add: kwhile_def)
qed

end
