(* ===== verification/Klist.thy ===== *)
theory Klist
  imports Prelude
begin

text \<open>
  The intrusive doubly linked list of list.h and list.c (project 4), used by the condition
  variables of sysfile.c. Elements live at 32-bit addresses; the store \<open>lheap\<close> gives the
  two links of the element at each address. A \<open>struct list\<close> at address \<open>l\<close> embeds its
  head at \<open>l\<close> and its tail eight bytes further. Dereferencing NULL is \<open>Fault\<close>, a failed
  ASSERT is \<open>Panic\<close>, a loop that never leaves its list is \<open>None\<close>.
\<close>

type_synonym ptr = u32

abbreviation NULL :: ptr where
  "NULL \<equiv> 0"

record list_elem =
  prv :: ptr
  nxt :: ptr

type_synonym lheap = "ptr \<Rightarrow> list_elem"

definition list_head_addr :: "ptr \<Rightarrow> ptr" where
  "list_head_addr l = l"

definition list_tail_addr :: "ptr \<Rightarrow> ptr" where
  "list_tail_addr l = l + 8"

text \<open>A memory location that holds a link: the operand of a C assignment.\<close>

datatype loc = PrevOf ptr | NextOf ptr

primrec ld :: "loc \<Rightarrow> lheap \<Rightarrow> ptr kresult" where
  "ld (PrevOf p) h = (if p = NULL then Fault else Done (prv (h p)))"
| "ld (NextOf p) h = (if p = NULL then Fault else Done (nxt (h p)))"

definition set_prv :: "ptr \<Rightarrow> ptr \<Rightarrow> lheap \<Rightarrow> lheap" where
  "set_prv p v h = h(p := (h p)\<lparr>prv := v\<rparr>)"

definition set_nxt :: "ptr \<Rightarrow> ptr \<Rightarrow> lheap \<Rightarrow> lheap" where
  "set_nxt p v h = h(p := (h p)\<lparr>nxt := v\<rparr>)"

primrec st :: "loc \<Rightarrow> ptr \<Rightarrow> lheap \<Rightarrow> lheap kresult" where
  "st (PrevOf p) v h = (if p = NULL then Fault else Done (set_prv p v h))"
| "st (NextOf p) v h = (if p = NULL then Fault else Done (set_nxt p v h))"

lemma links_set [simp]:
  "prv (set_prv p v h x) = (if x = p then v else prv (h x))"
  "nxt (set_prv p v h x) = nxt (h x)"
  "nxt (set_nxt p v h x) = (if x = p then v else nxt (h x))"
  "prv (set_nxt p v h x) = prv (h x)"
  by (simp_all add: set_prv_def set_nxt_def)

lemma heap_eqI:
  fixes h h' :: lheap
  shows "(\<And>x. prv (h x) = prv (h' x)) \<Longrightarrow> (\<And>x. nxt (h x) = nxt (h' x)) \<Longrightarrow> h = h'"
  by (rule ext) (rule list_elem.equality, simp_all)

lemma set_other [simp]:
  "x \<noteq> p \<Longrightarrow> set_prv p v h x = h x"
  "x \<noteq> p \<Longrightarrow> set_nxt p v h x = h x"
  by (simp_all add: set_prv_def set_nxt_def)

definition ASSERT :: "bool \<Rightarrow> 'a kresult \<Rightarrow> 'a kresult" where
  "ASSERT c k = kassert c ''assert failed'' k"

section \<open>Operations\<close>

definition is_head :: "lheap \<Rightarrow> ptr \<Rightarrow> bool" where
  "is_head h e \<longleftrightarrow> e \<noteq> NULL \<and> prv (h e) = NULL \<and> nxt (h e) \<noteq> NULL"

definition is_interior :: "lheap \<Rightarrow> ptr \<Rightarrow> bool" where
  "is_interior h e \<longleftrightarrow> e \<noteq> NULL \<and> prv (h e) \<noteq> NULL \<and> nxt (h e) \<noteq> NULL"

definition is_tail :: "lheap \<Rightarrow> ptr \<Rightarrow> bool" where
  "is_tail h e \<longleftrightarrow> e \<noteq> NULL \<and> prv (h e) \<noteq> NULL \<and> nxt (h e) = NULL"

definition list_init :: "ptr \<Rightarrow> lheap \<Rightarrow> lheap kresult" where
  "list_init l h =
     ASSERT (l \<noteq> NULL)
     (kbind (st (PrevOf (list_head_addr l)) NULL h) (\<lambda>h.
      kbind (st (NextOf (list_head_addr l)) (list_tail_addr l) h) (\<lambda>h.
      kbind (st (PrevOf (list_tail_addr l)) (list_head_addr l) h) (\<lambda>h.
      st (NextOf (list_tail_addr l)) NULL h))))"

definition list_begin :: "ptr \<Rightarrow> lheap \<Rightarrow> ptr kresult" where
  "list_begin l h = ASSERT (l \<noteq> NULL) (ld (NextOf (list_head_addr l)) h)"

definition list_next :: "ptr \<Rightarrow> lheap \<Rightarrow> ptr kresult" where
  "list_next e h = ASSERT (is_head h e \<or> is_interior h e) (ld (NextOf e) h)"

definition list_end :: "ptr \<Rightarrow> ptr kresult" where
  "list_end l = ASSERT (l \<noteq> NULL) (Done (list_tail_addr l))"

definition list_rbegin :: "ptr \<Rightarrow> lheap \<Rightarrow> ptr kresult" where
  "list_rbegin l h = ASSERT (l \<noteq> NULL) (ld (PrevOf (list_tail_addr l)) h)"

definition list_prev :: "ptr \<Rightarrow> lheap \<Rightarrow> ptr kresult" where
  "list_prev e h = ASSERT (is_interior h e \<or> is_tail h e) (ld (PrevOf e) h)"

definition list_rend :: "ptr \<Rightarrow> ptr kresult" where
  "list_rend l = ASSERT (l \<noteq> NULL) (Done (list_head_addr l))"

definition list_head :: "ptr \<Rightarrow> ptr kresult" where
  "list_head l = ASSERT (l \<noteq> NULL) (Done (list_head_addr l))"

definition list_tail :: "ptr \<Rightarrow> ptr kresult" where
  "list_tail l = ASSERT (l \<noteq> NULL) (Done (list_tail_addr l))"

definition list_insert :: "ptr \<Rightarrow> ptr \<Rightarrow> lheap \<Rightarrow> lheap kresult" where
  "list_insert before elem h =
     ASSERT (is_interior h before \<or> is_tail h before)
     (ASSERT (elem \<noteq> NULL)
     (kbind (ld (PrevOf before) h) (\<lambda>p.
      kbind (st (PrevOf elem) p h) (\<lambda>h.
      kbind (st (NextOf elem) before h) (\<lambda>h.
      kbind (ld (PrevOf before) h) (\<lambda>p.
      kbind (st (NextOf p) elem h) (\<lambda>h.
      st (PrevOf before) elem h)))))))"

definition list_splice :: "ptr \<Rightarrow> ptr \<Rightarrow> ptr \<Rightarrow> lheap \<Rightarrow> lheap kresult" where
  "list_splice before first lst h =
     ASSERT (is_interior h before \<or> is_tail h before)
     (if first = lst then Done h
      else kbind (list_prev lst h) (\<lambda>lst.
        ASSERT (is_interior h first)
        (ASSERT (is_interior h lst)
        (kbind (ld (PrevOf first) h) (\<lambda>fp.
         kbind (ld (NextOf lst) h) (\<lambda>ln.
         kbind (st (NextOf fp) ln h) (\<lambda>h.
         kbind (ld (NextOf lst) h) (\<lambda>ln.
         kbind (ld (PrevOf first) h) (\<lambda>fp.
         kbind (st (PrevOf ln) fp h) (\<lambda>h.
         kbind (ld (PrevOf before) h) (\<lambda>bp.
         kbind (st (PrevOf first) bp h) (\<lambda>h.
         kbind (st (NextOf lst) before h) (\<lambda>h.
         kbind (ld (PrevOf before) h) (\<lambda>bp.
         kbind (st (NextOf bp) first h) (\<lambda>h.
         st (PrevOf before) lst h)))))))))))))))"

definition list_push_front :: "ptr \<Rightarrow> ptr \<Rightarrow> lheap \<Rightarrow> lheap kresult" where
  "list_push_front l elem h = kbind (list_begin l h) (\<lambda>b. list_insert b elem h)"

definition list_push_back :: "ptr \<Rightarrow> ptr \<Rightarrow> lheap \<Rightarrow> lheap kresult" where
  "list_push_back l elem h = kbind (list_end l) (\<lambda>e. list_insert e elem h)"

definition list_remove :: "ptr \<Rightarrow> lheap \<Rightarrow> (ptr \<times> lheap) kresult" where
  "list_remove elem h =
     ASSERT (is_interior h elem)
     (kbind (ld (PrevOf elem) h) (\<lambda>p.
      kbind (ld (NextOf elem) h) (\<lambda>n.
      kbind (st (NextOf p) n h) (\<lambda>h.
      kbind (ld (NextOf elem) h) (\<lambda>n.
      kbind (ld (PrevOf elem) h) (\<lambda>p.
      kbind (st (PrevOf n) p h) (\<lambda>h.
      kbind (ld (NextOf elem) h) (\<lambda>n. Done (n, h)))))))))"

definition list_empty :: "ptr \<Rightarrow> lheap \<Rightarrow> bool kresult" where
  "list_empty l h = kbind (list_begin l h) (\<lambda>b. kbind (list_end l) (\<lambda>e. Done (b = e)))"

definition list_front :: "ptr \<Rightarrow> lheap \<Rightarrow> ptr kresult" where
  "list_front l h = kbind (list_empty l h) (\<lambda>b. ASSERT (\<not> b) (ld (NextOf (list_head_addr l)) h))"

definition list_back :: "ptr \<Rightarrow> lheap \<Rightarrow> ptr kresult" where
  "list_back l h = kbind (list_empty l h) (\<lambda>b. ASSERT (\<not> b) (ld (PrevOf (list_tail_addr l)) h))"

definition list_pop_front :: "ptr \<Rightarrow> lheap \<Rightarrow> (ptr \<times> lheap) kresult" where
  "list_pop_front l h = kbind (list_front l h) (\<lambda>f. kbind (list_remove f h) (\<lambda>(_, h). Done (f, h)))"

definition list_pop_back :: "ptr \<Rightarrow> lheap \<Rightarrow> (ptr \<times> lheap) kresult" where
  "list_pop_back l h = kbind (list_back l h) (\<lambda>b. kbind (list_remove b h) (\<lambda>(_, h). Done (b, h)))"

text \<open>\<open>size_t\<close> is 32 bits wide on the i386.\<close>

partial_function (option) list_size_loop :: "ptr \<Rightarrow> ptr \<Rightarrow> u32 \<Rightarrow> lheap \<Rightarrow> u32 kresult option" where
  "list_size_loop l e cnt h =
     lbind (lift (list_end l)) (\<lambda>t.
       if e = t then Some (Done cnt)
       else lbind (lift (list_next e h)) (\<lambda>e. list_size_loop l e (cnt + 1) h))"

definition list_size :: "ptr \<Rightarrow> lheap \<Rightarrow> u32 kresult option" where
  "list_size l h = lbind (lift (list_begin l h)) (\<lambda>e. list_size_loop l e 0 h)"

definition swap :: "loc \<Rightarrow> loc \<Rightarrow> lheap \<Rightarrow> lheap kresult" where
  "swap a b h =
     kbind (ld a h) (\<lambda>t.
     kbind (ld b h) (\<lambda>v.
     kbind (st a v h) (\<lambda>h. st b t h)))"

partial_function (option) list_reverse_loop :: "ptr \<Rightarrow> ptr \<Rightarrow> lheap \<Rightarrow> lheap kresult option" where
  "list_reverse_loop l e h =
     lbind (lift (list_end l)) (\<lambda>t.
       if e = t then Some (Done h)
       else lbind (lift (swap (PrevOf e) (NextOf e) h)) (\<lambda>h.
            lbind (lift (ld (PrevOf e) h)) (\<lambda>e. list_reverse_loop l e h)))"

definition list_reverse :: "ptr \<Rightarrow> lheap \<Rightarrow> lheap kresult option" where
  "list_reverse l h =
     lbind (lift (list_empty l h)) (\<lambda>b.
       if b then Some (Done h)
       else lbind (lift (list_begin l h)) (\<lambda>e.
            lbind (list_reverse_loop l e h) (\<lambda>h.
            lbind (lift (swap (NextOf (list_head_addr l)) (PrevOf (list_tail_addr l)) h)) (\<lambda>h.
            lbind (lift (ld (NextOf (list_head_addr l)) h)) (\<lambda>a.
            lbind (lift (ld (PrevOf (list_tail_addr l)) h)) (\<lambda>b.
            lift (swap (PrevOf a) (NextOf b) h)))))))"

section \<open>Well-formed lists\<close>

text \<open>
  \<open>linked h ns\<close>: consecutive addresses of \<open>ns\<close> point at each other. A list at \<open>l\<close>
  holds the interior elements \<open>xs\<close> when head, \<open>xs\<close> and tail are linked in this order,
  are pairwise different and none is NULL, and the outer links are NULL.
\<close>

fun linked :: "lheap \<Rightarrow> ptr list \<Rightarrow> bool" where
  "linked h (a # b # ns) \<longleftrightarrow> nxt (h a) = b \<and> prv (h b) = a \<and> linked h (b # ns)"
| "linked h _ \<longleftrightarrow> True"

definition nodes :: "ptr \<Rightarrow> ptr list \<Rightarrow> ptr list" where
  "nodes l xs = list_head_addr l # xs @ [list_tail_addr l]"

definition dll :: "lheap \<Rightarrow> ptr \<Rightarrow> ptr list \<Rightarrow> bool" where
  "dll h l xs \<longleftrightarrow> linked h (nodes l xs) \<and> distinct (nodes l xs) \<and> NULL \<notin> set (nodes l xs)
     \<and> prv (h (list_head_addr l)) = NULL \<and> nxt (h (list_tail_addr l)) = NULL"

lemma linked_append:
  "linked h (xs @ y # ys) \<longleftrightarrow> linked h (xs @ [y]) \<and> linked h (y # ys)"
proof (induction xs)
  case (Cons x xs)
  then show ?case by (cases xs) auto
qed simp

lemma linked_frame:
  "(\<And>p. p \<in> set ns \<Longrightarrow> h' p = h p) \<Longrightarrow> linked h' ns = linked h ns"
  by (induction h ns rule: linked.induct) auto

lemma linked_mid:
  assumes "linked h (xs @ a # b # ys)"
  shows "nxt (h a) = b" and "prv (h b) = a"
  using assms linked_append [of h xs a "b # ys"] by auto

lemma linked_upd_notin [simp]:
  "p \<notin> set ns \<Longrightarrow> linked (h(p := e)) ns = linked h ns"
  by (rule linked_frame) auto

lemma dll_neq_NULL:
  assumes "dll h l xs"
  shows "l \<noteq> NULL" and "list_head_addr l \<noteq> NULL" and "list_tail_addr l \<noteq> NULL"
    and "list_head_addr l \<noteq> list_tail_addr l" and "x \<in> set xs \<Longrightarrow> x \<noteq> NULL"
  using assms by (auto simp: dll_def nodes_def list_head_addr_def list_tail_addr_def)

text \<open>The neighbours of a node at a known position.\<close>

lemma dll_split:
  assumes "dll h l xs" and "nodes l xs = as @ a # b # bs"
  shows "nxt (h a) = b" and "prv (h b) = a" and "a \<noteq> b" and "a \<noteq> NULL" and "b \<noteq> NULL"
    and "a \<notin> set as" and "b \<notin> set as" and "a \<notin> set bs" and "b \<notin> set bs"
    and "linked h (as @ [a])" and "linked h (b # bs)" and "set as \<inter> set bs = {}"
proof -
  have ln: "linked h (as @ a # b # bs)" and ds: "distinct (as @ a # b # bs)"
    and nn: "NULL \<notin> set (as @ a # b # bs)"
    using assms by (simp_all add: dll_def)
  show "nxt (h a) = b" "prv (h b) = a" using linked_mid [OF ln] by auto
  show "a \<noteq> b" "a \<noteq> NULL" "b \<noteq> NULL" "a \<notin> set as" "b \<notin> set as" "a \<notin> set bs" "b \<notin> set bs"
    "set as \<inter> set bs = {}"
    using ds nn by auto
  show "linked h (as @ [a])" using ln linked_append by blast
  show "linked h (b # bs)" using ln linked_append [of h as a "b # bs"] by simp
qed

lemma dll_interior:
  assumes "dll h l xs" and "x \<in> set xs"
  shows "is_interior h x"
proof -
  obtain ys zs where xs: "xs = ys @ x # zs"
    using assms(2) by (meson split_list)
  have n1: "nodes l xs = butlast (list_head_addr l # ys) @ last (list_head_addr l # ys) # x # (zs @ [list_tail_addr l])"
    using append_butlast_last_id [of "list_head_addr l # ys"]
    by (simp add: nodes_def xs del: butlast.simps last.simps)
  have n2: "nodes l xs = (list_head_addr l # ys) @ x # hd (zs @ [list_tail_addr l]) # tl (zs @ [list_tail_addr l])"
    by (simp add: nodes_def xs)
  show ?thesis
    using dll_split [OF assms(1) n1] dll_split [OF assms(1) n2]
    by (simp add: is_interior_def)
qed

lemma dll_head: "dll h l xs \<Longrightarrow> is_head h (list_head_addr l)"
  using dll_split [of h l xs "[]" "list_head_addr l" "hd (xs @ [list_tail_addr l])" "tl (xs @ [list_tail_addr l])"]
  by (auto simp: nodes_def is_head_def dll_def)

lemma dll_tail: "dll h l xs \<Longrightarrow> is_tail h (list_tail_addr l)"
  using dll_split [of h l xs "butlast (list_head_addr l # xs)" "last (list_head_addr l # xs)" "list_tail_addr l" "[]"]
    append_butlast_last_id [of "list_head_addr l # xs"]
  by (auto simp: nodes_def is_tail_def dll_def simp del: butlast.simps last.simps)

lemma is_tail_not_interior: "is_tail h e \<Longrightarrow> \<not> is_interior h e"
  by (simp add: is_tail_def is_interior_def)

section \<open>What the operations do to well-formed lists\<close>

lemma linked_cong_snoc:
  assumes "\<And>a. a \<in> set as \<Longrightarrow> h' a = h a" and "prv (h' p) = prv (h p)"
  shows "linked h' (as @ [p]) = linked h (as @ [p])"
  using assms
proof (induction as)
  case (Cons a as)
  then show ?case by (cases as) auto
qed simp

lemma linked_cong_Cons:
  assumes "\<And>a. a \<in> set bs \<Longrightarrow> h' a = h a" and "nxt (h' b) = nxt (h b)"
  shows "linked h' (b # bs) = linked h (b # bs)"
  using assms by (induction bs arbitrary: b) auto

lemma nodes_around:
  obtains as bs where "nodes l (ys @ zs) = as @ last (list_head_addr l # ys) # hd (zs @ [list_tail_addr l]) # bs"
    and "as = butlast (list_head_addr l # ys)" and "bs = tl (zs @ [list_tail_addr l])"
proof -
  have "nodes l (ys @ zs) = (list_head_addr l # ys) @ (zs @ [list_tail_addr l])"
    by (simp add: nodes_def)
  also have "\<dots> = butlast (list_head_addr l # ys) @ last (list_head_addr l # ys)
      # hd (zs @ [list_tail_addr l]) # tl (zs @ [list_tail_addr l])"
    using append_butlast_last_id [of "list_head_addr l # ys"]
    by (simp del: butlast.simps last.simps)
  finally show ?thesis using that by blast
qed

lemma dll_before:
  assumes "dll h l (ys @ zs)"
  shows "is_interior h (hd (zs @ [list_tail_addr l])) \<or> is_tail h (hd (zs @ [list_tail_addr l]))"
  using dll_tail [OF assms] dll_interior [OF assms] by (cases zs) auto

lemma list_insert_exec:
  assumes "is_interior h b \<or> is_tail h b" and "prv (h b) = p" and "distinct [e, p, b]"
    and "e \<noteq> NULL" and "p \<noteq> NULL"
  shows "list_insert b e h =
    Done (h(e := (h e)\<lparr>prv := p, nxt := b\<rparr>, p := (h p)\<lparr>nxt := e\<rparr>, b := (h b)\<lparr>prv := e\<rparr>))"
proof -
  have "b \<noteq> NULL" using assms(1) by (auto simp: is_interior_def is_tail_def)
  then show ?thesis
    using assms by (auto simp: list_insert_def ASSERT_def intro!: heap_eqI)
qed

lemma linked_insert:
  assumes "linked h (as @ p # b # bs)" and "distinct (as @ p # b # bs)"
    and "e \<notin> set (as @ p # b # bs)"
    and "h' = h(e := (h e)\<lparr>prv := p, nxt := b\<rparr>, p := (h p)\<lparr>nxt := e\<rparr>, b := (h b)\<lparr>prv := e\<rparr>)"
  shows "linked h' (as @ p # e # b # bs)"
proof -
  have "linked h (as @ [p])" "linked h (b # bs)"
    using assms(1) linked_append [of h as p "b # bs"] by auto
  moreover have "linked h' (as @ [p]) = linked h (as @ [p])"
    using assms(2,3) by (intro linked_cong_snoc) (auto simp: assms(4))
  moreover have "linked h' (b # bs) = linked h (b # bs)"
    using assms(2,3) by (intro linked_cong_Cons) (auto simp: assms(4))
  ultimately show ?thesis
    using assms(2,3) linked_append [of h' as p "e # b # bs"] by (auto simp: assms(4))
qed

lemma list_insert_dll:
  assumes "dll h l (ys @ zs)" and "b = hd (zs @ [list_tail_addr l])"
    and "e \<notin> set (nodes l (ys @ zs))" and "e \<noteq> NULL"
  obtains h' where "list_insert b e h = Done h'" and "dll h' l (ys @ e # zs)"
    and "\<And>q. q \<notin> insert e (set (nodes l (ys @ zs))) \<Longrightarrow> h' q = h q"
proof -
  let ?p = "last (list_head_addr l # ys)"
  obtain as bs where n: "nodes l (ys @ zs) = as @ ?p # b # bs"
    and as: "as = butlast (list_head_addr l # ys)" and bs: "bs = tl (zs @ [list_tail_addr l])"
    using nodes_around [of l ys zs thesis] assms(2) by blast
  note sp = dll_split [OF assms(1) n]
  define h' where "h' = h(e := (h e)\<lparr>prv := ?p, nxt := b\<rparr>, ?p := (h ?p)\<lparr>nxt := e\<rparr>, b := (h b)\<lparr>prv := e\<rparr>)"
  have eb: "e \<noteq> b" "e \<noteq> ?p" using assms(3) n by auto
  have run: "list_insert b e h = Done h'"
    unfolding h'_def using sp eb assms(4) dll_before [OF assms(1)] assms(2)
    by (intro list_insert_exec) auto
  have n': "nodes l (ys @ e # zs) = as @ ?p # e # b # bs"
    using append_butlast_last_id [of "list_head_addr l # ys"]
    by (simp add: nodes_def as bs assms(2) del: butlast.simps last.simps)
  have "dll h' l (ys @ e # zs)"
    unfolding dll_def n'
  proof (intro conjI)
    show "linked h' (as @ ?p # e # b # bs)"
      using assms(1,3) n by (intro linked_insert [of h]) (simp_all add: dll_def h'_def)
    show "distinct (as @ ?p # e # b # bs)" "NULL \<notin> set (as @ ?p # e # b # bs)"
      using assms(1,3,4) n by (auto simp: dll_def)
    have hd: "list_head_addr l \<notin> {e, b}" "list_tail_addr l \<notin> {e, ?p}"
      using assms(1,2,3) by (cases zs; auto simp: dll_def nodes_def)+
    then show "prv (h' (list_head_addr l)) = NULL" "nxt (h' (list_tail_addr l)) = NULL"
      using assms(1) by (auto simp: h'_def dll_def)
  qed
  moreover have "\<And>q. q \<notin> insert e (set (nodes l (ys @ zs))) \<Longrightarrow> h' q = h q"
    unfolding n by (auto simp: h'_def)
  ultimately show ?thesis using run that by blast
qed

text \<open>
  Cutting and joining: \<open>linked\<close> of a concatenation, and the fact that a segment is kept by
  every update that spares the forward links of all but its last node and the backward links
  of all but its first.
\<close>

lemma linked_app:
  "linked h (xs @ ys) \<longleftrightarrow> linked h xs \<and> linked h ys \<and>
     (xs \<noteq> [] \<longrightarrow> ys \<noteq> [] \<longrightarrow> nxt (h (last xs)) = hd ys \<and> prv (h (hd ys)) = last xs)"
proof (induction xs)
  case (Cons x xs)
  then show ?case by (cases xs; cases ys) auto
qed simp

lemma linked_cong:
  assumes "\<And>a. a \<in> set (butlast ns) \<Longrightarrow> nxt (h' a) = nxt (h a)"
    and "\<And>a. a \<in> set (tl ns) \<Longrightarrow> prv (h' a) = prv (h a)"
  shows "linked h' ns = linked h ns"
  using assms by (induction h ns rule: linked.induct) auto

lemma linked_cong_distinct:
  assumes "distinct ns"
    and "\<And>a. a \<in> set ns \<Longrightarrow> a \<noteq> last ns \<Longrightarrow> nxt (h' a) = nxt (h a)"
    and "\<And>a. a \<in> set ns \<Longrightarrow> a \<noteq> hd ns \<Longrightarrow> prv (h' a) = prv (h a)"
  shows "linked h' ns = linked h ns"
proof (cases "ns = []")
  case False
  then have "distinct (butlast ns @ [last ns])" "distinct (hd ns # tl ns)" using assms(1) by simp_all
  then have e: "last ns \<notin> set (butlast ns)" "hd ns \<notin> set (tl ns)" by (simp_all del: append_butlast_last_id)
  show ?thesis
  proof (rule linked_cong)
    show "nxt (h' a) = nxt (h a)" if "a \<in> set (butlast ns)" for a
      using e that by (intro assms(2)) (auto dest: in_set_butlastD)
    show "prv (h' a) = prv (h a)" if "a \<in> set (tl ns)" for a
      using e that by (intro assms(3)) (auto dest: in_set_tlD)
  qed
qed simp

lemma nodes_app: "nodes l (ys @ zs) = (list_head_addr l # ys) @ (zs @ [list_tail_addr l])"
  by (simp add: nodes_def)

lemma list_remove_exec:
  assumes "prv (h x) = p" and "nxt (h x) = n" and "distinct [p, x, n]" and "NULL \<notin> {p, x, n}"
  shows "list_remove x h = Done (n, h(p := (h p)\<lparr>nxt := n\<rparr>, n := (h n)\<lparr>prv := p\<rparr>))"
  using assms by (auto simp: list_remove_def ASSERT_def is_interior_def intro!: heap_eqI)

lemma linked_relink:
  assumes "linked h A" and "linked h B" and "distinct (A @ B)" and "A \<noteq> []" and "B \<noteq> []"
    and "\<And>a. nxt (h' a) = (if a = last A then hd B else nxt (h a))"
    and "\<And>a. prv (h' a) = (if a = hd B then last A else prv (h a))"
  shows "linked h' (A @ B)"
proof -
  have d: "distinct A" "distinct B" "set A \<inter> set B = {}" "last A \<in> set A" "hd B \<in> set B"
    using assms(3-5) by auto
  have "linked h' A = linked h A"
    using assms(6,7) d by (intro linked_cong_distinct) auto
  moreover have "linked h' B = linked h B"
    using assms(6,7) d by (intro linked_cong_distinct) auto
  ultimately show ?thesis using assms by (simp add: linked_app)
qed

lemma list_remove_dll:
  assumes "dll h l (ys @ x # zs)"
  obtains h' where "list_remove x h = Done (hd (zs @ [list_tail_addr l]), h')"
    and "dll h' l (ys @ zs)" and "\<And>q. q \<notin> set (nodes l (ys @ zs)) \<Longrightarrow> h' q = h q"
proof -
  define A where "A = list_head_addr l # ys"
  define B where "B = zs @ [list_tail_addr l]"
  define h' where "h' = h(last A := (h (last A))\<lparr>nxt := hd B\<rparr>, hd B := (h (hd B))\<lparr>prv := last A\<rparr>)"
  have n: "nodes l (ys @ x # zs) = A @ [x] @ B" and n': "nodes l (ys @ zs) = A @ B"
    by (simp_all add: nodes_def A_def B_def)
  have ne: "A \<noteq> []" "B \<noteq> []" "list_head_addr l = hd A" "list_tail_addr l = last B"
    by (simp_all add: A_def B_def)
  have ln: "linked h A" "linked h B" and x: "prv (h x) = last A" "nxt (h x) = hd B"
    using assms ne unfolding dll_def n linked_app by auto
  have ds: "distinct (A @ [x] @ B)" "NULL \<notin> set (A @ [x] @ B)"
    using assms unfolding dll_def n by blast+
  have mem: "last A \<in> set A" "hd B \<in> set B" "hd A \<in> set A" "last B \<in> set B" using ne by auto
  have sep: "distinct [last A, x, hd B]" "NULL \<notin> {last A, x, hd B}"
    using ds mem by auto
  have run: "list_remove x h = Done (hd B, h')"
    unfolding h'_def using x sep by (rule list_remove_exec)
  have ends: "prv (h (hd A)) = NULL" "nxt (h (last B)) = NULL"
    using assms by (simp_all add: dll_def ne)
  have "linked h' (A @ B)"
    using ln ds(1) ne sep by (intro linked_relink [of h]) (auto simp: h'_def)
  moreover have "hd A \<noteq> hd B" "last B \<noteq> last A" using ds(1) mem by auto
  ultimately have "dll h' l (ys @ zs)"
    using ds ends ne by (auto simp: dll_def n' h'_def)
  moreover have "\<And>q. q \<notin> set (nodes l (ys @ zs)) \<Longrightarrow> h' q = h q"
    unfolding n' using mem by (auto simp: h'_def)
  ultimately show ?thesis using run that by (simp add: B_def)
qed

lemma list_begin_dll: "dll h l xs \<Longrightarrow> list_begin l h = Done (hd (xs @ [list_tail_addr l]))"
  using dll_split [of h l xs "[]" "list_head_addr l" "hd (xs @ [list_tail_addr l])" "tl (xs @ [list_tail_addr l])"]
    dll_neq_NULL [of h l xs]
  by (simp add: list_begin_def ASSERT_def nodes_def)

lemma list_end_dll: "dll h l xs \<Longrightarrow> list_end l = Done (list_tail_addr l)"
  using dll_neq_NULL [of h l xs] by (simp add: list_end_def ASSERT_def)

lemma list_rbegin_dll: "dll h l xs \<Longrightarrow> list_rbegin l h = Done (last (list_head_addr l # xs))"
  using dll_split [of h l xs "butlast (list_head_addr l # xs)" "last (list_head_addr l # xs)" "list_tail_addr l" "[]"]
    append_butlast_last_id [of "list_head_addr l # xs"] dll_neq_NULL [of h l xs]
  by (simp add: list_rbegin_def ASSERT_def nodes_def del: butlast.simps last.simps)

lemma tail_notin: "dll h l xs \<Longrightarrow> x \<in> set xs \<Longrightarrow> x \<noteq> list_tail_addr l \<and> x \<noteq> list_head_addr l"
  by (auto simp: dll_def nodes_def)

lemma list_empty_dll: "dll h l xs \<Longrightarrow> list_empty l h = Done (xs = [])"
  using tail_notin [of h l xs] by (cases xs) (auto simp: list_empty_def list_begin_dll list_end_dll)

lemma list_next_dll:
  assumes "dll h l (ys @ x # zs)"
  shows "list_next x h = Done (hd (zs @ [list_tail_addr l]))"
proof -
  have n: "nodes l (ys @ x # zs) = (list_head_addr l # ys) @ x # hd (zs @ [list_tail_addr l]) # tl (zs @ [list_tail_addr l])"
    by (simp add: nodes_def)
  show ?thesis
    using dll_split [OF assms n] dll_interior [OF assms, of x] by (simp add: list_next_def ASSERT_def)
qed

lemma list_prev_dll:
  assumes "dll h l (ys @ zs)"
  shows "list_prev (hd (zs @ [list_tail_addr l])) h = Done (last (list_head_addr l # ys))"
proof -
  obtain as bs where n: "nodes l (ys @ zs) = as @ last (list_head_addr l # ys) # hd (zs @ [list_tail_addr l]) # bs"
    using nodes_around by blast
  show ?thesis
    using dll_split [OF assms n] dll_before [OF assms] by (simp add: list_prev_def ASSERT_def del: last.simps)
qed

lemma list_size_loop_dll:
  assumes "dll h l (ys @ zs)"
  shows "list_size_loop l (hd (zs @ [list_tail_addr l])) c h = Some (Done (c + of_nat (length zs)))"
  using assms
proof (induction zs arbitrary: ys c)
  case Nil
  then show ?case by (simp add: list_size_loop.simps list_end_dll lift_def)
next
  case (Cons z zs)
  have "list_size_loop l (hd (zs @ [list_tail_addr l])) (c + 1) h = Some (Done (c + 1 + of_nat (length zs)))"
    using Cons.IH [of "ys @ [z]"] Cons.prems by simp
  then show ?case
    using tail_notin [OF Cons.prems, of z]
    by (simp add: list_size_loop.simps [of l z] list_end_dll [OF Cons.prems] list_next_dll [OF Cons.prems]
        lift_def add.assoc)
qed

lemma list_size_dll: "dll h l xs \<Longrightarrow> list_size l h = Some (Done (of_nat (length xs)))"
  using list_size_loop_dll [of h l "[]" xs 0] by (simp add: list_size_def lift_def list_begin_dll)

lemma list_init_dll:
  assumes "l \<noteq> NULL" and "list_tail_addr l \<noteq> NULL"
  obtains h' where "list_init l h = Done h'" and "dll h' l []"
    and "\<And>q. q \<notin> {list_head_addr l, list_tail_addr l} \<Longrightarrow> h' q = h q"
proof -
  have ne: "list_head_addr l \<noteq> list_tail_addr l" "list_head_addr l \<noteq> NULL"
    using assms(1) by (simp_all add: list_head_addr_def list_tail_addr_def)
  let ?h = "h(list_head_addr l := (h (list_head_addr l))\<lparr>prv := NULL, nxt := list_tail_addr l\<rparr>,
    list_tail_addr l := (h (list_tail_addr l))\<lparr>prv := list_head_addr l, nxt := NULL\<rparr>)"
  have "list_init l h = Done ?h"
    using assms ne by (auto simp: list_init_def ASSERT_def intro!: heap_eqI)
  moreover have "dll ?h l []" using assms ne by (simp add: dll_def nodes_def)
  ultimately show ?thesis by (rule that) simp
qed

lemma list_push_back_dll:
  assumes "dll h l xs" and "e \<notin> set (nodes l xs)" and "e \<noteq> NULL"
  obtains h' where "list_push_back l e h = Done h'" and "dll h' l (xs @ [e])"
    and "\<And>q. q \<notin> insert e (set (nodes l xs)) \<Longrightarrow> h' q = h q"
  using list_insert_dll [of h l xs "[]" "list_tail_addr l" e] assms
  by (auto simp: list_push_back_def list_end_dll)

lemma list_push_front_dll:
  assumes "dll h l xs" and "e \<notin> set (nodes l xs)" and "e \<noteq> NULL"
  obtains h' where "list_push_front l e h = Done h'" and "dll h' l (e # xs)"
    and "\<And>q. q \<notin> insert e (set (nodes l xs)) \<Longrightarrow> h' q = h q"
  using list_insert_dll [of h l "[]" xs "hd (xs @ [list_tail_addr l])" e] assms
  by (auto simp: list_push_front_def list_begin_dll)

lemma list_front_dll:
  "dll h l xs \<Longrightarrow> list_front l h = (case xs of [] \<Rightarrow> Panic ''assert failed'' | x # _ \<Rightarrow> Done x)"
  using list_begin_dll [of h l xs] dll_neq_NULL [of h l xs]
  by (auto simp: list_front_def list_empty_dll ASSERT_def list_begin_def split: list.split)

lemma list_back_dll:
  "dll h l xs \<Longrightarrow> list_back l h = (if xs = [] then Panic ''assert failed'' else Done (last xs))"
  using list_rbegin_dll [of h l xs] dll_neq_NULL [of h l xs]
  by (auto simp: list_back_def list_empty_dll ASSERT_def list_rbegin_def)

lemma list_pop_front_dll:
  assumes "dll h l (x # xs)"
  obtains h' where "list_pop_front l h = Done (x, h')" and "dll h' l xs"
    and "\<And>q. q \<notin> set (nodes l xs) \<Longrightarrow> h' q = h q"
proof -
  obtain h' where "list_remove x h = Done (hd (xs @ [list_tail_addr l]), h')" "dll h' l xs"
    "\<And>q. q \<notin> set (nodes l xs) \<Longrightarrow> h' q = h q"
    using list_remove_dll [of h l "[]" x xs] assms by auto
  then show ?thesis
    using that by (simp add: list_pop_front_def list_front_dll [OF assms])
qed

lemma list_pop_back_dll:
  assumes "dll h l (xs @ [x])"
  obtains h' where "list_pop_back l h = Done (x, h')" and "dll h' l xs"
    and "\<And>q. q \<notin> set (nodes l xs) \<Longrightarrow> h' q = h q"
proof -
  obtain h' where "list_remove x h = Done (list_tail_addr l, h')" "dll h' l xs"
    "\<And>q. q \<notin> set (nodes l xs) \<Longrightarrow> h' q = h q"
    using list_remove_dll [of h l xs x "[]"] assms by auto
  then show ?thesis
    using that by (simp add: list_pop_back_def list_back_dll [OF assms])
qed

subsection \<open>Splicing within a list\<close>

text \<open>The links after moving the nodes \<open>f \<dots> t\<close> (preceded by \<open>q\<close>, followed by \<open>n\<close>) in front of
  \<open>a\<close>, whose predecessor is \<open>p\<close>.\<close>

definition moved :: "ptr \<Rightarrow> ptr \<Rightarrow> ptr \<Rightarrow> ptr \<Rightarrow> ptr \<Rightarrow> ptr \<Rightarrow> lheap \<Rightarrow> lheap" where
  "moved p a q f t n h = (\<lambda>x. \<lparr>
     prv = (if x = n then q else if x = f then p else if x = a then t else prv (h x)),
     nxt = (if x = p then f else if x = t then a else if x = q then n else nxt (h x))\<rparr>)"

lemma list_splice_exec:
  assumes "is_interior h a" and "is_interior h f" and "is_interior h t" and "is_interior h n \<or> is_tail h n"
    and "prv (h a) = p" and "prv (h f) = q" and "nxt (h t) = n" and "prv (h n) = t" and "p \<noteq> NULL" "q \<noteq> NULL"
    and "distinct [p, a, n]" "distinct [p, q, t, n]" "f \<notin> {p, a, q, n}" "t \<noteq> a"
  shows "list_splice a f n h = Done (moved p a q f t n h)"
proof -
  have nn: "a \<noteq> NULL" "f \<noteq> NULL" "t \<noteq> NULL" "n \<noteq> NULL"
    using assms(1-4) by (auto simp: is_interior_def is_tail_def)
  have pv: "list_prev n h = Done t"
    using assms(4,8) nn by (simp add: list_prev_def ASSERT_def)
  have ne: "f \<noteq> n" "t \<noteq> q" "a \<noteq> n" "a \<noteq> f" "p \<noteq> a" "p \<noteq> t" "p \<noteq> q" "t \<noteq> n" using assms by auto
  have "list_splice a f n h = Done (set_prv a t (set_nxt p f (set_nxt t a (set_prv f p
      (set_prv n q (set_nxt q n h))))))"
    using assms(1-3,5-7,9,10) nn ne by (simp add: list_splice_def ASSERT_def pv)
  also have "set_prv a t (set_nxt p f (set_nxt t a (set_prv f p (set_prv n q (set_nxt q n h)))))
      = moved p a q f t n h"
    using ne by (intro heap_eqI) (auto simp: moved_def)
  finally show ?thesis .
qed

lemma linked_moved:
  assumes "linked h (A @ C @ S @ B)" and "distinct (A @ C @ S @ B)"
    and "A \<noteq> []" "C \<noteq> []" "S \<noteq> []" "B \<noteq> []"
  shows "linked (moved (last A) (hd C) (last C) (hd S) (last S) (hd B) h) (A @ S @ C @ B)"
    (is "linked ?h _")
proof -
  have d: "distinct A" "distinct C" "distinct S" "distinct B" using assms(2) by auto
  have mem: "last A \<in> set A" "hd C \<in> set C" "last C \<in> set C" "hd S \<in> set S" "last S \<in> set S" "hd B \<in> set B"
    using assms(3-6) by auto
  have dj: "set A \<inter> set C = {}" "set A \<inter> set S = {}" "set A \<inter> set B = {}" "set C \<inter> set S = {}"
    "set C \<inter> set B = {}" "set S \<inter> set B = {}"
    using assms(2) by auto
  note dj = dj [unfolded disjoint_iff]
  have ln: "linked h A" "linked h C" "linked h S" "linked h B"
    using assms(1) by (simp_all add: linked_app)
  have "linked ?h A = linked h A"
    using d(1) mem dj by (intro linked_cong_distinct) (auto simp: moved_def)
  moreover have "linked ?h S = linked h S"
    using d(3) mem dj by (intro linked_cong_distinct) (auto simp: moved_def)
  moreover have "linked ?h C = linked h C"
    using d(2) mem dj by (intro linked_cong_distinct) (auto simp: moved_def)
  moreover have "linked ?h B = linked h B"
    using d(4) mem dj by (intro linked_cong_distinct) (auto simp: moved_def)
  moreover have "last A \<noteq> last S" "last A \<noteq> last C" "last S \<noteq> last C" "hd S \<noteq> hd B" "hd C \<noteq> hd B" "hd C \<noteq> hd S"
    using mem dj by auto
  ultimately show ?thesis
    using ln assms(3-6) by (simp add: linked_app moved_def)
qed

lemma list_splice_dll:
  assumes "dll h l (ys @ (a # ms) @ ss @ zs)" and "ss \<noteq> []"
  obtains h' where "list_splice a (hd ss) (hd (zs @ [list_tail_addr l])) h = Done h'"
    and "dll h' l (ys @ ss @ (a # ms) @ zs)" and "\<And>q. q \<notin> set (nodes l (ys @ (a # ms) @ ss @ zs)) \<Longrightarrow> h' q = h q"
proof -
  define A where "A = list_head_addr l # ys"
  define C where "C = a # ms"
  define B where "B = zs @ [list_tail_addr l]"
  have n: "nodes l (ys @ (a # ms) @ ss @ zs) = A @ C @ ss @ B"
    and n': "nodes l (ys @ ss @ (a # ms) @ zs) = A @ ss @ C @ B"
    by (simp_all add: nodes_def A_def B_def C_def)
  have ne: "A \<noteq> []" "C \<noteq> []" "B \<noteq> []" and C: "hd C = a" and ends: "list_head_addr l = hd A" "list_tail_addr l = last B"
    by (simp_all add: A_def B_def C_def)
  have ln: "linked h (A @ C @ ss @ B)" and ds: "distinct (A @ C @ ss @ B)" and nn: "NULL \<notin> set (A @ C @ ss @ B)"
    and out: "prv (h (hd A)) = NULL" "nxt (h (last B)) = NULL"
    using assms(1) unfolding dll_def n ends by blast+
  have mem: "last A \<in> set A" "a \<in> set C" "last C \<in> set C" "hd ss \<in> set ss" "last ss \<in> set ss" "hd B \<in> set B"
    "hd A \<in> set A" "last B \<in> set B"
    using ne assms(2) C by (auto simp: C_def)
  let ?h = "moved (last A) a (last C) (hd ss) (last ss) (hd B) h"
  have int: "is_interior h a" "is_interior h (hd ss)" "is_interior h (last ss)"
    using dll_interior [OF assms(1)] assms(2) by auto
  have nB: "is_interior h (hd B) \<or> is_tail h (hd B)"
    using dll_before [of h l "ys @ (a # ms) @ ss" zs] assms(1) by (simp add: B_def)
  have links: "prv (h a) = last A" "prv (h (hd ss)) = last C" "nxt (h (last ss)) = hd B" "prv (h (hd B)) = last ss"
    using ln ne assms(2) C by (auto simp: linked_app)
  have run: "list_splice a (hd ss) (hd B) h = Done ?h"
    using int nB links ds nn mem by (intro list_splice_exec) (auto simp: disjoint_iff)
  have "linked ?h (A @ ss @ C @ B)"
    using linked_moved [OF ln ds ne(1,2) assms(2) ne(3)] C by simp
  moreover have "hd A \<noteq> hd B" "hd A \<noteq> hd ss" "hd A \<noteq> a" "last B \<noteq> last A" "last B \<noteq> last ss" "last B \<noteq> last C"
    using ds mem by (auto simp: disjoint_iff)
  ultimately have "dll ?h l (ys @ ss @ (a # ms) @ zs)"
    unfolding dll_def n' ends using ds nn out by (auto simp: moved_def)
  moreover have "\<And>q. q \<notin> set (nodes l (ys @ (a # ms) @ ss @ zs)) \<Longrightarrow> ?h q = h q"
    unfolding n using mem by (auto simp: moved_def)
  ultimately show ?thesis using run that by (simp add: B_def)
qed

subsection \<open>Reversal\<close>

definition swapped :: "ptr set \<Rightarrow> lheap \<Rightarrow> lheap" where
  "swapped S h = (\<lambda>x. if x \<in> S then \<lparr>prv = nxt (h x), nxt = prv (h x)\<rparr> else h x)"

lemma swapped_links [simp]:
  "prv (swapped S h x) = (if x \<in> S then nxt (h x) else prv (h x))"
  "nxt (swapped S h x) = (if x \<in> S then prv (h x) else nxt (h x))"
  by (simp_all add: swapped_def)

lemma swap_swapped:
  "x \<noteq> NULL \<Longrightarrow> x \<notin> S \<Longrightarrow> swap (PrevOf x) (NextOf x) (swapped S h) = Done (swapped (insert x S) h)"
  by (auto simp: swap_def intro!: heap_eqI)

lemma list_reverse_loop_dll:
  assumes "dll h l (ys @ zs)"
  shows "list_reverse_loop l (hd (zs @ [list_tail_addr l])) (swapped (set ys) h)
    = Some (Done (swapped (set (ys @ zs)) h))"
  using assms
proof (induction zs arbitrary: ys)
  case Nil
  then show ?case by (simp add: list_reverse_loop.simps list_end_dll lift_def)
next
  case (Cons z zs)
  have z: "z \<noteq> NULL" "z \<noteq> list_tail_addr l" "z \<notin> set ys"
    using Cons.prems tail_notin [OF Cons.prems, of z] dll_neq_NULL(5) [OF Cons.prems, of z]
    by (auto simp: dll_def nodes_def)
  have "nxt (h z) = hd (zs @ [list_tail_addr l])"
    using list_next_dll [OF Cons.prems] z(1) by (simp add: list_next_def ASSERT_def)
  moreover have "list_reverse_loop l (hd (zs @ [list_tail_addr l])) (swapped (insert z (set ys)) h)
      = Some (Done (swapped (insert z (set (ys @ zs))) h))"
    using Cons.IH [of "ys @ [z]"] Cons.prems by simp
  ultimately show ?case
    using z by (simp add: list_reverse_loop.simps [of l z] list_end_dll [OF Cons.prems] lift_def swap_swapped)
qed

lemma linked_swapped: "linked h ns \<Longrightarrow> set ns \<subseteq> S \<Longrightarrow> linked (swapped S h) (rev ns)"
proof (induction h ns rule: linked.induct)
  case (1 h a b ns)
  then show ?case by (auto simp: linked_app)
qed simp_all

lemma list_reverse_dll:
  assumes "dll h l xs"
  obtains h' where "list_reverse l h = Some (Done h')" and "dll h' l (rev xs)"
    and "\<And>q. q \<notin> set (nodes l xs) \<Longrightarrow> h' q = h q"
proof (cases "xs = []")
  case True
  then show ?thesis
    using that assms by (simp add: list_reverse_def list_empty_dll lift_def)
next
  case False
  let ?H = "list_head_addr l" and ?T = "list_tail_addr l" and ?g = "swapped (set xs) h"
  let ?a = "hd xs" and ?z = "last xs"
  define h' where "h' = set_nxt ?a ?T (set_prv ?z ?H (set_prv ?T ?a (set_nxt ?H ?z ?g)))"
  have n: "nodes l xs = [?H] @ xs @ [?T]" and n': "nodes l (rev xs) = [?H] @ rev xs @ [?T]"
    by (simp_all add: nodes_def)
  have ln: "linked h xs" "nxt (h ?H) = ?a" "prv (h ?a) = ?H" "nxt (h ?z) = ?T" "prv (h ?T) = ?z"
    using assms False unfolding dll_def n linked_app by auto
  have ds: "distinct xs" "?H \<notin> set xs" "?T \<notin> set xs" "?H \<noteq> ?T" "NULL \<notin> set xs" "?H \<noteq> NULL" "?T \<noteq> NULL"
    and out: "prv (h ?H) = NULL" "nxt (h ?T) = NULL"
    using assms by (auto simp: dll_def nodes_def)
  have az: "?a \<in> set xs" "?z \<in> set xs" using False by auto
  have ne: "?a \<noteq> NULL" "?z \<noteq> NULL" "?a \<noteq> ?H" "?a \<noteq> ?T" "?z \<noteq> ?H" "?z \<noteq> ?T" using az ds by auto
  have loop: "list_reverse_loop l ?a h = Some (Done ?g)"
    using list_reverse_loop_dll [of h l "[]" xs] assms False by (simp add: swapped_def)
  have s1: "swap (NextOf ?H) (PrevOf ?T) ?g = Done (set_prv ?T ?a (set_nxt ?H ?z ?g))"
    using ds ln by (simp add: swap_def)
  have s2: "swap (PrevOf ?z) (NextOf ?a) (set_prv ?T ?a (set_nxt ?H ?z ?g)) = Done h'"
    using ds ln ne az by (simp add: swap_def h'_def)
  have run: "list_reverse l h = Some (Done h')"
    using assms False loop s1 s2 ds ln ne az
    by (simp add: list_reverse_def list_empty_dll list_begin_dll lift_def)
  have "linked ?g (rev xs)" using linked_swapped [OF ln(1)] by simp
  moreover have "linked h' (rev xs) = linked ?g (rev xs)"
    using ds ne False by (intro linked_cong_distinct) (auto simp: h'_def last_rev hd_rev)
  ultimately have "linked h' (nodes l (rev xs))"
    unfolding n' linked_app using False ds ne az ln by (auto simp: h'_def last_rev hd_rev)
  then have "dll h' l (rev xs)"
    using ds ne out by (auto simp: dll_def nodes_def h'_def)
  moreover have "h' q = h q" if "q \<notin> set (nodes l xs)" for q
  proof -
    have "q \<noteq> ?a" "q \<noteq> ?z" "q \<noteq> ?H" "q \<noteq> ?T" "q \<notin> set xs" using that az unfolding n by auto
    then show ?thesis by (simp add: h'_def swapped_def)
  qed
  ultimately show ?thesis using run that by blast
qed

end
