(* ===== verification/Klist_Order.thy ===== *)
theory Klist_Order
  imports Klist
begin

text \<open>
  The operations of list.c on ordered lists: the natural merge sort \<open>list_sort\<close> with its
  helpers, \<open>list_insert_ordered\<close>, \<open>list_unique\<close>, \<open>list_max\<close> and \<open>list_min\<close>. The comparison
  callback is a function pointer of the caller; a null pointer is \<open>None\<close>.
\<close>

type_synonym less_func = "(ptr \<Rightarrow> ptr \<Rightarrow> bool) option"

definition call_less :: "less_func \<Rightarrow> ptr \<Rightarrow> ptr \<Rightarrow> bool kresult" where
  "call_less lt a b = (case lt of None \<Rightarrow> Fault | Some f \<Rightarrow> Done (f a b))"

section \<open>Operations\<close>

partial_function (option) is_sorted_loop :: "ptr \<Rightarrow> ptr \<Rightarrow> less_func \<Rightarrow> lheap \<Rightarrow> bool kresult option" where
  "is_sorted_loop a b lt h =
     lbind (lift (list_next a h)) (\<lambda>a.
       if a = b then Some (Done True)
       else lbind (lift (list_prev a h)) (\<lambda>p.
            lbind (lift (call_less lt a p)) (\<lambda>r.
              if r then Some (Done False) else is_sorted_loop a b lt h)))"

definition is_sorted :: "ptr \<Rightarrow> ptr \<Rightarrow> less_func \<Rightarrow> lheap \<Rightarrow> bool kresult option" where
  "is_sorted a b lt h = (if a \<noteq> b then is_sorted_loop a b lt h else Some (Done True))"

partial_function (option) run_loop :: "ptr \<Rightarrow> ptr \<Rightarrow> less_func \<Rightarrow> lheap \<Rightarrow> ptr kresult option" where
  "run_loop a b lt h =
     lbind (lift (list_next a h)) (\<lambda>a.
       if a = b then Some (Done a)
       else lbind (lift (list_prev a h)) (\<lambda>p.
            lbind (lift (call_less lt a p)) (\<lambda>r.
              if r then Some (Done a) else run_loop a b lt h)))"

definition find_end_of_run :: "ptr \<Rightarrow> ptr \<Rightarrow> less_func \<Rightarrow> lheap \<Rightarrow> ptr kresult option" where
  "find_end_of_run a b lt h =
     lbind (lift (ASSERT (a \<noteq> NULL) (ASSERT (b \<noteq> NULL) (ASSERT (lt \<noteq> None)
       (ASSERT (a \<noteq> b) (Done ())))))) (\<lambda>_. run_loop a b lt h)"

partial_function (option) merge_loop :: "ptr \<Rightarrow> ptr \<Rightarrow> ptr \<Rightarrow> less_func \<Rightarrow> lheap \<Rightarrow> lheap kresult option" where
  "merge_loop a0 a1b0 b1 lt h =
     (if a0 \<noteq> a1b0 \<and> a1b0 \<noteq> b1 then
        lbind (lift (call_less lt a1b0 a0)) (\<lambda>r.
          if \<not> r then lbind (lift (list_next a0 h)) (\<lambda>a0. merge_loop a0 a1b0 b1 lt h)
          else lbind (lift (list_next a1b0 h)) (\<lambda>a1b0.
               lbind (lift (list_prev a1b0 h)) (\<lambda>p.
               lbind (lift (list_splice a0 p a1b0 h)) (\<lambda>h. merge_loop a0 a1b0 b1 lt h))))
      else Some (Done h))"

definition inplace_merge :: "ptr \<Rightarrow> ptr \<Rightarrow> ptr \<Rightarrow> less_func \<Rightarrow> lheap \<Rightarrow> lheap kresult option" where
  "inplace_merge a0 a1b0 b1 lt h =
     lbind (lift (ASSERT (a0 \<noteq> NULL) (ASSERT (a1b0 \<noteq> NULL) (ASSERT (b1 \<noteq> NULL)
       (ASSERT (lt \<noteq> None) (Done ())))))) (\<lambda>_.
     lbind (is_sorted a0 a1b0 lt h) (\<lambda>s.
     lbind (lift (ASSERT s (Done ()))) (\<lambda>_.
     lbind (is_sorted a1b0 b1 lt h) (\<lambda>s.
     lbind (lift (ASSERT s (Done ()))) (\<lambda>_.
     merge_loop a0 a1b0 b1 lt h)))))"

text \<open>One pass of the outer loop of \<open>list_sort\<close>: the number of output runs and the new links.\<close>

partial_function (option) sort_pass :: "ptr \<Rightarrow> ptr \<Rightarrow> u32 \<Rightarrow> less_func \<Rightarrow> lheap \<Rightarrow> (u32 \<times> lheap) kresult option" where
  "sort_pass l a0 cnt lt h =
     lbind (lift (list_end l)) (\<lambda>t.
       if a0 = t then Some (Done (cnt, h))
       else lbind (find_end_of_run a0 t lt h) (\<lambda>a1b0.
            if a1b0 = t then Some (Done (cnt + 1, h))
            else lbind (find_end_of_run a1b0 t lt h) (\<lambda>b1.
                 lbind (inplace_merge a0 a1b0 b1 lt h) (\<lambda>h.
                 sort_pass l b1 (cnt + 1) lt h))))"

partial_function (option) sort_loop :: "ptr \<Rightarrow> less_func \<Rightarrow> lheap \<Rightarrow> lheap kresult option" where
  "sort_loop l lt h =
     lbind (lift (list_begin l h)) (\<lambda>a0.
     lbind (sort_pass l a0 0 lt h) (\<lambda>(cnt, h).
       if cnt > 1 then sort_loop l lt h else Some (Done h)))"

definition list_sort :: "ptr \<Rightarrow> less_func \<Rightarrow> lheap \<Rightarrow> lheap kresult option" where
  "list_sort l lt h =
     lbind (lift (ASSERT (l \<noteq> NULL) (ASSERT (lt \<noteq> None) (Done ())))) (\<lambda>_.
     lbind (sort_loop l lt h) (\<lambda>h.
     lbind (lift (list_begin l h)) (\<lambda>a.
     lbind (lift (list_end l)) (\<lambda>b.
     lbind (is_sorted a b lt h) (\<lambda>s.
     lift (ASSERT s (Done h)))))))"

partial_function (option) insert_ordered_loop :: "ptr \<Rightarrow> ptr \<Rightarrow> ptr \<Rightarrow> less_func \<Rightarrow> lheap \<Rightarrow> ptr kresult option" where
  "insert_ordered_loop l e elem lt h =
     lbind (lift (list_end l)) (\<lambda>t.
       if e = t then Some (Done e)
       else lbind (lift (call_less lt elem e)) (\<lambda>r.
            if r then Some (Done e)
            else lbind (lift (list_next e h)) (\<lambda>e. insert_ordered_loop l e elem lt h)))"

definition list_insert_ordered :: "ptr \<Rightarrow> ptr \<Rightarrow> less_func \<Rightarrow> lheap \<Rightarrow> lheap kresult option" where
  "list_insert_ordered l elem lt h =
     lbind (lift (ASSERT (l \<noteq> NULL) (ASSERT (elem \<noteq> NULL) (ASSERT (lt \<noteq> None) (Done ()))))) (\<lambda>_.
     lbind (lift (list_begin l h)) (\<lambda>e.
     lbind (insert_ordered_loop l e elem lt h) (\<lambda>e.
     lift (list_insert e elem h))))"

partial_function (option) unique_loop :: "ptr \<Rightarrow> ptr \<Rightarrow> ptr \<Rightarrow> less_func \<Rightarrow> lheap \<Rightarrow> lheap kresult option" where
  "unique_loop l elem duplicates lt h =
     lbind (lift (list_next elem h)) (\<lambda>n.
     lbind (lift (list_end l)) (\<lambda>t.
       if n = t then Some (Done h)
       else lbind (lift (call_less lt elem n)) (\<lambda>r1.
            lbind (if r1 then Some (Done True) else lift (call_less lt n elem)) (\<lambda>r2.
              if \<not> r2 then
                lbind (lift (list_remove n h)) (\<lambda>(_, h).
                lbind (if duplicates \<noteq> NULL then lift (list_push_back duplicates n h) else Some (Done h)) (\<lambda>h.
                unique_loop l elem duplicates lt h))
              else unique_loop l n duplicates lt h))))"

definition list_unique :: "ptr \<Rightarrow> ptr \<Rightarrow> less_func \<Rightarrow> lheap \<Rightarrow> lheap kresult option" where
  "list_unique l duplicates lt h =
     lbind (lift (ASSERT (l \<noteq> NULL) (ASSERT (lt \<noteq> None) (Done ())))) (\<lambda>_.
     lbind (lift (list_empty l h)) (\<lambda>b.
       if b then Some (Done h)
       else lbind (lift (list_begin l h)) (\<lambda>elem. unique_loop l elem duplicates lt h)))"

partial_function (option) max_loop :: "ptr \<Rightarrow> ptr \<Rightarrow> ptr \<Rightarrow> less_func \<Rightarrow> lheap \<Rightarrow> ptr kresult option" where
  "max_loop l mx e lt h =
     lbind (lift (list_end l)) (\<lambda>t.
       if e = t then Some (Done mx)
       else lbind (lift (call_less lt mx e)) (\<lambda>r.
            let mx = (if r then e else mx) in
            lbind (lift (list_next e h)) (\<lambda>e. max_loop l mx e lt h)))"

definition list_max :: "ptr \<Rightarrow> less_func \<Rightarrow> lheap \<Rightarrow> ptr kresult option" where
  "list_max l lt h =
     lbind (lift (list_begin l h)) (\<lambda>mx.
     lbind (lift (list_end l)) (\<lambda>t.
       if mx = t then Some (Done mx)
       else lbind (lift (list_next mx h)) (\<lambda>e. max_loop l mx e lt h)))"

partial_function (option) min_loop :: "ptr \<Rightarrow> ptr \<Rightarrow> ptr \<Rightarrow> less_func \<Rightarrow> lheap \<Rightarrow> ptr kresult option" where
  "min_loop l mn e lt h =
     lbind (lift (list_end l)) (\<lambda>t.
       if e = t then Some (Done mn)
       else lbind (lift (call_less lt e mn)) (\<lambda>r.
            let mn = (if r then e else mn) in
            lbind (lift (list_next e h)) (\<lambda>e. min_loop l mn e lt h)))"

definition list_min :: "ptr \<Rightarrow> less_func \<Rightarrow> lheap \<Rightarrow> ptr kresult option" where
  "list_min l lt h =
     lbind (lift (list_begin l h)) (\<lambda>mn.
     lbind (lift (list_end l)) (\<lambda>t.
       if mn = t then Some (Done mn)
       else lbind (lift (list_next mn h)) (\<lambda>e. min_loop l mn e lt h)))"

end
