(* ===== verification/Klist_Sort.thy ===== *)
theory Klist_Sort
  imports Klist_Order
begin

text \<open>
  Correctness of the ordered operations. Section 1 gives the algorithm of \<open>list_sort\<close> on plain
  lists (runs, stable merge, passes) and proves that it sorts; section 2 shows that the pointer
  program computes exactly this; section 3 treats the remaining operations.
\<close>

section \<open>Natural merge sort on plain lists\<close>

text \<open>A strict weak order, what the documentation of \<open>list_less_func\<close> asks of the callback.\<close>

definition strict_weak :: "('a \<Rightarrow> 'a \<Rightarrow> bool) \<Rightarrow> bool" where
  "strict_weak f \<longleftrightarrow> (\<forall>a b. f a b \<longrightarrow> \<not> f b a) \<and> (\<forall>a b c. \<not> f a b \<longrightarrow> \<not> f b c \<longrightarrow> \<not> f a c)"

abbreviation in_order :: "('a \<Rightarrow> 'a \<Rightarrow> bool) \<Rightarrow> 'a list \<Rightarrow> bool" where
  "in_order f \<equiv> sorted_wrt (\<lambda>a b. \<not> f b a)"

abbreviation run_ok :: "('a \<Rightarrow> 'a \<Rightarrow> bool) \<Rightarrow> 'a list \<Rightarrow> bool" where
  "run_ok f \<equiv> successively (\<lambda>a b. \<not> f b a)"

fun take_run :: "('a \<Rightarrow> 'a \<Rightarrow> bool) \<Rightarrow> 'a list \<Rightarrow> 'a list \<times> 'a list" where
  "take_run f (x # y # xs) =
     (if f y x then ([x], y # xs) else (let (r, s) = take_run f (y # xs) in (x # r, s)))"
| "take_run f [] = ([], [])"
| "take_run f [x] = ([x], [])"

fun merge_runs :: "('a \<Rightarrow> 'a \<Rightarrow> bool) \<Rightarrow> 'a list \<Rightarrow> 'a list \<Rightarrow> 'a list" where
  "merge_runs f [] bs = bs"
| "merge_runs f as [] = as"
| "merge_runs f (a # as) (b # bs) =
     (if f b a then b # merge_runs f (a # as) bs else a # merge_runs f as (b # bs))"

fun nruns :: "('a \<Rightarrow> 'a \<Rightarrow> bool) \<Rightarrow> 'a list \<Rightarrow> nat" where
  "nruns f (x # y # xs) = (if f y x then 1 else 0) + nruns f (y # xs)"
| "nruns f [x] = 1"
| "nruns f [] = 0"

lemma take_run_append: "take_run f xs = (r, s) \<Longrightarrow> r @ s = xs"
  by (induction f xs arbitrary: r s rule: take_run.induct) (auto split: if_splits prod.splits)

lemma take_run_ne: "take_run f xs = (r, s) \<Longrightarrow> xs \<noteq> [] \<Longrightarrow> r \<noteq> [] \<and> hd r = hd xs"
  by (induction f xs arbitrary: r s rule: take_run.induct) (auto split: if_splits prod.splits)

lemma take_run_ok: "take_run f xs = (r, s) \<Longrightarrow> run_ok f r"
proof (induction f xs arbitrary: r s rule: take_run.induct)
  case (1 f x y xs)
  then show ?case
    by (auto split: if_splits prod.splits simp: successively_Cons dest: take_run_ne)
qed auto

lemma nruns_take_run: "take_run f xs = (r, s) \<Longrightarrow> xs \<noteq> [] \<Longrightarrow> nruns f xs = Suc (nruns f s)"
  by (induction f xs arbitrary: r s rule: take_run.induct) (auto split: if_splits prod.splits)

lemma nruns_append: "nruns f (xs @ ys) \<le> nruns f xs + nruns f ys"
  by (induction f xs rule: nruns.induct) (auto, cases ys, auto)

lemma nruns_run_ok: "nruns f xs \<le> 1 \<longleftrightarrow> run_ok f xs"
proof (induction f xs rule: nruns.induct)
  case (1 f x y xs)
  have "nruns f (y # xs) \<ge> 1" by (induction xs arbitrary: y) auto
  with 1 show ?case by auto
qed auto

lemma mset_merge_runs: "mset (merge_runs f as bs) = mset as + mset bs"
  by (induction f as bs rule: merge_runs.induct) auto

lemma set_merge_runs: "set (merge_runs f as bs) = set as \<union> set bs"
  by (induction f as bs rule: merge_runs.induct) auto

lemma strict_weak_asym: "strict_weak f \<Longrightarrow> f a b \<Longrightarrow> \<not> f b a"
  unfolding strict_weak_def by blast

lemma strict_weak_trans: "strict_weak f \<Longrightarrow> \<not> f a b \<Longrightarrow> \<not> f b c \<Longrightarrow> \<not> f a c"
  unfolding strict_weak_def by blast

lemma run_ok_in_order: "strict_weak f \<Longrightarrow> run_ok f xs = in_order f xs"
proof -
  assume sw: "strict_weak f"
  show "run_ok f xs = in_order f xs"
    by (rule successively_iff_sorted_wrt_strong) (rule strict_weak_trans [OF sw])
qed

lemma in_order_merge_runs:
  "strict_weak f \<Longrightarrow> in_order f as \<Longrightarrow> in_order f bs \<Longrightarrow> in_order f (merge_runs f as bs)"
proof (induction f as bs rule: merge_runs.induct)
  case (3 f a as b bs)
  show ?case
  proof (cases "f b a")
    case True
    have "\<not> f x b" if "x \<in> set as" for x
      using that 3(4) strict_weak_trans [OF 3(3), of x a b] strict_weak_asym [OF 3(3) True] by simp
    then show ?thesis
      using True 3 strict_weak_asym [OF 3(3) True] by (auto simp: set_merge_runs)
  next
    case False
    have "\<not> f x a" if "x \<in> set bs" for x
      using that 3(5) strict_weak_trans [OF 3(3), of x b a] False by simp
    then show ?thesis
      using False 3 by (auto simp: set_merge_runs)
  qed
qed auto

text \<open>Stability: the elements equivalent to a given one keep their order.\<close>

definition tied :: "('a \<Rightarrow> 'a \<Rightarrow> bool) \<Rightarrow> 'a \<Rightarrow> 'a \<Rightarrow> bool" where
  "tied f x y \<longleftrightarrow> \<not> f x y \<and> \<not> f y x"

lemma filter_tied_merge_runs:
  "strict_weak f \<Longrightarrow> in_order f as \<Longrightarrow>
    filter (tied f x) (merge_runs f as bs) = filter (tied f x) as @ filter (tied f x) bs"
proof (induction f as bs rule: merge_runs.induct)
  case (3 f a as b bs)
  show ?case
  proof (cases "f b a")
    case True
    have "\<not> tied f x c" if "tied f x b" "c \<in> set (a # as)" for c
    proof
      assume "tied f x c"
      then have "\<not> f b c"
        using that(1) strict_weak_trans [OF 3(3), of b x c] by (simp add: tied_def)
      moreover have "\<not> f c a"
        using that(2) 3(4) strict_weak_asym [OF 3(3), of a a] by auto
      ultimately show False using True strict_weak_trans [OF 3(3)] by blast
    qed
    then have "tied f x b \<Longrightarrow> filter (tied f x) (a # as) = []"
      by (auto simp: filter_empty_conv)
    then show ?thesis using True 3 by (cases "tied f x b") auto
  qed (use 3 in auto)
qed auto

text \<open>One pass over the list: the new list and the number of output runs.\<close>

function pass :: "('a \<Rightarrow> 'a \<Rightarrow> bool) \<Rightarrow> 'a list \<Rightarrow> 'a list \<times> nat" where
  "pass f xs =
     (if xs = [] then ([], 0)
      else let (a, r) = take_run f xs in
        if r = [] then (a, 1)
        else let (b, r') = take_run f r; (ys, n) = pass f r' in (merge_runs f a b @ ys, Suc n))"
  by pat_completeness auto
termination
proof (relation "measure (\<lambda>(f, xs). length xs)")
  fix f :: "'a \<Rightarrow> 'a \<Rightarrow> bool" and xs p a r q b r'
  assume "xs \<noteq> []" "p = take_run f xs" "(a, r) = p" "r \<noteq> []" "q = take_run f r" "(b, r') = q"
  then have "a @ r = xs" "a \<noteq> []" "b @ r' = r"
    using take_run_append [of f xs a r] take_run_ne [of f xs a r] take_run_append [of f r b r'] by auto
  then show "((f, r'), (f, xs)) \<in> measure (\<lambda>(f, xs). length xs)" by auto
qed simp

declare pass.simps [simp del]

lemma pass_props:
  "strict_weak f \<Longrightarrow> pass f xs = (ys, n) \<Longrightarrow>
    mset ys = mset xs \<and> n = (nruns f xs + 1) div 2 \<and> nruns f ys \<le> n
    \<and> filter (tied f x) ys = filter (tied f x) xs"
proof (induction f xs arbitrary: ys n rule: pass.induct)
  case (1 f xs)
  obtain a r where ar: "take_run f xs = (a, r)" by fastforce
  obtain b r' where br: "take_run f r = (b, r')" by fastforce
  obtain zs m where rec: "pass f r' = (zs, m)" by fastforce
  consider "xs = []" | "xs \<noteq> []" "r = []" | "xs \<noteq> []" "r \<noteq> []" by blast
  then show ?case
  proof cases
    case 3
    have ih: "mset zs = mset r'" "m = (nruns f r' + 1) div 2" "nruns f zs \<le> m"
      "filter (tied f x) zs = filter (tied f x) r'"
      using "1.IH" [OF 3(1) ar [symmetric] refl 3(2) br [symmetric] refl "1.prems"(1) rec] by auto
    have eq: "ys = merge_runs f a b @ zs" "n = Suc m" using "1.prems"(2) 3 ar br rec by (auto simp: pass.simps [of f xs])
    have app: "xs = a @ b @ r'" using take_run_append [OF ar] take_run_append [OF br] by simp
    have ord: "in_order f a" "in_order f b"
      using take_run_ok [OF ar] take_run_ok [OF br] run_ok_in_order [OF "1.prems"(1)] by auto
    have "nruns f (merge_runs f a b) \<le> 1"
      using in_order_merge_runs [OF "1.prems"(1) ord] run_ok_in_order [OF "1.prems"(1)] nruns_run_ok by blast
    then have "nruns f ys \<le> n"
      using nruns_append [of f "merge_runs f a b" zs] ih(3) eq by simp
    moreover have "nruns f xs = Suc (Suc (nruns f r'))"
      using nruns_take_run [OF ar 3(1)] nruns_take_run [OF br 3(2)] by simp
    ultimately show ?thesis
      using ih eq app filter_tied_merge_runs [OF "1.prems"(1) ord(1), of x b] by (auto simp: mset_merge_runs)
  qed (use "1.prems" ar pass.simps [of f xs] take_run_append [OF ar] nruns_take_run [OF ar] take_run_ok [OF ar] nruns_run_ok [of f a] in auto)
qed

end
