(* ===== verification/Klist_Refine.thy ===== *)
theory Klist_Refine
  imports Klist_Sort
begin

text \<open>
  The pointer programs of \<open>list_sort\<close> and the other ordered operations of list.c compute the
  plain-list algorithms of the previous theory. Every lemma is about a list at \<open>l\<close> whose
  elements are split where the cursors of the program stand.
\<close>

section \<open>Runs\<close>

lemma list_prev_next_dll:
  assumes "dll h l (ys @ x # zs)"
  shows "list_prev (hd (zs @ [list_tail_addr l])) h = Done x"
  using list_prev_dll [of h l "ys @ [x]" zs] assms by simp

lemma dll_hd_neq:
  assumes "dll h l (ys @ xs @ zs)" and "xs \<noteq> []"
  shows "hd xs \<noteq> hd (zs @ [list_tail_addr l])"
  using assms by (cases xs; cases zs) (auto simp: dll_def nodes_def)

lemma is_sorted_loop_dll:
  assumes "dll h l (ys @ xs @ zs)" and "xs \<noteq> []"
  shows "is_sorted_loop (hd xs) (hd (zs @ [list_tail_addr l])) (Some f) h = Some (Done (run_ok f xs))"
  using assms
proof (induction xs arbitrary: ys)
  case (Cons x xs)
  note d = Cons.prems(1)
  have nx: "list_next x h = Done (hd ((xs @ zs) @ [list_tail_addr l]))"
    "list_prev (hd ((xs @ zs) @ [list_tail_addr l])) h = Done x"
    using list_next_dll [of h l ys x "xs @ zs"] list_prev_next_dll [of h l ys x "xs @ zs"] d by simp_all
  show ?case
  proof (cases xs)
    case Nil
    then show ?thesis using nx by (simp add: is_sorted_loop.simps [of x] lift_def)
  next
    case (Cons y us)
    have ih: "is_sorted_loop y (hd (zs @ [list_tail_addr l])) (Some f) h = Some (Done (run_ok f xs))"
      using Cons.IH [of "ys @ [x]"] d Cons by simp
    have "y \<noteq> hd (zs @ [list_tail_addr l])"
      using dll_hd_neq [of h l "ys @ [x]" xs zs] d Cons by simp
    then show ?thesis
      using nx ih Cons by (simp add: is_sorted_loop.simps [of x] lift_def call_less_def)
  qed
qed simp

lemma is_sorted_dll:
  assumes "dll h l (ys @ xs @ zs)"
  shows "is_sorted (hd (xs @ zs @ [list_tail_addr l])) (hd (zs @ [list_tail_addr l])) (Some f) h
    = Some (Done (run_ok f xs))"
  using is_sorted_loop_dll [OF assms] dll_hd_neq [OF assms] by (cases xs) (simp_all add: is_sorted_def)

lemma run_loop_dll:
  assumes "dll h l (ys @ xs)" and "xs \<noteq> []" and "take_run f xs = (r, s)"
  shows "run_loop (hd xs) (list_tail_addr l) (Some f) h = Some (Done (hd (s @ [list_tail_addr l])))"
  using assms
proof (induction f xs arbitrary: ys r s rule: take_run.induct)
  case (1 f x y xs)
  note d = "1.prems"(1)
  have nx: "list_next x h = Done y" "list_prev y h = Done x"
    using list_next_dll [OF d] list_prev_next_dll [OF d] by simp_all
  have y: "y \<noteq> list_tail_addr l" using tail_notin [OF d, of y] by simp
  show ?case
  proof (cases "f y x")
    case True
    then show ?thesis
      using nx y "1.prems"(3) by (auto simp: run_loop.simps [of x] lift_def call_less_def)
  next
    case False
    obtain r' where "take_run f (y # xs) = (r', s)"
      using "1.prems"(3) False by (auto split: prod.splits)
    then have "run_loop y (list_tail_addr l) (Some f) h = Some (Done (hd (s @ [list_tail_addr l])))"
      using "1.IH" [OF False, of "ys @ [x]"] d by simp
    then show ?thesis
      using nx y False by (simp add: run_loop.simps [of x] lift_def call_less_def)
  qed
next
  case (3 f x)
  then show ?case
    using list_next_dll [of h l ys x "[]"] by (auto simp: run_loop.simps [of x] lift_def)
qed simp

lemma find_end_of_run_dll:
  assumes "dll h l (ys @ xs)" and "xs \<noteq> []" and "take_run f xs = (r, s)"
  shows "find_end_of_run (hd xs) (list_tail_addr l) (Some f) h = Some (Done (hd (s @ [list_tail_addr l])))"
proof -
  have "hd xs \<in> set (ys @ xs)" using assms(2) by simp
  then show ?thesis
    using tail_notin [OF assms(1)] dll_neq_NULL [OF assms(1)] run_loop_dll [OF assms]
    by (simp add: find_end_of_run_def ASSERT_def lift_def)
qed

section \<open>Merging\<close>

lemma merge_loop_dll:
  assumes "dll h l (ys @ as @ bs @ zs)"
  shows "\<exists>h'. merge_loop (hd (as @ bs @ zs @ [list_tail_addr l])) (hd (bs @ zs @ [list_tail_addr l]))
      (hd (zs @ [list_tail_addr l])) (Some f) h = Some (Done h')
    \<and> dll h' l (ys @ merge_runs f as bs @ zs)
    \<and> (\<forall>q. q \<notin> set (nodes l (ys @ as @ bs @ zs)) \<longrightarrow> h' q = h q)"
  using assms
proof (induction f as bs arbitrary: ys h rule: merge_runs.induct)
  case (1 f bs)
  then show ?case by (simp add: merge_loop.simps)
next
  case (2 f a as)
  then show ?case by (simp add: merge_loop.simps)
next
  case (3 f a as b bs)
  let ?T = "list_tail_addr l"
  note d = "3.prems"
  have ne: "a \<noteq> b" "b \<noteq> hd (zs @ [?T])"
    using dll_hd_neq [of h l "ys @ a # as" "b # bs" zs] d by (auto simp: dll_def nodes_def)
  show ?case
  proof (cases "f b a")
    case False
    have "list_next a h = Done (hd (as @ (b # bs) @ zs @ [?T]))"
      using list_next_dll [of h l ys a "as @ (b # bs) @ zs"] d by simp
    moreover have "dll h l ((ys @ [a]) @ as @ (b # bs) @ zs)" using d by simp
    ultimately show ?thesis
      using "3.IH"(2) [OF False, of h "ys @ [a]"] ne False
      by (simp add: merge_loop.simps [of a] lift_def call_less_def)
  next
    case True
    have nx: "list_next b h = Done (hd (bs @ zs @ [?T]))" "list_prev (hd (bs @ zs @ [?T])) h = Done b"
      using list_next_dll [of h l "ys @ a # as" b "bs @ zs"]
        list_prev_next_dll [of h l "ys @ a # as" b "bs @ zs"] d by simp_all
    obtain h1 where h1: "list_splice a b (hd (bs @ zs @ [?T])) h = Done h1"
      "dll h1 l ((ys @ [b]) @ (a # as) @ bs @ zs)"
      "\<And>q. q \<notin> set (nodes l (ys @ (a # as) @ (b # bs) @ zs)) \<Longrightarrow> h1 q = h q"
      using list_splice_dll [of h l ys a as "[b]" "bs @ zs"] d by auto
    have sn: "set (nodes l ((ys @ [b]) @ (a # as) @ bs @ zs)) = set (nodes l (ys @ (a # as) @ (b # bs) @ zs))"
      by (auto simp: nodes_def)
    from "3.IH"(1) [OF True h1(2)] obtain h' where h':
      "merge_loop a (hd (bs @ zs @ [?T])) (hd (zs @ [?T])) (Some f) h1 = Some (Done h')"
      "dll h' l ((ys @ [b]) @ merge_runs f (a # as) bs @ zs)"
      "\<forall>q. q \<notin> set (nodes l (ys @ (a # as) @ (b # bs) @ zs)) \<longrightarrow> h' q = h1 q"
      unfolding sn by auto
    then have "merge_loop a b (hd (zs @ [?T])) (Some f) h = Some (Done h')"
      using nx h1(1) ne True by (simp add: merge_loop.simps [of a b] lift_def call_less_def)
    then show ?thesis using h' h1(3) True by auto
  qed
qed

lemma inplace_merge_dll:
  assumes "dll h l (ys @ as @ bs @ zs)" and "run_ok f as" and "run_ok f bs"
  shows "\<exists>h'. inplace_merge (hd (as @ bs @ zs @ [list_tail_addr l])) (hd (bs @ zs @ [list_tail_addr l]))
      (hd (zs @ [list_tail_addr l])) (Some f) h = Some (Done h')
    \<and> dll h' l (ys @ merge_runs f as bs @ zs)
    \<and> (\<forall>q. q \<notin> set (nodes l (ys @ as @ bs @ zs)) \<longrightarrow> h' q = h q)"
proof -
  let ?T = "list_tail_addr l"
  have nn: "hd (us @ [?T]) \<noteq> NULL" if "set us \<subseteq> set (ys @ as @ bs @ zs)" for us
    using that dll_neq_NULL [OF assms(1)] by (cases us) auto
  have n3: "hd (as @ bs @ zs @ [?T]) \<noteq> NULL" "hd (bs @ zs @ [?T]) \<noteq> NULL" "hd (zs @ [?T]) \<noteq> NULL"
    using nn [of "as @ bs @ zs"] nn [of "bs @ zs"] nn [of zs] by (simp_all add: subset_iff)
  have s: "is_sorted (hd (as @ bs @ zs @ [?T])) (hd (bs @ zs @ [?T])) (Some f) h = Some (Done True)"
    "is_sorted (hd (bs @ zs @ [?T])) (hd (zs @ [?T])) (Some f) h = Some (Done True)"
    using is_sorted_dll [of h l ys as "bs @ zs" f] is_sorted_dll [of h l "ys @ as" bs zs f] assms by simp_all
  show ?thesis
    using merge_loop_dll [OF assms(1), of f] n3 s by (simp add: inplace_merge_def ASSERT_def lift_def)
qed

section \<open>Sorting\<close>

lemma sort_pass_dll:
  assumes "dll h l (ys @ xs)" and "pass f xs = (zs, n)"
  shows "\<exists>h'. sort_pass l (hd (xs @ [list_tail_addr l])) c (Some f) h = Some (Done (c + of_nat n, h'))
    \<and> dll h' l (ys @ zs) \<and> (\<forall>q. q \<notin> set (nodes l (ys @ xs)) \<longrightarrow> h' q = h q)"
  using assms
proof (induction f xs arbitrary: ys zs n c h rule: pass.induct)
  case (1 f xs)
  let ?T = "list_tail_addr l"
  obtain a r where ar: "take_run f xs = (a, r)" by fastforce
  obtain b r' where br: "take_run f r = (b, r')" by fastforce
  obtain us m where rec: "pass f r' = (us, m)" by fastforce
  note d = "1.prems"(1)
  note T = list_end_dll [OF d]
  show ?case
  proof (cases "xs = []")
    case True
    then show ?thesis
      using "1.prems" T by (simp add: pass.simps [of f "[]"] sort_pass.simps lift_def)
  next
    case False
    have hd: "hd xs \<noteq> ?T" using tail_notin [OF d, of "hd xs"] False by simp
    have e1: "find_end_of_run (hd xs) ?T (Some f) h = Some (Done (hd (r @ [?T])))"
      using find_end_of_run_dll [OF d False ar] .
    show ?thesis
    proof (cases "r = []")
      case True
      then show ?thesis
        using "1.prems" False T hd e1 ar take_run_append [OF ar]
        by (auto simp: pass.simps [of f xs] sort_pass.simps [of l "hd xs"] lift_def)
    next
      case r: False
      have app: "xs = a @ b @ r'" "r = b @ r'" using take_run_append [OF ar] take_run_append [OF br] by simp_all
      have zs: "zs = merge_runs f a b @ us" "n = Suc m"
        using "1.prems"(2) False r ar br rec by (auto simp: pass.simps [of f xs])
      have hr: "hd r \<noteq> ?T" using tail_notin [OF d, of "hd r"] hd_in_set [OF r] take_run_append [OF ar] by auto
      have "dll h l ((ys @ a) @ r)" using d app by simp
      from find_end_of_run_dll [OF this r br]
      have e2: "find_end_of_run (hd r) ?T (Some f) h = Some (Done (hd (r' @ [?T])))" .
      have d1: "dll h l (ys @ a @ b @ r')" using d app by simp
      obtain h1 where h1:
        "inplace_merge (hd (a @ b @ r' @ [?T])) (hd (b @ r' @ [?T])) (hd (r' @ [?T])) (Some f) h = Some (Done h1)"
        "dll h1 l (ys @ merge_runs f a b @ r')" "\<forall>q. q \<notin> set (nodes l (ys @ xs)) \<longrightarrow> h1 q = h q"
        using inplace_merge_dll [OF d1 take_run_ok [OF ar] take_run_ok [OF br]] app by auto
      have d2: "dll h1 l ((ys @ merge_runs f a b) @ r')" using h1(2) by simp
      obtain h' where h':
        "sort_pass l (hd (r' @ [?T])) (c + 1) (Some f) h1 = Some (Done (c + 1 + of_nat m, h'))"
        "dll h' l ((ys @ merge_runs f a b) @ us)"
        "\<forall>q. q \<notin> set (nodes l ((ys @ merge_runs f a b) @ r')) \<longrightarrow> h' q = h1 q"
        using "1.IH" [OF False ar [symmetric] refl r br [symmetric] refl d2 rec, of "c + 1"] by blast
      have "a @ b @ r' \<noteq> []" "b @ r' \<noteq> []" using False r app by auto
      then have hds: "hd (a @ b @ r' @ [?T]) = hd xs" "hd (b @ r' @ [?T]) = hd r" "hd (xs @ [?T]) = hd xs"
          "hd (r @ [?T]) = hd r"
        using app by (metis append.assoc hd_append2)+
      have "sort_pass l (hd xs) c (Some f) h = Some (Done (c + of_nat n, h'))"
        using T hd hr e1 e2 h1(1) h'(1)
        by (simp add: sort_pass.simps [of l "hd xs"] lift_def hds zs add.assoc)
      moreover have "set (nodes l ((ys @ merge_runs f a b) @ r')) = set (nodes l (ys @ xs))"
        by (auto simp: nodes_def app set_merge_runs)
      ultimately show ?thesis
        using h'(2,3) h1(3) by (auto simp: hds zs)
    qed
  qed
qed

lemma dll_length: "dll h l xs \<Longrightarrow> length xs < 2 ^ 32"
proof -
  assume "dll h l xs"
  then have "distinct (nodes l xs)" by (simp add: dll_def)
  then have "length (nodes l xs) = card (set (nodes l xs))" by (simp add: distinct_card)
  also have "\<dots> \<le> card (UNIV :: ptr set)" by (rule card_mono) auto
  also have "\<dots> = 2 ^ 32" by (simp add: card_word)
  finally show ?thesis by (simp add: nodes_def)
qed

lemma nruns_le_length: "nruns f xs \<le> length xs"
  by (induction f xs rule: nruns.induct) auto

lemma of_nat_gt_1_u32: "n < 2 ^ 32 \<Longrightarrow> (1 < (of_nat n :: u32)) = (1 < n)"
  by (simp add: word_less_nat_alt unat_of_nat)

lemma set_nodes_mset: "mset ys = mset xs \<Longrightarrow> set (nodes l ys) = set (nodes l xs)"
  using mset_eq_setD [of ys xs] by (simp add: nodes_def)

lemma sort_loop_dll:
  assumes "strict_weak f" and "dll h l xs"
  shows "\<exists>h' ys. sort_loop l (Some f) h = Some (Done h') \<and> dll h' l ys \<and> mset ys = mset xs
    \<and> run_ok f ys \<and> (\<forall>x. filter (tied f x) ys = filter (tied f x) xs)
    \<and> (\<forall>q. q \<notin> set (nodes l xs) \<longrightarrow> h' q = h q)"
  using assms(2)
proof (induction "nruns f xs" arbitrary: xs h rule: less_induct)
  case less
  obtain ys n where p: "pass f xs = (ys, n)" by fastforce
  have ys: "mset ys = mset xs" "n = (nruns f xs + 1) div 2" "nruns f ys \<le> n"
    "\<And>x. filter (tied f x) ys = filter (tied f x) xs"
    using pass_props [OF assms(1) p] by auto
  obtain h1 where h1: "sort_pass l (hd (xs @ [list_tail_addr l])) 0 (Some f) h = Some (Done (of_nat n, h1))"
    "dll h1 l ys" "\<forall>q. q \<notin> set (nodes l xs) \<longrightarrow> h1 q = h q"
    using sort_pass_dll [of h l "[]" xs f ys n 0] less.prems p by auto
  have n: "n < 2 ^ 32"
    using ys(2) nruns_le_length [of f xs] dll_length [OF less.prems] by linarith
  have step: "sort_loop l (Some f) h = (if 1 < n then sort_loop l (Some f) h1 else Some (Done h1))"
    using h1(1) of_nat_gt_1_u32 [OF n]
    by (simp add: sort_loop.simps [of l "Some f" h] lift_def list_begin_dll [OF less.prems])
  show ?case
  proof (cases "1 < n")
    case True
    then have "nruns f ys < nruns f xs" using ys(2,3) by linarith
    from less.hyps [OF this h1(2)] True step h1(3) ys set_nodes_mset [OF ys(1), of l]
    show ?thesis by auto
  next
    case False
    then have "run_ok f ys" using ys(3) nruns_run_ok [of f ys] by linarith
    then show ?thesis using step False h1 ys by auto
  qed
qed

lemma list_sort_dll:
  assumes "strict_weak f" and "dll h l xs"
  obtains h' ys where "list_sort l (Some f) h = Some (Done h')" and "dll h' l ys"
    and "mset ys = mset xs" and "in_order f ys" and "\<And>x. filter (tied f x) ys = filter (tied f x) xs"
    and "\<And>q. q \<notin> set (nodes l xs) \<Longrightarrow> h' q = h q"
proof -
  obtain h' ys where s: "sort_loop l (Some f) h = Some (Done h')" "dll h' l ys" "mset ys = mset xs"
    "run_ok f ys" "\<And>x. filter (tied f x) ys = filter (tied f x) xs"
    "\<And>q. q \<notin> set (nodes l xs) \<Longrightarrow> h' q = h q"
    using sort_loop_dll [OF assms] by blast
  have "list_sort l (Some f) h = Some (Done h')"
    using s(1,4) is_sorted_dll [of h' l "[]" ys "[]" f] s(2) dll_neq_NULL [OF s(2)]
    by (simp add: list_sort_def ASSERT_def lift_def list_begin_dll [OF s(2)] list_end_dll [OF s(2)])
  then show ?thesis
    using that s run_ok_in_order [OF assms(1), of ys] by blast
qed

end
