(* ===== verification/Klist_Unique.thy ===== *)
theory Klist_Unique
  imports Klist_Refine
begin

text \<open>
  \<open>list_insert_ordered\<close>, \<open>list_unique\<close>, \<open>list_max\<close> and \<open>list_min\<close> against their
  meaning on plain lists, and the interface of a FIFO queue that the rest of the kernel uses.
\<close>

section \<open>Ordered insertion\<close>

lemma insert_ordered_loop_dll:
  assumes "dll h l (ys @ xs)"
  shows "insert_ordered_loop l (hd (xs @ [list_tail_addr l])) e (Some f) h
    = Some (Done (hd (dropWhile (\<lambda>y. \<not> f e y) xs @ [list_tail_addr l])))"
  using assms
proof (induction xs arbitrary: ys)
  case Nil
  then show ?case by (simp add: insert_ordered_loop.simps list_end_dll lift_def)
next
  case (Cons x xs)
  have "insert_ordered_loop l (hd (xs @ [list_tail_addr l])) e (Some f) h
    = Some (Done (hd (dropWhile (\<lambda>y. \<not> f e y) xs @ [list_tail_addr l])))"
    using Cons.IH [of "ys @ [x]"] Cons.prems by simp
  then show ?case
    using tail_notin [OF Cons.prems, of x] list_next_dll [OF Cons.prems]
    by (simp add: insert_ordered_loop.simps [of l x] list_end_dll [OF Cons.prems] lift_def call_less_def)
qed

lemma list_insert_ordered_dll:
  assumes "dll h l xs" and "e \<notin> set (nodes l xs)" and "e \<noteq> NULL"
  obtains h' where "list_insert_ordered l e (Some f) h = Some (Done h')"
    and "dll h' l (takeWhile (\<lambda>y. \<not> f e y) xs @ e # dropWhile (\<lambda>y. \<not> f e y) xs)"
    and "\<And>q. q \<notin> insert e (set (nodes l xs)) \<Longrightarrow> h' q = h q"
proof -
  let ?us = "takeWhile (\<lambda>y. \<not> f e y) xs" and ?vs = "dropWhile (\<lambda>y. \<not> f e y) xs"
  have "dll h l (?us @ ?vs)" "e \<notin> set (nodes l (?us @ ?vs))"
    using assms by simp_all
  then obtain h' where "list_insert (hd (?vs @ [list_tail_addr l])) e h = Done h'" "dll h' l (?us @ e # ?vs)"
    "\<And>q. q \<notin> insert e (set (nodes l xs)) \<Longrightarrow> h' q = h q"
    using list_insert_dll [of h l ?us ?vs _ e] assms(3) by (metis takeWhile_dropWhile_id)
  then show ?thesis
    using that insert_ordered_loop_dll [of h l "[]" xs e f] assms dll_neq_NULL [OF assms(1)]
    by (simp add: list_insert_ordered_def ASSERT_def lift_def list_begin_dll [OF assms(1)])
qed

lemma in_order_insert:
  assumes "strict_weak f" and "in_order f xs"
  shows "in_order f (takeWhile (\<lambda>y. \<not> f e y) xs @ e # dropWhile (\<lambda>y. \<not> f e y) xs)"
proof -
  define us vs where "us = takeWhile (\<lambda>y. \<not> f e y) xs" and "vs = dropWhile (\<lambda>y. \<not> f e y) xs"
  have o: "in_order f us" "in_order f vs" "\<forall>u\<in>set us. \<forall>v\<in>set vs. \<not> f v u"
    using assms(2) takeWhile_dropWhile_id [of "\<lambda>y. \<not> f e y" xs]
    by (metis us_def vs_def sorted_wrt_append)+
  have us: "\<forall>u\<in>set us. \<not> f e u" using set_takeWhileD unfolding us_def by fast
  have vs: "\<forall>v\<in>set vs. \<not> f v e"
  proof (cases vs)
    case (Cons w ws)
    have ew: "f e w" using dropWhile_eq_Cons_conv [of "\<lambda>y. \<not> f e y" xs w ws] Cons by (simp add: vs_def)
    show ?thesis
    proof
      fix v
      assume v: "v \<in> set vs"
      have "\<not> f v w"
        using o(2) v strict_weak_asym [OF assms(1), of w w] by (auto simp: Cons)
      then show "\<not> f v e"
        using strict_weak_trans [OF assms(1), of v w e] strict_weak_asym [OF assms(1) ew] by simp
    qed
  qed simp
  show ?thesis
    unfolding us_def [symmetric] vs_def [symmetric] using o us vs by (simp add: sorted_wrt_append)
qed

section \<open>Extremal elements\<close>

definition first_max :: "('a \<Rightarrow> 'a \<Rightarrow> bool) \<Rightarrow> 'a \<Rightarrow> 'a list \<Rightarrow> 'a" where
  "first_max f = foldl (\<lambda>m e. if f m e then e else m)"

lemma max_loop_dll:
  assumes "dll h l (ys @ xs)"
  shows "max_loop l m (hd (xs @ [list_tail_addr l])) (Some f) h = Some (Done (first_max f m xs))"
  using assms
proof (induction xs arbitrary: ys m)
  case Nil
  then show ?case by (simp add: max_loop.simps list_end_dll lift_def first_max_def)
next
  case (Cons x xs)
  have "max_loop l m' (hd (xs @ [list_tail_addr l])) (Some f) h = Some (Done (first_max f m' xs))" for m'
    using Cons.IH [of "ys @ [x]"] Cons.prems by simp
  then show ?case
    using tail_notin [OF Cons.prems, of x] list_next_dll [OF Cons.prems]
    by (simp add: max_loop.simps [of l m x] list_end_dll [OF Cons.prems] lift_def call_less_def
        first_max_def Let_def)
qed

lemma min_loop_dll:
  assumes "dll h l (ys @ xs)"
  shows "min_loop l m (hd (xs @ [list_tail_addr l])) (Some f) h
    = Some (Done (first_max (\<lambda>a b. f b a) m xs))"
  using assms
proof (induction xs arbitrary: ys m)
  case Nil
  then show ?case by (simp add: min_loop.simps list_end_dll lift_def first_max_def)
next
  case (Cons x xs)
  have "min_loop l m' (hd (xs @ [list_tail_addr l])) (Some f) h
      = Some (Done (first_max (\<lambda>a b. f b a) m' xs))" for m'
    using Cons.IH [of "ys @ [x]"] Cons.prems by simp
  then show ?case
    using tail_notin [OF Cons.prems, of x] list_next_dll [OF Cons.prems]
    by (simp add: min_loop.simps [of l m x] list_end_dll [OF Cons.prems] lift_def call_less_def
        first_max_def Let_def)
qed

lemma list_max_dll:
  "dll h l xs \<Longrightarrow> list_max l (Some f) h
    = Some (Done (case xs of [] \<Rightarrow> list_tail_addr l | x # xs' \<Rightarrow> first_max f x xs'))"
proof (cases xs)
  case (Cons x xs')
  moreover assume d: "dll h l xs"
  ultimately show ?thesis
    using max_loop_dll [of h l "[x]" xs' x f] tail_notin [OF d, of x] list_next_dll [of h l "[]" x xs']
    by (simp add: list_max_def lift_def list_begin_dll list_end_dll)
qed (simp add: list_max_def lift_def list_begin_dll list_end_dll)

lemma list_min_dll:
  "dll h l xs \<Longrightarrow> list_min l (Some f) h
    = Some (Done (case xs of [] \<Rightarrow> list_tail_addr l | x # xs' \<Rightarrow> first_max (\<lambda>a b. f b a) x xs'))"
proof (cases xs)
  case (Cons x xs')
  moreover assume d: "dll h l xs"
  ultimately show ?thesis
    using min_loop_dll [of h l "[x]" xs' x f] tail_notin [OF d, of x] list_next_dll [of h l "[]" x xs']
    by (simp add: list_min_def lift_def list_begin_dll list_end_dll)
qed (simp add: list_min_def lift_def list_begin_dll list_end_dll)

lemma first_max_props:
  assumes "strict_weak f"
  shows "first_max f m xs \<in> set (m # xs) \<and> (\<forall>y\<in>set (m # xs). \<not> f (first_max f m xs) y)"
proof (induction xs arbitrary: m)
  case Nil
  then show ?case using strict_weak_asym [OF assms, of m m] by (auto simp: first_max_def)
next
  case (Cons x xs)
  define m' where "m' = (if f m x then x else m)"
  have m': "m' = m \<or> m' = x" "\<not> f m' m" "\<not> f m' x"
    using strict_weak_asym [OF assms, of m x] strict_weak_asym [OF assms, of m m]
      strict_weak_asym [OF assms, of x x] unfolding m'_def by presburger+
  define r where "r = first_max f m' xs"
  have r: "first_max f m (x # xs) = r" by (simp add: first_max_def r_def m'_def)
  have ih: "r \<in> set (m' # xs)" "\<forall>y\<in>set (m' # xs). \<not> f r y"
    using Cons.IH [of m'] unfolding r_def by blast+
  have "\<not> f r m'" using ih(2) by simp
  then have "\<not> f r m" "\<not> f r x"
    using strict_weak_trans [OF assms, of r m'] m'(2,3) by blast+
  then show ?case using ih m'(1) unfolding r by auto
qed

section \<open>Removing duplicates\<close>

text \<open>The remaining elements and the removed ones, in order of removal.\<close>

fun uniq :: "('a \<Rightarrow> 'a \<Rightarrow> bool) \<Rightarrow> 'a list \<Rightarrow> 'a list \<times> 'a list" where
  "uniq f (x # y # xs) =
     (if tied f x y then let (us, ds) = uniq f (x # xs) in (us, y # ds)
      else let (us, ds) = uniq f (y # xs) in (x # us, ds))"
| "uniq f [] = ([], [])"
| "uniq f [x] = ([x], [])"

lemma dll_frame: "(\<And>p. p \<in> set (nodes l xs) \<Longrightarrow> h' p = h p) \<Longrightarrow> dll h' l xs = dll h l xs"
  using linked_frame [of "nodes l xs" h' h] by (auto simp: dll_def nodes_def)

definition dup_list :: "lheap \<Rightarrow> ptr \<Rightarrow> ptr list \<Rightarrow> ptr \<Rightarrow> ptr list \<Rightarrow> bool" where
  "dup_list h l xs d zs \<longleftrightarrow> d \<noteq> NULL \<longrightarrow> dll h d zs \<and> set (nodes l xs) \<inter> set (nodes d zs) = {}"

text \<open>One removal: \<open>y\<close> leaves the list and joins the duplicates.\<close>

lemma unique_step:
  assumes "dll h l (ys @ y # xs)" and "dup_list h l (ys @ y # xs) d zs"
  obtains h1 h2 where "list_remove y h = Done (hd (xs @ [list_tail_addr l]), h1)"
    and "(if d \<noteq> NULL then lift (list_push_back d y h1) else Some (Done h1)) = Some (Done h2)"
    and "dll h2 l (ys @ xs)" and "dup_list h2 l (ys @ xs) d (zs @ [y])"
    and "\<And>q. q \<notin> set (nodes l (ys @ y # xs)) \<union> (if d = NULL then {} else set (nodes d zs)) \<Longrightarrow> h2 q = h q"
proof -
  obtain h1 where h1: "list_remove y h = Done (hd (xs @ [list_tail_addr l]), h1)" "dll h1 l (ys @ xs)"
    "\<And>q. q \<notin> set (nodes l (ys @ xs)) \<Longrightarrow> h1 q = h q"
    using list_remove_dll [OF assms(1)] by blast
  have sub: "set (nodes l (ys @ y # xs)) = insert y (set (nodes l (ys @ xs)))" by (auto simp: nodes_def)
  show ?thesis
  proof (cases "d = NULL")
    case True
    then show ?thesis using h1(2,3) sub by (intro that [OF h1(1), of h1]) (simp_all add: dup_list_def)
  next
    case False
    then have dz: "dll h d zs" "insert y (set (nodes l (ys @ xs))) \<inter> set (nodes d zs) = {}"
      using assms(2) sub by (auto simp: dup_list_def)
    have dz1: "dll h1 d zs" using dll_frame [of d zs h1 h] h1(3) dz by blast
    have y: "y \<notin> set (nodes d zs)" "y \<noteq> NULL" "y \<notin> set (nodes l (ys @ xs))"
      using dz(2) assms(1) by (auto simp: dll_def nodes_def)
    obtain h2 where h2: "list_push_back d y h1 = Done h2" "dll h2 d (zs @ [y])"
      "\<And>q. q \<notin> insert y (set (nodes d zs)) \<Longrightarrow> h2 q = h1 q"
      using list_push_back_dll [OF dz1 y(1,2)] by blast
    have "h2 q = h1 q" if "q \<in> set (nodes l (ys @ xs))" for q
      using that h2(3) [of q] dz(2) y(3) by auto
    then have "dll h2 l (ys @ xs)" using dll_frame [of l "ys @ xs" h2 h1] h1(2) by simp
    moreover have "set (nodes l (ys @ xs)) \<inter> set (nodes d (zs @ [y])) = {}"
      using dz(2) y(3) by (auto simp: nodes_def)
    moreover have "h2 q = h q" if "q \<notin> set (nodes l (ys @ y # xs)) \<union> set (nodes d zs)" for q
      using that h1(3) [of q] h2(3) [of q] sub by simp
    ultimately show ?thesis
      using False h2(1,2) by (intro that [OF h1(1), of h2]) (simp_all add: dup_list_def lift_def)
  qed
qed

lemma unique_loop_dll:
  assumes "dll h l (ys @ x # xs)" and "dup_list h l (ys @ x # xs) d zs" and "uniq f (x # xs) = (us, ds)"
  shows "\<exists>h'. unique_loop l x d (Some f) h = Some (Done h') \<and> dll h' l (ys @ us)
    \<and> dup_list h' l (ys @ us) d (zs @ ds)
    \<and> (\<forall>q. q \<notin> set (nodes l (ys @ x # xs)) \<union> (if d = NULL then {} else set (nodes d zs)) \<longrightarrow> h' q = h q)"
  using assms
proof (induction f "x # xs" arbitrary: x xs ys zs us ds h rule: uniq.induct)
  case (1 f x y xs)
  note d = "1.prems"(1)
  have nx: "list_next x h = Done y" and y: "y \<noteq> list_tail_addr l"
    using list_next_dll [OF d] tail_notin [OF d, of y] by simp_all
  note T = list_end_dll [OF d]
  show ?case
  proof (cases "tied f x y")
    case True
    obtain us' ds' where u: "uniq f (x # xs) = (us', ds')" by fastforce
    obtain h1 h2 where h1: "list_remove y h = Done (hd (xs @ [list_tail_addr l]), h1)"
      "(if d \<noteq> NULL then lift (list_push_back d y h1) else Some (Done h1)) = Some (Done h2)"
      "dll h2 l (ys @ x # xs)" "dup_list h2 l (ys @ x # xs) d (zs @ [y])"
      "\<And>q. q \<notin> set (nodes l (ys @ x # y # xs)) \<union> (if d = NULL then {} else set (nodes d zs)) \<Longrightarrow> h2 q = h q"
      using unique_step [of h l "ys @ [x]" y xs d zs] d "1.prems"(2) by auto
    obtain h' where h': "unique_loop l x d (Some f) h2 = Some (Done h')" "dll h' l (ys @ us')"
      "dup_list h' l (ys @ us') d (zs @ y # ds')"
      "\<forall>q. q \<notin> set (nodes l (ys @ x # xs)) \<union> (if d = NULL then {} else set (nodes d (zs @ [y]))) \<longrightarrow> h' q = h2 q"
      using "1.hyps"(1) [OF True h1(3,4) u] by auto
    have run: "unique_loop l x d (Some f) h = Some (Done h')"
      using nx y T h1(1,2) h'(1) True by (simp add: unique_loop.simps [of l x] lift_def call_less_def tied_def)
    have "us = us'" "ds = y # ds'" using u True "1.prems"(3) by auto
    moreover have "h' q = h q"
      if "q \<notin> set (nodes l (ys @ x # y # xs)) \<union> (if d = NULL then {} else set (nodes d zs))" for q
      using that h1(5) [OF that] h'(4) by (auto simp: nodes_def split: if_splits)
    ultimately show ?thesis using run h'(2,3) by blast
  next
    case False
    obtain us' ds' where u: "uniq f (y # xs) = (us', ds')" by fastforce
    have "dll h l ((ys @ [x]) @ y # xs)" "dup_list h l ((ys @ [x]) @ y # xs) d zs" using d "1.prems"(2) by simp_all
    from "1.hyps"(2) [OF False this u] obtain h' where h': "unique_loop l y d (Some f) h = Some (Done h')"
      "dll h' l (ys @ x # us')" "dup_list h' l (ys @ x # us') d (zs @ ds')"
      "\<forall>q. q \<notin> set (nodes l (ys @ x # y # xs)) \<union> (if d = NULL then {} else set (nodes d zs)) \<longrightarrow> h' q = h q"
      by auto
    have "unique_loop l x d (Some f) h = unique_loop l y d (Some f) h"
      using nx y T False by (auto simp: unique_loop.simps [of l x] lift_def call_less_def tied_def)
    moreover have "us = x # us'" "ds = ds'" using u False "1.prems"(3) by auto
    ultimately show ?thesis using h' by auto
  qed
next
  case (3 f x)
  then show ?case
    using list_next_dll [of h l ys x "[]"] by (auto simp: unique_loop.simps [of l x] lift_def list_end_dll)
qed

lemma list_unique_dll:
  assumes "dll h l xs" and "dup_list h l xs d zs" and "uniq f xs = (us, ds)"
  obtains h' where "list_unique l d (Some f) h = Some (Done h')" and "dll h' l us" and "dup_list h' l us d (zs @ ds)"
    and "\<And>q. q \<notin> set (nodes l xs) \<union> (if d = NULL then {} else set (nodes d zs)) \<Longrightarrow> h' q = h q"
proof (cases xs)
  case Nil
  then show ?thesis
    using that assms dll_neq_NULL [OF assms(1)]
    by (simp add: list_unique_def ASSERT_def lift_def list_empty_dll [OF assms(1)])
next
  case (Cons x xs')
  obtain h' where "unique_loop l x d (Some f) h = Some (Done h')" "dll h' l us" "dup_list h' l us d (zs @ ds)"
    "\<forall>q. q \<notin> set (nodes l xs) \<union> (if d = NULL then {} else set (nodes d zs)) \<longrightarrow> h' q = h q"
    using unique_loop_dll [of h l "[]" x xs' d zs f us ds] assms Cons by auto
  then show ?thesis
    using that Cons dll_neq_NULL [OF assms(1)]
    by (simp add: list_unique_def ASSERT_def lift_def list_empty_dll [OF assms(1)] list_begin_dll [OF assms(1)])
qed

lemma uniq_mset: "uniq f xs = (us, ds) \<Longrightarrow> mset us + mset ds = mset xs"
  by (induction f xs arbitrary: us ds rule: uniq.induct) (auto split: if_splits prod.splits)

lemma uniq_hd: "uniq f (x # xs) = (us, ds) \<Longrightarrow> us \<noteq> [] \<and> hd us = x"
  by (induction f "x # xs" arbitrary: x xs us ds rule: uniq.induct) (auto split: if_splits prod.splits)

lemma uniq_no_ties: "uniq f xs = (us, ds) \<Longrightarrow> successively (\<lambda>a b. \<not> tied f a b) us"
proof (induction f xs arbitrary: us ds rule: uniq.induct)
  case (1 f x y xs)
  then show ?case
    by (auto split: if_splits prod.splits simp: successively_Cons dest: uniq_hd)
qed auto

text \<open>On a sorted list no two remaining elements are equivalent.\<close>

lemma uniq_sorted:
  assumes "strict_weak f" and "in_order f xs" and "uniq f xs = (us, ds)"
  shows "sorted_wrt f us"
  using assms
proof (induction f xs arbitrary: us ds rule: uniq.induct)
  case (1 f x y xs)
  show ?case
  proof (cases "tied f x y")
    case True
    then show ?thesis
      using "1.IH"(1) [OF True "1.prems"(1)] "1.prems"(2,3) by (auto split: prod.splits)
  next
    case False
    obtain us' ds' where u: "uniq f (y # xs) = (us', ds')" by fastforce
    have s: "sorted_wrt f us'" using "1.IH"(2) [OF False "1.prems"(1) _ u] "1.prems"(2) by simp
    have xy: "f x y" using False "1.prems"(2) by (simp add: tied_def)
    have "f x z" if "z \<in> set us'" for z
    proof -
      have "z \<in> set (y # xs)" using uniq_mset [OF u] that by (metis Un_iff set_mset_mset set_mset_union)
      then have "\<not> f z y" using "1.prems"(2) strict_weak_asym [OF "1.prems"(1), of y y] by auto
      then show ?thesis
        using strict_weak_trans [OF "1.prems"(1), of x z y] xy by blast
    qed
    then show ?thesis using u s False "1.prems"(3) by auto
  qed
qed auto

text \<open>On a sorted list what remains are the elements that no earlier one ties with, what is removed are the others.\<close>

lemma nths_agree: "(\<And>i. i < length xs \<Longrightarrow> i \<in> A \<longleftrightarrow> i \<in> B) \<Longrightarrow> nths xs A = nths xs B"
  unfolding nths_def by (intro arg_cong [where f = "map fst"] filter_cong refl) (auto simp: in_set_zip)

lemma uniq_first:
  assumes "strict_weak f" and "in_order f xs" and "uniq f xs = (us, ds)"
  shows "us = nths xs {i. \<forall>j<i. \<not> tied f (xs ! j) (xs ! i)} \<and> ds = nths xs {i. \<exists>j<i. tied f (xs ! j) (xs ! i)}"
  using assms
proof (induction f xs arbitrary: us ds rule: uniq.induct)
  case (1 f x y xs)
  show ?case
  proof (cases "tied f x y")
    case True
    obtain us' ds' where u: "uniq f (x # xs) = (us', ds')" by fastforce
    have ih: "us' = nths (x # xs) {i. \<forall>j<i. \<not> tied f ((x # xs) ! j) ((x # xs) ! i)}"
      "ds' = nths (x # xs) {i. \<exists>j<i. tied f ((x # xs) ! j) ((x # xs) ! i)}"
      using "1.IH"(1) [OF True "1.prems"(1) _ u] "1.prems"(2) by simp_all
    have "tied f y z \<longleftrightarrow> tied f x z" for z
      using True strict_weak_trans [OF "1.prems"(1)] unfolding tied_def by blast
    then show ?thesis
      using ih u True "1.prems"(3) by (simp add: nths_Cons All_less_Suc2 Ex_less_Suc2)
  next
    case False
    obtain us' ds' where u: "uniq f (y # xs) = (us', ds')" by fastforce
    have ih: "us' = nths (y # xs) {i. \<forall>j<i. \<not> tied f ((y # xs) ! j) ((y # xs) ! i)}"
      "ds' = nths (y # xs) {i. \<exists>j<i. tied f ((y # xs) ! j) ((y # xs) ! i)}"
      using "1.IH"(2) [OF False "1.prems"(1) _ u] "1.prems"(2) by simp_all
    have xy: "f x y" using False "1.prems"(2) by (simp add: tied_def)
    have nt: "\<not> tied f x z" if "z \<in> set (y # xs)" for z
    proof -
      have "\<not> f z y" using that "1.prems"(2) strict_weak_asym [OF "1.prems"(1), of y y] by auto
      then show ?thesis using strict_weak_trans [OF "1.prems"(1), of x z y] xy by (auto simp: tied_def)
    qed
    have "nths (y # xs) {i. \<not> tied f x ((y # xs) ! i) \<and> P i} = nths (y # xs) {i. P i}"
      "nths (y # xs) {i. tied f x ((y # xs) ! i) \<or> P i} = nths (y # xs) {i. P i}" for P
      using nt nth_mem [of _ "y # xs"] by (intro nths_agree, blast)+
    then show ?thesis
      using ih u False "1.prems"(3) by (simp add: nths_Cons [of x] All_less_Suc2 Ex_less_Suc2)
  qed
qed (auto simp: nths_Cons)

end
