(* ===== verification/Fifo.thy ===== *)
theory Fifo
  imports Prelude
begin

text \<open>
  The interface of a FIFO queue as the kernel's clients use it: waiting processes on a
  list.c list, bytes in the ring buffer of a pipe. \<open>rep s xs\<close> says that the state \<open>s\<close> holds
  the queue \<open>xs\<close>; \<open>room xs e\<close> is what the caller owes before it adds \<open>e\<close>.
\<close>

primrec enq_all :: "('e \<Rightarrow> 's \<Rightarrow> 's kresult) \<Rightarrow> 'e list \<Rightarrow> 's \<Rightarrow> 's kresult" where
  "enq_all enq [] s = Done s"
| "enq_all enq (e # es) s = kbind (enq e s) (enq_all enq es)"

primrec deq_all :: "('s \<Rightarrow> ('e \<times> 's) kresult) \<Rightarrow> nat \<Rightarrow> 's \<Rightarrow> ('e list \<times> 's) kresult" where
  "deq_all deq 0 s = Done ([], s)"
| "deq_all deq (Suc n) s =
     kbind (deq s) (\<lambda>(e, s). kbind (deq_all deq n s) (\<lambda>(es, s). Done (e # es, s)))"

primrec room_all :: "('e list \<Rightarrow> 'e \<Rightarrow> bool) \<Rightarrow> 'e list \<Rightarrow> 'e list \<Rightarrow> bool" where
  "room_all room xs [] \<longleftrightarrow> True"
| "room_all room xs (e # es) \<longleftrightarrow> room xs e \<and> room_all room (xs @ [e]) es"

locale fifo_queue =
  fixes rep :: "'s \<Rightarrow> 'e list \<Rightarrow> bool"
    and room :: "'e list \<Rightarrow> 'e \<Rightarrow> bool"
    and enq :: "'e \<Rightarrow> 's \<Rightarrow> 's kresult"
    and deq :: "'s \<Rightarrow> ('e \<times> 's) kresult"
  assumes enq_law: "rep s xs \<Longrightarrow> room xs e \<Longrightarrow> \<exists>s'. enq e s = Done s' \<and> rep s' (xs @ [e])"
    and deq_law: "rep s (x # xs) \<Longrightarrow> \<exists>s'. deq s = Done (x, s') \<and> rep s' xs"
begin

lemma enq_all_rep:
  "rep s xs \<Longrightarrow> room_all room xs es \<Longrightarrow> \<exists>s'. enq_all enq es s = Done s' \<and> rep s' (xs @ es)"
proof (induction es arbitrary: s xs)
  case (Cons e es)
  obtain s1 where "enq e s = Done s1" "rep s1 (xs @ [e])"
    using enq_law Cons.prems by fastforce
  then show ?case using Cons.IH [of s1 "xs @ [e]"] Cons.prems by auto
qed simp

lemma deq_all_rep:
  "rep s (xs @ ys) \<Longrightarrow> \<exists>s'. deq_all deq (length xs) s = Done (xs, s') \<and> rep s' ys"
proof (induction xs arbitrary: s)
  case (Cons x xs)
  obtain s1 where "deq s = Done (x, s1)" "rep s1 (xs @ ys)"
    using deq_law Cons.prems by fastforce
  then show ?case using Cons.IH [of s1] by auto
qed simp

text \<open>What is put in comes out, behind what was there, in the same order.\<close>

lemma first_in_first_out:
  assumes "rep s xs" and "room_all room xs es"
  shows "\<exists>s1 s2. enq_all enq es s = Done s1
    \<and> deq_all deq (length xs + length es) s1 = Done (xs @ es, s2) \<and> rep s2 []"
  using enq_all_rep [OF assms] deq_all_rep [of _ "xs @ es" "[]"] by fastforce

end

end
