(* ===== verification/Klist_Correct.thy ===== *)
theory Klist_Correct
  imports Klist_Unique Fifo
begin

text \<open>
  The correctness statements of list.c. Each one starts from a well-formed list (\<open>dll h l xs\<close>)
  and says what the operation returns, which list it leaves, and that no link outside
  the list changes. The example heap of the witnesses is a list at 16 with the elements
  300, 100, 200, and an empty list at 64.
\<close>

definition sample_heap :: lheap where
  "sample_heap =
     (\<lambda>_. \<lparr>prv = 0, nxt = 0\<rparr>)(16 := \<lparr>prv = 0, nxt = 300\<rparr>, 300 := \<lparr>prv = 16, nxt = 100\<rparr>,
       100 := \<lparr>prv = 300, nxt = 200\<rparr>, 200 := \<lparr>prv = 100, nxt = 24\<rparr>, 24 := \<lparr>prv = 200, nxt = 0\<rparr>,
       64 := \<lparr>prv = 0, nxt = 72\<rparr>, 72 := \<lparr>prv = 64, nxt = 0\<rparr>)"

lemma sample_dll: "dll sample_heap 16 [300, 100, 200]" and sample_empty: "dll sample_heap 64 []"
  by (simp_all add: sample_heap_def dll_def nodes_def list_head_addr_def list_tail_addr_def)

lemma strict_weak_less: "strict_weak ((<) :: ptr \<Rightarrow> ptr \<Rightarrow> bool)"
  by (auto simp: strict_weak_def)

text \<open>
  C1. \<open>list_sort\<close> returns for every strict weak order and every list, and leaves the list sorted:
  the same elements, no later element less than an earlier one, equivalent elements in their
  old order (the sort is stable), and no link outside the list touched.
\<close>

theorem list_sort_correct:
  assumes "strict_weak f" and "dll h l xs"
  shows "\<exists>h' ys. list_sort l (Some f) h = Some (Done h') \<and> dll h' l ys \<and> mset ys = mset xs
    \<and> sorted_wrt (\<lambda>a b. \<not> f b a) ys \<and> (\<forall>x. filter (tied f x) ys = filter (tied f x) xs)
    \<and> (\<forall>q. q \<notin> set (nodes l xs) \<longrightarrow> h' q = h q)"
  by (rule list_sort_dll [OF assms]) blast

theorem list_sort_correct_witness:
  "\<exists>h' ys. list_sort 16 (Some (<)) sample_heap = Some (Done h') \<and> dll h' 16 ys
    \<and> mset ys = mset [300, 100, 200] \<and> sorted ys"
  using list_sort_correct [OF strict_weak_less sample_dll] unfolding not_less by blast

interpretation kq: fifo_queue
  "\<lambda>h. dll h l" "\<lambda>xs e. e \<notin> set (nodes l xs) \<and> e \<noteq> NULL" "list_push_back l" "list_pop_front l" for l
proof unfold_locales
  fix h :: lheap and xs :: "ptr list" and e :: ptr
  assume "dll h l xs" "e \<notin> set (nodes l xs) \<and> e \<noteq> NULL"
  then show "\<exists>s'. list_push_back l e h = Done s' \<and> dll s' l (xs @ [e])"
    by (metis list_push_back_dll)
next
  fix h :: lheap and x :: ptr and xs :: "ptr list"
  assume "dll h l (x # xs)"
  then show "\<exists>s'. list_pop_front l h = Done (x, s') \<and> dll s' l xs"
    by (metis list_pop_front_dll)
qed

text \<open>
  C2. A list.c list used with \<open>list_push_back\<close> and \<open>list_pop_front\<close>, as the semaphores and condition
  variables use it, is a FIFO queue: elements that are not on the list come out behind the
  ones that were there, in the order they were put in, and the list ends empty.
\<close>

theorem list_fifo:
  assumes "dll h l xs" and "room_all (\<lambda>xs e. e \<notin> set (nodes l xs) \<and> e \<noteq> NULL) xs es"
  shows "\<exists>h1 h2. enq_all (list_push_back l) es h = Done h1
    \<and> deq_all (list_pop_front l) (length xs + length es) h1 = Done (xs @ es, h2) \<and> dll h2 l []"
  using kq.first_in_first_out [OF assms] .

theorem list_fifo_witness:
  "\<exists>h1 h2. enq_all (list_push_back 16) [400, 500] sample_heap = Done h1
    \<and> deq_all (list_pop_front 16) (length [300, 100, 200 :: ptr] + length [400, 500 :: ptr]) h1 = Done ([300, 100, 200, 400, 500], h2) \<and> dll h2 16 []"
  using list_fifo [OF sample_dll, of "[400, 500]"]
  by (simp add: nodes_def list_head_addr_def list_tail_addr_def del: enq_all.simps deq_all.simps)

text \<open>
  C3. \<open>list_unique\<close> on a sorted list of elements: what remains are, in their order, exactly the elements that no
  earlier element is equivalent to, that is the first of every class (so that the rest is strictly increasing); all others
  are appended, in their order, to the list of duplicates. Nothing outside the two lists is touched.
\<close>

theorem list_unique_correct:
  assumes "strict_weak f" and "sorted_wrt (\<lambda>a b. \<not> f b a) xs" and "dll h l xs" and "dll h d zs"
    and "set (nodes l xs) \<inter> set (nodes d zs) = {}"
  shows "\<exists>h' us ds. list_unique l d (Some f) h = Some (Done h') \<and> dll h' l us \<and> dll h' d (zs @ ds)
    \<and> us = nths xs {i. \<forall>j<i. f (xs ! j) (xs ! i) \<or> f (xs ! i) (xs ! j)}
    \<and> ds = nths xs {i. \<exists>j<i. \<not> f (xs ! j) (xs ! i) \<and> \<not> f (xs ! i) (xs ! j)}
    \<and> sorted_wrt f us \<and> mset us + mset ds = mset xs
    \<and> (\<forall>q. q \<notin> set (nodes l xs) \<union> set (nodes d zs) \<longrightarrow> h' q = h q)"
proof -
  obtain us ds where u: "uniq f xs = (us, ds)" by fastforce
  have d: "d \<noteq> NULL" using dll_neq_NULL [OF assms(4)] by simp
  then have "dup_list h l xs d zs" using assms(4,5) by (simp add: dup_list_def)
  from list_unique_dll [OF assms(3) this u] obtain h' where h':
    "list_unique l d (Some f) h = Some (Done h')" "dll h' l us" "dup_list h' l us d (zs @ ds)"
    "\<And>q. q \<notin> set (nodes l xs) \<union> set (nodes d zs) \<Longrightarrow> h' q = h q"
    using d by auto
  have n: "us = nths xs {i. \<forall>j<i. f (xs ! j) (xs ! i) \<or> f (xs ! i) (xs ! j)}"
    "ds = nths xs {i. \<exists>j<i. \<not> f (xs ! j) (xs ! i) \<and> \<not> f (xs ! i) (xs ! j)}"
    using uniq_first [OF assms(1,2) u] by (simp_all add: tied_def)
  have "dll h' d (zs @ ds)" using h'(3) d by (simp add: dup_list_def)
  then show ?thesis
    using h'(1,2,4) n uniq_sorted [OF assms(1,2) u] uniq_mset [OF u] by (intro exI [of _ h'] exI [of _ us] exI [of _ ds] conjI allI impI)
qed

text \<open>In the witness 100 and 200 are equivalent, and 300 is before both.\<close>

theorem list_unique_correct_witness:
  "\<exists>h'. list_unique 16 64 (Some (\<lambda>a b. a = 300 \<and> b \<noteq> 300)) sample_heap = Some (Done h') \<and> dll h' 16 [300, 100] \<and> dll h' 64 [200]"
proof -
  let ?f = "\<lambda>a b :: ptr. a = 300 \<and> b \<noteq> 300" and ?xs = "[300, 100, 200] :: ptr list"
  have s: "strict_weak ?f" "sorted_wrt (\<lambda>a b. \<not> ?f b a) ?xs" by (auto simp: strict_weak_def)
  have n: "nths ?xs {i. \<forall>j<i. ?f (?xs ! j) (?xs ! i) \<or> ?f (?xs ! i) (?xs ! j)} = [300, 100]"
    "nths ?xs {i. \<exists>j<i. \<not> ?f (?xs ! j) (?xs ! i) \<and> \<not> ?f (?xs ! i) (?xs ! j)} = [200]"
    by (simp_all add: nths_Cons All_less_Suc2 Ex_less_Suc2)
  have "set (nodes 16 ?xs) \<inter> set (nodes 64 []) = {}" by (simp add: nodes_def list_head_addr_def list_tail_addr_def)
  from list_unique_correct [OF s sample_dll sample_empty this] show ?thesis unfolding n by auto
qed

text \<open>
  \<open>list_insert_ordered\<close> puts a new element behind every element that it is not less than,
  and keeps a sorted list sorted.
\<close>

theorem list_insert_ordered_correct:
  assumes "strict_weak f" and "sorted_wrt (\<lambda>a b. \<not> f b a) xs" and "dll h l xs"
    and "e \<notin> set (nodes l xs)" and "e \<noteq> NULL"
  shows "\<exists>h' us vs. list_insert_ordered l e (Some f) h = Some (Done h') \<and> dll h' l (us @ e # vs)
    \<and> us @ vs = xs \<and> sorted_wrt (\<lambda>a b. \<not> f b a) (us @ e # vs) \<and> (\<forall>u\<in>set us. \<not> f e u) \<and> (vs \<noteq> [] \<longrightarrow> f e (hd vs))"
proof -
  let ?us = "takeWhile (\<lambda>y. \<not> f e y) xs" and ?vs = "dropWhile (\<lambda>y. \<not> f e y) xs"
  obtain h' where "list_insert_ordered l e (Some f) h = Some (Done h')" "dll h' l (?us @ e # ?vs)"
    using list_insert_ordered_dll [OF assms(3-5)] by metis
  moreover have "\<forall>u\<in>set ?us. \<not> f e u" using set_takeWhileD by fast
  moreover have "?vs \<noteq> [] \<longrightarrow> f e (hd ?vs)" using hd_dropWhile by blast
  ultimately show ?thesis
    using in_order_insert [OF assms(1,2), of e] takeWhile_dropWhile_id [of "\<lambda>y. \<not> f e y" xs] by blast
qed

theorem list_insert_ordered_correct_witness:
  "\<exists>h' us vs. list_insert_ordered 64 100 (Some (<)) sample_heap = Some (Done h') \<and> dll h' 64 (us @ 100 # vs)
    \<and> us @ vs = []"
  using list_insert_ordered_correct [of "(<)" "[]", OF strict_weak_less _ sample_empty, of 100]
  by (auto simp: nodes_def list_head_addr_def list_tail_addr_def)

text \<open>
  \<open>list_reverse\<close> reverses the list in place, and reversing twice restores every link of it.
\<close>

theorem list_reverse_correct:
  assumes "dll h l xs"
  shows "\<exists>h'. list_reverse l h = Some (Done h') \<and> dll h' l (rev xs)
    \<and> (\<forall>q. q \<notin> set (nodes l xs) \<longrightarrow> h' q = h q)
    \<and> (\<exists>h''. list_reverse l h' = Some (Done h'') \<and> dll h'' l xs)"
proof -
  obtain h' where h': "list_reverse l h = Some (Done h')" "dll h' l (rev xs)"
    "\<And>q. q \<notin> set (nodes l xs) \<Longrightarrow> h' q = h q"
    using list_reverse_dll [OF assms] by metis
  obtain h'' where "list_reverse l h' = Some (Done h'')" "dll h'' l (rev (rev xs))"
    using list_reverse_dll [OF h'(2)] by metis
  then show ?thesis using h' by auto
qed

theorem list_reverse_correct_witness:
  "\<exists>h'. list_reverse 16 sample_heap = Some (Done h') \<and> dll h' 16 [200, 100, 300]"
  using list_reverse_correct [OF sample_dll] by auto

text \<open>
  \<open>list_max\<close> returns an element no other element of the list exceeds, and the tail sentinel
  exactly when the list is empty.
\<close>

theorem list_max_correct:
  assumes "strict_weak f" and "dll h l xs"
  shows "\<exists>m. list_max l (Some f) h = Some (Done m) \<and>
    (if xs = [] then m = list_tail_addr l else m \<in> set xs \<and> (\<forall>y\<in>set xs. \<not> f m y))"
proof (cases xs)
  case (Cons x xs')
  then show ?thesis
    using first_max_props [OF assms(1), of x xs'] by (simp add: list_max_dll [OF assms(2)])
qed (simp add: list_max_dll [OF assms(2)])

theorem list_max_correct_witness:
  "\<exists>m. list_max 16 (Some (<)) sample_heap = Some (Done m) \<and> m \<in> {300, 100, 200} \<and> \<not> m < 300"
  using list_max_correct [OF strict_weak_less sample_dll] by auto

end
