(* ===== verification/Memory.thy ===== *)
theory Memory
  imports Prelude
begin

text \<open>
  Byte-addressed memory of the i386, and the 32-bit accesses of the kernel: a pointer
  dereference \<open>*(uint*)a\<close> reads four bytes, least significant first.
\<close>

unbundle bit_operations_syntax

type_synonym mem = "u32 \<Rightarrow> u8"

definition load32 :: "mem \<Rightarrow> u32 \<Rightarrow> u32" where
  "load32 m a = ucast (m a) OR push_bit 8 (ucast (m (a + 1)))
     OR push_bit 16 (ucast (m (a + 2))) OR push_bit 24 (ucast (m (a + 3)))"

definition store32 :: "mem \<Rightarrow> u32 \<Rightarrow> u32 \<Rightarrow> mem" where
  "store32 m a v = m(a := ucast v, a + 1 := ucast (drop_bit 8 v),
     a + 2 := ucast (drop_bit 16 v), a + 3 := ucast (drop_bit 24 v))"

text \<open>Storing a list of bytes from \<open>a\<close> on.\<close>

primrec store_bytes :: "mem \<Rightarrow> u32 \<Rightarrow> u8 list \<Rightarrow> mem" where
  "store_bytes m a [] = m"
| "store_bytes m a (b # bs) = store_bytes (m(a := b)) (a + 1) bs"

text \<open>The bytes from \<open>a\<close>, \<open>n\<close> of them; \<open>off a b\<close> is the distance from \<open>a\<close> up to \<open>b\<close>.\<close>

definition bytes :: "mem \<Rightarrow> u32 \<Rightarrow> nat \<Rightarrow> u8 list" where
  "bytes m a n = map (\<lambda>i. m (a + of_nat i)) [0..<n]"

definition off :: "u32 \<Rightarrow> u32 \<Rightarrow> nat" where
  "off a b = unat (b - a)"

definition in_range :: "u32 \<Rightarrow> nat \<Rightarrow> u32 \<Rightarrow> bool" where
  "in_range a n p \<longleftrightarrow> off a p < n"

lemma bytes_length [simp]: "length (bytes m a n) = n"
  by (simp add: bytes_def)

lemma bytes_nth: "i < n \<Longrightarrow> bytes m a n ! i = m (a + of_nat i)"
  by (simp add: bytes_def)

lemma bytes_Suc: "bytes m a (Suc n) = m a # bytes m (a + 1) n"
  by (rule nth_equalityI) (auto simp: bytes_nth nth_Cons' algebra_simps of_nat_diff)

lemma bytes_Suc_last: "bytes m a (Suc n) = bytes m a n @ [m (a + of_nat n)]"
  by (simp add: bytes_def)

lemma bytes_0 [simp]: "bytes m a 0 = []"
  by (simp add: bytes_def)

lemma off_self [simp]: "off a a = 0"
  by (simp add: off_def)

lemma off_add: "i < 2 ^ 32 \<Longrightarrow> off a (a + of_nat i) = i"
  by (simp add: off_def unat_of_nat)

lemma add_off [simp]: "a + of_nat (off a p) = p"
  by (simp add: off_def)

lemma off_inj: "off a p = off a q \<Longrightarrow> p = q"
  by (metis add_off)

lemma in_range_iff: "n \<le> 2 ^ 32 \<Longrightarrow> in_range a n p \<longleftrightarrow> (\<exists>i<n. p = a + of_nat i)"
  using off_add [of _ a] by (auto simp: in_range_def intro!: exI [of _ "off a p"])

lemma word_of_bytes:
  fixes w :: u32
  shows "(ucast (ucast w :: u8) :: u32) OR push_bit 8 (ucast (ucast (drop_bit 8 w) :: u8))
     OR push_bit 16 (ucast (ucast (drop_bit 16 w) :: u8)) OR push_bit 24 (ucast (ucast (drop_bit 24 w) :: u8)) = w"
proof (rule bit_word_eqI)
  fix n
  assume "n < LENGTH(32)"
  consider "n < 8" | "8 \<le> n" "n < 16" | "16 \<le> n" "n < 24" | "24 \<le> n" by linarith
  then show "bit ((ucast (ucast w :: u8) :: u32) OR push_bit 8 (ucast (ucast (drop_bit 8 w) :: u8))
     OR push_bit 16 (ucast (ucast (drop_bit 16 w) :: u8)) OR push_bit 24 (ucast (ucast (drop_bit 24 w) :: u8))) n = bit w n"
    using \<open>n < LENGTH(32)\<close> by cases (auto simp: bit_simps)
qed

lemma load32_store32 [simp]: "load32 (store32 m a v) a = v"
  using word_of_bytes [of v] by (simp add: load32_def store32_def)

lemma store32_other: "\<not> in_range a 4 p \<Longrightarrow> store32 m a v p = m p"
proof -
  assume n: "\<not> in_range a 4 p"
  have "p \<noteq> a + of_nat i" if "i < 4" for i
    using n that in_range_iff [of 4 a p] by auto
  from this [of 0] this [of 1] this [of 2] this [of 3]
  show ?thesis by (simp add: store32_def)
qed

lemma load32_cong: "(\<And>p. in_range a 4 p \<Longrightarrow> m' p = m p) \<Longrightarrow> load32 m' a = load32 m a"
proof -
  assume eq: "\<And>p. in_range a 4 p \<Longrightarrow> m' p = m p"
  have r: "in_range a 4 (a + of_nat i)" if "i < 4" for i
    using that by (simp add: in_range_def off_add)
  have "m' a = m a" "m' (a + 1) = m (a + 1)" "m' (a + 2) = m (a + 2)" "m' (a + 3) = m (a + 3)"
    using eq r [of 0] r [of 1] r [of 2] r [of 3] by simp_all
  then show ?thesis by (simp add: load32_def)
qed

lemma unat_off: "unat a + off a p < 2 ^ 32 \<Longrightarrow> unat p = unat a + off a p"
proof -
  assume "unat a + off a p < 2 ^ 32"
  then have "unat (a + of_nat (off a p)) = unat a + off a p"
    by (simp add: unat_word_ariths unat_of_nat del: add_off)
  then show ?thesis by simp
qed

text \<open>Two aligned words, and two aligned pages, are the same or disjoint.\<close>

lemma aligned_room:
  assumes "k dvd unat (a :: u32)" and "k dvd 2 ^ 32" and "0 < k"
  shows "unat a + k \<le> 2 ^ 32"
proof -
  obtain x y where x: "unat a = k * x" and y: "2 ^ 32 = k * y" using assms by (auto elim!: dvdE)
  have "k * x < k * y" using unat_u32 [of a] x y by simp
  then have "k * Suc x \<le> k * y" using assms(3) by (intro mult_le_mono2) simp
  then show ?thesis using x y by simp
qed

lemma aligned_disjoint:
  assumes "k dvd unat a" and "k dvd unat b" and "k dvd 2 ^ 32" and "0 < k" and "in_range a k p" and "in_range b k p"
  shows "a = b"
proof -
  have lt: "unat a + k \<le> 2 ^ 32" "unat b + k \<le> 2 ^ 32"
    using aligned_room assms(1-4) by blast+
  have u: "unat p = unat a + off a p" "unat p = unat b + off b p"
    using assms(5,6) lt unfolding in_range_def by (simp_all add: unat_off)
  obtain x y where x: "unat a = k * x" and y: "unat b = k * y" using assms(1,2) by (auto elim!: dvdE)
  have "x = unat p div k" "y = unat p div k"
    using u(1) x assms(4,5) unfolding in_range_def apply simp
    using u(2) y assms(4,6) unfolding in_range_def by simp
  then have "unat a = unat b" using x y by simp
  then show ?thesis by (simp add: word_unat_eq_iff)
qed

lemma load32_store32_other:
  assumes "4 dvd unat a" and "4 dvd unat b" and "a \<noteq> b"
  shows "load32 (store32 m a v) b = load32 m b"
  using aligned_disjoint [OF assms(1,2)] assms(3) by (intro load32_cong store32_other) auto

end
