(* ===== verification/Kernel.thy ===== *)
theory Kernel
  imports Memory Klist
begin

text \<open>
  The kernel's data: the constants of param.h, mmu.h, memlayout.h and the structures of
  proc.h, spinlock.h, x86.h, file.h, fs.h, buf.h, pipe.c and log.c, and one record that holds the
  whole kernel state.

  Pages handed out by kalloc live in byte memory (\<open>mem\<close>). Structures that the kernel keeps at
  fixed addresses or places in a page of their own (processes, buffers, inodes, files, pipes)
  are typed: a process is an index into \<open>ptable.proc\<close>, a buffer an index into \<open>bcache.buf\<close>,
  a pipe is the address of its page, and a null pointer is \<open>None\<close>. A spin lock is named by where
  it lives, and so is a sleep channel: different variables have different addresses.
\<close>

section \<open>Constants\<close>

definition NPROC :: nat where "NPROC = 64"
definition KSTACKSIZE :: u32 where "KSTACKSIZE = 4096"
definition NCPU :: nat where "NCPU = 8"
definition NOFILE :: nat where "NOFILE = 16"
definition NFILE :: nat where "NFILE = 100"
definition NINODE :: nat where "NINODE = 50"
definition NDEV :: int where "NDEV = 10"
definition ROOTDEV :: u32 where "ROOTDEV = 1"
definition MAXARG :: nat where "MAXARG = 32"
definition MAXOPBLOCKS :: int where "MAXOPBLOCKS = 10"
definition LOGSIZE :: int where "LOGSIZE = MAXOPBLOCKS * 3"
definition NBUF :: nat where "NBUF = 30"

definition EXTMEM :: u32 where "EXTMEM = 0x100000"
definition PHYSTOP :: u32 where "PHYSTOP = 0xE000000"
definition DEVSPACE :: u32 where "DEVSPACE = 0xFE000000"
definition KERNBASE :: u32 where "KERNBASE = 0x80000000"
definition KERNLINK :: u32 where "KERNLINK = KERNBASE + EXTMEM"

definition v2p :: "u32 \<Rightarrow> u32" where "v2p a = a - KERNBASE"
definition p2v :: "u32 \<Rightarrow> u32" where "p2v a = a + KERNBASE"

definition PGSIZE :: u32 where "PGSIZE = 4096"
definition NPDENTRIES :: nat where "NPDENTRIES = 1024"
definition NPTENTRIES :: u32 where "NPTENTRIES = 1024"
definition PDX :: "u32 \<Rightarrow> u32" where "PDX va = drop_bit 22 va AND 0x3FF"
definition PTX :: "u32 \<Rightarrow> u32" where "PTX va = drop_bit 12 va AND 0x3FF"
definition PGROUNDUP :: "u32 \<Rightarrow> u32" where "PGROUNDUP sz = (sz + PGSIZE - 1) AND NOT (PGSIZE - 1)"
definition PGROUNDDOWN :: "u32 \<Rightarrow> u32" where "PGROUNDDOWN a = a AND NOT (PGSIZE - 1)"
definition PTE_P :: u32 where "PTE_P = 1"
definition PTE_W :: u32 where "PTE_W = 2"
definition PTE_U :: u32 where "PTE_U = 4"
definition PTE_ADDR :: "u32 \<Rightarrow> u32" where "PTE_ADDR pte = pte AND NOT 0xFFF"
definition PTE_FLAGS :: "u32 \<Rightarrow> u32" where "PTE_FLAGS pte = pte AND 0xFFF"

definition BSIZE :: nat where "BSIZE = 512"
definition NDIRECT :: nat where "NDIRECT = 12"
definition NINDIRECT :: nat where "NINDIRECT = 128"
definition MAXFILE :: nat where "MAXFILE = NDIRECT + NINDIRECT"
definition DIRSIZ :: nat where "DIRSIZ = 14"
definition PIPESIZE :: u32 where "PIPESIZE = 512"
definition ROOTINO :: u32 where "ROOTINO = 1"

lemmas param_defs = NPROC_def KSTACKSIZE_def NCPU_def NOFILE_def NFILE_def NINODE_def NDEV_def ROOTDEV_def
  MAXARG_def MAXOPBLOCKS_def LOGSIZE_def NBUF_def
lemmas layout_defs = EXTMEM_def PHYSTOP_def DEVSPACE_def KERNBASE_def KERNLINK_def v2p_def p2v_def
lemmas mmu_defs = PGSIZE_def NPDENTRIES_def NPTENTRIES_def PDX_def PTX_def PGROUNDUP_def PGROUNDDOWN_def
  PTE_P_def PTE_W_def PTE_U_def PTE_ADDR_def PTE_FLAGS_def
lemmas fs_defs = BSIZE_def NDIRECT_def NINDIRECT_def MAXFILE_def DIRSIZ_def ROOTINO_def

section \<open>Locks and sleep channels\<close>

datatype lockid = Lptable | Lkmem | Lticks | Lbcache | Llog | Licache | Lftable | Lcons | Lshared
  | Lpipe u32 | Lat u32

datatype chan = ChProc "nat option" | ChTicks | ChLog | ChBuf nat | ChInode nat | ChInput
  | ChPipeRead u32 | ChPipeWrite u32 | ChAt u32 | ChLockAt u32

record spinlock =
  locked :: u32
  lk_name :: string
  lk_cpu :: "nat option"
  pcs :: "u32 list"

record cpu =
  started :: u32
  ncli :: int
  intena :: bool
  cproc :: "nat option"
  ts_ss0 :: u32
  ts_esp0 :: u32

section \<open>Processes\<close>

record kcontext =
  c_edi :: u32
  c_esi :: u32
  c_ebx :: u32
  c_ebp :: u32
  c_eip :: u32

record trapframe =
  t_edi :: u32
  t_esi :: u32
  t_ebp :: u32
  t_oesp :: u32
  t_ebx :: u32
  t_edx :: u32
  t_ecx :: u32
  t_eax :: u32
  t_gs :: u16
  t_fs :: u16
  t_es :: u16
  t_ds :: u16
  t_trapno :: u32
  t_err :: u32
  t_eip :: u32
  t_cs :: u16
  t_eflags :: u32
  t_esp :: u32
  t_ss :: u16

datatype procstate = UNUSED | EMBRYO | SLEEPING | RUNNABLE | RUNNING | ZOMBIE

record proc =
  sz :: u32
  pgdir :: u32
  kstack :: u32
  state :: procstate
  pid :: int
  parent :: "nat option"
  tf_addr :: u32
  tf :: trapframe
  context_addr :: u32
  ctx :: kcontext
  pchan :: "chan option"
  killed :: int
  ofile :: "nat option list"
  cwd :: "nat option"
  pname :: "u8 list"
  page :: u32
  addr1 :: u32
  addr2 :: u32
  shared :: int
  vaddr :: u32

section \<open>Files, buffers, inodes, pipes\<close>

datatype fdtype = FD_NONE | FD_PIPE | FD_INODE

record kfile =
  ftype :: fdtype
  fref :: int
  readable :: bool
  writable :: bool
  fpipe :: u32
  fip :: "nat option"
  foff :: u32

record inode =
  idev :: u32
  inum :: u32
  iref :: int
  I_BUSY :: bool
  I_VALID :: bool
  itype :: int
  major :: int
  minor :: int
  nlink :: int
  isize :: u32
  addrs :: "u32 list"

record superblock =
  sb_size :: u32
  nblocks :: u32
  ninodes :: u32
  nlog :: u32
  logstart :: u32
  inodestart :: u32
  bmapstart :: u32

record buf =
  B_BUSY :: bool
  B_VALID :: bool
  B_DIRTY :: bool
  bdev :: u32
  blockno :: u32
  bprev :: nat
  bnext :: nat
  bdata :: "u8 list"

record pipe =
  pdata :: "u8 list"
  nread :: u32
  nwrite :: u32
  readopen :: bool
  writeopen :: bool

record log =
  start :: int
  lsize :: int
  outstanding :: int
  committing :: bool
  ldev :: u32
  lh_n :: int
  lh_block :: "int list"

text \<open>
  The console: \<open>cons\<close> and \<open>input\<close> of console.c, the CGA text memory with its cursor, and
  the characters sent to the serial line so far. \<open>kbd_shift\<close> is the state of the keyboard driver.
\<close>

record console =
  locking :: bool
  panicked :: bool
  ibuf :: "u8 list"
  in_r :: u32
  in_w :: u32
  in_e :: u32
  uart :: "u8 list"
  crt :: "nat \<Rightarrow> u16"
  crt_pos :: int

text \<open>The device switch: which functions read and write the devices of a major number.\<close>

datatype devfn = Fconsole

record devsw =
  dread :: "devfn option"
  dwrite :: "devfn option"

text \<open>The addresses the linker provides.\<close>

record linkage =
  kend :: u32
  kdata :: u32
  forkret_addr :: u32
  trapret_addr :: u32

section \<open>The kernel state\<close>

text \<open>
  \<open>me\<close> is the CPU the code runs on, \<open>if_flag\<close> its interrupt flag in EFLAGS, \<open>lkarg\<close> the stack slot
  of the argument of \<open>acquire\<close> (where the walk over the stack frames starts).
\<close>

record kernel =
  mem :: mem
  links :: lheap
  me :: nat
  cpus :: "nat \<Rightarrow> cpu"
  if_flag :: "nat \<Rightarrow> bool"
  cr3 :: "nat \<Rightarrow> u32"
  lkarg :: u32
  syms :: linkage
  locks :: "lockid \<Rightarrow> spinlock"
  use_lock :: bool
  freelist :: u32
  kpgdir :: u32
  procs :: "nat \<Rightarrow> proc"
  initproc :: "nat option"
  nextpid :: int
  ticks :: u32
  forkret_first :: bool
  pipes :: "u32 \<Rightarrow> pipe"
  files :: "nat \<Rightarrow> kfile"
  bufs :: "nat \<Rightarrow> buf"
  disk :: "u32 \<Rightarrow> u8 list"
  disksize :: u32
  klog :: log
  sb :: superblock
  inodes :: "nat \<Rightarrow> inode"
  shared_pages :: "u32 list"
  shared_npages :: int
  shared_refcount :: int
  shared_initialized :: bool
  svalue :: "u32 \<Rightarrow> u32"
  cons :: console
  kbd_shift :: u32
  devs :: "int \<Rightarrow> devsw"

type_synonym 'a K = "kernel \<Rightarrow> ('a \<times> kernel) kresult"

text \<open>Updating one component of an indexed part of the state.\<close>

definition upd_cpu :: "(cpu \<Rightarrow> cpu) \<Rightarrow> kernel \<Rightarrow> kernel" where
  "upd_cpu f s = s\<lparr>cpus := (cpus s)(me s := f (cpus s (me s)))\<rparr>"

definition upd_proc :: "nat \<Rightarrow> (proc \<Rightarrow> proc) \<Rightarrow> kernel \<Rightarrow> kernel" where
  "upd_proc p f s = s\<lparr>procs := (procs s)(p := f (procs s p))\<rparr>"

definition upd_lock :: "lockid \<Rightarrow> (spinlock \<Rightarrow> spinlock) \<Rightarrow> kernel \<Rightarrow> kernel" where
  "upd_lock l f s = s\<lparr>locks := (locks s)(l := f (locks s l))\<rparr>"

text \<open>The process running on this CPU (\<open>proc\<close> in proc.h).\<close>

abbreviation curproc :: "kernel \<Rightarrow> nat option" where
  "curproc s \<equiv> cproc (cpus s (me s))"

end
