(* ===== verification/Spinlock.thy ===== *)
theory Spinlock
  imports Kernel
begin

text \<open>
  spinlock.c. \<open>acquire\<close> and \<open>release\<close> run to their end on one CPU; a lock held by another CPU
  makes \<open>acquire\<close> spin. For the interleaving of several CPUs the second half splits both into
  the accesses the code makes (\<open>lstep\<close>) and shows mutual exclusion of the critical sections.
\<close>

section \<open>Operations\<close>

definition pushcli :: "kernel \<Rightarrow> kernel" where
  "pushcli s =
     (let eflags = if_flag s (me s);
          s = s\<lparr>if_flag := (if_flag s)(me s := False)\<rparr>
      in upd_cpu (\<lambda>c. c\<lparr>ncli := ncli c + 1, intena := (if ncli c = 0 then eflags else intena c)\<rparr>) s)"

definition popcli :: "kernel \<Rightarrow> kernel kresult" where
  "popcli s =
     kassert (\<not> if_flag s (me s)) ''popcli - interruptible''
      (let s = upd_cpu (\<lambda>c. c\<lparr>ncli := ncli c - 1\<rparr>) s in
       kassert (\<not> ncli (cpus s (me s)) < 0) ''popcli''
        (Done (if ncli (cpus s (me s)) = 0 \<and> intena (cpus s (me s))
               then s\<lparr>if_flag := (if_flag s)(me s := True)\<rparr> else s)))"

definition initlock :: "lockid \<Rightarrow> string \<Rightarrow> kernel \<Rightarrow> kernel" where
  "initlock lk name = upd_lock lk (\<lambda>l. l\<lparr>lk_name := name, locked := 0, lk_cpu := None\<rparr>)"

definition holding :: "lockid \<Rightarrow> kernel \<Rightarrow> bool" where
  "holding lk s \<longleftrightarrow> locked (locks s lk) \<noteq> 0 \<and> lk_cpu (locks s lk) = Some (me s)"

text \<open>At most \<open>n\<close> more frames from the frame pointer \<open>ebp\<close>; the rest of \<open>pcs\<close> is zero.\<close>

primrec pcs_loop :: "mem \<Rightarrow> u32 \<Rightarrow> nat \<Rightarrow> u32 list" where
  "pcs_loop m ebp 0 = []"
| "pcs_loop m ebp (Suc n) =
     (if ebp = 0 \<or> ebp < KERNBASE \<or> ebp = 0xffffffff then replicate (Suc n) 0
      else load32 m (ebp + 4) # pcs_loop m (load32 m ebp) n)"

definition getcallerpcs :: "mem \<Rightarrow> u32 \<Rightarrow> u32 list" where
  "getcallerpcs m v = pcs_loop m (v - 8) 10"

definition acquire :: "lockid \<Rightarrow> kernel \<Rightarrow> kernel kresult" where
  "acquire lk s =
     (let s = pushcli s in
      if holding lk s then Panic ''acquire''
      else if locked (locks s lk) \<noteq> 0 then Spin
      else Done (upd_lock lk (\<lambda>l. l\<lparr>locked := 1, lk_cpu := Some (me s),
                   pcs := getcallerpcs (mem s) (lkarg s)\<rparr>) s))"

definition release :: "lockid \<Rightarrow> kernel \<Rightarrow> kernel kresult" where
  "release lk s =
     kassert (holding lk s) ''release''
       (popcli (upd_lock lk (\<lambda>l. l\<lparr>pcs := (pcs l)[0 := 0], lk_cpu := None, locked := 0\<rparr>) s))"

section \<open>One CPU\<close>

lemma pcs_loop_length: "length (pcs_loop m ebp n) = n"
  by (induction n arbitrary: ebp) auto

lemma pushcli_simps [simp]:
  "me (pushcli s) = me s" "locks (pushcli s) = locks s" "mem (pushcli s) = mem s" "procs (pushcli s) = procs s"
  "holding lk (pushcli s) = holding lk s" "lkarg (pushcli s) = lkarg s"
  by (simp_all add: pushcli_def upd_cpu_def holding_def Let_def)

lemma acquire_free:
  assumes "locked (locks s lk) = 0"
  shows "acquire lk s = Done (upd_lock lk (\<lambda>l. l\<lparr>locked := 1, lk_cpu := Some (me s),
    pcs := getcallerpcs (mem s) (lkarg s)\<rparr>) (pushcli s))"
  using assms by (simp add: acquire_def Let_def holding_def)

lemma acquire_Done_iff:
  "acquire lk s = Done s' \<longleftrightarrow> locked (locks s lk) = 0 \<and> s' = upd_lock lk (\<lambda>l. l\<lparr>locked := 1,
    lk_cpu := Some (me s), pcs := getcallerpcs (mem s) (lkarg s)\<rparr>) (pushcli s)"
  by (auto simp: acquire_def Let_def holding_def)

text \<open>
  The state of the CPU between calls: interrupts are off while locks are held, and the
  nesting depth is not negative.
\<close>

definition cli_ok :: "kernel \<Rightarrow> bool" where
  "cli_ok s \<longleftrightarrow> ncli (cpus s (me s)) \<ge> 0 \<and> (ncli (cpus s (me s)) > 0 \<longrightarrow> \<not> if_flag s (me s))"

lemma pushcli_cli_ok: "cli_ok s \<Longrightarrow> cli_ok (pushcli s) \<and> ncli (cpus (pushcli s) (me s)) = ncli (cpus s (me s)) + 1"
  by (auto simp: cli_ok_def pushcli_def upd_cpu_def Let_def)

text \<open>
  \<open>crit lk s\<close> is \<open>s\<close> after an empty critical section: only the debugging fields of the lock and
  the saved interrupt flag of the CPU may differ. \<open>enter lk P r\<close> is the state inside the section
  that becomes \<open>r\<close> when the lock is released, \<open>P\<close> being the call stack stored in the lock.
\<close>

definition dbg :: "lockid \<Rightarrow> kernel \<Rightarrow> kernel" where
  "dbg lk s = s\<lparr>locks := (locks s)(lk := (locks s lk)\<lparr>locked := 0, lk_cpu := None,
     pcs := (getcallerpcs (mem s) (lkarg s))[0 := 0]\<rparr>)\<rparr>"

definition crit :: "lockid \<Rightarrow> kernel \<Rightarrow> kernel" where
  "crit lk s = (dbg lk s)\<lparr>cpus := (cpus s)(me s := (cpus s (me s))\<lparr>intena :=
     (if ncli (cpus s (me s)) = 0 then if_flag s (me s) else intena (cpus s (me s)))\<rparr>)\<rparr>"

definition enter :: "lockid \<Rightarrow> u32 list \<Rightarrow> kernel \<Rightarrow> kernel" where
  "enter lk P r = r\<lparr>locks := (locks r)(lk := (locks r lk)\<lparr>locked := 1, lk_cpu := Some (me r), pcs := P\<rparr>),
     cpus := (cpus r)(me r := (cpus r (me r))\<lparr>ncli := ncli (cpus r (me r)) + 1\<rparr>),
     if_flag := (if_flag r)(me r := False)\<rparr>"

abbreviation callers :: "kernel \<Rightarrow> u32 list" where
  "callers s \<equiv> getcallerpcs (mem s) (lkarg s)"

definition crit_ok :: "lockid \<Rightarrow> u32 list \<Rightarrow> kernel \<Rightarrow> bool" where
  "crit_ok lk P r \<longleftrightarrow> locked (locks r lk) = 0 \<and> lk_cpu (locks r lk) = None \<and> pcs (locks r lk) = P[0 := 0]
     \<and> ncli (cpus r (me r)) \<ge> 0 \<and> if_flag r (me r) = (ncli (cpus r (me r)) = 0 \<and> intena (cpus r (me r)))"

lemma crit_simps [simp]:
  "mem (crit lk s) = mem s" "links (crit lk s) = links s" "cr3 (crit lk s) = cr3 s"
  "lkarg (crit lk s) = lkarg s" "syms (crit lk s) = syms s" "use_lock (crit lk s) = use_lock s"
  "freelist (crit lk s) = freelist s" "kpgdir (crit lk s) = kpgdir s" "procs (crit lk s) = procs s"
  "initproc (crit lk s) = initproc s" "nextpid (crit lk s) = nextpid s" "ticks (crit lk s) = ticks s"
  "forkret_first (crit lk s) = forkret_first s" "pipes (crit lk s) = pipes s" "files (crit lk s) = files s"
  "bufs (crit lk s) = bufs s" "disk (crit lk s) = disk s" "disksize (crit lk s) = disksize s"
  "klog (crit lk s) = klog s" "sb (crit lk s) = sb s" "inodes (crit lk s) = inodes s"
  "shared_pages (crit lk s) = shared_pages s" "shared_npages (crit lk s) = shared_npages s" "shared_refcount (crit lk s) = shared_refcount s"
  "shared_initialized (crit lk s) = shared_initialized s" "svalue (crit lk s) = svalue s"
  "cons (crit lk s) = cons s" "kbd_shift (crit lk s) = kbd_shift s" "devs (crit lk s) = devs s"
  "me (crit lk s) = me s" "if_flag (crit lk s) = if_flag s"
  "cproc (cpus (crit lk s) c) = cproc (cpus s c)" "ncli (cpus (crit lk s) c) = ncli (cpus s c)"
  by (simp_all add: crit_def dbg_def)

lemma dbg_simps [simp]:
  "mem (dbg lk s) = mem s" "links (dbg lk s) = links s" "cr3 (dbg lk s) = cr3 s"
  "lkarg (dbg lk s) = lkarg s" "syms (dbg lk s) = syms s" "use_lock (dbg lk s) = use_lock s"
  "freelist (dbg lk s) = freelist s" "kpgdir (dbg lk s) = kpgdir s" "procs (dbg lk s) = procs s"
  "initproc (dbg lk s) = initproc s" "nextpid (dbg lk s) = nextpid s" "ticks (dbg lk s) = ticks s"
  "forkret_first (dbg lk s) = forkret_first s" "pipes (dbg lk s) = pipes s" "files (dbg lk s) = files s"
  "bufs (dbg lk s) = bufs s" "disk (dbg lk s) = disk s" "disksize (dbg lk s) = disksize s"
  "klog (dbg lk s) = klog s" "sb (dbg lk s) = sb s" "inodes (dbg lk s) = inodes s"
  "shared_pages (dbg lk s) = shared_pages s" "shared_npages (dbg lk s) = shared_npages s" "shared_refcount (dbg lk s) = shared_refcount s"
  "shared_initialized (dbg lk s) = shared_initialized s" "svalue (dbg lk s) = svalue s"
  "cons (dbg lk s) = cons s" "kbd_shift (dbg lk s) = kbd_shift s" "devs (dbg lk s) = devs s"
  "me (dbg lk s) = me s" "if_flag (dbg lk s) = if_flag s" "cpus (dbg lk s) = cpus s"
  by (simp_all add: dbg_def)

lemma enter_simps [simp]:
  "mem (enter lk P r) = mem r" "links (enter lk P r) = links r" "cr3 (enter lk P r) = cr3 r"
  "lkarg (enter lk P r) = lkarg r" "syms (enter lk P r) = syms r" "use_lock (enter lk P r) = use_lock r"
  "freelist (enter lk P r) = freelist r" "kpgdir (enter lk P r) = kpgdir r" "procs (enter lk P r) = procs r"
  "initproc (enter lk P r) = initproc r" "nextpid (enter lk P r) = nextpid r" "ticks (enter lk P r) = ticks r"
  "forkret_first (enter lk P r) = forkret_first r" "pipes (enter lk P r) = pipes r" "files (enter lk P r) = files r"
  "bufs (enter lk P r) = bufs r" "disk (enter lk P r) = disk r" "disksize (enter lk P r) = disksize r"
  "klog (enter lk P r) = klog r" "sb (enter lk P r) = sb r" "inodes (enter lk P r) = inodes r"
  "shared_pages (enter lk P r) = shared_pages r" "shared_npages (enter lk P r) = shared_npages r" "shared_refcount (enter lk P r) = shared_refcount r"
  "shared_initialized (enter lk P r) = shared_initialized r" "svalue (enter lk P r) = svalue r"
  "cons (enter lk P r) = cons r" "kbd_shift (enter lk P r) = kbd_shift r" "devs (enter lk P r) = devs r"
  "me (enter lk P r) = me r" "cproc (cpus (enter lk P r) c) = cproc (cpus r c)" "\<not> if_flag (enter lk P r) (me r)"
  "ncli (cpus (enter lk P r) (me r)) = ncli (cpus r (me r)) + 1"
  "holding lk (enter lk P r)"
  by (simp_all add: enter_def holding_def)

lemma enter_upd [simp]:
  "(enter lk P r)\<lparr>mem := x0\<rparr> = enter lk P (r\<lparr>mem := x0\<rparr>)" "(enter lk P r)\<lparr>links := x1\<rparr> = enter lk P (r\<lparr>links := x1\<rparr>)"
  "(enter lk P r)\<lparr>cr3 := x2\<rparr> = enter lk P (r\<lparr>cr3 := x2\<rparr>)" "(enter lk P r)\<lparr>lkarg := x3\<rparr> = enter lk P (r\<lparr>lkarg := x3\<rparr>)"
  "(enter lk P r)\<lparr>syms := x4\<rparr> = enter lk P (r\<lparr>syms := x4\<rparr>)" "(enter lk P r)\<lparr>use_lock := x5\<rparr> = enter lk P (r\<lparr>use_lock := x5\<rparr>)"
  "(enter lk P r)\<lparr>freelist := x6\<rparr> = enter lk P (r\<lparr>freelist := x6\<rparr>)" "(enter lk P r)\<lparr>kpgdir := x7\<rparr> = enter lk P (r\<lparr>kpgdir := x7\<rparr>)"
  "(enter lk P r)\<lparr>procs := x8\<rparr> = enter lk P (r\<lparr>procs := x8\<rparr>)" "(enter lk P r)\<lparr>initproc := x9\<rparr> = enter lk P (r\<lparr>initproc := x9\<rparr>)"
  "(enter lk P r)\<lparr>nextpid := x10\<rparr> = enter lk P (r\<lparr>nextpid := x10\<rparr>)" "(enter lk P r)\<lparr>ticks := x11\<rparr> = enter lk P (r\<lparr>ticks := x11\<rparr>)"
  "(enter lk P r)\<lparr>forkret_first := x12\<rparr> = enter lk P (r\<lparr>forkret_first := x12\<rparr>)" "(enter lk P r)\<lparr>pipes := x13\<rparr> = enter lk P (r\<lparr>pipes := x13\<rparr>)"
  "(enter lk P r)\<lparr>files := x14\<rparr> = enter lk P (r\<lparr>files := x14\<rparr>)" "(enter lk P r)\<lparr>bufs := x15\<rparr> = enter lk P (r\<lparr>bufs := x15\<rparr>)"
  "(enter lk P r)\<lparr>disk := x16\<rparr> = enter lk P (r\<lparr>disk := x16\<rparr>)" "(enter lk P r)\<lparr>disksize := x17\<rparr> = enter lk P (r\<lparr>disksize := x17\<rparr>)"
  "(enter lk P r)\<lparr>klog := x18\<rparr> = enter lk P (r\<lparr>klog := x18\<rparr>)" "(enter lk P r)\<lparr>sb := x19\<rparr> = enter lk P (r\<lparr>sb := x19\<rparr>)"
  "(enter lk P r)\<lparr>inodes := x20\<rparr> = enter lk P (r\<lparr>inodes := x20\<rparr>)" "(enter lk P r)\<lparr>shared_pages := x21\<rparr> = enter lk P (r\<lparr>shared_pages := x21\<rparr>)"
  "(enter lk P r)\<lparr>shared_npages := x22\<rparr> = enter lk P (r\<lparr>shared_npages := x22\<rparr>)" "(enter lk P r)\<lparr>shared_refcount := x23\<rparr> = enter lk P (r\<lparr>shared_refcount := x23\<rparr>)"
  "(enter lk P r)\<lparr>shared_initialized := x24\<rparr> = enter lk P (r\<lparr>shared_initialized := x24\<rparr>)" "(enter lk P r)\<lparr>svalue := x25\<rparr> = enter lk P (r\<lparr>svalue := x25\<rparr>)"
  "(enter lk P r)\<lparr>cons := x26\<rparr> = enter lk P (r\<lparr>cons := x26\<rparr>)" "(enter lk P r)\<lparr>kbd_shift := x27\<rparr> = enter lk P (r\<lparr>kbd_shift := x27\<rparr>)" "(enter lk P r)\<lparr>devs := xdev\<rparr> = enter lk P (r\<lparr>devs := xdev\<rparr>)"
  by (simp_all add: enter_def)

lemma crit_locked: "locked (locks (crit lk s) l) = (if l = lk then 0 else locked (locks s l))"
  by (simp add: crit_def dbg_def)

lemma dbg_locked: "locked (locks (dbg lk s) l) = (if l = lk then 0 else locked (locks s l))"
  by (simp add: dbg_def)

lemma enter_locked: "locked (locks (enter lk P s) l) = (if l = lk then 1 else locked (locks s l))"
  by (simp add: enter_def)

lemmas lock_words = crit_locked dbg_locked enter_locked

lemma crit_cli_ok [simp]: "cli_ok (crit lk s) = cli_ok s"
  by (auto simp: cli_ok_def)

lemma dbg_cli_ok [simp]: "cli_ok (dbg lk s) = cli_ok s"
  by (auto simp: cli_ok_def)

lemma enter_cli_ok: "cli_ok r \<Longrightarrow> cli_ok (enter lk P r)"
  by (simp add: cli_ok_def)

lemma crit_ok_crit [intro]: "cli_ok s \<Longrightarrow> P = callers s \<Longrightarrow> crit_ok lk P (crit lk s)"
  by (auto simp: crit_ok_def cli_ok_def crit_def dbg_def)

lemma crit_ok_upd [simp]:
  "crit_ok lk P (r\<lparr>mem := x0\<rparr>) = crit_ok lk P r" "crit_ok lk P (r\<lparr>links := x1\<rparr>) = crit_ok lk P r"
  "crit_ok lk P (r\<lparr>cr3 := x2\<rparr>) = crit_ok lk P r" "crit_ok lk P (r\<lparr>lkarg := x3\<rparr>) = crit_ok lk P r"
  "crit_ok lk P (r\<lparr>syms := x4\<rparr>) = crit_ok lk P r" "crit_ok lk P (r\<lparr>use_lock := x5\<rparr>) = crit_ok lk P r"
  "crit_ok lk P (r\<lparr>freelist := x6\<rparr>) = crit_ok lk P r" "crit_ok lk P (r\<lparr>kpgdir := x7\<rparr>) = crit_ok lk P r"
  "crit_ok lk P (r\<lparr>procs := x8\<rparr>) = crit_ok lk P r" "crit_ok lk P (r\<lparr>initproc := x9\<rparr>) = crit_ok lk P r"
  "crit_ok lk P (r\<lparr>nextpid := x10\<rparr>) = crit_ok lk P r" "crit_ok lk P (r\<lparr>ticks := x11\<rparr>) = crit_ok lk P r"
  "crit_ok lk P (r\<lparr>forkret_first := x12\<rparr>) = crit_ok lk P r" "crit_ok lk P (r\<lparr>pipes := x13\<rparr>) = crit_ok lk P r"
  "crit_ok lk P (r\<lparr>files := x14\<rparr>) = crit_ok lk P r" "crit_ok lk P (r\<lparr>bufs := x15\<rparr>) = crit_ok lk P r"
  "crit_ok lk P (r\<lparr>disk := x16\<rparr>) = crit_ok lk P r" "crit_ok lk P (r\<lparr>disksize := x17\<rparr>) = crit_ok lk P r"
  "crit_ok lk P (r\<lparr>klog := x18\<rparr>) = crit_ok lk P r" "crit_ok lk P (r\<lparr>sb := x19\<rparr>) = crit_ok lk P r"
  "crit_ok lk P (r\<lparr>inodes := x20\<rparr>) = crit_ok lk P r" "crit_ok lk P (r\<lparr>shared_pages := x21\<rparr>) = crit_ok lk P r"
  "crit_ok lk P (r\<lparr>shared_npages := x22\<rparr>) = crit_ok lk P r" "crit_ok lk P (r\<lparr>shared_refcount := x23\<rparr>) = crit_ok lk P r"
  "crit_ok lk P (r\<lparr>shared_initialized := x24\<rparr>) = crit_ok lk P r" "crit_ok lk P (r\<lparr>svalue := x25\<rparr>) = crit_ok lk P r"
  "crit_ok lk P (r\<lparr>cons := x26\<rparr>) = crit_ok lk P r" "crit_ok lk P (r\<lparr>kbd_shift := x27\<rparr>) = crit_ok lk P r" "crit_ok lk P (r\<lparr>devs := xdev\<rparr>) = crit_ok lk P r"
  by (simp_all add: crit_ok_def)

lemma cli_ok_upd [simp]:
  "cli_ok (s\<lparr>mem := x0\<rparr>) = cli_ok s" "cli_ok (s\<lparr>links := x1\<rparr>) = cli_ok s"
  "cli_ok (s\<lparr>cr3 := x2\<rparr>) = cli_ok s" "cli_ok (s\<lparr>lkarg := x3\<rparr>) = cli_ok s"
  "cli_ok (s\<lparr>syms := x4\<rparr>) = cli_ok s" "cli_ok (s\<lparr>use_lock := x5\<rparr>) = cli_ok s"
  "cli_ok (s\<lparr>freelist := x6\<rparr>) = cli_ok s" "cli_ok (s\<lparr>kpgdir := x7\<rparr>) = cli_ok s"
  "cli_ok (s\<lparr>procs := x8\<rparr>) = cli_ok s" "cli_ok (s\<lparr>initproc := x9\<rparr>) = cli_ok s"
  "cli_ok (s\<lparr>nextpid := x10\<rparr>) = cli_ok s" "cli_ok (s\<lparr>ticks := x11\<rparr>) = cli_ok s"
  "cli_ok (s\<lparr>forkret_first := x12\<rparr>) = cli_ok s" "cli_ok (s\<lparr>pipes := x13\<rparr>) = cli_ok s"
  "cli_ok (s\<lparr>files := x14\<rparr>) = cli_ok s" "cli_ok (s\<lparr>bufs := x15\<rparr>) = cli_ok s"
  "cli_ok (s\<lparr>disk := x16\<rparr>) = cli_ok s" "cli_ok (s\<lparr>disksize := x17\<rparr>) = cli_ok s"
  "cli_ok (s\<lparr>klog := x18\<rparr>) = cli_ok s" "cli_ok (s\<lparr>sb := x19\<rparr>) = cli_ok s"
  "cli_ok (s\<lparr>inodes := x20\<rparr>) = cli_ok s" "cli_ok (s\<lparr>shared_pages := x21\<rparr>) = cli_ok s"
  "cli_ok (s\<lparr>shared_npages := x22\<rparr>) = cli_ok s" "cli_ok (s\<lparr>shared_refcount := x23\<rparr>) = cli_ok s"
  "cli_ok (s\<lparr>shared_initialized := x24\<rparr>) = cli_ok s" "cli_ok (s\<lparr>svalue := x25\<rparr>) = cli_ok s"
  "cli_ok (s\<lparr>cons := x26\<rparr>) = cli_ok s" "cli_ok (s\<lparr>kbd_shift := x27\<rparr>) = cli_ok s" "cli_ok (s\<lparr>devs := xdev\<rparr>) = cli_ok s"
  by (simp_all add: cli_ok_def)

lemma crit_ok_dbg: "lk \<noteq> lk2 \<Longrightarrow> crit_ok lk P (dbg lk2 r) = crit_ok lk P r"
  by (simp add: crit_ok_def dbg_def)

text \<open>
  The critical-section rules: acquire enters, release leaves, and a section of another lock inside
  changes the debugging fields of that lock only.
\<close>

lemma acquire_enter: "locked (locks s lk) = 0 \<Longrightarrow> acquire lk s = Done (enter lk (callers s) (crit lk s))"
  by (auto simp: acquire_free enter_def crit_def dbg_def upd_lock_def upd_cpu_def pushcli_def Let_def
      intro!: kernel.equality cpu.equality arg_cong [where f = "fun_upd _ _"])

lemma release_enter: "crit_ok lk P r \<Longrightarrow> release lk (enter lk P r) = Done r"
  by (auto simp: release_def popcli_def upd_lock_def upd_cpu_def Let_def enter_def holding_def kassert_def
      crit_ok_def fun_eq_iff intro!: kernel.equality spinlock.equality cpu.equality)

lemma crit_enter:
  assumes "lk2 \<noteq> lk" and "ncli (cpus r (me r)) \<ge> 0"
  shows "crit lk2 (enter lk P r) = enter lk P (dbg lk2 r)"
  using assms by (auto simp: crit_def enter_def dbg_def fun_upd_twist intro!: kernel.equality)

section \<open>Several CPUs\<close>

text \<open>
  The shared accesses of acquire and release, one by one, on the CPU \<open>me\<close>: the atomic exchange,
  the record of the owner, the clearing of the owner, and the exchange that frees the lock.
\<close>

definition acq_xchg :: "lockid \<Rightarrow> kernel \<Rightarrow> u32 \<times> kernel" where
  "acq_xchg lk s = (locked (locks s lk), upd_lock lk (\<lambda>l. l\<lparr>locked := 1\<rparr>) s)"

definition acq_record :: "lockid \<Rightarrow> kernel \<Rightarrow> kernel" where
  "acq_record lk s = upd_lock lk (\<lambda>l. l\<lparr>lk_cpu := Some (me s), pcs := getcallerpcs (mem s) (lkarg s)\<rparr>) s"

definition rel_clear :: "lockid \<Rightarrow> kernel \<Rightarrow> kernel" where
  "rel_clear lk = upd_lock lk (\<lambda>l. l\<lparr>pcs := (pcs l)[0 := 0], lk_cpu := None\<rparr>)"

definition rel_xchg :: "lockid \<Rightarrow> kernel \<Rightarrow> kernel" where
  "rel_xchg lk = upd_lock lk (\<lambda>l. l\<lparr>locked := 0\<rparr>)"

lemma acquire_micro:
  "acquire lk s = (if holding lk s then Panic ''acquire'' else
     let (old, t) = acq_xchg lk (pushcli s) in if old \<noteq> 0 then Spin else Done (acq_record lk t))"
  by (simp add: acquire_def acq_xchg_def acq_record_def Let_def upd_lock_def pushcli_def upd_cpu_def holding_def)

lemma release_micro:
  "release lk s = kassert (holding lk s) ''release'' (popcli (rel_xchg lk (rel_clear lk s)))"
  by (simp add: release_def rel_xchg_def rel_clear_def upd_lock_def)

text \<open>Where a CPU stands in its use of one lock.\<close>

datatype lpc = Out | Trying | Owning | Critical | Leaving

inductive lstep :: "lockid \<Rightarrow> kernel \<times> (nat \<Rightarrow> lpc) \<Rightarrow> kernel \<times> (nat \<Rightarrow> lpc) \<Rightarrow> bool" for lk where
  enter: "pc c = Out \<Longrightarrow> t = pushcli (s\<lparr>me := c\<rparr>) \<Longrightarrow> \<not> holding lk t \<Longrightarrow> lstep lk (s, pc) (t, pc(c := Trying))"
| spin: "pc c = Trying \<Longrightarrow> acq_xchg lk (s\<lparr>me := c\<rparr>) = (old, t) \<Longrightarrow> old \<noteq> 0 \<Longrightarrow> lstep lk (s, pc) (t, pc)"
| take: "pc c = Trying \<Longrightarrow> acq_xchg lk (s\<lparr>me := c\<rparr>) = (0, t) \<Longrightarrow> lstep lk (s, pc) (t, pc(c := Owning))"
| own: "pc c = Owning \<Longrightarrow> t = acq_record lk (s\<lparr>me := c\<rparr>) \<Longrightarrow> lstep lk (s, pc) (t, pc(c := Critical))"
| work: "pc c = Critical \<Longrightarrow> locks t lk = locks s lk \<Longrightarrow> lstep lk (s, pc) (t, pc)"
| clear: "pc c = Critical \<Longrightarrow> holding lk (s\<lparr>me := c\<rparr>) \<Longrightarrow> t = rel_clear lk (s\<lparr>me := c\<rparr>) \<Longrightarrow>
    lstep lk (s, pc) (t, pc(c := Leaving))"
| leave: "pc c = Leaving \<Longrightarrow> popcli (rel_xchg lk (s\<lparr>me := c\<rparr>)) = Done t \<Longrightarrow> lstep lk (s, pc) (t, pc(c := Out))"

definition linit :: "lockid \<Rightarrow> kernel \<times> (nat \<Rightarrow> lpc) \<Rightarrow> bool" where
  "linit lk = (\<lambda>(s, pc). locked (locks s lk) = 0 \<and> lk_cpu (locks s lk) = None \<and> (\<forall>c. pc c = Out))"

definition inside :: "lpc \<Rightarrow> bool" where
  "inside p \<longleftrightarrow> p = Owning \<or> p = Critical \<or> p = Leaving"

definition lock_inv :: "lockid \<Rightarrow> kernel \<times> (nat \<Rightarrow> lpc) \<Rightarrow> bool" where
  "lock_inv lk = (\<lambda>(s, pc). (\<forall>a b. inside (pc a) \<longrightarrow> inside (pc b) \<longrightarrow> a = b)
     \<and> (locked (locks s lk) \<noteq> 0 \<longleftrightarrow> (\<exists>a. inside (pc a))) \<and> (\<forall>a. lk_cpu (locks s lk) = Some a \<longleftrightarrow> pc a = Critical))"

lemma inside_simps [simp]:
  "\<not> inside Out" "\<not> inside Trying" "inside Owning" "inside Critical" "inside Leaving"
  by (simp_all add: inside_def)

lemma popcli_locks: "popcli s = Done t \<Longrightarrow> locks t = locks s"
  by (auto simp: popcli_def upd_cpu_def Let_def)

text \<open>The invariant in a state with an owner, and in a state without.\<close>

lemma lock_inv_owned:
  assumes "inside (pc c)"
  shows "lock_inv lk (s, pc) \<longleftrightarrow> (\<forall>a. a \<noteq> c \<longrightarrow> \<not> inside (pc a)) \<and> locked (locks s lk) \<noteq> 0
    \<and> lk_cpu (locks s lk) = (if pc c = Critical then Some c else None)"
proof -
  have cr: "pc a = Critical \<Longrightarrow> inside (pc a)" for a by simp
  have one: "(\<forall>a b. inside (pc a) \<longrightarrow> inside (pc b) \<longrightarrow> a = b) \<longleftrightarrow> (\<forall>a. a \<noteq> c \<longrightarrow> \<not> inside (pc a))"
    using assms by metis
  have "(\<forall>a. (lk_cpu (locks s lk) = Some a) = (pc a = Critical))
      \<longleftrightarrow> lk_cpu (locks s lk) = (if pc c = Critical then Some c else None)"
    if only: "\<forall>a. a \<noteq> c \<longrightarrow> \<not> inside (pc a)"
    using cr only by (cases "lk_cpu (locks s lk)") (metis option.distinct(1), metis option.inject option.distinct(1))
  then show ?thesis using assms one unfolding lock_inv_def split by blast
qed

lemma lock_inv_free:
  assumes "\<forall>a. \<not> inside (pc a)"
  shows "lock_inv lk (s, pc) \<longleftrightarrow> locked (locks s lk) = 0 \<and> lk_cpu (locks s lk) = None"
proof -
  have "pc a \<noteq> Critical" for a using assms inside_simps(4) by metis
  then show ?thesis using assms by (auto simp: lock_inv_def)
qed

lemma lock_inv_cases:
  assumes "lock_inv lk (s, pc)"
  obtains (free) "\<forall>a. \<not> inside (pc a)" "locked (locks s lk) = 0" "lk_cpu (locks s lk) = None"
  | (owned) c where "inside (pc c)" "\<forall>a. a \<noteq> c \<longrightarrow> \<not> inside (pc a)" "locked (locks s lk) \<noteq> 0"
      "lk_cpu (locks s lk) = (if pc c = Critical then Some c else None)"
proof (cases "\<exists>c. inside (pc c)")
  case True
  then obtain c where "inside (pc c)" ..
  then show ?thesis using owned assms lock_inv_owned [of pc c lk s] by simp
next
  case False
  then show ?thesis using free assms lock_inv_free [of pc lk s] by simp
qed

lemma lock_inv_upd_outside:
  assumes "\<not> inside (pc c)" and "\<not> inside p" and "locks t lk = locks s lk"
  shows "lock_inv lk (t, pc(c := p)) = lock_inv lk (s, pc)"
proof -
  have "inside ((pc(c := p)) a) = inside (pc a)" "((pc(c := p)) a = Critical) = (pc a = Critical)" for a
    using assms(1,2) by auto
  then show ?thesis using assms(3) unfolding lock_inv_def by (simp del: fun_upd_apply)
qed

lemma lock_inv_step:
  assumes "lstep lk x y" and "lock_inv lk x"
  shows "lock_inv lk y"
  using assms
proof (induction rule: lstep.induct)
  case (enter pc c t s)
  then show ?case using lock_inv_upd_outside [of pc c Trying t lk s] by simp
next
  case (spin pc c s old t)
  then show ?case by (auto simp: lock_inv_def acq_xchg_def upd_lock_def)
next
  case (take pc c s t)
  then have "\<forall>a. \<not> inside (pc a)" "lk_cpu (locks s lk) = None"
    by (auto simp: acq_xchg_def elim: lock_inv_cases)
  then show ?case
    using take lock_inv_owned [of "pc(c := Owning)" c lk t] by (auto simp: acq_xchg_def upd_lock_def)
next
  case (own pc c t s)
  then show ?case
    using lock_inv_owned [of pc c lk s] lock_inv_owned [of "pc(c := Critical)" c lk t]
    by (simp add: acq_record_def upd_lock_def)
next
  case (work pc c t s)
  then show ?case by (simp add: lock_inv_def)
next
  case (clear pc c s t)
  then show ?case
    using lock_inv_owned [of pc c lk s] lock_inv_owned [of "pc(c := Leaving)" c lk t]
    by (simp add: rel_clear_def upd_lock_def)
next
  case (leave pc c s t)
  then show ?case
    using lock_inv_owned [of pc c lk s] lock_inv_free [of "pc(c := Out)" lk t] popcli_locks [OF leave(2)]
    by (auto simp: rel_xchg_def upd_lock_def)
qed

lemma lock_inv_holding: "lock_inv lk (s, pc) \<Longrightarrow> holding lk (s\<lparr>me := c\<rparr>) \<longleftrightarrow> pc c = Critical"
  using inside_simps(4) by (auto simp: lock_inv_def holding_def) (metis inside_simps(4))

lemma lock_inv_reach: "(lstep lk)\<^sup>*\<^sup>* x y \<Longrightarrow> linit lk x \<Longrightarrow> lock_inv lk y"
proof (induction rule: rtranclp_induct)
  case base
  then show ?case by (auto simp: linit_def lock_inv_def)
next
  case (step y z)
  then show ?case using lock_inv_step by blast
qed

end
