(* ===== verification/Cstring.thy ===== *)
theory Cstring
  imports Memory
begin

text \<open>
  string.c on byte memory, with the two string instructions of x86.h it uses. A counter
  that only runs down to zero is a natural number; addresses wrap at 32 bits.
\<close>

section \<open>Operations\<close>

primrec stosb :: "u32 \<Rightarrow> u32 \<Rightarrow> nat \<Rightarrow> mem \<Rightarrow> mem" where
  "stosb addr data 0 m = m"
| "stosb addr data (Suc cnt) m = stosb (addr + 1) data cnt (m(addr := ucast data))"

primrec stosl :: "u32 \<Rightarrow> u32 \<Rightarrow> nat \<Rightarrow> mem \<Rightarrow> mem" where
  "stosl addr data 0 m = m"
| "stosl addr data (Suc cnt) m = stosl (addr + 4) data cnt (store32 m addr data)"

definition memset :: "u32 \<Rightarrow> u32 \<Rightarrow> u32 \<Rightarrow> mem \<Rightarrow> mem" where
  "memset dst c n m =
     (if dst mod 4 = 0 \<and> n mod 4 = 0 then
        let c = c AND 0xFF in
        stosl dst (push_bit 24 c OR push_bit 16 c OR push_bit 8 c OR c) (unat (n div 4)) m
      else stosb dst c (unat n) m)"

primrec memcmp_loop :: "u32 \<Rightarrow> u32 \<Rightarrow> nat \<Rightarrow> mem \<Rightarrow> int" where
  "memcmp_loop s1 s2 0 m = 0"
| "memcmp_loop s1 s2 (Suc n) m =
     (if m s1 \<noteq> m s2 then uint (m s1) - uint (m s2) else memcmp_loop (s1 + 1) (s2 + 1) n m)"

definition memcmp :: "u32 \<Rightarrow> u32 \<Rightarrow> u32 \<Rightarrow> mem \<Rightarrow> int" where
  "memcmp v1 v2 n m = memcmp_loop v1 v2 (unat n) m"

primrec move_up :: "u32 \<Rightarrow> u32 \<Rightarrow> nat \<Rightarrow> mem \<Rightarrow> mem" where
  "move_up d s 0 m = m"
| "move_up d s (Suc n) m = move_up (d + 1) (s + 1) n (m(d := m s))"

primrec move_down :: "u32 \<Rightarrow> u32 \<Rightarrow> nat \<Rightarrow> mem \<Rightarrow> mem" where
  "move_down d s 0 m = m"
| "move_down d s (Suc n) m = move_down (d - 1) (s - 1) n (m(d - 1 := m (s - 1)))"

definition memmove :: "u32 \<Rightarrow> u32 \<Rightarrow> u32 \<Rightarrow> mem \<Rightarrow> mem" where
  "memmove dst src n m =
     (if src < dst \<and> src + n > dst then move_down (dst + n) (src + n) (unat n) m
      else move_up dst src (unat n) m)"

definition memcpy :: "u32 \<Rightarrow> u32 \<Rightarrow> u32 \<Rightarrow> mem \<Rightarrow> mem" where
  "memcpy dst src n m = memmove dst src n m"

primrec strncmp_loop :: "u32 \<Rightarrow> u32 \<Rightarrow> nat \<Rightarrow> mem \<Rightarrow> int" where
  "strncmp_loop p q 0 m = 0"
| "strncmp_loop p q (Suc n) m =
     (if m p \<noteq> 0 \<and> m p = m q then strncmp_loop (p + 1) (q + 1) n m else uint (m p) - uint (m q))"

definition strncmp :: "u32 \<Rightarrow> u32 \<Rightarrow> u32 \<Rightarrow> mem \<Rightarrow> int" where
  "strncmp p q n m = strncmp_loop p q (unat n) m"

text \<open>The copying loop of the string copies: the final \<open>s\<close>, what is left of \<open>n\<close>, the memory.\<close>

primrec strcopy_loop :: "u32 \<Rightarrow> u32 \<Rightarrow> nat \<Rightarrow> mem \<Rightarrow> u32 \<times> nat \<times> mem" where
  "strcopy_loop s t 0 m = (s, 0, m)"
| "strcopy_loop s t (Suc n) m =
     (let c = m t; m = m(s := c) in
      if c \<noteq> 0 then strcopy_loop (s + 1) (t + 1) n m else (s + 1, n, m))"

definition strncpy :: "u32 \<Rightarrow> u32 \<Rightarrow> int \<Rightarrow> mem \<Rightarrow> mem" where
  "strncpy s t n m = (let (s, n, m) = strcopy_loop s t (nat n) m in stosb s 0 n m)"

definition safestrcpy :: "u32 \<Rightarrow> u32 \<Rightarrow> int \<Rightarrow> mem \<Rightarrow> mem" where
  "safestrcpy s t n m =
     (if n \<le> 0 then m else let (s, _, m) = strcopy_loop s t (nat (n - 1)) m in m(s := 0))"

partial_function (option) strlen_loop :: "u32 \<Rightarrow> int \<Rightarrow> mem \<Rightarrow> int option" where
  "strlen_loop s n m = (if m (s + of_int n) = 0 then Some n else strlen_loop s (n + 1) m)"

definition strlen :: "u32 \<Rightarrow> mem \<Rightarrow> int option" where
  "strlen s m = strlen_loop s 0 m"

section \<open>Filling and moving\<close>

lemma off_Suc: "p \<noteq> a \<Longrightarrow> off a p = Suc (off (a + 1) p)"
proof -
  assume "p \<noteq> a"
  then have "p - a \<noteq> 0" by simp
  then have "unat (p - a - 1) = unat (p - a) - 1" "unat (p - a) \<noteq> 0"
    by (simp_all add: unat_minus_one unat_eq_0)
  then show ?thesis by (simp add: off_def diff_diff_eq)
qed

lemma off_pred: "off (a + 1) a = 2 ^ 32 - 1"
  by (simp add: off_def unsigned_minus_1_eq_mask mask_eq_exp_minus_1)

lemma in_range_Suc:
  "n < 2 ^ 32 \<Longrightarrow> in_range a (Suc n) p \<longleftrightarrow> p = a \<or> in_range (a + 1) n p"
  using off_Suc [of p a] by (cases "p = a") (simp_all add: in_range_def)

lemma not_in_range_pred: "n < 2 ^ 32 \<Longrightarrow> \<not> in_range (a + 1) n a"
  by (simp add: in_range_def off_pred)

lemma stosb_fill: "n < 2 ^ 32 \<Longrightarrow> stosb a c n m p = (if in_range a n p then ucast c else m p)"
proof (induction n arbitrary: a m)
  case 0
  then show ?case by (simp add: in_range_def)
next
  case (Suc n)
  then show ?case by (simp add: in_range_Suc [of n] del: fun_upd_apply) simp
qed

lemma move_up_spec:
  assumes "unat s + n \<le> 2 ^ 32" and "unat d + n \<le> 2 ^ 32" and "unat d \<le> unat s \<or> unat s + n \<le> unat d"
  shows "move_up d s n m p = (if in_range d n p then m (s + (p - d)) else m p)"
  using assms
proof (induction n arbitrary: d s m)
  case 0
  then show ?case by (simp add: in_range_def)
next
  case (Suc n)
  have n: "n < 2 ^ 32" using Suc.prems by simp
  show ?case
  proof (cases "n = 0")
    case True
    then show ?thesis using in_range_Suc [of 0 d p] by (auto simp: in_range_def)
  next
    case False
    have u: "unat (s + 1) = unat s + 1" "unat (d + 1) = unat d + 1"
      using Suc.prems False by (simp_all add: unat_plus_if')
    have ih: "move_up (d + 1) (s + 1) n (m(d := m s)) p
        = (if in_range (d + 1) n p then (m(d := m s)) (s + 1 + (p - (d + 1))) else (m(d := m s)) p)"
      using Suc.prems u by (intro Suc.IH) auto
    have "s + (p - d) \<noteq> d" if r: "in_range (d + 1) n p"
    proof
      assume eq: "s + (p - d) = d"
      have "p \<noteq> d" using r not_in_range_pred [OF n] by blast
      then have o: "off d p = Suc (off (d + 1) p)" by (rule off_Suc)
      then have k: "off d p \<le> n" "1 \<le> off d p" using r by (simp_all add: in_range_def)
      have "unat (s + (p - d)) = unat s + off d p"
        using k Suc.prems(1) unfolding off_def by (simp add: unat_plus_if')
      then show False using eq k Suc.prems(3) by simp
    qed
    then show ?thesis
      using ih in_range_Suc [OF n, of d p] not_in_range_pred [OF n, of d] by auto
  qed
qed

lemma in_range_Suc_last: "n < 2 ^ 32 \<Longrightarrow> in_range a (Suc n) p \<longleftrightarrow> p = a + of_nat n \<or> in_range a n p"
proof -
  assume n: "n < 2 ^ 32"
  have "off a p = n \<longleftrightarrow> p = a + of_nat n"
    using off_add [OF n, of a] by (metis add_off)
  then show ?thesis by (auto simp: in_range_def less_Suc_eq)
qed

lemma move_down_spec:
  assumes "unat d + n \<le> 2 ^ 32" and "unat s < unat d"
  shows "move_down (d + of_nat n) (s + of_nat n) n m p = (if in_range d n p then m (s + (p - d)) else m p)"
  using assms(1)
proof (induction n arbitrary: m)
  case 0
  then show ?case by (simp add: in_range_def)
next
  case (Suc n)
  have n: "n < 2 ^ 32" using Suc.prems by simp
  let ?m = "m(d + of_nat n := m (s + of_nat n))"
  have step: "move_down (d + of_nat (Suc n)) (s + of_nat (Suc n)) (Suc n) m
      = move_down (d + of_nat n) (s + of_nat n) n ?m"
    by simp
  have ih: "move_down (d + of_nat n) (s + of_nat n) n ?m p = (if in_range d n p then ?m (s + (p - d)) else ?m p)"
    using Suc.prems by (intro Suc.IH) simp
  have "s + (p - d) \<noteq> d + of_nat n" if r: "in_range d n p"
  proof
    assume eq: "s + (p - d) = d + of_nat n"
    have "unat (s + (p - d)) = unat s + off d p"
      using r Suc.prems assms(2) unfolding off_def in_range_def by (simp add: unat_plus_if')
    moreover have "unat (d + of_nat n) = unat d + n"
      using Suc.prems n by (simp add: unat_plus_if' unat_of_nat)
    ultimately show False using eq r assms(2) by (simp add: in_range_def)
  qed
  moreover have "\<not> in_range d n (d + of_nat n)" using off_add [OF n, of d] by (simp add: in_range_def)
  ultimately show ?case
    unfolding step ih in_range_Suc_last [OF n] by auto
qed

lemma memmove_spec:
  assumes "unat src + unat n < 2 ^ 32" and "unat dst + unat n \<le> 2 ^ 32"
  shows "memmove dst src n m p = (if in_range dst (unat n) p then m (src + (p - dst)) else m p)"
proof (cases "src < dst \<and> src + n > dst")
  case True
  then show ?thesis
    using move_down_spec [of dst "unat n" src m p] assms by (simp add: memmove_def word_less_nat_alt)
next
  case False
  have "unat dst \<le> unat src \<or> unat src + unat n \<le> unat dst"
  proof (rule disjCI)
    assume lt: "\<not> unat src + unat n \<le> unat dst"
    have "unat (src + n) = unat src + unat n"
      using assms(1) by (simp add: unat_add_u32)
    then show "unat dst \<le> unat src"
      using False lt by (auto simp: word_less_nat_alt)
  qed
  then show ?thesis
    using move_up_spec [of src "unat n" dst m p] assms False by (auto simp: memmove_def)
qed

lemma in_range_add:
  assumes "k + n \<le> 2 ^ 32"
  shows "in_range a (k + n) p \<longleftrightarrow> in_range a k p \<or> in_range (a + of_nat k) n p"
proof (cases "off a p < k")
  case True
  then show ?thesis by (simp add: in_range_def)
next
  case False
  have "off (a + of_nat k) p = off a p - k"
  proof -
    have "p = a + of_nat k + of_nat (off a p - k)"
      using False by (simp add: add.assoc flip: of_nat_add)
    moreover have "off a p - k < 2 ^ 32" using unat_u32 [of "p - a"] unfolding off_def by simp
    ultimately show ?thesis using off_add by metis
  qed
  then show ?thesis using False by (auto simp: in_range_def)
qed

lemma store32_fill:
  assumes "ucast w = b" and "ucast (drop_bit 8 w) = b" and "ucast (drop_bit 16 w) = b" and "ucast (drop_bit 24 w) = b"
  shows "store32 m a w p = (if in_range a 4 p then b else m p)"
proof (cases "in_range a 4 p")
  case True
  then obtain i where "i < 4" "p = a + of_nat i" using in_range_iff [of 4 a p] by auto
  then have "p = a \<or> p = a + 1 \<or> p = a + 2 \<or> p = a + 3"
    by (auto simp: less_Suc_eq numeral_eq_Suc)
  then show ?thesis using True assms by (auto simp: store32_def)
qed (simp add: store32_other)

lemma stosl_fill:
  assumes "ucast w = b" and "ucast (drop_bit 8 w) = b" and "ucast (drop_bit 16 w) = b" and "ucast (drop_bit 24 w) = b"
    and "4 * n \<le> 2 ^ 32"
  shows "stosl a w n m p = (if in_range a (4 * n) p then b else m p)"
  using assms(5)
proof (induction n arbitrary: a m)
  case 0
  then show ?case by (simp add: in_range_def)
next
  case (Suc n)
  have "in_range a (4 * Suc n) p \<longleftrightarrow> in_range a 4 p \<or> in_range (a + 4) (4 * n) p"
    using in_range_add [of 4 "4 * n" a p] Suc.prems by simp
  then show ?case
    using Suc.IH [of "a + 4" "store32 m a w"] Suc.prems store32_fill [OF assms(1-4), of m a p] by auto
qed

lemma memset_spec: "memset dst c n m p = (if in_range dst (unat n) p then ucast c else m p)"
proof (cases "dst mod 4 = 0 \<and> n mod 4 = 0")
  case True
  define w where "w = push_bit 24 (c AND 0xFF) OR push_bit 16 (c AND 0xFF) OR push_bit 8 (c AND 0xFF) OR (c AND 0xFF)"
  have w: "(ucast w :: u8) = ucast c" "(ucast (drop_bit 8 w) :: u8) = ucast c"
    "(ucast (drop_bit 16 w) :: u8) = ucast c" "(ucast (drop_bit 24 w) :: u8) = ucast c"
    unfolding w_def by (rule bit_word_eqI; auto simp: bit_simps bit_numeral_rec split: nat.splits)+
  have n: "4 * unat (n div 4) = unat n"
  proof -
    have "unat n mod 4 = 0" using True by (simp add: unat_mod word_unat_eq_iff)
    then show ?thesis by (simp add: unat_div mod_0_imp_dvd)
  qed
  have "memset dst c n m = stosl dst w (unat (n div 4)) m"
    unfolding memset_def Let_def w_def using True by (simp only: simp_thms if_True)
  then show ?thesis
    using stosl_fill [OF w, of "unat (n div 4)" dst m p] n unat_u32 [of n] by simp
next
  case False
  then show ?thesis using stosb_fill [of "unat n" dst c m p] by (auto simp: memset_def unat_u32)
qed

section \<open>String copies\<close>

definition disjoint_ranges :: "u32 \<Rightarrow> u32 \<Rightarrow> nat \<Rightarrow> bool" where
  "disjoint_ranges s t n \<longleftrightarrow> (\<forall>p. \<not> (in_range s n p \<and> in_range t n p))"

lemma bytes_cong: "n \<le> 2 ^ 32 \<Longrightarrow> (\<And>p. in_range a n p \<Longrightarrow> m' p = m p) \<Longrightarrow> bytes m' a n = bytes m a n"
  by (rule nth_equalityI) (auto simp: bytes_nth in_range_iff)

lemma strcopy_loop_spec:
  assumes "strcopy_loop s t n m = (s', r, m')" and "n < 2 ^ 32" and "disjoint_ranges s t n"
    and "w = takeWhile (\<lambda>c. c \<noteq> 0) (bytes m t n)"
  shows "bytes m' s (length w) = w \<and> (\<forall>p. \<not> in_range s n p \<longrightarrow> m' p = m p)
    \<and> (if length w = n then s' = s + of_nat n \<and> r = 0
       else m' (s + of_nat (length w)) = 0 \<and> s' = s + of_nat (length w) + 1 \<and> r = n - length w - 1)"
  using assms
proof (induction n arbitrary: s t m w)
  case 0
  then show ?case by simp
next
  case (Suc n)
  have n: "n < 2 ^ 32" using Suc.prems by simp
  have ds: "disjoint_ranges (s + 1) (t + 1) n" "s \<noteq> t" "\<not> in_range (t + 1) n s"
    using Suc.prems(3) in_range_Suc [OF n] by (auto simp: disjoint_ranges_def)
  have self: "in_range s (Suc n) s" by (simp add: in_range_def)
  show ?case
  proof (cases "m t = 0")
    case True
    then show ?thesis using Suc.prems self by (auto simp: bytes_Suc)
  next
    case False
    let ?m = "m(s := m t)"
    define v where "v = takeWhile (\<lambda>c. c \<noteq> 0) (bytes m (t + 1) n)"
    have "bytes ?m (t + 1) n = bytes m (t + 1) n"
      using ds(3) n by (intro bytes_cong) auto
    then have v: "v = takeWhile (\<lambda>c. c \<noteq> 0) (bytes ?m (t + 1) n)" by (simp add: v_def)
    have w: "w = m t # v" using Suc.prems(4) False by (simp add: bytes_Suc v_def)
    have run: "strcopy_loop (s + 1) (t + 1) n ?m = (s', r, m')" using Suc.prems(1) False by (simp add: Let_def)
    note ih = Suc.IH [OF run n ds(1) v]
    have "m' s = m t" using ih not_in_range_pred [OF n, of s] by simp
    moreover have "\<forall>p. \<not> in_range s (Suc n) p \<longrightarrow> m' p = m p"
      using ih in_range_Suc [OF n, of s] by auto
    ultimately show ?thesis
      using ih by (auto simp: w bytes_Suc algebra_simps)
  qed
qed

lemma safestrcpy_spec:
  assumes "0 < n" and "n < 2 ^ 31" and "disjoint_ranges s t (nat n)"
    and "w = takeWhile (\<lambda>c. c \<noteq> 0) (bytes m t (nat n - 1))"
  shows "bytes (safestrcpy s t n m) s (length w + 1) = w @ [0]"
    and "\<not> in_range s (nat n) p \<Longrightarrow> safestrcpy s t n m p = m p"
proof -
  obtain k where k: "nat n = Suc k" "nat (n - 1) = k" "nat n - 1 = k"
    using assms(1) by (cases "nat n") auto
  have kb: "k < 2 ^ 32" "Suc k < 2 ^ 32" using assms(2) k by auto
  obtain s' r m' where run: "strcopy_loop s t k m = (s', r, m')" by (metis prod_cases3)
  have ds: "disjoint_ranges s t k"
    using assms(3) k(1) unfolding disjoint_ranges_def in_range_def by (metis less_SucI)
  note sp = strcopy_loop_spec [OF run kb(1) ds assms(4) [unfolded k(3)]]
  have res: "safestrcpy s t n m = m'(s' := 0)"
    using assms(1) run k(2) by (simp add: safestrcpy_def)
  have len: "length w \<le> k" using assms(4) k(3) length_takeWhile_le [of "\<lambda>c. c \<noteq> 0" "bytes m t k"] by simp
  define j where "j = (if length w = k then k else length w + 1)"
  have j: "length w \<le> j" "j \<le> k" and s': "s' = s + of_nat j"
    using sp len by (auto simp: j_def algebra_simps)
  have ne: "s + of_nat i \<noteq> s'" if "i < length w" for i
    using that j kb off_add [of i s] off_add [of j s] unfolding s' by auto
  have "bytes (m'(s' := 0)) s (length w) = bytes m' s (length w)"
    using ne len kb by (intro bytes_cong) (auto simp: in_range_iff)
  moreover have "(m'(s' := 0)) (s + of_nat (length w)) = 0" using sp s' by (auto simp: j_def)
  ultimately show "bytes (safestrcpy s t n m) s (length w + 1) = w @ [0]"
    using sp unfolding res by (simp add: bytes_Suc_last del: fun_upd_apply)
  assume np: "\<not> in_range s (nat n) p"
  have "p \<noteq> s'" using np j kb k(1) off_add [of j s] unfolding s' in_range_def by auto
  moreover have "\<not> in_range s k p" using np k(1) by (simp add: in_range_def)
  ultimately show "safestrcpy s t n m p = m p" using sp unfolding res by simp
qed

lemma memcmp_loop_0: "memcmp_loop a b n m = 0 \<longleftrightarrow> bytes m a n = bytes m b n"
  by (induction n arbitrary: a b) (auto simp: bytes_Suc word_uint_eq_iff)

lemma memcmp_0: "memcmp a b n m = 0 \<longleftrightarrow> bytes m a (unat n) = bytes m b (unat n)"
  by (simp add: memcmp_def memcmp_loop_0)

end
