(* ===== verification/Kalloc.thy ===== *)
theory Kalloc
  imports Spinlock Cstring Fifo
begin

text \<open>
  kalloc.c: the page allocator. The free list is threaded through the first word of each free page
  (\<open>struct run\<close>), so it lives in byte memory.
\<close>

section \<open>Operations\<close>

definition kfree :: "u32 \<Rightarrow> kernel \<Rightarrow> kernel kresult" where
  "kfree v s =
     kassert (\<not> (v mod PGSIZE \<noteq> 0 \<or> v < kend (syms s) \<or> v2p v \<ge> PHYSTOP)) ''kfree''
      (let s = s\<lparr>mem := memset v 1 PGSIZE (mem s)\<rparr> in
       kbind (if use_lock s then acquire Lkmem s else Done s) (\<lambda>s.
       let s = s\<lparr>mem := store32 (mem s) v (freelist s), freelist := v\<rparr> in
       if use_lock s then release Lkmem s else Done s))"

definition kalloc :: "u32 K" where
  "kalloc s =
     kbind (if use_lock s then acquire Lkmem s else Done s) (\<lambda>s.
     let r = freelist s;
         s = (if r \<noteq> 0 then s\<lparr>freelist := load32 (mem s) r\<rparr> else s)
     in kbind (if use_lock s then release Lkmem s else Done s) (\<lambda>s. Done (r, s)))"

lemma kbind_cong [fundef_cong]:
  "m = m' \<Longrightarrow> (\<And>x. m' = Done x \<Longrightarrow> f x = g x) \<Longrightarrow> kbind m f = kbind m' g"
  by (cases m') auto

lemma kfree_bound: "kfree p s = Done s' \<Longrightarrow> unat p + 4096 < 2 ^ 32"
proof -
  assume "kfree p s = Done s'"
  then have "p - 0x80000000 < 0xE000000"
    by (auto simp: kfree_def layout_defs)
  then show ?thesis by unat_arith
qed

function freerange_loop :: "u32 \<Rightarrow> u32 \<Rightarrow> kernel \<Rightarrow> kernel kresult" where
  "freerange_loop p vend s =
     (if p + PGSIZE \<le> vend then kbind (kfree p s) (\<lambda>s. freerange_loop (p + PGSIZE) vend s) else Done s)"
  by pat_completeness auto
termination
proof (relation "measure (\<lambda>(p, vend, s). unat vend - unat p)")
  fix p vend :: u32 and s s' :: kernel
  assume le: "p + PGSIZE \<le> vend" and k: "kfree p s = Done s'"
  have "unat (p + 4096) = unat p + 4096"
    using kfree_bound [OF k] by (simp add: unat_plus_if')
  then show "((p + PGSIZE, vend, s'), p, vend, s) \<in> measure (\<lambda>(p, vend, s). unat vend - unat p)"
    using le by (simp add: PGSIZE_def word_le_nat_alt)
qed simp

declare freerange_loop.simps [simp del]

definition freerange :: "u32 \<Rightarrow> u32 \<Rightarrow> kernel \<Rightarrow> kernel kresult" where
  "freerange vstart vend s = freerange_loop (PGROUNDUP vstart) vend s"

definition kinit1 :: "u32 \<Rightarrow> u32 \<Rightarrow> kernel \<Rightarrow> kernel kresult" where
  "kinit1 vstart vend s = freerange vstart vend ((initlock Lkmem ''kmem'' s)\<lparr>use_lock := False\<rparr>)"

definition kinit2 :: "u32 \<Rightarrow> u32 \<Rightarrow> kernel \<Rightarrow> kernel kresult" where
  "kinit2 vstart vend s = kbind (freerange vstart vend s) (\<lambda>s. Done (s\<lparr>use_lock := True\<rparr>))"

section \<open>The free list\<close>

fun flist :: "mem \<Rightarrow> u32 \<Rightarrow> u32 list \<Rightarrow> bool" where
  "flist m f [] \<longleftrightarrow> f = 0"
| "flist m f (p # ps) \<longleftrightarrow> f = p \<and> p \<noteq> 0 \<and> flist m (load32 m p) ps"

definition page_ok :: "linkage \<Rightarrow> u32 \<Rightarrow> bool" where
  "page_ok L p \<longleftrightarrow> p mod PGSIZE = 0 \<and> kend L \<le> p \<and> v2p p < PHYSTOP"

text \<open>\<open>kmem_inv s ps\<close>: the free list holds exactly the pages \<open>ps\<close>, each once, all of them allocatable.\<close>

definition kmem_inv :: "kernel \<Rightarrow> u32 list \<Rightarrow> bool" where
  "kmem_inv s ps \<longleftrightarrow> flist (mem s) (freelist s) ps \<and> distinct ps \<and> (\<forall>p\<in>set ps. page_ok (syms s) p)
     \<and> cli_ok s \<and> (use_lock s \<longrightarrow> locked (locks s Lkmem) = 0)"

definition klocked :: "kernel \<Rightarrow> kernel" where
  "klocked s = (if use_lock s then crit Lkmem s else s)"

lemma klocked_simps [simp]:
  "mem (klocked s) = mem s" "freelist (klocked s) = freelist s" "syms (klocked s) = syms s" "me (klocked s) = me s"
  "use_lock (klocked s) = use_lock s" "procs (klocked s) = procs s" "if_flag (klocked s) = if_flag s"
  "cproc (cpus (klocked s) c) = cproc (cpus s c)" "ncli (cpus (klocked s) c) = ncli (cpus s c)"
  by (simp_all add: klocked_def)

lemma page_ok_nonzero: "page_ok L p \<Longrightarrow> p \<noteq> 0"
  by (auto simp: page_ok_def layout_defs)

lemma page_ok_unat: "page_ok L p \<Longrightarrow> 4096 dvd unat p \<and> unat p + 4096 < 2 ^ 32"
proof -
  assume "page_ok L p"
  then have "p mod 4096 = 0" "p - 0x80000000 < 0xE000000" by (simp_all add: page_ok_def mmu_defs layout_defs)
  then have "unat p mod 4096 = 0" "unat p + 4096 < 2 ^ 32"
    by (simp add: unat_mod word_unat_eq_iff, unat_arith)
  then show ?thesis by (simp add: mod_eq_0_iff_dvd)
qed

lemma kfree_eq:
  assumes "page_ok (syms s) v" and "cli_ok s" and "use_lock s \<longrightarrow> locked (locks s Lkmem) = 0"
  shows "kfree v s = Done (klocked (s\<lparr>mem := memset v 1 PGSIZE (mem s)\<rparr>)
    \<lparr>mem := store32 (memset v 1 PGSIZE (mem s)) v (freelist s), freelist := v\<rparr>)"
proof -
  let ?s = "s\<lparr>mem := memset v 1 PGSIZE (mem s)\<rparr>"
  have ok: "\<not> (v mod PGSIZE \<noteq> 0 \<or> v < kend (syms s) \<or> v2p v \<ge> PHYSTOP)"
    using assms(1) by (auto simp: page_ok_def)
  have "cli_ok ?s" using assms(2) by (simp add: cli_ok_def)
  then have "crit_ok Lkmem (callers ?s) ((crit Lkmem ?s)\<lparr>mem := m, freelist := v\<rparr>)" for m
    using crit_ok_crit [of ?s "callers ?s" Lkmem] by (simp add: crit_ok_def)
  then show ?thesis
    using ok assms(3) by (simp add: kfree_def klocked_def Let_def acquire_enter release_enter)
qed

lemma kalloc_eq:
  assumes "cli_ok s" and "use_lock s \<longrightarrow> locked (locks s Lkmem) = 0"
  shows "kalloc s = Done (freelist s, (klocked s)
    \<lparr>freelist := (if freelist s \<noteq> 0 then load32 (mem s) (freelist s) else 0)\<rparr>)"
proof -
  have "crit_ok Lkmem (callers s) ((crit Lkmem s)\<lparr>freelist := f\<rparr>)" "crit_ok Lkmem (callers s) (crit Lkmem s)" for f
    using crit_ok_crit [OF assms(1), of "callers s" Lkmem] by (simp_all add: crit_ok_def)
  then show ?thesis
    using assms(2) by (cases "freelist s = 0")
      (simp_all add: kalloc_def klocked_def Let_def acquire_enter release_enter)
qed

lemma page_range_neq:
  assumes "page_ok L p" and "page_ok L q" and "p \<noteq> q" and "in_range p 4096 x"
  shows "\<not> in_range q 4096 x"
  using aligned_disjoint [of 4096 p q x] page_ok_unat [OF assms(1)] page_ok_unat [OF assms(2)] assms(3,4) by auto

lemma in_range_mono: "in_range a k x \<Longrightarrow> k \<le> n \<Longrightarrow> in_range a n x"
  by (simp add: in_range_def)

lemma flist_frame:
  "(\<And>p x. p \<in> set ps \<Longrightarrow> in_range p 4 x \<Longrightarrow> m' x = m x) \<Longrightarrow> flist m' f ps = flist m f ps"
proof (induction ps arbitrary: f)
  case (Cons p ps)
  have "load32 m' p = load32 m p" by (rule load32_cong) (rule Cons.prems [of p], simp)
  moreover have "flist m' g ps = flist m g ps" for g
    by (rule Cons.IH) (rule Cons.prems, simp_all)
  ultimately show ?case by simp
qed simp

text \<open>The bytes of memory a kfree of \<open>v\<close> leaves alone.\<close>

lemma kfree_mem: "\<not> in_range v 4096 x \<Longrightarrow> store32 (memset v c PGSIZE m) v f x = m x"
proof -
  assume n: "\<not> in_range v 4096 x"
  then have "\<not> in_range v 4 x" using in_range_mono [of v 4 x 4096] by auto
  then show ?thesis using n by (simp add: store32_other memset_spec PGSIZE_def)
qed

lemma kfree_inv:
  assumes "kmem_inv s ps" and "page_ok (syms s) v" and "v \<notin> set ps"
  obtains s' where "kfree v s = Done s'" and "kmem_inv s' (v # ps)" and "syms s' = syms s"
    and "use_lock s' = use_lock s" and "\<And>x. \<not> in_range v 4096 x \<Longrightarrow> mem s' x = mem s x"
proof -
  let ?m = "store32 (memset v 1 PGSIZE (mem s)) v (freelist s)"
  let ?s = "s\<lparr>mem := memset v 1 PGSIZE (mem s)\<rparr>"
  let ?r = "(klocked ?s)\<lparr>mem := ?m, freelist := v\<rparr>"
  have inv: "flist (mem s) (freelist s) ps" "distinct ps" "\<forall>p\<in>set ps. page_ok (syms s) p" "cli_ok s"
    "use_lock s \<longrightarrow> locked (locks s Lkmem) = 0"
    using assms(1) by (simp_all add: kmem_inv_def)
  have run: "kfree v s = Done ?r" by (rule kfree_eq [OF assms(2) inv(4,5)])
  have fl: "flist ?m (freelist s) ps = flist (mem s) (freelist s) ps"
  proof (rule flist_frame)
    fix p x
    assume p: "p \<in> set ps" "in_range p 4 x"
    then have "\<not> in_range v 4096 x"
      using page_range_neq [of "syms s" p v x] in_range_mono [of p 4 x 4096] inv(3) assms(2,3) by auto
    then show "?m x = mem s x" by (rule kfree_mem)
  qed
  have "page_ok (syms ?r) = page_ok (syms s)" by (simp add: page_ok_def fun_eq_iff)
  moreover have "cli_ok ?r" "use_lock ?r \<longrightarrow> locked (locks ?r Lkmem) = 0"
    using inv(4,5) by (simp_all add: klocked_def crit_locked)
  ultimately have "kmem_inv ?r (v # ps)"
    using fl inv assms(2,3) page_ok_nonzero [OF assms(2)] by (simp add: kmem_inv_def)
  with run show ?thesis by (rule that) (simp_all add: kfree_mem)
qed

lemma kalloc_inv:
  assumes "kmem_inv s ps"
  obtains (none) s' where "ps = []" and "kalloc s = Done (0, s')" and "kmem_inv s' []" and "mem s' = mem s" and "syms s' = syms s"
  | (some) p ps' s' where "ps = p # ps'" and "kalloc s = Done (p, s')" and "kmem_inv s' ps'" and "page_ok (syms s) p"
      and "mem s' = mem s" and "syms s' = syms s"
proof -
  have inv: "flist (mem s) (freelist s) ps" "distinct ps" "\<forall>p\<in>set ps. page_ok (syms s) p" "cli_ok s"
    "use_lock s \<longrightarrow> locked (locks s Lkmem) = 0"
    using assms by (simp_all add: kmem_inv_def)
  let ?r = "(klocked s)\<lparr>freelist := (if freelist s \<noteq> 0 then load32 (mem s) (freelist s) else 0)\<rparr>"
  have run: "kalloc s = Done (freelist s, ?r)" by (rule kalloc_eq [OF inv(4,5)])
  have r: "page_ok (syms ?r) = page_ok (syms s)" "cli_ok ?r" "use_lock ?r \<longrightarrow> locked (locks ?r Lkmem) = 0"
    using inv(4,5) by (simp_all add: page_ok_def fun_eq_iff klocked_def crit_locked)
  show ?thesis
  proof (cases ps)
    case Nil
    then have "freelist s = 0" "kmem_inv ?r []" using inv(1) r by (simp_all add: kmem_inv_def)
    then show ?thesis using none Nil run by simp
  next
    case (Cons p ps')
    then have "freelist s = p" "kmem_inv ?r ps'" using inv r page_ok_nonzero by (simp_all add: kmem_inv_def)
    then show ?thesis using some Cons run inv(3) by simp
  qed
qed

section \<open>Interface\<close>

text \<open>
  What the rest of the kernel relies on: \<open>inv s ps\<close> says which pages are free. An allocation hands out a
  free page or the null page when there is none, a free gives a page back.
\<close>

locale page_allocator =
  fixes inv :: "'s \<Rightarrow> 'p list \<Rightarrow> bool"
    and ok :: "'p \<Rightarrow> bool"
    and nopage :: 'p
    and alloc :: "'s \<Rightarrow> ('p \<times> 's) kresult"
    and free :: "'p \<Rightarrow> 's \<Rightarrow> 's kresult"
  assumes free_pages: "inv s ps \<Longrightarrow> distinct ps \<and> (\<forall>p\<in>set ps. ok p)"
    and nopage_law: "\<not> ok nopage"
    and alloc_none: "inv s [] \<Longrightarrow> \<exists>s'. alloc s = Done (nopage, s') \<and> inv s' []"
    and alloc_some: "inv s (p # ps) \<Longrightarrow> \<exists>s'. alloc s = Done (p, s') \<and> inv s' ps"
    and free_law: "inv s ps \<Longrightarrow> ok p \<Longrightarrow> p \<notin> set ps \<Longrightarrow> \<exists>s'. free p s = Done s' \<and> inv s' (p # ps)"
begin

lemma alloc_many:
  "inv s (xs @ ys) \<Longrightarrow> \<exists>s'. deq_all alloc (length xs) s = Done (xs, s') \<and> inv s' ys"
proof (induction xs arbitrary: s)
  case (Cons x xs)
  obtain s1 where "alloc s = Done (x, s1)" "inv s1 (xs @ ys)"
    using alloc_some Cons.prems by fastforce
  then show ?case using Cons.IH [of s1] by auto
qed simp

lemma free_many:
  "inv s ys \<Longrightarrow> distinct xs \<Longrightarrow> set xs \<inter> set ys = {} \<Longrightarrow> \<forall>x\<in>set xs. ok x \<Longrightarrow>
    \<exists>s'. enq_all free xs s = Done s' \<and> inv s' (rev xs @ ys)"
proof (induction xs arbitrary: s ys)
  case (Cons x xs)
  obtain s1 where "free x s = Done s1" "inv s1 (x # ys)"
    using free_law [OF Cons.prems(1), of x] Cons.prems by auto
  then show ?case using Cons.IH [of s1 "x # ys"] Cons.prems by auto
qed simp

text \<open>Allocating and giving back: every page handed out is new, and none is lost.\<close>

lemma alloc_free_conserve:
  assumes "inv s ps" and "n \<le> length ps"
  shows "\<exists>qs s1 s2. deq_all alloc n s = Done (qs, s1) \<and> distinct qs \<and> nopage \<notin> set qs
    \<and> length qs = n \<and> enq_all free qs s1 = Done s2 \<and> (\<exists>ps'. inv s2 ps' \<and> set ps' = set ps \<and> distinct ps')"
proof -
  let ?xs = "take n ps" and ?ys = "drop n ps"
  have l: "length ?xs = n" using assms(2) by simp
  have d: "distinct (?xs @ ?ys)" "\<forall>p\<in>set ps. ok p" using free_pages [OF assms(1)] by simp_all
  have xs: "distinct ?xs" "set ?xs \<inter> set ?ys = {}" "\<forall>p\<in>set ?xs. ok p"
    using d in_set_takeD [of _ n ps] unfolding distinct_append by blast+
  have "inv s (?xs @ ?ys)" using assms(1) by simp
  from alloc_many [OF this] obtain s1 where s1: "deq_all alloc n s = Done (?xs, s1)" "inv s1 ?ys"
    using l by auto
  from free_many [OF s1(2) xs] obtain s2 where s2: "enq_all free ?xs s1 = Done s2" "inv s2 (rev ?xs @ ?ys)"
    by auto
  have "set (rev ?xs @ ?ys) = set ps"
    using append_take_drop_id [of n ps] by (metis set_append set_rev)
  moreover have "nopage \<notin> set ?xs" using xs(3) nopage_law by blast
  ultimately show ?thesis using s1(1) s2 xs(1) l free_pages [OF s2(2)] by blast
qed

end

interpretation kmem: page_allocator
  "\<lambda>s ps. kmem_inv s ps \<and> syms s = L" "page_ok L" 0 kalloc kfree for L
proof unfold_locales
  fix s ps
  assume "kmem_inv s ps \<and> syms s = L"
  then show "distinct ps \<and> (\<forall>p\<in>set ps. page_ok L p)" by (auto simp: kmem_inv_def)
next
  show "\<not> page_ok L 0" using page_ok_nonzero by blast
next
  fix s
  assume "kmem_inv s [] \<and> syms s = L"
  then show "\<exists>s'. kalloc s = Done (0, s') \<and> kmem_inv s' [] \<and> syms s' = L"
    using kalloc_inv [of s "[]"] by auto
next
  fix s p ps
  assume "kmem_inv s (p # ps) \<and> syms s = L"
  then show "\<exists>s'. kalloc s = Done (p, s') \<and> kmem_inv s' ps \<and> syms s' = L"
    using kalloc_inv [of s "p # ps"] by auto
next
  fix s ps p
  assume "kmem_inv s ps \<and> syms s = L" "page_ok L p" "p \<notin> set ps"
  then show "\<exists>s'. kfree p s = Done s' \<and> kmem_inv s' (p # ps) \<and> syms s' = L"
    using kfree_inv [of s ps p] by auto
qed

section \<open>Initialisation\<close>

text \<open>The whole pages between \<open>p\<close> (page-aligned) and \<open>vend\<close>.\<close>

definition page_range :: "u32 \<Rightarrow> nat \<Rightarrow> u32 list" where
  "page_range p n = map (\<lambda>i. p + of_nat (4096 * i)) [0..<n]"

lemma page_range_Suc: "page_range p (Suc n) = p # page_range (p + 4096) n"
proof -
  have "page_range p (Suc n) = p # map (\<lambda>i. p + of_nat (4096 * Suc i)) [0..<n]"
    unfolding page_range_def by (simp only: upt_conv_Cons map_Suc_upt [symmetric] list.map map_map) (simp add: o_def)
  then show ?thesis by (simp add: page_range_def algebra_simps)
qed

lemma page_range_unat:
  assumes "unat p + 4096 * n < 2 ^ 32" and "q \<in> set (page_range p n)"
  shows "unat p \<le> unat q \<and> unat q + 4096 \<le> unat p + 4096 * n \<and> unat q mod 4096 = unat p mod 4096"
proof -
  obtain i where i: "i < n" "q = p + of_nat (4096 * i)" using assms(2) by (auto simp: page_range_def)
  have lt: "unat p + 4096 * i < 2 ^ 32" "4096 * i < 2 ^ 32" using i(1) assms(1) by linarith+
  then have "unat q = unat p + 4096 * i"
    unfolding i(2) by (subst unat_add_u32) (simp_all add: unat_of_nat del: of_nat_mult)
  then show ?thesis using i(1) by simp
qed

lemma page_okI:
  assumes "unat p mod 4096 = 0" and "kend L \<le> p" and "0x80000000 \<le> unat p" and "unat p < 0x8E000000"
  shows "page_ok L p"
proof -
  have "p mod 4096 = 0" using assms(1) by (simp add: word_unat_eq_iff unat_mod)
  moreover have "p - 0x80000000 < 0xE000000" using assms(3,4) by unat_arith
  ultimately show ?thesis using assms(2) by (simp add: page_ok_def PGSIZE_def layout_defs)
qed

lemma freerange_loop_inv:
  assumes "kmem_inv s ps" and "unat p mod 4096 = 0" and "kend (syms s) \<le> p" and "0x80000000 \<le> unat p"
    and "unat p + 4096 * n \<le> 0x8E000000" and "unat p + 4096 * n \<le> unat vend" and "unat vend < unat p + 4096 * n + 4096"
    and "set (page_range p n) \<inter> set ps = {}"
  shows "\<exists>s'. freerange_loop p vend s = Done s' \<and> kmem_inv s' (rev (page_range p n) @ ps)
    \<and> syms s' = syms s \<and> use_lock s' = use_lock s"
  using assms
proof (induction n arbitrary: p s ps)
  case 0
  have "\<not> p + PGSIZE \<le> vend"
    using 0 by (simp add: PGSIZE_def word_le_nat_alt unat_plus_if')
  then show ?case using 0 by (simp add: freerange_loop.simps page_range_def)
next
  case (Suc n)
  have u: "unat (p + 4096) = unat p + 4096"
    using Suc.prems(5) by (simp add: unat_plus_if')
  have le: "p + PGSIZE \<le> vend" using u Suc.prems(6) by (simp add: PGSIZE_def word_le_nat_alt)
  have pok: "page_ok (syms s) p" using Suc.prems by (intro page_okI) auto
  have new: "p \<notin> set ps" "p \<notin> set (page_range (p + 4096) n)" "set (page_range (p + 4096) n) \<inter> set ps = {}"
    using Suc.prems(5,8) page_range_unat [of "p + 4096" n p] u by (auto simp: page_range_Suc)
  obtain s1 where s1: "kfree p s = Done s1" "kmem_inv s1 (p # ps)" "syms s1 = syms s" "use_lock s1 = use_lock s"
    using kfree_inv [OF Suc.prems(1) pok new(1)] by blast
  have "\<exists>s'. freerange_loop (p + 4096) vend s1 = Done s' \<and> kmem_inv s' (rev (page_range (p + 4096) n) @ p # ps)
      \<and> syms s' = syms s1 \<and> use_lock s' = use_lock s1"
  proof (rule Suc.IH [OF s1(2)])
    show "kend (syms s1) \<le> p + 4096"
      using Suc.prems(3) u s1(3) by (simp add: word_le_nat_alt)
  qed (use u Suc.prems new in auto)
  then show ?case
    using le s1 by (simp add: freerange_loop.simps [of p] page_range_Suc PGSIZE_def)
qed

end
