(* ===== verification/Output.thy ===== *)
theory Output
  imports Spinlock
begin

text \<open>
  Formatted output of console.c: the screen, the serial line (the list of bytes sent on it), \<open>consputc\<close> and
  \<open>cprintf\<close>. Characters are C ints; 256 is the code for erasing a character.
\<close>

unbundle bit_operations_syntax

section \<open>Output\<close>

definition BACKSPACE :: int where "BACKSPACE = 256"
definition INPUT_BUF :: u32 where "INPUT_BUF = 128"

definition upd_cons :: "(console \<Rightarrow> console) \<Rightarrow> kernel \<Rightarrow> kernel" where
  "upd_cons f s = s\<lparr>cons := f (cons s)\<rparr>"

definition uartputc :: "int \<Rightarrow> kernel \<Rightarrow> kernel" where
  "uartputc c = upd_cons (\<lambda>x. x\<lparr>uart := uart x @ [word_of_int c]\<rparr>)"

text \<open>
  \<open>cgaputc\<close>: the cursor is moved, the screen scrolled by a line when it reaches the last row, and the
  cell under the cursor blanked.
\<close>

definition cga_advance :: "int \<Rightarrow> int \<times> (nat \<Rightarrow> u16) \<Rightarrow> int \<times> (nat \<Rightarrow> u16)" where
  "cga_advance c x = (case x of (pos, m) \<Rightarrow>
     if c = 10 then (pos + (80 - pos mod 80), m)
     else if c = BACKSPACE then (if pos > 0 then pos - 1 else pos, m)
     else (pos + 1, m(nat pos := (word_of_int c AND 0xFF) OR 0x0700)))"

definition cga_scroll :: "int \<times> (nat \<Rightarrow> u16) \<Rightarrow> int \<times> (nat \<Rightarrow> u16)" where
  "cga_scroll x = (case x of (pos, m) \<Rightarrow>
     if pos div 80 \<ge> 24 then
       let m = (\<lambda>i. if i < 23 * 80 then m (i + 80) else m i); pos = pos - 80
       in (pos, \<lambda>i. if nat pos \<le> i \<and> i < 24 * 80 then 0 else m i)
     else (pos, m))"

definition cgaputc :: "int \<Rightarrow> kernel \<Rightarrow> kernel kresult" where
  "cgaputc c s =
     (let (pos, m) = cga_advance c (crt_pos (cons s), crt (cons s)) in
      kassert (\<not> (pos < 0 \<or> pos > 25 * 80)) ''pos under/overflow''
      (let (pos, m) = cga_scroll (pos, m) in
       Done (upd_cons (\<lambda>x. x\<lparr>crt_pos := pos, crt := m(nat pos := 0x0720)\<rparr>) s)))"

definition consputc :: "int \<Rightarrow> kernel \<Rightarrow> kernel kresult" where
  "consputc c s =
     (if panicked (cons s) then Spin
      else cgaputc c (if c = BACKSPACE then uartputc 8 (uartputc 32 (uartputc 8 s)) else uartputc c s))"

section \<open>Formatted output\<close>

definition digit :: "u32 \<Rightarrow> char" where
  "digit d = ''0123456789abcdef'' ! unat d"

text \<open>The digits of \<open>x\<close>, least significant first, as the loop stores them in \<open>buf\<close>.\<close>

function digits_loop :: "u32 \<Rightarrow> u32 \<Rightarrow> char list" where
  "digits_loop base x = digit (x mod base) # (if x div base = 0 \<or> base \<le> 1 then [] else digits_loop base (x div base))"
  by pat_completeness auto
termination
proof (relation "measure (\<lambda>(base, x). unat x)")
  fix base x :: u32
  assume *: "\<not> (x div base = 0 \<or> base \<le> 1)"
  have "x \<noteq> 0" using * by auto
  then have "0 < unat x" by (simp add: unat_gt_0)
  moreover have "1 < unat base" using * by (simp add: word_less_nat_alt not_le)
  ultimately show "((base, x div base), base, x) \<in> measure (\<lambda>(base, x). unat x)" by (simp add: unat_div)
qed simp

declare digits_loop.simps [simp del]

definition putchars :: "char list \<Rightarrow> kernel \<Rightarrow> kernel kresult" where
  "putchars cs = kfold (\<lambda>c. consputc (of_char c)) cs"

definition printint_text :: "u32 \<Rightarrow> u32 \<Rightarrow> bool \<Rightarrow> char list" where
  "printint_text xx base sign =
     (let neg = sign \<and> sint xx < 0; x = (if neg then - xx else xx)
      in (if neg then ''-'' else []) @ rev (digits_loop base x))"

definition printint :: "u32 \<Rightarrow> u32 \<Rightarrow> bool \<Rightarrow> kernel \<Rightarrow> kernel kresult" where
  "printint xx base sign = putchars (printint_text xx base sign)"

text \<open>
  The arguments of \<open>cprintf\<close>: a word, or the string a pointer points to (\<open>None\<close> for the null pointer).
  A format that asks for more arguments than there are, or for one of the other kind, has no defined meaning.
\<close>

datatype carg = Word u32 | Text "char list option"

fun cprintf_loop :: "char list \<Rightarrow> carg list \<Rightarrow> kernel \<Rightarrow> kernel kresult" where
  "cprintf_loop [] as s = Done s"
| "cprintf_loop (c # cs) as s =
     (if c \<noteq> CHR ''%'' then kbind (putchars [c] s) (cprintf_loop cs as)
      else case cs of
        [] \<Rightarrow> Done s
      | d # ds \<Rightarrow>
          if d = CHR ''d'' then
            (case as of Word w # as \<Rightarrow> kbind (printint w 10 True s) (cprintf_loop ds as) | _ \<Rightarrow> Fault)
          else if d = CHR ''x'' \<or> d = CHR ''p'' then
            (case as of Word w # as \<Rightarrow> kbind (printint w 16 False s) (cprintf_loop ds as) | _ \<Rightarrow> Fault)
          else if d = CHR ''s'' then
            (case as of
               Text t # as \<Rightarrow> kbind (putchars (case t of None \<Rightarrow> ''(null)'' | Some t \<Rightarrow> t) s) (cprintf_loop ds as)
             | _ \<Rightarrow> Fault)
          else if d = CHR ''%'' then kbind (putchars ''%'' s) (cprintf_loop ds as)
          else kbind (putchars [CHR ''%'', d] s) (cprintf_loop ds as))"

definition cprintf :: "char list \<Rightarrow> carg list \<Rightarrow> kernel \<Rightarrow> kernel kresult" where
  "cprintf fmt as s =
     (if locking (cons s)
      then kbind (acquire Lcons s) (\<lambda>s. kbind (cprintf_loop fmt as s) (release Lcons))
      else cprintf_loop fmt as s)"

end
