(* ===== verification/Vm.thy ===== *)
theory Vm
  imports Kalloc Output
begin

text \<open>
  vm.c: two-level page tables in byte memory. A page directory or table is 1024 words; an entry
  is a page frame with flag bits. \<open>loaduvm\<close> reads a file and is with exec.
\<close>

section \<open>Operations\<close>

definition walkpgdir :: "u32 \<Rightarrow> u32 \<Rightarrow> bool \<Rightarrow> u32 K" where
  "walkpgdir pgd va alloc s =
     (let pde = pgd + 4 * PDX va in
      if load32 (mem s) pde AND PTE_P \<noteq> 0 then
        Done (p2v (PTE_ADDR (load32 (mem s) pde)) + 4 * PTX va, s)
      else if \<not> alloc then Done (0, s)
      else kbind (kalloc s) (\<lambda>(pgtab, s).
        if pgtab = 0 then Done (0, s)
        else let m = memset pgtab 0 PGSIZE (mem s) in
          Done (pgtab + 4 * PTX va, s\<lparr>mem := store32 m pde (v2p pgtab OR PTE_P OR PTE_W OR PTE_U)\<rparr>)))"

text \<open>
  One iteration of mappages sets one entry. The loop has \<open>n\<close> more pages after \<open>a\<close> (\<open>a\<close> and \<open>last\<close> are
  page-aligned, so \<open>a == last\<close> when \<open>n\<close> is 0).
\<close>

definition map_page :: "u32 \<Rightarrow> u32 \<Rightarrow> u32 \<Rightarrow> u32 \<Rightarrow> int K" where
  "map_page pgd a pa perm s =
     kbind (walkpgdir pgd a True s) (\<lambda>(pte, s).
       if pte = 0 then Done (-1, s)
       else kassert (load32 (mem s) pte AND PTE_P = 0) ''remap''
         (Done (0, s\<lparr>mem := store32 (mem s) pte (pa OR perm OR PTE_P)\<rparr>)))"

primrec mappages_loop :: "u32 \<Rightarrow> u32 \<Rightarrow> nat \<Rightarrow> u32 \<Rightarrow> u32 \<Rightarrow> int K" where
  "mappages_loop pgd a 0 pa perm s = map_page pgd a pa perm s"
| "mappages_loop pgd a (Suc n) pa perm s =
     kbind (map_page pgd a pa perm s) (\<lambda>(r, s).
       if r < 0 then Done (-1, s) else mappages_loop pgd (a + PGSIZE) n (pa + PGSIZE) perm s)"

definition mappages :: "u32 \<Rightarrow> u32 \<Rightarrow> u32 \<Rightarrow> u32 \<Rightarrow> u32 \<Rightarrow> int K" where
  "mappages pgd va sze pa perm s =
     (let a = PGROUNDDOWN va; lst = PGROUNDDOWN (va + sze - 1)
      in mappages_loop pgd a (unat ((lst - a) div PGSIZE)) pa perm s)"

definition kmap :: "linkage \<Rightarrow> (u32 \<times> u32 \<times> u32 \<times> u32) list" where
  "kmap L = [(KERNBASE, 0, EXTMEM, PTE_W), (KERNLINK, v2p KERNLINK, v2p (kdata L), 0),
     (kdata L, v2p (kdata L), PHYSTOP, PTE_W), (DEVSPACE, DEVSPACE, 0, PTE_W)]"

primrec setupkvm_loop :: "u32 \<Rightarrow> (u32 \<times> u32 \<times> u32 \<times> u32) list \<Rightarrow> u32 K" where
  "setupkvm_loop pgd [] s = Done (pgd, s)"
| "setupkvm_loop pgd (k # ks) s =
     (let (virt, phys_start, phys_end, perm) = k in
      kbind (mappages pgd virt (phys_end - phys_start) phys_start perm s) (\<lambda>(r, s).
        if r < 0 then Done (0, s) else setupkvm_loop pgd ks s))"

definition setupkvm :: "u32 K" where
  "setupkvm s =
     kbind (kalloc s) (\<lambda>(pgd, s).
       if pgd = 0 then Done (0, s)
       else let s = s\<lparr>mem := memset pgd 0 PGSIZE (mem s)\<rparr> in
         kassert (\<not> p2v PHYSTOP > DEVSPACE) ''PHYSTOP too high''
           (setupkvm_loop pgd (kmap (syms s)) s))"

definition switchkvm :: "kernel \<Rightarrow> kernel" where
  "switchkvm s = s\<lparr>cr3 := (cr3 s)(me s := v2p (kpgdir s))\<rparr>"

definition kvmalloc :: "kernel \<Rightarrow> kernel kresult" where
  "kvmalloc s = kbind (setupkvm s) (\<lambda>(pgd, s). Done (switchkvm (s\<lparr>kpgdir := pgd\<rparr>)))"

text \<open>The kernel data segment selector is \<open>SEG_KDATA << 3\<close>; \<open>cp\<close> is the current process.\<close>

definition switchuvm :: "nat \<Rightarrow> kernel \<Rightarrow> kernel kresult" where
  "switchuvm p s =
     (let s = pushcli s in
      case curproc s of None \<Rightarrow> Fault | Some cp \<Rightarrow>
        let s = upd_cpu (\<lambda>c. c\<lparr>ts_ss0 := 16, ts_esp0 := kstack (procs s cp) + KSTACKSIZE\<rparr>) s in
        kassert (pgdir (procs s p) \<noteq> 0) ''switchuvm: no pgdir''
          (popcli (s\<lparr>cr3 := (cr3 s)(me s := v2p (pgdir (procs s p)))\<rparr>)))"

definition inituvm :: "u32 \<Rightarrow> u32 \<Rightarrow> u32 \<Rightarrow> kernel \<Rightarrow> kernel kresult" where
  "inituvm pgd init usz s =
     kassert (\<not> usz \<ge> PGSIZE) ''inituvm: more than a page''
       (kbind (kalloc s) (\<lambda>(m, s).
        kbind (mappages pgd 0 PGSIZE (v2p m) (PTE_W OR PTE_U) (s\<lparr>mem := memset m 0 PGSIZE (mem s)\<rparr>)) (\<lambda>(_, s).
        Done (s\<lparr>mem := memmove m init usz (mem s)\<rparr>))))"

definition deallocuvm :: "u32 \<Rightarrow> u32 \<Rightarrow> u32 \<Rightarrow> u32 K" where
  "deallocuvm pgd oldsz newsz s =
     (if newsz \<ge> oldsz then Done (oldsz, s)
      else kbind (kloop (\<lambda>(a, s). a < oldsz) (\<lambda>(a, s).
        kbind (walkpgdir pgd a False s) (\<lambda>(pte, s).
          if pte = 0 then Done (Inl (a + (NPTENTRIES - 1) * PGSIZE + PGSIZE, s))
          else if load32 (mem s) pte AND PTE_P \<noteq> 0 then
            let pa = PTE_ADDR (load32 (mem s) pte) in
            kassert (pa \<noteq> 0) ''kfree''
              (kbind (kfree (p2v pa) s) (\<lambda>s. Done (Inl (a + PGSIZE, s\<lparr>mem := store32 (mem s) pte 0\<rparr>))))
          else Done (Inl (a + PGSIZE, s)))) (PGROUNDUP newsz, s))
        (case_sum (\<lambda>(a, s). Done (newsz, s)) Done))"

definition allocuvm :: "u32 \<Rightarrow> u32 \<Rightarrow> u32 \<Rightarrow> u32 K" where
  "allocuvm pgd oldsz newsz s =
     (if newsz \<ge> KERNBASE then Done (0, s)
      else if newsz < oldsz then Done (oldsz, s)
      else kbind (kloop (\<lambda>(a, s). a < newsz) (\<lambda>(a, s).
        kbind (kalloc s) (\<lambda>(m, s).
          if m = 0 then
            kbind (cprintf (''allocuvm out of memory'' @ [CHR 10]) [] s) (\<lambda>s.
            kbind (deallocuvm pgd newsz oldsz s) (\<lambda>(_, s). Done (Inr (0, s))))
          else kbind (mappages pgd a PGSIZE (v2p m) (PTE_W OR PTE_U) (s\<lparr>mem := memset m 0 PGSIZE (mem s)\<rparr>))
            (\<lambda>(_, s). Done (Inl (a + PGSIZE, s))))) (PGROUNDUP oldsz, s))
        (case_sum (\<lambda>(a, s). Done (newsz, s)) Done))"

primrec freevm_loop :: "u32 \<Rightarrow> nat list \<Rightarrow> kernel \<Rightarrow> kernel kresult" where
  "freevm_loop pgd [] s = Done s"
| "freevm_loop pgd (i # is) s =
     (let e = load32 (mem s) (pgd + 4 * of_nat i) in
      if e AND PTE_P \<noteq> 0 then kbind (kfree (p2v (PTE_ADDR e)) s) (freevm_loop pgd is)
      else freevm_loop pgd is s)"

definition freevm :: "u32 \<Rightarrow> kernel \<Rightarrow> kernel kresult" where
  "freevm pgd s =
     kassert (pgd \<noteq> 0) ''freevm: no pgdir''
       (kbind (deallocuvm pgd KERNBASE 0 s) (\<lambda>(_, s).
        kbind (freevm_loop pgd [0..<NPDENTRIES] s) (kfree pgd)))"

definition clearpteu :: "u32 \<Rightarrow> u32 \<Rightarrow> kernel \<Rightarrow> kernel kresult" where
  "clearpteu pgd uva s =
     kbind (walkpgdir pgd uva False s) (\<lambda>(pte, s).
       kassert (pte \<noteq> 0) ''clearpteu'' (Done (s\<lparr>mem := store32 (mem s) pte (load32 (mem s) pte AND NOT PTE_U)\<rparr>)))"

definition clearptep :: "u32 \<Rightarrow> u32 \<Rightarrow> kernel \<Rightarrow> kernel kresult" where
  "clearptep pgd uva s =
     kbind (walkpgdir pgd uva False s) (\<lambda>(pte, s).
       kassert (pte \<noteq> 0) ''clearpteu'' (Done (s\<lparr>mem := store32 (mem s) pte (load32 (mem s) pte AND NOT PTE_P)\<rparr>)))"

definition copyuvm :: "u32 \<Rightarrow> u32 \<Rightarrow> u32 K" where
  "copyuvm pgd usz s =
     kbind (setupkvm s) (\<lambda>(d, s).
       if d = 0 then Done (0, s)
       else kbind (kloop (\<lambda>(i, s). i < usz) (\<lambda>(i, s).
         kbind (walkpgdir pgd i False s) (\<lambda>(pte, s).
         kassert (pte \<noteq> 0) ''copyuvm: pte should exist''
         (kassert (load32 (mem s) pte AND PTE_P \<noteq> 0) ''copyuvm: page not present''
         (let pa = PTE_ADDR (load32 (mem s) pte); flags = PTE_FLAGS (load32 (mem s) pte) in
          kbind (kalloc s) (\<lambda>(m, s).
            if m = 0 then kbind (freevm d s) (\<lambda>s. Done (Inr (0, s)))
            else kbind (mappages d i PGSIZE (v2p m) flags (s\<lparr>mem := memmove m (p2v pa) PGSIZE (mem s)\<rparr>)) (\<lambda>(r, s).
              if r < 0 then kbind (freevm d s) (\<lambda>s. Done (Inr (0, s)))
              else Done (Inl (i + PGSIZE, s)))))))) (0, s))
         (case_sum (\<lambda>(i, s). Done (d, s)) Done))"

text \<open>\<open>uva2ka\<close> dereferences the entry without checking that the page table exists.\<close>

definition uva2ka :: "u32 \<Rightarrow> u32 \<Rightarrow> u32 K" where
  "uva2ka pgd uva s =
     kbind (walkpgdir pgd uva False s) (\<lambda>(pte, s).
       if pte = 0 then Fault
       else if load32 (mem s) pte AND PTE_P = 0 then Done (0, s)
       else if load32 (mem s) pte AND PTE_U = 0 then Done (0, s)
       else Done (p2v (PTE_ADDR (load32 (mem s) pte)), s))"

text \<open>
  \<open>copyout\<close> is given the bytes its argument \<open>p\<close> points to: \<open>exec\<close> passes an argument string of the old
  image, and the vector of argument pointers on its own stack.
\<close>

definition copyout :: "u32 \<Rightarrow> u32 \<Rightarrow> u8 list \<Rightarrow> int K" where
  "copyout pgd va p s =
     kbind (kloop (\<lambda>(va, buf, s). buf \<noteq> []) (\<lambda>(va, buf, s).
       let va0 = PGROUNDDOWN va in
       kbind (uva2ka pgd va0 s) (\<lambda>(pa0, s).
         if pa0 = 0 then Done (Inr (-1, s))
         else let n = min (unat (PGSIZE - (va - va0))) (length buf) in
           Done (Inl (va0 + PGSIZE, drop n buf, s\<lparr>mem := store_bytes (mem s) (pa0 + (va - va0)) (take n buf)\<rparr>))))
       (va, p, s))
     (case_sum (\<lambda>(_, _, s). Done (0, s)) Done)"

end
