(* ===== verification/Sched.thy ===== *)
theory Sched
  imports Vm
begin

text \<open>
  proc.c without fork and exit: the process table, sleeping and waking, and the scheduler.

  A call of \<open>swtch\<close> hands the CPU to another flow of control, so the code around it is cut there:
  \<open>f_enter\<close> is what runs up to the switch and \<open>f_resume\<close> what runs when the flow is switched back to.
  The local variable \<open>intena\<close> of \<open>sched\<close>, which stays on the kernel stack meanwhile, is returned by the
  first part and passed to the second.
\<close>

section \<open>Operations\<close>

datatype 'a call = Ret 'a | Sleeps bool

definition pinit :: "kernel \<Rightarrow> kernel" where
  "pinit s = initlock Lptable ''ptable'' s"

definition find_unused :: "kernel \<Rightarrow> nat option" where
  "find_unused s = List.find (\<lambda>p. state (procs s p) = UNUSED) [0..<NPROC]"

definition alloc_slot :: "nat option K" where
  "alloc_slot s =
     kbind (acquire Lptable s) (\<lambda>s.
     case find_unused s of
       None \<Rightarrow> kbind (release Lptable s) (\<lambda>s. Done (None, s))
     | Some p \<Rightarrow>
         let s = (upd_proc p (\<lambda>q. q\<lparr>state := EMBRYO, pid := nextpid s\<rparr>) s)\<lparr>nextpid := nextpid s + 1\<rparr> in
         kbind (release Lptable s) (\<lambda>s. Done (Some p, s)))"

definition allocproc :: "nat option K" where
  "allocproc s =
     kbind (alloc_slot s) (\<lambda>(r, s).
     case r of
       None \<Rightarrow> Done (None, s)
     | Some p \<Rightarrow>
         kbind (kalloc s) (\<lambda>(k, s).
         let s = upd_proc p (\<lambda>q. q\<lparr>kstack := k\<rparr>) s in
         if k = 0 then Done (None, upd_proc p (\<lambda>q. q\<lparr>state := UNUSED\<rparr>) s)
         else
           let sp = k + KSTACKSIZE; sp1 = sp - 76; sp2 = sp1 - 4; sp3 = sp2 - 20;
               s = s\<lparr>mem := store32 (mem s) sp2 (trapret_addr (syms s))\<rparr>
           in Done (Some p, upd_proc p (\<lambda>q. q\<lparr>tf_addr := sp1, context_addr := sp3,
                ctx := \<lparr>c_edi = 0, c_esi = 0, c_ebx = 0, c_ebp = 0, c_eip = forkret_addr (syms s)\<rparr>\<rparr>) s)))"

definition growproc :: "int \<Rightarrow> int K" where
  "growproc n s =
     (case curproc s of None \<Rightarrow> Fault | Some p \<Rightarrow>
       let osz = sz (procs s p); pd = pgdir (procs s p) in
       kbind (if n > 0 then allocuvm pd osz (osz + of_int n) s
              else if n < 0 then deallocuvm pd osz (osz + of_int n) s
              else Done (osz, s)) (\<lambda>(nsz, s).
       if n \<noteq> 0 \<and> nsz = 0 then Done (-1, s)
       else kbind (switchuvm p (upd_proc p (\<lambda>q. q\<lparr>sz := nsz\<rparr>) s)) (\<lambda>s. Done (0, s))))"

definition sched_enter :: "bool K" where
  "sched_enter s =
     kassert (holding Lptable s) ''sched ptable.lock''
     (kassert (ncli (cpus s (me s)) = 1) ''sched locks''
     (case curproc s of None \<Rightarrow> Fault | Some p \<Rightarrow>
       kassert (state (procs s p) \<noteq> RUNNING) ''sched running''
       (kassert (\<not> if_flag s (me s)) ''sched interruptible''
       (Done (intena (cpus s (me s)), s)))))"

definition sched_resume :: "bool \<Rightarrow> kernel \<Rightarrow> kernel" where
  "sched_resume i = upd_cpu (\<lambda>c. c\<lparr>intena := i\<rparr>)"

definition yield_enter :: "bool K" where
  "yield_enter s =
     kbind (acquire Lptable s) (\<lambda>s.
     case curproc s of None \<Rightarrow> Fault | Some p \<Rightarrow> sched_enter (upd_proc p (\<lambda>q. q\<lparr>state := RUNNABLE\<rparr>) s))"

definition yield_resume :: "bool \<Rightarrow> kernel \<Rightarrow> kernel kresult" where
  "yield_resume i s = release Lptable (sched_resume i s)"

text \<open>\<open>sleep\<close> with the lock given by its address; no caller passes a null lock.\<close>

definition sleep_enter :: "chan \<Rightarrow> lockid \<Rightarrow> bool K" where
  "sleep_enter chan lk s =
     (case curproc s of None \<Rightarrow> Panic ''sleep'' | Some p \<Rightarrow>
       kbind (if lk \<noteq> Lptable then kbind (acquire Lptable s) (release lk) else Done s) (\<lambda>s.
       sched_enter (upd_proc p (\<lambda>q. q\<lparr>pchan := Some chan, state := SLEEPING\<rparr>) s)))"

definition sleep_resume :: "bool \<Rightarrow> lockid \<Rightarrow> kernel \<Rightarrow> kernel kresult" where
  "sleep_resume i lk s =
     (let s = sched_resume i s in
      case curproc s of None \<Rightarrow> Fault | Some p \<Rightarrow>
        let s = upd_proc p (\<lambda>q. q\<lparr>pchan := None\<rparr>) s in
        if lk \<noteq> Lptable then kbind (release Lptable s) (acquire lk) else Done s)"

definition wake_one :: "chan \<Rightarrow> nat \<Rightarrow> kernel \<Rightarrow> kernel" where
  "wake_one chan p s =
     (if state (procs s p) = SLEEPING \<and> pchan (procs s p) = Some chan
      then upd_proc p (\<lambda>q. q\<lparr>state := RUNNABLE\<rparr>) s else s)"

definition wakeup1 :: "chan \<Rightarrow> kernel \<Rightarrow> kernel" where
  "wakeup1 chan s = fold (wake_one chan) [0..<NPROC] s"

definition wakeup :: "chan \<Rightarrow> kernel \<Rightarrow> kernel kresult" where
  "wakeup chan s = kbind (acquire Lptable s) (\<lambda>s. release Lptable (wakeup1 chan s))"

definition kill :: "int \<Rightarrow> int K" where
  "kill n s =
     kbind (acquire Lptable s) (\<lambda>s.
     case List.find (\<lambda>p. pid (procs s p) = n) [0..<NPROC] of
       None \<Rightarrow> kbind (release Lptable s) (\<lambda>s. Done (-1, s))
     | Some p \<Rightarrow>
         let s = upd_proc p (\<lambda>q. q\<lparr>killed := 1, state := (if state q = SLEEPING then RUNNABLE else state q)\<rparr>) s in
         kbind (release Lptable s) (\<lambda>s. Done (0, s)))"

section \<open>The scheduler\<close>

definition sti :: "kernel \<Rightarrow> kernel" where
  "sti s = s\<lparr>if_flag := (if_flag s)(me s := True)\<rparr>"

definition set_curproc :: "nat option \<Rightarrow> kernel \<Rightarrow> kernel" where
  "set_curproc p = upd_cpu (\<lambda>c. c\<lparr>cproc := p\<rparr>)"

definition scheduler_begin :: "kernel \<Rightarrow> kernel kresult" where
  "scheduler_begin s = acquire Lptable (sti s)"

text \<open>From slot \<open>i\<close> of the table on: up to the switch to a runnable process, or the end of the round.\<close>

definition scheduler_next :: "nat \<Rightarrow> nat option K" where
  "scheduler_next i s =
     (case List.find (\<lambda>p. state (procs s p) = RUNNABLE) [i..<NPROC] of
        None \<Rightarrow> kbind (release Lptable s) (\<lambda>s. Done (None, s))
      | Some p \<Rightarrow>
          kbind (switchuvm p (set_curproc (Some p) s)) (\<lambda>s.
          Done (Some p, upd_proc p (\<lambda>q. q\<lparr>state := RUNNING\<rparr>) s)))"

definition scheduler_back :: "kernel \<Rightarrow> kernel" where
  "scheduler_back s = set_curproc None (switchkvm s)"

section \<open>Waiting for a child\<close>

text \<open>
  The body of the loop of wait: a zombie child is freed and its pid returned, no children (or a kill)
  gives -1, otherwise the process sleeps on itself.
\<close>

definition reap :: "nat \<Rightarrow> int K" where
  "reap p s =
     (let n = pid (procs s p) in
      kbind (kfree (kstack (procs s p)) s) (\<lambda>s.
      let s = upd_proc p (\<lambda>q. q\<lparr>kstack := 0\<rparr>) s in
      kbind (if page (procs s p) \<noteq> 0 then
               kbind (clearptep (pgdir (procs s p)) (addr1 (procs s p)) s) (\<lambda>s.
               kbind (clearptep (pgdir (procs s p)) (addr2 (procs s p)) s) (\<lambda>s.
               kfree (page (procs s p)) s))
             else Done s) (\<lambda>s.
      kbind (freevm (pgdir (procs s p)) s) (\<lambda>s.
      let s = upd_proc p (\<lambda>q. q\<lparr>state := UNUSED, pid := 0, parent := None, pname := (pname q)[0 := 0], killed := 0\<rparr>) s in
      kbind (release Lptable s) (\<lambda>s. Done (n, s))))))"

definition wait_scan :: "nat \<Rightarrow> int call K" where
  "wait_scan cp s =
     (let kids = filter (\<lambda>p. parent (procs s p) = Some cp) [0..<NPROC] in
      case List.find (\<lambda>p. state (procs s p) = ZOMBIE) kids of
        Some p \<Rightarrow> kbind (reap p s) (\<lambda>(n, s). Done (Ret n, s))
      | None \<Rightarrow>
          if kids = [] \<or> killed (procs s cp) \<noteq> 0 then
            kbind (release Lptable s) (\<lambda>s. Done (Ret (-1), s))
          else kbind (sleep_enter (ChProc (Some cp)) Lptable s) (\<lambda>(i, s). Done (Sleeps i, s)))"

definition wait :: "int call K" where
  "wait s =
     (case curproc s of None \<Rightarrow> Fault | Some cp \<Rightarrow> kbind (acquire Lptable s) (wait_scan cp))"

definition wait_resume :: "bool \<Rightarrow> int call K" where
  "wait_resume i s =
     kbind (sleep_resume i Lptable s) (\<lambda>s.
     case curproc s of None \<Rightarrow> Fault | Some cp \<Rightarrow> wait_scan cp s)"

end
