(* ===== verification/Sched_Correct.thy ===== *)
theory Sched_Correct
  imports Sched
begin

text \<open>
  What sleeping and waking do to the process table, and what the pieces of code around a switch leave alone.
\<close>

section \<open>Wakeup\<close>

definition woken :: "chan \<Rightarrow> proc \<Rightarrow> proc" where
  "woken chan q = (if state q = SLEEPING \<and> pchan q = Some chan then q\<lparr>state := RUNNABLE\<rparr> else q)"

definition wake_all :: "chan \<Rightarrow> (nat \<Rightarrow> proc) \<Rightarrow> nat \<Rightarrow> proc" where
  "wake_all chan P = (\<lambda>p. if p < NPROC then woken chan (P p) else P p)"

lemma wake_one_eq: "wake_one chan p s = s\<lparr>procs := (procs s)(p := woken chan (procs s p))\<rparr>"
  by (auto simp: wake_one_def woken_def upd_proc_def)

lemma wake_fold:
  "fold (wake_one chan) [0..<n] s = s\<lparr>procs := (\<lambda>p. if p < n then woken chan (procs s p) else procs s p)\<rparr>"
  by (induction n) (auto simp: wake_one_eq intro!: kernel.equality)

lemma wakeup1_eq: "wakeup1 chan s = s\<lparr>procs := wake_all chan (procs s)\<rparr>"
  by (simp add: wakeup1_def wake_fold wake_all_def)

lemma wakeup_eq:
  assumes "cli_ok s" and "locked (locks s Lptable) = 0"
  shows "wakeup chan s = Done ((crit Lptable s)\<lparr>procs := wake_all chan (procs s)\<rparr>)"
  using assms crit_ok_crit [OF assms(1) refl, of Lptable]
  by (simp add: wakeup_def acquire_enter wakeup1_eq release_enter)

text \<open>The same inside the critical section of another lock.\<close>

lemma wakeup_enter:
  assumes "cli_ok r" and "locked (locks r Lptable) = 0" and "lk \<noteq> Lptable"
  shows "wakeup chan (enter lk P r) = Done (enter lk P ((dbg Lptable r)\<lparr>procs := wake_all chan (procs r)\<rparr>))"
  using assms wakeup_eq [of "enter lk P r" chan] enter_cli_ok [OF assms(1), of lk P] crit_enter [of Lptable lk r P]
  by (simp add: lock_words cli_ok_def)

text \<open>
  \<open>sleep\<close> inside the section of another lock: the process table is locked instead of it, and the
  process sleeps on the channel.
\<close>

lemma enter_swap: "lk \<noteq> lk2 \<Longrightarrow> enter lk P (enter lk2 Q r) = enter lk2 Q (enter lk P r)"
  by (auto simp: enter_def fun_upd_twist intro!: kernel.equality)

lemma crit_ok_enter:
  "crit_ok lk P r \<Longrightarrow> lk \<noteq> lk2 \<Longrightarrow> crit_ok lk P (enter lk2 Q r)"
  by (auto simp: crit_ok_def enter_def)

lemma sleep_enter_section:
  assumes "cli_ok r" and "ncli (cpus r (me r)) = 0" and "locked (locks r Lptable) = 0" and "lk \<noteq> Lptable"
    and "crit_ok lk P r" and "curproc r = Some c"
  shows "sleep_enter ch lk (enter lk P r) = Done (intena (cpus r (me r)), enter Lptable (callers r)
    ((dbg Lptable r)\<lparr>procs := (procs r)(c := (procs r c)\<lparr>pchan := Some ch, state := SLEEPING\<rparr>)\<rparr>))"
proof -
  let ?t = "enter Lptable (callers r) (dbg Lptable r)"
  have "acquire Lptable (enter lk P r) = Done (enter Lptable (callers r) (enter lk P (dbg Lptable r)))"
    using assms by (simp add: acquire_enter lock_words crit_enter)
  also have "enter Lptable (callers r) (enter lk P (dbg Lptable r)) = enter lk P ?t"
    using assms(4) by (intro enter_swap) simp
  finally have acq: "acquire Lptable (enter lk P r) = Done (enter lk P ?t)" .
  have rel: "release lk (enter lk P ?t) = Done ?t"
    using assms by (intro release_enter crit_ok_enter) (simp_all add: crit_ok_dbg)
  have hold: "locked (locks ?t Lptable) = 1" "lk_cpu (locks ?t Lptable) = Some (me ?t)"
    by (simp_all add: enter_def)
  show ?thesis using assms
    by (simp add: sleep_enter_def acq rel sched_enter_def holding_def upd_proc_def hold)
      (simp add: enter_def dbg_def)
qed

section \<open>What the pieces do to the table, the CPUs and the locks\<close>

definition frozen :: "kernel \<Rightarrow> kernel \<Rightarrow> bool" where
  "frozen s t \<longleftrightarrow> me t = me s \<and> procs t = procs s \<and> (\<forall>c. cproc (cpus t c) = cproc (cpus s c))"

lemma frozen_refl [simp]: "frozen s s"
  by (simp add: frozen_def)

lemma frozen_trans: "frozen s t \<Longrightarrow> frozen t u \<Longrightarrow> frozen s u"
  by (simp add: frozen_def)

lemma acquire_effect:
  assumes "acquire lk s = Done t"
  shows "frozen s t" and "locked (locks s lk) = 0" and "locked (locks t lk) = 1" and "lk_cpu (locks t lk) = Some (me s)"
    and "l \<noteq> lk \<Longrightarrow> locks t l = locks s l"
  using assms by (auto simp: acquire_Done_iff frozen_def upd_lock_def pushcli_def upd_cpu_def Let_def)

lemma popcli_effect:
  assumes "popcli s = Done t"
  shows "frozen s t" and "locks t = locks s"
  using assms by (auto simp: popcli_def frozen_def upd_cpu_def Let_def)

lemma release_effect:
  assumes "release lk s = Done t"
  shows "frozen s t" and "holding lk s" and "locked (locks t lk) = 0" and "lk_cpu (locks t lk) = None"
    and "l \<noteq> lk \<Longrightarrow> locks t l = locks s l"
proof -
  let ?u = "upd_lock lk (\<lambda>l. l\<lparr>pcs := (pcs l)[0 := 0], lk_cpu := None, locked := 0\<rparr>) s"
  have h: "holding lk s" and p: "popcli ?u = Done t" using assms by (simp_all add: release_def)
  show "holding lk s" by (rule h)
  have "frozen s ?u" by (simp add: frozen_def upd_lock_def)
  then show "frozen s t" using popcli_effect(1) [OF p] frozen_trans by blast
  show "locked (locks t lk) = 0" "lk_cpu (locks t lk) = None" "l \<noteq> lk \<Longrightarrow> locks t l = locks s l"
    using popcli_effect(2) [OF p] by (simp_all add: upd_lock_def)
qed

lemma switchuvm_effect:
  assumes "switchuvm p s = Done t"
  shows "frozen s t" and "locks t = locks s"
proof -
  obtain cp where cp: "curproc (pushcli s) = Some cp"
    using assms by (cases "curproc (pushcli s)") (auto simp: switchuvm_def Let_def)
  define u where "u = upd_cpu (\<lambda>c. c\<lparr>ts_ss0 := 16, ts_esp0 := kstack (procs (pushcli s) cp) + KSTACKSIZE\<rparr>) (pushcli s)"
  have p: "popcli (u\<lparr>cr3 := (cr3 u)(me u := v2p (pgdir (procs u p)))\<rparr>) = Done t"
    using assms cp by (simp add: switchuvm_def Let_def u_def)
  have "frozen s (u\<lparr>cr3 := (cr3 u)(me u := v2p (pgdir (procs u p)))\<rparr>)" "locks u = locks s"
    by (auto simp: u_def frozen_def upd_cpu_def pushcli_def Let_def)
  then show "frozen s t" "locks t = locks s"
    using popcli_effect [OF p] frozen_trans by auto
qed

lemma sched_enter_effect:
  assumes "sched_enter s = Done (i, t)"
  shows "t = s" and "holding Lptable s" and "\<exists>p. curproc s = Some p \<and> state (procs s p) \<noteq> RUNNING"
  using assms by (auto simp: sched_enter_def split: option.splits)

lemma find_Some_state: "List.find P xs = Some p \<Longrightarrow> P p \<and> p \<in> set xs"
  by (auto simp: find_Some_iff)

end
