(* ===== verification/Bio.thy ===== *)
theory Bio
  imports Sched_Correct
begin

text \<open>
  The buffer cache (bio.c) on top of the in-memory disk driver (memide.c). A buffer is an index
  into \<open>bcache.buf\<close>, the list head is the index \<open>NBUF\<close>. The recency list is the ring of the code: its
  walks follow \<open>next\<close> and \<open>prev\<close> and would not end on a broken ring.
\<close>

section \<open>The disk driver\<close>

definition upd_buf :: "nat \<Rightarrow> (buf \<Rightarrow> buf) \<Rightarrow> kernel \<Rightarrow> kernel" where
  "upd_buf b f s = s\<lparr>bufs := (bufs s)(b := f (bufs s b))\<rparr>"

text \<open>\<open>ideinit\<close> is given the image the linker put into the kernel, \<open>ideintr\<close> does nothing.\<close>

definition ideinit :: "(u32 \<Rightarrow> u8 list) \<Rightarrow> u32 \<Rightarrow> kernel \<Rightarrow> kernel" where
  "ideinit fs_img fs_img_size s = s\<lparr>disk := fs_img, disksize := fs_img_size div of_nat BSIZE\<rparr>"

definition ideintr :: "kernel \<Rightarrow> kernel" where
  "ideintr s = s"

definition iderw :: "nat \<Rightarrow> kernel \<Rightarrow> kernel kresult" where
  "iderw b s =
     (let x = bufs s b in
      kassert (B_BUSY x) ''iderw: buf not busy''
      (kassert (\<not> (B_VALID x \<and> \<not> B_DIRTY x)) ''iderw: nothing to do''
      (kassert (bdev x = 1) ''iderw: request not for disk 1''
      (kassert (blockno x < disksize s) ''iderw: block out of range''
      (Done (upd_buf b (\<lambda>x. x\<lparr>B_VALID := True\<rparr>)
        (if B_DIRTY x
         then upd_buf b (\<lambda>x. x\<lparr>B_DIRTY := False\<rparr>) (s\<lparr>disk := (disk s)(blockno x := bdata x)\<rparr>)
         else upd_buf b (\<lambda>x. x\<lparr>bdata := disk s (blockno x)\<rparr>) s)))))))"

section \<open>The cache\<close>

definition set_next :: "nat \<Rightarrow> nat \<Rightarrow> kernel \<Rightarrow> kernel" where
  "set_next b c = upd_buf b (\<lambda>x. x\<lparr>bnext := c\<rparr>)"

definition set_prev :: "nat \<Rightarrow> nat \<Rightarrow> kernel \<Rightarrow> kernel" where
  "set_prev b c = upd_buf b (\<lambda>x. x\<lparr>bprev := c\<rparr>)"

text \<open>The four assignments that put \<open>b\<close> behind the head of the ring.\<close>

definition push_mru :: "nat \<Rightarrow> kernel \<Rightarrow> kernel" where
  "push_mru b s =
     (let s = set_next b (bnext (bufs s NBUF)) s;
          s = set_prev b NBUF s;
          s = set_prev (bnext (bufs s NBUF)) b s
      in set_next NBUF b s)"

definition binit :: "kernel \<Rightarrow> kernel" where
  "binit s =
     (let s = initlock Lbcache ''bcache'' s;
          s = set_next NBUF NBUF (set_prev NBUF NBUF s)
      in fold (\<lambda>b s. push_mru b (upd_buf b (\<lambda>x. x\<lparr>bdev := -1\<rparr>) s)) [0..<NBUF] s)"

definition find_cached :: "u32 \<Rightarrow> u32 \<Rightarrow> kernel \<Rightarrow> (nat + nat) kresult" where
  "find_cached dev bno s =
     kloop (\<lambda>b. b \<noteq> NBUF)
       (\<lambda>b. if bdev (bufs s b) = dev \<and> blockno (bufs s b) = bno then Done (Inr b) else Done (Inl (bnext (bufs s b))))
       (bnext (bufs s NBUF))"

definition find_victim :: "kernel \<Rightarrow> (nat + nat) kresult" where
  "find_victim s =
     kloop (\<lambda>b. b \<noteq> NBUF)
       (\<lambda>b. if \<not> B_BUSY (bufs s b) \<and> \<not> B_DIRTY (bufs s b) then Done (Inr b) else Done (Inl (bprev (bufs s b))))
       (bprev (bufs s NBUF))"

definition bget_body :: "u32 \<Rightarrow> u32 \<Rightarrow> nat call K" where
  "bget_body dev bno s =
     kbind (find_cached dev bno s) (\<lambda>r. case r of
       Inr b \<Rightarrow>
         if \<not> B_BUSY (bufs s b)
         then kbind (release Lbcache (upd_buf b (\<lambda>x. x\<lparr>B_BUSY := True\<rparr>) s)) (\<lambda>s. Done (Ret b, s))
         else kbind (sleep_enter (ChBuf b) Lbcache s) (\<lambda>(i, s). Done (Sleeps i, s))
     | Inl _ \<Rightarrow>
         kbind (find_victim s) (\<lambda>r. case r of
           Inr b \<Rightarrow>
             kbind (release Lbcache (upd_buf b (\<lambda>x. x\<lparr>bdev := dev, blockno := bno,
               B_BUSY := True, B_VALID := False, B_DIRTY := False\<rparr>) s)) (\<lambda>s. Done (Ret b, s))
         | Inl _ \<Rightarrow> Panic ''bget: no buffers''))"

definition bget :: "u32 \<Rightarrow> u32 \<Rightarrow> nat call K" where
  "bget dev bno s = kbind (acquire Lbcache s) (bget_body dev bno)"

definition bget_resume :: "bool \<Rightarrow> u32 \<Rightarrow> u32 \<Rightarrow> nat call K" where
  "bget_resume i dev bno s = kbind (sleep_resume i Lbcache s) (bget_body dev bno)"

text \<open>
  From here on a call that has to sleep for a busy buffer ends in \<open>Asleep\<close>: what follows runs only
  after another process has released the buffer.
\<close>

definition bread :: "u32 \<Rightarrow> u32 \<Rightarrow> nat K" where
  "bread dev bno s =
     kbind (bget dev bno s) (\<lambda>(c, s). case c of
       Sleeps _ \<Rightarrow> Asleep
     | Ret b \<Rightarrow> if B_VALID (bufs s b) then Done (b, s) else kbind (iderw b s) (\<lambda>s. Done (b, s)))"

definition bwrite :: "nat \<Rightarrow> kernel \<Rightarrow> kernel kresult" where
  "bwrite b s =
     kassert (B_BUSY (bufs s b)) ''bwrite''
     (iderw b (upd_buf b (\<lambda>x. x\<lparr>B_DIRTY := True\<rparr>) s))"

definition brelse :: "nat \<Rightarrow> kernel \<Rightarrow> kernel kresult" where
  "brelse b s =
     kassert (B_BUSY (bufs s b)) ''brelse''
     (kbind (acquire Lbcache s) (\<lambda>s.
      let s = set_prev (bnext (bufs s b)) (bprev (bufs s b)) s;
          s = set_next (bprev (bufs s b)) (bnext (bufs s b)) s;
          s = push_mru b s;
          s = upd_buf b (\<lambda>x. x\<lparr>B_BUSY := False\<rparr>) s
      in kbind (wakeup (ChBuf b) s) (release Lbcache)))"

end
