(* ===== verification/Layout.thy ===== *)
theory Layout
  imports Kernel
begin

text \<open>
  The on-disk formats of fs.h and log.c. A disk block is a list of 512 bytes; the kernel reads and
  writes the structures in it through casted pointers, least significant byte first.
\<close>

unbundle bit_operations_syntax

section \<open>Integers in byte lists\<close>

text \<open>\<open>memmove(p + i, xs, n)\<close> and \<open>memmove(dst, p + i, n)\<close> on the bytes at \<open>p\<close>.\<close>

definition blit :: "u8 list \<Rightarrow> nat \<Rightarrow> u8 list \<Rightarrow> u8 list" where
  "blit bs i xs = take i bs @ xs @ drop (i + length xs) bs"

definition slice :: "u8 list \<Rightarrow> nat \<Rightarrow> nat \<Rightarrow> u8 list" where
  "slice bs i n = take n (drop i bs)"

definition enc16 :: "u16 \<Rightarrow> u8 list" where
  "enc16 w = [ucast w, ucast (drop_bit 8 w)]"

definition enc32 :: "u32 \<Rightarrow> u8 list" where
  "enc32 w = [ucast w, ucast (drop_bit 8 w), ucast (drop_bit 16 w), ucast (drop_bit 24 w)]"

definition get16 :: "u8 list \<Rightarrow> nat \<Rightarrow> u16" where
  "get16 bs i = ucast (bs ! i) OR push_bit 8 (ucast (bs ! (i + 1)))"

definition get32 :: "u8 list \<Rightarrow> nat \<Rightarrow> u32" where
  "get32 bs i = ucast (bs ! i) OR push_bit 8 (ucast (bs ! (i + 1)))
     OR push_bit 16 (ucast (bs ! (i + 2))) OR push_bit 24 (ucast (bs ! (i + 3)))"

definition put32 :: "u8 list \<Rightarrow> nat \<Rightarrow> u32 \<Rightarrow> u8 list" where
  "put32 bs i w = blit bs i (enc32 w)"

text \<open>A C \<open>short\<close> is an \<open>int\<close> between \<open>- 2 ^ 15\<close> and \<open>2 ^ 15 - 1\<close>; assigning to one wraps.\<close>

definition short :: "int \<Rightarrow> int" where
  "short i = sint (word_of_int i :: u16)"

definition get_short :: "u8 list \<Rightarrow> nat \<Rightarrow> int" where
  "get_short bs i = sint (get16 bs i)"

definition enc_short :: "int \<Rightarrow> u8 list" where
  "enc_short i = enc16 (word_of_int i)"

lemma word16_of_bytes:
  fixes w :: u16
  shows "(ucast (ucast w :: u8) :: u16) OR push_bit 8 (ucast (ucast (drop_bit 8 w) :: u8)) = w"
proof (rule bit_word_eqI)
  fix n
  assume "n < LENGTH(16)"
  consider "n < 8" | "8 \<le> n" by linarith
  then show "bit ((ucast (ucast w :: u8) :: u16) OR push_bit 8 (ucast (ucast (drop_bit 8 w) :: u8))) n = bit w n"
    using \<open>n < LENGTH(16)\<close> by cases (auto simp: bit_simps)
qed

lemma enc_length [simp]: "length (enc16 w) = 2" "length (enc32 v) = 4" "length (enc_short i) = 2"
  by (simp_all add: enc16_def enc32_def enc_short_def)

lemma blit_length [simp]: "i + length xs \<le> length bs \<Longrightarrow> length (blit bs i xs) = length bs"
  by (simp add: blit_def)

lemma slice_length [simp]: "i + n \<le> length bs \<Longrightarrow> length (slice bs i n) = n"
  by (simp add: slice_def)

lemma blit_nth:
  "i + length xs \<le> length bs \<Longrightarrow> k < length bs \<Longrightarrow> blit bs i xs ! k = (if i \<le> k \<and> k < i + length xs then xs ! (k - i) else bs ! k)"
  by (auto simp: blit_def nth_append min_def)

lemma slice_nth: "k < n \<Longrightarrow> i + n \<le> length bs \<Longrightarrow> slice bs i n ! k = bs ! (i + k)"
  by (simp add: slice_def)

lemma slice_blit: "i + length xs \<le> length bs \<Longrightarrow> slice (blit bs i xs) i (length xs) = xs"
  by (rule nth_equalityI) (auto simp: slice_nth blit_nth)

lemma slice_blit_other:
  assumes "i + length xs \<le> length bs" and "j + n \<le> length bs" and "j + n \<le> i \<or> i + length xs \<le> j"
  shows "slice (blit bs i xs) j n = slice bs j n"
  using assms by (intro nth_equalityI) (auto simp: slice_nth blit_nth)

lemma get32_slice: "j + 4 \<le> n \<Longrightarrow> i + n \<le> length bs \<Longrightarrow> get32 (slice bs i n) j = get32 bs (i + j)"
  by (simp add: get32_def slice_nth add.assoc)

lemma get16_slice: "j + 2 \<le> n \<Longrightarrow> i + n \<le> length bs \<Longrightarrow> get16 (slice bs i n) j = get16 bs (i + j)"
  by (simp add: get16_def slice_nth add.assoc)

lemma get32_append1: "i + 4 \<le> length xs \<Longrightarrow> get32 (xs @ ys) i = get32 xs i"
  by (simp add: get32_def nth_append)

lemma get32_append2: "length xs \<le> i \<Longrightarrow> get32 (xs @ ys) i = get32 ys (i - length xs)"
  by (simp add: get32_def nth_append Suc_diff_le)

lemma get16_append1: "i + 2 \<le> length xs \<Longrightarrow> get16 (xs @ ys) i = get16 xs i"
  by (simp add: get16_def nth_append)

lemma get16_append2: "length xs \<le> i \<Longrightarrow> get16 (xs @ ys) i = get16 ys (i - length xs)"
  by (simp add: get16_def nth_append Suc_diff_le)

lemma get32_enc32 [simp]: "get32 (enc32 w) 0 = w" "get32 (enc32 w @ ys) 0 = w"
  using word_of_bytes [of w] by (simp_all add: get32_def enc32_def)

lemma get16_enc16 [simp]: "get16 (enc16 w) 0 = w" "get16 (enc16 w @ ys) 0 = w"
  using word16_of_bytes [of w] by (simp_all add: get16_def enc16_def)

lemma put32_length [simp]: "i + 4 \<le> length bs \<Longrightarrow> length (put32 bs i w) = length bs"
  by (simp add: put32_def)

lemma get32_put32: "i + 4 \<le> length bs \<Longrightarrow> get32 (put32 bs i w) i = w"
  using word_of_bytes [of w] by (simp add: get32_def put32_def blit_nth) (simp add: enc32_def)

lemma get32_put32_other:
  "i + 4 \<le> length bs \<Longrightarrow> j + 4 \<le> length bs \<Longrightarrow> j + 4 \<le> i \<or> i + 4 \<le> j \<Longrightarrow> get32 (put32 bs i w) j = get32 bs j"
  by (auto simp: get32_def put32_def blit_nth)

lemma short_id: "- (2 ^ 15) \<le> i \<Longrightarrow> i < 2 ^ 15 \<Longrightarrow> short i = i"
  by (simp add: short_def signed_of_int signed_take_bit_int_eq_self)

lemma get_enc_short [simp]: "get_short (enc_short i) 0 = short i" "get_short (enc_short i @ ys) 0 = short i"
  by (simp_all add: get_short_def enc_short_def short_def)

section \<open>Superblock, inode, directory entry, log header\<close>

definition dec_superblock :: "u8 list \<Rightarrow> superblock" where
  "dec_superblock bs = \<lparr>sb_size = get32 bs 0, nblocks = get32 bs 4, ninodes = get32 bs 8, nlog = get32 bs 12,
     logstart = get32 bs 16, inodestart = get32 bs 20, bmapstart = get32 bs 24\<rparr>"

definition enc_superblock :: "superblock \<Rightarrow> u8 list" where
  "enc_superblock x = enc32 (sb_size x) @ enc32 (nblocks x) @ enc32 (ninodes x) @ enc32 (nlog x)
     @ enc32 (logstart x) @ enc32 (inodestart x) @ enc32 (bmapstart x)"

record dinode =
  d_type :: int
  d_major :: int
  d_minor :: int
  d_nlink :: int
  d_size :: u32
  d_addrs :: "u32 list"

definition dec_dinode :: "u8 list \<Rightarrow> dinode" where
  "dec_dinode bs = \<lparr>d_type = get_short bs 0, d_major = get_short bs 2, d_minor = get_short bs 4,
     d_nlink = get_short bs 6, d_size = get32 bs 8, d_addrs = map (\<lambda>k. get32 bs (12 + 4 * k)) [0..<NDIRECT + 1]\<rparr>"

definition enc_dinode :: "dinode \<Rightarrow> u8 list" where
  "enc_dinode d = enc_short (d_type d) @ enc_short (d_major d) @ enc_short (d_minor d) @ enc_short (d_nlink d)
     @ enc32 (d_size d) @ concat (map enc32 (d_addrs d))"

record dirent =
  de_inum :: u16
  de_name :: "u8 list"

definition dec_dirent :: "u8 list \<Rightarrow> dirent" where
  "dec_dirent bs = \<lparr>de_inum = get16 bs 0, de_name = slice bs 2 DIRSIZ\<rparr>"

definition enc_dirent :: "dirent \<Rightarrow> u8 list" where
  "enc_dirent e = enc16 (de_inum e) @ de_name e"

text \<open>Inodes per block, the block of an inode, bitmap bits per block, and the bitmap block of a block.\<close>

definition IPB :: u32 where "IPB = 8"
definition IBLOCK :: "u32 \<Rightarrow> superblock \<Rightarrow> u32" where "IBLOCK i b = i div IPB + inodestart b"
definition BPB :: u32 where "BPB = 4096"
definition BBLOCK :: "u32 \<Rightarrow> superblock \<Rightarrow> u32" where "BBLOCK n b = n div BPB + bmapstart b"
definition T_DIR :: int where "T_DIR = 1"
definition T_FILE :: int where "T_FILE = 2"
definition T_DEV :: int where "T_DEV = 3"

text \<open>\<open>((struct dinode* )bp->data)[k]\<close> read and written.\<close>

definition get_dinode :: "u8 list \<Rightarrow> nat \<Rightarrow> dinode" where
  "get_dinode bs k = dec_dinode (slice bs (64 * k) 64)"

definition put_dinode :: "u8 list \<Rightarrow> nat \<Rightarrow> dinode \<Rightarrow> u8 list" where
  "put_dinode bs k d = blit bs (64 * k) (enc_dinode d)"

definition lh_read :: "u8 list \<Rightarrow> int \<times> int list" where
  "lh_read bs = (sint (get32 bs 0), map (\<lambda>i. sint (get32 bs (4 + 4 * i))) [0..<nat (sint (get32 bs 0))])"

primrec put_blocks :: "u8 list \<Rightarrow> nat \<Rightarrow> int list \<Rightarrow> u8 list" where
  "put_blocks bs i [] = bs"
| "put_blocks bs i (x # xs) = put_blocks (put32 bs i (of_int x)) (i + 4) xs"

definition lh_write :: "u8 list \<Rightarrow> int \<Rightarrow> int list \<Rightarrow> u8 list" where
  "lh_write bs n blocks = put_blocks (put32 bs 0 (of_int n)) 4 (take (nat n) blocks)"

section \<open>Round trips\<close>

lemma concat_enc32_length [simp]: "length (concat (map enc32 xs)) = 4 * length xs"
  by (induction xs) auto

lemma get32_concat: "k < length xs \<Longrightarrow> get32 (concat (map enc32 xs)) (4 * k) = xs ! k"
proof (induction xs arbitrary: k)
  case (Cons x xs)
  then show ?case by (cases k) (auto simp: get32_append2)
qed simp

definition short_ok :: "int \<Rightarrow> bool" where
  "short_ok i \<longleftrightarrow> - (2 ^ 15) \<le> i \<and> i < 2 ^ 15"

definition dinode_ok :: "dinode \<Rightarrow> bool" where
  "dinode_ok d \<longleftrightarrow> short_ok (d_type d) \<and> short_ok (d_major d) \<and> short_ok (d_minor d) \<and> short_ok (d_nlink d)
     \<and> length (d_addrs d) = NDIRECT + 1"

lemma enc_dinode_length: "length (d_addrs d) = NDIRECT + 1 \<Longrightarrow> length (enc_dinode d) = 64"
  by (simp add: enc_dinode_def NDIRECT_def)

lemma dec_enc_dinode: "dinode_ok d \<Longrightarrow> dec_dinode (enc_dinode d) = d"
proof -
  assume ok: "dinode_ok d"
  have "map (\<lambda>k. get32 (enc_dinode d) (12 + 4 * k)) [0..<NDIRECT + 1] = d_addrs d"
    using ok by (intro nth_equalityI) (auto simp: dinode_ok_def enc_dinode_def get32_append2 get32_concat nth_append less_Suc_eq)
  then show ?thesis using ok
    by (auto simp: dec_dinode_def dinode_ok_def short_ok_def enc_dinode_def get_short_def enc_short_def get16_append2
        get16_append1 get32_append2 get32_append1 short_id [unfolded short_def])
qed

lemma dec_enc_superblock: "dec_superblock (enc_superblock x @ ys) = x"
  by (simp add: dec_superblock_def enc_superblock_def get32_append2)

lemma dec_enc_dirent: "length (de_name e) = DIRSIZ \<Longrightarrow> dec_dirent (enc_dirent e) = e"
  by (simp add: dec_dirent_def enc_dirent_def slice_def)

lemma put_blocks_spec:
  "i + 4 * length xs \<le> length bs \<Longrightarrow> length (put_blocks bs i xs) = length bs
    \<and> (\<forall>k<length xs. get32 (put_blocks bs i xs) (i + 4 * k) = of_int (xs ! k))
    \<and> (\<forall>j. j + 4 \<le> i \<longrightarrow> get32 (put_blocks bs i xs) j = get32 bs j)"
proof (induction xs arbitrary: i bs)
  case (Cons x xs)
  have IH: "length (put_blocks (put32 bs i (of_int x)) (i + 4) xs) = length bs"
    "\<And>k. k < length xs \<Longrightarrow> get32 (put_blocks (put32 bs i (of_int x)) (i + 4) xs) (i + 4 + 4 * k) = of_int (xs ! k)"
    "\<And>j. j + 4 \<le> i + 4 \<Longrightarrow> get32 (put_blocks (put32 bs i (of_int x)) (i + 4) xs) j = get32 (put32 bs i (of_int x)) j"
    using Cons.IH [of "i + 4" "put32 bs i (of_int x)"] Cons.prems by auto
  have "get32 (put_blocks bs i (x # xs)) (i + 4 * k) = of_int ((x # xs) ! k)" if "k < length (x # xs)" for k
    using that IH(2) [of "k - 1"] IH(3) [of i] Cons.prems by (cases k) (auto simp: get32_put32 algebra_simps)
  moreover have "get32 (put_blocks bs i (x # xs)) j = get32 bs j" if "j + 4 \<le> i" for j
    using that IH(3) [of j] Cons.prems by (simp add: get32_put32_other)
  ultimately show ?case using IH(1) by simp
qed simp

definition int_ok :: "int \<Rightarrow> bool" where
  "int_ok i \<longleftrightarrow> - (2 ^ 31) \<le> i \<and> i < 2 ^ 31"

lemma sint_of_int: "int_ok i \<Longrightarrow> sint (of_int i :: u32) = i"
  by (simp add: int_ok_def signed_of_int signed_take_bit_int_eq_self)

lemma lh_read_write:
  assumes "0 \<le> n" and "n \<le> LOGSIZE" and "length blocks \<ge> nat n" and "\<forall>b\<in>set blocks. int_ok b" and "length bs = 512"
  shows "lh_read (lh_write bs n blocks) = (n, take (nat n) blocks)" "length (lh_write bs n blocks) = 512"
proof -
  let ?bs = "put32 bs 0 (of_int n)" and ?xs = "take (nat n) blocks"
  have P: "4 + 4 * length ?xs \<le> length ?bs" using assms by (simp add: LOGSIZE_def MAXOPBLOCKS_def min_def)
  note S = put_blocks_spec [OF P]
  have n: "sint (get32 (lh_write bs n blocks) 0) = n"
    using S assms by (simp add: lh_write_def get32_put32 sint_of_int int_ok_def LOGSIZE_def MAXOPBLOCKS_def)
  have "sint (get32 (lh_write bs n blocks) (4 + 4 * i)) = blocks ! i" if "i < nat n" for i
    using that S assms by (simp add: lh_write_def sint_of_int)
  then show "lh_read (lh_write bs n blocks) = (n, take (nat n) blocks)"
    using n assms by (auto simp: lh_read_def intro!: nth_equalityI)
  show "length (lh_write bs n blocks) = 512" using S assms by (simp add: lh_write_def)
qed

end
