(* ===== verification/Log.thy ===== *)
theory Log
  imports Bio Layout
begin

text \<open>
  The log (log.c): file system calls run between \<open>begin_op\<close> and \<open>end_op\<close>, their block writes are
  collected in the buffer cache, and the last \<open>end_op\<close> commits them through the on-disk log. Also
  \<open>readsb\<close> of fs.c, which \<open>initlog\<close> calls.
\<close>

section \<open>Operations\<close>

definition upd_log :: "(log \<Rightarrow> log) \<Rightarrow> kernel \<Rightarrow> kernel" where
  "upd_log f s = s\<lparr>klog := f (klog s)\<rparr>"

definition copy_buf :: "nat \<Rightarrow> nat \<Rightarrow> kernel \<Rightarrow> kernel" where
  "copy_buf d b s = upd_buf d (\<lambda>x. x\<lparr>bdata := bdata (bufs s b)\<rparr>) s"

definition readsb :: "u32 \<Rightarrow> superblock K" where
  "readsb dev s =
     kbind (bread dev 1 s) (\<lambda>(b, s).
     let x = dec_superblock (bdata (bufs s b)) in
     kbind (brelse b s) (\<lambda>s. Done (x, s)))"

definition install_one :: "nat \<Rightarrow> kernel \<Rightarrow> kernel kresult" where
  "install_one tail s =
     (let l = klog s in
      kbind (bread (ldev l) (of_int (start l + int tail + 1)) s) (\<lambda>(lb, s).
      kbind (bread (ldev l) (of_int (lh_block l ! tail)) s) (\<lambda>(d, s).
      kbind (bwrite d (copy_buf d lb s)) (\<lambda>s.
      kbind (brelse lb s) (brelse d)))))"

definition install_trans :: "kernel \<Rightarrow> kernel kresult" where
  "install_trans s = kfold install_one [0..<nat (lh_n (klog s))] s"

text \<open>A header with more than \<open>LOGSIZE\<close> entries would be copied past the end of the array.\<close>

definition read_head :: "kernel \<Rightarrow> kernel kresult" where
  "read_head s =
     kbind (bread (ldev (klog s)) (of_int (start (klog s))) s) (\<lambda>(b, s).
     case lh_read (bdata (bufs s b)) of (n, blocks) \<Rightarrow>
       if n > LOGSIZE then Fault
       else brelse b (upd_log (\<lambda>l. l\<lparr>lh_n := n, lh_block := blocks @ drop (length blocks) (lh_block l)\<rparr>) s))"

definition write_head :: "kernel \<Rightarrow> kernel kresult" where
  "write_head s =
     kbind (bread (ldev (klog s)) (of_int (start (klog s))) s) (\<lambda>(b, s).
     kbind (bwrite b (upd_buf b (\<lambda>x. x\<lparr>bdata := lh_write (bdata x) (lh_n (klog s)) (lh_block (klog s))\<rparr>) s)) (brelse b))"

definition recover_from_log :: "kernel \<Rightarrow> kernel kresult" where
  "recover_from_log s =
     kbind (read_head s) (\<lambda>s.
     kbind (install_trans s) (\<lambda>s.
     write_head (upd_log (\<lambda>l. l\<lparr>lh_n := 0\<rparr>) s)))"

text \<open>The size test of \<open>initlog\<close> compares two constants: a header is 124 bytes long.\<close>

definition initlog :: "u32 \<Rightarrow> kernel \<Rightarrow> kernel kresult" where
  "initlog dev s =
     kbind (readsb dev (initlock Llog ''log'' s)) (\<lambda>(x, s).
     recover_from_log (upd_log (\<lambda>l. l\<lparr>start := sint (logstart x), lsize := sint (nlog x), ldev := dev\<rparr>) s))"

definition begin_op_body :: "unit call K" where
  "begin_op_body s =
     (let l = klog s in
      if committing l \<or> lh_n l + (outstanding l + 1) * MAXOPBLOCKS > LOGSIZE
      then kbind (sleep_enter ChLog Llog s) (\<lambda>(i, s). Done (Sleeps i, s))
      else kbind (release Llog (upd_log (\<lambda>l. l\<lparr>outstanding := outstanding l + 1\<rparr>) s)) (\<lambda>s. Done (Ret (), s)))"

definition begin_op_call :: "unit call K" where
  "begin_op_call s = kbind (acquire Llog s) begin_op_body"

definition begin_op_resume :: "bool \<Rightarrow> unit call K" where
  "begin_op_resume i s = kbind (sleep_resume i Llog s) begin_op_body"

text \<open>\<open>begin_op\<close> as the system calls use it.\<close>

definition begin_op :: "kernel \<Rightarrow> kernel kresult" where
  "begin_op s = kbind (begin_op_call s) (\<lambda>(c, s). case c of Ret _ \<Rightarrow> Done s | Sleeps _ \<Rightarrow> Asleep)"

definition write_log_one :: "nat \<Rightarrow> kernel \<Rightarrow> kernel kresult" where
  "write_log_one tail s =
     (let l = klog s in
      kbind (bread (ldev l) (of_int (start l + int tail + 1)) s) (\<lambda>(to, s).
      kbind (bread (ldev l) (of_int (lh_block l ! tail)) s) (\<lambda>(from, s).
      kbind (bwrite to (copy_buf to from s)) (\<lambda>s.
      kbind (brelse from s) (brelse to)))))"

definition write_log :: "kernel \<Rightarrow> kernel kresult" where
  "write_log s = kfold write_log_one [0..<nat (lh_n (klog s))] s"

definition commit :: "kernel \<Rightarrow> kernel kresult" where
  "commit s =
     (if lh_n (klog s) > 0 then
        kbind (write_log s) (\<lambda>s.
        kbind (write_head s) (\<lambda>s.
        kbind (install_trans s) (\<lambda>s.
        write_head (upd_log (\<lambda>l. l\<lparr>lh_n := 0\<rparr>) s))))
      else Done s)"

definition end_op :: "kernel \<Rightarrow> kernel kresult" where
  "end_op s =
     kbind (acquire Llog s) (\<lambda>s.
     let s = upd_log (\<lambda>l. l\<lparr>outstanding := outstanding l - 1\<rparr>) s in
     kassert (\<not> committing (klog s)) ''log.committing''
     (if outstanding (klog s) = 0 then
        kbind (release Llog (upd_log (\<lambda>l. l\<lparr>committing := True\<rparr>) s)) (\<lambda>s.
        kbind (commit s) (\<lambda>s.
        kbind (acquire Llog s) (\<lambda>s.
        kbind (wakeup ChLog (upd_log (\<lambda>l. l\<lparr>committing := False\<rparr>) s)) (release Llog))))
      else kbind (wakeup ChLog s) (release Llog)))"

definition log_index :: "log \<Rightarrow> u32 \<Rightarrow> nat" where
  "log_index l bno = (case List.find (\<lambda>i. of_int (lh_block l ! i) = bno) [0..<nat (lh_n l)] of
     Some i \<Rightarrow> i | None \<Rightarrow> nat (lh_n l))"

definition log_write :: "nat \<Rightarrow> kernel \<Rightarrow> kernel kresult" where
  "log_write b s =
     kassert (\<not> (lh_n (klog s) \<ge> LOGSIZE \<or> lh_n (klog s) \<ge> lsize (klog s) - 1)) ''too big a transaction''
     (kassert (\<not> outstanding (klog s) < 1) ''log_write outside of trans''
     (kbind (acquire Llog s) (\<lambda>s.
      let i = log_index (klog s) (blockno (bufs s b));
          s = upd_log (\<lambda>l. l\<lparr>lh_block := (lh_block l)[i := sint (blockno (bufs s b))]\<rparr>) s;
          s = (if int i = lh_n (klog s) then upd_log (\<lambda>l. l\<lparr>lh_n := lh_n l + 1\<rparr>) s else s);
          s = upd_buf b (\<lambda>x. x\<lparr>B_DIRTY := True\<rparr>) s
      in release Llog s)))"

end
