(* ===== verification/Console.thy ===== *)
theory Console
  imports Sched_Correct
begin

text \<open>
  The console (console.c): \<open>panic\<close> and line editing of the input, above the output of theory Output. Also
  \<open>procdump\<close> of proc.c, which the console prints on control-P.
\<close>

unbundle bit_operations_syntax

section \<open>Panic\<close>

text \<open>
  \<open>panic\<close> prints its message and the call stack and stops the CPU with interrupts off. The model's
  \<open>Panic\<close> is a call of it; \<open>panic_print\<close> is what it does before it stops.
\<close>

definition panic_print :: "char list \<Rightarrow> kernel \<Rightarrow> kernel kresult" where
  "panic_print msg s =
     (let s = s\<lparr>if_flag := (if_flag s)(me s := False)\<rparr>;
          s = upd_cons (\<lambda>x. x\<lparr>locking := False\<rparr>) s in
      kbind (cprintf ''cpu%d: panic: '' [Word (of_nat (me s))] s) (\<lambda>s.
      kbind (cprintf msg [] s) (\<lambda>s.
      kbind (cprintf [CHR 10] [] s) (\<lambda>s.
      kbind (kfold (\<lambda>pc. cprintf '' %p'' [Word pc]) (getcallerpcs (mem s) (lkarg s)) s) (\<lambda>s.
      Done (upd_cons (\<lambda>x. x\<lparr>panicked := True\<rparr>) s))))))"

section \<open>The process listing\<close>

primrec state_name :: "procstate \<Rightarrow> char list" where
  "state_name UNUSED = ''unused''"
| "state_name EMBRYO = ''embryo''"
| "state_name SLEEPING = ''sleep ''"
| "state_name RUNNABLE = ''runble''"
| "state_name RUNNING = ''run   ''"
| "state_name ZOMBIE = ''zombie''"

definition cstring :: "u8 list \<Rightarrow> char list" where
  "cstring bs = map (\<lambda>b. char_of (unat b)) (takeWhile (\<lambda>b. b \<noteq> 0) bs)"

definition procdump_one :: "nat \<Rightarrow> kernel \<Rightarrow> kernel kresult" where
  "procdump_one p s =
     (let q = procs s p in
      if state q = UNUSED then Done s
      else
        kbind (cprintf ''%d %s %s'' [Word (of_int (pid q)), Text (Some (state_name (state q))), Text (Some (cstring (pname q)))] s) (\<lambda>s.
        kbind (if state q = SLEEPING
               then kfold (\<lambda>pc. cprintf '' %p'' [Word pc])
                      (takeWhile (\<lambda>pc. pc \<noteq> 0) (getcallerpcs (mem s) (c_ebp (ctx q) + 8))) s
               else Done s) (cprintf [CHR 10] [])))"

definition procdump :: "kernel \<Rightarrow> kernel kresult" where
  "procdump s = kfold procdump_one [0..<NPROC] s"

section \<open>Input\<close>

definition ctrl :: "char \<Rightarrow> int" where
  "ctrl c = of_char c - 64"

definition input_at :: "console \<Rightarrow> u32 \<Rightarrow> u8" where
  "input_at x i = ibuf x ! unat (i mod INPUT_BUF)"

definition input_store :: "u8 \<Rightarrow> console \<Rightarrow> console" where
  "input_store b x = x\<lparr>ibuf := (ibuf x)[unat (in_e x mod INPUT_BUF) := b], in_e := in_e x + 1\<rparr>"

definition erase_one :: "kernel \<Rightarrow> kernel kresult" where
  "erase_one s = consputc BACKSPACE (upd_cons (\<lambda>x. x\<lparr>in_e := in_e x - 1\<rparr>) s)"

text \<open>One turn of the loop of \<open>consoleintr\<close>, for the character \<open>c\<close>.\<close>

definition console_char :: "int \<Rightarrow> kernel \<Rightarrow> kernel kresult" where
  "console_char c s =
     (if c = ctrl CHR ''P'' then Done s
      else if c = ctrl CHR ''U'' then
        kwhile (\<lambda>s. in_e (cons s) \<noteq> in_w (cons s) \<and> input_at (cons s) (in_e (cons s) - 1) \<noteq> 10) erase_one s
      else if c = ctrl CHR ''H'' \<or> c = 127 then
        (if in_e (cons s) \<noteq> in_w (cons s) then erase_one s else Done s)
      else if c \<noteq> 0 \<and> in_e (cons s) - in_r (cons s) < INPUT_BUF then
        let c = (if c = 13 then 10 else c) in
        kbind (consputc c (upd_cons (input_store (word_of_int c)) s)) (\<lambda>s.
        if c = 10 \<or> c = ctrl CHR ''D'' \<or> in_e (cons s) = in_r (cons s) + INPUT_BUF
        then wakeup ChInput (upd_cons (\<lambda>x. x\<lparr>in_w := in_e x\<rparr>) s)
        else Done s)
      else Done s)"

text \<open>\<open>cs\<close> are the characters \<open>getc\<close> delivers before it returns -1.\<close>

definition consoleintr :: "int list \<Rightarrow> kernel \<Rightarrow> kernel kresult" where
  "consoleintr cs s =
     kbind (acquire Lcons s) (\<lambda>s.
     kbind (kfold console_char cs s) (\<lambda>s.
     kbind (release Lcons s) (\<lambda>s.
     if ctrl CHR ''P'' \<in> set cs then procdump s else Done s)))"

end
