(* ===== verification/Inode.thy ===== *)
theory Inode
  imports Log Console
begin

text \<open>
  The block allocator and the inode layer of fs.c. An in-memory inode is an index into
  \<open>icache.inode\<close>. As in the buffer cache, a call that has to sleep for an inode another process
  holds is \<open>Asleep\<close>.
\<close>

unbundle bit_operations_syntax

section \<open>Blocks\<close>

definition upd_inode :: "nat \<Rightarrow> (inode \<Rightarrow> inode) \<Rightarrow> kernel \<Rightarrow> kernel" where
  "upd_inode ip f s = s\<lparr>inodes := (inodes s)(ip := f (inodes s ip))\<rparr>"

definition set_data :: "nat \<Rightarrow> u8 list \<Rightarrow> kernel \<Rightarrow> kernel" where
  "set_data b bs = upd_buf b (\<lambda>x. x\<lparr>bdata := bs\<rparr>)"

abbreviation data :: "kernel \<Rightarrow> nat \<Rightarrow> u8 list" where
  "data s b \<equiv> bdata (bufs s b)"

text \<open>The idiom \<open>log_write(bp); brelse(bp);\<close>.\<close>

definition log_release :: "nat \<Rightarrow> kernel \<Rightarrow> kernel kresult" where
  "log_release b s = kbind (log_write b s) (brelse b)"

definition bzero :: "u32 \<Rightarrow> u32 \<Rightarrow> kernel \<Rightarrow> kernel kresult" where
  "bzero dev bno s = kbind (bread dev bno s) (\<lambda>(b, s). log_release b (set_data b (replicate BSIZE 0) s))"

definition bit_free :: "u8 list \<Rightarrow> nat \<Rightarrow> bool" where
  "bit_free bs bi \<longleftrightarrow> bs ! (bi div 8) AND push_bit (bi mod 8) 1 = 0"

definition mark_bit :: "u8 list \<Rightarrow> nat \<Rightarrow> u8 list" where
  "mark_bit bs bi = bs[bi div 8 := bs ! (bi div 8) OR push_bit (bi mod 8) 1]"

definition clear_bit :: "u8 list \<Rightarrow> nat \<Rightarrow> u8 list" where
  "clear_bit bs bi = bs[bi div 8 := bs ! (bi div 8) AND NOT (push_bit (bi mod 8) 1)]"

text \<open>The inner loop of \<open>balloc\<close>: the first free bit of a bitmap block that belongs to a block of the disk.\<close>

definition find_bit :: "u32 \<Rightarrow> superblock \<Rightarrow> u8 list \<Rightarrow> nat option" where
  "find_bit b x bs = List.find (bit_free bs) (takeWhile (\<lambda>bi. b + of_nat bi < sb_size x) [0..<unat BPB])"

definition balloc :: "u32 \<Rightarrow> u32 K" where
  "balloc dev s =
     kbind (kloop (\<lambda>(b, s). b < sb_size (sb s))
       (\<lambda>(b, s).
          kbind (bread dev (BBLOCK b (sb s)) s) (\<lambda>(bp, s).
          case find_bit b (sb s) (data s bp) of
            Some bi \<Rightarrow>
              kbind (log_release bp (set_data bp (mark_bit (data s bp) bi) s)) (\<lambda>s.
              kbind (bzero dev (b + of_nat bi) s) (\<lambda>s.
              Done (Inr (b + of_nat bi, s))))
          | None \<Rightarrow> kbind (brelse bp s) (\<lambda>s. Done (Inl (b + BPB, s)))))
       (0, s))
     (\<lambda>r. case r of Inr x \<Rightarrow> Done x | Inl _ \<Rightarrow> Panic ''balloc: out of blocks'')"

definition bfree :: "u32 \<Rightarrow> u32 \<Rightarrow> kernel \<Rightarrow> kernel kresult" where
  "bfree dev b s =
     kbind (readsb dev s) (\<lambda>(x, s).
     kbind (bread dev (BBLOCK b x) (s\<lparr>sb := x\<rparr>)) (\<lambda>(bp, s).
     let bi = unat (b mod BPB) in
     kassert (\<not> bit_free (data s bp) bi) ''freeing free block''
     (log_release bp (set_data bp (clear_bit (data s bp) bi) s))))"

section \<open>The inode cache\<close>

definition find_inode :: "u32 \<Rightarrow> u32 \<Rightarrow> kernel \<Rightarrow> nat option" where
  "find_inode dev i s =
     List.find (\<lambda>ip. iref (inodes s ip) > 0 \<and> idev (inodes s ip) = dev \<and> inum (inodes s ip) = i) [0..<NINODE]"

definition empty_inode :: "kernel \<Rightarrow> nat option" where
  "empty_inode s = List.find (\<lambda>ip. iref (inodes s ip) = 0) [0..<NINODE]"

definition iget :: "u32 \<Rightarrow> u32 \<Rightarrow> nat K" where
  "iget dev i s =
     kbind (acquire Licache s) (\<lambda>s.
     case find_inode dev i s of
       Some ip \<Rightarrow>
         kbind (release Licache (upd_inode ip (\<lambda>x. x\<lparr>iref := iref x + 1\<rparr>) s)) (\<lambda>s. Done (ip, s))
     | None \<Rightarrow>
        (case empty_inode s of
           None \<Rightarrow> Panic ''iget: no inodes''
         | Some ip \<Rightarrow>
             kbind (release Licache (upd_inode ip (\<lambda>x. x\<lparr>idev := dev, inum := i, iref := 1,
               I_BUSY := False, I_VALID := False\<rparr>) s)) (\<lambda>s. Done (ip, s))))"

definition iinit :: "u32 \<Rightarrow> kernel \<Rightarrow> kernel kresult" where
  "iinit dev s =
     kbind (readsb dev (initlock Licache ''icache'' s)) (\<lambda>(x, s).
     cprintf (''sb: size %d nblocks %d ninodes %d nlog %d logstart %d inodestart %d bmap start %d'' @ [CHR 10])
       [Word (sb_size x), Word (nblocks x), Word (ninodes x), Word (nlog x), Word (logstart x), Word (inodestart x), Word (bmapstart x)]
       (s\<lparr>sb := x\<rparr>))"

definition zero_dinode :: dinode where
  "zero_dinode = \<lparr>d_type = 0, d_major = 0, d_minor = 0, d_nlink = 0, d_size = 0, d_addrs = replicate (NDIRECT + 1) 0\<rparr>"

definition ialloc :: "u32 \<Rightarrow> int \<Rightarrow> nat K" where
  "ialloc dev ty s =
     kbind (kloop (\<lambda>(i, s). i < ninodes (sb s))
       (\<lambda>(i, s).
          kbind (bread dev (IBLOCK i (sb s)) s) (\<lambda>(bp, s).
          if d_type (get_dinode (data s bp) (unat (i mod IPB))) = 0 then
            kbind (log_release bp (set_data bp
              (put_dinode (data s bp) (unat (i mod IPB)) (zero_dinode\<lparr>d_type := ty\<rparr>)) s)) (\<lambda>s.
            kbind (iget dev i s) (\<lambda>x. Done (Inr x)))
          else kbind (brelse bp s) (\<lambda>s. Done (Inl (i + 1, s)))))
       (1, s))
     (\<lambda>r. case r of Inr x \<Rightarrow> Done x | Inl _ \<Rightarrow> Panic ''ialloc: no inodes'')"

definition dinode_of :: "inode \<Rightarrow> dinode" where
  "dinode_of x = \<lparr>d_type = itype x, d_major = major x, d_minor = minor x, d_nlink = nlink x, d_size = isize x, d_addrs = addrs x\<rparr>"

definition of_dinode :: "dinode \<Rightarrow> inode \<Rightarrow> inode" where
  "of_dinode d x = x\<lparr>itype := d_type d, major := d_major d, minor := d_minor d, nlink := d_nlink d,
     isize := d_size d, addrs := d_addrs d\<rparr>"

definition iupdate :: "nat \<Rightarrow> kernel \<Rightarrow> kernel kresult" where
  "iupdate ip s =
     (let x = inodes s ip in
      kbind (bread (idev x) (IBLOCK (inum x) (sb s)) s) (\<lambda>(bp, s).
      log_release bp (set_data bp (put_dinode (data s bp) (unat (inum x mod IPB)) (dinode_of x)) s)))"

definition idup :: "nat \<Rightarrow> nat K" where
  "idup ip s =
     kbind (acquire Licache s) (\<lambda>s.
     kbind (release Licache (upd_inode ip (\<lambda>x. x\<lparr>iref := iref x + 1\<rparr>) s)) (\<lambda>s. Done (ip, s)))"

text \<open>\<open>ilock\<close> and \<open>iunlock\<close> also panic on a null pointer; here an inode is always given.\<close>

definition ilock :: "nat \<Rightarrow> kernel \<Rightarrow> kernel kresult" where
  "ilock ip s =
     kassert (\<not> iref (inodes s ip) < 1) ''ilock''
     (kbind (acquire Licache s) (\<lambda>s.
      if I_BUSY (inodes s ip) then Asleep
      else kbind (release Licache (upd_inode ip (\<lambda>x. x\<lparr>I_BUSY := True\<rparr>) s)) (\<lambda>s.
      if I_VALID (inodes s ip) then Done s
      else
        let x = inodes s ip in
        kbind (bread (idev x) (IBLOCK (inum x) (sb s)) s) (\<lambda>(bp, s).
        let s = upd_inode ip (of_dinode (get_dinode (data s bp) (unat (inum x mod IPB)))) s in
        kbind (brelse bp s) (\<lambda>s.
        let s = upd_inode ip (\<lambda>x. x\<lparr>I_VALID := True\<rparr>) s in
        kassert (itype (inodes s ip) \<noteq> 0) ''ilock: no type'' (Done s))))))"

definition iunlock :: "nat \<Rightarrow> kernel \<Rightarrow> kernel kresult" where
  "iunlock ip s =
     kassert (\<not> (\<not> I_BUSY (inodes s ip) \<or> iref (inodes s ip) < 1)) ''iunlock''
     (kbind (acquire Licache s) (\<lambda>s.
      kbind (wakeup (ChInode ip) (upd_inode ip (\<lambda>x. x\<lparr>I_BUSY := False\<rparr>) s)) (release Licache)))"

section \<open>Inode content\<close>

definition set_addr :: "nat \<Rightarrow> nat \<Rightarrow> u32 \<Rightarrow> kernel \<Rightarrow> kernel" where
  "set_addr ip k a = upd_inode ip (\<lambda>x. x\<lparr>addrs := (addrs x)[k := a]\<rparr>)"

text \<open>\<open>if((addr = ip->addrs[k]) == 0) ip->addrs[k] = addr = balloc(ip->dev)\<close>.\<close>

definition addr_or_alloc :: "nat \<Rightarrow> nat \<Rightarrow> u32 K" where
  "addr_or_alloc ip k s =
     (let a = addrs (inodes s ip) ! k in
      if a = 0 then kbind (balloc (idev (inodes s ip)) s) (\<lambda>(a, s). Done (a, set_addr ip k a s))
      else Done (a, s))"

definition bmap :: "nat \<Rightarrow> u32 \<Rightarrow> u32 K" where
  "bmap ip bn s =
     (if bn < of_nat NDIRECT then addr_or_alloc ip (unat bn) s
      else
        let k = bn - of_nat NDIRECT in
        if k < of_nat NINDIRECT then
          kbind (addr_or_alloc ip NDIRECT s) (\<lambda>(ind, s).
          kbind (bread (idev (inodes s ip)) ind s) (\<lambda>(bp, s).
          let a = get32 (data s bp) (4 * unat k) in
          if a = 0 then
            kbind (balloc (idev (inodes s ip)) s) (\<lambda>(a, s).
            kbind (log_release bp (set_data bp (put32 (data s bp) (4 * unat k) a) s)) (\<lambda>s.
            Done (a, s)))
          else kbind (brelse bp s) (\<lambda>s. Done (a, s))))
        else Panic ''bmap: out of range'')"

definition itrunc_direct :: "nat \<Rightarrow> nat \<Rightarrow> kernel \<Rightarrow> kernel kresult" where
  "itrunc_direct ip i s =
     (let a = addrs (inodes s ip) ! i in
      if a \<noteq> 0 then kbind (bfree (idev (inodes s ip)) a s) (\<lambda>s. Done (set_addr ip i 0 s)) else Done s)"

definition itrunc_indirect :: "nat \<Rightarrow> nat \<Rightarrow> nat \<Rightarrow> kernel \<Rightarrow> kernel kresult" where
  "itrunc_indirect ip bp j s =
     (let a = get32 (data s bp) (4 * j) in
      if a \<noteq> 0 then bfree (idev (inodes s ip)) a s else Done s)"

definition itrunc :: "nat \<Rightarrow> kernel \<Rightarrow> kernel kresult" where
  "itrunc ip s =
     kbind (kfold (itrunc_direct ip) [0..<NDIRECT] s) (\<lambda>s.
     kbind (let ind = addrs (inodes s ip) ! NDIRECT; dev = idev (inodes s ip) in
            if ind \<noteq> 0 then
              kbind (bread dev ind s) (\<lambda>(bp, s).
              kbind (kfold (itrunc_indirect ip bp) [0..<NINDIRECT] s) (\<lambda>s.
              kbind (brelse bp s) (\<lambda>s.
              kbind (bfree dev ind s) (\<lambda>s. Done (set_addr ip NDIRECT 0 s)))))
            else Done s) (\<lambda>s.
     iupdate ip (upd_inode ip (\<lambda>x. x\<lparr>isize := 0\<rparr>) s)))"

definition iput :: "nat \<Rightarrow> kernel \<Rightarrow> kernel kresult" where
  "iput ip s =
     kbind (acquire Licache s) (\<lambda>s.
     kbind (let x = inodes s ip in
            if iref x = 1 \<and> I_VALID x \<and> nlink x = 0 then
              kassert (\<not> I_BUSY x) ''iput busy''
              (kbind (release Licache (upd_inode ip (\<lambda>x. x\<lparr>I_BUSY := True\<rparr>) s)) (\<lambda>s.
               kbind (itrunc ip s) (\<lambda>s.
               kbind (iupdate ip (upd_inode ip (\<lambda>x. x\<lparr>itype := 0\<rparr>) s)) (\<lambda>s.
               kbind (acquire Licache s) (\<lambda>s.
               wakeup (ChInode ip) (upd_inode ip (\<lambda>x. x\<lparr>I_BUSY := False, I_VALID := False\<rparr>) s))))))
            else Done s) (\<lambda>s.
     release Licache (upd_inode ip (\<lambda>x. x\<lparr>iref := iref x - 1\<rparr>) s)))"

definition iunlockput :: "nat \<Rightarrow> kernel \<Rightarrow> kernel kresult" where
  "iunlockput ip s = kbind (iunlock ip s) (iput ip)"

record stat =
  st_type :: int
  st_dev :: u32
  st_ino :: u32
  st_nlink :: int
  st_size :: u32

definition stati :: "nat \<Rightarrow> kernel \<Rightarrow> stat" where
  "stati ip s = (let x = inodes s ip in
     \<lparr>st_type = itype x, st_dev = idev x, st_ino = inum x, st_nlink = nlink x, st_size = isize x\<rparr>)"

end
