(* ===== verification/Fs.thy ===== *)
theory Fs
  imports Inode Cstring
begin

text \<open>
  The upper layers of fs.c: file contents, directories and path names; and the console device of
  console.c, which \<open>readi\<close> and \<open>writei\<close> reach through the device switch. Buffers are passed by value: a
  read returns the bytes it stored at \<open>dst\<close>, a write is given the bytes at \<open>src\<close>. A C string is the list
  of its bytes without the terminating 0, and reading one past its end gives 0.
\<close>

section \<open>The console device\<close>

definition CONSOLE :: int where "CONSOLE = 1"

definition consoleread_end :: "nat \<Rightarrow> int \<Rightarrow> u8 list \<Rightarrow> ((int \<times> u8 list) call \<times> u8 list) K" where
  "consoleread_end ip r acc s =
     kbind (release Lcons s) (\<lambda>s. kbind (ilock ip s) (\<lambda>s. Done ((Ret (r, acc), acc), s)))"

text \<open>
  The loop of \<open>consoleread\<close>, with \<open>n\<close> bytes of \<open>target\<close> still to read and \<open>acc\<close> read so far. When it
  has to wait for input it sleeps with \<open>acc\<close>.
\<close>

fun consoleread_loop :: "nat \<Rightarrow> nat \<Rightarrow> nat \<Rightarrow> u8 list \<Rightarrow> ((int \<times> u8 list) call \<times> u8 list) K" where
  "consoleread_loop ip target 0 acc s = consoleread_end ip (int target) acc s"
| "consoleread_loop ip target (Suc n) acc s =
     (if in_r (cons s) = in_w (cons s) then
        (case curproc s of None \<Rightarrow> Fault | Some p \<Rightarrow>
           if killed (procs s p) \<noteq> 0 then consoleread_end ip (-1) acc s
           else kbind (sleep_enter ChInput Lcons s) (\<lambda>(i, s). Done ((Sleeps i, acc), s)))
      else
        let c = input_at (cons s) (in_r (cons s));
            s = upd_cons (\<lambda>x. x\<lparr>in_r := in_r x + 1\<rparr>) s
        in if c = 4 then
             consoleread_end ip (int target - int (Suc n)) acc
               (if Suc n < target then upd_cons (\<lambda>x. x\<lparr>in_r := in_r x - 1\<rparr>) s else s)
           else if c = 10 then consoleread_end ip (int target - int n) (acc @ [c]) s
           else consoleread_loop ip target n (acc @ [c]) s)"

definition consoleread_call :: "nat \<Rightarrow> int \<Rightarrow> ((int \<times> u8 list) call \<times> u8 list) K" where
  "consoleread_call ip n s =
     kbind (iunlock ip s) (\<lambda>s.
     kbind (acquire Lcons s) (consoleread_loop ip (nat n) (nat n) []))"

definition consoleread_resume :: "bool \<Rightarrow> nat \<Rightarrow> int \<Rightarrow> u8 list \<Rightarrow> ((int \<times> u8 list) call \<times> u8 list) K" where
  "consoleread_resume i ip n acc s =
     kbind (sleep_resume i Lcons s) (consoleread_loop ip (nat n) (nat n - length acc) acc)"

definition consoleread :: "nat \<Rightarrow> int \<Rightarrow> (int \<times> u8 list) K" where
  "consoleread ip n s =
     kbind (consoleread_call ip n s) (\<lambda>((c, _), s). case c of Ret x \<Rightarrow> Done (x, s) | Sleeps _ \<Rightarrow> Asleep)"

definition consolewrite :: "nat \<Rightarrow> u8 list \<Rightarrow> int \<Rightarrow> int K" where
  "consolewrite ip src n s =
     kbind (iunlock ip s) (\<lambda>s.
     kbind (acquire Lcons s) (\<lambda>s.
     kbind (kfold (\<lambda>b. consputc (uint b)) (take (nat n) src) s) (\<lambda>s.
     kbind (release Lcons s) (\<lambda>s.
     kbind (ilock ip s) (\<lambda>s. Done (n, s))))))"

text \<open>\<open>consoleinit\<close> also enables the keyboard interrupt in the interrupt controllers.\<close>

definition consoleinit :: "kernel \<Rightarrow> kernel" where
  "consoleinit s =
     (let s = initlock Lcons ''console'' s in
      upd_cons (\<lambda>x. x\<lparr>locking := True\<rparr>) (s\<lparr>devs := (devs s)(CONSOLE := \<lparr>dread = Some Fconsole, dwrite = Some Fconsole\<rparr>)\<rparr>))"

section \<open>Reading and writing files\<close>

definition umin :: "u32 \<Rightarrow> u32 \<Rightarrow> u32" where
  "umin a b = (if a < b then a else b)"

definition dev_ok :: "nat \<Rightarrow> kernel \<Rightarrow> bool" where
  "dev_ok ip s \<longleftrightarrow> \<not> (major (inodes s ip) < 0 \<or> major (inodes s ip) \<ge> NDEV)"

definition readi_body :: "nat \<Rightarrow> u32 \<Rightarrow> u32 \<times> u32 \<times> u8 list \<times> kernel \<Rightarrow> (u32 \<times> u32 \<times> u8 list \<times> kernel) kresult" where
  "readi_body ip n x =
     (case x of (tot, pos, dst, s) \<Rightarrow>
      let dev = idev (inodes s ip) in
      kbind (bmap ip (pos div of_nat BSIZE) s) (\<lambda>(a, s).
      kbind (bread dev a s) (\<lambda>(bp, s).
      let m = umin (n - tot) (of_nat BSIZE - pos mod of_nat BSIZE);
          dst = dst @ slice (data s bp) (unat (pos mod of_nat BSIZE)) (unat m)
      in kbind (brelse bp s) (\<lambda>s. Done (tot + m, pos + m, dst, s)))))"

definition readi :: "nat \<Rightarrow> u32 \<Rightarrow> u32 \<Rightarrow> (int \<times> u8 list) K" where
  "readi ip pos n s =
     (if itype (inodes s ip) = T_DEV then
        if \<not> dev_ok ip s then Done ((-1, []), s)
        else case dread (devs s (major (inodes s ip))) of
          None \<Rightarrow> Done ((-1, []), s)
        | Some Fconsole \<Rightarrow> consoleread ip (sint n) s
      else if pos > isize (inodes s ip) \<or> pos + n < pos then Done ((-1, []), s)
      else
        let n = (if pos + n > isize (inodes s ip) then isize (inodes s ip) - pos else n) in
        kbind (kwhile (\<lambda>(tot, _). tot < n) (readi_body ip n) (0, pos, [], s)) (\<lambda>(tot, pos, dst, s).
        Done ((sint n, dst), s)))"

definition writei_body :: "nat \<Rightarrow> u8 list \<Rightarrow> u32 \<Rightarrow> u32 \<times> u32 \<times> kernel \<Rightarrow> (u32 \<times> u32 \<times> kernel) kresult" where
  "writei_body ip src n x =
     (case x of (tot, pos, s) \<Rightarrow>
      let dev = idev (inodes s ip) in
      kbind (bmap ip (pos div of_nat BSIZE) s) (\<lambda>(a, s).
      kbind (bread dev a s) (\<lambda>(bp, s).
      let m = umin (n - tot) (of_nat BSIZE - pos mod of_nat BSIZE) in
      kbind (log_release bp (set_data bp
        (blit (data s bp) (unat (pos mod of_nat BSIZE)) (slice src (unat tot) (unat m))) s)) (\<lambda>s.
      Done (tot + m, pos + m, s)))))"

definition writei :: "nat \<Rightarrow> u8 list \<Rightarrow> u32 \<Rightarrow> u32 \<Rightarrow> int K" where
  "writei ip src pos n s =
     (if itype (inodes s ip) = T_DEV then
        if \<not> dev_ok ip s then Done (-1, s)
        else case dwrite (devs s (major (inodes s ip))) of
          None \<Rightarrow> Done (-1, s)
        | Some Fconsole \<Rightarrow> consolewrite ip src (sint n) s
      else if pos > isize (inodes s ip) \<or> pos + n < pos then Done (-1, s)
      else if pos + n > of_nat (MAXFILE * BSIZE) then Done (-1, s)
      else
        kbind (kwhile (\<lambda>(tot, _). tot < n) (writei_body ip src n) (0, pos, s)) (\<lambda>(tot, pos, s).
        kbind (if n > 0 \<and> pos > isize (inodes s ip)
               then iupdate ip (upd_inode ip (\<lambda>x. x\<lparr>isize := pos\<rparr>) s) else Done s) (\<lambda>s.
        Done (sint n, s))))"

section \<open>Directories\<close>

text \<open>\<open>strncmp\<close> and \<open>strncpy\<close> of string.c on strings as byte lists.\<close>

fun lstrncmp :: "nat \<Rightarrow> u8 list \<Rightarrow> u8 list \<Rightarrow> int" where
  "lstrncmp 0 p q = 0"
| "lstrncmp (Suc n) p q =
     (let a = (case p of [] \<Rightarrow> 0 | x # _ \<Rightarrow> x); b = (case q of [] \<Rightarrow> 0 | x # _ \<Rightarrow> x) in
      if a \<noteq> 0 \<and> a = b then lstrncmp n (tl p) (tl q) else uint a - uint b)"

definition lstrncpy :: "nat \<Rightarrow> u8 list \<Rightarrow> u8 list" where
  "lstrncpy n p = (let q = take n (takeWhile (\<lambda>b. b \<noteq> 0) p) in q @ replicate (n - length q) 0)"

definition namecmp :: "u8 list \<Rightarrow> u8 list \<Rightarrow> int" where
  "namecmp p q = lstrncmp DIRSIZ p q"

definition read_dirent :: "nat \<Rightarrow> u32 \<Rightarrow> dirent K" where
  "read_dirent dp pos s =
     kbind (readi dp pos 16 s) (\<lambda>((r, bs), s).
     kassert (r = 16) ''dirlink read'' (Done (dec_dirent bs, s)))"

definition dirlookup :: "nat \<Rightarrow> u8 list \<Rightarrow> (nat \<times> u32) option K" where
  "dirlookup dp name s =
     kassert (itype (inodes s dp) = T_DIR) ''dirlookup not DIR''
     (kbind (kloop (\<lambda>(pos, s). pos < isize (inodes s dp))
        (\<lambda>(pos, s).
           kbind (read_dirent dp pos s) (\<lambda>(de, s).
           if de_inum de \<noteq> 0 \<and> namecmp name (de_name de) = 0 then
             kbind (iget (idev (inodes s dp)) (ucast (de_inum de)) s) (\<lambda>(ip, s). Done (Inr (Some (ip, pos), s)))
           else Done (Inl (pos + 16, s))))
        (0, s))
      (\<lambda>r. case r of Inr x \<Rightarrow> Done x | Inl (_, s) \<Rightarrow> Done (None, s)))"

definition find_slot :: "nat \<Rightarrow> u32 K" where
  "find_slot dp s =
     kbind (kloop (\<lambda>(pos, s). pos < isize (inodes s dp))
        (\<lambda>(pos, s).
           kbind (read_dirent dp pos s) (\<lambda>(de, s).
           if de_inum de = 0 then Done (Inr (pos, s)) else Done (Inl (pos + 16, s))))
        (0, s))
      (case_sum Done Done)"

definition dirlink :: "nat \<Rightarrow> u8 list \<Rightarrow> u32 \<Rightarrow> int K" where
  "dirlink dp name i s =
     kbind (dirlookup dp name s) (\<lambda>(r, s). case r of
       Some (ip, _) \<Rightarrow> kbind (iput ip s) (\<lambda>s. Done (-1, s))
     | None \<Rightarrow>
         kbind (find_slot dp s) (\<lambda>(pos, s).
         kbind (writei dp (enc_dirent \<lparr>de_inum = ucast i, de_name = lstrncpy DIRSIZ name\<rparr>) pos 16 s) (\<lambda>(r, s).
         kassert (r = 16) ''dirlink'' (Done (0, s)))))"

section \<open>Path names\<close>

definition SLASH :: u8 where "SLASH = 47"

definition skip_slashes :: "u8 list \<Rightarrow> u8 list" where
  "skip_slashes p = dropWhile (\<lambda>b. b = SLASH) p"

text \<open>\<open>skipelem\<close> returns the rest of the path and the name (its first \<open>DIRSIZ\<close> bytes at most).\<close>

definition skipelem :: "u8 list \<Rightarrow> (u8 list \<times> u8 list) option" where
  "skipelem path =
     (let p = skip_slashes path in
      if p = [] then None
      else
        let e = takeWhile (\<lambda>b. b \<noteq> SLASH) p; p = dropWhile (\<lambda>b. b \<noteq> SLASH) p
        in Some (skip_slashes p, take DIRSIZ e))"

lemma skipelem_length: "skipelem p = Some (q, e) \<Longrightarrow> length q < length p"
proof -
  assume "skipelem p = Some (q, e)"
  then have ne: "skip_slashes p \<noteq> []" and q: "q = skip_slashes (dropWhile (\<lambda>b. b \<noteq> SLASH) (skip_slashes p))"
    by (auto simp: skipelem_def Let_def split: if_splits)
  obtain x xs where x: "skip_slashes p = x # xs" "x \<noteq> SLASH"
    using ne hd_dropWhile [of "\<lambda>b. b = SLASH" p] by (cases "skip_slashes p") (auto simp: skip_slashes_def)
  have "length q \<le> length xs"
    using x by (simp add: q skip_slashes_def) (meson le_trans length_dropWhile_le)
  also have "length xs < length (skip_slashes p)" using x by simp
  also have "length (skip_slashes p) \<le> length p" by (simp add: skip_slashes_def length_dropWhile_le)
  finally show ?thesis .
qed

text \<open>The loop of \<open>namex\<close>; \<open>parent\<close> asks for the directory that holds the last element, whose name is returned too.\<close>

function namex_loop :: "u8 list \<Rightarrow> bool \<Rightarrow> u8 list \<Rightarrow> nat \<Rightarrow> (nat option \<times> u8 list) K" where
  "namex_loop path par name ip s =
     (case skipelem path of
        None \<Rightarrow> if par then kbind (iput ip s) (\<lambda>s. Done ((None, name), s)) else Done ((Some ip, name), s)
      | Some (rest, name) \<Rightarrow>
          kbind (ilock ip s) (\<lambda>s.
          if itype (inodes s ip) \<noteq> T_DIR then kbind (iunlockput ip s) (\<lambda>s. Done ((None, name), s))
          else if par \<and> rest = [] then kbind (iunlock ip s) (\<lambda>s. Done ((Some ip, name), s))
          else
            kbind (dirlookup ip name s) (\<lambda>(r, s). case r of
              None \<Rightarrow> kbind (iunlockput ip s) (\<lambda>s. Done ((None, name), s))
            | Some (child, _) \<Rightarrow> kbind (iunlockput ip s) (\<lambda>s. namex_loop rest par name child s))))"
  by pat_completeness auto
termination
  by (relation "measure (\<lambda>(path, _). length path)") (auto dest: skipelem_length)

declare namex_loop.simps [simp del]

definition namex :: "u8 list \<Rightarrow> bool \<Rightarrow> (nat option \<times> u8 list) K" where
  "namex path par s =
     kbind (if path \<noteq> [] \<and> hd path = SLASH then iget ROOTDEV ROOTINO s
            else case curproc s of
              None \<Rightarrow> Fault
            | Some p \<Rightarrow> case cwd (procs s p) of None \<Rightarrow> Fault | Some ip \<Rightarrow> idup ip s)
       (\<lambda>(ip, s). namex_loop path par [] ip s)"

definition namei :: "u8 list \<Rightarrow> nat option K" where
  "namei path s = kbind (namex path False s) (\<lambda>((r, _), s). Done (r, s))"

definition nameiparent :: "u8 list \<Rightarrow> (nat option \<times> u8 list) K" where
  "nameiparent path s = namex path True s"

end
