(* ===== verification/Pipe.thy ===== *)
theory Pipe
  imports Sched_Correct Fifo
begin

text \<open>
  pipe.c without pipealloc (which needs the file table). The user buffer of a write is the list of
  bytes still to be written; a read returns the bytes it copied. Both can sleep in the middle: the
  \<open>_resume\<close> functions continue when the process is woken, with what is left of the buffer.
\<close>

section \<open>Operations\<close>

definition upd_pipe :: "u32 \<Rightarrow> (pipe \<Rightarrow> pipe) \<Rightarrow> kernel \<Rightarrow> kernel" where
  "upd_pipe p f s = s\<lparr>pipes := (pipes s)(p := f (pipes s p))\<rparr>"

text \<open>\<open>p->data[p->nwrite++ % PIPESIZE] = b\<close> and \<open>p->data[p->nread++ % PIPESIZE]\<close>.\<close>

definition pipe_put :: "u8 \<Rightarrow> pipe \<Rightarrow> pipe" where
  "pipe_put b q = q\<lparr>pdata := (pdata q)[unat (nwrite q mod PIPESIZE) := b], nwrite := nwrite q + 1\<rparr>"

definition pipe_get :: "pipe \<Rightarrow> u8 \<times> pipe" where
  "pipe_get q = (pdata q ! unat (nread q mod PIPESIZE), q\<lparr>nread := nread q + 1\<rparr>)"

definition pipe_full :: "pipe \<Rightarrow> bool" where
  "pipe_full q \<longleftrightarrow> nwrite q = nread q + PIPESIZE"

definition pipe_empty :: "pipe \<Rightarrow> bool" where
  "pipe_empty q \<longleftrightarrow> nread q = nwrite q"

definition proc_killed :: "kernel \<Rightarrow> bool kresult" where
  "proc_killed s = (case curproc s of None \<Rightarrow> Fault | Some c \<Rightarrow> Done (killed (procs s c) \<noteq> 0))"

primrec pipewrite_loop :: "u32 \<Rightarrow> int \<Rightarrow> u8 list \<Rightarrow> (int call \<times> u8 list) K" where
  "pipewrite_loop p n [] s =
     kbind (wakeup (ChPipeRead p) s) (\<lambda>s.
     kbind (release (Lpipe p) s) (\<lambda>s. Done ((Ret n, []), s)))"
| "pipewrite_loop p n (b # bs) s =
     (if pipe_full (pipes s p) then
        kbind (if readopen (pipes s p) then proc_killed s else Done True) (\<lambda>quit.
        if quit then kbind (release (Lpipe p) s) (\<lambda>s. Done ((Ret (-1), b # bs), s))
        else kbind (wakeup (ChPipeRead p) s) (\<lambda>s.
             kbind (sleep_enter (ChPipeWrite p) (Lpipe p) s) (\<lambda>(i, s).
             Done ((Sleeps i, b # bs), s))))
      else pipewrite_loop p n bs (upd_pipe p (pipe_put b) s))"

definition pipewrite :: "u32 \<Rightarrow> u8 list \<Rightarrow> int \<Rightarrow> (int call \<times> u8 list) K" where
  "pipewrite p addr n s = kbind (acquire (Lpipe p) s) (pipewrite_loop p n (take (nat n) addr))"

definition pipewrite_resume :: "bool \<Rightarrow> u32 \<Rightarrow> int \<Rightarrow> u8 list \<Rightarrow> (int call \<times> u8 list) K" where
  "pipewrite_resume i p n bs s = kbind (sleep_resume i (Lpipe p) s) (pipewrite_loop p n bs)"

primrec piperead_copy :: "nat \<Rightarrow> pipe \<Rightarrow> u8 list \<times> pipe" where
  "piperead_copy 0 q = ([], q)"
| "piperead_copy (Suc n) q =
     (if pipe_empty q then ([], q)
      else let (b, q) = pipe_get q; (bs, q) = piperead_copy n q in (b # bs, q))"

definition piperead_body :: "u32 \<Rightarrow> int \<Rightarrow> (int \<times> u8 list) call K" where
  "piperead_body p n s =
     (if pipe_empty (pipes s p) \<and> writeopen (pipes s p) then
        kbind (proc_killed s) (\<lambda>k.
        if k then kbind (release (Lpipe p) s) (\<lambda>s. Done (Ret (-1, []), s))
        else kbind (sleep_enter (ChPipeRead p) (Lpipe p) s) (\<lambda>(i, s). Done (Sleeps i, s)))
      else
        let (bs, q) = piperead_copy (nat n) (pipes s p);
            s = upd_pipe p (\<lambda>_. q) s
        in kbind (wakeup (ChPipeWrite p) s) (\<lambda>s.
           kbind (release (Lpipe p) s) (\<lambda>s. Done (Ret (int (length bs), bs), s))))"

definition piperead :: "u32 \<Rightarrow> int \<Rightarrow> (int \<times> u8 list) call K" where
  "piperead p n s = kbind (acquire (Lpipe p) s) (piperead_body p n)"

definition piperead_resume :: "bool \<Rightarrow> u32 \<Rightarrow> int \<Rightarrow> (int \<times> u8 list) call K" where
  "piperead_resume i p n s = kbind (sleep_resume i (Lpipe p) s) (piperead_body p n)"

definition pipeclose :: "u32 \<Rightarrow> bool \<Rightarrow> kernel \<Rightarrow> kernel kresult" where
  "pipeclose p wr s =
     kbind (acquire (Lpipe p) s) (\<lambda>s.
     kbind (if wr then wakeup (ChPipeRead p) (upd_pipe p (\<lambda>q. q\<lparr>writeopen := False\<rparr>) s)
            else wakeup (ChPipeWrite p) (upd_pipe p (\<lambda>q. q\<lparr>readopen := False\<rparr>) s)) (\<lambda>s.
     if \<not> readopen (pipes s p) \<and> \<not> writeopen (pipes s p)
     then kbind (release (Lpipe p) s) (kfree p)
     else release (Lpipe p) s))"

section \<open>The ring buffer is a queue\<close>

text \<open>
  \<open>pipe_rep q xs\<close>: the pipe holds the bytes \<open>xs\<close>, oldest first. The counters are free-running 32-bit
  words, so the difference of the two is taken modulo \<open>2 ^ 32\<close>.
\<close>

definition pipe_rep :: "pipe \<Rightarrow> u8 list \<Rightarrow> bool" where
  "pipe_rep q xs \<longleftrightarrow> length (pdata q) = 512 \<and> length xs \<le> 512 \<and> nwrite q = nread q + of_nat (length xs)
     \<and> (\<forall>i<length xs. pdata q ! ((unat (nread q) + i) mod 512) = xs ! i)"

definition pipe_room :: "u8 list \<Rightarrow> u8 \<Rightarrow> bool" where
  "pipe_room xs b \<longleftrightarrow> length xs < 512"

lemma slot_index: "unat ((w + of_nat i :: u32) mod PIPESIZE) = (unat w + i) mod 512"
  using ring_index [of 512 w i] by (simp add: PIPESIZE_def unat_mod)

lemma pipe_full_iff: "pipe_rep q xs \<Longrightarrow> pipe_full q \<longleftrightarrow> length xs = 512"
  using of_nat_u32_eq [of "length xs" 512] by (auto simp: pipe_full_def pipe_rep_def PIPESIZE_def)

lemma pipe_empty_iff: "pipe_rep q xs \<Longrightarrow> pipe_empty q \<longleftrightarrow> xs = []"
  using of_nat_u32_eq [of "length xs" 0] by (auto simp: pipe_empty_def pipe_rep_def)

lemma pipe_put_rep:
  assumes "pipe_rep q xs" and "length xs < 512"
  shows "pipe_rep (pipe_put b q) (xs @ [b])"
proof -
  let ?a = "unat (nread q)"
  have w: "unat (nwrite q mod PIPESIZE) = (?a + length xs) mod 512"
    using assms(1) slot_index [of "nread q" "length xs"] by (simp add: pipe_rep_def)
  have "(pdata q)[(?a + length xs) mod 512 := b] ! ((?a + i) mod 512) = (xs @ [b]) ! i" if "i < Suc (length xs)" for i
    using that assms ring_distinct [of i "length xs" 512 ?a]
    by (cases "i = length xs") (auto simp: pipe_rep_def nth_append)
  then show ?thesis using assms w by (simp add: pipe_rep_def pipe_put_def)
qed

lemma pipe_get_rep:
  assumes "pipe_rep q (x # xs)"
  shows "\<exists>q'. pipe_get q = (x, q') \<and> pipe_rep q' xs"
proof -
  have "(\<forall>i<length xs. pdata q ! ((unat (nread q + 1) + i) mod 512) = xs ! i)"
  proof (intro allI impI)
    fix i assume i: "i < length xs"
    have "unat (nread q + 1) mod 512 = (unat (nread q) + 1) mod 512"
      using slot_index [of "nread q" 1] by (simp add: PIPESIZE_def unat_mod)
    then have "(unat (nread q + 1) + i) mod 512 = (unat (nread q) + Suc i) mod 512"
      by (metis (no_types, opaque_lifting) add.assoc mod_add_left_eq plus_1_eq_Suc)
    then show "pdata q ! ((unat (nread q + 1) + i) mod 512) = xs ! i"
      using assms i by (auto simp: pipe_rep_def)
  qed
  moreover have "pdata q ! unat (nread q mod PIPESIZE) = x"
    using assms slot_index [of "nread q" 0] by (auto simp: pipe_rep_def)
  ultimately show ?thesis using assms by (auto simp: pipe_rep_def pipe_get_def add.assoc)
qed

interpretation ring: fifo_queue pipe_rep pipe_room
  "\<lambda>b q. if pipe_full q then Spin else Done (pipe_put b q)"
  "\<lambda>q. if pipe_empty q then Spin else Done (pipe_get q)"
proof unfold_locales
  fix q xs b assume "pipe_rep q xs" "pipe_room xs b"
  then show "\<exists>q'. (if pipe_full q then Spin else Done (pipe_put b q)) = Done q' \<and> pipe_rep q' (xs @ [b])"
    using pipe_full_iff pipe_put_rep by (auto simp: pipe_room_def)
next
  fix q x xs assume "pipe_rep q (x # xs)"
  then show "\<exists>q'. (if pipe_empty q then Spin else Done (pipe_get q)) = Done (x, q') \<and> pipe_rep q' xs"
    using pipe_empty_iff pipe_get_rep by (metis list.distinct(1))
qed

section \<open>Writing and reading\<close>

lemma piperead_copy_rep:
  "pipe_rep q xs \<Longrightarrow> \<exists>q'. piperead_copy n q = (take n xs, q') \<and> pipe_rep q' (drop n xs) \<and> readopen q' = readopen q \<and> writeopen q' = writeopen q"
proof (induction n arbitrary: q xs)
  case (Suc n)
  show ?case
  proof (cases xs)
    case Nil
    then show ?thesis using Suc.prems by (simp add: pipe_empty_iff)
  next
    case (Cons x ys)
    obtain q' where g: "pipe_get q = (x, q')" "pipe_rep q' ys" using pipe_get_rep Suc.prems Cons by blast
    have "readopen q' = readopen q" "writeopen q' = writeopen q" using g(1) by (auto simp: pipe_get_def)
    then show ?thesis using Suc g Cons pipe_empty_iff [OF Suc.prems] Suc.IH [OF g(2)] by auto
  qed
qed simp

text \<open>Writing what fits: the bytes are appended and the readers are woken.\<close>

definition pipe_set :: "u32 \<Rightarrow> pipe \<Rightarrow> kernel \<Rightarrow> kernel" where
  "pipe_set p q s = s\<lparr>pipes := (pipes s)(p := q)\<rparr>"

lemma upd_pipe_set: "upd_pipe p f s = pipe_set p (f (pipes s p)) s"
  by (simp add: upd_pipe_def pipe_set_def)

lemma pipe_set_simps [simp]:
  "pipes (pipe_set p q s) = (pipes s)(p := q)" "pipe_set p q (enter lk P r) = enter lk P (pipe_set p q r)"
  "pipe_set p q (pipe_set p q' s) = pipe_set p q s" "locks (pipe_set p q s) = locks s"
  "cli_ok (pipe_set p q s) = cli_ok s" "crit_ok lk P (pipe_set p q s) = crit_ok lk P s"
  "procs (pipe_set p q s) = procs s" "pipe_set p (pipes s p) s = s"
  "dbg lk (pipe_set p q s) = pipe_set p q (dbg lk s)" "(pipe_set p q s)\<lparr>procs := ps\<rparr> = pipe_set p q (s\<lparr>procs := ps\<rparr>)"
  by (simp_all add: pipe_set_def dbg_def)

lemma pipewrite_loop_prefix:
  assumes "pipe_rep (pipes r p) xs" and "length xs + length bs \<le> 512"
  shows "\<exists>q. pipe_rep q (xs @ bs) \<and> readopen q = readopen (pipes r p) \<and> writeopen q = writeopen (pipes r p)
    \<and> (\<forall>rest. pipewrite_loop p n (bs @ rest) (enter (Lpipe p) P r)
         = pipewrite_loop p n rest (enter (Lpipe p) P (pipe_set p q r)))"
  using assms
proof (induction bs arbitrary: r xs)
  case Nil
  then show ?case by (intro exI [of _ "pipes r p"]) simp
next
  case (Cons b bs)
  have "\<not> pipe_full (pipes r p)" using Cons.prems by (simp add: pipe_full_iff)
  moreover have "pipe_rep (pipe_put b (pipes r p)) (xs @ [b])" using Cons.prems by (intro pipe_put_rep) auto
  moreover have "readopen (pipe_put b q) = readopen q" "writeopen (pipe_put b q) = writeopen q" for q
    by (simp_all add: pipe_put_def)
  ultimately show ?case
    using Cons.prems Cons.IH [of "pipe_set p (pipe_put b (pipes r p)) r" "xs @ [b]"] by (auto simp: upd_pipe_set)
qed

lemma pipewrite_loop_fits:
  assumes "cli_ok r" and "locked (locks r Lptable) = 0" and "crit_ok (Lpipe p) P r"
    and "pipe_rep (pipes r p) xs" and "length xs + length bs \<le> 512"
  shows "\<exists>q. pipewrite_loop p n bs (enter (Lpipe p) P r) = Done ((Ret n, []),
      pipe_set p q ((dbg Lptable r)\<lparr>procs := wake_all (ChPipeRead p) (procs r)\<rparr>))
    \<and> pipe_rep q (xs @ bs) \<and> readopen q = readopen (pipes r p) \<and> writeopen q = writeopen (pipes r p)"
proof -
  obtain q where q: "pipe_rep q (xs @ bs)" "readopen q = readopen (pipes r p)" "writeopen q = writeopen (pipes r p)"
    "\<And>rest. pipewrite_loop p n (bs @ rest) (enter (Lpipe p) P r)
       = pipewrite_loop p n rest (enter (Lpipe p) P (pipe_set p q r))"
    using pipewrite_loop_prefix [OF assms(4,5)] by blast
  have "pipewrite_loop p n bs (enter (Lpipe p) P r) = Done ((Ret n, []),
      (dbg Lptable (pipe_set p q r))\<lparr>procs := wake_all (ChPipeRead p) (procs r)\<rparr>)"
    using assms q(4) [of "[]"] by (simp add: wakeup_enter release_enter crit_ok_dbg)
  then show ?thesis using q by (intro exI [of _ q]) simp
qed

lemma pipewrite_fits:
  assumes "cli_ok s" and "locked (locks s Lptable) = 0" and "locked (locks s (Lpipe p)) = 0"
    and "pipe_rep (pipes s p) xs" and "length xs + nat n \<le> 512" and "nat n \<le> length bs"
  shows "\<exists>q. pipewrite p bs n s = Done ((Ret n, []),
      pipe_set p q ((dbg Lptable (crit (Lpipe p) s))\<lparr>procs := wake_all (ChPipeRead p) (procs s)\<rparr>))
    \<and> pipe_rep q (xs @ take (nat n) bs) \<and> readopen q = readopen (pipes s p) \<and> writeopen q = writeopen (pipes s p)"
  using assms pipewrite_loop_fits [of "crit (Lpipe p) s" p "callers s" xs "take (nat n) bs" n]
  by (simp add: pipewrite_def acquire_enter crit_locked crit_ok_crit)

lemma piperead_data:
  assumes "cli_ok s" and "locked (locks s Lptable) = 0" and "locked (locks s (Lpipe p)) = 0"
    and "pipe_rep (pipes s p) xs" and "xs \<noteq> [] \<or> \<not> writeopen (pipes s p)"
  shows "\<exists>q. piperead p n s = Done (Ret (int (length (take (nat n) xs)), take (nat n) xs),
      pipe_set p q ((dbg Lptable (crit (Lpipe p) s))\<lparr>procs := wake_all (ChPipeWrite p) (procs s)\<rparr>))
    \<and> pipe_rep q (drop (nat n) xs) \<and> readopen q = readopen (pipes s p) \<and> writeopen q = writeopen (pipes s p)"
proof -
  obtain q where q: "piperead_copy (nat n) (pipes s p) = (take (nat n) xs, q)" "pipe_rep q (drop (nat n) xs)"
    "readopen q = readopen (pipes s p)" "writeopen q = writeopen (pipes s p)"
    using piperead_copy_rep [OF assms(4)] by blast
  have "\<not> (pipe_empty (pipes s p) \<and> writeopen (pipes s p))" using assms(4,5) by (auto simp: pipe_empty_iff)
  then have "piperead p n s = Done (Ret (int (length (take (nat n) xs)), take (nat n) xs),
      (dbg Lptable (pipe_set p q (crit (Lpipe p) s)))\<lparr>procs := wake_all (ChPipeWrite p) (procs s)\<rparr>)"
    using assms q(1) by (simp add: piperead_def piperead_body_def acquire_enter crit_locked upd_pipe_set
        wakeup_enter release_enter crit_ok_dbg crit_ok_crit)
  then show ?thesis using q by (intro exI [of _ q]) simp
qed

text \<open>
  Writing more than fits: the pipe is filled up, the readers are woken, and the writer sleeps on
  the write channel with the rest of its buffer.
\<close>

lemma wake_all_other: "pchan (ps c) \<noteq> Some ch \<Longrightarrow> wake_all ch ps c = ps c"
  by (simp add: wake_all_def woken_def)

lemma pipewrite_blocks:
  assumes "cli_ok s" and "ncli (cpus s (me s)) = 0" and "locked (locks s Lptable) = 0" and "locked (locks s (Lpipe p)) = 0"
    and "curproc s = Some w" and "killed (procs s w) = 0" and "readopen (pipes s p)"
    and "pipe_rep (pipes s p) xs" and "nat n \<le> length bs" and "length xs + nat n > 512"
  defines "k \<equiv> 512 - length xs"
  shows "\<exists>q i t. pipewrite p bs n s = Done ((Sleeps i, drop k (take (nat n) bs)), t)
    \<and> pipe_rep q (xs @ take k bs) \<and> readopen q \<and> writeopen q = writeopen (pipes s p) \<and> pipes t = (pipes s)(p := q)
    \<and> procs t = (let ps = wake_all (ChPipeRead p) (procs s) in ps(w := (ps w)\<lparr>pchan := Some (ChPipeWrite p), state := SLEEPING\<rparr>))
    \<and> holding Lptable t \<and> locked (locks t (Lpipe p)) = 0"
proof -
  let ?r = "crit (Lpipe p) s" and ?bs = "take k (take (nat n) bs)" and ?rest = "drop k (take (nat n) bs)"
  have len: "length xs \<le> 512" "k < nat n" "k \<le> length bs" using assms(8-10) by (auto simp: pipe_rep_def k_def)
  have cut: "?bs @ ?rest = take (nat n) bs" "length xs + length ?bs = 512" "?bs = take k bs" "?rest \<noteq> []"
    using len assms(9) append_take_drop_id [of k "take (nat n) bs"] by (simp_all add: k_def)
  obtain q where q: "pipe_rep q (xs @ ?bs)" "readopen q = readopen (pipes s p)" "writeopen q = writeopen (pipes s p)"
    "\<And>rest. pipewrite_loop p n (?bs @ rest) (enter (Lpipe p) (callers s) ?r)
       = pipewrite_loop p n rest (enter (Lpipe p) (callers s) (pipe_set p q ?r))"
    using pipewrite_loop_prefix [of ?r p xs ?bs n "callers s"] assms(8) cut by auto
  obtain b rest where rest: "?rest = b # rest" using cut(4) by (cases ?rest) auto
  let ?u = "(dbg Lptable (pipe_set p q ?r))\<lparr>procs := wake_all (ChPipeRead p) (procs s)\<rparr>"
  let ?t = "enter Lptable (callers s) ((dbg Lptable ?u)\<lparr>procs := (procs ?u)(w := (procs ?u w)\<lparr>pchan := Some (ChPipeWrite p), state := SLEEPING\<rparr>)\<rparr>)"
  have full: "pipe_full q" using q(1) cut by (simp add: pipe_full_iff)
  have kil: "proc_killed (enter (Lpipe p) (callers s) (pipe_set p q ?r)) = Done False"
    using assms by (simp add: proc_killed_def pipe_set_def)
  have "sleep_enter (ChPipeWrite p) (Lpipe p) (enter (Lpipe p) (callers s) ?u) = Done (intena (cpus ?u (me ?u)), ?t)"
    using assms sleep_enter_section [of ?u "Lpipe p" "callers s" w "ChPipeWrite p"]
    by (simp add: lock_words crit_ok_dbg crit_ok_crit) (simp add: pipe_set_def)
  moreover have "pipewrite p bs n s = pipewrite_loop p n (?bs @ ?rest) (enter (Lpipe p) (callers s) ?r)"
    using assms cut by (simp add: pipewrite_def acquire_enter)
  ultimately have "pipewrite p bs n s = Done ((Sleeps (intena (cpus ?u (me ?u))), ?rest), ?t)"
    using assms(1-7) q(2,4) full kil unfolding rest by (simp add: wakeup_enter crit_locked)
  moreover have "holding Lptable ?t" "locked (locks ?t (Lpipe p)) = 0" "pipes ?t = (pipes s)(p := q)"
    using assms by (simp_all add: holding_def lock_words) (simp_all add: enter_def pipe_set_def)
  ultimately show ?thesis using q assms(7) cut by (intro exI [of _ q] exI conjI) (auto simp: Let_def)
qed

text \<open>The last end closed gives the page of the pipe back; an end closed earlier wakes the other side.\<close>

lemma pipeclose_enter:
  fixes s p wr
  assumes "cli_ok s" and "locked (locks s Lptable) = 0" and "locked (locks s (Lpipe p)) = 0"
  defines "q \<equiv> (pipes s p)\<lparr>readopen := readopen (pipes s p) \<and> wr, writeopen := writeopen (pipes s p) \<and> \<not> wr\<rparr>"
    and "ch \<equiv> if wr then ChPipeRead p else ChPipeWrite p"
  shows "pipeclose p wr s = (let t = pipe_set p q ((dbg Lptable (crit (Lpipe p) s))\<lparr>procs := wake_all ch (procs s)\<rparr>)
    in if readopen q \<or> writeopen q then Done t else kfree p t)"
proof -
  have "upd_pipe p (\<lambda>q. q\<lparr>writeopen := False\<rparr>) r = pipe_set p q r" if "wr" "pipes r p = pipes s p" for r
    using that by (simp add: upd_pipe_set q_def)
  moreover have "upd_pipe p (\<lambda>q. q\<lparr>readopen := False\<rparr>) r = pipe_set p q r" if "\<not> wr" "pipes r p = pipes s p" for r
    using that by (simp add: upd_pipe_set q_def)
  ultimately show ?thesis
    using assms by (cases wr) (simp_all add: pipeclose_def acquire_enter crit_locked wakeup_enter release_enter
        crit_ok_dbg crit_ok_crit Let_def)
qed

end
