(* ===== verification/File.thy ===== *)
theory File
  imports Fs Pipe
begin

text \<open>
  Open files (file.c), \<open>pipealloc\<close> of pipe.c, and process creation and exit (proc.c), which work on them.
  A file is an index into \<open>ftable.file\<close>.
\<close>

section \<open>The file table\<close>

definition upd_file :: "nat \<Rightarrow> (kfile \<Rightarrow> kfile) \<Rightarrow> kernel \<Rightarrow> kernel" where
  "upd_file f g s = s\<lparr>files := (files s)(f := g (files s f))\<rparr>"

text \<open>A call that goes to sleep ends in \<open>Asleep\<close> where its continuation is not modelled.\<close>

definition awake :: "('a call \<times> kernel) kresult \<Rightarrow> ('a \<times> kernel) kresult" where
  "awake m = kbind m (\<lambda>(c, s). case c of Ret x \<Rightarrow> Done (x, s) | Sleeps _ \<Rightarrow> Asleep)"

definition fileinit :: "kernel \<Rightarrow> kernel" where
  "fileinit s = initlock Lftable ''ftable'' s"

definition filealloc :: "nat option K" where
  "filealloc s =
     kbind (acquire Lftable s) (\<lambda>s.
     case List.find (\<lambda>f. fref (files s f) = 0) [0..<NFILE] of
       Some f \<Rightarrow> kbind (release Lftable (upd_file f (\<lambda>x. x\<lparr>fref := 1\<rparr>) s)) (\<lambda>s. Done (Some f, s))
     | None \<Rightarrow> kbind (release Lftable s) (\<lambda>s. Done (None, s)))"

definition filedup :: "nat \<Rightarrow> nat K" where
  "filedup f s =
     kbind (acquire Lftable s) (\<lambda>s.
     kassert (\<not> fref (files s f) < 1) ''filedup''
     (kbind (release Lftable (upd_file f (\<lambda>x. x\<lparr>fref := fref x + 1\<rparr>) s)) (\<lambda>s. Done (f, s))))"

definition fileclose :: "nat \<Rightarrow> kernel \<Rightarrow> kernel kresult" where
  "fileclose f s =
     kbind (acquire Lftable s) (\<lambda>s.
     kassert (\<not> fref (files s f) < 1) ''fileclose''
     (let s = upd_file f (\<lambda>x. x\<lparr>fref := fref x - 1\<rparr>) s in
      if fref (files s f) > 0 then release Lftable s
      else
        let ff = files s f in
        kbind (release Lftable (upd_file f (\<lambda>x. x\<lparr>fref := 0, ftype := FD_NONE\<rparr>) s)) (\<lambda>s.
        case ftype ff of
          FD_PIPE \<Rightarrow> pipeclose (fpipe ff) (writable ff) s
        | FD_INODE \<Rightarrow>
            kbind (begin_op s) (\<lambda>s.
            case fip ff of None \<Rightarrow> Fault | Some ip \<Rightarrow> kbind (iput ip s) end_op)
        | FD_NONE \<Rightarrow> Done s)))"

definition filestat :: "nat \<Rightarrow> (int \<times> stat option) K" where
  "filestat f s =
     (if ftype (files s f) = FD_INODE then
        case fip (files s f) of None \<Rightarrow> Panic ''ilock'' | Some ip \<Rightarrow>
          kbind (ilock ip s) (\<lambda>s.
          let x = stati ip s in
          kbind (iunlock ip s) (\<lambda>s. Done ((0, Some x), s)))
      else Done ((-1, None), s))"

definition fileread :: "nat \<Rightarrow> int \<Rightarrow> (int \<times> u8 list) K" where
  "fileread f n s =
     (if \<not> readable (files s f) then Done ((-1, []), s)
      else case ftype (files s f) of
        FD_PIPE \<Rightarrow> awake (piperead (fpipe (files s f)) n s)
      | FD_INODE \<Rightarrow>
         (case fip (files s f) of None \<Rightarrow> Panic ''ilock'' | Some ip \<Rightarrow>
            kbind (ilock ip s) (\<lambda>s.
            kbind (readi ip (foff (files s f)) (of_int n) s) (\<lambda>((r, bs), s).
            let s = (if r > 0 then upd_file f (\<lambda>x. x\<lparr>foff := foff x + of_int r\<rparr>) s else s) in
            kbind (iunlock ip s) (\<lambda>s. Done ((r, bs), s)))))
      | FD_NONE \<Rightarrow> Panic ''fileread'')"

definition filewrite_max :: int where
  "filewrite_max = ((LOGSIZE - 1 - 1 - 2) div 2) * 512"

text \<open>One transaction of the loop of \<open>filewrite\<close>: at most \<open>max\<close> bytes from \<open>addr + i\<close>.\<close>

definition filewrite_chunk :: "nat \<Rightarrow> nat \<Rightarrow> u8 list \<Rightarrow> int \<Rightarrow> int \<times> kernel \<Rightarrow> (int \<times> kernel + int \<times> kernel) kresult" where
  "filewrite_chunk f ip addr n x =
     (case x of (i, s) \<Rightarrow>
      let n1 = (if n - i > filewrite_max then filewrite_max else n - i) in
      kbind (begin_op s) (\<lambda>s.
      kbind (ilock ip s) (\<lambda>s.
      kbind (writei ip (drop (nat i) addr) (foff (files s f)) (of_int n1) s) (\<lambda>(r, s).
      let s = (if r > 0 then upd_file f (\<lambda>x. x\<lparr>foff := foff x + of_int r\<rparr>) s else s) in
      kbind (iunlock ip s) (\<lambda>s.
      kbind (end_op s) (\<lambda>s.
      if r < 0 then Done (Inr (i, s))
      else kassert (r = n1) ''short filewrite'' (Done (Inl (i + r, s)))))))))"

definition filewrite :: "nat \<Rightarrow> u8 list \<Rightarrow> int \<Rightarrow> int K" where
  "filewrite f addr n s =
     (if \<not> writable (files s f) then Done (-1, s)
      else case ftype (files s f) of
        FD_PIPE \<Rightarrow>
          kbind (pipewrite (fpipe (files s f)) addr n s) (\<lambda>((c, _), s).
          case c of Ret r \<Rightarrow> Done (r, s) | Sleeps _ \<Rightarrow> Asleep)
      | FD_INODE \<Rightarrow>
         (case fip (files s f) of None \<Rightarrow> Panic ''ilock'' | Some ip \<Rightarrow>
            kbind (kloop (\<lambda>(i, s). i < n) (filewrite_chunk f ip addr n) (0, s)) (\<lambda>r.
            case (case r of Inl x \<Rightarrow> x | Inr x \<Rightarrow> x) of (i, s) \<Rightarrow> Done (if i = n then n else -1, s)))
      | FD_NONE \<Rightarrow> Panic ''filewrite'')"

section \<open>pipealloc\<close>

text \<open>The data bytes of a fresh pipe are what its page contains, behind the 52 bytes of the lock.\<close>

definition pipe_init :: "u32 \<Rightarrow> kernel \<Rightarrow> kernel" where
  "pipe_init p s = initlock (Lpipe p) ''pipe'' (upd_pipe p (\<lambda>_. \<lparr>pdata = bytes (mem s) (p + 52) (unat PIPESIZE),
     nread = 0, nwrite = 0, readopen = True, writeopen = True\<rparr>) s)"

definition pipealloc :: "(nat \<times> nat) option K" where
  "pipealloc s =
     kbind (filealloc s) (\<lambda>(r0, s). case r0 of
       None \<Rightarrow> Done (None, s)
     | Some f0 \<Rightarrow>
         kbind (filealloc s) (\<lambda>(r1, s). case r1 of
           None \<Rightarrow> kbind (fileclose f0 s) (\<lambda>s. Done (None, s))
         | Some f1 \<Rightarrow>
             kbind (kalloc s) (\<lambda>(p, s).
             if p = 0 then
               kbind (fileclose f0 s) (\<lambda>s.
               kbind (fileclose f1 s) (\<lambda>s. Done (None, s)))
             else
               let s = pipe_init p s;
                   s = upd_file f0 (\<lambda>x. x\<lparr>ftype := FD_PIPE, readable := True, writable := False, fpipe := p\<rparr>) s;
                   s = upd_file f1 (\<lambda>x. x\<lparr>ftype := FD_PIPE, readable := False, writable := True, fpipe := p\<rparr>) s
               in Done (Some (f0, f1), s))))"

section \<open>Processes\<close>

text \<open>
  \<open>safestrcpy\<close> into a name buffer, on the bytes of the source. The trap frame of a process is the
  record field \<open>tf\<close>; \<open>init\<close> and \<open>usz\<close> are where the linker put initcode.
\<close>

definition copy_name :: "u8 list \<Rightarrow> u8 list \<Rightarrow> u8 list" where
  "copy_name src dst = (let q = take 15 (takeWhile (\<lambda>b. b \<noteq> 0) src) in q @ [0] @ drop (length q + 1) dst)"

definition ascii :: "string \<Rightarrow> u8 list" where
  "ascii = map of_char"

definition user_tf :: trapframe where
  "user_tf = \<lparr>t_edi = 0, t_esi = 0, t_ebp = 0, t_oesp = 0, t_ebx = 0, t_edx = 0, t_ecx = 0, t_eax = 0, t_gs = 0,
     t_fs = 0, t_es = 0x2B, t_ds = 0x2B, t_trapno = 0, t_err = 0, t_eip = 0, t_cs = 0x23, t_eflags = 0x200,
     t_esp = PGSIZE, t_ss = 0x2B\<rparr>"

definition userinit :: "u32 \<Rightarrow> u32 \<Rightarrow> kernel \<Rightarrow> kernel kresult" where
  "userinit init usz s =
     kbind (allocproc s) (\<lambda>(r, s).
     let s = s\<lparr>initproc := r\<rparr> in
     case r of None \<Rightarrow> Fault | Some p \<Rightarrow>
       kbind (setupkvm s) (\<lambda>(pd, s).
       let s = upd_proc p (\<lambda>q. q\<lparr>pgdir := pd\<rparr>) s in
       kassert (pd \<noteq> 0) ''userinit: out of memory?''
       (kbind (inituvm pd init usz s) (\<lambda>s.
        let s = upd_proc p (\<lambda>q. q\<lparr>sz := PGSIZE, tf := user_tf, pname := copy_name (ascii ''initcode'') (pname q)\<rparr>) s in
        kbind (namei [SLASH] s) (\<lambda>(ip, s).
        Done (upd_proc p (\<lambda>q. q\<lparr>cwd := ip, state := RUNNABLE\<rparr>) s))))))"

definition fork_files :: "nat \<Rightarrow> nat \<Rightarrow> nat \<Rightarrow> kernel \<Rightarrow> kernel kresult" where
  "fork_files p np i s =
     (case ofile (procs s p) ! i of
        None \<Rightarrow> Done s
      | Some f \<Rightarrow> kbind (filedup f s) (\<lambda>(f, s).
          Done (upd_proc np (\<lambda>q. q\<lparr>ofile := (ofile q)[i := Some f]\<rparr>) s)))"

text \<open>The two sections of \<open>fork\<close> and \<open>exit\<close> under the lock of the process table.\<close>

definition fork_publish :: "nat \<Rightarrow> kernel \<Rightarrow> kernel kresult" where
  "fork_publish np s = kbind (acquire Lptable s) (\<lambda>s. release Lptable (upd_proc np (\<lambda>q. q\<lparr>state := RUNNABLE\<rparr>) s))"

definition fork :: "int K" where
  "fork s =
     kbind (allocproc s) (\<lambda>(r, s). case r of
       None \<Rightarrow> Done (-1, s)
     | Some np \<Rightarrow>
        (case curproc s of None \<Rightarrow> Fault | Some p \<Rightarrow>
           kbind (copyuvm (pgdir (procs s p)) (sz (procs s p)) s) (\<lambda>(pd, s).
           let s = upd_proc np (\<lambda>q. q\<lparr>pgdir := pd\<rparr>) s in
           if pd = 0 then
             kbind (kfree (kstack (procs s np)) s) (\<lambda>s.
             Done (-1, upd_proc np (\<lambda>q. q\<lparr>kstack := 0, state := UNUSED\<rparr>) s))
           else
             let s = upd_proc np (\<lambda>q. q\<lparr>sz := sz (procs s p), parent := Some p, tf := (tf (procs s p))\<lparr>t_eax := 0\<rparr>\<rparr>) s in
             kbind (kfold (fork_files p np) [0..<NOFILE] s) (\<lambda>s.
             case cwd (procs s p) of None \<Rightarrow> Fault | Some d \<Rightarrow>
               kbind (idup d s) (\<lambda>(d, s).
               let s = upd_proc np (\<lambda>q. q\<lparr>cwd := Some d, pname := copy_name (pname (procs s p)) (pname q),
                     page := 0, shared := 0, vaddr := 0\<rparr>) s;
                   n = pid (procs s np)
               in kbind (fork_publish np s) (\<lambda>s. Done (n, s)))))))"

definition exit_files :: "nat \<Rightarrow> nat \<Rightarrow> kernel \<Rightarrow> kernel kresult" where
  "exit_files p fd s =
     (case ofile (procs s p) ! fd of
        None \<Rightarrow> Done s
      | Some f \<Rightarrow> kbind (fileclose f s) (\<lambda>s. Done (upd_proc p (\<lambda>q. q\<lparr>ofile := (ofile q)[fd := None]\<rparr>) s)))"

definition pass_child :: "nat \<Rightarrow> nat \<Rightarrow> kernel \<Rightarrow> kernel" where
  "pass_child p c s =
     (if parent (procs s c) = Some p then
        let s = upd_proc c (\<lambda>q. q\<lparr>parent := initproc s\<rparr>) s in
        if state (procs s c) = ZOMBIE then wakeup1 (ChProc (initproc s)) s else s
      else s)"

text \<open>\<open>exit\<close> up to the switch to the scheduler; if it were ever switched back to, it would panic.\<close>

definition exit_table :: "nat \<Rightarrow> bool K" where
  "exit_table p s =
     kbind (acquire Lptable s) (\<lambda>s.
     let s = wakeup1 (ChProc (parent (procs s p))) s;
         s = fold (pass_child p) [0..<NPROC] s
     in sched_enter (upd_proc p (\<lambda>q. q\<lparr>state := ZOMBIE\<rparr>) s))"

definition exit_enter :: "bool K" where
  "exit_enter s =
     (case curproc s of None \<Rightarrow> Fault | Some p \<Rightarrow>
       kassert (initproc s \<noteq> Some p) ''init exiting''
       (kbind (kfold (exit_files p) [0..<NOFILE] s) (\<lambda>s.
        kbind (begin_op s) (\<lambda>s.
        case cwd (procs s p) of None \<Rightarrow> Fault | Some d \<Rightarrow>
          kbind (iput d s) (\<lambda>s.
          kbind (end_op s) (\<lambda>s.
          exit_table p (upd_proc p (\<lambda>q. q\<lparr>cwd := None\<rparr>) s)))))))"

definition forkret :: "kernel \<Rightarrow> kernel kresult" where
  "forkret s =
     kbind (release Lptable s) (\<lambda>s.
     if forkret_first s then
       kbind (iinit ROOTDEV (s\<lparr>forkret_first := False\<rparr>)) (initlog ROOTDEV)
     else Done s)"

end
