(* ===== verification/Cpus.thy ===== *)
theory Cpus
  imports File
begin

text \<open>
  The interleaving of several CPUs over one process table never runs a process twice: \<open>pstep\<close> is the step relation of
  the whole system as far as the table goes, each step one of the pieces between two switches or one section under the lock of the table.
\<close>

section \<open>The system of CPUs\<close>

text \<open>
  Where a CPU is: in the scheduler outside the lock, scanning the table from a slot, switched to a
  process that still holds the lock, running a process, or switching away from one.

  \<open>pstep\<close> has a step for every piece of code that writes the state of a process: the scheduler, \<open>yield\<close>, \<open>sleep\<close>, \<open>wakeup\<close> (also from an
  interrupt on an idle CPU), \<open>kill\<close>, the sections of \<open>allocproc\<close>, \<open>fork\<close>, \<open>exit\<close> and \<open>wait\<close> under the lock of the table, and the
  assignments with which \<open>allocproc\<close> and \<open>fork\<close> give an unfinished process up without the lock. The map \<open>e\<close> says which slot a process
  has got from \<open>allocproc\<close> and not yet published. All other code of all CPUs is \<open>works\<close>: any change that keeps the states of
  the processes, the CPUs' current processes and the lock of the table. \<open>userinit\<close> runs before the first step.
\<close>

datatype spot = Idle | Scan nat | Resumed nat | Running nat | Switching nat

inductive pstep :: "kernel \<times> (nat \<Rightarrow> spot) \<times> (nat \<rightharpoonup> nat) \<Rightarrow> kernel \<times> (nat \<Rightarrow> spot) \<times> (nat \<rightharpoonup> nat) \<Rightarrow> bool" where
  round: "w c = Idle \<Longrightarrow> scheduler_begin (s\<lparr>me := c\<rparr>) = Done t \<Longrightarrow> pstep (s, w, e) (t, w(c := Scan 0), e)"
| pick: "w c = Scan i \<Longrightarrow> scheduler_next i (s\<lparr>me := c\<rparr>) = Done (Some p, t) \<Longrightarrow> pstep (s, w, e) (t, w(c := Resumed p), e)"
| no_more: "w c = Scan i \<Longrightarrow> scheduler_next i (s\<lparr>me := c\<rparr>) = Done (None, t) \<Longrightarrow> pstep (s, w, e) (t, w(c := Idle), e)"
| switches: "w c = Switching p \<Longrightarrow> t = scheduler_back (s\<lparr>me := c\<rparr>) \<Longrightarrow> pstep (s, w, e) (t, w(c := Scan (Suc p)), e)"
| starts: "w c = Resumed p \<Longrightarrow> release Lptable (s\<lparr>me := c\<rparr>) = Done t \<Longrightarrow> pstep (s, w, e) (t, w(c := Running p), e)"
| resumes: "w c = Resumed p \<Longrightarrow> yield_resume i (s\<lparr>me := c\<rparr>) = Done t \<Longrightarrow> pstep (s, w, e) (t, w(c := Running p), e)"
| woken_up: "w c = Resumed p \<Longrightarrow> lk \<noteq> Lptable \<Longrightarrow> sleep_resume i lk (s\<lparr>me := c\<rparr>) = Done t \<Longrightarrow>
    pstep (s, w, e) (t, w(c := Running p), e)"
| yields: "w c = Running p \<Longrightarrow> yield_enter (s\<lparr>me := c\<rparr>) = Done (i, t) \<Longrightarrow> pstep (s, w, e) (t, w(c := Switching p), e)"
| sleeps: "w c = Running p \<Longrightarrow> lk \<noteq> Lptable \<Longrightarrow> sleep_enter ch lk (s\<lparr>me := c\<rparr>) = Done (i, t) \<Longrightarrow>
    pstep (s, w, e) (t, w(c := Switching p), e)"
| wakes: "w c = Running p \<or> w c = Idle \<Longrightarrow> wakeup ch (s\<lparr>me := c\<rparr>) = Done t \<Longrightarrow> pstep (s, w, e) (t, w, e)"
| kills: "w c = Running p \<Longrightarrow> kill n (s\<lparr>me := c\<rparr>) = Done (r, t) \<Longrightarrow> pstep (s, w, e) (t, w, e)"
| allocates: "w c = Running p \<Longrightarrow> e p = None \<Longrightarrow> alloc_slot (s\<lparr>me := c\<rparr>) = Done (r, t) \<Longrightarrow> pstep (s, w, e) (t, w, e(p := r))"
| gives_up: "w c = Running p \<Longrightarrow> e p = Some np \<Longrightarrow> t = upd_proc np (\<lambda>q. q\<lparr>kstack := 0, state := UNUSED\<rparr>) (s\<lparr>me := c\<rparr>) \<Longrightarrow>
    pstep (s, w, e) (t, w, e(p := None))"
| publishes: "w c = Running p \<Longrightarrow> e p = Some np \<Longrightarrow> fork_publish np (s\<lparr>me := c\<rparr>) = Done t \<Longrightarrow> pstep (s, w, e) (t, w, e(p := None))"
| exits: "w c = Running p \<Longrightarrow> exit_table p (s\<lparr>me := c\<rparr>) = Done (i, t) \<Longrightarrow> pstep (s, w, e) (t, w(c := Switching p), e)"
| waits: "w c = Running p \<Longrightarrow> wait (s\<lparr>me := c\<rparr>) = Done (Ret r, t) \<Longrightarrow> pstep (s, w, e) (t, w, e)"
| wait_sleeps: "w c = Running p \<Longrightarrow> wait (s\<lparr>me := c\<rparr>) = Done (Sleeps i, t) \<Longrightarrow> pstep (s, w, e) (t, w(c := Switching p), e)"
| wait_ends: "w c = Resumed p \<Longrightarrow> wait_resume i (s\<lparr>me := c\<rparr>) = Done (Ret r, t) \<Longrightarrow> pstep (s, w, e) (t, w(c := Running p), e)"
| wait_again: "w c = Resumed p \<Longrightarrow> wait_resume i (s\<lparr>me := c\<rparr>) = Done (Sleeps j, t) \<Longrightarrow> pstep (s, w, e) (t, w(c := Switching p), e)"
| works: "(\<And>q. state (procs t q) = state (procs s q)) \<Longrightarrow> locks t Lptable = locks s Lptable \<Longrightarrow>
    (\<And>c. cproc (cpus t c) = cproc (cpus s c)) \<Longrightarrow> pstep (s, w, e) (t, w, e)"

fun in_table :: "spot \<Rightarrow> bool" where
  "in_table (Scan i) = True" | "in_table (Resumed p) = True" | "in_table (Switching p) = True" | "in_table _ = False"

fun on_cpu :: "spot \<Rightarrow> nat option" where
  "on_cpu (Resumed p) = Some p" | "on_cpu (Running p) = Some p" | "on_cpu (Switching p) = Some p" | "on_cpu _ = None"

fun is_running :: "spot \<Rightarrow> nat \<Rightarrow> bool" where
  "is_running (Resumed p) q = (p = q)" | "is_running (Running p) q = (p = q)" | "is_running _ q = False"

text \<open>The invariant, over the fields of the state it depends on.\<close>

definition table_inv :: "(nat \<Rightarrow> procstate) \<Rightarrow> (nat \<Rightarrow> nat option) \<Rightarrow> bool \<Rightarrow> nat option \<Rightarrow> (nat \<Rightarrow> spot) \<Rightarrow> bool" where
  "table_inv ps cur lkd own w \<longleftrightarrow> (\<forall>c. cur c = on_cpu (w c)) \<and> (\<forall>c. in_table (w c) \<longrightarrow> lkd \<and> own = Some c)
     \<and> (\<forall>c p. is_running (w c) p \<longrightarrow> ps p = RUNNING) \<and> (\<forall>p. ps p = RUNNING \<longrightarrow> (\<exists>c. is_running (w c) p))
     \<and> (\<forall>c d p. on_cpu (w c) = Some p \<longrightarrow> on_cpu (w d) = Some p \<longrightarrow> c = d)"

definition owned :: "(nat \<rightharpoonup> nat) \<Rightarrow> kernel \<Rightarrow> bool" where
  "owned e s \<longleftrightarrow> (\<forall>p np. e p = Some np \<longrightarrow> state (procs s np) = EMBRYO) \<and> (\<forall>p q np. e p = Some np \<longrightarrow> e q = Some np \<longrightarrow> p = q)"

lemma is_running_on_cpu: "is_running x p \<Longrightarrow> on_cpu x = Some p"
  by (cases x) auto

lemma table_invD:
  assumes "table_inv ps cur lkd own w"
  shows "cur c = on_cpu (w c)" and "in_table (w c) \<Longrightarrow> lkd" and "in_table (w c) \<Longrightarrow> own = Some c"
    and "is_running (w c) p \<Longrightarrow> ps p = RUNNING" and "ps p = RUNNING \<Longrightarrow> \<exists>c. is_running (w c) p"
    and "on_cpu (w c) = Some p \<Longrightarrow> on_cpu (w d) = Some p \<Longrightarrow> c = d"
    and "in_table (w c) \<Longrightarrow> in_table (w d) \<Longrightarrow> c = d"
  using assms unfolding table_inv_def by (blast, blast, blast, blast, blast, blast, metis option.inject)

lemma table_invI:
  assumes "\<And>c. cur c = on_cpu (w c)" and "\<And>c. in_table (w c) \<Longrightarrow> lkd \<and> own = Some c"
    and "\<And>c p. is_running (w c) p \<Longrightarrow> ps p = RUNNING" and "\<And>p. ps p = RUNNING \<Longrightarrow> \<exists>c. is_running (w c) p"
    and "\<And>c d p. on_cpu (w c) = Some p \<Longrightarrow> on_cpu (w d) = Some p \<Longrightarrow> c = d"
  shows "table_inv ps cur lkd own w"
  using assms unfolding table_inv_def by blast

text \<open>A CPU moves between spots with the same process and the same right to run it.\<close>

lemma table_move:
  assumes "table_inv ps cur lkd own w" and "on_cpu x = on_cpu (w c)" and "\<And>p. is_running x p = is_running (w c) p"
    and "\<And>d. in_table ((w(c := x)) d) \<Longrightarrow> lkd' \<and> own' = Some d"
  shows "table_inv ps cur lkd' own' (w(c := x))"
proof -
  note D = table_invD [OF assms(1)]
  have r: "is_running ((w(c := x)) d) p = is_running (w d) p" and o: "on_cpu ((w(c := x)) d) = on_cpu (w d)" for d p
    using assms(2,3) by auto
  show ?thesis
  proof (rule table_invI)
    show "\<exists>d. is_running ((w(c := x)) d) p" if "ps p = RUNNING" for p using D(5) [OF that] r by simp
  qed (use D r o assms(4) in \<open>auto simp del: fun_upd_apply\<close>)
qed

lemma table_pick:
  assumes "table_inv ps cur lkd own w" and "w c = Scan i" and "ps p = RUNNABLE"
  shows "table_inv (ps(p := RUNNING)) (cur(c := Some p)) lkd own (w(c := Resumed p))"
proof -
  note D = table_invD [OF assms(1)]
  have free: "on_cpu (w d) \<noteq> Some p" for d
  proof
    assume d: "on_cpu (w d) = Some p"
    then consider "is_running (w d) p" | "in_table (w d)" by (cases "w d") auto
    then show False
    proof cases
      case 1
      then show False using D(4) assms(3) by fastforce
    next
      case 2
      then have "d = c" using D(7) [of d c] assms(2) by simp
      then show False using d assms(2) by simp
    qed
  qed
  have r: "is_running ((w(c := Resumed p)) d) q = (if d = c then p = q else is_running (w d) q)"
    and o: "on_cpu ((w(c := Resumed p)) d) = (if d = c then Some p else on_cpu (w d))" for d q
    by simp_all
  have nr: "\<not> is_running (w c) q" for q using assms(2) by simp
  show ?thesis
  proof (rule table_invI)
    show "(ps(p := RUNNING)) q = RUNNING" if "is_running ((w(c := Resumed p)) d) q" for d q
      using that D(4) [of d q] unfolding r by (auto split: if_splits)
    show "\<exists>d. is_running ((w(c := Resumed p)) d) q" if run: "(ps(p := RUNNING)) q = RUNNING" for q
    proof (cases "q = p")
      case False
      then obtain d where d: "is_running (w d) q" using run D(5) [of q] by auto
      then have "d \<noteq> c" using nr by blast
      then show ?thesis using d r by auto
    qed (use r in auto)
    show "d = e" if "on_cpu ((w(c := Resumed p)) d) = Some q" "on_cpu ((w(c := Resumed p)) e) = Some q" for d e q
      using that free D(6) [of d q e] unfolding o by (auto split: if_splits)
    show "lkd \<and> own = Some d" if "in_table ((w(c := Resumed p)) d)" for d
      using that D(2,3) [of d] D(2,3) [of c] assms(2) by (auto split: if_splits)
  qed (use D(1) in auto)
qed

text \<open>A running process gives up its state while its CPU is the only one in the table.\<close>

lemma table_switch:
  assumes "table_inv ps cur lkd own w" and "is_running (w c) p" and "\<And>d. in_table (w d) \<Longrightarrow> d = c" and "x \<noteq> RUNNING"
  shows "table_inv (ps(p := x)) cur True (Some c) (w(c := Switching p))"
proof -
  note D = table_invD [OF assms(1)]
  have cp: "on_cpu (w c) = Some p" using is_running_on_cpu [OF assms(2)] .
  have rc: "is_running (w c) q \<longleftrightarrow> q = p" for q using is_running_on_cpu [of "w c" q] cp assms(2) by auto
  have r: "is_running ((w(c := Switching p)) d) q = (d \<noteq> c \<and> is_running (w d) q)"
    and o: "on_cpu ((w(c := Switching p)) d) = on_cpu (w d)"
    and t: "in_table ((w(c := Switching p)) d) = (d = c)" for d q
    using cp assms(3) [of d] by auto
  have only: "d = c" if "is_running (w d) p" for d
    using D(6) [of d p c] is_running_on_cpu [OF that] cp by simp
  show ?thesis
  proof (rule table_invI)
    show "(ps(p := x)) q = RUNNING" if "is_running ((w(c := Switching p)) d) q" for d q
      using that only D(4) [of d q] unfolding r by auto
    show "\<exists>d. is_running ((w(c := Switching p)) d) q" if "(ps(p := x)) q = RUNNING" for q
    proof -
      have q: "q \<noteq> p" "ps q = RUNNING" using that assms(4) by (auto split: if_splits)
      then obtain d where d: "is_running (w d) q" using D(5) by blast
      then have "d \<noteq> c" using rc q(1) by blast
      then show ?thesis using r d by blast
    qed
  qed (use D o t in \<open>auto simp del: fun_upd_apply\<close>)
qed

lemma table_back:
  assumes "table_inv ps cur lkd own w" and "w c = Switching p"
  shows "table_inv ps (cur(c := None)) lkd own (w(c := Scan i))"
proof -
  note D = table_invD [OF assms(1)]
  have r: "is_running ((w(c := Scan i)) d) q = is_running (w d) q"
    and o: "on_cpu ((w(c := Scan i)) d) = (if d = c then None else on_cpu (w d))"
    and t: "in_table ((w(c := Scan i)) d) = in_table (w d)" for d q
    using assms(2) by auto
  show ?thesis
  proof (rule table_invI)
    show "\<exists>d. is_running ((w(c := Scan i)) d) q" if "ps q = RUNNING" for q using D(5) [OF that] r by simp
  qed (use D o t r in \<open>auto simp del: fun_upd_apply split: if_splits\<close>, auto)
qed

lemma table_states:
  assumes "table_inv ps cur lkd own w" and "\<And>p. (qs p = RUNNING) = (ps p = RUNNING)"
    and "\<And>c. in_table (w c) \<Longrightarrow> lkd' \<and> own' = Some c"
  shows "table_inv qs cur lkd' own' w"
  using table_invD [OF assms(1)] assms(2,3) by (intro table_invI) blast+

section \<open>What a lock, a pick and a switch do to the invariant\<close>

abbreviation view :: "kernel \<Rightarrow> (nat \<Rightarrow> spot) \<Rightarrow> bool" where
  "view s w \<equiv> table_inv (\<lambda>p. state (procs s p)) (\<lambda>c. cproc (cpus s c)) (locked (locks s Lptable) \<noteq> 0)
     (lk_cpu (locks s Lptable)) w"

lemma view_me [simp]: "view (s\<lparr>me := c\<rparr>) w = view s w"
  by simp

lemma frozen_view: "frozen s t \<Longrightarrow> locks t Lptable = locks s Lptable \<Longrightarrow> view t w = view s w"
  by (simp add: frozen_def)

lemma acquire_view:
  assumes "acquire Lptable s = Done t" and "view s w"
  shows "table_inv (\<lambda>p. state (procs t p)) (\<lambda>c. cproc (cpus t c)) False (lk_cpu (locks s Lptable)) w"
    and "locked (locks t Lptable) \<noteq> 0" and "lk_cpu (locks t Lptable) = Some (me s)"
  using acquire_effect [OF assms(1)] assms(2) by (simp_all add: frozen_def)

lemma release_view:
  assumes "release Lptable s = Done t" and "view s w" and "w (me s) = Resumed p \<or> w (me s) = Scan i"
    and "x = (if w (me s) = Resumed p then Running p else Idle)"
  shows "view t (w(me s := x))"
proof -
  have f: "frozen s t" using release_effect [OF assms(1)] by simp
  have tab: "in_table (w (me s))" using assms(3) by auto
  have "table_inv (\<lambda>p. state (procs s p)) (\<lambda>c. cproc (cpus s c)) False None (w(me s := x))"
  proof (rule table_move [OF assms(2)])
    show "False \<and> None = Some d" if "in_table ((w(me s := x)) d)" for d
      using that table_invD(7) [OF assms(2) tab, of d] assms(3,4) by (auto split: if_splits)
  qed (use assms(3,4) in auto)
  then show ?thesis using f release_effect(3,4) [OF assms(1)] by (simp add: frozen_def)
qed

lemma sched_step_round:
  assumes "view s w" and "w c = Idle" and "scheduler_begin (s\<lparr>me := c\<rparr>) = Done t"
  shows "view t (w(c := Scan 0))"
proof -
  have a: "acquire Lptable (sti (s\<lparr>me := c\<rparr>)) = Done t" using assms(3) by (simp add: scheduler_begin_def)
  have v: "view (sti (s\<lparr>me := c\<rparr>)) w" using assms(1) by (simp add: sti_def)
  note A = acquire_view [OF a v]
  show ?thesis
  proof (rule table_move [OF A(1)])
    show "locked (locks t Lptable) \<noteq> 0 \<and> lk_cpu (locks t Lptable) = Some d" if "in_table ((w(c := Scan 0)) d)" for d
      using that table_invD(2) [OF A(1), of d] A(2,3) by (auto simp: sti_def split: if_splits)
  qed (use assms(2) in auto)
qed

lemma sched_step_pick:
  assumes "view s w" and "w c = Scan i" and "scheduler_next i (s\<lparr>me := c\<rparr>) = Done (Some p, t)"
  shows "view t (w(c := Resumed p))"
proof -
  let ?s = "s\<lparr>me := c\<rparr>"
  have f: "List.find (\<lambda>p. state (procs ?s p) = RUNNABLE) [i..<NPROC] = Some p"
    using assms(3) by (auto simp: scheduler_next_def split: option.splits)
  then obtain u where u: "switchuvm p (set_curproc (Some p) ?s) = Done u" "t = upd_proc p (\<lambda>q. q\<lparr>state := RUNNING\<rparr>) u"
    using assms(3) by (auto simp: scheduler_next_def)
  have r: "state (procs s p) = RUNNABLE" using find_Some_state [OF f] by simp
  have eff: "procs u = procs s" "locks u = locks s" "\<And>d. cproc (cpus u d) = (if d = c then Some p else cproc (cpus s d))"
    using switchuvm_effect [OF u(1)] by (simp_all add: frozen_def set_curproc_def upd_cpu_def)
  have st: "(\<lambda>q. state (procs t q)) = (\<lambda>q. state (procs s q))(p := RUNNING)"
    "(\<lambda>d. cproc (cpus t d)) = (\<lambda>d. cproc (cpus s d))(c := Some p)" "locks t = locks s"
    using eff u(2) by (auto simp: upd_proc_def)
  show ?thesis
    unfolding st using table_pick [OF assms(1,2) r] .
qed

lemma sched_step_switch:
  assumes "view s w" and "w c = Running p" and "acquire Lptable (s\<lparr>me := c\<rparr>) = Done u"
    and "\<And>d. cproc (cpus t d) = cproc (cpus u d)" and "locks t Lptable = locks u Lptable"
    and "\<And>q. q \<noteq> p \<Longrightarrow> (state (procs t q) = RUNNING) = (state (procs u q) = RUNNING)" and "state (procs t p) \<noteq> RUNNING"
  shows "view t (w(c := Switching p))"
proof -
  have vw: "view (s\<lparr>me := c\<rparr>) w" using assms(1) by simp
  note A = acquire_view [OF assms(3) vw]
  have "table_inv ((\<lambda>q. state (procs u q))(p := UNUSED)) (\<lambda>d. cproc (cpus u d)) True (Some c) (w(c := Switching p))"
    using table_invD(2) [OF A(1)] assms(2) by (intro table_switch [OF A(1)]) auto
  then have "table_inv (\<lambda>q. state (procs t q)) (\<lambda>d. cproc (cpus u d)) True (Some c) (w(c := Switching p))"
  proof (rule table_states)
    show "(state (procs t q) = RUNNING) = (((\<lambda>q. state (procs u q))(p := UNUSED)) q = RUNNING)" for q
      using assms(6) [of q] assms(7) by (cases "q = p") simp_all
    show "True \<and> Some c = Some d" if "in_table ((w(c := Switching p)) d)" for d
      using that table_invD(2) [OF A(1), of d] by (cases "d = c") simp_all
  qed
  then show ?thesis using A(2,3) assms(4,5) by simp
qed

lemma resumed_switch:
  assumes "view s w" and "w c = Resumed p" and "\<And>d. cproc (cpus t d) = cproc (cpus s d)" and "locks t Lptable = locks s Lptable"
    and "\<And>q. q \<noteq> p \<Longrightarrow> (state (procs t q) = RUNNING) = (state (procs s q) = RUNNING)" and "state (procs t p) \<noteq> RUNNING"
  shows "view t (w(c := Switching p))"
proof -
  have c: "in_table (w c)" "is_running (w c) p" using assms(2) by simp_all
  have "table_inv ((\<lambda>q. state (procs s q))(p := UNUSED)) (\<lambda>d. cproc (cpus s d)) True (Some c) (w(c := Switching p))"
    using table_invD(7) [OF assms(1) _ c(1)] c(2) by (intro table_switch [OF assms(1)]) auto
  then have "table_inv (\<lambda>q. state (procs t q)) (\<lambda>d. cproc (cpus s d)) True (Some c) (w(c := Switching p))"
  proof (rule table_states)
    show "(state (procs t q) = RUNNING) = (((\<lambda>q. state (procs s q))(p := UNUSED)) q = RUNNING)" for q
      using assms(5) [of q] assms(6) by (cases "q = p") simp_all
    show "True \<and> Some c = Some d" if "in_table ((w(c := Switching p)) d)" for d
      using that table_invD(7) [OF assms(1) _ c(1), of d] by (cases "d = c") simp_all
  qed
  then show ?thesis using table_invD(2,3) [OF assms(1) c(1)] assms(3,4) by simp
qed

text \<open>A critical section of the table that keeps the set of running processes.\<close>

lemma section_view:
  assumes "view s w" and "acquire Lptable (s\<lparr>me := c\<rparr>) = Done u" and "release Lptable v = Done t"
    and "\<And>d. cproc (cpus v d) = cproc (cpus u d)" and "\<And>p. (state (procs v p) = RUNNING) = (state (procs u p) = RUNNING)"
  shows "view t w"
proof -
  have vw: "view (s\<lparr>me := c\<rparr>) w" using assms(1) by simp
  note A = acquire_view [OF assms(2) vw]
  have f: "procs t = procs v" "\<And>d. cproc (cpus t d) = cproc (cpus u d)"
    using release_effect(1) [OF assms(3)] assms(4) by (simp_all add: frozen_def)
  show ?thesis unfolding f
    using assms(5) table_invD(2) [OF A(1)] by (intro table_states [OF A(1)]) auto
qed

lemma states_view:
  assumes "view s w" and "\<And>d. cproc (cpus t d) = cproc (cpus s d)" and "locks t Lptable = locks s Lptable"
    and "\<And>p. (state (procs t p) = RUNNING) = (state (procs s p) = RUNNING)"
  shows "view t w"
  using table_states [OF assms(1), of "\<lambda>p. state (procs t p)"] table_invD(2,3) [OF assms(1)] assms(2-4) by simp

section \<open>What the sections do to the states of the processes\<close>

text \<open>Slots that are being set up stay so, but for the one their owner publishes or gives up.\<close>

abbreviation keeps_new :: "kernel \<Rightarrow> kernel \<Rightarrow> bool" where
  "keeps_new s t \<equiv> \<forall>q. state (procs s q) = EMBRYO \<longrightarrow> state (procs t q) = EMBRYO"

lemma owned_keep: "owned e s \<Longrightarrow> keeps_new s t \<Longrightarrow> owned e t"
  by (simp add: owned_def)

definition calm :: "kernel \<Rightarrow> kernel \<Rightarrow> bool" where
  "calm s t \<longleftrightarrow> frozen s t \<and> locks t Lptable = locks s Lptable"

lemma calm_refl: "calm s s"
  by (simp add: calm_def)

lemma calm_trans: "calm s t \<Longrightarrow> calm t u \<Longrightarrow> calm s u"
  using frozen_trans by (auto simp: calm_def)

lemma calm_mem [simp]: "calm s (t\<lparr>mem := m\<rparr>) = calm s t" "calm s (t\<lparr>freelist := x\<rparr>) = calm s t" "calm (s\<lparr>mem := m\<rparr>) t = calm s t"
  by (simp_all add: calm_def frozen_def)

lemma kfree_calm: "kfree v s = Done t \<Longrightarrow> calm s t"
proof -
  assume k: "kfree v s = Done t"
  let ?s = "s\<lparr>mem := memset v 1 PGSIZE (mem s)\<rparr>"
  have l: "calm a b" if "acquire Lkmem a = Done b" for a b using acquire_effect(1,5) [OF that] by (simp add: calm_def)
  have r: "calm a b" if "release Lkmem a = Done b" for a b using release_effect(1,5) [OF that] by (simp add: calm_def)
  show ?thesis
  proof (cases "use_lock s")
    case True
    then obtain u where u: "acquire Lkmem ?s = Done u" using k by (auto simp: kfree_def Let_def)
    then have "use_lock u" using True by (auto simp: acquire_Done_iff upd_lock_def pushcli_def upd_cpu_def Let_def)
    then have "release Lkmem (u\<lparr>mem := store32 (mem u) v (freelist u), freelist := v\<rparr>) = Done t"
      using k u True by (auto simp: kfree_def Let_def)
    from r [OF this] l [OF u] show ?thesis using calm_trans by (simp add: calm_def frozen_def)
  next
    case False
    then have "t = ?s\<lparr>mem := store32 (mem ?s) v (freelist ?s), freelist := v\<rparr>" using k by (auto simp: kfree_def Let_def)
    then show ?thesis by (simp add: calm_def frozen_def)
  qed
qed

lemma walkpgdir_calm: "walkpgdir pgd va False s = Done (p, t) \<Longrightarrow> t = s"
  by (auto simp: walkpgdir_def Let_def split: if_splits)

lemma clearptep_calm: "clearptep pgd va s = Done t \<Longrightarrow> calm s t"
  by (auto simp: clearptep_def calm_refl split: if_splits dest!: walkpgdir_calm)

lemma deallocuvm_calm:
  assumes "deallocuvm pgd osz nsz s = Done (r, t)"
  shows "calm s t"
proof (cases "nsz \<ge> osz")
  case True
  then show ?thesis using assms by (simp add: deallocuvm_def calm_refl)
next
  case False
  let ?c = "\<lambda>(a, s). kbind (walkpgdir pgd a False s) (\<lambda>(pte, s).
          if pte = 0 then Done (Inl (a + (NPTENTRIES - 1) * PGSIZE + PGSIZE, s))
          else if load32 (mem s) pte AND PTE_P \<noteq> 0 then
            let pa = PTE_ADDR (load32 (mem s) pte) in
            kassert (pa \<noteq> 0) ''kfree''
              (kbind (kfree (p2v pa) s) (\<lambda>s. Done (Inl (a + PGSIZE, s\<lparr>mem := store32 (mem s) pte 0\<rparr>))))
          else Done (Inl (a + PGSIZE, s)))"
  let ?I = "\<lambda>(a, t). calm s t"
  obtain y where y: "kloop (\<lambda>(a, s). a < osz) ?c (PGROUNDUP nsz, s) = Done y" "case_sum (\<lambda>(a, s). Done (nsz, s)) Done y = Done (r, t)"
    using assms False by (auto simp: deallocuvm_def)
  have step: "?I x'" if "?I x" "?c x = Done (Inl x')" for x x'
    using that by (cases x) (auto simp: Let_def split: if_splits dest!: walkpgdir_calm dest: calm_trans [OF _ kfree_calm])
  have none: "?c x \<noteq> Done (Inr z)" for x z
    by (cases x) (auto simp: Let_def split: if_splits)
  have "case y of Inl x' \<Rightarrow> ?I x' | Inr z \<Rightarrow> False"
  proof (rule kloop_keeps [OF y(1), where I = ?I and Q = "\<lambda>_. False"])
    show "?I (PGROUNDUP nsz, s)" by (simp add: calm_refl)
    show "?I x'" if "?I x" "?c x = Done (Inl x')" for x x' using that by (rule step)
    show False if "?c x = Done (Inr z)" for x z using that by (rule notE [OF none])
  qed
  then show ?thesis using y(2) by (auto split: sum.splits)
qed

lemma freevm_loop_calm: "freevm_loop pgd is s = Done t \<Longrightarrow> calm s t"
  by (induction "is" arbitrary: s) (auto simp: calm_refl Let_def split: if_splits dest!: kfree_calm intro: calm_trans)

lemma freevm_calm: "freevm pgd s = Done t \<Longrightarrow> calm s t"
  by (auto simp: freevm_def split: if_splits dest!: deallocuvm_calm freevm_loop_calm kfree_calm intro: calm_trans)

text \<open>\<open>wait\<close> changes the state of a process only where it frees a zombie child, still under the lock of the table.\<close>

definition scanned :: "kernel \<Rightarrow> kernel \<Rightarrow> bool" where
  "scanned s t \<longleftrightarrow> me t = me s \<and> (\<forall>d. cproc (cpus t d) = cproc (cpus s d)) \<and> locks t Lptable = locks s Lptable
     \<and> (\<forall>q. state (procs t q) = state (procs s q) \<or> state (procs s q) = ZOMBIE \<and> state (procs t q) = UNUSED)"

lemma reap_effect:
  assumes "reap p s = Done (n, t)" and "state (procs s p) = ZOMBIE"
  shows "\<exists>v. release Lptable v = Done t \<and> scanned s v"
proof -
  let ?free = "\<lambda>q. q\<lparr>state := UNUSED, pid := 0, parent := None, pname := (pname q)[0 := 0], killed := 0\<rparr>"
  obtain a b v where a: "kfree (kstack (procs s p)) s = Done a"
    and b: "(if page (procs (upd_proc p (\<lambda>q. q\<lparr>kstack := 0\<rparr>) a) p) \<noteq> 0 then
               kbind (clearptep (pgdir (procs (upd_proc p (\<lambda>q. q\<lparr>kstack := 0\<rparr>) a) p)) (addr1 (procs (upd_proc p (\<lambda>q. q\<lparr>kstack := 0\<rparr>) a) p))
                 (upd_proc p (\<lambda>q. q\<lparr>kstack := 0\<rparr>) a)) (\<lambda>s.
               kbind (clearptep (pgdir (procs s p)) (addr2 (procs s p)) s) (\<lambda>s.
               kfree (page (procs s p)) s))
             else Done (upd_proc p (\<lambda>q. q\<lparr>kstack := 0\<rparr>) a)) = Done b"
    and v: "freevm (pgdir (procs b p)) b = Done v" and t: "release Lptable (upd_proc p ?free v) = Done t"
    using assms(1) by (auto simp: reap_def Let_def)
  have "calm (upd_proc p (\<lambda>q. q\<lparr>kstack := 0\<rparr>) a) b"
    using b by (auto simp: calm_refl split: if_splits dest!: kfree_calm clearptep_calm intro: calm_trans)
  from calm_trans [OF this freevm_calm [OF v]] kfree_calm [OF a]
  have "scanned s (upd_proc p ?free v)"
    using assms(2) by (auto simp: scanned_def calm_def frozen_def upd_proc_def)
  then show ?thesis using t by blast
qed

lemma wait_scan_Ret:
  assumes "wait_scan cp u = Done (Ret r, t)"
  shows "\<exists>v. release Lptable v = Done t \<and> scanned u v"
proof -
  have refl: "scanned u u" by (simp add: scanned_def)
  show ?thesis
  proof (cases "List.find (\<lambda>p. state (procs u p) = ZOMBIE) (filter (\<lambda>p. parent (procs u p) = Some cp) [0..<NPROC])")
    case None
    then have "release Lptable u = Done t" using assms by (auto simp: wait_scan_def Let_def split: if_splits)
    then show ?thesis using refl by blast
  next
    case (Some p)
    then have "reap p u = Done (r, t)" using assms by (auto simp: wait_scan_def Let_def)
    then show ?thesis using reap_effect find_Some_state [OF Some] by simp
  qed
qed

lemma wait_scan_Sleeps:
  assumes "wait_scan cp u = Done (Sleeps i, t)" and "curproc u = Some p"
  shows "t = upd_proc p (\<lambda>q. q\<lparr>pchan := Some (ChProc (Some cp)), state := SLEEPING\<rparr>) u"
proof -
  have "sleep_enter (ChProc (Some cp)) Lptable u = Done (i, t)"
    using assms(1) by (auto simp: wait_scan_def Let_def split: if_splits option.splits)
  then have "sched_enter (upd_proc p (\<lambda>q. q\<lparr>pchan := Some (ChProc (Some cp)), state := SLEEPING\<rparr>) u) = Done (i, t)"
    using assms(2) by (simp add: sleep_enter_def)
  then show ?thesis by (rule sched_enter_effect(1))
qed

text \<open>\<open>exit\<close> wakes sleepers, hands its children over and makes its own process a zombie.\<close>

definition rouses :: "kernel \<Rightarrow> kernel \<Rightarrow> bool" where
  "rouses s t \<longleftrightarrow> me t = me s \<and> cpus t = cpus s \<and> locks t = locks s
     \<and> (\<forall>q. state (procs t q) = state (procs s q) \<or> state (procs s q) = SLEEPING \<and> state (procs t q) = RUNNABLE)"

lemma rouses_refl: "rouses s s"
  by (simp add: rouses_def)

lemma rouses_trans: "rouses s t \<Longrightarrow> rouses t u \<Longrightarrow> rouses s u"
  unfolding rouses_def by (metis procstate.distinct(1,3,5,7,9,11,13,15,17,19,21,23,25,27,29))

lemma rouses_states:
  assumes "rouses s t"
  shows "(state (procs t q) = RUNNING) = (state (procs s q) = RUNNING)" and "keeps_new s t"
proof -
  have *: "state (procs t q) = state (procs s q) \<or> state (procs s q) = SLEEPING \<and> state (procs t q) = RUNNABLE" for q
    using assms by (simp add: rouses_def)
  show "(state (procs t q) = RUNNING) = (state (procs s q) = RUNNING)" using * [of q] by auto
  show "keeps_new s t"
  proof (intro allI impI)
    show "state (procs t q) = EMBRYO" if "state (procs s q) = EMBRYO" for q using * [of q] that by auto
  qed
qed

lemma wakeup1_rouses: "rouses s (wakeup1 ch s)"
  by (auto simp: rouses_def wakeup1_eq wake_all_def woken_def)

lemma pass_child_rouses: "rouses s (pass_child p q s)"
  unfolding pass_child_def Let_def
  by (auto simp: rouses_def upd_proc_def wakeup1_eq wake_all_def woken_def)

lemma pass_children_rouses: "rouses s (fold (pass_child p) qs s)"
  by (induction qs arbitrary: s) (auto simp: rouses_refl intro: rouses_trans [OF pass_child_rouses])

lemma exit_table_effect:
  assumes "exit_table p s = Done (i, t)"
  shows "\<exists>u v. acquire Lptable s = Done u \<and> rouses u v \<and> t = upd_proc p (\<lambda>q. q\<lparr>state := ZOMBIE\<rparr>) v"
proof -
  obtain u where u: "acquire Lptable s = Done u" using assms by (auto simp: exit_table_def)
  let ?v = "fold (pass_child p) [0..<NPROC] (wakeup1 (ChProc (parent (procs u p))) u)"
  have "rouses u ?v" by (rule rouses_trans [OF wakeup1_rouses pass_children_rouses])
  moreover have "t = upd_proc p (\<lambda>q. q\<lparr>state := ZOMBIE\<rparr>) ?v"
    using assms u by (auto simp: exit_table_def Let_def dest: sched_enter_effect(1))
  ultimately show ?thesis using u by blast
qed

lemma alloc_slot_effect:
  assumes "alloc_slot s = Done (r, t)"
  shows "\<exists>u v. acquire Lptable s = Done u \<and> release Lptable v = Done t \<and> cpus v = cpus u
    \<and> (case r of None \<Rightarrow> procs v = procs u
       | Some p \<Rightarrow> state (procs u p) = UNUSED \<and> (\<lambda>q. state (procs v q)) = (\<lambda>q. state (procs u q))(p := EMBRYO))"
proof -
  obtain u where u: "acquire Lptable s = Done u" using assms by (auto simp: alloc_slot_def)
  show ?thesis
  proof (cases "find_unused u")
    case None
    then have "release Lptable u = Done t \<and> r = None" using assms u by (auto simp: alloc_slot_def)
    then show ?thesis using u by auto
  next
    case (Some p)
    let ?v = "(upd_proc p (\<lambda>q. q\<lparr>state := EMBRYO, pid := nextpid u\<rparr>) u)\<lparr>nextpid := nextpid u + 1\<rparr>"
    have "release Lptable ?v = Done t \<and> r = Some p" using assms u Some by (auto simp: alloc_slot_def Let_def)
    moreover have "(\<lambda>q. state (procs ?v q)) = (\<lambda>q. state (procs u q))(p := EMBRYO)" "cpus ?v = cpus u"
      by (auto simp: upd_proc_def)
    moreover have "state (procs u p) = UNUSED" using find_Some_state [OF Some [unfolded find_unused_def]] by simp
    ultimately show ?thesis using u by auto
  qed
qed

section \<open>The steps that enter and leave the table\<close>

lemma yield_step:
  assumes "view s w" and "w c = Running p" and "yield_enter (s\<lparr>me := c\<rparr>) = Done (i, t)"
  shows "view t (w(c := Switching p)) \<and> keeps_new s t"
proof -
  obtain u where u: "acquire Lptable (s\<lparr>me := c\<rparr>) = Done u"
    using assms(3) by (auto simp: yield_enter_def)
  have f: "curproc u = Some p" "procs u = procs s"
    using acquire_effect(1) [OF u] table_invD(1) [OF assms(1), of c] assms(2) by (simp_all add: frozen_def)
  have "sched_enter (upd_proc p (\<lambda>q. q\<lparr>state := RUNNABLE\<rparr>) u) = Done (i, t)" using assms(3) u f by (simp add: yield_enter_def)
  then have t: "t = upd_proc p (\<lambda>q. q\<lparr>state := RUNNABLE\<rparr>) u" by (rule sched_enter_effect(1))
  have "view t (w(c := Switching p))"
    by (rule sched_step_switch [OF assms(1,2) u]) (simp_all add: t upd_proc_def)
  moreover have "state (procs s p) = RUNNING" using table_invD(4) [OF assms(1), of c p] assms(2) by simp
  ultimately show ?thesis by (auto simp: t upd_proc_def f)
qed

lemma sleep_step:
  assumes "view s w" and "w c = Running p" and "sleep_enter ch lk (s\<lparr>me := c\<rparr>) = Done (i, t)" and "lk \<noteq> Lptable"
  shows "view t (w(c := Switching p)) \<and> keeps_new s t"
proof -
  have cp: "curproc (s\<lparr>me := c\<rparr>) = Some p" using table_invD(1) [OF assms(1), of c] assms(2) by simp
  then obtain u v where u: "acquire Lptable (s\<lparr>me := c\<rparr>) = Done u" "release lk u = Done v"
    and t: "sched_enter (upd_proc p (\<lambda>q. q\<lparr>pchan := Some ch, state := SLEEPING\<rparr>) v) = Done (i, t)"
    using assms(3,4) by (auto simp: sleep_enter_def)
  have t: "t = upd_proc p (\<lambda>q. q\<lparr>pchan := Some ch, state := SLEEPING\<rparr>) v" using sched_enter_effect(1) [OF t] .
  have f: "procs v = procs u" "\<And>d. cproc (cpus v d) = cproc (cpus u d)" "locks v Lptable = locks u Lptable" "procs u = procs s"
    using release_effect(1,5) [OF u(2)] acquire_effect(1) [OF u(1)] assms(4) by (simp_all add: frozen_def)
  have "view t (w(c := Switching p))"
    by (rule sched_step_switch [OF assms(1,2) u(1)]) (simp_all add: t upd_proc_def f)
  moreover have "state (procs s p) = RUNNING" using table_invD(4) [OF assms(1), of c p] assms(2) by simp
  ultimately show ?thesis by (auto simp: t upd_proc_def f)
qed

lemma exit_step:
  assumes "view s w" and "w c = Running p" and "exit_table p (s\<lparr>me := c\<rparr>) = Done (i, t)"
  shows "view t (w(c := Switching p)) \<and> keeps_new s t"
proof -
  obtain u v where u: "acquire Lptable (s\<lparr>me := c\<rparr>) = Done u" and v: "rouses u v"
    and t: "t = upd_proc p (\<lambda>q. q\<lparr>state := ZOMBIE\<rparr>) v"
    using exit_table_effect [OF assms(3)] by blast
  have f: "procs u = procs s" using acquire_effect(1) [OF u] by (simp add: frozen_def)
  have r: "cpus v = cpus u" "locks v = locks u" using v by (simp_all add: rouses_def)
  note r = r rouses_states [OF v]
  have "view t (w(c := Switching p))"
    by (rule sched_step_switch [OF assms(1,2) u]) (simp_all add: t upd_proc_def r)
  moreover have "state (procs s p) = RUNNING" using table_invD(4) [OF assms(1), of c p] assms(2) by simp
  ultimately show ?thesis using r(4) f by (auto simp: t upd_proc_def)
qed

lemma scanned_states:
  assumes "scanned s t"
  shows "(state (procs t q) = RUNNING) = (state (procs s q) = RUNNING)" and "keeps_new s t"
proof -
  have *: "state (procs t q) = state (procs s q) \<or> state (procs s q) = ZOMBIE \<and> state (procs t q) = UNUSED" for q
    using assms by (simp add: scanned_def)
  show "(state (procs t q) = RUNNING) = (state (procs s q) = RUNNING)" using * [of q] by auto
  show "keeps_new s t"
  proof (intro allI impI)
    show "state (procs t q) = EMBRYO" if "state (procs s q) = EMBRYO" for q using * [of q] that by auto
  qed
qed

lemma wait_ret_step:
  assumes "view s w" and "w c = Running p" and "wait (s\<lparr>me := c\<rparr>) = Done (Ret r, t)"
  shows "view t w \<and> keeps_new s t"
proof -
  have cp: "curproc (s\<lparr>me := c\<rparr>) = Some p" using table_invD(1) [OF assms(1), of c] assms(2) by simp
  then obtain u where u: "acquire Lptable (s\<lparr>me := c\<rparr>) = Done u" "wait_scan p u = Done (Ret r, t)"
    using assms(3) by (auto simp: wait_def)
  obtain v where v: "release Lptable v = Done t" "scanned u v" using wait_scan_Ret [OF u(2)] by blast
  have "view t w"
    using section_view [OF assms(1) u(1) v(1)] scanned_states(1) [OF v(2)] v(2) by (simp add: scanned_def)
  moreover have "procs u = procs s" "procs t = procs v"
    using acquire_effect(1) [OF u(1)] release_effect(1) [OF v(1)] by (simp_all add: frozen_def)
  ultimately show ?thesis using scanned_states(2) [OF v(2)] by simp
qed

lemma wait_sleep_step:
  assumes "view s w" and "w c = Running p" and "wait (s\<lparr>me := c\<rparr>) = Done (Sleeps i, t)"
  shows "view t (w(c := Switching p)) \<and> keeps_new s t"
proof -
  have cp: "curproc (s\<lparr>me := c\<rparr>) = Some p" using table_invD(1) [OF assms(1), of c] assms(2) by simp
  then obtain u where u: "acquire Lptable (s\<lparr>me := c\<rparr>) = Done u" "wait_scan p u = Done (Sleeps i, t)"
    using assms(3) by (auto simp: wait_def)
  have f: "procs u = procs s" "curproc u = Some p" using acquire_effect(1) [OF u(1)] cp by (simp_all add: frozen_def)
  note t = wait_scan_Sleeps [OF u(2) f(2)]
  have "view t (w(c := Switching p))"
    by (rule sched_step_switch [OF assms(1,2) u(1)]) (simp_all add: t upd_proc_def)
  moreover have "state (procs s p) = RUNNING" using table_invD(4) [OF assms(1), of c p] assms(2) by simp
  ultimately show ?thesis by (auto simp: t upd_proc_def f)
qed

text \<open>A process is switched back to with the lock of the table held.\<close>

lemma sched_resume_view: "view (sched_resume i s) w = view s w" and sched_resume_me: "me (sched_resume i s) = me s"
  and sched_resume_procs: "procs (sched_resume i s) = procs s"
  by (rule frozen_view) (simp_all add: frozen_def sched_resume_def upd_cpu_def)

lemma pchan_view: "view (upd_proc p (\<lambda>q. q\<lparr>pchan := x\<rparr>) s) w = view s w"
proof -
  have "(\<lambda>r. state (procs (upd_proc p (\<lambda>q. q\<lparr>pchan := x\<rparr>) s) r)) = (\<lambda>r. state (procs s r))"
    by (auto simp: upd_proc_def)
  then show ?thesis by (simp add: upd_proc_def)
qed

abbreviation awake :: "nat \<Rightarrow> bool \<Rightarrow> nat \<Rightarrow> kernel \<Rightarrow> kernel" where
  "awake p i c s \<equiv> upd_proc p (\<lambda>q. q\<lparr>pchan := None\<rparr>) (sched_resume i (s\<lparr>me := c\<rparr>))"

lemma awake_facts:
  assumes "view s w" and "w c = Resumed p"
  shows "view (awake p i c s) w" and "me (awake p i c s) = c" and "curproc (sched_resume i (s\<lparr>me := c\<rparr>)) = Some p"
    and "curproc (awake p i c s) = Some p" and "state (procs (awake p i c s) q) = state (procs s q)"
  using table_invD(1) [OF assms(1), of c] assms unfolding pchan_view sched_resume_view
  by (simp_all add: sched_resume_def upd_cpu_def upd_proc_def)

lemma resumes_step:
  assumes "view s w" and "w c = Resumed p" and "yield_resume i (s\<lparr>me := c\<rparr>) = Done t"
  shows "view t (w(c := Running p)) \<and> keeps_new s t"
proof -
  have v: "view (sched_resume i (s\<lparr>me := c\<rparr>)) w" "me (sched_resume i (s\<lparr>me := c\<rparr>)) = c"
    using assms(1) by (simp_all add: sched_resume_view sched_resume_me)
  have r: "release Lptable (sched_resume i (s\<lparr>me := c\<rparr>)) = Done t" using assms(3) by (simp add: yield_resume_def)
  show ?thesis
    using release_view [OF r v(1), of p] release_effect(1) [OF r] v(2) assms(2) by (simp add: sched_resume_procs frozen_def)
qed

lemma woken_step:
  assumes "view s w" and "w c = Resumed p" and "lk \<noteq> Lptable" and "sleep_resume i lk (s\<lparr>me := c\<rparr>) = Done t"
  shows "view t (w(c := Running p)) \<and> keeps_new s t"
proof -
  note A = awake_facts [OF assms(1,2), of i]
  obtain v where v: "release Lptable (awake p i c s) = Done v" "acquire lk v = Done t"
    using assms(3,4) A(3) by (auto simp: sleep_resume_def Let_def)
  have "view v (w(c := Running p))" using release_view [OF v(1) A(1), of p] A(2) assms(2) by simp
  moreover have "view t (w(c := Running p)) = view v (w(c := Running p))"
    using acquire_effect [OF v(2)] assms(3) by (intro frozen_view) simp_all
  moreover have "procs t = procs (awake p i c s)"
    using acquire_effect(1) [OF v(2)] release_effect(1) [OF v(1)] by (simp add: frozen_def)
  ultimately show ?thesis using A(5) by simp
qed

lemma wait_resume_scan:
  assumes "view s w" and "w c = Resumed p" and "wait_resume i (s\<lparr>me := c\<rparr>) = Done x"
  shows "wait_scan p (awake p i c s) = Done x"
  using assms(3) awake_facts(3,4) [OF assms(1,2), of i] by (simp add: wait_resume_def sleep_resume_def Let_def)

lemma wait_ends_step:
  assumes "view s w" and "w c = Resumed p" and "wait_resume i (s\<lparr>me := c\<rparr>) = Done (Ret r, t)"
  shows "view t (w(c := Running p)) \<and> keeps_new s t"
proof -
  note A = awake_facts [OF assms(1,2), of i]
  obtain v where v: "release Lptable v = Done t" "scanned (awake p i c s) v"
    using wait_scan_Ret [OF wait_resume_scan [OF assms]] by blast
  have "view v w" "me v = c"
    using states_view [OF A(1), of v] scanned_states(1) [OF v(2)] v(2) A(2) by (simp_all add: scanned_def)
  then have "view t (w(c := Running p))" using release_view [OF v(1), of w p] assms(2) by simp
  moreover have "procs t = procs v" using release_effect(1) [OF v(1)] by (simp add: frozen_def)
  ultimately show ?thesis using scanned_states(2) [OF v(2)] A(5) by simp
qed

lemma wait_again_step:
  assumes "view s w" and "w c = Resumed p" and "wait_resume i (s\<lparr>me := c\<rparr>) = Done (Sleeps j, t)"
  shows "view t (w(c := Switching p)) \<and> keeps_new s t"
proof -
  note A = awake_facts [OF assms(1,2), of i]
  note t = wait_scan_Sleeps [OF wait_resume_scan [OF assms] A(4)]
  have "view t (w(c := Switching p))"
    by (rule resumed_switch [OF A(1) assms(2)]) (simp_all add: t upd_proc_def)
  moreover have "state (procs s p) = RUNNING" using table_invD(4) [OF assms(1), of c p] assms(2) by simp
  ultimately show ?thesis by (auto simp: t upd_proc_def sched_resume_procs)
qed

section \<open>Every step keeps the invariant\<close>

text \<open>The sections that end where they began, on a CPU whose spot does not change.\<close>

lemma kill_step:
  assumes "view s w" and "kill n (s\<lparr>me := c\<rparr>) = Done (r, t)"
  shows "view t w \<and> keeps_new s t"
proof -
  obtain u where u: "acquire Lptable (s\<lparr>me := c\<rparr>) = Done u" using assms(2) by (auto simp: kill_def)
  have f: "procs u = procs s" using acquire_effect(1) [OF u] by (simp add: frozen_def)
  obtain v where v: "release Lptable v = Done t" "rouses u v"
  proof (cases "List.find (\<lambda>p. pid (procs u p) = n) [0..<NPROC]")
    case None
    then show ?thesis using that [of u] assms(2) u rouses_refl by (simp add: kill_def)
  next
    case (Some q)
    let ?v = "upd_proc q (\<lambda>q. q\<lparr>killed := 1, state := (if state q = SLEEPING then RUNNABLE else state q)\<rparr>) u"
    have "release Lptable ?v = Done t" using assms(2) u Some by (simp add: kill_def Let_def)
    moreover have "rouses u ?v" by (simp add: rouses_def upd_proc_def)
    ultimately show ?thesis by (rule that)
  qed
  have "procs t = procs v" using release_effect(1) [OF v(1)] by (simp add: frozen_def)
  then show ?thesis
    using section_view [OF assms(1) u v(1)] rouses_states [OF v(2)] v(2) f by (simp add: rouses_def)
qed

lemma wakeup_step:
  assumes "view s w" and "wakeup ch (s\<lparr>me := c\<rparr>) = Done t"
  shows "view t w \<and> keeps_new s t"
proof -
  obtain u where u: "acquire Lptable (s\<lparr>me := c\<rparr>) = Done u" "release Lptable (wakeup1 ch u) = Done t"
    using assms(2) by (auto simp: wakeup_def)
  have f: "procs u = procs s" "procs t = procs (wakeup1 ch u)"
    using acquire_effect(1) [OF u(1)] release_effect(1) [OF u(2)] by (simp_all add: frozen_def)
  show ?thesis
    using section_view [OF assms(1) u] by (auto simp: f wakeup1_eq wake_all_def woken_def)
qed

lemma publish_step:
  assumes "view s w" and "state (procs s np) = EMBRYO" and "fork_publish np (s\<lparr>me := c\<rparr>) = Done t"
  shows "view t w \<and> (\<forall>q. state (procs t q) = (if q = np then RUNNABLE else state (procs s q)))"
proof -
  obtain u where u: "acquire Lptable (s\<lparr>me := c\<rparr>) = Done u" "release Lptable (upd_proc np (\<lambda>q. q\<lparr>state := RUNNABLE\<rparr>) u) = Done t"
    using assms(3) by (auto simp: fork_publish_def)
  have f: "procs u = procs s" "procs t = procs (upd_proc np (\<lambda>q. q\<lparr>state := RUNNABLE\<rparr>) u)"
    using acquire_effect(1) [OF u(1)] release_effect(1) [OF u(2)] by (simp_all add: frozen_def)
  show ?thesis
    using section_view [OF assms(1) u] assms(2) by (auto simp: f upd_proc_def)
qed

lemma alloc_step:
  assumes "view s w" and "alloc_slot (s\<lparr>me := c\<rparr>) = Done (r, t)"
  shows "view t w \<and> (\<forall>q. state (procs t q) = (if Some q = r then EMBRYO else state (procs s q)))
    \<and> (\<forall>q. r = Some q \<longrightarrow> state (procs s q) = UNUSED)"
proof -
  obtain u v where u: "acquire Lptable (s\<lparr>me := c\<rparr>) = Done u" and v: "release Lptable v = Done t" "cpus v = cpus u"
    and r: "case r of None \<Rightarrow> procs v = procs u
       | Some p \<Rightarrow> state (procs u p) = UNUSED \<and> (\<lambda>q. state (procs v q)) = (\<lambda>q. state (procs u q))(p := EMBRYO)"
    using alloc_slot_effect [OF assms(2)] by blast
  have f: "procs u = procs s" "procs t = procs v"
    using acquire_effect(1) [OF u] release_effect(1) [OF v(1)] by (simp_all add: frozen_def)
  have st: "state (procs v q) = (if Some q = r then EMBRYO else state (procs u q))" "r = Some q \<Longrightarrow> state (procs u q) = UNUSED" for q
    using r by (auto split: option.splits dest: fun_cong [of _ _ q])
  have "view t w"
    using section_view [OF assms(1) u v(1)] v(2) st by auto
  then show ?thesis using st f by simp
qed

lemma round_keeps: "scheduler_begin s = Done t \<Longrightarrow> procs t = procs s"
  by (auto simp: scheduler_begin_def sti_def frozen_def dest: acquire_effect(1))

lemma pick_keeps:
  assumes "scheduler_next i s = Done (Some p, t)"
  shows "keeps_new s t"
proof -
  have f: "List.find (\<lambda>p. state (procs s p) = RUNNABLE) [i..<NPROC] = Some p"
    using assms by (auto simp: scheduler_next_def split: option.splits)
  then obtain u where u: "switchuvm p (set_curproc (Some p) s) = Done u" "t = upd_proc p (\<lambda>q. q\<lparr>state := RUNNING\<rparr>) u"
    using assms by (auto simp: scheduler_next_def)
  have "procs u = procs s" using switchuvm_effect(1) [OF u(1)] by (simp add: frozen_def set_curproc_def upd_cpu_def)
  then show ?thesis using find_Some_state [OF f] u(2) by (auto simp: upd_proc_def)
qed

lemma round_step:
  assumes "view s w" and "w c = Idle" and "scheduler_begin (s\<lparr>me := c\<rparr>) = Done t"
  shows "view t (w(c := Scan 0)) \<and> keeps_new s t"
  using round_keeps [OF assms(3)] by (intro conjI sched_step_round [OF assms]) simp

lemma pick_step:
  assumes "view s w" and "w c = Scan i" and "scheduler_next i (s\<lparr>me := c\<rparr>) = Done (Some p, t)"
  shows "view t (w(c := Resumed p)) \<and> keeps_new s t"
  using pick_keeps [OF assms(3)] by (intro conjI sched_step_pick [OF assms]) simp

lemma no_more_step:
  assumes "view s w" and "w c = Scan i" and "scheduler_next i (s\<lparr>me := c\<rparr>) = Done (None, t)"
  shows "view t (w(c := Idle)) \<and> keeps_new s t"
proof -
  have r: "release Lptable (s\<lparr>me := c\<rparr>) = Done t" using assms(3) by (auto simp: scheduler_next_def split: option.splits)
  show ?thesis
    using release_view [OF r, of w _ i] release_effect(1) [OF r] assms(1,2) by (simp add: frozen_def)
qed

lemma starts_step:
  assumes "view s w" and "w c = Resumed p" and "release Lptable (s\<lparr>me := c\<rparr>) = Done t"
  shows "view t (w(c := Running p)) \<and> keeps_new s t"
  using release_view [OF assms(3), of w p] release_effect(1) [OF assms(3)] assms(1,2) by (simp add: frozen_def)

lemma switches_step:
  assumes "view s w" and "w c = Switching p"
  shows "view (scheduler_back (s\<lparr>me := c\<rparr>)) (w(c := Scan i)) \<and> keeps_new s (scheduler_back (s\<lparr>me := c\<rparr>))"
proof -
  let ?t = "scheduler_back (s\<lparr>me := c\<rparr>)"
  have "(\<lambda>d. cproc (cpus ?t d)) = (\<lambda>d. cproc (cpus s d))(c := None)" "procs ?t = procs s" "locks ?t = locks s"
    by (auto simp: scheduler_back_def set_curproc_def upd_cpu_def switchkvm_def)
  then show ?thesis using table_back [OF assms] by simp
qed

fun sched_inv :: "kernel \<times> (nat \<Rightarrow> spot) \<times> (nat \<rightharpoonup> nat) \<Rightarrow> bool" where
  "sched_inv (s, w, e) = (view s w \<and> owned e s)"

lemma owned_drop:
  assumes "owned e s" and "e p = Some np" and "\<And>q. q \<noteq> np \<Longrightarrow> state (procs t q) = state (procs s q)"
  shows "owned (e(p := None)) t"
proof -
  have inj: "a = p" if "e a = Some np" for a using assms(1,2) that unfolding owned_def by blast
  have st: "state (procs s x) = EMBRYO" if "e a = Some x" for a x using assms(1) that unfolding owned_def by blast
  have u: "a = b" if "e a = Some x" "e b = Some x" for a b x using assms(1) that unfolding owned_def by blast
  have "state (procs t x) = EMBRYO" if "(e(p := None)) a = Some x" for a x
  proof -
    have a: "a \<noteq> p" "e a = Some x" using that by (auto split: if_splits)
    then have "x \<noteq> np" using inj by blast
    then show ?thesis using assms(3) st [OF a(2)] by simp
  qed
  then show ?thesis using u unfolding owned_def by (auto split: if_splits)
qed

lemma sched_inv_keeps: "sched_inv (s, v, e) \<Longrightarrow> (view s v \<Longrightarrow> view t w \<and> keeps_new s t) \<Longrightarrow> sched_inv (t, w, e)"
  unfolding sched_inv.simps using owned_keep by blast

lemma sched_inv_step:
  assumes "pstep x y" and "sched_inv x"
  shows "sched_inv y"
  using assms
proof (induction rule: pstep.induct)
  case (gives_up w c p e np t s)
  have E: "state (procs s np) = EMBRYO" using gives_up(2,4) by (simp add: owned_def)
  have t: "cpus t = cpus s" "locks t = locks s" "\<And>q. state (procs t q) = (if q = np then UNUSED else state (procs s q))"
    using gives_up(3) by (simp_all add: upd_proc_def)
  have "view t w" using states_view [of s w t] gives_up(4) t E by auto
  moreover have "owned (e(p := None)) t" using owned_drop [of e s p np t] gives_up(2,4) t(3) by simp
  ultimately show ?case by simp
next
  case (publishes w c p e np s t)
  have E: "state (procs s np) = EMBRYO" using publishes(2,4) by (simp add: owned_def)
  have "view t w \<and> (\<forall>q. state (procs t q) = (if q = np then RUNNABLE else state (procs s q)))"
    by (rule publish_step [OF _ E publishes(3)]) (use publishes(4) in simp)
  moreover from this have "owned (e(p := None)) t" using owned_drop [of e s p np t] publishes(2,4) by simp
  ultimately show ?case unfolding sched_inv.simps by blast
next
  case (allocates w c p e s r t)
  have v: "view s w" "owned e s" using allocates(4) by simp_all
  have a: "view t w" "\<And>q. state (procs t q) = (if Some q = r then EMBRYO else state (procs s q))"
    "\<And>q. r = Some q \<Longrightarrow> state (procs s q) = UNUSED"
    using alloc_step [OF v(1) allocates(3)] by blast+
  have "owned (e(p := r)) t" using v(2) a(2,3) unfolding owned_def by (auto split: if_splits)
  then show ?case using a(1) by simp
next
  case (works t s w e)
  show ?case by (rule sched_inv_keeps [OF works(4)], intro conjI states_view [of s w t]) (simp_all add: works(1-3))
next
  case (switches w c p t s e)
  show ?case unfolding switches(2) by (rule sched_inv_keeps [OF switches(3)], rule switches_step [where w = w and c = c and p = p]) (assumption | rule switches(1))+
next
  case (round w c s t e)
  show ?case by (rule sched_inv_keeps [OF round(3)], rule round_step [where w = w and c = c]) (assumption | rule round(1,2))+
next
  case (pick w c i s p t e)
  show ?case by (rule sched_inv_keeps [OF pick(3)], rule pick_step [where w = w and c = c and p = p and i = i]) (assumption | rule pick(1,2))+
next
  case (no_more w c i s t e)
  show ?case by (rule sched_inv_keeps [OF no_more(3)], rule no_more_step [where w = w and c = c and i = i]) (assumption | rule no_more(1,2))+
next
  case (starts w c p s t e)
  show ?case by (rule sched_inv_keeps [OF starts(3)], rule starts_step [where w = w and c = c and p = p]) (assumption | rule starts(1,2))+
next
  case (resumes w c p i s t e)
  show ?case by (rule sched_inv_keeps [OF resumes(3)], rule resumes_step [where w = w and c = c and p = p and i = i]) (assumption | rule resumes(1,2))+
next
  case (woken_up w c p lk i s t e)
  show ?case by (rule sched_inv_keeps [OF woken_up(4)], rule woken_step [where w = w and c = c and p = p and i = i]) (assumption | rule woken_up(1,2,3))+
next
  case (yields w c p s i t e)
  show ?case by (rule sched_inv_keeps [OF yields(3)], rule yield_step [where w = w and c = c and p = p and i = i]) (assumption | rule yields(1,2))+
next
  case (sleeps w c p lk ch s i t e)
  show ?case by (rule sched_inv_keeps [OF sleeps(4)], rule sleep_step [where w = w and c = c and p = p and i = i]) (assumption | rule sleeps(1,3,2))+
next
  case (kills w c p n s r t e)
  show ?case by (rule sched_inv_keeps [OF kills(3)], rule kill_step [where w = w and c = c]) (assumption | rule kills(2))+
next
  case (wakes w c p ch s t e)
  show ?case by (rule sched_inv_keeps [OF wakes(3)], rule wakeup_step [where w = w and c = c]) (assumption | rule wakes(2))+
next
  case (exits w c p s i t e)
  show ?case by (rule sched_inv_keeps [OF exits(3)], rule exit_step [where w = w and c = c and p = p and i = i]) (assumption | rule exits(1,2))+
next
  case (waits w c p s r t e)
  show ?case by (rule sched_inv_keeps [OF waits(3)], rule wait_ret_step [where w = w and c = c and p = p]) (assumption | rule waits(1,2))+
next
  case (wait_sleeps w c p s i t e)
  show ?case by (rule sched_inv_keeps [OF wait_sleeps(3)], rule wait_sleep_step [where w = w and c = c and p = p and i = i]) (assumption | rule wait_sleeps(1,2))+
next
  case (wait_ends w c p i s r t e)
  show ?case by (rule sched_inv_keeps [OF wait_ends(3)], rule wait_ends_step [where w = w and c = c and p = p and i = i]) (assumption | rule wait_ends(1,2))+
next
  case (wait_again w c p i s j t e)
  show ?case by (rule sched_inv_keeps [OF wait_again(3)], rule wait_again_step [where w = w and c = c and p = p and i = i]) (assumption | rule wait_again(1,2))+
qed

lemma sched_inv_reach: "pstep\<^sup>*\<^sup>* x y \<Longrightarrow> sched_inv x \<Longrightarrow> sched_inv y"
  by (induction rule: rtranclp_induct) (auto intro: sched_inv_step)

end
