(* ===== verification/Vm_Correct.thy ===== *)
theory Vm_Correct
  imports Vm
begin

text \<open>
  Page tables as maps. \<open>pte_val m pd va\<close> is the entry that the hardware finds for \<open>va\<close> (zero when the
  page table is missing). Walking with allocation changes no entry, and mapping a page changes
  exactly its own entry.
\<close>

section \<open>Slots\<close>

lemma PDX_less: "unat (PDX va) < 1024" and PTX_less: "unat (PTX va) < 1024"
proof -
  have "unat (w AND 0x3FF) < 1024" for w :: u32
  proof -
    have "w AND 0x3FF = take_bit 10 w" by (simp add: take_bit_eq_mask mask_eq_exp_minus_1)
    then show ?thesis using take_bit_nat_less_exp [of 10 "unat w"] by (simp add: unsigned_take_bit_eq)
  qed
  then show "unat (PDX va) < 1024" "unat (PTX va) < 1024" by (simp_all add: PDX_def PTX_def)
qed

definition aligned_page :: "u32 \<Rightarrow> bool" where
  "aligned_page p \<longleftrightarrow> 4096 dvd unat p"

lemma page_ok_aligned: "page_ok L p \<Longrightarrow> aligned_page p"
  using page_ok_unat by (simp add: aligned_page_def)

lemma slot_unat:
  assumes "aligned_page p" and "unat i < 1024"
  shows "unat (p + 4 * i) = unat p + 4 * unat i"
proof -
  have "unat p + 4096 \<le> 2 ^ 32" using aligned_room [of 4096 p] assms(1) by (simp add: aligned_page_def)
  moreover have "unat (4 * i) = 4 * unat i" using assms(2) by (simp add: unat_word_ariths)
  ultimately show ?thesis using assms(2) by (subst unat_add_u32) simp_all
qed

lemma slot_aligned: "aligned_page p \<Longrightarrow> unat i < 1024 \<Longrightarrow> 4 dvd unat (p + 4 * i)"
  using slot_unat [of p i] by (auto simp: aligned_page_def)

lemma slot_range:
  assumes "aligned_page p" and "unat i < 1024" and "in_range (p + 4 * i) 4 x"
  shows "in_range p 4096 x"
proof -
  have room: "unat p + 4096 \<le> 2 ^ 32" using aligned_room [of 4096 p] assms(1) by (simp add: aligned_page_def)
  have o: "off (p + 4 * i) x < 4" using assms(3) by (simp add: in_range_def)
  then have "unat x = unat p + 4 * unat i + off (p + 4 * i) x"
    using unat_off [of "p + 4 * i" x] slot_unat [OF assms(1,2)] assms(2) room by simp
  then have "off p x = 4 * unat i + off (p + 4 * i) x"
    by (simp add: off_def unat_sub word_le_nat_alt)
  then show ?thesis using o assms(2) by (simp add: in_range_def)
qed

lemma slot_inj:
  assumes "aligned_page p" and "aligned_page q" and "unat i < 1024" and "unat j < 1024" and "p + 4 * i = q + 4 * j"
  shows "p = q \<and> i = j"
proof -
  have self: "in_range a 4 a" for a by (simp add: in_range_def)
  have "in_range p 4096 (p + 4 * i)" "in_range q 4096 (p + 4 * i)"
    using slot_range [OF assms(1,3) self] slot_range [OF assms(2,4) self] assms(5) by simp_all
  then have pq: "p = q"
    using aligned_disjoint [of 4096 p q] assms(1,2) by (auto simp: aligned_page_def)
  then have "unat i = unat j" using assms slot_unat by (metis add_left_cancel mult_left_cancel zero_neq_numeral)
  then show ?thesis using pq by (simp add: word_unat_eq_iff)
qed

section \<open>Address spaces\<close>

definition pde_of :: "mem \<Rightarrow> u32 \<Rightarrow> u32 \<Rightarrow> u32" where
  "pde_of m pd i = load32 m (pd + 4 * i)"

definition table_of :: "mem \<Rightarrow> u32 \<Rightarrow> u32 \<Rightarrow> u32" where
  "table_of m pd i = p2v (PTE_ADDR (pde_of m pd i))"

definition present :: "u32 \<Rightarrow> bool" where
  "present e \<longleftrightarrow> e AND PTE_P \<noteq> 0"

definition pte_val :: "mem \<Rightarrow> u32 \<Rightarrow> u32 \<Rightarrow> u32" where
  "pte_val m pd va = (if present (pde_of m pd (PDX va)) then load32 m (table_of m pd (PDX va) + 4 * PTX va) else 0)"

text \<open>
  \<open>pt_inv s pd ps\<close>: the directory \<open>pd\<close> and its page tables are pages of the allocator that are in use
  (not among the free pages \<open>ps\<close>), and different directory slots have different tables.
\<close>

definition pt_inv :: "kernel \<Rightarrow> u32 \<Rightarrow> u32 list \<Rightarrow> bool" where
  "pt_inv s pd ps \<longleftrightarrow> kmem_inv s ps \<and> page_ok (syms s) pd \<and> pd \<notin> set ps
     \<and> (\<forall>i. unat i < 1024 \<longrightarrow> present (pde_of (mem s) pd i) \<longrightarrow>
          page_ok (syms s) (table_of (mem s) pd i) \<and> table_of (mem s) pd i \<noteq> pd \<and> table_of (mem s) pd i \<notin> set ps
          \<and> (\<forall>j. unat j < 1024 \<longrightarrow> present (pde_of (mem s) pd j) \<longrightarrow>
               table_of (mem s) pd i = table_of (mem s) pd j \<longrightarrow> i = j))"

lemma pt_invD:
  assumes "pt_inv s pd ps"
  shows "kmem_inv s ps" and "page_ok (syms s) pd" and "pd \<notin> set ps" and "aligned_page pd"
    and "unat i < 1024 \<Longrightarrow> present (pde_of (mem s) pd i) \<Longrightarrow> page_ok (syms s) (table_of (mem s) pd i)"
    and "unat i < 1024 \<Longrightarrow> present (pde_of (mem s) pd i) \<Longrightarrow> table_of (mem s) pd i \<noteq> pd"
    and "unat i < 1024 \<Longrightarrow> present (pde_of (mem s) pd i) \<Longrightarrow> table_of (mem s) pd i \<notin> set ps"
    and "unat i < 1024 \<Longrightarrow> unat j < 1024 \<Longrightarrow> present (pde_of (mem s) pd i) \<Longrightarrow> present (pde_of (mem s) pd j) \<Longrightarrow>
      table_of (mem s) pd i = table_of (mem s) pd j \<Longrightarrow> i = j"
  using assms page_ok_aligned by (auto simp: pt_inv_def)

text \<open>An entry survives any write outside the four bytes of its slot.\<close>

lemma slot_load_other:
  assumes "aligned_page p" and "unat i < 1024" and "4 dvd unat a" and "a \<noteq> p + 4 * i"
  shows "load32 (store32 m a v) (p + 4 * i) = load32 m (p + 4 * i)"
  using load32_store32_other [of a "p + 4 * i"] slot_aligned [OF assms(1,2)] assms(3,4) by auto

lemma slot_load_cong:
  assumes "aligned_page p" and "unat i < 1024" and "\<And>x. in_range p 4096 x \<Longrightarrow> m' x = m x"
  shows "load32 m' (p + 4 * i) = load32 m (p + 4 * i)"
  using slot_range [OF assms(1,2)] assms(3) by (intro load32_cong) blast

lemma table_entry_frame:
  assumes "page_ok L p" and "page_ok L q" and "p \<noteq> q" and "unat i < 1024"
    and "\<And>x. \<not> in_range q 4096 x \<Longrightarrow> m' x = m x"
  shows "load32 m' (p + 4 * i) = load32 m (p + 4 * i)"
  using page_range_neq [OF assms(1,2,3)] assms(5)
  by (intro slot_load_cong page_ok_aligned [OF assms(1)] assms(4)) blast

lemma kmem_inv_mem:
  assumes "kmem_inv s ps" and "page_ok (syms s) q" and "q \<notin> set ps" and "\<And>x. \<not> in_range q 4096 x \<Longrightarrow> m x = mem s x"
  shows "kmem_inv (s\<lparr>mem := m\<rparr>) ps"
proof -
  have "flist m (freelist s) ps = flist (mem s) (freelist s) ps"
  proof (rule flist_frame)
    fix p x
    assume p: "p \<in> set ps" "in_range p 4 x"
    have "page_ok (syms s) p" "p \<noteq> q" using assms(1,3) p(1) by (auto simp: kmem_inv_def)
    then show "m x = mem s x"
      using page_range_neq [of "syms s" p q x] in_range_mono [OF p(2), of 4096] assms(2,4) by auto
  qed
  then show ?thesis using assms(1) by (simp add: kmem_inv_def)
qed

lemma slot_write_outside:
  "page_ok L p \<Longrightarrow> unat i < 1024 \<Longrightarrow> \<not> in_range p 4096 x \<Longrightarrow> store32 m (p + 4 * i) v x = m x"
  using slot_range [OF page_ok_aligned] store32_other by blast

section \<open>Entries\<close>

lemma frame_bits: "unat w mod 4096 = 0 \<Longrightarrow> w AND 0xFFF = (0 :: u32)"
proof -
  assume "unat w mod 4096 = 0"
  then have "take_bit 12 (unat w) = 0" by (simp add: take_bit_eq_mod)
  then have "unat (take_bit 12 w) = 0" by (simp add: unsigned_take_bit_eq)
  then have "take_bit 12 w = 0" by (simp add: unat_eq_0)
  then show ?thesis by (simp add: take_bit_eq_mask mask_eq_exp_minus_1)
qed

lemma PTE_ADDR_or:
  assumes "unat w mod 4096 = 0" and "f AND NOT 0xFFF = 0"
  shows "PTE_ADDR (w OR f) = w"
proof -
  have "w = (w AND M) OR (w AND NOT M)" for M :: u32
    by (rule bit_word_eqI) (auto simp: bit_simps)
  from this [of "0xFFF"] have "w AND NOT 0xFFF = w"
    unfolding frame_bits [OF assms(1)] by simp
  then show ?thesis using assms(2) by (simp add: PTE_ADDR_def bit.conj_disj_distrib2)
qed

lemma v2p_aligned: "page_ok L p \<Longrightarrow> unat (v2p p) mod 4096 = 0"
proof -
  assume p: "page_ok L p"
  then have "p - 0x80000000 < 0xE000000" by (simp add: page_ok_def layout_defs)
  then have lt: "unat (p - 0x80000000) < 0xE000000" by (simp add: word_less_nat_alt)
  have "0x80000000 \<le> unat p"
    using lt unat_u32 [of p] by (simp add: unat_sub_if' split: if_splits)
  then have "unat (p - 0x80000000) = unat p - 0x80000000" by (simp add: unat_sub word_le_nat_alt)
  moreover have "4096 dvd unat p - 0x80000000"
    using page_ok_unat [OF p] by (intro dvd_diff_nat) auto
  ultimately show ?thesis by (simp add: v2p_def KERNBASE_def)
qed

lemma present_or [simp]: "present (w OR PTE_P)" "present (w OR (PTE_P OR f))" "present (w OR (f OR PTE_P))"
proof -
  have "bit ((w OR PTE_P) AND PTE_P) 0" "bit ((w OR (PTE_P OR f)) AND PTE_P) 0" "bit ((w OR (f OR PTE_P)) AND PTE_P) 0"
    by (simp_all add: PTE_P_def bit_simps)
  then show "present (w OR PTE_P)" "present (w OR (PTE_P OR f))" "present (w OR (f OR PTE_P))"
    by (metis bit_0_eq present_def bot_apply bot_bool_def)+
qed

text \<open>Writing an entry of a table in use.\<close>

lemma set_pte:
  assumes "pt_inv s pd ps" and "present (pde_of (mem s) pd (PDX va))"
    and "m = store32 (mem s) (table_of (mem s) pd (PDX va) + 4 * PTX va) v"
  shows "pt_inv (s\<lparr>mem := m\<rparr>) pd ps" and "pte_val m pd va = v"
    and "(PDX va', PTX va') \<noteq> (PDX va, PTX va) \<Longrightarrow> pte_val m pd va' = pte_val (mem s) pd va'"
proof -
  note inv = pt_invD [OF assms(1)]
  let ?t = "table_of (mem s) pd (PDX va)"
  have t: "page_ok (syms s) ?t" "?t \<noteq> pd" "?t \<notin> set ps" using inv(5-7) PDX_less assms(2) by blast+
  have out: "\<And>x. \<not> in_range ?t 4096 x \<Longrightarrow> m x = mem s x"
    unfolding assms(3) by (rule slot_write_outside [OF t(1) PTX_less])
  have pde: "pde_of m pd i = pde_of (mem s) pd i" if "unat i < 1024" for i
    unfolding pde_of_def using table_entry_frame [OF inv(2) t(1) t(2) [symmetric] that out] .
  then have tab: "table_of m pd i = table_of (mem s) pd i" if "unat i < 1024" for i
    using that by (simp add: table_of_def)
  have "kmem_inv (s\<lparr>mem := m\<rparr>) ps" by (rule kmem_inv_mem [OF inv(1) t(1,3) out])
  then show "pt_inv (s\<lparr>mem := m\<rparr>) pd ps"
    using assms(1) pde tab by (simp add: pt_inv_def)
  show "pte_val m pd va = v"
    using pde [OF PDX_less] tab [OF PDX_less] assms(2) by (simp add: pte_val_def) (simp add: assms(3))
  assume ne: "(PDX va', PTX va') \<noteq> (PDX va, PTX va)"
  show "pte_val m pd va' = pte_val (mem s) pd va'"
  proof (cases "present (pde_of (mem s) pd (PDX va'))")
    case True
    let ?u = "table_of (mem s) pd (PDX va')"
    have u: "aligned_page ?u" "aligned_page ?t"
      using inv(5) [OF PDX_less True] t(1) page_ok_aligned by blast+
    have "?t + 4 * PTX va \<noteq> ?u + 4 * PTX va'"
    proof
      assume "?t + 4 * PTX va = ?u + 4 * PTX va'"
      then have "?t = ?u" "PTX va = PTX va'" using slot_inj [OF u(2,1) PTX_less PTX_less] by blast+
      then show False using inv(8) [OF PDX_less PDX_less assms(2) True] ne by simp
    qed
    then have "load32 m (?u + 4 * PTX va') = load32 (mem s) (?u + 4 * PTX va')"
      unfolding assms(3) using slot_aligned [OF u(2) PTX_less] by (intro slot_load_other u(1) PTX_less)
    then show ?thesis using True pde [OF PDX_less] tab [OF PDX_less] by (simp add: pte_val_def)
  next
    case False
    then show ?thesis using pde [OF PDX_less] by (simp add: pte_val_def)
  qed
qed

text \<open>A fresh, zeroed page table \<open>p\<close> in a directory slot that was not present changes no entry.\<close>

lemma load32_zero: "(\<And>x. in_range a 4 x \<Longrightarrow> m x = 0) \<Longrightarrow> load32 m a = 0"
  using load32_cong [of a m "\<lambda>_. 0"] by (simp add: load32_def)

lemma new_table:
  assumes "pt_inv s pd (p # ps)" and "kmem_inv t ps" and "mem t = mem s" and "syms t = syms s"
    and "\<not> present (pde_of (mem s) pd i)" and "unat i < 1024"
    and "m = store32 (memset p 0 PGSIZE (mem s)) (pd + 4 * i) (v2p p OR PTE_P OR PTE_W OR PTE_U)"
  shows "pt_inv (t\<lparr>mem := m\<rparr>) pd ps" and "present (pde_of m pd i)" and "table_of m pd i = p"
    and "pte_val m pd va = pte_val (mem s) pd va"
proof -
  note inv = pt_invD [OF assms(1)]
  have p: "page_ok (syms s) p" "p \<noteq> pd" "p \<notin> set ps" "pd \<notin> set ps"
    using inv(1,3) by (auto simp: kmem_inv_def)
  let ?e = "v2p p OR PTE_P OR PTE_W OR PTE_U"
  have pd: "page_ok (syms s) pd" "aligned_page pd" using inv(2,4) by simp_all
  have e: "present ?e" "p2v (PTE_ADDR ?e) = p"
    using PTE_ADDR_or [OF v2p_aligned [OF p(1)], of "PTE_P OR PTE_W OR PTE_U"]
    by (simp_all add: or.assoc p2v_def v2p_def) (simp add: mmu_defs)
  have set: "memset p 0 PGSIZE (mem s) x = (if in_range p 4096 x then 0 else mem s x)" for x
    by (simp add: memset_spec PGSIZE_def)
  have m_pd: "m x = memset p 0 PGSIZE (mem s) x" if "\<not> in_range pd 4096 x" for x
    unfolding assms(7) by (rule slot_write_outside [OF pd(1) assms(6) that])
  have pde: "pde_of m pd j = (if j = i then ?e else pde_of (mem s) pd j)" if j: "unat j < 1024" for j
  proof -
    have "load32 m (pd + 4 * j) = (if j = i then ?e else load32 (memset p 0 PGSIZE (mem s)) (pd + 4 * j))"
    proof (cases "j = i")
      case False
      then have "pd + 4 * i \<noteq> pd + 4 * j" using slot_inj [OF pd(2) pd(2) assms(6) j] by blast
      then show ?thesis
        unfolding assms(7) using slot_load_other [OF pd(2) j slot_aligned [OF pd(2) assms(6)]] False by simp
    qed (simp add: assms(7))
    moreover have "load32 (memset p 0 PGSIZE (mem s)) (pd + 4 * j) = load32 (mem s) (pd + 4 * j)"
      by (rule table_entry_frame [OF pd(1) p(1) p(2) [symmetric] j]) (simp add: set)
    ultimately show ?thesis by (simp add: pde_of_def)
  qed
  then show pr: "present (pde_of m pd i)" and tb: "table_of m pd i = p"
    using e assms(6) by (simp_all add: table_of_def)
  have tab: "table_of m pd j = table_of (mem s) pd j" "present (pde_of m pd j) = present (pde_of (mem s) pd j)"
    if "unat j < 1024" "j \<noteq> i" for j
    using pde that by (simp_all add: table_of_def)
  have km1: "kmem_inv (t\<lparr>mem := memset p 0 PGSIZE (mem s)\<rparr>) ps"
    using assms(3,4) p by (intro kmem_inv_mem [OF assms(2), of p]) (simp_all add: set)
  have km: "kmem_inv (t\<lparr>mem := m\<rparr>) ps"
    using kmem_inv_mem [OF km1, of pd m] assms(4) pd(1) p(4) m_pd by simp
  have old: "page_ok (syms s) (table_of (mem s) pd j)" "table_of (mem s) pd j \<noteq> pd" "table_of (mem s) pd j \<noteq> p"
    "table_of (mem s) pd j \<notin> set ps" if "unat j < 1024" "present (pde_of (mem s) pd j)" for j
    using inv(5,6,7) [OF that] by auto
  have tb_j: "page_ok (syms s) (table_of m pd j) \<and> table_of m pd j \<noteq> pd \<and> table_of m pd j \<notin> set ps \<and> (table_of m pd j = p \<longrightarrow> j = i)"
    if "unat j < 1024" "present (pde_of m pd j)" for j
    using that tb p old tab by (cases "j = i") auto
  have inj: "j = k" if "unat j < 1024" "unat k < 1024" "present (pde_of m pd j)" "present (pde_of m pd k)"
    "table_of m pd j = table_of m pd k" for j k
  proof (cases "j = i \<or> k = i")
    case True
    then show ?thesis using that tb tb_j [of j] tb_j [of k] by auto
  next
    case False
    then show ?thesis using that tab inv(8) [of j k] by auto
  qed
  show "pt_inv (t\<lparr>mem := m\<rparr>) pd ps"
    unfolding pt_inv_def using km pd(1) p(4) assms(4) tb_j inj by simp
  show "pte_val m pd va = pte_val (mem s) pd va"
  proof (cases "PDX va = i")
    case True
    have "m x = 0" if "in_range (p + 4 * PTX va) 4 x" for x
      using slot_range [OF page_ok_aligned [OF p(1)] PTX_less that] page_range_neq [OF p(1) pd(1) p(2)] m_pd set by simp
    then have "load32 m (p + 4 * PTX va) = 0" by (rule load32_zero)
    then show ?thesis using True assms(5) pr tb by (simp add: pte_val_def)
  next
    case False
    have "load32 m (table_of (mem s) pd (PDX va) + 4 * PTX va) = load32 (mem s) (table_of (mem s) pd (PDX va) + 4 * PTX va)"
      if pr: "present (pde_of (mem s) pd (PDX va))"
    proof (rule slot_load_cong [OF page_ok_aligned [OF old(1) [OF PDX_less pr]] PTX_less])
      fix x
      assume "in_range (table_of (mem s) pd (PDX va)) 4096 x"
      then have "\<not> in_range pd 4096 x" "\<not> in_range p 4096 x"
        using page_range_neq old(1-3) [OF PDX_less pr] pd(1) p(1) by blast+
      then show "m x = mem s x" using m_pd set by simp
    qed
    then show ?thesis using tab [OF PDX_less False] by (simp add: pte_val_def)
  qed
qed

lemma walk_alloc:
  assumes "pt_inv s pd ps"
  obtains (ok) s' ps' where "walkpgdir pd va True s = Done (table_of (mem s') pd (PDX va) + 4 * PTX va, s')"
      and "pt_inv s' pd ps'" and "present (pde_of (mem s') pd (PDX va))"
      and "\<And>va'. pte_val (mem s') pd va' = pte_val (mem s) pd va'" and "length ps \<le> length ps' + 1"
  | (oom) s' where "ps = []" and "\<not> present (pde_of (mem s) pd (PDX va))" and "walkpgdir pd va True s = Done (0, s')"
      and "pt_inv s' pd []" and "mem s' = mem s"
proof (cases "present (pde_of (mem s) pd (PDX va))")
  case True
  then have "walkpgdir pd va True s = Done (table_of (mem s) pd (PDX va) + 4 * PTX va, s)"
    by (simp add: walkpgdir_def Let_def present_def pde_of_def table_of_def)
  then show ?thesis using ok assms True by simp
next
  case False
  note inv = pt_invD [OF assms]
  from inv(1) show ?thesis
  proof (cases rule: kalloc_inv)
    case (none s')
    then have "walkpgdir pd va True s = Done (0, s')"
      using False by (simp add: walkpgdir_def Let_def present_def pde_of_def)
    moreover have "pt_inv s' pd []" using assms none by (simp add: pt_inv_def)
    ultimately show ?thesis using oom none(1,4) False by blast
  next
    case (some p ps' t)
    let ?m = "store32 (memset p 0 PGSIZE (mem s)) (pd + 4 * PDX va) (v2p p OR PTE_P OR PTE_W OR PTE_U)"
    have a: "pt_inv s pd (p # ps')" using assms some(1) by simp
    note nt = new_table [OF a some(3,5,6) False PDX_less refl]
    have "walkpgdir pd va True s = Done (p + 4 * PTX va, t\<lparr>mem := ?m\<rparr>)"
      using False some(2,5) page_ok_nonzero [OF some(4)] by (simp add: walkpgdir_def Let_def present_def pde_of_def)
    then show ?thesis using ok [of "t\<lparr>mem := ?m\<rparr>" ps'] nt some(1) by simp
  qed
qed

section \<open>Mapping pages\<close>

definition vpn :: "u32 \<Rightarrow> u32" where
  "vpn va = drop_bit 12 va"

lemma vpn_eq: "vpn va = vpn vb \<longleftrightarrow> PDX va = PDX vb \<and> PTX va = PTX vb"
proof -
  have "drop_bit 12 v = push_bit 10 (PDX v) OR PTX v" for v :: u32
  proof (rule bit_word_eqI)
    fix n
    assume n: "n < LENGTH(32)"
    have m: "(0x3FF :: u32) = mask 10" by (simp add: mask_eq_exp_minus_1)
    show "bit (drop_bit 12 v) n = bit (push_bit 10 (PDX v) OR PTX v) n"
      using n bit_imp_le_length [of v "12 + n"] unfolding PDX_def PTX_def m by (auto simp: bit_simps)
  qed
  moreover have "PDX v = drop_bit 10 (drop_bit 12 v)" for v :: u32
  proof (rule bit_word_eqI)
    fix n
    have m: "(0x3FF :: u32) = mask 10" by (simp add: mask_eq_exp_minus_1)
    show "bit (PDX v) n = bit (drop_bit 10 (drop_bit 12 v)) n"
      using bit_imp_le_length [of v "22 + n"] unfolding PDX_def m by (auto simp: bit_simps)
  qed
  ultimately show ?thesis unfolding vpn_def PTX_def by metis
qed

lemma vpn_unat: "unat (vpn va) = unat va div 4096"
  by (simp add: vpn_def unsigned_drop_bit_eq drop_bit_eq_div take_bit_eq_mod unat_u32 unat_div)

lemma pte_val_vpn: "vpn va = vpn vb \<Longrightarrow> pte_val m pd va = pte_val m pd vb"
  by (simp add: vpn_eq pte_val_def)

definition page_at :: "u32 \<Rightarrow> nat \<Rightarrow> u32" where
  "page_at a k = a + of_nat (4096 * k)"

lemma page_at_0 [simp]: "page_at a 0 = a"
  by (simp add: page_at_def)

lemma page_at_Suc: "page_at a (Suc k) = page_at (a + PGSIZE) k"
  by (simp add: page_at_def PGSIZE_def algebra_simps)

lemma vpn_page_at:
  assumes "unat a + 4096 * n < 2 ^ 32" and "k \<le> n"
  shows "unat (vpn (page_at a k)) = unat a div 4096 + k"
proof -
  have "4096 * k < 2 ^ 32" "unat a + 4096 * k < 2 ^ 32" using assms by linarith+
  then have "unat (page_at a k) = unat a + 4096 * k"
    unfolding page_at_def by (subst unat_add_u32) (simp_all add: unat_of_nat del: of_nat_mult)
  then show ?thesis by (simp add: vpn_unat)
qed

text \<open>One page: the step of the loop.\<close>

lemma map_step:
  assumes "pt_inv s pd ps" and "ps \<noteq> []" and "\<not> present (pte_val (mem s) pd a)"
  obtains t ps' where "pt_inv t pd ps'" and "length ps \<le> length ps' + 1"
    and "pte_val (mem t) pd a = pa OR perm OR PTE_P" and "\<And>va. vpn va \<noteq> vpn a \<Longrightarrow> pte_val (mem t) pd va = pte_val (mem s) pd va"
    and "map_page pd a pa perm s = Done (0, t)"
proof -
  from assms(1) show ?thesis
  proof (cases rule: walk_alloc [of s pd ps a])
    case (ok s' ps')
    let ?slot = "table_of (mem s') pd (PDX a) + 4 * PTX a"
    let ?m = "store32 (mem s') ?slot (pa OR perm OR PTE_P)"
    note st = set_pte [OF ok(2,3), of ?m "pa OR perm OR PTE_P", OF refl]
    have tp: "page_ok (syms s') (table_of (mem s') pd (PDX a))"
      using pt_invD(5) [OF ok(2) PDX_less ok(3)] .
    have "unat ?slot = unat (table_of (mem s') pd (PDX a)) + 4 * unat (PTX a)"
      by (rule slot_unat [OF page_ok_aligned [OF tp] PTX_less])
    then have nz: "?slot \<noteq> 0" using page_ok_nonzero [OF tp] by (metis add_is_0 unat_0 unat_eq_0)
    have "load32 (mem s') ?slot = pte_val (mem s') pd a" using ok(3) by (simp add: pte_val_def)
    then have absent: "load32 (mem s') ?slot AND PTE_P = 0" using assms(3) ok(4) by (simp add: present_def)
    show ?thesis
    proof (rule that [of "s'\<lparr>mem := ?m\<rparr>" ps'])
      show "pte_val (mem (s'\<lparr>mem := ?m\<rparr>)) pd va = pte_val (mem s) pd va" if "vpn va \<noteq> vpn a" for va
        using st(3) [of va] that ok(4) by (auto simp: vpn_eq)
    qed (use ok st nz absent in \<open>auto simp: map_page_def\<close>)
  next
    case (oom s')
    then show ?thesis using assms(2) by simp
  qed
qed

lemma mappages_loop_ok:
  assumes "pt_inv s pd ps" and "n < length ps" and "\<forall>k\<le>n. \<not> present (pte_val (mem s) pd (page_at a k))"
    and "unat a + 4096 * n < 2 ^ 32"
  shows "\<exists>s' ps'. mappages_loop pd a n pa perm s = Done (0, s') \<and> pt_inv s' pd ps'
    \<and> (\<forall>k\<le>n. pte_val (mem s') pd (page_at a k) = page_at pa k OR perm OR PTE_P)
    \<and> (\<forall>va. (\<forall>k\<le>n. vpn va \<noteq> vpn (page_at a k)) \<longrightarrow> pte_val (mem s') pd va = pte_val (mem s) pd va)"
  using assms
proof (induction n arbitrary: a pa s ps)
  case 0
  have "ps \<noteq> []" "\<not> present (pte_val (mem s) pd a)" using "0.prems" by auto
  from map_step [OF "0.prems"(1) this, of pa perm] obtain t ps' where t: "pt_inv t pd ps'"
    "pte_val (mem t) pd a = pa OR perm OR PTE_P" "\<And>va. vpn va \<noteq> vpn a \<Longrightarrow> pte_val (mem t) pd va = pte_val (mem s) pd va"
    "map_page pd a pa perm s = Done (0, t)"
    by blast
  then show ?case by auto
next
  case (Suc n)
  have "ps \<noteq> []" "\<not> present (pte_val (mem s) pd a)" using Suc.prems(2,3) by fastforce+
  from map_step [OF Suc.prems(1) this, of pa perm] obtain t ps' where t: "pt_inv t pd ps'" "length ps \<le> length ps' + 1"
    "pte_val (mem t) pd a = pa OR perm OR PTE_P" "\<And>va. vpn va \<noteq> vpn a \<Longrightarrow> pte_val (mem t) pd va = pte_val (mem s) pd va"
    "map_page pd a pa perm s = Done (0, t)"
    by blast
  have u: "unat (a + PGSIZE) = unat a + 4096" using Suc.prems(4) by (simp add: PGSIZE_def unat_plus_if')
  have ne: "vpn (page_at (a + PGSIZE) k) \<noteq> vpn a" if "k \<le> n" for k
    using vpn_page_at [OF Suc.prems(4), of "Suc k"] vpn_page_at [OF Suc.prems(4), of 0] that
    by (auto simp: page_at_Suc)
  have "\<forall>k\<le>n. \<not> present (pte_val (mem t) pd (page_at (a + PGSIZE) k))"
    using Suc.prems(3) t(4) ne by (metis page_at_Suc Suc_le_mono)
  then obtain s' qs where s': "mappages_loop pd (a + PGSIZE) n (pa + PGSIZE) perm t = Done (0, s')" "pt_inv s' pd qs"
    "\<forall>k\<le>n. pte_val (mem s') pd (page_at (a + PGSIZE) k) = page_at (pa + PGSIZE) k OR perm OR PTE_P"
    "\<forall>va. (\<forall>k\<le>n. vpn va \<noteq> vpn (page_at (a + PGSIZE) k)) \<longrightarrow> pte_val (mem s') pd va = pte_val (mem t) pd va"
    using Suc.IH [OF t(1), of "a + PGSIZE" "pa + PGSIZE"] t(2) Suc.prems(2,4) u by auto
  have first: "pte_val (mem s') pd a = pa OR perm OR PTE_P" using s'(4) ne t(3) by metis
  have "pte_val (mem s') pd (page_at a k) = page_at pa k OR perm OR PTE_P" if "k \<le> Suc n" for k
    using that first s'(3) by (cases k) (auto simp: page_at_Suc)
  moreover have "pte_val (mem s') pd va = pte_val (mem s) pd va" if v: "\<forall>k\<le>Suc n. vpn va \<noteq> vpn (page_at a k)" for va
    using v s'(4) t(4) by (metis page_at_0 page_at_Suc Suc_le_mono le0)
  ultimately show ?case using t(5) s'(1,2) by auto
qed

section \<open>Rounding\<close>

lemma PGROUNDDOWN_unat: "unat (PGROUNDDOWN w) = unat w div 4096 * 4096"
proof -
  have m: "PGSIZE - 1 = mask 12" by (simp add: PGSIZE_def mask_eq_exp_minus_1)
  have "PGROUNDDOWN w = push_bit 12 (drop_bit 12 w)"
    unfolding PGROUNDDOWN_def m by (rule bit_word_eqI) (auto simp: bit_simps)
  then have eq: "PGROUNDDOWN w = w - take_bit 12 w"
    using bits_ident [of 12 w] by (simp add: algebra_simps)
  have t: "unat (take_bit 12 w) = unat w mod 4096"
    by (simp add: unsigned_take_bit_eq take_bit_eq_mod unat_mod)
  then have "unat (w - take_bit 12 w) = unat w - unat w mod 4096"
    by (simp add: unat_sub word_le_nat_alt)
  then show ?thesis unfolding eq by (simp add: minus_mod_eq_div_mult)
qed

lemma PGROUNDDOWN_aligned: "unat a mod 4096 = 0 \<Longrightarrow> PGROUNDDOWN a = a"
  by (simp add: word_unat_eq_iff PGROUNDDOWN_unat) (metis div_mult_mod_eq add.right_neutral)

lemma mappages_count:
  assumes "unat a mod 4096 = 0" and "unat a + 4096 * (n + 1) < 2 ^ 32" and "len = of_nat (4096 * (n + 1))"
  shows "mappages pd a len pa perm s = mappages_loop pd a n pa perm s"
proof -
  have lt: "4096 * (n + 1) < 2 ^ 32" using assms(2) by linarith
  have "unat (a + len) = unat a + 4096 * (n + 1)"
    unfolding assms(3) using assms(2) lt by (subst unat_add_u32) (simp_all add: unat_of_nat del: of_nat_mult of_nat_add)
  then have u: "unat (a + len - 1) = unat a + 4096 * n + 4095"
    by (subst unat_minus_one) (auto simp: unat_eq_0 [symmetric])
  obtain k where k: "unat a = 4096 * k" using assms(1) by (auto elim!: dvdE simp: mod_eq_0_iff_dvd)
  have lst: "unat (PGROUNDDOWN (a + len - 1)) = unat a + 4096 * n"
  proof -
    have "(4096 * k + 4096 * n + 4095) div 4096 = k + n" by (rule div_nat_eqI) simp_all
    then show ?thesis unfolding PGROUNDDOWN_unat u k by simp
  qed
  then have d: "unat (PGROUNDDOWN (a + len - 1) - a) = 4096 * n"
    by (simp add: unat_sub word_le_nat_alt)
  have "unat ((PGROUNDDOWN (a + len - 1) - a) div PGSIZE) = n"
    by (simp add: unat_div d PGSIZE_def)
  then show ?thesis by (simp add: mappages_def Let_def PGROUNDDOWN_aligned [OF assms(1)])
qed

end
