(* ===== verification/Sample.thy ===== *)
theory Sample
  imports Spinlock
begin

text \<open>
  A concrete kernel state for the witnesses: every table empty, every lock free, interrupts on,
  CPU 0 running the code.
\<close>

definition lock0 :: spinlock where
  "lock0 = \<lparr>locked = 0, lk_name = [], lk_cpu = None, pcs = replicate 10 0\<rparr>"

definition cpu0 :: cpu where
  "cpu0 = \<lparr>started = 0, ncli = 0, intena = False, cproc = None, ts_ss0 = 0, ts_esp0 = 0\<rparr>"

definition ctx0 :: kcontext where
  "ctx0 = \<lparr>c_edi = 0, c_esi = 0, c_ebx = 0, c_ebp = 0, c_eip = 0\<rparr>"

definition tf0 :: trapframe where
  "tf0 = \<lparr>t_edi = 0, t_esi = 0, t_ebp = 0, t_oesp = 0, t_ebx = 0, t_edx = 0, t_ecx = 0, t_eax = 0, t_gs = 0,
     t_fs = 0, t_es = 0, t_ds = 0, t_trapno = 0, t_err = 0, t_eip = 0, t_cs = 0, t_eflags = 0, t_esp = 0, t_ss = 0\<rparr>"

definition proc0 :: proc where
  "proc0 = \<lparr>sz = 0, pgdir = 0, kstack = 0, state = UNUSED, pid = 0, parent = None, tf_addr = 0, tf = tf0,
     context_addr = 0, ctx = ctx0, pchan = None, killed = 0, ofile = replicate 16 None, cwd = None,
     pname = replicate 16 0, page = 0, addr1 = 0, addr2 = 0, shared = 0, vaddr = 0\<rparr>"

definition file0 :: kfile where
  "file0 = \<lparr>ftype = FD_NONE, fref = 0, readable = False, writable = False, fpipe = 0, fip = None, foff = 0\<rparr>"

definition inode0 :: inode where
  "inode0 = \<lparr>idev = 0, inum = 0, iref = 0, I_BUSY = False, I_VALID = False, itype = 0, major = 0, minor = 0,
     nlink = 0, isize = 0, addrs = replicate 13 0\<rparr>"

definition sb0 :: superblock where
  "sb0 = \<lparr>sb_size = 0, nblocks = 0, ninodes = 0, nlog = 0, logstart = 0, inodestart = 0, bmapstart = 0\<rparr>"

definition buf0 :: buf where
  "buf0 = \<lparr>B_BUSY = False, B_VALID = False, B_DIRTY = False, bdev = 0, blockno = 0, bprev = 0, bnext = 0,
     bdata = replicate 512 0\<rparr>"

definition pipe0 :: pipe where
  "pipe0 = \<lparr>pdata = replicate 512 0, nread = 0, nwrite = 0, readopen = True, writeopen = True\<rparr>"

definition log0 :: log where
  "log0 = \<lparr>start = 2, lsize = 30, outstanding = 0, committing = False, ldev = 1, lh_n = 0, lh_block = replicate 30 0\<rparr>"

definition console0 :: console where
  "console0 = \<lparr>locking = True, panicked = False, ibuf = replicate 128 0, in_r = 0, in_w = 0, in_e = 0, uart = [],
     crt = (\<lambda>_. 0), crt_pos = 0\<rparr>"

definition linkage0 :: linkage where
  "linkage0 = \<lparr>kend = 0x80200000, kdata = 0x80180000, forkret_addr = 0x80104000, trapret_addr = 0x80105000\<rparr>"

definition kernel0 :: kernel where
  "kernel0 = \<lparr>mem = (\<lambda>_. 0), links = (\<lambda>_. \<lparr>prv = 0, nxt = 0\<rparr>), me = 0, cpus = (\<lambda>_. cpu0), if_flag = (\<lambda>_. True),
     cr3 = (\<lambda>_. 0), lkarg = 0, syms = linkage0, locks = (\<lambda>_. lock0), use_lock = True, freelist = 0, kpgdir = 0,
     procs = (\<lambda>_. proc0), initproc = None, nextpid = 1, ticks = 0, forkret_first = True, pipes = (\<lambda>_. pipe0),
     files = (\<lambda>_. file0), bufs = (\<lambda>_. buf0), disk = (\<lambda>_. replicate 512 0), disksize = 1000, klog = log0, sb = sb0,
     inodes = (\<lambda>_. inode0), shared_pages = replicate 16 0, shared_npages = 0, shared_refcount = 0,
     shared_initialized = False, svalue = (\<lambda>_. 0), cons = console0, kbd_shift = 0,
     devs = (\<lambda>_. \<lparr>dread = None, dwrite = None\<rparr>)\<rparr>"

lemmas sample_defs = lock0_def cpu0_def ctx0_def tf0_def proc0_def file0_def inode0_def sb0_def buf0_def pipe0_def
  log0_def console0_def linkage0_def kernel0_def

lemma kernel0_simps [simp]:
  "me kernel0 = 0" "cpus kernel0 = (\<lambda>_. cpu0)" "cproc cpu0 = None" "procs kernel0 = (\<lambda>_. proc0)" "use_lock kernel0"
  "freelist kernel0 = 0" "mem kernel0 = (\<lambda>_. 0)" "syms kernel0 = linkage0" "nextpid kernel0 = 1" "pipes kernel0 = (\<lambda>_. pipe0)"
  "if_flag kernel0 = (\<lambda>_. True)" "ncli cpu0 = 0" "cons kernel0 = console0" "files kernel0 = (\<lambda>_. file0)"
  "bufs kernel0 = (\<lambda>_. buf0)" "disk kernel0 = (\<lambda>_. replicate 512 0)" "disksize kernel0 = 1000" "klog kernel0 = log0"
  "sb kernel0 = sb0" "inodes kernel0 = (\<lambda>_. inode0)" "shared_pages kernel0 = replicate 16 0" "shared_npages kernel0 = 0"
  "shared_refcount kernel0 = 0" "\<not> shared_initialized kernel0" "svalue kernel0 = (\<lambda>_. 0)" "initproc kernel0 = None"
  "ticks kernel0 = 0" "forkret_first kernel0" "lkarg kernel0 = 0" "kpgdir kernel0 = 0"
  by (simp_all add: kernel0_def cpu0_def)

lemma kernel0_cli [simp]: "cli_ok kernel0"
  by (simp add: cli_ok_def sample_defs)

lemma kernel0_locks [simp]: "locked (locks kernel0 lk) = 0" "lk_cpu (locks kernel0 lk) = None"
  by (simp_all add: sample_defs)

text \<open>
  The same with process 1 running: one page of user memory at address 0, mapped by a directory at 0x80300000 and
  a page table at 0x80301000 to the zero-filled page 0x80302000, and its stack pointer at 0.
\<close>

definition proc_user :: proc where
  "proc_user = proc0\<lparr>sz := 4096, pgdir := 0x80300000, state := RUNNING, pid := 7\<rparr>"

definition mem_user :: mem where
  "mem_user = store32 (store32 (\<lambda>_. 0) 0x80300000 0x301007) 0x80301000 0x302007"

definition user0 :: kernel where
  "user0 = kernel0\<lparr>cpus := (\<lambda>_. cpu0\<lparr>cproc := Some 1\<rparr>), procs := (\<lambda>_. proc0)(1 := proc_user), mem := mem_user\<rparr>"

lemma user0_simps [simp]:
  "me user0 = 0" "cproc (cpus user0 c) = Some 1" "procs user0 = (\<lambda>_. proc0)(1 := proc_user)" "mem user0 = mem_user"
  "cli_ok user0" "locked (locks user0 lk) = 0" "ncli (cpus user0 c) = 0" "cons user0 = console0" "pipes user0 = (\<lambda>_. pipe0)"
  "svalue user0 = (\<lambda>_. 0)" "files user0 = (\<lambda>_. file0)" "inodes user0 = (\<lambda>_. inode0)"
  by (simp_all add: user0_def cli_ok_def)

end
