(* ===== verification/Core_Props.thy ===== *)
theory Core_Props
  imports Cpus Sched_Correct Vm_Correct Sample
begin

text \<open>
  Correctness statements of the kernel core: spin locks, byte operations, the page allocator,
  page tables, and the process table.
\<close>

section \<open>Spin locks\<close>

text \<open>
  C7. Mutual exclusion of spin locks under every interleaving of the CPUs: from a free lock, at most one CPU is
  ever in the critical section, \<open>holding\<close> is true on exactly that CPU (so the panics of acquire and release
  are out of reach for a CPU that follows the protocol), and the lock word is set while anyone is inside.
\<close>

theorem spinlock_mutual_exclusion:
  assumes "linit lk x" and "(lstep lk)\<^sup>*\<^sup>* x (s, pc)"
  shows "(pc a = Critical \<longrightarrow> pc b = Critical \<longrightarrow> a = b) \<and> (holding lk (s\<lparr>me := c\<rparr>) \<longleftrightarrow> pc c = Critical)
    \<and> (pc c = Critical \<longrightarrow> locked (locks s lk) \<noteq> 0)"
proof -
  have inv: "lock_inv lk (s, pc)" using lock_inv_reach [OF assms(2,1)] .
  have one: "pc a = Critical \<longrightarrow> pc b = Critical \<longrightarrow> a = b"
    using inv unfolding lock_inv_def by (metis (mono_tags, lifting) case_prod_conv inside_simps(4))
  have h: "holding lk (s\<lparr>me := c\<rparr>) \<longleftrightarrow> pc c = Critical" by (rule lock_inv_holding [OF inv])
  then have "pc c = Critical \<longrightarrow> locked (locks s lk) \<noteq> 0" by (auto simp: holding_def)
  then show ?thesis using one h by blast
qed

lemma sample_lock_run:
  "(lstep Lkmem)\<^sup>*\<^sup>* (kernel0, \<lambda>_. Out)
     (acq_record Lkmem (snd (acq_xchg Lkmem (pushcli (kernel0\<lparr>me := 0\<rparr>)))\<lparr>me := 0\<rparr>), (\<lambda>_. Out)(0 := Critical))"
proof -
  let ?s1 = "pushcli (kernel0\<lparr>me := 0\<rparr>)"
  let ?s2 = "snd (acq_xchg Lkmem ?s1)"
  have 1: "lstep Lkmem (kernel0, \<lambda>_. Out) (?s1, (\<lambda>_. Out)(0 := Trying))"
    by (rule lstep.enter) (simp_all add: holding_def)
  have me: "?s1\<lparr>me := 0\<rparr> = ?s1" by (simp add: pushcli_def upd_cpu_def Let_def)
  have x: "acq_xchg Lkmem (?s1\<lparr>me := 0\<rparr>) = (0, ?s2)" unfolding me by (simp add: acq_xchg_def)
  have 2: "lstep Lkmem (?s1, (\<lambda>_. Out)(0 := Trying)) (?s2, ((\<lambda>_. Out)(0 := Trying))(0 := Owning))"
    by (rule lstep.take [OF _ x]) simp
  have 3: "lstep Lkmem (?s2, ((\<lambda>_. Out)(0 := Trying))(0 := Owning))
      (acq_record Lkmem (?s2\<lparr>me := 0\<rparr>), (((\<lambda>_. Out)(0 := Trying))(0 := Owning))(0 := Critical))"
    by (rule lstep.own) simp_all
  show ?thesis
    using 1 2 3 by (metis (no_types, lifting) fun_upd_upd rtranclp.simps)
qed

theorem spinlock_mutual_exclusion_witness:
  "\<exists>s pc. (lstep Lkmem)\<^sup>*\<^sup>* (kernel0, \<lambda>_. Out) (s, pc) \<and> pc 0 = Critical \<and> holding Lkmem (s\<lparr>me := 0\<rparr>)
     \<and> \<not> holding Lkmem (s\<lparr>me := 1\<rparr>)"
proof -
  have i: "linit Lkmem (kernel0, \<lambda>_. Out)" by (simp add: linit_def)
  show ?thesis
    using sample_lock_run spinlock_mutual_exclusion [OF i sample_lock_run, of 0 0 0]
      spinlock_mutual_exclusion [OF i sample_lock_run, of 0 0 1] by fastforce
qed

text \<open>
  C8. On one CPU, acquire of a free lock followed by release succeeds, runs with interrupts off in between, and
  gives back the interrupt flag, the nesting depth and every lock word; acquiring twice panics, and
  acquiring a lock another CPU holds spins.
\<close>

theorem acquire_release_section:
  assumes "cli_ok s" and "locked (locks s lk) = 0"
  shows "\<exists>t s'. acquire lk s = Done t \<and> holding lk t \<and> \<not> if_flag t (me t) \<and> acquire lk t = Panic ''acquire''
    \<and> (c \<noteq> me s \<longrightarrow> acquire lk (t\<lparr>me := c\<rparr>) = Spin)
    \<and> release lk t = Done s' \<and> if_flag s' = if_flag s \<and> (\<forall>d. ncli (cpus s' d) = ncli (cpus s d))
    \<and> (\<forall>l. locked (locks s' l) = locked (locks s l))"
proof -
  let ?t = "enter lk (callers s) (crit lk s)"
  have a: "acquire lk s = Done ?t" using assms(2) by (rule acquire_enter)
  have r: "release lk ?t = Done (crit lk s)" by (intro release_enter crit_ok_crit assms(1) refl)
  have h: "holding lk ?t" "\<not> if_flag ?t (me ?t)" by (simp_all add: enter_def holding_def)
  have p: "acquire lk ?t = Panic ''acquire''" using h by (simp add: acquire_def Let_def)
  have "acquire lk (?t\<lparr>me := c\<rparr>) = Spin" if "c \<noteq> me s"
    using that by (simp add: acquire_def Let_def holding_def enter_def)
  then show ?thesis using a r h p assms(2) by (auto simp: crit_locked)
qed

theorem acquire_release_section_witness:
  "\<exists>t s'. acquire Lkmem kernel0 = Done t \<and> acquire Lkmem (t\<lparr>me := 1\<rparr>) = Spin \<and> release Lkmem t = Done s'
     \<and> if_flag s' = if_flag kernel0"
  using acquire_release_section [of kernel0 Lkmem 1] by auto

section \<open>Bytes\<close>

text \<open>
  C9. \<open>memmove\<close> copies correctly for every overlap of source and destination: afterwards byte i of the destination is
  the old byte i of the source, and no other byte changed (the source must end below the top of the address space).
\<close>

theorem memmove_overlap:
  assumes "unat src + unat n < 2 ^ 32" and "unat dst + unat n \<le> 2 ^ 32"
  shows "bytes (memmove dst src n m) dst (unat n) = bytes m src (unat n)
    \<and> (\<forall>p. \<not> in_range dst (unat n) p \<longrightarrow> memmove dst src n m p = m p)"
proof -
  have "unat n \<le> 2 ^ 32" using assms by linarith
  then have "in_range dst (unat n) (dst + of_nat i)" if "i < unat n" for i
    using that in_range_iff [of "unat n" dst] by auto
  then have "bytes (memmove dst src n m) dst (unat n) = bytes m src (unat n)"
    by (intro nth_equalityI) (simp_all add: bytes_nth memmove_spec [OF assms])
  then show ?thesis by (simp add: memmove_spec [OF assms])
qed

theorem memmove_overlap_witness:
  "bytes (memmove 101 100 3 ((\<lambda>_. 0)(100 := 1, 101 := 2, 102 := 3))) 101 3 = [1, 2, 3]"
proof -
  have u: "[0..<3] = [0, 1, 2 :: nat]" by (simp add: upt_rec)
  then have "bytes ((\<lambda>_. 0)(100 := 1, 101 := 2, 102 := 3)) 100 3 = [1, 2, 3]"
    by (simp add: bytes_def)
  then show ?thesis
    using memmove_overlap [of 100 3 101 "(\<lambda>_. 0)(100 := 1, 101 := 2, 102 := 3)"] by simp
qed

text \<open>
  \<open>safestrcpy\<close> into a buffer of n bytes always leaves a NUL-terminated string: the longest prefix of the source
  without a NUL that fits in n - 1 bytes, then a NUL, and nothing outside the buffer is written.
\<close>

theorem safestrcpy_terminates_string:
  assumes "0 < n" and "n < 2 ^ 31" and "disjoint_ranges s t (nat n)"
  shows "\<exists>w. w = takeWhile (\<lambda>c. c \<noteq> 0) (bytes m t (nat n - 1)) \<and> bytes (safestrcpy s t n m) s (length w + 1) = w @ [0]
    \<and> length w + 1 \<le> nat n \<and> (\<forall>p. \<not> in_range s (nat n) p \<longrightarrow> safestrcpy s t n m p = m p)"
  using safestrcpy_spec [OF assms refl] assms(1) length_takeWhile_le [of "\<lambda>c. c \<noteq> 0" "bytes m t (nat n - 1)"] by fastforce

theorem safestrcpy_terminates_string_witness:
  "\<exists>w. bytes (safestrcpy 16 100 4 (\<lambda>_. 7)) 16 (length w + 1) = w @ [0] \<and> length w + 1 \<le> 4"
proof -
  have "\<not> (in_range 16 4 p \<and> in_range 100 4 p)" for p
  proof
    assume p: "in_range 16 4 p \<and> in_range 100 4 p"
    then have "unat p = 16 + off 16 p" "unat p = 100 + off 100 p"
      using unat_off [of 16 p] unat_off [of 100 p] by (simp_all add: in_range_def)
    then show False using p by (simp add: in_range_def)
  qed
  then show ?thesis
    using safestrcpy_terminates_string [of 4 16 100 "\<lambda>_. 7"] by (auto simp: disjoint_ranges_def)
qed

section \<open>Pages\<close>

lemma sample_pages:
  obtains s where "kmem_inv s [0x80400000, 0x80401000]" and "syms s = linkage0"
proof -
  have inv0: "kmem_inv kernel0 []" by (simp add: kmem_inv_def)
  have ok: "page_ok linkage0 0x80401000" "page_ok linkage0 0x80400000"
    by (simp_all add: page_ok_def linkage0_def PGSIZE_def layout_defs)
  obtain s1 where s1: "kmem_inv s1 [0x80401000]" "syms s1 = linkage0"
    using kfree_inv [OF inv0, of "0x80401000"] ok by auto
  then obtain s2 where "kmem_inv s2 [0x80400000, 0x80401000]" "syms s2 = linkage0"
    using kfree_inv [OF s1(1), of "0x80400000"] ok by auto
  then show ?thesis by (rule that)
qed

text \<open>
  C11. The page allocator: with at least n free pages, n calls of kalloc return n different non-null pages, and
  giving all of them back with kfree succeeds and restores exactly the old set of free pages, each once.
\<close>

theorem kalloc_kfree_conserve:
  assumes "kmem_inv s ps" and "n \<le> length ps"
  shows "\<exists>qs s1 s2 ps'. deq_all kalloc n s = Done (qs, s1) \<and> distinct qs \<and> 0 \<notin> set qs \<and> length qs = n
    \<and> enq_all kfree qs s1 = Done s2 \<and> kmem_inv s2 ps' \<and> set ps' = set ps \<and> distinct ps'"
  using kmem.alloc_free_conserve [of s ps "syms s" n] assms by blast

theorem kalloc_kfree_conserve_witness:
  "\<exists>s qs s1 s2. deq_all kalloc 2 s = Done (qs, s1) \<and> distinct qs \<and> length qs = 2 \<and> enq_all kfree qs s1 = Done s2"
proof -
  obtain s where "kmem_inv s [0x80400000, 0x80401000]" using sample_pages by metis
  from kalloc_kfree_conserve [OF this, of 2] show ?thesis by auto
qed

text \<open>
  C12. \<open>freerange\<close>, the work of kinit1 and kinit2, puts exactly the whole pages of the range on the free list: with a
  page-aligned start above the kernel image and an end inside physical memory it terminates without panic.
\<close>

theorem freerange_frees_all:
  assumes "kmem_inv s ps" and "unat (PGROUNDUP vstart) = p" and "p mod 4096 = 0" and "kend (syms s) \<le> PGROUNDUP vstart"
    and "0x80000000 \<le> p" and "p \<le> unat vend" and "unat vend \<le> 0x8E000000"
    and "n = (unat vend - p) div 4096" and "set (page_range (PGROUNDUP vstart) n) \<inter> set ps = {}"
  shows "\<exists>s'. freerange vstart vend s = Done s' \<and> kmem_inv s' (rev (page_range (PGROUNDUP vstart) n) @ ps)"
proof -
  have "p + 4096 * n \<le> unat vend" "unat vend < p + 4096 * n + 4096"
    using assms(6,8) mult_div_mod_eq [of 4096 "unat vend - p"] mod_less_divisor [of 4096 "unat vend - p"] by linarith+
  then show ?thesis
    using freerange_loop_inv [OF assms(1), of "PGROUNDUP vstart" n vend] assms by (auto simp: freerange_def)
qed

theorem freerange_frees_all_witness:
  "\<exists>s'. freerange 0x80400000 0x80402000 kernel0 = Done s' \<and> kmem_inv s' [0x80401000, 0x80400000]"
proof -
  have r: "PGROUNDUP 0x80400000 = 0x80400000" by (simp add: mmu_defs)
  have u: "[0..<2] = [0, 1 :: nat]" by (simp add: upt_rec)
  have p: "page_range 0x80400000 2 = [0x80400000, 0x80401000]"
    unfolding page_range_def u by simp
  have inv0: "kmem_inv kernel0 []" by (simp add: kmem_inv_def)
  have "\<exists>s'. freerange 0x80400000 0x80402000 kernel0 = Done s' \<and> kmem_inv s' (rev (page_range (PGROUNDUP 0x80400000) 2) @ [])"
    by (rule freerange_frees_all [OF inv0, where p = "0x80400000"]) (simp_all add: r linkage0_def)
  then show ?thesis unfolding r p by simp
qed

text \<open>
  C13. \<open>mappages\<close> builds exactly the requested translation: with enough free pages for the page tables and no page of the
  range mapped, it returns 0, page k of the range maps to frame k with the requested permissions, every other
  page keeps its entry, and the page tables stay well-formed.
\<close>

theorem mappages_maps_range:
  assumes "pt_inv s pd ps" and "unat a mod 4096 = 0" and "unat a + 4096 * (n + 1) < 2 ^ 32" and "n < length ps"
    and "\<forall>k\<le>n. \<not> present (pte_val (mem s) pd (page_at a k))"
  shows "\<exists>s' ps'. mappages pd a (of_nat (4096 * (n + 1))) pa perm s = Done (0, s') \<and> pt_inv s' pd ps'
    \<and> (\<forall>k\<le>n. pte_val (mem s') pd (page_at a k) = page_at pa k OR perm OR PTE_P)
    \<and> (\<forall>va. (\<forall>k\<le>n. vpn va \<noteq> vpn (page_at a k)) \<longrightarrow> pte_val (mem s') pd va = pte_val (mem s) pd va)"
  using mappages_loop_ok [OF assms(1,4,5), of pa perm] mappages_count [OF assms(2,3) refl, of pd pa perm s] assms(3) by simp

lemma sample_space:
  obtains s where "pt_inv s 0x80402000 [0x80400000, 0x80401000]" and "mem s 0x80402000 = 0"
    and "\<And>va. pte_val (mem s) 0x80402000 va = 0"
proof -
  obtain s where s: "kmem_inv s [0x80400000, 0x80401000]" "syms s = linkage0" using sample_pages by metis
  let ?m = "memset 0x80402000 0 PGSIZE (mem s)"
  have ok: "page_ok (syms s) 0x80402000" by (simp add: s(2) page_ok_def linkage0_def PGSIZE_def layout_defs)
  have m: "?m x = (if in_range 0x80402000 4096 x then 0 else mem s x)" for x by (simp add: memset_spec PGSIZE_def)
  have km: "kmem_inv (s\<lparr>mem := ?m\<rparr>) [0x80400000, 0x80401000]"
    by (rule kmem_inv_mem [OF s(1) ok]) (simp_all add: m)
  have pde: "pde_of ?m 0x80402000 i = 0" if "unat i < 1024" for i
    unfolding pde_of_def using slot_range [OF page_ok_aligned [OF ok] that] by (intro load32_zero) (simp add: m)
  have np: "\<not> present 0" by (simp add: present_def)
  have "pt_inv (s\<lparr>mem := ?m\<rparr>) 0x80402000 [0x80400000, 0x80401000]"
    using km ok pde np by (simp add: pt_inv_def)
  moreover have "pte_val ?m 0x80402000 va = 0" for va using pde [OF PDX_less] np by (simp add: pte_val_def)
  ultimately show ?thesis using that [of "s\<lparr>mem := ?m\<rparr>"] m by (simp add: in_range_def)
qed

theorem mappages_maps_range_witness:
  "\<exists>s s' ps'. mappages 0x80402000 0x1000 0x2000 0x300000 6 s = Done (0, s') \<and> pt_inv s' 0x80402000 ps'
     \<and> pte_val (mem s') 0x80402000 0x2000 = 0x301007"
proof -
  obtain s where s: "pt_inv s 0x80402000 [0x80400000, 0x80401000]" "\<And>va. pte_val (mem s) 0x80402000 va = 0"
    using sample_space by metis
  have "page_at 0x1000 1 = 0x2000" "page_at 0x300000 1 OR 6 OR PTE_P = 0x301007"
    by (simp_all add: page_at_def PTE_P_def)
  moreover have "\<not> present 0" by (simp add: present_def)
  ultimately show ?thesis
    using mappages_maps_range [OF s(1), of "0x1000" 1 "0x300000" 6] s(2) by fastforce
qed

section \<open>Processes\<close>

text \<open>
  C14. No process ever runs on two CPUs. From any state after the first process is made (all CPUs idle, no process RUNNING), under every
  interleaving on any number of CPUs of the steps of \<open>pstep\<close>, that is of all code that writes the state of a process:
  scheduling rounds and switches, \<open>yield\<close>, \<open>sleep\<close>, \<open>wakeup\<close>, \<open>kill\<close>, \<open>allocproc\<close>, \<open>fork\<close>, \<open>exit\<close> and \<open>wait\<close>. The CPUs' current
  processes are pairwise different; a process is RUNNING exactly when some CPU runs it or has just switched to it; at most one CPU is
  inside the table, and it holds the lock; and the slot a process is setting up stays EMBRYO, so no CPU picks it before \<open>fork\<close> publishes it.
\<close>

theorem scheduler_no_double_run:
  assumes "\<forall>c. cproc (cpus s c) = None" and "\<forall>p. state (procs s p) \<noteq> RUNNING"
    and "pstep\<^sup>*\<^sup>* (s, \<lambda>_. Idle, \<lambda>_. None) (t, w, e)"
  shows "(cproc (cpus t c) = Some p \<longrightarrow> cproc (cpus t d) = Some p \<longrightarrow> c = d)
    \<and> (state (procs t p) = RUNNING \<longleftrightarrow> (\<exists>c. w c = Running p \<or> w c = Resumed p))
    \<and> (w c = Running p \<or> w c = Resumed p \<longrightarrow> cproc (cpus t c) = Some p)
    \<and> (in_table (w c) \<longrightarrow> holding Lptable (t\<lparr>me := c\<rparr>) \<and> (in_table (w d) \<longrightarrow> c = d))
    \<and> (e p = Some np \<longrightarrow> state (procs t np) = EMBRYO)"
proof -
  have "sched_inv (s, \<lambda>_. Idle, \<lambda>_. None)" using assms(1,2) by (simp add: table_inv_def owned_def)
  from sched_inv_reach [OF assms(3) this] have inv: "view t w" and own: "owned e t" by simp_all
  note D = table_invD [OF inv]
  have run: "is_running (w c) p \<longleftrightarrow> w c = Running p \<or> w c = Resumed p" for c p by (cases "w c") auto
  have "state (procs t p) = RUNNING \<longleftrightarrow> (\<exists>c. w c = Running p \<or> w c = Resumed p)"
    unfolding run [symmetric] using D(4,5) by blast
  moreover have "w c = Running p \<or> w c = Resumed p \<longrightarrow> cproc (cpus t c) = Some p"
    using D(1) [of c] by auto
  moreover have "in_table (w c) \<longrightarrow> holding Lptable (t\<lparr>me := c\<rparr>) \<and> (in_table (w d) \<longrightarrow> c = d)"
    using D(2,3) [of c] D(7) by (simp add: holding_def)
  moreover have "cproc (cpus t c) = Some p \<longrightarrow> cproc (cpus t d) = Some p \<longrightarrow> c = d"
    using D(1) [of c] D(1) [of d] D(6) [of c p d] by simp
  ultimately show ?thesis using own by (simp add: owned_def)
qed

text \<open>CPU 0 runs process 0 while CPU 1 is in the table.\<close>

definition one_ready :: kernel where
  "one_ready = kernel0\<lparr>procs := (\<lambda>_. proc0)(0 := proc0\<lparr>state := RUNNABLE, pgdir := 0x80001000\<rparr>)\<rparr>"

lemma one_ready_runs:
  "\<exists>t. pstep\<^sup>*\<^sup>* (one_ready, \<lambda>_. Idle, \<lambda>_. None) (t, (\<lambda>_. Idle)(0 := Running 0, 1 := Scan 0), \<lambda>_. None)"
proof -
  have "\<exists>t a b u. scheduler_begin (one_ready\<lparr>me := 0\<rparr>) = Done t \<and> scheduler_next 0 (t\<lparr>me := 0\<rparr>) = Done (Some 0, a)
    \<and> release Lptable (a\<lparr>me := 0\<rparr>) = Done b \<and> scheduler_begin (b\<lparr>me := 1\<rparr>) = Done u"
    by (simp add: one_ready_def scheduler_begin_def acquire_free sti_def scheduler_next_def NPROC_def upt_rec upd_lock_def upd_cpu_def
          upd_proc_def pushcli_def popcli_def Let_def switchuvm_def set_curproc_def release_def holding_def kassert_def)
  then obtain t a b u where r: "scheduler_begin (one_ready\<lparr>me := 0\<rparr>) = Done t" "scheduler_next 0 (t\<lparr>me := 0\<rparr>) = Done (Some 0, a)"
    "release Lptable (a\<lparr>me := 0\<rparr>) = Done b" "scheduler_begin (b\<lparr>me := 1\<rparr>) = Done u"
    by blast
  let ?w = "\<lambda>_::nat. Idle"
  note rtranclp.rtrancl_into_rtrancl [trans]
  have "pstep\<^sup>*\<^sup>* (one_ready, ?w, \<lambda>_. None) (t, ?w(0 := Scan 0), \<lambda>_. None)"
    by (rule r_into_rtranclp, rule pstep.round [OF _ r(1)]) simp
  also have "pstep (t, ?w(0 := Scan 0), \<lambda>_. None) (a, (?w(0 := Scan 0))(0 := Resumed 0), \<lambda>_. None)"
    by (rule pstep.pick [OF _ r(2)]) simp
  also have "pstep (a, (?w(0 := Scan 0))(0 := Resumed 0), \<lambda>_. None) (b, (?w(0 := Scan 0))(0 := Resumed 0, 0 := Running 0), \<lambda>_. None)"
    by (rule pstep.starts [OF _ r(3)]) simp
  also have "pstep (b, (?w(0 := Scan 0))(0 := Resumed 0, 0 := Running 0), \<lambda>_. None)
      (u, (?w(0 := Scan 0))(0 := Resumed 0, 0 := Running 0, 1 := Scan 0), \<lambda>_. None)"
    by (rule pstep.round [OF _ r(4)]) simp
  finally show ?thesis by auto
qed

theorem scheduler_no_double_run_witness:
  "\<exists>t w. pstep\<^sup>*\<^sup>* (one_ready, \<lambda>_. Idle, \<lambda>_. None) (t, w, \<lambda>_. None) \<and> w 0 = Running 0 \<and> state (procs t 0) = RUNNING
     \<and> cproc (cpus t 1) \<noteq> Some 0 \<and> holding Lptable (t\<lparr>me := 1\<rparr>)"
proof -
  let ?w = "(\<lambda>_. Idle)(0 := Running 0, 1 := Scan 0)"
  obtain t where t: "pstep\<^sup>*\<^sup>* (one_ready, \<lambda>_. Idle, \<lambda>_. None) (t, ?w, \<lambda>_. None)" using one_ready_runs by blast
  have "cproc (cpus t 0) = Some 0" "state (procs t 0) = RUNNING" "cproc (cpus t 0) = Some 0 \<longrightarrow> cproc (cpus t 1) = Some 0 \<longrightarrow> (0::nat) = 1"
    using scheduler_no_double_run [OF _ _ t, of 0 0 1] by (auto simp: one_ready_def proc0_def)
  moreover have "holding Lptable (t\<lparr>me := 1\<rparr>)"
    using scheduler_no_double_run [OF _ _ t, of 1] by (auto simp: one_ready_def proc0_def)
  ultimately show ?thesis using t by (intro exI [of _ t] exI [of _ ?w]) auto
qed

text \<open>
  C15. Waking loses nobody: wakeup makes every process that sleeps on the channel runnable, changes no other
  process, and touches nothing else of the kernel (but the debugging fields of the table lock).
\<close>

theorem wakeup_wakes_all:
  assumes "cli_ok s" and "locked (locks s Lptable) = 0"
  shows "\<exists>s'. wakeup ch s = Done s'
    \<and> (\<forall>p<NPROC. state (procs s p) = SLEEPING \<and> pchan (procs s p) = Some ch \<longrightarrow> procs s' p = (procs s p)\<lparr>state := RUNNABLE\<rparr>)
    \<and> (\<forall>p. \<not> (state (procs s p) = SLEEPING \<and> pchan (procs s p) = Some ch) \<longrightarrow> procs s' p = procs s p)
    \<and> s' = (crit Lptable s)\<lparr>procs := procs s'\<rparr>"
  using wakeup_eq [OF assms, of ch] by (auto simp: wake_all_def woken_def)

theorem wakeup_wakes_all_witness:
  "\<exists>s'. wakeup ChTicks (kernel0\<lparr>procs := (\<lambda>_. proc0)(3 := proc0\<lparr>state := SLEEPING, pchan := Some ChTicks\<rparr>)\<rparr>) = Done s'
     \<and> state (procs s' 3) = RUNNABLE \<and> state (procs s' 4) = UNUSED"
  using wakeup_wakes_all [of "kernel0\<lparr>procs := (\<lambda>_. proc0)(3 := proc0\<lparr>state := SLEEPING, pchan := Some ChTicks\<rparr>)\<rparr>" ChTicks]
  by (fastforce simp: proc0_def NPROC_def)

end
