(* ===== verification/Console_Correct.thy ===== *)
theory Console_Correct
  imports Fs
begin

text \<open>
  The console: every output succeeds and reaches the serial line, numbers are printed so that they read
  back, and the input ring refines a pair of lists: the lines that can be read, and the line being edited.
\<close>

section \<open>Numbers\<close>

definition digit_val :: "char \<Rightarrow> nat" where
  "digit_val c = (case List.find (\<lambda>i. ''0123456789abcdef'' ! i = c) [0..<16] of Some i \<Rightarrow> i | None \<Rightarrow> 0)"

definition num_val :: "nat \<Rightarrow> char list \<Rightarrow> nat" where
  "num_val b cs = foldl (\<lambda>v c. v * b + digit_val c) 0 cs"

definition int_val :: "nat \<Rightarrow> char list \<Rightarrow> int" where
  "int_val b cs = (if cs \<noteq> [] \<and> hd cs = CHR ''-'' then - int (num_val b (tl cs)) else int (num_val b cs))"

lemma digit_val_digit_nat: "\<forall>i\<in>set [0..<16]. digit_val (''0123456789abcdef'' ! i) = i \<and> ''0123456789abcdef'' ! i \<noteq> CHR ''-''"
  by code_simp

lemma digit_val_digit: "unat d < 16 \<Longrightarrow> digit_val (digit d) = unat d" "unat d < 16 \<Longrightarrow> digit d \<noteq> CHR ''-''"
  using digit_val_digit_nat by (auto simp: digit_def)

lemma num_val_snoc: "num_val b (cs @ [c]) = num_val b cs * b + digit_val c"
  by (simp add: num_val_def)

lemma digits_loop_val:
  "2 \<le> unat base \<Longrightarrow> unat base \<le> 16 \<Longrightarrow> num_val (unat base) (rev (digits_loop base x)) = unat x
     \<and> CHR ''-'' \<notin> set (digits_loop base x)"
proof (induction base x rule: digits_loop.induct)
  case (1 base x)
  have m: "unat (x mod base) < 16" "unat (x mod base) = unat x mod unat base"
    using 1(2,3) by (auto simp: unat_mod intro: less_le_trans [OF mod_less_divisor])
  show ?case
  proof (cases "x div base = 0 \<or> base \<le> 1")
    case True
    have "\<not> base \<le> 1" using 1(2) by (simp add: word_le_nat_alt)
    then have "unat x div unat base = 0" using True by (metis unat_0 unat_div)
    then have "unat x mod unat base = unat x" using div_mult_mod_eq [of "unat x" "unat base"] by simp
    then show ?thesis using True m digit_val_digit [OF m(1)]
      by (simp add: digits_loop.simps [of base x] num_val_def)
  next
    case False
    then have IH: "num_val (unat base) (rev (digits_loop base (x div base))) = unat (x div base)
       \<and> CHR ''-'' \<notin> set (digits_loop base (x div base))" using 1 by blast
    then show ?thesis using False m digit_val_digit [OF m(1)] div_mult_mod_eq [of "unat x" "unat base"]
      by (simp add: digits_loop.simps [of base x] num_val_snoc unat_div)
  qed
qed

lemma digits_loop_length:
  "2 \<le> unat base \<Longrightarrow> unat x < unat base ^ k \<Longrightarrow> 0 < k \<Longrightarrow> length (digits_loop base x) \<le> k"
proof (induction k arbitrary: x)
  case (Suc k)
  have "unat (x div base) < unat base ^ k"
    using Suc.prems(1,2) by (simp add: unat_div div_less_iff_less_mult mult.commute)
  moreover have "x div base = 0" if "k = 0" using that calculation by (simp add: unat_eq_0)
  ultimately show ?case using Suc.IH [of "x div base"] Suc.prems(1)
    by (cases "k = 0") (auto simp: digits_loop.simps [of base x])
qed simp

lemma uint_of_sint: "uint (w :: u32) = (if sint w < 0 then sint w + 2 ^ 32 else sint w)"
proof -
  have r: "- (2 ^ 31) \<le> sint w" "sint w < 2 ^ 31" using sint_ge [of w] sint_lt [of w] by auto
  have m: "uint w = sint w mod 2 ^ 32" by (simp add: uint_sint take_bit_eq_mod)
  show ?thesis
  proof (cases "sint w < 0")
    case True
    have "sint w mod 2 ^ 32 = (sint w + 2 ^ 32) mod 2 ^ 32" by simp
    also have "\<dots> = sint w + 2 ^ 32" using True r by (intro mod_pos_pos_trivial) auto
    finally show ?thesis using m True by simp
  next
    case False
    then show ?thesis using m r by simp
  qed
qed

lemma printint_text_val:
  assumes "2 \<le> unat base" and "unat base \<le> 16"
  shows "int_val (unat base) (printint_text xx base sign) = (if sign then sint xx else uint xx)"
proof -
  have val: "int_val (unat base) (rev (digits_loop base x)) = int (unat x)" for x
  proof -
    have "hd (rev (digits_loop base x)) \<noteq> CHR ''-''" if "rev (digits_loop base x) \<noteq> []"
      using hd_in_set [OF that] digits_loop_val [OF assms, of x] by (metis set_rev)
    then show ?thesis using digits_loop_val [OF assms, of x] by (auto simp: int_val_def)
  qed
  have neg: "int (unat (- xx)) = - sint xx" if "sint xx < 0"
  proof -
    have "- xx = word_of_int (- sint xx)" by simp
    then have "uint (- xx) = uint (word_of_int (- sint xx) :: u32)" by (rule arg_cong)
    also have "\<dots> = (- sint xx) mod 2 ^ 32" by (simp only: uint_word_of_int) simp
    also have "\<dots> = - sint xx" using that sint_ge [of xx] by (intro mod_pos_pos_trivial) auto
    finally show ?thesis by simp
  qed
  show ?thesis
  proof (cases "sign \<and> sint xx < 0")
    case True
    then show ?thesis using digits_loop_val [OF assms, of "- xx"] neg
      by (simp add: printint_text_def int_val_def)
  next
    case False
    then have "sign \<Longrightarrow> sint xx = uint xx" using uint_of_sint [of xx] by auto
    then show ?thesis using False val [of xx] by (auto simp: printint_text_def)
  qed
qed

section \<open>Output\<close>

text \<open>The cursor stays in the first 24 rows; \<open>sent c\<close> is what a character puts on the serial line.\<close>

definition cons_ok :: "console \<Rightarrow> bool" where
  "cons_ok x \<longleftrightarrow> \<not> panicked x \<and> 0 \<le> crt_pos x \<and> crt_pos x < 24 * 80"

definition sent :: "int \<Rightarrow> u8 list" where
  "sent c = (if c = BACKSPACE then [8, 32, 8] else [word_of_int c])"

definition same_input :: "console \<Rightarrow> console \<Rightarrow> bool" where
  "same_input x y \<longleftrightarrow> ibuf y = ibuf x \<and> in_r y = in_r x \<and> in_w y = in_w x \<and> in_e y = in_e x \<and> locking y = locking x"

lemma cga_advance_bounds:
  assumes "0 \<le> pos" and "pos < 24 * 80"
  shows "0 \<le> fst (cga_advance c (pos, m)) \<and> fst (cga_advance c (pos, m)) \<le> 24 * 80"
proof -
  have "pos - pos mod 80 \<le> 1840" using assms by presburger
  then show ?thesis using assms pos_mod_bound [of 80 pos] by (auto simp: cga_advance_def)
qed

lemma cga_scroll_bounds:
  assumes "0 \<le> pos" and "pos \<le> 24 * 80"
  shows "0 \<le> fst (cga_scroll (pos, m)) \<and> fst (cga_scroll (pos, m)) < 24 * 80"
proof (cases "pos = 24 * 80")
  case False
  then have "\<not> pos div 80 \<ge> 24" using assms by presburger
  then show ?thesis using assms False by (auto simp: cga_scroll_def)
qed (simp add: cga_scroll_def)

lemma consputc_ok:
  assumes "cons_ok (cons s)"
  shows "\<exists>x. consputc c s = Done (s\<lparr>cons := x\<rparr>) \<and> cons_ok x \<and> uart x = uart (cons s) @ sent c \<and> same_input (cons s) x"
proof -
  let ?x = "(cons s)\<lparr>uart := uart (cons s) @ sent c\<rparr>"
  obtain pos m where a: "cga_advance c (crt_pos (cons s), crt (cons s)) = (pos, m)" by fastforce
  obtain pos' m' where b: "cga_scroll (pos, m) = (pos', m')" by fastforce
  have p: "0 \<le> pos" "pos \<le> 24 * 80"
    using cga_advance_bounds [of "crt_pos (cons s)" c "crt (cons s)"] assms a by (auto simp: cons_ok_def)
  have p': "0 \<le> pos'" "pos' < 24 * 80" using cga_scroll_bounds [OF p, of m] b by auto
  have "(if c = BACKSPACE then uartputc 8 (uartputc 32 (uartputc 8 s)) else uartputc c s) = s\<lparr>cons := ?x\<rparr>"
    by (simp add: uartputc_def upd_cons_def sent_def)
  then have "consputc c s = Done (s\<lparr>cons := ?x\<lparr>crt_pos := pos', crt := m'(nat pos' := 0x0720)\<rparr>\<rparr>)"
    using assms a b p by (simp add: consputc_def cgaputc_def cons_ok_def upd_cons_def)
  then show ?thesis using assms p' by (auto simp: cons_ok_def same_input_def)
qed

lemma same_input_refl [simp]: "same_input x x"
  by (simp add: same_input_def)

lemma same_input_trans: "same_input x y \<Longrightarrow> same_input y z \<Longrightarrow> same_input x z"
  by (simp add: same_input_def)

lemma consputs_ok:
  "cons_ok (cons s) \<Longrightarrow> \<exists>x. kfold consputc cs s = Done (s\<lparr>cons := x\<rparr>) \<and> cons_ok x
     \<and> uart x = uart (cons s) @ concat (map sent cs) \<and> same_input (cons s) x"
proof (induction cs arbitrary: s)
  case Nil
  then show ?case by (auto intro!: exI [of _ "cons s"])
next
  case (Cons c cs)
  obtain x where x: "consputc c s = Done (s\<lparr>cons := x\<rparr>)" "cons_ok x" "uart x = uart (cons s) @ sent c" "same_input (cons s) x"
    using consputc_ok [OF Cons.prems] by blast
  obtain y where "kfold consputc cs (s\<lparr>cons := x\<rparr>) = Done (s\<lparr>cons := y\<rparr>)" "cons_ok y"
    "uart y = uart x @ concat (map sent cs)" "same_input x y"
    using Cons.IH [of "s\<lparr>cons := x\<rparr>"] x by auto
  then show ?case using x same_input_trans by (intro exI [of _ y]) auto
qed

lemma sent_char [simp]: "sent (of_char c) = [of_char c]"
proof -
  have "(of_char c :: int) < 256" using of_char_of [of "of_char c :: int"] by (metis of_char_mod_256 of_char_of pos_mod_bound zero_less_numeral)
  then show ?thesis by (simp add: sent_def BACKSPACE_def of_char_def)
qed

lemma putchars_ok:
  assumes "cons_ok (cons s)"
  shows "\<exists>x. putchars cs s = Done (s\<lparr>cons := x\<rparr>) \<and> cons_ok x \<and> uart x = uart (cons s) @ map of_char cs \<and> same_input (cons s) x"
proof -
  have "concat (map sent (map of_char cs)) = map of_char cs" by (induction cs) auto
  then show ?thesis using consputs_ok [OF assms, of "map of_char cs"] by (simp add: putchars_def kfold_map)
qed

text \<open>What a format and its arguments mean as text; \<open>None\<close> where the arguments do not fit.\<close>

fun render :: "char list \<Rightarrow> carg list \<Rightarrow> char list option" where
  "render [] as = Some []"
| "render (c # cs) as =
     (if c \<noteq> CHR ''%'' then map_option ((@) [c]) (render cs as)
      else case cs of
        [] \<Rightarrow> Some []
      | d # ds \<Rightarrow>
          if d = CHR ''d'' then
            (case as of Word w # as \<Rightarrow> map_option ((@) (printint_text w 10 True)) (render ds as) | _ \<Rightarrow> None)
          else if d = CHR ''x'' \<or> d = CHR ''p'' then
            (case as of Word w # as \<Rightarrow> map_option ((@) (printint_text w 16 False)) (render ds as) | _ \<Rightarrow> None)
          else if d = CHR ''s'' then
            (case as of Text t # as \<Rightarrow> map_option ((@) (case t of None \<Rightarrow> ''(null)'' | Some t \<Rightarrow> t)) (render ds as) | _ \<Rightarrow> None)
          else if d = CHR ''%'' then map_option ((@) ''%'') (render ds as)
          else map_option ((@) [CHR ''%'', d]) (render ds as))"

definition printed :: "char list \<Rightarrow> kernel \<Rightarrow> kernel kresult \<Rightarrow> bool" where
  "printed out s m \<longleftrightarrow> (\<exists>x. m = Done (s\<lparr>cons := x\<rparr>) \<and> cons_ok x \<and> uart x = uart (cons s) @ map of_char out \<and> same_input (cons s) x)"

lemma printed_bind:
  assumes "printed out s m" and "\<And>x. cons_ok x \<Longrightarrow> printed out' (s\<lparr>cons := x\<rparr>) (k (s\<lparr>cons := x\<rparr>))"
  shows "printed (out @ out') s (kbind m k)"
proof -
  obtain x where x: "m = Done (s\<lparr>cons := x\<rparr>)" "cons_ok x" "uart x = uart (cons s) @ map of_char out" "same_input (cons s) x"
    using assms(1) by (auto simp: printed_def)
  obtain y where "k (s\<lparr>cons := x\<rparr>) = Done (s\<lparr>cons := y\<rparr>)" "cons_ok y" "uart y = uart x @ map of_char out'" "same_input x y"
    using assms(2) [OF x(2)] by (auto simp: printed_def)
  then show ?thesis using x same_input_trans by (auto simp: printed_def intro!: exI [of _ y])
qed

lemma printed_putchars: "cons_ok (cons s) \<Longrightarrow> printed cs s (putchars cs s)"
  using putchars_ok by (simp add: printed_def)

lemma cprintf_loop_printed:
  "render fmt as = Some out \<Longrightarrow> cons_ok (cons s) \<Longrightarrow> printed out s (cprintf_loop fmt as s)"
proof (induction fmt as arbitrary: s out rule: render.induct)
  case (1 as)
  then show ?case by (auto simp: printed_def intro!: exI [of _ "cons s"])
next
  case (2 c cs as)
  note IH = "2.IH"
  have ok: "cons_ok (cons s)" by fact
  have step: "printed (t @ out') s (kbind (putchars t s) (cprintf_loop ds bs))"
    if "\<And>s. cons_ok (cons s) \<Longrightarrow> printed out' s (cprintf_loop ds bs s)" for t out' ds bs
    using that by (intro printed_bind printed_putchars ok) simp
  have stop: "printed [] s (Done s)" using ok by (auto simp: printed_def intro!: exI [of _ "cons s"])
  show ?case
  proof (cases "c \<noteq> CHR ''%''")
    case True
    then obtain z where "render cs as = Some z" "out = [c] @ z" using "2.prems"(1) by auto
    then show ?thesis using True IH(1) [OF True] step [of z cs as "[c]"] by simp
  next
    case False
    then have c: "c = CHR ''%''" by simp
    show ?thesis
    proof (cases cs)
      case Nil
      then show ?thesis using "2.prems"(1) c stop by simp
    next
      case (Cons d ds)
      have r: "printed out s (kbind (putchars t s) (cprintf_loop ds bs))"
        if "map_option ((@) t) (render ds bs) = Some out"
          "\<And>out' s. render ds bs = Some out' \<Longrightarrow> cons_ok (cons s) \<Longrightarrow> printed out' s (cprintf_loop ds bs s)" for t bs
        using that step [of _ ds bs t] by auto
      consider "d = CHR ''d''" | "d = CHR ''x'' \<or> d = CHR ''p''" | "d = CHR ''s''" | "d = CHR ''%''"
        | "d \<notin> {CHR ''d'', CHR ''x'', CHR ''p'', CHR ''s'', CHR ''%''}" by blast
      then show ?thesis
      proof cases
        case 1
        then obtain w bs where "as = Word w # bs" using "2.prems"(1) c Cons by (auto split: list.splits carg.splits)
        then show ?thesis using "2.prems"(1) IH(2) [OF False Cons 1] 1 c Cons r [of "printint_text w 10 True" bs] by (simp add: printint_def)
      next
        case 2
        then obtain w bs where "as = Word w # bs" using "2.prems"(1) c Cons by (auto split: list.splits carg.splits)
        then show ?thesis using "2.prems"(1) IH(3) [OF False Cons _ 2] 2 c Cons r [of "printint_text w 16 False" bs] by (auto simp: printint_def)
      next
        case 3
        then obtain w bs where "as = Text w # bs" using "2.prems"(1) c Cons by (auto split: list.splits carg.splits)
        then show ?thesis using "2.prems"(1) IH(4) [OF False Cons _ _ 3] 3 c Cons r [of "case w of None \<Rightarrow> ''(null)'' | Some t \<Rightarrow> t" bs] by simp
      next
        case 4
        then show ?thesis using "2.prems"(1) IH(5) [OF False Cons _ _ _ 4] c Cons r [of "''%''" as] by simp
      next
        case 5
        then show ?thesis using "2.prems"(1) IH(6) [OF False Cons] c Cons r [of "[CHR ''%'', d]" as] by simp
      qed
    qed
  qed
qed

lemma cprintf_printed:
  assumes "cli_ok s" and "locked (locks s Lcons) = 0" and "cons_ok (cons s)" and "render fmt as = Some out"
  shows "printed out (if locking (cons s) then crit Lcons s else s) (cprintf fmt as s)"
proof (cases "locking (cons s)")
  case True
  obtain x where x: "cprintf_loop fmt as (enter Lcons (callers s) (crit Lcons s)) = Done (enter Lcons (callers s) ((crit Lcons s)\<lparr>cons := x\<rparr>))"
    "cons_ok x" "uart x = uart (cons s) @ map of_char out" "same_input (cons s) x"
    using cprintf_loop_printed [OF assms(4), of "enter Lcons (callers s) (crit Lcons s)"] assms(3) by (auto simp: printed_def)
  have "release Lcons (enter Lcons (callers s) ((crit Lcons s)\<lparr>cons := x\<rparr>)) = Done ((crit Lcons s)\<lparr>cons := x\<rparr>)"
    using crit_ok_crit [OF assms(1) refl, of Lcons] by (intro release_enter) simp
  then show ?thesis using True x assms(2) by (auto simp: cprintf_def acquire_enter printed_def)
next
  case False
  then show ?thesis using cprintf_loop_printed [OF assms(4,3)] by (simp add: cprintf_def)
qed

section \<open>Input\<close>

text \<open>
  The abstract input: the bytes that can be read, and the line being edited. \<open>edit_char\<close> is what a typed
  character does to them.
\<close>

fun edit_char :: "int \<Rightarrow> u8 list \<times> u8 list \<Rightarrow> u8 list \<times> u8 list" where
  "edit_char c (com, ed) =
     (if c = 16 then (com, ed)
      else if c = 21 then (com, [])
      else if c = 8 \<or> c = 127 then (com, butlast ed)
      else if c \<noteq> 0 \<and> length com + length ed < 128 then
        let c = (if c = 13 then 10 else c); ed = ed @ [word_of_int c] in
        if c = 10 \<or> c = 4 \<or> length com + length ed = 128 then (com @ ed, []) else (com, ed)
      else (com, ed))"

definition input_rep :: "console \<Rightarrow> u8 list \<times> u8 list \<Rightarrow> bool" where
  "input_rep x io \<longleftrightarrow> (case io of (com, ed) \<Rightarrow>
     length (ibuf x) = 128 \<and> length com + length ed \<le> 128
     \<and> in_w x = in_r x + of_nat (length com) \<and> in_e x = in_w x + of_nat (length ed) \<and> 10 \<notin> set ed
     \<and> (\<forall>i<length (com @ ed). ibuf x ! ((unat (in_r x) + i) mod 128) = (com @ ed) ! i))"

lemma input_slot: "unat ((w + of_nat i :: u32) mod INPUT_BUF) = (unat w + i) mod 128"
  using ring_index [of 128 w i] by (simp add: INPUT_BUF_def unat_mod)

lemma input_same: "same_input x y \<Longrightarrow> input_rep y io = input_rep x io"
  by (simp add: same_input_def input_rep_def split: prod.splits)

text \<open>The four pointer moves of the ring: store, erase, commit, take.\<close>

lemma input_store_content:
  assumes "input_rep x (com, ed)" and "length com + length ed < 128"
  shows "length (ibuf (input_store b x)) = 128" "in_r (input_store b x) = in_r x" "in_w (input_store b x) = in_w x"
    "in_e (input_store b x) = in_r x + of_nat (length com + length ed + 1)"
    "\<forall>i<length (com @ ed @ [b]). ibuf (input_store b x) ! ((unat (in_r x) + i) mod 128) = (com @ ed @ [b]) ! i"
proof -
  let ?a = "unat (in_r x)" and ?n = "length com + length ed"
  have e: "in_e x = in_r x + of_nat ?n" using assms(1) by (simp add: input_rep_def algebra_simps)
  have s: "unat (in_e x mod INPUT_BUF) = (?a + ?n) mod 128" unfolding e by (rule input_slot)
  have "(ibuf x)[(?a + ?n) mod 128 := b] ! ((?a + i) mod 128) = (com @ ed @ [b]) ! i" if "i < Suc ?n" for i
    using that assms ring_distinct [of i ?n 128 ?a]
    by (cases "i = ?n") (auto simp: input_rep_def nth_append)
  then show "\<forall>i<length (com @ ed @ [b]). ibuf (input_store b x) ! ((unat (in_r x) + i) mod 128) = (com @ ed @ [b]) ! i"
    using s by (simp add: input_store_def)
  show "length (ibuf (input_store b x)) = 128" using assms(1) by (simp add: input_rep_def input_store_def)
  show "in_r (input_store b x) = in_r x" "in_w (input_store b x) = in_w x" by (simp_all add: input_store_def)
  show "in_e (input_store b x) = in_r x + of_nat (length com + length ed + 1)" by (simp add: input_store_def e)
qed

lemma input_store_rep:
  "input_rep x (com, ed) \<Longrightarrow> length com + length ed < 128 \<Longrightarrow> b \<noteq> 10 \<Longrightarrow> input_rep (input_store b x) (com, ed @ [b])"
  using input_store_content [of x com ed b] by (simp add: input_rep_def)

lemma input_newline_rep:
  "input_rep x (com, ed) \<Longrightarrow> length com + length ed < 128
    \<Longrightarrow> input_rep ((input_store b x)\<lparr>in_w := in_e (input_store b x)\<rparr>) (com @ ed @ [b], [])"
  using input_store_content [of x com ed b] by (simp add: input_rep_def)

lemma input_erase_rep:
  assumes "input_rep x (com, ed @ [b])"
  shows "input_rep (x\<lparr>in_e := in_e x - 1\<rparr>) (com, ed)"
proof -
  have "(com @ ed) ! i = (com @ ed @ [b]) ! i" if "i < length com + length ed" for i
    using that nth_append [of "com @ ed" "[b]" i] by simp
  then show ?thesis using assms by (auto simp: input_rep_def)
qed

lemma input_take_rep:
  assumes "input_rep x (c # com, ed)"
  shows "input_rep (x\<lparr>in_r := in_r x + 1\<rparr>) (com, ed)" "input_at x (in_r x) = c"
proof -
  have "ibuf x ! ((unat (in_r x + 1) + i) mod 128) = (com @ ed) ! i" if "i < length com + length ed" for i
  proof -
    have "unat (in_r x + 1) mod 128 = (unat (in_r x) + 1) mod 128"
      using input_slot [of "in_r x" 1] by (simp add: INPUT_BUF_def unat_mod)
    then have "(unat (in_r x + 1) + i) mod 128 = (unat (in_r x) + Suc i) mod 128"
      by (metis (no_types, opaque_lifting) add.assoc mod_add_left_eq plus_1_eq_Suc)
    then show ?thesis using assms that by (auto simp: input_rep_def)
  qed
  then show "input_rep (x\<lparr>in_r := in_r x + 1\<rparr>) (com, ed)"
    using assms by (auto simp: input_rep_def add.assoc)
  show "input_at x (in_r x) = c"
    using assms input_slot [of "in_r x" 0] by (auto simp: input_rep_def input_at_def)
qed

lemma input_empty_iff:
  assumes "input_rep x (com, ed)"
  shows "in_e x = in_w x \<longleftrightarrow> ed = []" "in_r x = in_w x \<longleftrightarrow> com = []"
    "in_e x - in_r x < INPUT_BUF \<longleftrightarrow> length com + length ed < 128"
    "in_e x = in_r x + INPUT_BUF \<longleftrightarrow> length com + length ed = 128"
proof -
  have w: "in_w x = in_r x + of_nat (length com)" and e: "in_e x = in_r x + of_nat (length com + length ed)"
    and l: "length com + length ed \<le> 128"
    using assms by (auto simp: input_rep_def algebra_simps)
  show "in_e x = in_w x \<longleftrightarrow> ed = []"
    unfolding w e using of_nat_u32_eq [of "length com + length ed" "length com"] l by simp
  show "in_r x = in_w x \<longleftrightarrow> com = []"
    unfolding w using of_nat_u32_eq [of "length com" 0] l by simp
  have "unat (of_nat (length com + length ed) :: u32) = length com + length ed"
    using l by (simp add: unat_of_nat del: of_nat_add)
  then show "in_e x - in_r x < INPUT_BUF \<longleftrightarrow> length com + length ed < 128"
    unfolding e by (simp add: INPUT_BUF_def word_less_nat_alt del: of_nat_add)
  show "in_e x = in_r x + INPUT_BUF \<longleftrightarrow> length com + length ed = 128"
    unfolding e using of_nat_u32_eq [of "length com + length ed" 128] l by (simp add: INPUT_BUF_def del: of_nat_add)
qed

lemma input_last:
  assumes "input_rep x (com, ed @ [b])"
  shows "input_at x (in_e x - 1) = b"
proof -
  have e: "in_e x - 1 = in_r x + of_nat (length com + length ed)" using assms by (auto simp: input_rep_def)
  show ?thesis using assms unfolding input_at_def e input_slot by (auto simp: input_rep_def nth_append)
qed

text \<open>
  \<open>console_char\<close> inside the console lock refines \<open>edit_char\<close>. \<open>at_cons P r io\<close> is what holds of the state \<open>r\<close>
  underneath the lock.
\<close>

definition at_cons :: "u32 list \<Rightarrow> kernel \<Rightarrow> u8 list \<times> u8 list \<Rightarrow> bool" where
  "at_cons P r io \<longleftrightarrow> cli_ok r \<and> locked (locks r Lptable) = 0 \<and> crit_ok Lcons P r \<and> cons_ok (cons r) \<and> input_rep (cons r) io"

definition refines :: "u32 list \<Rightarrow> kernel kresult \<Rightarrow> u8 list \<times> u8 list \<Rightarrow> bool" where
  "refines P m io \<longleftrightarrow> (\<exists>r. m = Done (enter Lcons P r) \<and> at_cons P r io)"

lemma refinesI: "at_cons P r io \<Longrightarrow> refines P (Done (enter Lcons P r)) io"
  by (auto simp: refines_def)

lemma at_cons_upd:
  "at_cons P r io \<Longrightarrow> cons_ok x \<Longrightarrow> input_rep x io' \<Longrightarrow> at_cons P (r\<lparr>cons := x\<rparr>) io'"
  by (simp add: at_cons_def)

lemma cons_ok_input [simp]:
  "cons_ok (x\<lparr>in_e := e\<rparr>) = cons_ok x" "cons_ok (x\<lparr>in_w := e\<rparr>) = cons_ok x" "cons_ok (x\<lparr>in_r := e\<rparr>) = cons_ok x"
  "cons_ok (input_store b x) = cons_ok x"
  by (simp_all add: cons_ok_def input_store_def)

lemma consputc_refines:
  assumes "at_cons P r io" and "cons_ok x" and "input_rep x io'"
  shows "\<exists>y. consputc c (enter Lcons P (r\<lparr>cons := x\<rparr>)) = Done (enter Lcons P (r\<lparr>cons := y\<rparr>)) \<and> same_input x y \<and> at_cons P (r\<lparr>cons := y\<rparr>) io'"
proof -
  obtain y where y: "consputc c (enter Lcons P (r\<lparr>cons := x\<rparr>)) = Done (enter Lcons P (r\<lparr>cons := y\<rparr>))" "cons_ok y" "same_input x y"
    using consputc_ok [of "enter Lcons P (r\<lparr>cons := x\<rparr>)" c] assms(2) by auto
  then have "input_rep y io'" using input_same assms(3) by blast
  then show ?thesis using y at_cons_upd [OF assms(1)] by blast
qed

lemma erase_one_refines:
  assumes "at_cons P r (com, ed @ [b])"
  shows "\<exists>y. erase_one (enter Lcons P r) = Done (enter Lcons P (r\<lparr>cons := y\<rparr>)) \<and> at_cons P (r\<lparr>cons := y\<rparr>) (com, ed)"
  using consputc_refines [OF assms, of "(cons r)\<lparr>in_e := in_e (cons r) - 1\<rparr>" "(com, ed)" BACKSPACE] input_erase_rep assms
  by (fastforce simp: erase_one_def upd_cons_def at_cons_def)

lemma kill_line_refines:
  "at_cons P r (com, ed) \<Longrightarrow> refines P (kwhile (\<lambda>s. in_e (cons s) \<noteq> in_w (cons s) \<and> input_at (cons s) (in_e (cons s) - 1) \<noteq> 10)
     erase_one (enter Lcons P r)) (com, [])"
proof (induction ed arbitrary: r rule: rev_induct)
  case Nil
  then have "in_e (cons r) = in_w (cons r)" using input_empty_iff(1) by (auto simp: at_cons_def)
  then show ?case using Nil by (subst kwhile_unfold) (simp add: refinesI)
next
  case (snoc b ed)
  have rep: "input_rep (cons r) (com, ed @ [b])" using snoc.prems by (simp add: at_cons_def)
  have g: "in_e (cons r) \<noteq> in_w (cons r)" using input_empty_iff(1) [OF rep] by simp
  have g2: "input_at (cons r) (in_e (cons r) - 1) \<noteq> 10" using input_last [OF rep] rep by (simp add: input_rep_def)
  obtain y where "erase_one (enter Lcons P r) = Done (enter Lcons P (r\<lparr>cons := y\<rparr>))" "at_cons P (r\<lparr>cons := y\<rparr>) (com, ed)"
    using erase_one_refines [OF snoc.prems] by blast
  then show ?case using snoc.IH [of "r\<lparr>cons := y\<rparr>"] g g2 by (subst kwhile_unfold) simp
qed

lemma wakeup_refines:
  assumes "at_cons P r io"
  shows "refines P (wakeup ChInput (enter Lcons P r)) io"
  using assms by (auto simp: at_cons_def wakeup_enter refines_def lock_words crit_ok_dbg)

lemma byte_newline: "0 \<le> c \<Longrightarrow> c < 256 \<Longrightarrow> (word_of_int c :: u8) = 10 \<longleftrightarrow> c = 10"
  using word_of_int_eq_iff [of c 10, where 'a = 8] by (auto simp: take_bit_eq_mod word_of_int_inj)

lemma console_store_refines:
  assumes "at_cons P r (com, ed)" and c: "c \<notin> {16, 21, 8, 127}" "c \<noteq> 0" "length com + length ed < 128" "0 \<le> c" "c < 256"
  shows "refines P (console_char c (enter Lcons P r)) (edit_char c (com, ed))"
proof -
  have rep: "input_rep (cons r) (com, ed)" and ok: "cons_ok (cons r)" using assms(1) by (auto simp: at_cons_def)
  define d where "d = (if c = 13 then 10 else c)"
  define b where "b = (word_of_int d :: u8)"
  define x where "x = input_store b (cons r)"
  have ed: "edit_char c (com, ed) = (if d = 10 \<or> d = 4 \<or> length com + length ed + 1 = 128 then (com @ ed @ [b], []) else (com, ed @ [b]))"
    using c(1-3) by (simp add: d_def [symmetric] b_def Let_def)
  have room: "in_e (cons r) - in_r (cons r) < INPUT_BUF" using input_empty_iff(3) [OF rep] c(3) by simp
  have eq: "console_char c (enter Lcons P r) = kbind (consputc d (enter Lcons P (r\<lparr>cons := x\<rparr>))) (\<lambda>s.
      if d = 10 \<or> d = 4 \<or> in_e (cons s) = in_r (cons s) + INPUT_BUF
      then wakeup ChInput (upd_cons (\<lambda>x. x\<lparr>in_w := in_e x\<rparr>) s) else Done s)"
    using c(1,2) room by (simp add: console_char_def ctrl_def upd_cons_def Let_def x_def b_def d_def [symmetric])
  obtain y where y: "consputc d (enter Lcons P (r\<lparr>cons := x\<rparr>)) = Done (enter Lcons P (r\<lparr>cons := y\<rparr>))" "same_input x y" "cons_ok y"
    using consputc_ok [of "enter Lcons P (r\<lparr>cons := x\<rparr>)" d] ok by (auto simp: x_def)
  have "in_e x = in_r x + of_nat (length com + length ed + 1)"
    using input_store_content(2,4) [OF rep c(3), of b] by (simp add: x_def)
  then have full: "in_e y = in_r y + INPUT_BUF \<longleftrightarrow> length com + length ed + 1 = 128"
    using y(2) of_nat_u32_eq [of "length com + length ed + 1" 128] c(3)
    by (simp add: same_input_def INPUT_BUF_def del: of_nat_add of_nat_Suc)
  show ?thesis
  proof (cases "d = 10 \<or> d = 4 \<or> length com + length ed + 1 = 128")
    case True
    have "input_rep (y\<lparr>in_w := in_e y\<rparr>) (com @ ed @ [b], [])"
      using input_newline_rep [OF rep c(3), of b] y(2) by (simp add: input_rep_def same_input_def x_def)
    then have "at_cons P (r\<lparr>cons := y\<lparr>in_w := in_e y\<rparr>\<rparr>) (com @ ed @ [b], [])"
      using assms(1) y(3) by (intro at_cons_upd) auto
    then show ?thesis using wakeup_refines True y(1) full unfolding eq ed by (simp add: upd_cons_def)
  next
    case False
    have "b \<noteq> 10" using False byte_newline [of d] c(4,5) by (auto simp: b_def d_def)
    then have "input_rep x (com, ed @ [b])" unfolding x_def by (rule input_store_rep [OF rep c(3)])
    then have "at_cons P (r\<lparr>cons := y\<rparr>) (com, ed @ [b])"
      using assms(1) y(2,3) input_same by (intro at_cons_upd) auto
    then show ?thesis using y(1) full False unfolding eq ed by (simp add: refinesI)
  qed
qed

lemma console_char_refines:
  assumes "at_cons P r io" and "0 \<le> c" and "c < 256"
  shows "refines P (console_char c (enter Lcons P r)) (edit_char c io)"
proof -
  obtain com ed where io: "io = (com, ed)" by fastforce
  have at: "at_cons P r (com, ed)" using assms(1) io by simp
  then have rep: "input_rep (cons r) (com, ed)" by (simp add: at_cons_def)
  note E = input_empty_iff [OF rep] and stay = refinesI [OF at]
  consider "c = 16" | "c = 21" | "c = 8 \<or> c = 127" | (store) "c \<notin> {16, 21, 8, 127}" "c \<noteq> 0" "length com + length ed < 128"
    | (drop) "c \<notin> {16, 21, 8, 127}" "\<not> (c \<noteq> 0 \<and> length com + length ed < 128)" by auto
  then show ?thesis
  proof cases
    case 1
    then show ?thesis using stay io by (simp add: console_char_def ctrl_def)
  next
    case 2
    then show ?thesis using kill_line_refines [OF at] io by (simp add: console_char_def ctrl_def)
  next
    case 3
    show ?thesis
    proof (cases ed rule: rev_cases)
      case Nil
      then have "console_char c (enter Lcons P r) = Done (enter Lcons P r)" "edit_char c io = (com, ed)"
        using 3 E(1) io by (auto simp: console_char_def ctrl_def)
      then show ?thesis using stay by simp
    next
      case (snoc ed' b)
      have "console_char c (enter Lcons P r) = erase_one (enter Lcons P r)" "edit_char c io = (com, ed')"
        using 3 E(1) io snoc by (auto simp: console_char_def ctrl_def)
      then show ?thesis using erase_one_refines at snoc by (metis refines_def)
    qed
  next
    case store
    then show ?thesis using console_store_refines [OF at store] assms io by simp
  next
    case drop
    have "console_char c (enter Lcons P r) = Done (enter Lcons P r)" "edit_char c io = (com, ed)"
      using drop E(3) io by (auto simp: console_char_def ctrl_def)
    then show ?thesis using stay by simp
  qed
qed

lemma console_chars_refine:
  "at_cons P r io \<Longrightarrow> \<forall>c\<in>set cs. 0 \<le> c \<and> c < 256 \<Longrightarrow> refines P (kfold console_char cs (enter Lcons P r)) (fold edit_char cs io)"
proof (induction cs arbitrary: r io)
  case Nil
  then show ?case by (simp add: refinesI)
next
  case (Cons c cs)
  obtain r' where "console_char c (enter Lcons P r) = Done (enter Lcons P r')" "at_cons P r' (edit_char c io)"
    using console_char_refines [OF Cons.prems(1), of c] Cons.prems(2) by (auto simp: refines_def)
  then show ?case using Cons.IH [of r' "edit_char c io"] Cons.prems(2) by simp
qed

text \<open>
  Control-P prints the process table when the lock has been given back: every line is printed under the lock of its own call of
  \<open>cprintf\<close>, and the input is as it was.
\<close>

definition idle_cons :: "u8 list \<times> u8 list \<Rightarrow> kernel \<Rightarrow> bool" where
  "idle_cons io s \<longleftrightarrow> cli_ok s \<and> locked (locks s Lcons) = 0 \<and> cons_ok (cons s) \<and> input_rep (cons s) io"

lemma cprintf_idle:
  assumes "idle_cons io s" and "render fmt as = Some out"
  shows "\<exists>t. cprintf fmt as s = Done t \<and> idle_cons io t"
proof -
  let ?r = "if locking (cons s) then crit Lcons s else s"
  have r: "cli_ok ?r" "locked (locks ?r Lcons) = 0" "cons ?r = cons s" using assms(1) by (simp_all add: idle_cons_def crit_locked)
  have "printed out ?r (cprintf fmt as s)" using cprintf_printed assms unfolding idle_cons_def by blast
  then obtain x where x: "cprintf fmt as s = Done (?r\<lparr>cons := x\<rparr>)" "cons_ok x" "same_input (cons s) x"
    unfolding printed_def r(3) by blast
  have "input_rep x io" using input_same [OF x(3)] assms(1) by (simp add: idle_cons_def)
  then show ?thesis using r x(1,2) by (simp add: idle_cons_def)
qed

lemma kfold_keeps:
  assumes "\<And>x s. x \<in> set xs \<Longrightarrow> J s \<Longrightarrow> \<exists>t. f x s = Done t \<and> J t" and "J s"
  shows "\<exists>t. kfold f xs s = Done t \<and> J t"
  using assms
proof (induction xs arbitrary: s)
  case (Cons x xs)
  then obtain t where "f x s = Done t" "J t" by fastforce
  then show ?case using Cons.IH [of t] Cons.prems(1) by fastforce
qed simp

lemma procdump_one_idle:
  assumes "idle_cons io s"
  shows "\<exists>t. procdump_one p s = Done t \<and> idle_cons io t"
proof (cases "state (procs s p) = UNUSED")
  case False
  let ?q = "procs s p"
  let ?t = "kfold (\<lambda>pc. cprintf '' %p'' [Word pc]) (takeWhile (\<lambda>pc. pc \<noteq> 0) (getcallerpcs m a))"
  have pc: "\<exists>t. cprintf '' %p'' [Word pc] s = Done t \<and> idle_cons io t" if "idle_cons io s" for pc s
    by (rule cprintf_idle [OF that]) simp
  have nl: "\<exists>t. cprintf [CHR 10] [] s = Done t \<and> idle_cons io t" if "idle_cons io s" for s
    by (rule cprintf_idle [OF that]) simp
  have "\<exists>out. render ''%d %s %s'' [Word w, Text (Some a), Text (Some b)] = Some out" for w a b by simp
  then obtain t where t: "cprintf ''%d %s %s'' [Word (of_int (pid ?q)), Text (Some (state_name (state ?q))), Text (Some (cstring (pname ?q)))] s = Done t"
    "idle_cons io t" using cprintf_idle [OF assms] by metis
  have "\<exists>u. (if state ?q = SLEEPING
       then kfold (\<lambda>pc. cprintf '' %p'' [Word pc]) (takeWhile (\<lambda>pc. pc \<noteq> 0) (getcallerpcs (mem t) (c_ebp (ctx ?q) + 8))) t
       else Done t) = Done u \<and> idle_cons io u"
    using t(2) kfold_keeps [of _ "idle_cons io" "\<lambda>pc. cprintf '' %p'' [Word pc]"] pc by simp
  then obtain u where u: "(if state ?q = SLEEPING
       then kfold (\<lambda>pc. cprintf '' %p'' [Word pc]) (takeWhile (\<lambda>pc. pc \<noteq> 0) (getcallerpcs (mem t) (c_ebp (ctx ?q) + 8))) t
       else Done t) = Done u" "idle_cons io u" by blast
  show ?thesis using nl [OF u(2)] False by (simp add: procdump_one_def Let_def t(1) u(1))
qed (use assms in \<open>simp add: procdump_one_def\<close>)

lemma procdump_idle: "idle_cons io s \<Longrightarrow> \<exists>t. procdump s = Done t \<and> idle_cons io t"
  unfolding procdump_def by (rule kfold_keeps) (rule procdump_one_idle)

text \<open>The characters under the lock, then the process table if one of them was control-P.\<close>

lemma console_section:
  assumes "cli_ok s" and "locked (locks s Lptable) = 0" and "locked (locks s Lcons) = 0" and "cons_ok (cons s)"
    and "input_rep (cons s) io" and "\<forall>c\<in>set cs. 0 \<le> c \<and> c < 256"
  shows "\<exists>r. consoleintr cs s = (if 16 \<in> set cs then procdump r else Done r) \<and> at_cons (callers s) r (fold edit_char cs io)"
proof -
  have "at_cons (callers s) (crit Lcons s) io"
    using assms by (simp add: at_cons_def crit_locked crit_ok_crit)
  then obtain r where r: "kfold console_char cs (enter Lcons (callers s) (crit Lcons s)) = Done (enter Lcons (callers s) r)"
    "at_cons (callers s) r (fold edit_char cs io)"
    using console_chars_refine [of "callers s" "crit Lcons s" io cs] assms(6) by (auto simp: refines_def)
  have "ctrl CHR ''P'' = 16" by (simp add: ctrl_def)
  then show ?thesis using r assms(3) by (intro exI [of _ r]) (simp add: consoleintr_def acquire_enter release_enter at_cons_def)
qed

lemma consoleintr_refines:
  assumes "cli_ok s" and "locked (locks s Lptable) = 0" and "locked (locks s Lcons) = 0" and "cons_ok (cons s)"
    and "input_rep (cons s) io" and "\<forall>c\<in>set cs. 0 \<le> c \<and> c < 256 \<and> c \<noteq> 16"
  shows "\<exists>t. consoleintr cs s = Done t \<and> at_cons (callers s) t (fold edit_char cs io)"
  using console_section [OF assms(1-5), of cs] assms(6) by auto

lemma consoleintr_all:
  assumes "cli_ok s" and "locked (locks s Lptable) = 0" and "locked (locks s Lcons) = 0" and "cons_ok (cons s)"
    and "input_rep (cons s) io" and "\<forall>c\<in>set cs. 0 \<le> c \<and> c < 256"
  shows "\<exists>t. consoleintr cs s = Done t \<and> idle_cons (fold edit_char cs io) t"
proof -
  obtain r where r: "consoleintr cs s = (if 16 \<in> set cs then procdump r else Done r)" "at_cons (callers s) r (fold edit_char cs io)"
    using console_section [OF assms] by blast
  have "idle_cons (fold edit_char cs io) r" using r(2) by (simp add: at_cons_def idle_cons_def crit_ok_def)
  then show ?thesis unfolding r(1) using procdump_idle by auto
qed

section \<open>Reading a line\<close>

lemma consoleread_line:
  "at_cons P r (l @ [10] @ rest, ed) \<Longrightarrow> 4 \<notin> set l \<Longrightarrow> 10 \<notin> set l \<Longrightarrow> length l < n \<Longrightarrow> length acc + n = target
    \<Longrightarrow> \<exists>x. consoleread_loop ip target n acc (enter Lcons P r)
          = consoleread_end ip (int (length acc + length l + 1)) (acc @ l @ [10]) (enter Lcons P (r\<lparr>cons := x\<rparr>))
        \<and> at_cons P (r\<lparr>cons := x\<rparr>) (rest, ed)"
proof (induction l arbitrary: r n acc)
  case Nil
  obtain m where n: "n = Suc m" using Nil.prems by (cases n) auto
  have rep: "input_rep (cons r) (10 # rest, ed)" "cons_ok (cons r)" using Nil.prems(1) by (auto simp: at_cons_def)
  let ?x = "(cons r)\<lparr>in_r := in_r (cons r) + 1\<rparr>"
  have "at_cons P (r\<lparr>cons := ?x\<rparr>) (rest, ed)"
    using at_cons_upd [OF Nil.prems(1)] input_take_rep(1) [OF rep(1)] rep(2) by simp
  moreover have "int target - int m = int (length acc + 1)" using Nil.prems n by simp
  ultimately show ?case
    using input_empty_iff(2) [OF rep(1)] input_take_rep(2) [OF rep(1)] n
    by (intro exI [of _ ?x]) (simp add: upd_cons_def Let_def)
next
  case (Cons c l)
  obtain m where n: "n = Suc m" using Cons.prems by (cases n) auto
  have rep: "input_rep (cons r) (c # l @ [10] @ rest, ed)" "cons_ok (cons r)" using Cons.prems(1) by (auto simp: at_cons_def)
  let ?x = "(cons r)\<lparr>in_r := in_r (cons r) + 1\<rparr>"
  have "at_cons P (r\<lparr>cons := ?x\<rparr>) (l @ [10] @ rest, ed)"
    using at_cons_upd [OF Cons.prems(1)] input_take_rep(1) [OF rep(1)] rep(2) by simp
  then obtain x where "consoleread_loop ip target m (acc @ [c]) (enter Lcons P (r\<lparr>cons := ?x\<rparr>))
      = consoleread_end ip (int (length (acc @ [c]) + length l + 1)) ((acc @ [c]) @ l @ [10]) (enter Lcons P (r\<lparr>cons := x\<rparr>))"
    "at_cons P (r\<lparr>cons := x\<rparr>) (rest, ed)"
    using Cons.IH [of "r\<lparr>cons := ?x\<rparr>" m "acc @ [c]"] Cons.prems n by auto
  then show ?case
    using input_empty_iff(2) [OF rep(1)] input_take_rep(2) [OF rep(1)] Cons.prems n
    by (intro exI [of _ x]) (auto simp: upd_cons_def Let_def)
qed

text \<open>Releasing and taking an inode that is in use and has been read.\<close>

lemma iunlock_ok:
  assumes "cli_ok s" and "locked (locks s Lptable) = 0" and "locked (locks s Licache) = 0"
    and "I_BUSY (inodes s ip)" and "iref (inodes s ip) \<ge> 1"
  shows "iunlock ip s = Done ((dbg Lptable (upd_inode ip (\<lambda>x. x\<lparr>I_BUSY := False\<rparr>) (crit Licache s)))
    \<lparr>procs := wake_all (ChInode ip) (procs s)\<rparr>)"
proof -
  let ?r = "upd_inode ip (\<lambda>x. x\<lparr>I_BUSY := False\<rparr>) (crit Licache s)"
  have "upd_inode ip (\<lambda>x. x\<lparr>I_BUSY := False\<rparr>) (enter Licache (callers s) (crit Licache s)) = enter Licache (callers s) ?r"
    by (simp add: upd_inode_def)
  moreover have "cli_ok ?r" "locked (locks ?r Lptable) = 0" "crit_ok Licache (callers s) ?r" "procs ?r = procs s"
    using assms by (simp_all add: upd_inode_def crit_locked crit_ok_crit)
  ultimately show ?thesis using assms
    by (simp add: iunlock_def acquire_enter wakeup_enter release_enter crit_ok_dbg)
qed

lemma ilock_ok:
  assumes "cli_ok s" and "locked (locks s Licache) = 0"
    and "\<not> I_BUSY (inodes s ip)" and "I_VALID (inodes s ip)" and "iref (inodes s ip) \<ge> 1"
  shows "ilock ip s = Done (upd_inode ip (\<lambda>x. x\<lparr>I_BUSY := True\<rparr>) (crit Licache s))"
proof -
  let ?r = "upd_inode ip (\<lambda>x. x\<lparr>I_BUSY := True\<rparr>) (crit Licache s)"
  have "upd_inode ip (\<lambda>x. x\<lparr>I_BUSY := True\<rparr>) (enter Licache (callers s) (crit Licache s)) = enter Licache (callers s) ?r"
    by (simp add: upd_inode_def)
  moreover have "crit_ok Licache (callers s) ?r" "I_VALID (inodes ?r ip)"
    using assms by (simp_all add: upd_inode_def crit_ok_crit)
  ultimately show ?thesis using assms by (simp add: ilock_def acquire_enter release_enter)
qed

lemma consoleread_ok:
  assumes "cli_ok s" and "\<forall>lk\<in>{Lptable, Lcons, Licache}. locked (locks s lk) = 0" and "cons_ok (cons s)"
    and "input_rep (cons s) (l @ [10] @ rest, ed)" and "4 \<notin> set l" and "10 \<notin> set l" and "length l < nat n"
    and "I_BUSY (inodes s ip)" and "I_VALID (inodes s ip)" and "iref (inodes s ip) \<ge> 1"
  shows "\<exists>t. consoleread ip n s = Done ((int (length l) + 1, l @ [10]), t) \<and> input_rep (cons t) (rest, ed) \<and> I_BUSY (inodes t ip)"
proof -
  let ?u = "(dbg Lptable (upd_inode ip (\<lambda>x. x\<lparr>I_BUSY := False\<rparr>) (crit Licache s)))\<lparr>procs := wake_all (ChInode ip) (procs s)\<rparr>"
  have un: "iunlock ip s = Done ?u" using assms by (intro iunlock_ok) auto
  have u: "cli_ok ?u" "locked (locks ?u Lptable) = 0" "locked (locks ?u Lcons) = 0" "locked (locks ?u Licache) = 0"
    "cons ?u = cons s" "inodes ?u ip = (inodes s ip)\<lparr>I_BUSY := False\<rparr>"
    using assms(1,2) by (simp_all add: upd_inode_def lock_words)
  have at: "at_cons (callers ?u) (crit Lcons ?u) (l @ [10] @ rest, ed)"
    using u assms(3,4) by (simp add: at_cons_def crit_locked crit_ok_crit)
  obtain x where x: "consoleread_loop ip (nat n) (nat n) [] (enter Lcons (callers ?u) (crit Lcons ?u))
      = consoleread_end ip (int (length l + 1)) (l @ [10]) (enter Lcons (callers ?u) ((crit Lcons ?u)\<lparr>cons := x\<rparr>))"
    "at_cons (callers ?u) ((crit Lcons ?u)\<lparr>cons := x\<rparr>) (rest, ed)"
    using consoleread_line [OF at assms(5,6,7), of "[]" "nat n" ip] by auto
  let ?v = "(crit Lcons ?u)\<lparr>cons := x\<rparr>"
  have "ilock ip ?v = Done (upd_inode ip (\<lambda>x. x\<lparr>I_BUSY := True\<rparr>) (crit Licache ?v))"
    using u assms(9,10) by (intro ilock_ok) (simp_all add: crit_locked)
  moreover have "release Lcons (enter Lcons (callers ?u) ?v) = Done ?v"
    using x(2) by (intro release_enter) (simp add: at_cons_def)
  ultimately have "consoleread ip n s = Done ((int (length l) + 1, l @ [10]), upd_inode ip (\<lambda>x. x\<lparr>I_BUSY := True\<rparr>) (crit Licache ?v))"
    using un u(3) x(1) by (simp add: consoleread_def consoleread_call_def acquire_enter consoleread_end_def)
  then show ?thesis using x(2) by (auto simp: at_cons_def upd_inode_def)
qed

end
