(* ===== verification/Keyboard.thy ===== *)
theory Keyboard
  imports Console
begin

text \<open>
  The keyboard (kbd.c, kbd.h): scan codes of the controller as characters of the console. The state of the
  driver is \<open>shift\<close>; the controller is the list of the bytes it delivers.
\<close>

unbundle bit_operations_syntax

section \<open>Codes\<close>

definition SHIFT :: u32 where "SHIFT = 1"
definition CTL :: u32 where "CTL = 2"
definition ALT :: u32 where "ALT = 4"
definition CAPSLOCK :: u32 where "CAPSLOCK = 8"
definition NUMLOCK :: u32 where "NUMLOCK = 16"
definition SCROLLLOCK :: u32 where "SCROLLLOCK = 32"
definition E0ESC :: u32 where "E0ESC = 64"

definition KEY_HOME :: int where "KEY_HOME = 0xE0"
definition KEY_END :: int where "KEY_END = 0xE1"
definition KEY_UP :: int where "KEY_UP = 0xE2"
definition KEY_DN :: int where "KEY_DN = 0xE3"
definition KEY_LF :: int where "KEY_LF = 0xE4"
definition KEY_RT :: int where "KEY_RT = 0xE5"
definition KEY_PGUP :: int where "KEY_PGUP = 0xE6"
definition KEY_PGDN :: int where "KEY_PGDN = 0xE7"
definition KEY_INS :: int where "KEY_INS = 0xE8"
definition KEY_DEL :: int where "KEY_DEL = 0xE9"

lemmas shift_defs = SHIFT_def CTL_def ALT_def CAPSLOCK_def NUMLOCK_def SCROLLLOCK_def E0ESC_def
lemmas key_defs = KEY_HOME_def KEY_END_def KEY_UP_def KEY_DN_def KEY_LF_def KEY_RT_def KEY_PGUP_def KEY_PGDN_def
  KEY_INS_def KEY_DEL_def

section \<open>Tables\<close>

text \<open>An array of 256 bytes with the given initial elements and designated elements; the rest is 0.\<close>

definition table :: "int list \<Rightarrow> (nat \<times> int) list \<Rightarrow> nat \<Rightarrow> int" where
  "table xs ds i = (case map_of ds i of Some c \<Rightarrow> c | None \<Rightarrow> if i < length xs then xs ! i else 0)"

definition chars :: "char list \<Rightarrow> int list" where
  "chars cs = map of_char cs"

definition shiftcode :: "nat \<Rightarrow> u32" where
  "shiftcode i = (case map_of [(0x1D, CTL), (0x2A, SHIFT), (0x36, SHIFT), (0x38, ALT), (0x9D, CTL), (0xB8, ALT)] i of
     Some x \<Rightarrow> x | None \<Rightarrow> 0)"

definition togglecode :: "nat \<Rightarrow> u32" where
  "togglecode i = (case map_of [(0x3A, CAPSLOCK), (0x45, NUMLOCK), (0x46, SCROLLLOCK)] i of Some x \<Rightarrow> x | None \<Rightarrow> 0)"

text \<open>The entries behind the E0 escape that all maps share.\<close>

definition arrows :: "(nat \<times> int) list" where
  "arrows = [(0xC8, KEY_UP), (0xD0, KEY_DN), (0xC9, KEY_PGUP), (0xD1, KEY_PGDN), (0xCB, KEY_LF), (0xCD, KEY_RT),
     (0x97, KEY_HOME), (0xCF, KEY_END), (0xD2, KEY_INS), (0xD3, KEY_DEL)]"

definition normalmap :: "nat \<Rightarrow> int" where
  "normalmap = table
    ([0, 0x1B] @ chars ''1234567890-='' @ [8, 9] @
     chars ''qwertyuiop[]'' @ [10, 0] @ chars ''as'' @
     chars ''dfghjkl;'' @ [39] @ chars ''`'' @ [0, 92] @ chars ''zxcvbnm,./'' @ [0] @ chars ''*'' @
     [0, 32, 0, 0, 0, 0, 0, 0] @ [0, 0, 0, 0, 0, 0, 0] @ chars ''789-456+1230.'' @ [0, 0, 0, 0])
    ([(0x9C, 10), (0xB5, of_char CHR ''/'')] @ arrows)"

definition shiftmap :: "nat \<Rightarrow> int" where
  "shiftmap = table
    ([0, 27] @ chars ''!@#$%^&*()_+'' @ [8, 9] @
     chars ''QWERTYUIOP{}'' @ [10, 0] @ chars ''AS'' @
     chars ''DFGHJKL:'' @ [34] @ chars ''~'' @ [0] @ chars ''|ZXCVBNM<>?'' @ [0] @ chars ''*'' @
     [0, 32, 0, 0, 0, 0, 0, 0] @ [0, 0, 0, 0, 0, 0, 0] @ chars ''789-456+1230.'' @ [0, 0, 0, 0])
    ([(0x9C, 10), (0xB5, of_char CHR ''/'')] @ arrows)"

definition ctlmap :: "nat \<Rightarrow> int" where
  "ctlmap = table
    (replicate 16 0 @ map ctrl ''QWERTYUIOP'' @ [0, 0, 13, 0] @ map ctrl ''AS'' @
     map ctrl ''DFGHJKL'' @ [0, 0, 0, 0, ctrl (CHR 0x5C)] @ map ctrl ''ZXCVBNM'' @ [0, 0, ctrl CHR ''/'', 0, 0])
    ([(0x9C, 13), (0xB5, ctrl CHR ''/'')] @ arrows)"

text \<open>The maps are of type \<open>uchar\<close>: \<open>C('/')\<close>, which is negative, is stored as a byte.\<close>

definition charcode :: "u32 \<Rightarrow> nat \<Rightarrow> int" where
  "charcode m i = ([normalmap, shiftmap, ctlmap, ctlmap] ! unat m) i mod 256"

section \<open>The driver\<close>

text \<open>One byte of the controller: the character and the new shift state.\<close>

definition kbd_byte :: "u8 \<Rightarrow> u32 \<Rightarrow> int \<times> u32" where
  "kbd_byte b shift =
     (if b = 0xE0 then (0, shift OR E0ESC)
      else if b AND 0x80 \<noteq> 0 then
        let i = unat (if shift AND E0ESC \<noteq> 0 then b else b AND 0x7F)
        in (0, shift AND NOT (shiftcode i OR E0ESC))
      else
        let esc = shift AND E0ESC \<noteq> 0;
            i = unat (if esc then b OR 0x80 else b);
            shift = (if esc then shift AND NOT E0ESC else shift);
            shift = shift OR shiftcode i;
            shift = shift XOR togglecode i;
            c = charcode (shift AND (CTL OR SHIFT)) i
        in (if shift AND CAPSLOCK \<noteq> 0
            then if 97 \<le> c \<and> c \<le> 122 then c - 32
                 else if 65 \<le> c \<and> c \<le> 90 then c + 32 else c
            else c, shift))"

text \<open>\<open>kbdgetc\<close>: -1 when the controller has no byte.\<close>

definition kbdgetc :: "u8 list \<Rightarrow> u32 \<Rightarrow> int \<times> u8 list \<times> u32" where
  "kbdgetc bs shift =
     (case bs of [] \<Rightarrow> (-1, [], shift) | b # bs \<Rightarrow> case kbd_byte b shift of (c, shift) \<Rightarrow> (c, bs, shift))"

text \<open>The characters that repeated calls of \<open>kbdgetc\<close> deliver until the controller is empty.\<close>

function kbd_chars :: "u8 list \<Rightarrow> u32 \<Rightarrow> int list \<times> u32" where
  "kbd_chars bs shift =
     (case kbdgetc bs shift of (c, bs', shift') \<Rightarrow>
      if c < 0 then ([], shift') else case kbd_chars bs' shift' of (cs, sh) \<Rightarrow> (c # cs, sh))"
  by auto
termination
  by (relation "measure (\<lambda>(bs, _). length bs)") (auto simp: kbdgetc_def split: list.splits prod.splits)

declare kbd_chars.simps [simp del]

text \<open>\<open>kbdintr\<close>: the console gets every character the controller has.\<close>

definition kbdintr :: "u8 list \<Rightarrow> kernel \<Rightarrow> kernel kresult" where
  "kbdintr bs s =
     (case kbd_chars bs (kbd_shift s) of (cs, shift) \<Rightarrow> consoleintr cs (s\<lparr>kbd_shift := shift\<rparr>))"

text \<open>\<open>uartintr\<close>: the same for the bytes of the serial line.\<close>

definition uartintr :: "u8 list \<Rightarrow> kernel \<Rightarrow> kernel kresult" where
  "uartintr bs s = consoleintr (map uint bs) s"

section \<open>Typing a text\<close>

text \<open>The keys to press and release for a character: the key alone, or with the left shift key held.\<close>

definition key_for :: "(nat \<Rightarrow> int) \<Rightarrow> int \<Rightarrow> nat option" where
  "key_for m c = List.find (\<lambda>i. m i = c) [0..<0x80]"

definition press :: "nat \<Rightarrow> u8 list" where
  "press i = [of_nat i, of_nat i OR 0x80]"

definition keys :: "char \<Rightarrow> u8 list" where
  "keys c = (case key_for normalmap (of_char c) of
     Some i \<Rightarrow> press i
   | None \<Rightarrow> case key_for shiftmap (of_char c) of Some i \<Rightarrow> [0x2A] @ press i @ [0xAA] | None \<Rightarrow> [])"

definition printable :: "char list" where
  "printable = map char_of ([32..<127] @ [10 :: nat])"

text \<open>What the console sees when the keys of a character go down and up: other key events are zeros.\<close>

definition typed :: "char \<Rightarrow> int list" where
  "typed c = (case key_for normalmap (of_char c) of Some i \<Rightarrow> [of_char c, 0] | None \<Rightarrow> [0, of_char c, 0, 0])"

lemma normal_keys: "map normalmap [0..<88] =
     [0, 27, 49, 50, 51, 52, 53, 54, 55, 56, 57, 48, 45, 61, 8, 9, 113, 119, 101, 114, 116, 121, 117,
      105, 111, 112, 91, 93, 10, 0, 97, 115, 100, 102, 103, 104, 106, 107, 108, 59, 39, 96, 0, 92, 122,
      120, 99, 118, 98, 110, 109, 44, 46, 47, 0, 42, 0, 32, 0, 0, 0, 0, 0, 0, 0, 0, 0, 0, 0, 0, 0, 55,
      56, 57, 45, 52, 53, 54, 43, 49, 50, 51, 48, 46, 0, 0, 0, 0]"
  by code_simp

lemma shift_keys: "map shiftmap [0..<88] =
     [0, 27, 33, 64, 35, 36, 37, 94, 38, 42, 40, 41, 95, 43, 8, 9, 81, 87, 69, 82, 84, 89, 85, 73, 79,
      80, 123, 125, 10, 0, 65, 83, 68, 70, 71, 72, 74, 75, 76, 58, 34, 126, 0, 124, 90, 88, 67, 86, 66,
      78, 77, 60, 62, 63, 0, 42, 0, 32, 0, 0, 0, 0, 0, 0, 0, 0, 0, 0, 0, 0, 0, 55, 56, 57, 45, 52, 53,
      54, 43, 49, 50, 51, 48, 46, 0, 0, 0, 0]"
  by code_simp

lemma key_for_SomeD: "key_for m c = Some i \<Longrightarrow> m i = c \<and> i < 128"
  by (auto simp: key_for_def find_Some_iff)

lemma key_for_ex: assumes "c \<in> set (map m [0..<88])" shows "\<exists>i. key_for m c = Some i"
proof -
  obtain i where "i < 88" "c = m i" using assms unfolding set_map set_upt by auto
  then have "i < 128 \<and> m i = c" by simp
  then have "\<exists>i \<in> set [0..<128]. m i = c" unfolding set_upt by auto
  then have "key_for m c \<noteq> None" unfolding key_for_def find_None_iff by blast
  then show ?thesis by blast
qed

lemma printable_range: assumes "c \<in> set printable" shows "\<exists>n \<in> set (10 # [32..<127]). of_char c = int n"
proof -
  obtain n where n: "n \<in> set (10 # [32..<127])" "c = char_of n"
    using assms unfolding printable_def set_map set_append set_simps by blast
  then have "n < 256" unfolding set_simps set_upt by auto
  then have "of_char c = int n" unfolding n(2) of_nat_of_char [symmetric, where 'a = int] of_char_of by simp
  then show ?thesis using n(1) by blast
qed

lemma printable_codes:
  assumes "c \<in> set printable" shows "(of_char c :: int) = 10 \<or> 32 \<le> (of_char c :: int) \<and> (of_char c :: int) < 127"
  using printable_range [OF assms] unfolding set_simps set_upt by auto

lemma printable_keys:
  assumes "c \<in> set printable"
  shows "(\<exists>i. key_for normalmap (of_char c) = Some i) \<or> (\<exists>i. key_for shiftmap (of_char c) = Some i)"
proof -
  have "list_all (\<lambda>n. n \<in> set (map normalmap [0..<88]) \<or> n \<in> set (map shiftmap [0..<88])) (map int (10 # [32..<127]))"
    unfolding normal_keys shift_keys by code_simp
  then have "int n \<in> set (map normalmap [0..<88]) \<or> int n \<in> set (map shiftmap [0..<88])" if "n \<in> set (10 # [32..<127])" for n
    using that unfolding list_all_iff set_map by blast
  then have "of_char c \<in> set (map normalmap [0..<88]) \<or> of_char c \<in> set (map shiftmap [0..<88])"
    using printable_range [OF assms] by metis
  then show ?thesis using key_for_ex by blast
qed

lemma charcode_nonneg [simp]: "0 \<le> charcode m i"
  by (simp add: charcode_def)

lemma kbd_byte_nonneg: "kbd_byte b sh = (c, sh') \<Longrightarrow> 0 \<le> c"
  by (auto simp: kbd_byte_def Let_def split: if_splits)

lemma kbd_chars_Nil [simp]: "kbd_chars [] sh = ([], sh)"
  by (subst kbd_chars.simps) (simp add: kbdgetc_def)

lemma kbd_chars_Cons [simp]:
  "kbd_chars (b # bs) sh = (case kbd_byte b sh of (c, sh) \<Rightarrow> case kbd_chars bs sh of (cs, sh) \<Rightarrow> (c # cs, sh))"
  by (subst kbd_chars.simps) (auto simp: kbdgetc_def dest: kbd_byte_nonneg split: prod.splits)

lemma modifier_keys: "shiftcode i = 0 \<and> togglecode i = 0 \<or> normalmap i = 0 \<and> shiftmap i = 0" if "i < 128"
proof (cases "i \<in> set [0x1D, 0x2A, 0x36, 0x38, 0x3A, 0x45, 0x46]")
  case True
  have "list_all (\<lambda>i. normalmap i = 0 \<and> shiftmap i = 0) [0x1D, 0x2A, 0x36, 0x38, 0x3A, 0x45, 0x46]" by code_simp
  then show ?thesis using True by (auto simp: list_all_iff)
next
  case False
  then show ?thesis using that by (simp add: shiftcode_def togglecode_def)
qed

lemma scan_codes: "(of_nat i :: u8) AND 0x80 = 0 \<and> (of_nat i OR 0x80 :: u8) AND 0x80 \<noteq> 0 \<and> unat ((of_nat i OR 0x80 :: u8) AND 0x7F) = i
    \<and> unat (of_nat i :: u8) = i \<and> (of_nat i :: u8) \<noteq> 0xE0 \<and> ((of_nat i OR 0x80 :: u8) \<noteq> 0xE0 \<or> i = 0x60)" if "i < 128"
proof -
  have "list_all (\<lambda>i. (of_nat i :: u8) AND 0x80 = 0 \<and> (of_nat i OR 0x80 :: u8) AND 0x80 \<noteq> 0 \<and> unat ((of_nat i OR 0x80 :: u8) AND 0x7F) = i
    \<and> unat (of_nat i :: u8) = i \<and> (of_nat i :: u8) \<noteq> 0xE0 \<and> ((of_nat i OR 0x80 :: u8) \<noteq> 0xE0 \<or> i = 0x60)) [0..<128]" by code_simp
  then show ?thesis using that by (simp add: list_all_iff)
qed

lemma kbd_press:
  assumes "i < 128" and "shiftcode i = 0" and "togglecode i = 0" and "sh \<in> {0, SHIFT}"
  shows "kbd_byte (of_nat i) sh = (charcode sh i, sh)"
  using assms scan_codes [OF assms(1)] by (auto simp: kbd_byte_def shift_defs Let_def)

lemma kbd_release:
  assumes "i < 128" and "shiftcode i = 0" and "i \<noteq> 0x60" and "sh \<in> {0, SHIFT}"
  shows "kbd_byte (of_nat i OR 0x80) sh = (0, sh)"
  using assms scan_codes [OF assms(1)] by (auto simp: kbd_byte_def shift_defs Let_def)

lemma kbd_chars_press:
  assumes "m = normalmap \<and> sh = 0 \<or> m = shiftmap \<and> sh = SHIFT" and "key_for m (of_char c) = Some i" and "c \<in> set printable"
  shows "kbd_chars (press i @ bs) sh = (case kbd_chars bs sh of (cs, sh) \<Rightarrow> (of_char c # 0 # cs, sh))"
proof -
  have i: "m i = of_char c" "i < 128" using key_for_SomeD [OF assms(2)] by auto
  obtain n where "n \<in> set (10 # [32..<127])" "of_char c = int n" using printable_range [OF assms(3)] by blast
  then have c: "0 < (of_char c :: int)" "of_char c mod (256 :: int) = of_char c"
    unfolding set_simps set_upt by auto
  have z: "normalmap 0x60 = 0" "shiftmap 0x60 = 0" by code_simp+
  have s: "shiftcode i = 0" "togglecode i = 0" "i \<noteq> 0x60" "sh \<in> {0, SHIFT}"
    using modifier_keys [OF i(2)] i(1) c(1) assms(1) z by auto
  have "charcode sh i = of_char c" using assms(1) i(1) c(2) by (auto simp: charcode_def SHIFT_def)
  then show ?thesis using kbd_press [OF i(2) s(1,2,4)] kbd_release [OF i(2) s(1,3,4)]
    by (auto simp: press_def split: prod.split)
qed

lemma kbd_chars_keys:
  assumes "c \<in> set printable"
  shows "kbd_chars (keys c @ bs) 0 = (case kbd_chars bs 0 of (cs, sh) \<Rightarrow> (typed c @ cs, sh))"
proof (cases "key_for normalmap (of_char c)")
  case (Some i)
  then show ?thesis using kbd_chars_press [of normalmap 0 c i bs] assms by (auto simp: keys_def typed_def split: prod.split)
next
  case None
  then obtain i where i: "key_for shiftmap (of_char c) = Some i" using printable_keys [OF assms] by auto
  have "kbd_byte 0x2A 0 = (0, SHIFT)" "kbd_byte 0xAA SHIFT = (0, 0)" by code_simp+
  then show ?thesis using kbd_chars_press [of shiftmap SHIFT c i "0xAA # bs"] i assms None
    by (auto simp: keys_def typed_def split: prod.split)
qed

lemma kbd_chars_text: "set ts \<subseteq> set printable \<Longrightarrow> kbd_chars (concat (map keys ts)) 0 = (concat (map typed ts), 0)"
  by (induction ts) (simp_all add: kbd_chars_keys)

text \<open>The console ignores the zeros.\<close>

lemma console_char_0 [simp]: "console_char 0 s = Done s"
  by (simp add: console_char_def ctrl_def)

lemma kfold_typed: "kfold console_char (concat (map typed ts)) s = kfold console_char (map of_char ts) s"
proof (induction ts arbitrary: s)
  case (Cons c ts)
  then show ?case by (cases "console_char (of_char c) s") (simp_all add: typed_def split: option.splits)
qed simp

lemma typed_ctrl_P: "ctrl CHR ''P'' \<in> set (concat (map typed ts)) \<longleftrightarrow> ctrl CHR ''P'' \<in> set (map of_char ts)"
  by (induction ts) (auto simp: typed_def ctrl_def split: option.splits)

lemma kbdintr_text:
  assumes "set ts \<subseteq> set printable" and "kbd_shift s = 0"
  shows "kbdintr (concat (map keys ts)) s = consoleintr (map of_char ts) s"
proof -
  have "s\<lparr>kbd_shift := 0\<rparr> = s" using assms(2) by (cases s) simp
  then show ?thesis
    by (simp only: kbdintr_def assms(2) kbd_chars_text [OF assms(1)] prod.case consoleintr_def kfold_typed typed_ctrl_P)
qed

end
