(* ===== verification/Io_Props.thy ===== *)
theory Io_Props
  imports Pipe Console_Correct Keyboard Sample
begin

text \<open>Properties of the pipe and of the console.\<close>

section \<open>Pipes\<close>

text \<open>
  C16. A pipe is a FIFO of bytes: a write that fits returns its length and appends the bytes, also when the
  32-bit counters wrap around, and a following read of any length returns the oldest bytes in order and leaves the rest.
\<close>

theorem pipe_write_read:
  assumes "cli_ok s" and "locked (locks s Lptable) = 0" and "locked (locks s (Lpipe p)) = 0"
    and "pipe_rep (pipes s p) xs" and "length xs + nat n \<le> 512" and "nat n \<le> length bs" and "0 < n"
  defines "ys \<equiv> xs @ take (nat n) bs"
  shows "\<exists>t u. pipewrite p bs n s = Done ((Ret n, []), t) \<and> pipe_rep (pipes t p) ys
    \<and> piperead p m t = Done (Ret (int (length (take (nat m) ys)), take (nat m) ys), u) \<and> pipe_rep (pipes u p) (drop (nat m) ys)"
proof -
  obtain q where q: "pipewrite p bs n s = Done ((Ret n, []),
      pipe_set p q ((dbg Lptable (crit (Lpipe p) s))\<lparr>procs := wake_all (ChPipeRead p) (procs s)\<rparr>))" (is "_ = Done (_, ?t)")
    "pipe_rep q ys"
    using pipewrite_fits [OF assms(1-6)] by (auto simp: ys_def)
  have ne: "ys \<noteq> []" using assms(6,7) by (auto simp: ys_def)
  have t: "cli_ok ?t" "locked (locks ?t Lptable) = 0" "locked (locks ?t (Lpipe p)) = 0" "pipe_rep (pipes ?t p) ys"
    using assms q(2) by (simp_all add: lock_words)
  show ?thesis using piperead_data [OF t, of m] ne q(1) t(4) by auto
qed

theorem pipe_write_read_witness:
  "\<exists>t u. pipewrite 0 [7, 8, 9] 3 kernel0 = Done ((Ret 3, []), t) \<and> piperead 0 2 t = Done (Ret (2, [7, 8]), u)
     \<and> pipe_rep (pipes u 0) [9]"
proof -
  have "pipe_rep (pipes kernel0 0) []" by (simp add: pipe_rep_def pipe0_def)
  from pipe_write_read [OF _ _ _ this, of 3 "[7, 8, 9]" 2] show ?thesis by (auto simp: numeral_2_eq_2 numeral_3_eq_3)
qed

text \<open>
  C17. A writer that finds the pipe full does not lose bytes and is not forgotten: the pipe is filled, every sleeping
  reader is made runnable, and the writer sleeps on the write channel with exactly the unwritten bytes left; the next
  read, in any later state with this process table and pipe, makes the writer runnable again.
\<close>

theorem pipe_full_handover:
  assumes "cli_ok s" and "ncli (cpus s (me s)) = 0" and "locked (locks s Lptable) = 0" and "locked (locks s (Lpipe p)) = 0"
    and "curproc s = Some w" and "w < NPROC" and "killed (procs s w) = 0" and "readopen (pipes s p)"
    and "pipe_rep (pipes s p) xs" and "nat n \<le> length bs" and "length xs + nat n > 512"
  shows "\<exists>i rest ys t. pipewrite p bs n s = Done ((Sleeps i, rest), t) \<and> pipe_rep (pipes t p) ys
    \<and> ys @ rest = xs @ take (nat n) bs \<and> length ys = 512
    \<and> state (procs t w) = SLEEPING \<and> pchan (procs t w) = Some (ChPipeWrite p)
    \<and> (\<forall>c<NPROC. c \<noteq> w \<longrightarrow> state (procs s c) = SLEEPING \<and> pchan (procs s c) = Some (ChPipeRead p) \<longrightarrow> state (procs t c) = RUNNABLE)
    \<and> (\<forall>v m. cli_ok v \<and> locked (locks v Lptable) = 0 \<and> locked (locks v (Lpipe p)) = 0 \<and> procs v = procs t \<and> pipes v = pipes t
         \<longrightarrow> (\<exists>u. piperead p m v = Done (Ret (int (length (take (nat m) ys)), take (nat m) ys), u) \<and> state (procs u w) = RUNNABLE))"
proof -
  let ?k = "512 - length xs" and ?ys = "xs @ take (512 - length xs) bs"
  obtain q i t where w: "pipewrite p bs n s = Done ((Sleeps i, drop ?k (take (nat n) bs)), t)" "pipe_rep q ?ys"
    "pipes t = (pipes s)(p := q)"
    "procs t = (let ps = wake_all (ChPipeRead p) (procs s) in ps(w := (ps w)\<lparr>pchan := Some (ChPipeWrite p), state := SLEEPING\<rparr>))"
    using pipewrite_blocks [OF assms(1-5,7-11)] by blast
  have k: "length xs \<le> 512" "?k \<le> nat n" "?k \<le> length bs" using assms(9-11) by (auto simp: pipe_rep_def)
  have "take ?k bs @ drop ?k (take (nat n) bs) = take (nat n) bs"
    using append_take_drop_id [of ?k "take (nat n) bs"] k by simp
  then have split: "?ys @ drop ?k (take (nat n) bs) = xs @ take (nat n) bs" "length ?ys = 512"
    using k by simp_all
  have tw: "state (procs t w) = SLEEPING" "pchan (procs t w) = Some (ChPipeWrite p)"
    by (simp_all add: w(4) Let_def)
  have tc: "state (procs t c) = RUNNABLE" if "c < NPROC" "c \<noteq> w" "state (procs s c) = SLEEPING \<and> pchan (procs s c) = Some (ChPipeRead p)" for c
    using that by (simp add: w(4) Let_def wake_all_def woken_def)
  have rd: "\<exists>u. piperead p m v = Done (Ret (int (length (take (nat m) ?ys)), take (nat m) ?ys), u) \<and> state (procs u w) = RUNNABLE"
    if v: "cli_ok v \<and> locked (locks v Lptable) = 0 \<and> locked (locks v (Lpipe p)) = 0 \<and> procs v = procs t \<and> pipes v = pipes t" for v m
  proof -
    have rep: "pipe_rep (pipes v p) ?ys" "?ys \<noteq> []" using w(2,3) v split(2) by auto
    obtain q where "piperead p m v = Done (Ret (int (length (take (nat m) ?ys)), take (nat m) ?ys),
        pipe_set p q ((dbg Lptable (crit (Lpipe p) v))\<lparr>procs := wake_all (ChPipeWrite p) (procs v)\<rparr>))" (is "_ = Done (_, ?u)")
      using piperead_data [OF _ _ _ rep(1), of m] rep(2) v by blast
    moreover have "state (procs ?u w) = RUNNABLE"
      using v tw assms(6) by (simp add: wake_all_def woken_def)
    ultimately show ?thesis by blast
  qed
  show ?thesis
    by (rule exI [of _ i], rule exI [of _ "drop ?k (take (nat n) bs)"], rule exI [of _ ?ys], rule exI [of _ t])
      (intro conjI allI impI w(1) split tw; use w(2,3) tc rd in simp)
qed

theorem pipe_full_handover_witness:
  "\<exists>i t. pipewrite 0 [7] 1 (kernel0\<lparr>cpus := (\<lambda>_. cpu0\<lparr>cproc := Some 3\<rparr>), pipes := (\<lambda>_. pipe0\<lparr>nwrite := 512\<rparr>)\<rparr>) = Done ((Sleeps i, [7]), t)
     \<and> state (procs t 3) = SLEEPING"
proof -
  let ?s = "kernel0\<lparr>cpus := (\<lambda>_. cpu0\<lparr>cproc := Some 3\<rparr>), pipes := (\<lambda>_. pipe0\<lparr>nwrite := 512\<rparr>)\<rparr>"
  have rep: "pipe_rep (pipes ?s 0) (replicate 512 0)" by (simp add: pipe_rep_def pipe0_def)
  have "cli_ok ?s" by (simp add: cli_ok_def cpu0_def)
  from pipe_full_handover [OF this _ _ _ _ _ _ _ rep, of 3 1 "[7]"] obtain i rest ys t
    where r: "pipewrite 0 [7] 1 ?s = Done ((Sleeps i, rest), t)" "ys @ rest = replicate 512 0 @ [7]"
      "length ys = 512" "state (procs t 3) = SLEEPING"
    by (auto simp: NPROC_def proc0_def pipe0_def)
  have "rest = drop 512 (replicate 512 0 @ [7])" using r(2,3) by (metis append_eq_conv_conj)
  then have "rest = [7]" by simp
  then show ?thesis using r(1,4) by blast
qed

section \<open>Console output\<close>

text \<open>
  C18. \<open>printint\<close> prints a number so that it reads back: the text denotes the signed value (the least integer included) or,
  without a sign, the unsigned one, and it has at most 11 characters, so it fits the 16-byte buffer.
\<close>

theorem printint_reads_back:
  assumes "base = 10 \<or> base = 16"
  shows "int_val (unat base) (printint_text xx base sign) = (if sign then sint xx else uint xx)
    \<and> length (printint_text xx base sign) \<le> 11"
proof -
  have b: "2 \<le> unat base" "unat base \<le> 16" "2 ^ 32 \<le> unat base ^ 10" using assms by auto
  have "length (digits_loop base x) \<le> 10" for x
    using digits_loop_length [OF b(1), of x 10] unat_u32 [of x] b(3) by simp
  then have "length (digits_loop base xx) \<le> 10" "length (digits_loop base (- xx)) \<le> 10" by blast+
  then have "length (printint_text xx base sign) \<le> 11" by (simp add: printint_text_def Let_def)
  then show ?thesis using printint_text_val [OF b(1,2)] by simp
qed

theorem printint_reads_back_witness: "int_val 10 (printint_text 0x80000000 10 True) = - 2147483648"
  using printint_reads_back [of 10 "0x80000000" True] by simp

text \<open>
  C19. \<open>cprintf\<close> prints exactly what its format and arguments mean: with the cursor on the screen it does not panic, the
  bytes sent are those of the reference rendering, and apart from the console and the debugging fields of its lock the kernel
  state is unchanged.
\<close>

theorem cprintf_prints:
  assumes "cli_ok s" and "locked (locks s Lcons) = 0" and "cons_ok (cons s)" and "render fmt as = Some out"
  shows "\<exists>x. cprintf fmt as s = Done ((if locking (cons s) then crit Lcons s else s)\<lparr>cons := x\<rparr>)
    \<and> uart x = uart (cons s) @ map of_char out \<and> cons_ok x"
  using cprintf_printed [OF assms] by (auto simp: printed_def split: if_splits)

theorem cprintf_prints_witness:
  "\<exists>x. cprintf ''pid %d %s'' [Word 42, Text (Some ''sh'')] kernel0 = Done ((crit Lcons kernel0)\<lparr>cons := x\<rparr>)
     \<and> uart x = map of_char ''pid 42 sh''"
proof -
  have "render ''pid %d %s'' [Word 42, Text (Some ''sh'')] = Some ''pid 42 sh''"
    by (simp add: printint_text_def digits_loop.simps [of 10] digit_def word_le_nat_alt)
  from cprintf_prints [OF _ _ _ this, of kernel0] show ?thesis by (auto simp: console0_def cons_ok_def)
qed

section \<open>Console input\<close>

text \<open>
  C20. The keyboard interrupt implements line editing: on the ring of 128 bytes with its three free-running indices,
  \<open>consoleintr\<close> does to the pair (bytes that can be read, line being edited) exactly what the reference editor
  \<open>edit_char\<close> does, for every sequence of bytes: control-P, which prints the process table at the end, included.
  It always returns, with the console lock free and the cursor on the screen.
\<close>

theorem console_input_refines:
  assumes "cli_ok s" and "locked (locks s Lptable) = 0" and "locked (locks s Lcons) = 0" and "cons_ok (cons s)"
    and "input_rep (cons s) io" and "\<forall>c\<in>set cs. 0 \<le> c \<and> c < 256"
  shows "\<exists>t. consoleintr cs s = Done t \<and> input_rep (cons t) (fold edit_char cs io) \<and> cons_ok (cons t) \<and> locked (locks t Lcons) = 0"
  using consoleintr_all [OF assms] unfolding idle_cons_def by blast

theorem console_input_refines_witness:
  "\<exists>t. consoleintr [97, 98, 8, 16, 99, 13] kernel0 = Done t \<and> input_rep (cons t) ([97, 99, 10], [])"
proof -
  have "input_rep (cons kernel0) ([], [])" by (simp add: input_rep_def console0_def)
  from console_input_refines [OF _ _ _ _ this, of "[97, 98, 8, 16, 99, 13]"] show ?thesis
    by (auto simp: console0_def cons_ok_def)
qed

text \<open>A line and its end, a newline or a carriage return.\<close>

lemma plain_chars:
  "\<forall>c\<in>set cs. c \<notin> {0, 4, 8, 10, 13, 16, 21, 127} \<Longrightarrow> length ed + length cs < 128
    \<Longrightarrow> fold edit_char cs ([], ed) = ([], ed @ map word_of_int cs)"
  by (induction cs arbitrary: ed) auto

lemma byte_eq: "0 \<le> c \<Longrightarrow> c < 256 \<Longrightarrow> 0 \<le> d \<Longrightarrow> d < 256 \<Longrightarrow> (word_of_int c :: u8) = word_of_int d \<longleftrightarrow> c = d"
  using word_of_int_eq_iff [of c d, where 'a = 8] by (simp add: take_bit_eq_mod)

lemma line_read_back:
  assumes "cli_ok s" and "locked (locks s Lptable) = 0" and "locked (locks s Lcons) = 0" and "cons_ok (cons s)"
    and "input_rep (cons s) ([], [])" and "\<forall>c\<in>set cs. 0 < c \<and> c < 256 \<and> c \<notin> {4, 8, 10, 13, 16, 21, 127}" and "length cs < 127"
    and "e \<in> {10, 13}"
  shows "\<exists>t. consoleintr (cs @ [e]) s = Done t
    \<and> (\<forall>v n ip. cons v = cons t \<and> cli_ok v \<and> (\<forall>lk. locked (locks v lk) = 0) \<and> length cs < nat n
         \<and> I_BUSY (inodes v ip) \<and> I_VALID (inodes v ip) \<and> iref (inodes v ip) \<ge> 1
       \<longrightarrow> (\<exists>u. consoleread ip n v = Done ((int (length cs) + 1, map word_of_int cs @ [10]), u) \<and> input_rep (cons u) ([], [])))"
proof -
  let ?l = "map word_of_int cs :: u8 list"
  have f: "fold edit_char (cs @ [e]) ([], []) = (?l @ [10], [])"
  proof -
    have "\<forall>c\<in>set cs. c \<notin> {0, 4, 8, 10, 13, 16, 21, 127}" using assms(6) by blast
    then have "fold edit_char cs ([], []) = ([], ?l)" using plain_chars [of cs "[]"] assms(7) by simp
    then show ?thesis using assms(7,8) by (elim insertE emptyE) (simp_all add: Let_def)
  qed
  have "0 \<le> e \<and> e < 256 \<and> e \<noteq> 16" using assms(8) by (elim insertE emptyE) simp_all
  then have range: "\<forall>c\<in>set (cs @ [e]). 0 \<le> c \<and> c < 256 \<and> c \<noteq> 16" using assms(6) by (simp add: less_imp_le)
  obtain t where t: "consoleintr (cs @ [e]) s = Done t" "at_cons (callers s) t (?l @ [10], [])"
    using consoleintr_refines [OF assms(1-5) range] unfolding f by blast
  have "d \<notin> set ?l" if d: "d = word_of_int k" "k = 4 \<or> k = 10" for d k
  proof
    assume "d \<in> set ?l"
    then obtain c where c: "c \<in> set cs" "(word_of_int c :: u8) = word_of_int k" unfolding d(1) set_map by (elim imageE) metis
    then have "0 < c" "c < 256" "c \<noteq> 4" "c \<noteq> 10" using assms(6) by simp_all
    then have "c = k" using byte_eq [of c k] c(2) d(2) by (elim disjE) simp_all
    then show False using d(2) \<open>c \<noteq> 4\<close> \<open>c \<noteq> 10\<close> by blast
  qed
  from this [of 4 4] this [of 10 10] have special: "4 \<notin> set ?l" "10 \<notin> set ?l" by simp_all
  have "\<exists>u. consoleread ip n v = Done ((int (length cs) + 1, ?l @ [10]), u) \<and> input_rep (cons u) ([], [])"
    if v: "cons v = cons t" "cli_ok v" "\<forall>lk. locked (locks v lk) = 0" "length cs < nat n"
      "I_BUSY (inodes v ip)" "I_VALID (inodes v ip)" "iref (inodes v ip) \<ge> 1" for v n ip
  proof -
    have rep: "cons_ok (cons v)" "input_rep (cons v) (?l @ [10] @ [], [])" using t(2) v(1) by (simp_all add: at_cons_def)
    have lk: "\<forall>lk\<in>{Lptable, Lcons, Licache}. locked (locks v lk) = 0" using v(3) by blast
    have len: "length ?l < nat n" using v(4) by simp
    show ?thesis using consoleread_ok [OF v(2) lk rep special len v(5-7)] by (auto simp only: length_map)
  qed
  then show ?thesis using t(1) by blast
qed

text \<open>
  What is typed is what is read: a line of ordinary characters followed by return, typed into an empty console, is
  delivered by \<open>consoleread\<close> to a process whose buffer is large enough, ended by a newline, and the input is empty again.
\<close>

theorem console_line_read_back:
  assumes "cli_ok s" and "locked (locks s Lptable) = 0" and "locked (locks s Lcons) = 0" and "cons_ok (cons s)"
    and "input_rep (cons s) ([], [])" and "\<forall>c\<in>set cs. 0 < c \<and> c < 256 \<and> c \<notin> {4, 8, 10, 13, 16, 21, 127}" and "length cs < 127"
  shows "\<exists>t. consoleintr (cs @ [13]) s = Done t
    \<and> (\<forall>v n ip. cons v = cons t \<and> cli_ok v \<and> (\<forall>lk. locked (locks v lk) = 0) \<and> length cs < nat n
         \<and> I_BUSY (inodes v ip) \<and> I_VALID (inodes v ip) \<and> iref (inodes v ip) \<ge> 1
       \<longrightarrow> (\<exists>u. consoleread ip n v = Done ((int (length cs) + 1, map word_of_int cs @ [10]), u) \<and> input_rep (cons u) ([], [])))"
  by (rule line_read_back [OF assms]) simp

theorem console_line_read_back_witness:
  "\<exists>t u. consoleintr [108, 115, 13] kernel0 = Done t
     \<and> consoleread 0 10 (kernel0\<lparr>cons := cons t, inodes := (\<lambda>_. inode0\<lparr>I_BUSY := True, I_VALID := True, iref := 1\<rparr>)\<rparr>)
         = Done ((3, [108, 115, 10]), u)"
proof -
  have "input_rep (cons kernel0) ([], [])" by (simp add: input_rep_def console0_def)
  from console_line_read_back [OF _ _ _ _ this, of "[108, 115]"] obtain t where t: "consoleintr [108, 115, 13] kernel0 = Done t"
    "\<forall>v n ip. cons v = cons t \<and> cli_ok v \<and> (\<forall>lk. locked (locks v lk) = 0) \<and> 2 < nat n
       \<and> I_BUSY (inodes v ip) \<and> I_VALID (inodes v ip) \<and> iref (inodes v ip) \<ge> 1
       \<longrightarrow> (\<exists>u. consoleread ip n v = Done ((3, [108, 115, 10]), u) \<and> input_rep (cons u) ([], []))"
    by (auto simp: console0_def cons_ok_def numeral_2_eq_2)
  let ?v = "kernel0\<lparr>cons := cons t, inodes := (\<lambda>_. inode0\<lparr>I_BUSY := True, I_VALID := True, iref := 1\<rparr>)\<rparr>"
  have "cons ?v = cons t \<and> cli_ok ?v \<and> (\<forall>lk. locked (locks ?v lk) = 0) \<and> 2 < nat 10
      \<and> I_BUSY (inodes ?v 0) \<and> I_VALID (inodes ?v 0) \<and> iref (inodes ?v 0) \<ge> 1" by simp
  with t show ?thesis by blast
qed

text \<open>
  C21. A line typed on the keyboard comes back from a read of the console: the scan codes of its keys, shift key
  included, and of the return key, then consoleread returns its characters and a newline, and the input is empty again.
\<close>

theorem keyboard_line_read_back:
  assumes "cli_ok s" and "locked (locks s Lptable) = 0" and "locked (locks s Lcons) = 0" and "cons_ok (cons s)"
    and "input_rep (cons s) ([], [])" and "kbd_shift s = 0" and "set line \<subseteq> set printable - {CHR 0x0A}" and "length line < 127"
  shows "\<exists>t. kbdintr (concat (map keys (line @ [CHR 0x0A]))) s = Done t
    \<and> (\<forall>v n ip. cons v = cons t \<and> cli_ok v \<and> (\<forall>lk. locked (locks v lk) = 0) \<and> length line < nat n
         \<and> I_BUSY (inodes v ip) \<and> I_VALID (inodes v ip) \<and> iref (inodes v ip) \<ge> 1
       \<longrightarrow> (\<exists>u. consoleread ip n v = Done ((int (length line) + 1, map (\<lambda>c. word_of_int (of_char c)) line @ [10]), u)
              \<and> input_rep (cons u) ([], [])))"
proof -
  have "CHR 0x0A \<in> set printable" by (simp add: printable_def char_of_def)
  then have k: "kbdintr (concat (map keys (line @ [CHR 0x0A]))) s = consoleintr (map of_char line @ [10]) s"
    using assms(6,7) by (subst kbdintr_text) auto
  have "0 < d \<and> d < 256 \<and> d \<notin> {4, 8, 10, 13, 16, 21, 127}" if e: "d \<in> set (map of_char line)" for d :: int
  proof -
    obtain c where c: "c \<in> set line" "d = of_char c" using e by auto
    then have "c \<in> set printable" "c \<noteq> CHR 0x0A" using assms(7) by auto
    moreover have "of_char c = (10 :: int) \<Longrightarrow> c = CHR 0x0A" by (rule of_char_eqI [where 'a = int]) simp
    ultimately have "32 \<le> d \<and> d < 127" using printable_codes [of c] c(2) by blast
    then show ?thesis by simp
  qed
  then show ?thesis using line_read_back [OF assms(1-5), of "map of_char line" 10] assms(8)
    unfolding k by (simp add: comp_def)
qed

theorem keyboard_line_read_back_witness:
  "\<exists>t u. kbdintr [0x2A, 0x26, 0xA6, 0xAA, 0x1F, 0x9F, 0x1C, 0x9C] kernel0 = Done t
     \<and> consoleread 0 10 (kernel0\<lparr>cons := cons t, inodes := (\<lambda>_. inode0\<lparr>I_BUSY := True, I_VALID := True, iref := 1\<rparr>)\<rparr>)
         = Done ((3, [76, 115, 10]), u)"
proof -
  have k: "concat (map keys ''Ls\<newline>'') = [0x2A, 0x26, 0xA6, 0xAA, 0x1F, 0x9F, 0x1C, 0x9C]" by code_simp
  have "input_rep (cons kernel0) ([], [])" by (simp add: input_rep_def console0_def)
  note i = this
  have p: "set ''Ls'' \<subseteq> set printable - {CHR 0x0A}" by code_simp
  have c: "cons_ok (cons kernel0)" by (simp add: console0_def cons_ok_def)
  have z: "cli_ok kernel0" "locked (locks kernel0 Lptable) = 0" "locked (locks kernel0 Lcons) = 0"
    "length ''Ls'' < 127" by simp_all
  have q: "kbd_shift kernel0 = 0" by (simp add: kernel0_def)
  obtain t where t: "kbdintr (concat (map keys (''Ls'' @ [CHR 0x0A]))) kernel0 = Done t"
    "\<forall>v n ip. cons v = cons t \<and> cli_ok v \<and> (\<forall>lk. locked (locks v lk) = 0) \<and> length ''Ls'' < nat n
       \<and> I_BUSY (inodes v ip) \<and> I_VALID (inodes v ip) \<and> iref (inodes v ip) \<ge> 1
       \<longrightarrow> (\<exists>u. consoleread ip n v = Done ((int (length ''Ls'') + 1, map (\<lambda>c. word_of_int (of_char c)) ''Ls'' @ [10]), u) \<and> input_rep (cons u) ([], []))"
    using keyboard_line_read_back [OF z(1-3) c i q p z(4)] by blast
  let ?v = "kernel0\<lparr>cons := cons t, inodes := (\<lambda>_. inode0\<lparr>I_BUSY := True, I_VALID := True, iref := 1\<rparr>)\<rparr>"
  have "cons ?v = cons t \<and> cli_ok ?v \<and> (\<forall>lk. locked (locks ?v lk) = 0) \<and> length ''Ls'' < nat 10
      \<and> I_BUSY (inodes ?v 0) \<and> I_VALID (inodes ?v 0) \<and> iref (inodes ?v 0) \<ge> 1" by simp
  with t(2) obtain u where "consoleread 0 10 ?v = Done ((int (length ''Ls'') + 1, map (\<lambda>c. word_of_int (of_char c)) ''Ls'' @ [10]), u)" by blast
  then have "consoleread 0 10 ?v = Done ((3, [76, 115, 10]), u)" by simp
  then show ?thesis using t(1) unfolding append.simps k by blast
qed

end
