(* ===== verification/Syscall.thy ===== *)
theory Syscall
  imports File
begin

text \<open>
  Fetching system call arguments (syscall.c) and the system calls on processes (sysproc.c).

  A system call runs on the page table of its process: a user address is read and written through it,
  and an address that is not mapped traps (\<open>Fault\<close>). A function that returns -1 and otherwise sets
  its result parameter returns \<open>None\<close> or \<open>Some\<close>.
\<close>

unbundle bit_operations_syntax

section \<open>User memory\<close>

definition uaddr :: "u32 \<Rightarrow> u32 \<Rightarrow> u32 \<Rightarrow> kernel \<Rightarrow> u32 kresult" where
  "uaddr need pd va s =
     kbind (walkpgdir pd va False s) (\<lambda>(pte, s).
     if pte = 0 \<or> load32 (mem s) pte AND need \<noteq> need then Fault
     else Done (p2v (PTE_ADDR (load32 (mem s) pte)) + (va AND 0xFFF)))"

primrec uread :: "u32 \<Rightarrow> u32 \<Rightarrow> nat \<Rightarrow> kernel \<Rightarrow> u8 list kresult" where
  "uread pd va 0 s = Done []"
| "uread pd va (Suc n) s =
     kbind (uaddr PTE_P pd va s) (\<lambda>a. kbind (uread pd (va + 1) n s) (\<lambda>bs. Done (mem s a # bs)))"

primrec uwrite :: "u32 \<Rightarrow> u32 \<Rightarrow> u8 list \<Rightarrow> kernel \<Rightarrow> kernel kresult" where
  "uwrite pd va [] s = Done s"
| "uwrite pd va (b # bs) s =
     kbind (uaddr (PTE_P OR PTE_W) pd va s) (\<lambda>a. uwrite pd (va + 1) bs (s\<lparr>mem := (mem s)(a := b)\<rparr>))"

text \<open>The current process, as the pointer \<open>proc\<close> is used.\<close>

definition the_proc :: "kernel \<Rightarrow> nat kresult" where
  "the_proc s = (case curproc s of None \<Rightarrow> Fault | Some p \<Rightarrow> Done p)"

section \<open>Arguments\<close>

definition fetchint :: "u32 \<Rightarrow> kernel \<Rightarrow> u32 option kresult" where
  "fetchint addr s =
     kbind (the_proc s) (\<lambda>p.
     if addr \<ge> sz (procs s p) \<or> addr + 4 > sz (procs s p) then Done None
     else kbind (uread (pgdir (procs s p)) addr 4 s) (\<lambda>bs. Done (Some (get32 bs 0))))"

text \<open>The scan for the terminating 0, over the \<open>n\<close> bytes up to the end of the process.\<close>

primrec fetchstr_loop :: "u32 \<Rightarrow> u32 \<Rightarrow> nat \<Rightarrow> kernel \<Rightarrow> u8 list option kresult" where
  "fetchstr_loop pd a 0 s = Done None"
| "fetchstr_loop pd a (Suc n) s =
     kbind (uread pd a 1 s) (\<lambda>bs.
     if hd bs = 0 then Done (Some [])
     else kbind (fetchstr_loop pd (a + 1) n s) (\<lambda>r. Done (map_option ((#) (hd bs)) r)))"

definition fetchstr :: "u32 \<Rightarrow> kernel \<Rightarrow> u8 list option kresult" where
  "fetchstr addr s =
     kbind (the_proc s) (\<lambda>p.
     if addr \<ge> sz (procs s p) then Done None
     else fetchstr_loop (pgdir (procs s p)) addr (unat (sz (procs s p) - addr)) s)"

definition argint :: "u32 \<Rightarrow> kernel \<Rightarrow> u32 option kresult" where
  "argint n s = kbind (the_proc s) (\<lambda>p. fetchint (t_esp (tf (procs s p)) + 4 + 4 * n) s)"

definition argptr :: "u32 \<Rightarrow> int \<Rightarrow> kernel \<Rightarrow> u32 option kresult" where
  "argptr n len s =
     kbind (argint n s) (\<lambda>r. case r of
       None \<Rightarrow> Done None
     | Some i \<Rightarrow>
         kbind (the_proc s) (\<lambda>p.
         if i \<ge> sz (procs s p) \<or> i + of_int len > sz (procs s p) then Done None else Done (Some i)))"

definition argstr :: "u32 \<Rightarrow> kernel \<Rightarrow> u8 list option kresult" where
  "argstr n s = kbind (argint n s) (\<lambda>r. case r of None \<Rightarrow> Done None | Some a \<Rightarrow> fetchstr a s)"

text \<open>\<open>if(arg...() < 0) return -1;\<close> in front of the rest of a system call.\<close>

definition arg :: "'a option kresult \<Rightarrow> kernel \<Rightarrow> ('a \<Rightarrow> (int \<times> kernel) kresult) \<Rightarrow> (int \<times> kernel) kresult" where
  "arg m s k = kbind m (\<lambda>r. case r of None \<Rightarrow> Done (-1, s) | Some x \<Rightarrow> k x)"

section \<open>System calls on processes\<close>

definition sys_fork :: "int K" where
  "sys_fork s = fork s"

text \<open>\<open>exit\<close> does not come back.\<close>

definition sys_exit :: "int K" where
  "sys_exit s = kbind (exit_enter s) (\<lambda>_. Asleep)"

definition sys_wait :: "int K" where
  "sys_wait s = awake (wait s)"

definition sys_kill :: "int K" where
  "sys_kill s = arg (argint 0 s) s (\<lambda>n. kill (sint n) s)"

definition sys_getpid :: "int K" where
  "sys_getpid s = kbind (the_proc s) (\<lambda>p. Done (pid (procs s p), s))"

definition sys_sbrk :: "int K" where
  "sys_sbrk s =
     arg (argint 0 s) s (\<lambda>n.
     kbind (the_proc s) (\<lambda>p.
     let addr = sz (procs s p) in
     kbind (growproc (sint n) s) (\<lambda>(r, s). if r < 0 then Done (-1, s) else Done (sint addr, s))))"

definition sleep_loop :: "u32 \<Rightarrow> u32 \<Rightarrow> int call K" where
  "sleep_loop ticks0 n s =
     (if ticks s - ticks0 < n then
        kbind (proc_killed s) (\<lambda>k.
        if k then kbind (release Lticks s) (\<lambda>s. Done (Ret (-1), s))
        else kbind (sleep_enter ChTicks Lticks s) (\<lambda>(i, s). Done (Sleeps i, s)))
      else kbind (release Lticks s) (\<lambda>s. Done (Ret 0, s)))"

definition sys_sleep_call :: "u32 \<Rightarrow> int call K" where
  "sys_sleep_call n s = kbind (acquire Lticks s) (\<lambda>s. sleep_loop (ticks s) n s)"

definition sys_sleep_resume :: "bool \<Rightarrow> u32 \<Rightarrow> u32 \<Rightarrow> int call K" where
  "sys_sleep_resume i ticks0 n s = kbind (sleep_resume i Lticks s) (sleep_loop ticks0 n)"

definition sys_sleep :: "int K" where
  "sys_sleep s = arg (argint 0 s) s (\<lambda>n. awake (sys_sleep_call n s))"

definition sys_uptime :: "int K" where
  "sys_uptime s =
     kbind (acquire Lticks s) (\<lambda>s.
     let x = ticks s in kbind (release Lticks s) (\<lambda>s. Done (sint x, s)))"

definition sys_mygetpid :: "int K" where
  "sys_mygetpid s = sys_getpid s"

definition sys_my_getpid :: "int K" where
  "sys_my_getpid s = sys_getpid s"

text \<open>\<open>sys_halt\<close> writes to two I/O ports of the emulator; the kernel state does not change.\<close>

definition sys_halt :: "int K" where
  "sys_halt s = Done (0, s)"

end
