(* ===== verification/Exec.thy ===== *)
theory Exec
  imports Syscall
begin

text \<open>
  Running a program: exec.c, with \<open>loaduvm\<close> of vm.c and the ELF headers of elf.h. The arguments are
  given as the list of their strings.
\<close>

unbundle bit_operations_syntax

section \<open>ELF\<close>

definition ELF_MAGIC :: u32 where "ELF_MAGIC = 0x464C457F"
definition ELF_PROG_LOAD :: u32 where "ELF_PROG_LOAD = 1"

record elfhdr =
  e_magic :: u32
  e_entry :: u32
  e_phoff :: u32
  e_phnum :: u16

definition dec_elfhdr :: "u8 list \<Rightarrow> elfhdr" where
  "dec_elfhdr bs = \<lparr>e_magic = get32 bs 0, e_entry = get32 bs 24, e_phoff = get32 bs 28, e_phnum = get16 bs 44\<rparr>"

record proghdr =
  ph_type :: u32
  ph_off :: u32
  ph_vaddr :: u32
  ph_filesz :: u32
  ph_memsz :: u32

definition dec_proghdr :: "u8 list \<Rightarrow> proghdr" where
  "dec_proghdr bs = \<lparr>ph_type = get32 bs 0, ph_off = get32 bs 4, ph_vaddr = get32 bs 8,
     ph_filesz = get32 bs 16, ph_memsz = get32 bs 20\<rparr>"

section \<open>Loading\<close>

definition loaduvm :: "u32 \<Rightarrow> u32 \<Rightarrow> nat \<Rightarrow> u32 \<Rightarrow> u32 \<Rightarrow> int K" where
  "loaduvm pgd addr ip offset fsz s =
     kassert (addr mod PGSIZE = 0) ''loaduvm: addr must be page aligned''
     (kbind (kloop (\<lambda>(i, s). i < fsz) (\<lambda>(i, s).
        kbind (walkpgdir pgd (addr + i) False s) (\<lambda>(pte, s).
        kassert (pte \<noteq> 0) ''loaduvm: address should exist''
        (let pa = PTE_ADDR (load32 (mem s) pte);
             n = (if fsz - i < PGSIZE then fsz - i else PGSIZE)
         in kbind (readi ip (offset + i) n s) (\<lambda>((r, bs), s).
            let s = s\<lparr>mem := store_bytes (mem s) (p2v pa) bs\<rparr> in
            if (of_int r :: u32) \<noteq> n then Done (Inr (-1, s)) else Done (Inl (i + PGSIZE, s))))))
        (0, s))
      (case_sum (\<lambda>(_, s). Done (0, s)) Done))"

text \<open>One program header; \<open>None\<close> is \<open>goto bad\<close>.\<close>

definition load_segment :: "u32 \<Rightarrow> nat \<Rightarrow> u32 \<Rightarrow> u32 \<Rightarrow> u32 option K" where
  "load_segment pgd ip pos usz s =
     kbind (readi ip pos 32 s) (\<lambda>((r, bs), s).
     let ph = dec_proghdr bs in
     if r \<noteq> 32 then Done (None, s)
     else if ph_type ph \<noteq> ELF_PROG_LOAD then Done (Some usz, s)
     else if ph_memsz ph < ph_filesz ph then Done (None, s)
     else kbind (allocuvm pgd usz (ph_vaddr ph + ph_memsz ph) s) (\<lambda>(nsz, s).
       if nsz = 0 then Done (None, s)
       else kbind (loaduvm pgd (ph_vaddr ph) ip (ph_off ph) (ph_filesz ph) s) (\<lambda>(r, s).
         if r < 0 then Done (None, s) else Done (Some nsz, s))))"

primrec load_segments :: "nat \<Rightarrow> u32 \<Rightarrow> nat \<Rightarrow> u32 \<Rightarrow> u32 \<Rightarrow> u32 option K" where
  "load_segments 0 pgd ip pos usz s = Done (Some usz, s)"
| "load_segments (Suc n) pgd ip pos usz s =
     kbind (load_segment pgd ip pos usz s) (\<lambda>(r, s). case r of
       None \<Rightarrow> Done (None, s)
     | Some nsz \<Rightarrow> load_segments n pgd ip (pos + 32) nsz s)"

text \<open>
  The argument strings are pushed below \<open>sp\<close>, aligned to words; \<open>ps\<close> collects their addresses. \<open>None\<close>
  is \<open>goto bad\<close>.
\<close>

fun push_args :: "u32 \<Rightarrow> u8 list list \<Rightarrow> u32 \<Rightarrow> u32 list \<Rightarrow> (u32 \<times> u32 list) option K" where
  "push_args pgd [] sp ps s = Done (Some (sp, ps), s)"
| "push_args pgd (a # as) sp ps s =
     (if length ps \<ge> MAXARG then Done (None, s)
      else
        let sp = (sp - (of_nat (length a) + 1)) AND NOT 3 in
        kbind (copyout pgd sp (a @ [0]) s) (\<lambda>(r, s).
        if r < 0 then Done (None, s) else push_args pgd as sp (ps @ [sp]) s))"

text \<open>The words below the strings: a fake return address, \<open>argc\<close>, \<open>argv\<close>, and the vector itself.\<close>

definition ustack :: "u32 \<Rightarrow> u32 list \<Rightarrow> u32 list" where
  "ustack sp ps = [0xffffffff, of_nat (length ps), sp - (of_nat (length ps) + 1) * 4] @ ps @ [0]"

primrec last_loop :: "u8 list \<Rightarrow> u8 list \<Rightarrow> u8 list" where
  "last_loop lst [] = lst"
| "last_loop lst (c # cs) = last_loop (if c = SLASH then cs else lst) cs"

definition exec_bad :: "u32 \<Rightarrow> nat option \<Rightarrow> int K" where
  "exec_bad pgd ip s =
     kbind (if pgd \<noteq> 0 then freevm pgd s else Done s) (\<lambda>s.
     kbind (case ip of None \<Rightarrow> Done s | Some ip \<Rightarrow> kbind (iunlockput ip s) end_op) (\<lambda>s.
     Done (-1, s)))"

text \<open>After the program is loaded: the stack, the arguments, and the switch to the new image.\<close>

definition exec_image :: "u8 list \<Rightarrow> u8 list list \<Rightarrow> u32 \<Rightarrow> u32 \<Rightarrow> u32 \<Rightarrow> int K" where
  "exec_image path argv entry pgd usz s =
     (let usz = PGROUNDUP usz in
      kbind (allocuvm pgd usz (usz + 2 * PGSIZE) s) (\<lambda>(usz, s).
      if usz = 0 then exec_bad pgd None s
      else
        kbind (clearpteu pgd (usz - 2 * PGSIZE) s) (\<lambda>s.
        kbind (push_args pgd argv usz [] s) (\<lambda>(r, s). case r of
          None \<Rightarrow> exec_bad pgd None s
        | Some (sp, ps) \<Rightarrow>
            let words = ustack sp ps; sp = sp - of_nat (length words) * 4 in
            kbind (copyout pgd sp (concat (map enc32 words)) s) (\<lambda>(r, s).
            if r < 0 then exec_bad pgd None s
            else
              kbind (the_proc s) (\<lambda>p.
              let oldpgdir = pgdir (procs s p);
                  s = upd_proc p (\<lambda>q. q\<lparr>pname := copy_name (last_loop path path) (pname q),
                        pgdir := pgd, sz := usz, tf := (tf q)\<lparr>t_eip := entry, t_esp := sp\<rparr>\<rparr>) s
              in kbind (switchuvm p s) (\<lambda>s.
                 kbind (freevm oldpgdir s) (\<lambda>s. Done (0, s)))))))))"

text \<open>
  The test \<open>readi(...) < sizeof(elf)\<close> compares unsigned: a result of -1 passes it, and the header is read
  from uninitialised memory (\<open>Fault\<close>).
\<close>

definition exec :: "u8 list \<Rightarrow> u8 list list \<Rightarrow> int K" where
  "exec path argv s =
     kbind (begin_op s) (\<lambda>s.
     kbind (namei path s) (\<lambda>(r, s). case r of
       None \<Rightarrow> kbind (end_op s) (\<lambda>s. Done (-1, s))
     | Some ip \<Rightarrow>
         kbind (ilock ip s) (\<lambda>s.
         kbind (readi ip 0 52 s) (\<lambda>((r, bs), s).
         if r < 0 then Fault
         else if r < 52 \<or> e_magic (dec_elfhdr bs) \<noteq> ELF_MAGIC then exec_bad 0 (Some ip) s
         else
           kbind (setupkvm s) (\<lambda>(pgd, s).
           if pgd = 0 then exec_bad 0 (Some ip) s
           else
             let elf = dec_elfhdr bs in
             kbind (load_segments (unat (e_phnum elf)) pgd ip (e_phoff elf) 0 s) (\<lambda>(r, s). case r of
               None \<Rightarrow> exec_bad pgd (Some ip) s
             | Some usz \<Rightarrow>
                 kbind (iunlockput ip s) (\<lambda>s.
                 kbind (end_op s) (exec_image path argv (e_entry elf) pgd usz))))))))"

primrec exec_args :: "nat \<Rightarrow> u32 \<Rightarrow> kernel \<Rightarrow> u8 list list option kresult" where
  "exec_args 0 a s = Done None"
| "exec_args (Suc n) a s =
     kbind (fetchint a s) (\<lambda>r. case r of
       None \<Rightarrow> Done None
     | Some u \<Rightarrow>
         if u = 0 then Done (Some [])
         else kbind (fetchstr u s) (\<lambda>r. case r of
           None \<Rightarrow> Done None
         | Some x \<Rightarrow> kbind (exec_args n (a + 4) s) (\<lambda>r. Done (map_option ((#) x) r))))"

definition sys_exec :: "int K" where
  "sys_exec s =
     arg (argstr 0 s) s (\<lambda>path.
     arg (argint 1 s) s (\<lambda>uargv.
     arg (exec_args MAXARG uargv s) s (\<lambda>argv. exec path argv s)))"

end
