(* ===== verification/Sysfile.thy ===== *)
theory Sysfile
  imports Exec
begin

text \<open>
  The file system calls of sysfile.c. A transaction is open from \<open>begin_op\<close> to \<open>end_op\<close> on every path
  through a call; \<open>fail\<close> is the common exit \<open>end_op(); return -1;\<close>.
\<close>

unbundle bit_operations_syntax

section \<open>Descriptors\<close>

definition O_WRONLY :: u32 where "O_WRONLY = 1"
definition O_RDWR :: u32 where "O_RDWR = 2"
definition O_CREATE :: u32 where "O_CREATE = 0x200"

definition argfd :: "u32 \<Rightarrow> kernel \<Rightarrow> (nat \<times> nat) option kresult" where
  "argfd n s =
     kbind (argint n s) (\<lambda>r. case r of
       None \<Rightarrow> Done None
     | Some w \<Rightarrow>
         kbind (the_proc s) (\<lambda>p.
         let fd = sint w in
         if fd < 0 \<or> fd \<ge> int NOFILE then Done None
         else Done (map_option (\<lambda>f. (nat fd, f)) (ofile (procs s p) ! nat fd))))"

definition set_fd :: "nat \<Rightarrow> nat \<Rightarrow> nat option \<Rightarrow> kernel \<Rightarrow> kernel" where
  "set_fd p fd f = upd_proc p (\<lambda>q. q\<lparr>ofile := (ofile q)[fd := f]\<rparr>)"

definition fdalloc :: "nat \<Rightarrow> int K" where
  "fdalloc f s =
     kbind (the_proc s) (\<lambda>p.
     case List.find (\<lambda>fd. ofile (procs s p) ! fd = None) [0..<NOFILE] of
       None \<Rightarrow> Done (-1, s)
     | Some fd \<Rightarrow> Done (int fd, set_fd p fd (Some f) s))"

definition sys_dup :: "int K" where
  "sys_dup s =
     arg (argfd 0 s) s (\<lambda>(_, f).
     kbind (fdalloc f s) (\<lambda>(fd, s).
     if fd < 0 then Done (-1, s) else kbind (filedup f s) (\<lambda>(_, s). Done (fd, s))))"

definition sys_read :: "int K" where
  "sys_read s =
     arg (argfd 0 s) s (\<lambda>(_, f).
     arg (argint 2 s) s (\<lambda>n.
     arg (argptr 1 (sint n) s) s (\<lambda>p.
     kbind (the_proc s) (\<lambda>c.
     kbind (fileread f (sint n) s) (\<lambda>((r, bs), s).
     kbind (uwrite (pgdir (procs s c)) p bs s) (\<lambda>s. Done (r, s)))))))"

definition sys_write :: "int K" where
  "sys_write s =
     arg (argfd 0 s) s (\<lambda>(_, f).
     arg (argint 2 s) s (\<lambda>n.
     arg (argptr 1 (sint n) s) s (\<lambda>p.
     kbind (the_proc s) (\<lambda>c.
     kbind (uread (pgdir (procs s c)) p (nat (sint n)) s) (\<lambda>bs. filewrite f bs (sint n) s)))))"

definition sys_close :: "int K" where
  "sys_close s =
     arg (argfd 0 s) s (\<lambda>(fd, f).
     kbind (the_proc s) (\<lambda>p.
     kbind (fileclose f (set_fd p fd None s)) (\<lambda>s. Done (0, s))))"

text \<open>\<open>struct stat\<close> in user memory: the fields at their offsets, padding left alone.\<close>

definition put_stat :: "u32 \<Rightarrow> u32 \<Rightarrow> stat \<Rightarrow> kernel \<Rightarrow> kernel kresult" where
  "put_stat pd a x s =
     kbind (uwrite pd a (enc_short (st_type x)) s) (\<lambda>s.
     kbind (uwrite pd (a + 4) (enc32 (st_dev x) @ enc32 (st_ino x) @ enc_short (st_nlink x)) s) (\<lambda>s.
     uwrite pd (a + 16) (enc32 (st_size x)) s))"

definition sys_fstat :: "int K" where
  "sys_fstat s =
     arg (argfd 0 s) s (\<lambda>(_, f).
     arg (argptr 1 20 s) s (\<lambda>a.
     kbind (the_proc s) (\<lambda>p.
     kbind (filestat f s) (\<lambda>((r, x), s). case x of
       None \<Rightarrow> Done (r, s)
     | Some x \<Rightarrow> kbind (put_stat (pgdir (procs s p)) a x s) (\<lambda>s. Done (r, s))))))"

definition sys_pipe :: "int K" where
  "sys_pipe s =
     arg (argptr 0 8 s) s (\<lambda>fd.
     kbind (the_proc s) (\<lambda>p.
     kbind (pipealloc s) (\<lambda>(r, s). case r of
       None \<Rightarrow> Done (-1, s)
     | Some (rf, wrf) \<Rightarrow>
         kbind (fdalloc rf s) (\<lambda>(fd0, s).
         kbind (if fd0 < 0 then Done (-1, s) else fdalloc wrf s) (\<lambda>(fd1, s).
         if fd0 < 0 \<or> fd1 < 0 then
           let s = (if fd0 \<ge> 0 then set_fd p (nat fd0) None s else s) in
           kbind (fileclose rf s) (\<lambda>s.
           kbind (fileclose wrf s) (\<lambda>s. Done (-1, s)))
         else
           kbind (uwrite (pgdir (procs s p)) fd (enc32 (of_int fd0) @ enc32 (of_int fd1)) s) (\<lambda>s.
           Done (0, s)))))))"

section \<open>Links\<close>

definition fail :: "int K" where
  "fail s = kbind (end_op s) (\<lambda>s. Done (-1, s))"

definition put_fail :: "nat \<Rightarrow> int K" where
  "put_fail ip s = kbind (iunlockput ip s) fail"

definition add_link :: "int \<Rightarrow> nat \<Rightarrow> kernel \<Rightarrow> kernel kresult" where
  "add_link k ip s = iupdate ip (upd_inode ip (\<lambda>x. x\<lparr>nlink := short (nlink x + k)\<rparr>) s)"

definition link_bad :: "nat \<Rightarrow> int K" where
  "link_bad ip s = kbind (ilock ip s) (\<lambda>s. kbind (add_link (-1) ip s) (put_fail ip))"

definition sys_link :: "int K" where
  "sys_link s =
     arg (argstr 0 s) s (\<lambda>old.
     arg (argstr 1 s) s (\<lambda>new.
     kbind (begin_op s) (\<lambda>s.
     kbind (namei old s) (\<lambda>(r, s). case r of
       None \<Rightarrow> fail s
     | Some ip \<Rightarrow>
         kbind (ilock ip s) (\<lambda>s.
         if itype (inodes s ip) = T_DIR then put_fail ip s
         else
           kbind (add_link 1 ip s) (\<lambda>s.
           kbind (iunlock ip s) (\<lambda>s.
           kbind (nameiparent new s) (\<lambda>((r, name), s). case r of
             None \<Rightarrow> link_bad ip s
           | Some dp \<Rightarrow>
               kbind (ilock dp s) (\<lambda>s.
               kbind (if idev (inodes s dp) \<noteq> idev (inodes s ip) then Done (-1, s)
                      else dirlink dp name (inum (inodes s ip)) s) (\<lambda>(r, s).
               if r < 0 then kbind (iunlockput dp s) (link_bad ip)
               else
                 kbind (iunlockput dp s) (\<lambda>s.
                 kbind (iput ip s) (\<lambda>s.
                 kbind (end_op s) (\<lambda>s. Done (0, s))))))))))))))"

definition isdirempty :: "nat \<Rightarrow> bool K" where
  "isdirempty dp s =
     kbind (kloop (\<lambda>(pos, s). pos < isize (inodes s dp))
        (\<lambda>(pos, s).
           kbind (readi dp pos 16 s) (\<lambda>((r, bs), s).
           kassert (r = 16) ''isdirempty: readi''
           (if de_inum (dec_dirent bs) \<noteq> 0 then Done (Inr (False, s)) else Done (Inl (pos + 16, s)))))
        (32, s))
      (case_sum (\<lambda>(_, s). Done (True, s)) Done)"

definition DOT :: "u8 list" where "DOT = [46]"
definition DOTDOT :: "u8 list" where "DOTDOT = [46, 46]"

definition sys_unlink :: "int K" where
  "sys_unlink s =
     arg (argstr 0 s) s (\<lambda>path.
     kbind (begin_op s) (\<lambda>s.
     kbind (nameiparent path s) (\<lambda>((r, name), s). case r of
       None \<Rightarrow> fail s
     | Some dp \<Rightarrow>
         kbind (ilock dp s) (\<lambda>s.
         if namecmp name DOT = 0 \<or> namecmp name DOTDOT = 0 then put_fail dp s
         else
           kbind (dirlookup dp name s) (\<lambda>(r, s). case r of
             None \<Rightarrow> put_fail dp s
           | Some (ip, pos) \<Rightarrow>
               kbind (ilock ip s) (\<lambda>s.
               kassert (\<not> nlink (inodes s ip) < 1) ''unlink: nlink < 1''
               (kbind (if itype (inodes s ip) = T_DIR then isdirempty ip s else Done (True, s)) (\<lambda>(e, s).
                if \<not> e then kbind (iunlockput ip s) (put_fail dp)
                else
                  kbind (writei dp (replicate 16 0) pos 16 s) (\<lambda>(r, s).
                  kassert (r = 16) ''unlink: writei''
                  (kbind (if itype (inodes s ip) = T_DIR then add_link (-1) dp s else Done s) (\<lambda>s.
                   kbind (iunlockput dp s) (\<lambda>s.
                   kbind (add_link (-1) ip s) (\<lambda>s.
                   kbind (iunlockput ip s) (\<lambda>s.
                   kbind (end_op s) (\<lambda>s. Done (0, s))))))))))))))))"

section \<open>Creating and opening\<close>

definition create_dots :: "nat \<Rightarrow> nat \<Rightarrow> kernel \<Rightarrow> kernel kresult" where
  "create_dots dp ip s =
     kbind (add_link 1 dp s) (\<lambda>s.
     kbind (dirlink ip DOT (inum (inodes s ip)) s) (\<lambda>(r, s).
     kassert (\<not> r < 0) ''create dots''
     (kbind (dirlink ip DOTDOT (inum (inodes s dp)) s) (\<lambda>(r, s).
      kassert (\<not> r < 0) ''create dots'' (Done s)))))"

definition create :: "u8 list \<Rightarrow> int \<Rightarrow> int \<Rightarrow> int \<Rightarrow> nat option K" where
  "create path ty maj mnr s =
     kbind (nameiparent path s) (\<lambda>((r, name), s). case r of
       None \<Rightarrow> Done (None, s)
     | Some dp \<Rightarrow>
         kbind (ilock dp s) (\<lambda>s.
         kbind (dirlookup dp name s) (\<lambda>(r, s). case r of
           Some (ip, _) \<Rightarrow>
             kbind (iunlockput dp s) (\<lambda>s.
             kbind (ilock ip s) (\<lambda>s.
             if ty = T_FILE \<and> itype (inodes s ip) = T_FILE then Done (Some ip, s)
             else kbind (iunlockput ip s) (\<lambda>s. Done (None, s))))
         | None \<Rightarrow>
             kbind (ialloc (idev (inodes s dp)) ty s) (\<lambda>(ip, s).
             kbind (ilock ip s) (\<lambda>s.
             kbind (iupdate ip (upd_inode ip (\<lambda>x. x\<lparr>major := maj, minor := mnr, nlink := 1\<rparr>) s)) (\<lambda>s.
             kbind (if ty = T_DIR then create_dots dp ip s else Done s) (\<lambda>s.
             kbind (dirlink dp name (inum (inodes s ip)) s) (\<lambda>(r, s).
             kassert (\<not> r < 0) ''create: dirlink''
             (kbind (iunlockput dp s) (\<lambda>s. Done (Some ip, s)))))))))))"

text \<open>The first half of \<open>sys_open\<close>: the locked inode, or \<open>None\<close> after the transaction has been ended.\<close>

definition open_inode :: "u8 list \<Rightarrow> u32 \<Rightarrow> nat option K" where
  "open_inode path omode s =
     (if omode AND O_CREATE \<noteq> 0 then
        kbind (create path T_FILE 0 0 s) (\<lambda>(r, s). case r of
          None \<Rightarrow> kbind (end_op s) (\<lambda>s. Done (None, s))
        | Some ip \<Rightarrow> Done (Some ip, s))
      else
        kbind (namei path s) (\<lambda>(r, s). case r of
          None \<Rightarrow> kbind (end_op s) (\<lambda>s. Done (None, s))
        | Some ip \<Rightarrow>
            kbind (ilock ip s) (\<lambda>s.
            if itype (inodes s ip) = T_DIR \<and> omode \<noteq> 0 then
              kbind (iunlockput ip s) (\<lambda>s. kbind (end_op s) (\<lambda>s. Done (None, s)))
            else Done (Some ip, s))))"

definition sys_open :: "int K" where
  "sys_open s =
     arg (argstr 0 s) s (\<lambda>path.
     arg (argint 1 s) s (\<lambda>omode.
     kbind (begin_op s) (\<lambda>s.
     kbind (open_inode path omode s) (\<lambda>(r, s). case r of
       None \<Rightarrow> Done (-1, s)
     | Some ip \<Rightarrow>
         kbind (filealloc s) (\<lambda>(rf, s). case rf of
           None \<Rightarrow> put_fail ip s
         | Some f \<Rightarrow>
             kbind (fdalloc f s) (\<lambda>(fd, s).
             if fd < 0 then kbind (fileclose f s) (put_fail ip)
             else
               kbind (iunlock ip s) (\<lambda>s.
               kbind (end_op s) (\<lambda>s.
               Done (fd, upd_file f (\<lambda>x. x\<lparr>ftype := FD_INODE, fip := Some ip, foff := 0,
                 readable := (omode AND O_WRONLY = 0),
                 writable := (omode AND O_WRONLY \<noteq> 0 \<or> omode AND O_RDWR \<noteq> 0)\<rparr>) s)))))))))"

definition sys_mkdir :: "int K" where
  "sys_mkdir s =
     kbind (begin_op s) (\<lambda>s.
     kbind (argstr 0 s) (\<lambda>r. case r of
       None \<Rightarrow> fail s
     | Some path \<Rightarrow>
         kbind (create path T_DIR 0 0 s) (\<lambda>(r, s). case r of
           None \<Rightarrow> fail s
         | Some ip \<Rightarrow> kbind (iunlockput ip s) (\<lambda>s. kbind (end_op s) (\<lambda>s. Done (0, s))))))"

definition sys_mknod :: "int K" where
  "sys_mknod s =
     kbind (begin_op s) (\<lambda>s.
     kbind (argstr 0 s) (\<lambda>r. case r of None \<Rightarrow> fail s | Some path \<Rightarrow>
     kbind (argint 1 s) (\<lambda>r. case r of None \<Rightarrow> fail s | Some maj \<Rightarrow>
     kbind (argint 2 s) (\<lambda>r. case r of None \<Rightarrow> fail s | Some mnr \<Rightarrow>
     kbind (create path T_DEV (short (sint maj)) (short (sint mnr)) s) (\<lambda>(r, s). case r of
       None \<Rightarrow> fail s
     | Some ip \<Rightarrow> kbind (iunlockput ip s) (\<lambda>s. kbind (end_op s) (\<lambda>s. Done (0, s))))))))"

definition sys_chdir :: "int K" where
  "sys_chdir s =
     kbind (begin_op s) (\<lambda>s.
     kbind (argstr 0 s) (\<lambda>r. case r of
       None \<Rightarrow> fail s
     | Some path \<Rightarrow>
         kbind (namei path s) (\<lambda>(r, s). case r of
           None \<Rightarrow> fail s
         | Some ip \<Rightarrow>
             kbind (ilock ip s) (\<lambda>s.
             if itype (inodes s ip) \<noteq> T_DIR then put_fail ip s
             else
               kbind (iunlock ip s) (\<lambda>s.
               kbind (the_proc s) (\<lambda>p.
               case cwd (procs s p) of None \<Rightarrow> Fault | Some d \<Rightarrow>
                 kbind (iput d s) (\<lambda>s.
                 kbind (end_op s) (\<lambda>s.
                 Done (0, upd_proc p (\<lambda>q. q\<lparr>cwd := Some ip\<rparr>) s)))))))))"

end
