(* ===== verification/Shm.thy ===== *)
theory Shm
  imports Sysfile Klist_Correct
begin

text \<open>
  The system calls this repository adds in sysfile.c: a page mapped twice (\<open>palloc\<close>), shared memory,
  and semaphores, mutexes and condition variables that live in shared pages; and the dispatch of all
  system calls (syscall.c).

  A semaphore or mutex is named by the kernel address of its page: its spin lock is \<open>Lat page\<close>, its value
  \<open>svalue s page\<close>, a C int kept at its 32 bits, and the channel \<open>&sp->value\<close> is \<open>ChAt page\<close>. A condition variable is a list.c list
  in its page; a waiting process links the node \<open>c_node\<close> of its kernel stack into it, whose address is the
  argument \<open>node\<close>.
\<close>

unbundle bit_operations_syntax

section \<open>Pages\<close>

definition sys_palloc :: "int K" where
  "sys_palloc s =
     arg (argint 0 s) s (\<lambda>a1.
     kbind (the_proc s) (\<lambda>p.
     let s = upd_proc p (\<lambda>q. q\<lparr>addr1 := a1\<rparr>) s in
     arg (argint 1 s) s (\<lambda>a2.
     let s = upd_proc p (\<lambda>q. q\<lparr>addr2 := a2\<rparr>) s in
     kbind (cprintf (''%p'' @ [CHR 10]) [Word a1] s) (\<lambda>s.
     kbind (cprintf (''%p'' @ [CHR 10]) [Word a2] s) (\<lambda>s.
     kbind (kalloc s) (\<lambda>(pg, s).
     let s = upd_proc p (\<lambda>q. q\<lparr>page := pg\<rparr>) s in
     kbind (if pg \<noteq> 0 then cprintf (''SUCCESS: page allocated!'' @ [CHR 10]) [] s else Done s) (\<lambda>s.
     kbind (mappages (pgdir (procs s p)) a1 PGSIZE (v2p pg) (PTE_W OR PTE_U) s) (\<lambda>(_, s).
     kbind (mappages (pgdir (procs s p)) a2 PGSIZE (v2p pg) (PTE_W OR PTE_U) s) (\<lambda>(_, s).
     Done (0, s))))))))))"

text \<open>A store past the end of \<open>shared_pages\<close> (16 entries) is a \<open>Fault\<close>.\<close>

definition mmap_alloc_page :: "nat \<Rightarrow> u32 \<Rightarrow> nat \<Rightarrow> kernel \<Rightarrow> kernel kresult" where
  "mmap_alloc_page p va i s =
     kbind (kalloc s) (\<lambda>(pg, s).
     if i \<ge> length (shared_pages s) then Fault
     else
       kbind (mappages (pgdir (procs s p)) (va + PGSIZE * of_nat i) PGSIZE (v2p pg) (PTE_W OR PTE_U)
         (s\<lparr>shared_pages := (shared_pages s)[i := pg]\<rparr>)) (\<lambda>(_, s). Done s))"

definition sys_mmap_alloc :: "int K" where
  "sys_mmap_alloc s =
     (let s = (if shared_initialized s then s else initlock Lshared ''shared_mem_lock'' (s\<lparr>shared_initialized := True\<rparr>)) in
      if shared_refcount s > 0 then
        kbind (cprintf (''Shared memory already allocated'' @ [CHR 10]) [] s) (\<lambda>s. Done (-1, s))
      else
        arg (argint 0 s) s (\<lambda>va.
        arg (argint 1 s) s (\<lambda>n.
        kbind (cprintf (''vaddr: %p'' @ [CHR 10]) [Word va] s) (\<lambda>s.
        kbind (cprintf (''npages: %d'' @ [CHR 10]) [Word n] s) (\<lambda>s.
        kbind (acquire Lshared s) (\<lambda>s.
        kbind (the_proc s) (\<lambda>p.
        let s = (upd_proc p (\<lambda>q. q\<lparr>shared := 1, vaddr := va\<rparr>) s)\<lparr>shared_npages := sint n, shared_refcount := 1\<rparr> in
        kbind (kfold (mmap_alloc_page p va) [0..<nat (sint n)] s) (\<lambda>s.
        kbind (release Lshared s) (\<lambda>s. Done (0, s))))))))))"

definition mmap_attach_page :: "nat \<Rightarrow> u32 \<Rightarrow> nat \<Rightarrow> kernel \<Rightarrow> kernel kresult" where
  "mmap_attach_page p va i s =
     (if i \<ge> length (shared_pages s) then Fault
      else kbind (mappages (pgdir (procs s p)) (va + PGSIZE * of_nat i) PGSIZE (v2p (shared_pages s ! i)) (PTE_W OR PTE_U) s)
        (\<lambda>(_, s). Done s))"

definition sys_mmap_attach :: "int K" where
  "sys_mmap_attach s =
     arg (argint 0 s) s (\<lambda>va.
     kbind (acquire Lshared s) (\<lambda>s.
     kbind (the_proc s) (\<lambda>p.
     let s = (upd_proc p (\<lambda>q. q\<lparr>vaddr := va, shared := 1\<rparr>) s)\<lparr>shared_refcount := shared_refcount s + 1\<rparr> in
     kbind (kfold (mmap_attach_page p va) [0..<nat (shared_npages s)] s) (\<lambda>s.
     kbind (release Lshared s) (\<lambda>s. Done (0, s))))))"

definition free_shared :: "nat \<Rightarrow> kernel \<Rightarrow> kernel kresult" where
  "free_shared i s = (if i \<ge> length (shared_pages s) then Fault else kfree (shared_pages s ! i) s)"

definition sys_mmap_detach :: "int K" where
  "sys_mmap_detach s =
     kbind (the_proc s) (\<lambda>p.
     if shared (procs s p) = 0 then Done (-1, s)
     else
       kbind (acquire Lshared s) (\<lambda>s.
       kbind (kfold (\<lambda>i s. clearptep (pgdir (procs s p)) (vaddr (procs s p) + PGSIZE * of_nat i) s)
                [0..<nat (shared_npages s)] s) (\<lambda>s.
       let s = s\<lparr>shared_refcount := shared_refcount s - 1\<rparr> in
       kbind (if shared_refcount s = 0 then kfold free_shared [0..<nat (shared_npages s)] s else Done s) (\<lambda>s.
       kbind (release Lshared s) (\<lambda>s. Done (0, s))))))"

text \<open>
  \<open>shared_pages[(vaddr - proc->vaddr) / PGSIZE]\<close>: a difference of pointers is signed and the division
  rounds towards 0; an index outside the array is a \<open>Fault\<close>.
\<close>

definition page_index :: "u32 \<Rightarrow> int" where
  "page_index d = (let i = sint d in if i \<ge> 0 then i div 4096 else - ((- i) div 4096))"

definition shared_at :: "u32 \<Rightarrow> kernel \<Rightarrow> u32 kresult" where
  "shared_at va s =
     kbind (the_proc s) (\<lambda>p.
     let i = page_index (va - vaddr (procs s p)) in
     if i < 0 \<or> i \<ge> int (length (shared_pages s)) then Fault else Done (shared_pages s ! nat i))"

section \<open>Semaphores\<close>

definition set_value :: "u32 \<Rightarrow> u32 \<Rightarrow> kernel \<Rightarrow> kernel" where
  "set_value sp v s = s\<lparr>svalue := (svalue s)(sp := v)\<rparr>"

definition sys_sema_init :: "int K" where
  "sys_sema_init s =
     arg (argint 0 s) s (\<lambda>va.
     arg (argint 1 s) s (\<lambda>v.
     kbind (shared_at va s) (\<lambda>sp. Done (0, set_value sp v (initlock (Lat sp) ''semaphore'' s)))))"

definition sema_down_body :: "u32 \<Rightarrow> int call K" where
  "sema_down_body sp s =
     (if svalue s sp = 0 then kbind (sleep_enter (ChAt sp) (Lat sp) s) (\<lambda>(i, s). Done (Sleeps i, s))
      else kbind (release (Lat sp) (set_value sp (svalue s sp - 1) s)) (\<lambda>s. Done (Ret 0, s)))"

definition sema_down :: "u32 \<Rightarrow> int call K" where
  "sema_down sp s = kbind (acquire (Lat sp) s) (sema_down_body sp)"

definition sema_down_resume :: "bool \<Rightarrow> u32 \<Rightarrow> int call K" where
  "sema_down_resume i sp s = kbind (sleep_resume i (Lat sp) s) (sema_down_body sp)"

definition sema_up :: "u32 \<Rightarrow> int K" where
  "sema_up sp s =
     kbind (acquire (Lat sp) s) (\<lambda>s.
     kbind (wakeup (ChAt sp) s) (\<lambda>s.
     kbind (release (Lat sp) (set_value sp (svalue s sp + 1) s)) (\<lambda>s. Done (0, s))))"

definition sys_sema_down :: "int K" where
  "sys_sema_down s = arg (argint 0 s) s (\<lambda>va. kbind (shared_at va s) (\<lambda>sp. awake (sema_down sp s)))"

definition sys_sema_up :: "int K" where
  "sys_sema_up s = arg (argint 0 s) s (\<lambda>va. kbind (shared_at va s) (\<lambda>sp. sema_up sp s))"

section \<open>Mutexes\<close>

definition lock_init :: "u32 \<Rightarrow> u32 \<Rightarrow> kernel \<Rightarrow> kernel" where
  "lock_init mlk v s = set_value mlk v (initlock (Lat mlk) ''mutexlock'' s)"

definition sys_lock_init :: "int K" where
  "sys_lock_init s =
     arg (argint 0 s) s (\<lambda>va.
     arg (argint 1 s) s (\<lambda>v.
     kbind (shared_at va s) (\<lambda>mlk. Done (0, lock_init mlk v s))))"

definition lock_acquire_body :: "u32 \<Rightarrow> int call K" where
  "lock_acquire_body mlk s =
     (if svalue s mlk = 1 then kbind (sleep_enter (ChAt mlk) (Lat mlk) s) (\<lambda>(i, s). Done (Sleeps i, s))
      else kbind (release (Lat mlk) (set_value mlk 1 s)) (\<lambda>s. Done (Ret 0, s)))"

definition lock_acquire :: "u32 \<Rightarrow> int call K" where
  "lock_acquire mlk s = kbind (acquire (Lat mlk) s) (lock_acquire_body mlk)"

definition lock_acquire_resume :: "bool \<Rightarrow> u32 \<Rightarrow> int call K" where
  "lock_acquire_resume i mlk s = kbind (sleep_resume i (Lat mlk) s) (lock_acquire_body mlk)"

definition lock_release :: "u32 \<Rightarrow> kernel \<Rightarrow> kernel kresult" where
  "lock_release mlk s =
     kbind (acquire (Lat mlk) s) (\<lambda>s.
     kbind (wakeup (ChAt mlk) s) (\<lambda>s.
     release (Lat mlk) (set_value mlk 0 s)))"

definition sys_lock_acquire :: "int K" where
  "sys_lock_acquire s = arg (argint 0 s) s (\<lambda>va. kbind (shared_at va s) (\<lambda>mlk. awake (lock_acquire mlk s)))"

definition sys_lock_release :: "int K" where
  "sys_lock_release s =
     arg (argint 0 s) s (\<lambda>va. kbind (shared_at va s) (\<lambda>mlk. kbind (lock_release mlk s) (\<lambda>s. Done (0, s))))"

section \<open>Condition variables\<close>

definition cond_init :: "u32 \<Rightarrow> kernel \<Rightarrow> kernel kresult" where
  "cond_init cv s = kbind (list_init cv (links s)) (\<lambda>h. Done (s\<lparr>links := h\<rparr>))"

definition sys_cond_init :: "int K" where
  "sys_cond_init s = arg (argint 0 s) s (\<lambda>va. kbind (shared_at va s) (\<lambda>cv. kbind (cond_init cv s) (\<lambda>s. Done (0, s))))"

definition cond_enqueue :: "u32 \<Rightarrow> u32 \<Rightarrow> kernel \<Rightarrow> kernel kresult" where
  "cond_enqueue node cv s =
     (let s = initlock (Lat (node + 8)) ''condition_node'' s in
      kbind (list_push_back cv node (links s)) (\<lambda>h. Done (s\<lparr>links := h\<rparr>)))"

text \<open>
  \<open>cond_wait\<close> up to the sleep, and after it. Between \<open>lock_release\<close> and the sleep other processes can run,
  so the two are separate.
\<close>

definition cond_wait_begin :: "u32 \<Rightarrow> u32 \<Rightarrow> u32 \<Rightarrow> kernel \<Rightarrow> kernel kresult" where
  "cond_wait_begin node cv mlk s = kbind (cond_enqueue node cv s) (lock_release mlk)"

definition cond_wait_sleep :: "u32 \<Rightarrow> bool K" where
  "cond_wait_sleep node s = kbind (acquire (Lat (node + 8)) s) (sleep_enter (ChLockAt node) (Lat (node + 8)))"

definition cond_wait_resume :: "bool \<Rightarrow> u32 \<Rightarrow> u32 \<Rightarrow> int call K" where
  "cond_wait_resume i node mlk s =
     kbind (sleep_resume i (Lat (node + 8)) s) (\<lambda>s.
     kbind (release (Lat (node + 8)) s) (lock_acquire mlk))"

definition sys_cond_wait :: "u32 \<Rightarrow> int K" where
  "sys_cond_wait node s =
     arg (argint 0 s) s (\<lambda>va.
     arg (argint 1 s) s (\<lambda>vm.
     kbind (shared_at va s) (\<lambda>cv.
     kbind (shared_at vm s) (\<lambda>mlk.
     kbind (cond_wait_begin node cv mlk s) (\<lambda>s.
     kbind (cond_wait_sleep node s) (\<lambda>_. Asleep))))))"

definition cond_signal :: "u32 \<Rightarrow> kernel \<Rightarrow> kernel kresult" where
  "cond_signal cv s =
     kbind (list_empty cv (links s)) (\<lambda>e.
     if e then Done s
     else
       kbind (list_pop_front cv (links s)) (\<lambda>(node, h).
       kbind (acquire (Lat (node + 8)) (s\<lparr>links := h\<rparr>)) (\<lambda>s.
       kbind (wakeup (ChLockAt node) s) (release (Lat (node + 8))))))"

definition sys_cond_signal :: "int K" where
  "sys_cond_signal s =
     arg (argint 0 s) s (\<lambda>va. kbind (shared_at va s) (\<lambda>cv. kbind (cond_signal cv s) (\<lambda>s. Done (0, s))))"

section \<open>The dispatcher\<close>

text \<open>The table \<open>syscalls\<close>, in the order of the numbers in syscall.h; entry 0 is empty.\<close>

definition syscalls :: "u32 \<Rightarrow> (int K) list" where
  "syscalls node = [\<lambda>s. Fault, sys_fork, sys_exit, sys_wait, sys_pipe, sys_read, sys_kill, sys_exec, sys_fstat, sys_chdir,
     sys_dup, sys_getpid, sys_sbrk, sys_sleep, sys_uptime, sys_open, sys_write, sys_mknod, sys_unlink, sys_link,
     sys_mkdir, sys_close, sys_mygetpid, sys_my_getpid, sys_halt, sys_palloc, sys_mmap_alloc, sys_mmap_attach,
     sys_mmap_detach, sys_sema_init, sys_sema_down, sys_sema_up, sys_lock_init, sys_lock_acquire, sys_lock_release,
     sys_cond_init, sys_cond_wait node, sys_cond_signal]"

definition set_eax :: "nat \<Rightarrow> int \<Rightarrow> kernel \<Rightarrow> kernel" where
  "set_eax p r = upd_proc p (\<lambda>q. q\<lparr>tf := (tf q)\<lparr>t_eax := of_int r\<rparr>\<rparr>)"

definition syscall :: "u32 \<Rightarrow> kernel \<Rightarrow> kernel kresult" where
  "syscall node s =
     kbind (the_proc s) (\<lambda>p.
     let num = sint (t_eax (tf (procs s p))) in
     if num > 0 \<and> num < int (length (syscalls node))
     then kbind ((syscalls node ! nat num) s) (\<lambda>(r, s). Done (set_eax p r s))
     else
       kbind (cprintf (''%d %s: unknown sys call %d'' @ [CHR 10])
         [Word (of_int (pid (procs s p))), Text (Some (cstring (pname (procs s p)))), Word (t_eax (tf (procs s p)))] s) (\<lambda>s.
       Done (set_eax p (-1) s)))"

end
