(* ===== verification/Shm_Correct.thy ===== *)
theory Shm_Correct
  imports Shm
begin

text \<open>
  Semaphores, mutexes and condition variables in shared pages: what their operations do to the value, and what
  they return when their locks are free.
\<close>

section \<open>Effects on the value\<close>

lemma acquire_svalue: "acquire lk s = Done t \<Longrightarrow> svalue t = svalue s"
  by (auto simp: acquire_Done_iff upd_lock_def pushcli_def upd_cpu_def Let_def)

lemma popcli_svalue: "popcli s = Done t \<Longrightarrow> svalue t = svalue s"
  by (auto simp: popcli_def upd_cpu_def Let_def kassert_def split: if_splits)

lemma release_svalue: "release lk s = Done t \<Longrightarrow> svalue t = svalue s"
  by (auto simp: release_def upd_lock_def kassert_def split: if_splits dest!: popcli_svalue)

lemma wakeup_svalue: "wakeup ch s = Done t \<Longrightarrow> svalue t = svalue s"
  by (auto simp: wakeup_def wakeup1_eq dest!: acquire_svalue release_svalue)

lemma sched_enter_state: "sched_enter s = Done (i, t) \<Longrightarrow> t = s"
  by (auto simp: sched_enter_def kassert_def split: if_splits option.splits)

lemma sleep_enter_svalue: "sleep_enter ch lk s = Done (i, t) \<Longrightarrow> svalue t = svalue s"
  by (auto simp: sleep_enter_def upd_proc_def split: if_splits option.splits
      dest!: acquire_svalue release_svalue sched_enter_state)

lemma sleep_resume_svalue: "sleep_resume i lk s = Done t \<Longrightarrow> svalue t = svalue s"
  by (auto simp: sleep_resume_def sched_resume_def upd_proc_def upd_cpu_def Let_def split: if_splits option.splits
      dest!: acquire_svalue release_svalue)

lemmas svalue_effects = acquire_svalue release_svalue wakeup_svalue sleep_enter_svalue sleep_resume_svalue

lemma sema_down_body_effect:
  "sema_down_body sp s = Done (Ret r, t) \<Longrightarrow> svalue s sp \<noteq> 0 \<and> svalue t = (svalue s)(sp := svalue s sp - 1)"
  "sema_down_body sp s = Done (Sleeps i, t) \<Longrightarrow> svalue s sp = 0 \<and> svalue t = svalue s"
  by (auto simp: sema_down_body_def set_value_def split: if_splits dest!: svalue_effects)

lemma sema_down_effect:
  "sema_down sp s = Done (Ret r, t) \<Longrightarrow> svalue s sp \<noteq> 0 \<and> svalue t = (svalue s)(sp := svalue s sp - 1)"
  "sema_down sp s = Done (Sleeps i, t) \<Longrightarrow> svalue t = svalue s"
  "sema_down_resume j sp s = Done (Ret r, t) \<Longrightarrow> svalue s sp \<noteq> 0 \<and> svalue t = (svalue s)(sp := svalue s sp - 1)"
  "sema_down_resume j sp s = Done (Sleeps i, t) \<Longrightarrow> svalue t = svalue s"
  by (auto simp: sema_down_def sema_down_resume_def dest!: sema_down_body_effect svalue_effects)

lemma sema_up_effect: "sema_up sp s = Done (r, t) \<Longrightarrow> svalue t = (svalue s)(sp := svalue s sp + 1)"
  by (auto simp: sema_up_def set_value_def dest!: svalue_effects)

lemma lock_acquire_body_effect:
  "lock_acquire_body m s = Done (Ret r, t) \<Longrightarrow> svalue s m \<noteq> 1 \<and> svalue t = (svalue s)(m := 1)"
  "lock_acquire_body m s = Done (Sleeps i, t) \<Longrightarrow> svalue t = svalue s"
  by (auto simp: lock_acquire_body_def set_value_def split: if_splits dest!: svalue_effects)

lemma lock_acquire_effect:
  "lock_acquire m s = Done (Ret r, t) \<Longrightarrow> svalue s m \<noteq> 1 \<and> svalue t = (svalue s)(m := 1)"
  "lock_acquire m s = Done (Sleeps i, t) \<Longrightarrow> svalue t = svalue s"
  "lock_acquire_resume j m s = Done (Ret r, t) \<Longrightarrow> svalue s m \<noteq> 1 \<and> svalue t = (svalue s)(m := 1)"
  "lock_acquire_resume j m s = Done (Sleeps i, t) \<Longrightarrow> svalue t = svalue s"
  by (auto simp: lock_acquire_def lock_acquire_resume_def dest!: lock_acquire_body_effect svalue_effects)

lemma lock_release_effect: "lock_release m s = Done t \<Longrightarrow> svalue t = (svalue s)(m := 0)"
  by (auto simp: lock_release_def set_value_def dest!: svalue_effects)

section \<open>Progress\<close>

lemma sema_down_pos:
  assumes "cli_ok s" and "locked (locks s (Lat sp)) = 0" and "svalue s sp \<noteq> 0"
  shows "sema_down sp s = Done (Ret 0, set_value sp (svalue s sp - 1) (crit (Lat sp) s))"
  using assms crit_ok_crit [OF assms(1) refl, of "Lat sp"]
  by (simp add: sema_down_def sema_down_body_def acquire_enter set_value_def release_enter)

lemma sema_down_zero:
  assumes "cli_ok s" and "locked (locks s (Lat sp)) = 0" and "locked (locks s Lptable) = 0" and "svalue s sp = 0"
    and "ncli (cpus s (me s)) = 0" and "curproc s = Some c"
  shows "\<exists>i t. sema_down sp s = Done (Sleeps i, t) \<and> state (procs t c) = SLEEPING \<and> pchan (procs t c) = Some (ChAt sp)
    \<and> holding Lptable t \<and> locked (locks t (Lat sp)) = 0"
proof -
  let ?r = "crit (Lat sp) s"
  have "sleep_enter (ChAt sp) (Lat sp) (enter (Lat sp) (callers s) ?r) = Done (intena (cpus ?r (me ?r)),
      enter Lptable (callers ?r) ((dbg Lptable ?r)\<lparr>procs := (procs ?r)(c := (procs ?r c)\<lparr>pchan := Some (ChAt sp), state := SLEEPING\<rparr>)\<rparr>))"
    using assms by (intro sleep_enter_section) (simp_all add: crit_locked crit_ok_crit)
  then show ?thesis using assms
    by (simp add: sema_down_def sema_down_body_def acquire_enter holding_def lock_words) (simp add: enter_def)
qed

lemma sema_up_eq:
  assumes "cli_ok s" and "locked (locks s (Lat sp)) = 0" and "locked (locks s Lptable) = 0"
  shows "sema_up sp s = Done (0, set_value sp (svalue s sp + 1)
    ((dbg Lptable (crit (Lat sp) s))\<lparr>procs := wake_all (ChAt sp) (procs s)\<rparr>))"
  using assms crit_ok_crit [OF assms(1) refl, of "Lat sp"]
  by (simp add: sema_up_def acquire_enter wakeup_enter crit_locked set_value_def release_enter crit_ok_dbg)

section \<open>Condition variables\<close>

lemma lock_release_eq:
  assumes "cli_ok s" and "locked (locks s (Lat m)) = 0" and "locked (locks s Lptable) = 0"
  shows "lock_release m s = Done (set_value m 0 ((dbg Lptable (crit (Lat m) s))\<lparr>procs := wake_all (ChAt m) (procs s)\<rparr>))"
  using assms crit_ok_crit [OF assms(1) refl, of "Lat m"]
  by (simp add: lock_release_def acquire_enter wakeup_enter crit_locked set_value_def release_enter crit_ok_dbg)

lemma cond_wait_begin_ok:
  assumes "cli_ok s" and "locked (locks s (Lat m)) = 0" and "locked (locks s Lptable) = 0" and "dll (links s) cv xs"
    and "node \<notin> set (nodes cv xs)" and "node \<noteq> 0" and "node + 8 \<noteq> m"
  shows "\<exists>t. cond_wait_begin node cv m s = Done t \<and> dll (links t) cv (xs @ [node]) \<and> cli_ok t \<and> me t = me s
    \<and> locked (locks t Lptable) = 0 \<and> locked (locks t (Lat (node + 8))) = 0
    \<and> (\<forall>c. cproc (cpus t c) = cproc (cpus s c)) \<and> (\<forall>c. ncli (cpus t c) = ncli (cpus s c)) \<and> procs t = wake_all (ChAt m) (procs s)"
proof -
  obtain h where h: "list_push_back cv node (links s) = Done h" "dll h cv (xs @ [node])"
    using list_push_back_dll [OF assms(4,5)] assms(6) by auto
  let ?u = "(initlock (Lat (node + 8)) ''condition_node'' s)\<lparr>links := h\<rparr>"
  have u: "cli_ok ?u" "locked (locks ?u (Lat m)) = 0" "locked (locks ?u Lptable) = 0" "locked (locks ?u (Lat (node + 8))) = 0"
    using assms by (simp_all add: initlock_def upd_lock_def cli_ok_def)
  have "cond_enqueue node cv s = Done ?u" using h by (simp add: cond_enqueue_def initlock_def upd_lock_def Let_def)
  then have "cond_wait_begin node cv m s = lock_release m ?u" by (simp add: cond_wait_begin_def)
  then show ?thesis using lock_release_eq [OF u(1-3)] u h(2)
    by (auto simp: set_value_def lock_words) (auto simp: initlock_def upd_lock_def)
qed

lemma cond_signal_pop:
  assumes "cli_ok s" and "locked (locks s Lptable) = 0" and "dll (links s) cv (node # xs)" and "locked (locks s (Lat (node + 8))) = 0"
  shows "\<exists>h. cond_signal cv s = Done ((dbg Lptable (crit (Lat (node + 8)) (s\<lparr>links := h\<rparr>)))\<lparr>procs := wake_all (ChLockAt node) (procs s)\<rparr>)
    \<and> dll h cv xs"
proof -
  obtain h where h: "list_pop_front cv (links s) = Done (node, h)" "dll h cv xs"
    using list_pop_front_dll [OF assms(3)] by blast
  let ?s = "s\<lparr>links := h\<rparr>"
  have "crit_ok (Lat (node + 8)) (callers ?s) (crit (Lat (node + 8)) ?s)" using assms(1) by (intro crit_ok_crit) simp_all
  then show ?thesis using assms h list_empty_dll [OF assms(3)]
    by (intro exI [of _ h]) (simp add: cond_signal_def acquire_enter wakeup_enter crit_locked release_enter crit_ok_dbg)
qed

lemma cond_signal_empty: "dll (links s) cv [] \<Longrightarrow> cond_signal cv s = Done s"
  by (simp add: cond_signal_def list_empty_dll)

lemma cond_wait_sleep_ok:
  assumes "cli_ok s" and "ncli (cpus s (me s)) = 0" and "locked (locks s Lptable) = 0" and "locked (locks s (Lat (node + 8))) = 0"
    and "curproc s = Some c"
  shows "\<exists>i t. cond_wait_sleep node s = Done (i, t) \<and> links t = links s
    \<and> procs t = (procs s)(c := (procs s c)\<lparr>pchan := Some (ChLockAt node), state := SLEEPING\<rparr>)"
proof -
  let ?lk = "Lat (node + 8)"
  let ?r = "crit ?lk s"
  have "sleep_enter (ChLockAt node) ?lk (enter ?lk (callers s) ?r) = Done (intena (cpus ?r (me ?r)),
      enter Lptable (callers ?r) ((dbg Lptable ?r)\<lparr>procs := (procs ?r)(c := (procs ?r c)\<lparr>pchan := Some (ChLockAt node), state := SLEEPING\<rparr>)\<rparr>))"
    using assms by (intro sleep_enter_section) (simp_all add: crit_locked crit_ok_crit)
  then show ?thesis using assms by (simp add: cond_wait_sleep_def acquire_enter)
qed

end
