(* ===== verification/Sync.thy ===== *)
theory Sync
  imports Shm_Correct
begin

text \<open>
  Semaphores and mutexes of sysfile.c under interleaving: the code of \<open>sys_sema_down\<close>, \<open>sys_sema_up\<close>,
  \<open>lock_acquire\<close> and \<open>lock_release\<close> cut into its single accesses of the shared value and its calls, so that other
  processes run between any two of them. What keeps the updates apart is the spin lock of the structure.
\<close>

section \<open>The code step by step\<close>

text \<open>
  Where a process is: in the calls that take or release the spin lock, before the test of the loop, before the call of
  \<open>sleep\<close>, asleep in it, and between the load of \<open>sp->value\<close> and its store (the argument is the value to be stored).
\<close>

datatype sema_pc = S_idle
  | D_acquire | D_test | D_sleep | D_asleep bool | D_load | D_store u32 | D_release
  | U_acquire | U_wakeup | U_load | U_store u32 | U_release

fun sema_instr :: "u32 \<Rightarrow> sema_pc \<Rightarrow> sema_pc K" where
  "sema_instr sp S_idle s = Done (S_idle, s)"
| "sema_instr sp D_acquire s = kbind (acquire (Lat sp) s) (\<lambda>s. Done (D_test, s))"
| "sema_instr sp D_test s = Done (if svalue s sp = 0 then D_sleep else D_load, s)"
| "sema_instr sp D_sleep s = kbind (sleep_enter (ChAt sp) (Lat sp) s) (\<lambda>(i, s). Done (D_asleep i, s))"
| "sema_instr sp (D_asleep i) s = kbind (sleep_resume i (Lat sp) s) (\<lambda>s. Done (D_test, s))"
| "sema_instr sp D_load s = Done (D_store (svalue s sp - 1), s)"
| "sema_instr sp (D_store v) s = Done (D_release, set_value sp v s)"
| "sema_instr sp D_release s = kbind (release (Lat sp) s) (\<lambda>s. Done (S_idle, s))"
| "sema_instr sp U_acquire s = kbind (acquire (Lat sp) s) (\<lambda>s. Done (U_wakeup, s))"
| "sema_instr sp U_wakeup s = kbind (wakeup (ChAt sp) s) (\<lambda>s. Done (U_load, s))"
| "sema_instr sp U_load s = Done (U_store (svalue s sp + 1), s)"
| "sema_instr sp (U_store v) s = Done (U_release, set_value sp v s)"
| "sema_instr sp U_release s = kbind (release (Lat sp) s) (\<lambda>s. Done (S_idle, s))"

datatype mutex_pc = M_idle | M_held
  | A_acquire | A_test | A_sleep | A_asleep bool | A_store | A_release
  | R_acquire | R_wakeup | R_store | R_release

fun mutex_instr :: "u32 \<Rightarrow> mutex_pc \<Rightarrow> mutex_pc K" where
  "mutex_instr m M_idle s = Done (M_idle, s)"
| "mutex_instr m M_held s = Done (M_held, s)"
| "mutex_instr m A_acquire s = kbind (acquire (Lat m) s) (\<lambda>s. Done (A_test, s))"
| "mutex_instr m A_test s = Done (if svalue s m = 1 then A_sleep else A_store, s)"
| "mutex_instr m A_sleep s = kbind (sleep_enter (ChAt m) (Lat m) s) (\<lambda>(i, s). Done (A_asleep i, s))"
| "mutex_instr m (A_asleep i) s = kbind (sleep_resume i (Lat m) s) (\<lambda>s. Done (A_test, s))"
| "mutex_instr m A_store s = Done (A_release, set_value m 1 s)"
| "mutex_instr m A_release s = kbind (release (Lat m) s) (\<lambda>s. Done (M_held, s))"
| "mutex_instr m R_acquire s = kbind (acquire (Lat m) s) (\<lambda>s. Done (R_wakeup, s))"
| "mutex_instr m R_wakeup s = kbind (wakeup (ChAt m) s) (\<lambda>s. Done (R_store, s))"
| "mutex_instr m R_store s = Done (R_release, set_value m 0 s)"
| "mutex_instr m R_release s = kbind (release (Lat m) s) (\<lambda>s. Done (M_idle, s))"

text \<open>
  Run without interruption, up to the return (\<open>fin\<close>) or the sleep, the steps are the operations: six are enough for each.
\<close>

primrec run_pc :: "('pc \<Rightarrow> 'pc K) \<Rightarrow> ('pc \<Rightarrow> bool) \<Rightarrow> nat \<Rightarrow> 'pc \<Rightarrow> 'pc K" where
  "run_pc instr fin 0 c s = Spin"
| "run_pc instr fin (Suc n) c s = kbind (instr c s) (\<lambda>(c, s). if fin c then Done (c, s) else run_pc instr fin n c s)"

fun sema_stop :: "sema_pc \<Rightarrow> bool" where
  "sema_stop S_idle = True" | "sema_stop (D_asleep i) = True" | "sema_stop _ = False"

fun sema_result :: "sema_pc \<Rightarrow> int call" where
  "sema_result (D_asleep i) = Sleeps i" | "sema_result _ = Ret 0"

fun mutex_stop :: "mutex_pc \<Rightarrow> bool" where
  "mutex_stop M_idle = True" | "mutex_stop M_held = True" | "mutex_stop (A_asleep i) = True" | "mutex_stop _ = False"

fun mutex_result :: "mutex_pc \<Rightarrow> int call" where
  "mutex_result (A_asleep i) = Sleeps i" | "mutex_result _ = Ret 0"

abbreviation sema_run :: "u32 \<Rightarrow> sema_pc \<Rightarrow> int call K" where
  "sema_run sp c s \<equiv> kbind (run_pc (sema_instr sp) sema_stop 6 c s) (\<lambda>(c, s). Done (sema_result c, s))"

abbreviation mutex_run :: "u32 \<Rightarrow> mutex_pc \<Rightarrow> int call K" where
  "mutex_run m c s \<equiv> kbind (run_pc (mutex_instr m) mutex_stop 6 c s) (\<lambda>(c, s). Done (mutex_result c, s))"

lemma run_pc_steps:
  "run_pc f g 6 c s = kbind (f c s) (\<lambda>(c, s). if g c then Done (c, s) else run_pc f g 5 c s)"
  "run_pc f g 5 = run_pc f g (Suc (Suc (Suc (Suc (Suc 0)))))"
proof -
  have "6 = Suc 5" by simp
  then show "run_pc f g 6 c s = kbind (f c s) (\<lambda>(c, s). if g c then Done (c, s) else run_pc f g 5 c s)" by (simp only: run_pc.simps)
qed (simp add: eval_nat_numeral)

lemma kbind_assoc: "kbind (kbind x f) g = kbind x (\<lambda>y. kbind (f y) g)"
  by (cases x) simp_all

lemma sema_body: "kbind (run_pc (sema_instr sp) sema_stop 5 D_test s) (\<lambda>(c, s). Done (sema_result c, s)) = sema_down_body sp s"
  by (cases "svalue s sp = 0") (simp_all add: run_pc_steps(2) kbind_assoc sema_down_body_def case_prod_unfold)

lemma sema_code:
  "sema_down sp s = sema_run sp D_acquire s" "sema_down_resume i sp s = sema_run sp (D_asleep i) s"
  "kbind (sema_up sp s) (\<lambda>(r, s). Done (Ret r, s)) = sema_run sp U_acquire s"
  by (simp_all add: run_pc_steps(1) kbind_assoc sema_body sema_down_def sema_down_resume_def)
    (simp add: run_pc_steps(2) kbind_assoc sema_up_def)

lemma mutex_body: "kbind (run_pc (mutex_instr m) mutex_stop 5 A_test s) (\<lambda>(c, s). Done (mutex_result c, s)) = lock_acquire_body m s"
  by (cases "svalue s m = 1") (simp_all add: run_pc_steps(2) kbind_assoc lock_acquire_body_def case_prod_unfold)

lemma mutex_code:
  "lock_acquire m s = mutex_run m A_acquire s" "lock_acquire_resume i m s = mutex_run m (A_asleep i) s"
  by (simp_all add: run_pc_steps(1) kbind_assoc mutex_body lock_acquire_def lock_acquire_resume_def)

lemma mutex_release_code: "kbind (lock_release m s) (\<lambda>s. Done (Ret 0, s)) = mutex_run m R_acquire s"
  by (simp add: run_pc_steps kbind_assoc lock_release_def)

section \<open>One process at a time inside the spin lock\<close>

text \<open>
  A piece of code that runs in many processes, a part of it under a lock: taking the lock is the only way in, and the lock is kept inside.
\<close>

definition only_one :: "('pc \<Rightarrow> bool) \<Rightarrow> lockid \<Rightarrow> (nat \<Rightarrow> 'pc) \<Rightarrow> kernel \<Rightarrow> bool" where
  "only_one guarded lk ctl s \<longleftrightarrow> (\<forall>p q. guarded (ctl p) \<and> guarded (ctl q) \<longrightarrow> p = q) \<and> (\<forall>p. guarded (ctl p) \<longrightarrow> locked (locks s lk) \<noteq> 0)"

locale lock_section =
  fixes instr :: "'pc \<Rightarrow> 'pc K" and guarded :: "'pc \<Rightarrow> bool" and lk :: lockid
  assumes enters: "instr c s = Done (c', t) \<Longrightarrow> \<not> guarded c \<Longrightarrow> guarded c' \<Longrightarrow> locked (locks s lk) = 0 \<and> locked (locks t lk) \<noteq> 0"
    and keeps_lock: "instr c s = Done (c', t) \<Longrightarrow> guarded c = guarded c' \<Longrightarrow> locked (locks t lk) = locked (locks s lk)"
begin

lemma only_one_step:
  assumes "only_one guarded lk ctl s" and "instr (ctl p) s = Done (c, t)"
  shows "only_one guarded lk (ctl(p := c)) t"
proof (cases "guarded (ctl p) = guarded c")
  case True
  then show ?thesis using keeps_lock [OF assms(2) True] assms(1) unfolding only_one_def by (auto split: if_splits)
next
  case False
  then show ?thesis using enters [OF assms(2)] assms(1) unfolding only_one_def by (auto split: if_splits)
qed

end

fun sema_inside :: "sema_pc \<Rightarrow> bool" where
  "sema_inside S_idle = False" | "sema_inside D_acquire = False" | "sema_inside U_acquire = False" | "sema_inside (D_asleep i) = False"
| "sema_inside _ = True"

fun mutex_inside :: "mutex_pc \<Rightarrow> bool" where
  "mutex_inside M_idle = False" | "mutex_inside M_held = False" | "mutex_inside A_acquire = False" | "mutex_inside R_acquire = False"
| "mutex_inside (A_asleep i) = False" | "mutex_inside _ = True"

lemma section_effects:
  "acquire (Lat a) s = Done t \<Longrightarrow> locked (locks s (Lat a)) = 0 \<and> locked (locks t (Lat a)) = 1"
  "wakeup ch s = Done t \<Longrightarrow> locked (locks t (Lat a)) = locked (locks s (Lat a))"
  "sleep_resume i (Lat a) s = Done t \<Longrightarrow> locked (locks s (Lat a)) = 0 \<and> locked (locks t (Lat a)) = 1"
proof -
  show "acquire (Lat a) s = Done t \<Longrightarrow> locked (locks s (Lat a)) = 0 \<and> locked (locks t (Lat a)) = 1" using acquire_effect(2,3) by blast
  show "wakeup ch s = Done t \<Longrightarrow> locked (locks t (Lat a)) = locked (locks s (Lat a))"
    by (auto simp: wakeup_def wakeup1_eq dest!: acquire_effect(5) [of _ _ _ "Lat a"] release_effect(5) [of _ _ _ "Lat a"])
  assume "sleep_resume i (Lat a) s = Done t"
  then obtain u v where u: "release Lptable u = Done v" "acquire (Lat a) v = Done t" "locks u = locks s"
    by (auto simp: sleep_resume_def sched_resume_def upd_proc_def upd_cpu_def Let_def split: option.splits)
  have "locks v (Lat a) = locks s (Lat a)" using release_effect(5) [OF u(1), of "Lat a"] u(3) by simp
  then show "locked (locks s (Lat a)) = 0 \<and> locked (locks t (Lat a)) = 1" using acquire_effect(2,3) [OF u(2)] by simp
qed

interpretation sema: lock_section "sema_instr sp" sema_inside "Lat sp" for sp
proof
  fix c c' s t
  assume i: "sema_instr sp c s = Done (c', t)"
  show "locked (locks s (Lat sp)) = 0 \<and> locked (locks t (Lat sp)) \<noteq> 0" if "\<not> sema_inside c" "sema_inside c'"
    using i that by (cases c) (auto dest!: section_effects(1,3))
  show "locked (locks t (Lat sp)) = locked (locks s (Lat sp))" if "sema_inside c = sema_inside c'"
    using i that by (cases c) (auto simp: set_value_def split: if_splits dest!: section_effects(2) [of _ _ _ sp])
qed

interpretation mutex: lock_section "mutex_instr m" mutex_inside "Lat m" for m
proof
  fix c c' s t
  assume i: "mutex_instr m c s = Done (c', t)"
  show "locked (locks s (Lat m)) = 0 \<and> locked (locks t (Lat m)) \<noteq> 0" if "\<not> mutex_inside c" "mutex_inside c'"
    using i that by (cases c) (auto dest!: section_effects(1,3))
  show "locked (locks t (Lat m)) = locked (locks s (Lat m))" if "mutex_inside c = mutex_inside c'"
    using i that by (cases c) (auto simp: set_value_def split: if_splits dest!: section_effects(2) [of _ _ _ m])
qed

section \<open>Semaphores\<close>

text \<open>The value as a C int.\<close>

lemma sint_succ: "0 \<le> sint (x :: u32) \<Longrightarrow> sint x < 2 ^ 31 - 1 \<Longrightarrow> sint (x + 1) = sint x + 1"
  using sint_of_int [of "sint x + 1"] by (simp add: int_ok_def)

text \<open>
  The steps of a system in which any number of processes use the semaphore \<open>sp\<close>: a call starts, a process makes its next step, or
  something else happens that changes neither the value nor the word of the spin lock: another CPU or process runs, an interrupt is served,
  the process moves to another CPU. The state counts the ups and downs that have stored their value.
\<close>

fun ups :: "sema_pc \<Rightarrow> nat" where "ups (U_store v) = 1" | "ups _ = 0"

fun downs :: "sema_pc \<Rightarrow> nat" where "downs (D_store v) = 1" | "downs _ = 0"

inductive sema_step :: "u32 \<Rightarrow> kernel \<times> (nat \<Rightarrow> sema_pc) \<times> nat \<times> nat \<Rightarrow> kernel \<times> (nat \<Rightarrow> sema_pc) \<times> nat \<times> nat \<Rightarrow> bool" for sp where
  call_down: "ctl p = S_idle \<Longrightarrow> sema_step sp (s, ctl, u, d) (s, ctl(p := D_acquire), u, d)"
| call_up: "ctl p = S_idle \<Longrightarrow> sema_step sp (s, ctl, u, d) (s, ctl(p := U_acquire), u, d)"
| step: "sema_instr sp (ctl p) s = Done (c, t) \<Longrightarrow> sema_step sp (s, ctl, u, d) (t, ctl(p := c), u + ups (ctl p), d + downs (ctl p))"
| others: "svalue t sp = svalue s sp \<Longrightarrow> locked (locks t (Lat sp)) = locked (locks s (Lat sp)) \<Longrightarrow> sema_step sp (s, ctl, u, d) (t, ctl, u, d)"

text \<open>What a process inside the spin lock knows of the value.\<close>

fun sema_pc_ok :: "u32 \<Rightarrow> sema_pc \<Rightarrow> bool" where
  "sema_pc_ok x D_load = (x \<noteq> 0)"
| "sema_pc_ok x (D_store v) = (v = x - 1 \<and> x \<noteq> 0)"
| "sema_pc_ok x (U_store v) = (v = x + 1)"
| "sema_pc_ok x _ = True"

lemma sema_pc_outside: "\<not> sema_inside c \<Longrightarrow> sema_pc_ok x c" "\<not> sema_inside c \<Longrightarrow> ups c = 0 \<and> downs c = 0"
  by (cases c; simp)+

lemma sema_instr_effect:
  assumes "sema_instr sp c s = Done (c', t)" and "sema_pc_ok (svalue s sp) c"
  shows "sema_pc_ok (svalue t sp) c'" and "svalue t sp = svalue s sp + of_nat (ups c) - of_nat (downs c)"
    and "downs c = 0 \<or> downs c = 1 \<and> svalue s sp \<noteq> 0"
proof -
  show "sema_pc_ok (svalue t sp) c'" using assms by (cases c) (auto simp: set_value_def)
  show "svalue t sp = svalue s sp + of_nat (ups c) - of_nat (downs c)"
    using assms by (cases c) (auto simp: set_value_def dest!: svalue_effects)
  show "downs c = 0 \<or> downs c = 1 \<and> svalue s sp \<noteq> 0" using assms(2) by (cases c) auto
qed

definition sema_inv :: "u32 \<Rightarrow> int \<Rightarrow> kernel \<times> (nat \<Rightarrow> sema_pc) \<times> nat \<times> nat \<Rightarrow> bool" where
  "sema_inv sp v x \<longleftrightarrow> (case x of (s, ctl, u, d) \<Rightarrow> only_one sema_inside (Lat sp) ctl s
     \<and> svalue s sp = of_int (v + int u - int d) \<and> int d \<le> v + int u \<and> (\<forall>p. sema_pc_ok (svalue s sp) (ctl p)))"

lemma sema_inv_step:
  assumes "sema_step sp x y" and "sema_inv sp v x"
  shows "sema_inv sp v y"
  using assms
proof (induction rule: sema_step.induct)
  case (step ctl p s c t u d)
  have I: "only_one sema_inside (Lat sp) ctl s" "svalue s sp = of_int (v + int u - int d)" "int d \<le> v + int u"
    "\<And>q. sema_pc_ok (svalue s sp) (ctl q)" using step.prems unfolding sema_inv_def prod.case by blast+
  note E = sema_instr_effect [OF step.hyps I(4)]
  have "v + int u - int d \<noteq> 0" if "downs (ctl p) = 1"
  proof -
    have "(of_int (v + int u - int d) :: u32) \<noteq> 0" using E(3) that unfolding I(2) [symmetric] by simp
    then show ?thesis by (metis of_int_0)
  qed
  then have "int (d + downs (ctl p)) \<le> v + int (u + ups (ctl p))" using I(3) E(3) by auto
  moreover have "svalue t sp = of_int (v + int (u + ups (ctl p)) - int (d + downs (ctl p)))"
    unfolding E(2) I(2) by (simp add: algebra_simps)
  moreover have "sema_pc_ok (svalue t sp) ((ctl(p := c)) q)" for q
  proof (cases "q = p \<or> \<not> sema_inside (ctl q)")
    case True
    then show ?thesis using E(1) sema_pc_outside(1) by auto
  next
    case False
    then have "\<not> sema_inside (ctl p)" using I(1) unfolding only_one_def by blast
    then have "svalue t sp = svalue s sp" using E(2) sema_pc_outside(2) by simp
    then show ?thesis using I(4) False by simp
  qed
  ultimately show ?case using sema.only_one_step [OF I(1) step.hyps] by (simp add: sema_inv_def)
qed (auto simp: sema_inv_def only_one_def)

lemma sema_inv_reach: "(sema_step sp)\<^sup>*\<^sup>* x y \<Longrightarrow> sema_inv sp v x \<Longrightarrow> sema_inv sp v y"
  by (induction rule: rtranclp_induct) (auto intro: sema_inv_step)

section \<open>Mutexes\<close>

text \<open>
  The same for a mutex. The code does not check who releases it; the processes of this system release only what they hold.
\<close>

inductive mutex_step :: "u32 \<Rightarrow> kernel \<times> (nat \<Rightarrow> mutex_pc) \<Rightarrow> kernel \<times> (nat \<Rightarrow> mutex_pc) \<Rightarrow> bool" for m where
  call_acquire: "ctl p = M_idle \<Longrightarrow> mutex_step m (s, ctl) (s, ctl(p := A_acquire))"
| call_release: "ctl p = M_held \<Longrightarrow> mutex_step m (s, ctl) (s, ctl(p := R_acquire))"
| step: "mutex_instr m (ctl p) s = Done (c, t) \<Longrightarrow> mutex_step m (s, ctl) (t, ctl(p := c))"
| others: "svalue t m = svalue s m \<Longrightarrow> locked (locks t (Lat m)) = locked (locks s (Lat m)) \<Longrightarrow> mutex_step m (s, ctl) (t, ctl)"

text \<open>A process has the mutex from the store of 1 to the store of 0.\<close>

fun has_mutex :: "mutex_pc \<Rightarrow> bool" where
  "has_mutex A_release = True" | "has_mutex M_held = True" | "has_mutex R_acquire = True" | "has_mutex R_wakeup = True"
| "has_mutex R_store = True" | "has_mutex _ = False"

lemma mutex_instr_effect:
  assumes "mutex_instr m c s = Done (c', t)"
  shows "c = A_store \<and> c' = A_release \<and> svalue t m = 1 \<or> c = R_store \<and> c' = R_release \<and> svalue t m = 0
    \<or> c \<noteq> A_store \<and> c \<noteq> R_store \<and> svalue t m = svalue s m \<and> has_mutex c' = has_mutex c \<and> (c' = A_store \<longrightarrow> svalue s m \<noteq> 1)"
  using assms by (cases c) (auto simp: set_value_def dest!: svalue_effects split: if_splits)

definition mutex_inv :: "u32 \<Rightarrow> kernel \<times> (nat \<Rightarrow> mutex_pc) \<Rightarrow> bool" where
  "mutex_inv m x \<longleftrightarrow> (case x of (s, ctl) \<Rightarrow> only_one mutex_inside (Lat m) ctl s
     \<and> (\<forall>p q. has_mutex (ctl p) \<and> has_mutex (ctl q) \<longrightarrow> p = q) \<and> (svalue s m = 1 \<longleftrightarrow> (\<exists>p. has_mutex (ctl p)))
     \<and> (\<forall>p. ctl p = A_store \<longrightarrow> svalue s m \<noteq> 1))"

lemma mutex_inv_move:
  assumes "mutex_inv m (s, ctl)" and "only_one mutex_inside (Lat m) (ctl(p := c)) t" and "svalue t m = svalue s m"
    and "has_mutex c = has_mutex (ctl p)" and "c = A_store \<longrightarrow> svalue s m \<noteq> 1"
  shows "mutex_inv m (t, ctl(p := c))"
proof -
  have "has_mutex ((ctl(p := c)) q) = has_mutex (ctl q)" for q using assms(4) by simp
  then show ?thesis using assms(1-3,5) unfolding mutex_inv_def by (auto split: if_splits)
qed

lemma mutex_inv_step:
  assumes "mutex_step m x y" and "mutex_inv m x"
  shows "mutex_inv m y"
  using assms
proof (induction rule: mutex_step.induct)
  case (step ctl p s c t)
  have I: "only_one mutex_inside (Lat m) ctl s" "\<And>p q. has_mutex (ctl p) \<Longrightarrow> has_mutex (ctl q) \<Longrightarrow> p = q"
    "svalue s m = 1 \<longleftrightarrow> (\<exists>p. has_mutex (ctl p))" "\<And>p. ctl p = A_store \<Longrightarrow> svalue s m \<noteq> 1"
    using step.prems by (auto simp: mutex_inv_def)
  note O = mutex.only_one_step [OF I(1) step.hyps]
  have one: "ctl q \<noteq> A_store" if "mutex_inside (ctl p)" "q \<noteq> p" for q using I(1) that unfolding only_one_def by (auto dest: spec [of _ p])
  from mutex_instr_effect [OF step.hyps] show ?case
  proof (elim disjE conjE)
    assume c: "ctl p = A_store" "c = A_release" "svalue t m = 1"
    then have "\<not> has_mutex (ctl q)" for q using I(3,4) by blast
    then show ?thesis using O one c by (auto simp: mutex_inv_def split: if_splits)
  next
    assume c: "ctl p = R_store" "c = R_release" "svalue t m = 0"
    then have "\<not> has_mutex (ctl q)" if "q \<noteq> p" for q using I(2) [of p q] that by auto
    then show ?thesis using O c by (auto simp: mutex_inv_def)
  next
    assume c: "svalue t m = svalue s m" "has_mutex c = has_mutex (ctl p)" "c = A_store \<longrightarrow> svalue s m \<noteq> 1"
    then show ?thesis by (intro mutex_inv_move [OF step.prems O])
  qed
next
  case (call_acquire ctl p s)
  then show ?case by (intro mutex_inv_move) (auto simp: mutex_inv_def only_one_def)
next
  case (call_release ctl p s)
  then show ?case by (intro mutex_inv_move) (auto simp: mutex_inv_def only_one_def)
qed (auto simp: mutex_inv_def only_one_def)

lemma mutex_inv_reach: "(mutex_step m)\<^sup>*\<^sup>* x y \<Longrightarrow> mutex_inv m x \<Longrightarrow> mutex_inv m y"
  by (induction rule: rtranclp_induct) (auto intro: mutex_inv_step)

end
