(* ===== verification/Trap.thy ===== *)
theory Trap
  imports Shm Keyboard
begin

text \<open>
  Traps (trap.c): the dispatch of system calls, device interrupts and exceptions, and what happens to the
  process on the way out. The trap frame lies at the address \<open>a\<close> on the kernel stack with the contents \<open>f\<close>. The
  bytes that the keyboard controller and the serial line hold and the register cr2 are inputs. Telling the local
  interrupt controller that the interrupt is served (\<open>lapiceoi\<close>) has no state in the model.
\<close>

unbundle bit_operations_syntax

section \<open>Trap numbers\<close>

definition T_SYSCALL :: u32 where "T_SYSCALL = 64"
definition T_IRQ0 :: u32 where "T_IRQ0 = 32"
definition IRQ_TIMER :: u32 where "IRQ_TIMER = 0"
definition IRQ_KBD :: u32 where "IRQ_KBD = 1"
definition IRQ_COM1 :: u32 where "IRQ_COM1 = 4"
definition IRQ_IDE :: u32 where "IRQ_IDE = 14"
definition IRQ_SPURIOUS :: u32 where "IRQ_SPURIOUS = 31"
definition DPL_USER :: u16 where "DPL_USER = 3"

lemmas trap_defs = T_SYSCALL_def T_IRQ0_def IRQ_TIMER_def IRQ_KBD_def IRQ_COM1_def IRQ_IDE_def IRQ_SPURIOUS_def DPL_USER_def

section \<open>The handler\<close>

record devices =
  kbd_data :: "u8 list"
  com1_data :: "u8 list"
  cr2 :: u32

text \<open>How the handler ends: it returns to the interrupted code, or switches away in \<open>exit\<close> or \<open>yield\<close>.\<close>

datatype trap_end = Returns | Exits bool | Yields bool

definition exits :: "trap_end K" where
  "exits s = kbind (exit_enter s) (\<lambda>(i, s). Done (Exits i, s))"

text \<open>The timer interrupt: the first CPU counts the tick and wakes the sleepers.\<close>

definition timer_tick :: "kernel \<Rightarrow> kernel kresult" where
  "timer_tick s =
     (if me s = 0
      then kbind (acquire Lticks s) (\<lambda>s.
           kbind (wakeup ChTicks (s\<lparr>ticks := ticks s + 1\<rparr>)) (release Lticks))
      else Done s)"

definition spurious :: "trapframe \<Rightarrow> kernel \<Rightarrow> kernel kresult" where
  "spurious f s = cprintf (''cpu%d: spurious interrupt at %x:%x'' @ [CHR 10]) [Word (of_nat (me s)), Word (ucast (t_cs f)), Word (t_eip f)] s"

text \<open>Any other trap: a bug when it comes from the kernel, otherwise the process is killed.\<close>

definition unexpected :: "trapframe \<Rightarrow> u32 \<Rightarrow> kernel \<Rightarrow> kernel kresult" where
  "unexpected f addr s =
     (case curproc s of
        Some p \<Rightarrow>
          if t_cs f AND 3 = 0 then
            kbind (cprintf (''unexpected trap %d from cpu %d eip %x (cr2=0x%x)'' @ [CHR 10])
              [Word (t_trapno f), Word (of_nat (me s)), Word (t_eip f), Word addr] s) (\<lambda>s. Panic ''trap'')
          else
            kbind (cprintf (''pid %d %s: trap %d err %d on cpu %d eip 0x%x addr 0x%x--kill proc'' @ [CHR 10])
              [Word (of_int (pid (procs s p))), Text (Some (cstring (pname (procs s p)))), Word (t_trapno f), Word (t_err f),
               Word (of_nat (me s)), Word (t_eip f), Word addr] s) (\<lambda>s.
            Done (upd_proc p (\<lambda>q. q\<lparr>killed := 1\<rparr>) s))
      | None \<Rightarrow>
          kbind (cprintf (''unexpected trap %d from cpu %d eip %x (cr2=0x%x)'' @ [CHR 10])
            [Word (t_trapno f), Word (of_nat (me s)), Word (t_eip f), Word addr] s) (\<lambda>s. Panic ''trap''))"

definition serve :: "trapframe \<Rightarrow> devices \<Rightarrow> kernel \<Rightarrow> kernel kresult" where
  "serve f io s =
     (let n = t_trapno f in
      if n = T_IRQ0 + IRQ_TIMER then timer_tick s
      else if n = T_IRQ0 + IRQ_IDE then Done (ideintr s)
      else if n = T_IRQ0 + IRQ_IDE + 1 then Done s
      else if n = T_IRQ0 + IRQ_KBD then kbdintr (kbd_data io) s
      else if n = T_IRQ0 + IRQ_COM1 then uartintr (com1_data io) s
      else if n = T_IRQ0 + 7 \<or> n = T_IRQ0 + IRQ_SPURIOUS then spurious f s
      else unexpected f (cr2 io) s)"

definition must_exit :: "trapframe \<Rightarrow> kernel \<Rightarrow> bool" where
  "must_exit f s = (case curproc s of None \<Rightarrow> False | Some p \<Rightarrow> killed (procs s p) \<noteq> 0 \<and> t_cs f AND 3 = DPL_USER)"

text \<open>The check at the end; after a \<open>yield\<close> the process continues with it.\<close>

definition trap_last :: "trapframe \<Rightarrow> trap_end K" where
  "trap_last f s = (if must_exit f s then exits s else Done (Returns, s))"

definition trap_resume :: "bool \<Rightarrow> trapframe \<Rightarrow> trap_end K" where
  "trap_resume i f s = kbind (yield_resume i s) (trap_last f)"

definition trap :: "u32 \<Rightarrow> u32 \<Rightarrow> trapframe \<Rightarrow> devices \<Rightarrow> trap_end K" where
  "trap node a f io s =
     (if t_trapno f = T_SYSCALL then
        kbind (the_proc s) (\<lambda>p.
        if killed (procs s p) \<noteq> 0 then exits s
        else
          kbind (syscall node (upd_proc p (\<lambda>q. q\<lparr>tf_addr := a, tf := f\<rparr>) s)) (\<lambda>s.
          if killed (procs s p) \<noteq> 0 then exits s else Done (Returns, s)))
      else
        kbind (serve f io s) (\<lambda>s.
        if must_exit f s then exits s
        else if (case curproc s of None \<Rightarrow> False | Some p \<Rightarrow> state (procs s p) = RUNNING) \<and> t_trapno f = T_IRQ0 + IRQ_TIMER
          then kbind (yield_enter s) (\<lambda>(i, s). Done (Yields i, s))
        else trap_last f s))"

section \<open>Ticks\<close>

lemma timer_tick_eq:
  assumes "cli_ok s" and "locked (locks s Lticks) = 0" and "locked (locks s Lptable) = 0" and "me s = 0"
  shows "timer_tick s = Done ((dbg Lptable (crit Lticks s))\<lparr>ticks := ticks s + 1, procs := wake_all ChTicks (procs s)\<rparr>)"
proof -
  let ?r = "crit Lticks (s)\<lparr>ticks := ticks s + 1\<rparr>"
  have w: "wakeup ChTicks (enter Lticks (callers s) ?r) = Done (enter Lticks (callers s) ((dbg Lptable ?r)\<lparr>procs := wake_all ChTicks (procs s)\<rparr>))"
    using wakeup_enter [of ?r Lticks ChTicks "callers s"] assms by (simp add: lock_words)
  have "crit_ok Lticks (callers s) ((dbg Lptable ?r)\<lparr>procs := wake_all ChTicks (procs s)\<rparr>)"
    using crit_ok_crit [OF assms(1) refl, of Lticks] by (simp add: crit_ok_dbg)
  then show ?thesis using assms w
    by (simp add: timer_tick_def acquire_enter release_enter) (simp add: dbg_def)
qed

lemma yield_enter_eq:
  assumes "cli_ok s" and "ncli (cpus s (me s)) = 0" and "locked (locks s Lptable) = 0" and "curproc s = Some p"
  shows "yield_enter s = Done (if_flag s (me s), enter Lptable (callers s) ((crit Lptable s)\<lparr>procs := (procs s)(p := (procs s p)\<lparr>state := RUNNABLE\<rparr>)\<rparr>))"
  using assms by (simp add: yield_enter_def acquire_enter upd_proc_def sched_enter_def) (simp add: enter_def crit_def dbg_def)

lemma yield_resume_eq:
  assumes "cli_ok s" and "ncli (cpus s (me s)) = 0"
  shows "yield_resume (if_flag s (me s)) (enter Lptable (callers s) ((crit Lptable s)\<lparr>procs := P\<rparr>)) = Done ((crit Lptable s)\<lparr>procs := P\<rparr>)"
proof -
  let ?r = "(crit Lptable s)\<lparr>procs := P\<rparr>"
  have "sched_resume (if_flag s (me s)) (enter Lptable (callers s) ?r) = enter Lptable (callers s) ?r"
    using assms(2) by (auto simp: sched_resume_def upd_cpu_def enter_def crit_def dbg_def intro!: kernel.equality)
  then show ?thesis using crit_ok_crit [OF assms(1) refl, of Lptable] by (simp add: yield_resume_def release_enter)
qed

end
