(* ===== verification/Sys_Props.thy ===== *)
theory Sys_Props
  imports Sync Console_Correct Trap Sample
begin

text \<open>Properties of the system call layer: arguments, dispatch, semaphores, mutexes, condition variables, kill.\<close>

unbundle bit_operations_syntax

lemma unat_of_nat_u32: "i < 2 ^ 32 \<Longrightarrow> unat (of_nat i :: u32) = i"
  by (simp add: unat_of_nat)

section \<open>Arguments\<close>

text \<open>
  C22. A pointer argument that \<open>argptr\<close> accepts denotes a buffer inside the process: for a size that is not negative, no
  address of the buffer wraps around or lies at or above the end of the process, which itself is below the kernel.
\<close>

theorem argptr_bounds:
  assumes "curproc s = Some p" and "sz (procs s p) \<le> KERNBASE" and "0 \<le> len" and "len < 2 ^ 31" and "argptr n len s = Done (Some a)"
  shows "unat a + nat len \<le> unat (sz (procs s p)) \<and> a < sz (procs s p)
    \<and> (\<forall>i<nat len. unat (a + of_nat i) < unat (sz (procs s p)))"
proof -
  have a: "a < sz (procs s p)" "a + of_int len \<le> sz (procs s p)"
  proof -
    obtain i where "argint n s = Done (Some i)" "\<not> (i \<ge> sz (procs s p) \<or> i + of_int len > sz (procs s p))" "i = a"
      using assms(1,5) by (auto simp: argptr_def the_proc_def split: option.splits if_splits simp del: not_le not_less)
    then show "a < sz (procs s p)" "a + of_int len \<le> sz (procs s p)" by (simp_all only: de_Morgan_disj not_le not_less)
  qed
  have k: "unat (sz (procs s p)) \<le> 2 ^ 31" using assms(2) by (simp add: KERNBASE_def word_le_nat_alt)
  have "(of_int len :: u32) = of_nat (nat len)" using assms(3) by simp
  then have l: "unat (of_int len :: u32) = nat len" using unat_of_nat_u32 [of "nat len"] assms(3,4) by simp
  have au: "unat a < unat (sz (procs s p))" using a(1) by (simp only: word_less_nat_alt)
  have ln: "nat len < 2 ^ 31" using assms(3,4) by simp
  have "unat a + unat (of_int len :: u32) < 2 ^ 32" using au k l ln by simp
  from unat_add_u32 [OF this] have "unat (a + of_int len) = unat a + nat len" unfolding l .
  then have b: "unat a + nat len \<le> unat (sz (procs s p))" using a(2) by (simp add: word_le_nat_alt)
  have "unat (a + of_nat i) < unat (sz (procs s p))" if "i < nat len" for i
  proof -
    have i: "unat (of_nat i :: u32) = i" using that ln by (intro unat_of_nat_u32) simp
    have "unat a + unat (of_nat i :: u32) < 2 ^ 32" using that b k unfolding i by simp
    from unat_add_u32 [OF this] have "unat (a + of_nat i) = unat a + i" unfolding i .
    then show ?thesis using that b by simp
  qed
  then show ?thesis using a(1) b by blast
qed

lemma mem_user_words: "load32 mem_user 0x80300000 = 0x301007" "load32 mem_user 0x80301000 = 0x302007"
  by (simp_all add: mem_user_def load32_store32_other aligned_disjoint)

lemma user0_uaddr:
  "PDX va = 0 \<Longrightarrow> PTX va = 0 \<Longrightarrow> uaddr PTE_P 0x80300000 va user0 = Done (0x80302000 + (va AND 0xFFF))"
  by (simp add: uaddr_def walkpgdir_def mem_user_words PTE_P_def PTE_ADDR_def p2v_def KERNBASE_def)

lemma mem_user_zero: "mem_user 0x80302004 = 0" "mem_user 0x80302005 = 0" "mem_user 0x80302006 = 0" "mem_user 0x80302007 = 0"
  by (simp_all add: mem_user_def store32_def)

lemma user0_read: "uread 0x80300000 4 4 user0 = Done [0, 0, 0, 0]"
proof -
  have "uaddr PTE_P 0x80300000 4 user0 = Done 0x80302004" "uaddr PTE_P 0x80300000 5 user0 = Done 0x80302005"
    "uaddr PTE_P 0x80300000 6 user0 = Done 0x80302006" "uaddr PTE_P 0x80300000 7 user0 = Done 0x80302007"
    by (simp_all add: user0_uaddr PDX_def PTX_def)
  then have "uread 0x80300000 4 (Suc (Suc (Suc (Suc 0)))) user0 = Done [0, 0, 0, 0]"
    by (simp add: mem_user_zero)
  then show ?thesis by (simp add: eval_nat_numeral)
qed

theorem argptr_bounds_witness:
  "argptr 0 100 user0 = Done (Some 0) \<and> unat (0 :: u32) + nat 100 \<le> unat (sz (procs user0 1))"
proof -
  have "argptr 0 100 user0 = Done (Some 0)"
    using user0_read by (simp add: argptr_def argint_def fetchint_def the_proc_def proc_user_def proc0_def tf0_def get32_def)
  from argptr_bounds [OF _ _ _ _ this] this show ?thesis by (simp add: proc_user_def KERNBASE_def)
qed

text \<open>
  \<open>fetchstr\<close> returns the C string at a user address: the bytes before the first 0, which lies inside the process, so
  the kernel never reads past the end of the process.
\<close>

lemma fetchstr_loop_string:
  "fetchstr_loop pd a n s = Done (Some bs) \<Longrightarrow> length bs < n \<and> 0 \<notin> set bs \<and> uread pd a (length bs + 1) s = Done (bs @ [0])"
proof (induction n arbitrary: a bs)
  case (Suc n)
  obtain x where x: "uread pd a 1 s = Done [x]" and
    c: "if x = 0 then bs = [] else \<exists>cs. fetchstr_loop pd (a + 1) n s = Done (Some cs) \<and> bs = x # cs"
    using Suc.prems by (auto split: if_splits)
  show ?case
  proof (cases "x = 0")
    case True
    then show ?thesis using x c by simp
  next
    case False
    then obtain cs where "fetchstr_loop pd (a + 1) n s = Done (Some cs)" "bs = x # cs" using c by auto
    then show ?thesis using Suc.IH [of "a + 1" cs] x False by auto
  qed
qed simp

theorem fetchstr_string:
  assumes "curproc s = Some p" and "fetchstr a s = Done (Some bs)"
  shows "0 \<notin> set bs \<and> uread (pgdir (procs s p)) a (length bs + 1) s = Done (bs @ [0])
    \<and> unat a + length bs < unat (sz (procs s p))"
proof -
  have lt: "\<not> a \<ge> sz (procs s p)" and l: "fetchstr_loop (pgdir (procs s p)) a (unat (sz (procs s p) - a)) s = Done (Some bs)"
    using assms by (auto simp: fetchstr_def the_proc_def split: if_splits simp del: not_le)
  have le: "a \<le> sz (procs s p)" using lt by (simp only: not_le less_imp_le)
  have "unat (sz (procs s p) - a) = unat (sz (procs s p)) - unat a" using le by (simp only: unat_sub_if' word_le_nat_alt if_True)
  then show ?thesis using fetchstr_loop_string [OF l] by linarith
qed

theorem fetchstr_string_witness: "fetchstr 4 user0 = Done (Some []) \<and> unat (4 :: u32) + 0 < unat (sz (procs user0 1))"
proof -
  have "uaddr PTE_P 0x80300000 4 user0 = Done 0x80302004" by (simp add: user0_uaddr PDX_def PTX_def)
  then have "fetchstr_loop 0x80300000 4 (Suc n) user0 = Done (Some [])" for n by (simp add: mem_user_zero)
  from this [of 4091] have "fetchstr 4 user0 = Done (Some [])"
    by (simp add: fetchstr_def the_proc_def proc_user_def)
  then show ?thesis using fetchstr_string [of user0 1 4 "[]"] by (simp add: proc_user_def)
qed

section \<open>Dispatch\<close>

text \<open>
  A system call number outside the table is refused: the message with pid, name and number is printed, the process gets
  -1 in eax, and nothing else of the process table changes.
\<close>

definition unknown_call :: "char list" where
  "unknown_call = ''%d %s: unknown sys call %d'' @ [CHR 10]"

theorem syscall_unknown:
  assumes "cli_ok s" and "locked (locks s Lcons) = 0" and "cons_ok (cons s)" and "curproc s = Some p"
    and "\<not> (0 < sint (t_eax (tf (procs s p))) \<and> sint (t_eax (tf (procs s p))) < 38)"
  shows "\<exists>t out. syscall node s = Done t \<and> t_eax (tf (procs t p)) = -1 \<and> (\<forall>q. q \<noteq> p \<longrightarrow> procs t q = procs s q)
    \<and> render unknown_call [Word (of_int (pid (procs s p))), Text (Some (cstring (pname (procs s p)))), Word (t_eax (tf (procs s p)))] = Some out
    \<and> uart (cons t) = uart (cons s) @ map of_char out"
proof -
  let ?as = "[Word (of_int (pid (procs s p))), Text (Some (cstring (pname (procs s p)))), Word (t_eax (tf (procs s p)))]"
  obtain out where out: "render unknown_call ?as = Some out" by (simp add: unknown_call_def)
  obtain x where x: "cprintf unknown_call ?as s = Done ((if locking (cons s) then crit Lcons s else s)\<lparr>cons := x\<rparr>)"
    "uart x = uart (cons s) @ map of_char out"
    using cprintf_printed [OF assms(1-3) out] by (auto simp: printed_def split: if_splits)
  have len: "length (syscalls node) = 38" by (simp add: syscalls_def)
  have c: "(sint (t_eax (tf (procs s p))) > 0 \<and> sint (t_eax (tf (procs s p))) < int (length (syscalls node))) = False"
    using assms(5) by (simp add: len)
  have "syscall node s = Done (set_eax p (-1) ((if locking (cons s) then crit Lcons s else s)\<lparr>cons := x\<rparr>))"
    using x(1) assms(4) by (simp add: syscall_def the_proc_def Let_def c unknown_call_def del: len)
  then show ?thesis using x(2) out by (auto simp: set_eax_def upd_proc_def)
qed

theorem syscall_unknown_witness: "\<exists>t. syscall 0 user0 = Done t \<and> t_eax (tf (procs t 1)) = -1"
  using syscall_unknown [of user0 1 0] by (auto simp: proc_user_def proc0_def tf0_def console0_def cons_ok_def)

section \<open>Traps\<close>

text \<open>
  C23. A timer interrupt on the first CPU takes the CPU away from the running process: the tick is counted, every
  process that sleeps until a tick becomes runnable, the running process becomes runnable and the CPU goes to the scheduler
  with the process table locked; no other process changes. When the process is resumed and has not been killed, the trap returns.
\<close>

theorem timer_preempts:
  assumes "cli_ok s" and "ncli (cpus s (me s)) = 0" and "locked (locks s Lticks) = 0" and "locked (locks s Lptable) = 0" and "me s = 0"
    and "curproc s = Some p" and "state (procs s p) = RUNNING" and "killed (procs s p) = 0" and "t_trapno f = 32"
  shows "\<exists>i t. trap node a f io s = Done (Yields i, t) \<and> ticks t = ticks s + 1 \<and> holding Lptable t
    \<and> procs t p = (procs s p)\<lparr>state := RUNNABLE\<rparr>
    \<and> (\<forall>q<NPROC. state (procs s q) = SLEEPING \<and> pchan (procs s q) = Some ChTicks \<longrightarrow> procs t q = (procs s q)\<lparr>state := RUNNABLE\<rparr>)
    \<and> (\<forall>q. q \<noteq> p \<and> \<not> (state (procs s q) = SLEEPING \<and> pchan (procs s q) = Some ChTicks) \<longrightarrow> procs t q = procs s q)
    \<and> (\<exists>u. trap_resume i f (t\<lparr>procs := (procs t)(p := (procs t p)\<lparr>state := RUNNING\<rparr>)\<rparr>) = Done (Returns, u) \<and> locked (locks u Lptable) = 0)"
proof -
  let ?P = "wake_all ChTicks (procs s)"
  let ?s = "(dbg Lptable (crit Lticks s))\<lparr>ticks := ticks s + 1, procs := ?P\<rparr>"
  let ?Q = "?P(p := (procs s p)\<lparr>state := RUNNABLE\<rparr>)"
  let ?t = "enter Lptable (callers ?s) ((crit Lptable ?s)\<lparr>procs := ?Q\<rparr>)"
  have p: "?P p = procs s p" using assms(7) by (simp add: wake_all_def woken_def)
  have s: "cli_ok ?s" "ncli (cpus ?s (me ?s)) = 0" "locked (locks ?s Lptable) = 0" "curproc ?s = Some p"
    using assms(1,2,4,6) by (simp_all add: lock_words)
  have "serve f io s = Done ?s" using timer_tick_eq [OF assms(1,3,4,5)] assms(9) by (simp add: serve_def trap_defs)
  moreover have "must_exit f ?s = False" using s(4) assms(8) p by (simp add: must_exit_def)
  moreover have "yield_enter ?s = Done (if_flag ?s (me ?s), ?t)" using yield_enter_eq [OF s] p by simp
  ultimately have T: "trap node a f io s = Done (Yields (if_flag ?s (me ?s)), ?t)"
    using assms(7,9) s(4) p by (simp add: trap_def trap_defs)
  let ?R = "?Q(p := (?Q p)\<lparr>state := RUNNING\<rparr>)"
  have "yield_resume (if_flag ?s (me ?s)) (enter Lptable (callers ?s) ((crit Lptable ?s)\<lparr>procs := ?R\<rparr>)) = Done ((crit Lptable ?s)\<lparr>procs := ?R\<rparr>)"
    by (rule yield_resume_eq [OF s(1,2)])
  moreover have "must_exit f ((crit Lptable ?s)\<lparr>procs := ?R\<rparr>) = False" using s(4) assms(8) by (simp add: must_exit_def)
  ultimately have "trap_resume (if_flag ?s (me ?s)) f (?t\<lparr>procs := (procs ?t)(p := (procs ?t p)\<lparr>state := RUNNING\<rparr>)\<rparr>)
      = Done (Returns, (crit Lptable ?s)\<lparr>procs := ?R\<rparr>)"
    by (simp add: trap_resume_def trap_last_def)
  moreover have "locked (locks ((crit Lptable ?s)\<lparr>procs := ?R\<rparr>) Lptable) = 0" by (simp add: lock_words)
  moreover have "\<forall>q<NPROC. state (procs s q) = SLEEPING \<and> pchan (procs s q) = Some ChTicks \<longrightarrow> procs ?t q = (procs s q)\<lparr>state := RUNNABLE\<rparr>"
    using assms(7) by (auto simp: wake_all_def woken_def)
  moreover have "\<forall>q. q \<noteq> p \<and> \<not> (state (procs s q) = SLEEPING \<and> pchan (procs s q) = Some ChTicks) \<longrightarrow> procs ?t q = procs s q"
    by (auto simp: wake_all_def woken_def)
  moreover have "ticks ?t = ticks s + 1 \<and> holding Lptable ?t \<and> procs ?t p = (procs s p)\<lparr>state := RUNNABLE\<rparr>" by simp
  ultimately show ?thesis using T by blast
qed

theorem timer_preempts_witness:
  "\<exists>i t. trap 0 0 (tf0\<lparr>t_trapno := 32, t_cs := 27\<rparr>) \<lparr>kbd_data = [], com1_data = [], cr2 = 0\<rparr>
     (user0\<lparr>procs := (procs user0)(1 := (procs user0 1)\<lparr>state := RUNNING\<rparr>, 2 := proc0\<lparr>state := SLEEPING, pchan := Some ChTicks\<rparr>)\<rparr>)
     = Done (Yields i, t) \<and> state (procs t 1) = RUNNABLE \<and> state (procs t 2) = RUNNABLE \<and> ticks t = 1"
proof -
  let ?s = "user0\<lparr>procs := (procs user0)(1 := (procs user0 1)\<lparr>state := RUNNING\<rparr>, 2 := proc0\<lparr>state := SLEEPING, pchan := Some ChTicks\<rparr>)\<rparr>"
  have "cli_ok ?s" "ncli (cpus ?s (me ?s)) = 0" "locked (locks ?s Lticks) = 0" "locked (locks ?s Lptable) = 0" "me ?s = 0"
    "curproc ?s = Some 1" "state (procs ?s 1) = RUNNING" "killed (procs ?s 1) = 0"
    by (simp_all add: proc_user_def proc0_def)
  moreover have "ticks ?s = 0" by (simp add: user0_def kernel0_def)
  ultimately show ?thesis using timer_preempts [of ?s 1 "tf0\<lparr>t_trapno := 32, t_cs := 27\<rparr>" 0 0 "\<lparr>kbd_data = [], com1_data = [], cr2 = 0\<rparr>"]
    by (fastforce simp: NPROC_def)
qed

section \<open>Semaphores and mutexes\<close>

text \<open>
  C25. A semaphore counts: in every interleaving of the single steps of processes that use it, its value, a 32-bit int, is the initial
  value plus the ups minus the downs, modulo \<open>2 ^ 32\<close>; there are never more downs than the initial value and the ups allow; and as
  long as that number is below \<open>2 ^ 31\<close> it is the value itself, which is thus not negative. At most one process is between taking
  and releasing the spin lock. The steps, run without interruption, are \<open>sema_down\<close> and \<open>sema_up\<close>.
\<close>

theorem semaphore_counts:
  assumes "(sema_step sp)\<^sup>*\<^sup>* (s, \<lambda>_. S_idle, 0, 0) (t, ctl, u, d)" and "0 \<le> sint (svalue s sp)"
  shows "svalue t sp = of_int (sint (svalue s sp) + int u - int d) \<and> int d \<le> sint (svalue s sp) + int u
    \<and> (sint (svalue s sp) + int u - int d < 2 ^ 31 \<longrightarrow> sint (svalue t sp) = sint (svalue s sp) + int u - int d)
    \<and> (\<forall>p q. sema_inside (ctl p) \<and> sema_inside (ctl q) \<longrightarrow> p = q)
    \<and> sema_down sp r = sema_run sp D_acquire r \<and> sema_down_resume i sp r = sema_run sp (D_asleep i) r
    \<and> kbind (sema_up sp r) (\<lambda>(e, s). Done (Ret e, s)) = sema_run sp U_acquire r"
proof -
  let ?n = "sint (svalue s sp) + int u - int d"
  have "sema_inv sp (sint (svalue s sp)) (s, \<lambda>_. S_idle, 0, 0)" using assms(2) by (simp add: sema_inv_def only_one_def)
  from sema_inv_reach [OF assms(1) this] have I: "svalue t sp = of_int ?n" "int d \<le> sint (svalue s sp) + int u" "only_one sema_inside (Lat sp) ctl t"
    unfolding sema_inv_def prod.case by blast+
  have "sint (svalue t sp) = ?n" if "?n < 2 ^ 31" unfolding I(1) using that I(2) by (intro sint_of_int) (simp_all add: int_ok_def)
  then show ?thesis using I sema_code unfolding only_one_def by blast
qed

text \<open>
  In the witness the value is 2 and two processes call: while the first one is inside, before its store, the second one starts its
  call too; it cannot get in.
\<close>

theorem semaphore_counts_witness:
  "\<exists>t. (sema_step 4096)\<^sup>*\<^sup>* (kernel0\<lparr>svalue := (\<lambda>_. 2)\<rparr>, \<lambda>_. S_idle, 0, 0) (t, (\<lambda>_. S_idle)(0 := D_release, 1 := U_acquire), 0, 1)
    \<and> sint (svalue t 4096) = 1"
proof -
  let ?s = "kernel0\<lparr>svalue := (\<lambda>_. 2)\<rparr>" and ?i = "\<lambda>_ :: nat. S_idle"
  let ?e = "enter (Lat 4096) (callers ?s) (crit (Lat 4096) ?s)"
  let ?t = "set_value 4096 1 ?e"
  note go = sema_step.step [where sp = 4096 and p = 0]
  have "sema_step 4096 (?s, ?i, 0, 0) (?s, ?i(0 := D_acquire), 0, 0)" by (rule sema_step.call_down) simp
  moreover have "sema_step 4096 (?s, ?i(0 := D_acquire), 0, 0) (?e, ?i(0 := D_test), 0, 0)"
    using go [of "?i(0 := D_acquire)" ?s D_test ?e 0 0] by (simp add: acquire_enter)
  moreover have "sema_step 4096 (?e, ?i(0 := D_test), 0, 0) (?e, ?i(0 := D_load), 0, 0)"
    using go [of "?i(0 := D_test)" ?e D_load ?e 0 0] by simp
  moreover have "sema_step 4096 (?e, ?i(0 := D_load), 0, 0) (?e, ?i(0 := D_store 1), 0, 0)"
    using go [of "?i(0 := D_load)" ?e "D_store 1" ?e 0 0] by simp
  moreover have "sema_step 4096 (?e, ?i(0 := D_store 1), 0, 0) (?e, ?i(0 := D_store 1, 1 := U_acquire), 0, 0)"
    by (rule sema_step.call_up) simp
  moreover have "sema_step 4096 (?e, ?i(0 := D_store 1, 1 := U_acquire), 0, 0) (?t, ?i(0 := D_release, 1 := U_acquire), 0, 1)"
    using go [of "?i(0 := D_store 1, 1 := U_acquire)" ?e D_release ?t 0 0] by (simp add: fun_upd_twist)
  ultimately have R: "(sema_step 4096)\<^sup>*\<^sup>* (?s, ?i, 0, 0) (?t, ?i(0 := D_release, 1 := U_acquire), 0, 1)"
    by (meson converse_rtranclp_into_rtranclp rtranclp.rtrancl_refl)
  then show ?thesis using semaphore_counts [OF R] by auto
qed

text \<open>
  C26. A process that downs an empty semaphore is not forgotten: it sleeps on the semaphore, and the next up, in any later
  state in which it still sleeps there, makes it runnable and adds one to the value, which is then not 0 (unless it was -1), and positive
  if it was not negative and below \<open>2 ^ 31 - 1\<close>.
\<close>

theorem semaphore_handoff:
  assumes "cli_ok s" and "locked (locks s (Lat sp)) = 0" and "locked (locks s Lptable) = 0" and "svalue s sp = 0"
    and "ncli (cpus s (me s)) = 0" and "curproc s = Some c" and "c < NPROC"
  shows "\<exists>i t. sema_down sp s = Done (Sleeps i, t) \<and> state (procs t c) = SLEEPING \<and> svalue t sp = 0
    \<and> (\<forall>v. cli_ok v \<and> locked (locks v (Lat sp)) = 0 \<and> locked (locks v Lptable) = 0 \<and> procs v c = procs t c
         \<longrightarrow> (\<exists>w. sema_up sp v = Done (0, w) \<and> state (procs w c) = RUNNABLE \<and> svalue w sp = svalue v sp + 1
           \<and> (svalue v sp \<noteq> -1 \<longrightarrow> svalue w sp \<noteq> 0)
           \<and> (0 \<le> sint (svalue v sp) \<and> sint (svalue v sp) < 2 ^ 31 - 1 \<longrightarrow> 0 < sint (svalue w sp))))"
proof -
  obtain i t where t: "sema_down sp s = Done (Sleeps i, t)" "state (procs t c) = SLEEPING" "pchan (procs t c) = Some (ChAt sp)"
    using sema_down_zero [OF assms(1-6)] by blast
  have "svalue t sp = 0" using sema_down_effect(2) [OF t(1)] assms(4) by simp
  moreover have "\<exists>w. sema_up sp v = Done (0, w) \<and> state (procs w c) = RUNNABLE \<and> svalue w sp = svalue v sp + 1"
    if "cli_ok v \<and> locked (locks v (Lat sp)) = 0 \<and> locked (locks v Lptable) = 0 \<and> procs v c = procs t c" for v
    using that sema_up_eq [of v sp] t assms(7) by (auto simp: wake_all_def woken_def set_value_def)
  moreover have "x \<noteq> -1 \<longrightarrow> x + 1 \<noteq> 0" "0 \<le> sint x \<and> sint x < 2 ^ 31 - 1 \<longrightarrow> 0 < sint (x + 1)" for x :: u32
    using eq_neg_iff_add_eq_0 [of x 1] sint_succ [of x] by auto
  ultimately show ?thesis using t(1,2) by metis
qed

theorem semaphore_handoff_witness:
  "\<exists>i t. sema_down 4096 user0 = Done (Sleeps i, t) \<and> state (procs t 1) = SLEEPING"
  using semaphore_handoff [of user0 4096 1] by (auto simp: NPROC_def)



section \<open>Two defects\<close>

text \<open>
  C28. \<open>cond_wait\<close> can lose a wakeup: it releases the mutex before it sleeps, so a process that signals in between takes the
  waiter off the list while it is not sleeping yet; the waiter then sleeps, the list is empty, and no later signal on
  this condition variable changes anything.
\<close>

theorem cond_wait_lost_wakeup:
  assumes "cli_ok s" and "ncli (cpus s (me s)) = 0" and "\<forall>lk. locked (locks s lk) = 0" and "dll (links s) cv []"
    and "node \<notin> set (nodes cv [])" and "node \<noteq> 0" and "node + 8 \<noteq> m" and "curproc s = Some c" and "c < NPROC"
    and "state (procs s c) = RUNNING"
  shows "\<exists>s1 s2 i s3. cond_wait_begin node cv m s = Done s1 \<and> cond_signal cv s1 = Done s2 \<and> cond_wait_sleep node s2 = Done (i, s3)
    \<and> state (procs s3 c) = SLEEPING \<and> pchan (procs s3 c) = Some (ChLockAt node)
    \<and> (\<forall>v. links v = links s3 \<longrightarrow> cond_signal cv v = Done v)"
proof -
  obtain s1 where s1: "cond_wait_begin node cv m s = Done s1" "dll (links s1) cv [node]" "cli_ok s1" "me s1 = me s"
    "locked (locks s1 Lptable) = 0" "locked (locks s1 (Lat (node + 8))) = 0"
    "\<forall>d. cproc (cpus s1 d) = cproc (cpus s d)" "\<forall>d. ncli (cpus s1 d) = ncli (cpus s d)" "procs s1 = wake_all (ChAt m) (procs s)"
    using cond_wait_begin_ok [OF assms(1) _ _ assms(4-7)] assms(3) by auto
  obtain h where h: "cond_signal cv s1 = Done ((dbg Lptable (crit (Lat (node + 8)) (s1\<lparr>links := h\<rparr>)))\<lparr>procs := wake_all (ChLockAt node) (procs s1)\<rparr>)"
    (is "_ = Done ?s2") "dll h cv []"
    using cond_signal_pop [OF s1(3,5,2,6)] by blast
  have "cli_ok ?s2" "ncli (cpus ?s2 (me ?s2)) = 0" "locked (locks ?s2 Lptable) = 0" "locked (locks ?s2 (Lat (node + 8))) = 0"
    "curproc ?s2 = Some c" "links ?s2 = h"
    using s1 assms(2,8) by (simp_all add: lock_words)
  then obtain i s3 where s3: "cond_wait_sleep node ?s2 = Done (i, s3)" "links s3 = h"
    "procs s3 = (procs ?s2)(c := (procs ?s2 c)\<lparr>pchan := Some (ChLockAt node), state := SLEEPING\<rparr>)"
    using cond_wait_sleep_ok [of ?s2 node c] by auto
  have "cond_signal cv v = Done v" if "links v = links s3" for v
    using that s3(2) h(2) by (simp add: cond_signal_empty)
  then show ?thesis using s1(1) h(1) s3 by auto
qed

theorem cond_wait_lost_wakeup_witness:
  "\<exists>s1 s2 i s3. cond_wait_begin 1000 100 4096 (user0\<lparr>links := (\<lambda>_. \<lparr>prv = 0, nxt = 0\<rparr>)(100 := \<lparr>prv = 0, nxt = 108\<rparr>, 108 := \<lparr>prv = 100, nxt = 0\<rparr>)\<rparr>) = Done s1
     \<and> cond_signal 100 s1 = Done s2 \<and> cond_wait_sleep 1000 s2 = Done (i, s3) \<and> state (procs s3 1) = SLEEPING"
proof -
  let ?s = "user0\<lparr>links := (\<lambda>_. \<lparr>prv = 0, nxt = 0\<rparr>)(100 := \<lparr>prv = 0, nxt = 108\<rparr>, 108 := \<lparr>prv = 100, nxt = 0\<rparr>)\<rparr>"
  have "dll (links ?s) 100 []" by (simp add: dll_def nodes_def list_head_addr_def list_tail_addr_def)
  then show ?thesis
    using cond_wait_lost_wakeup [of ?s 100 1000 4096 1]
    by (auto simp: nodes_def list_head_addr_def list_tail_addr_def NPROC_def proc_user_def)
qed

text \<open>
  C29. \<open>kill(0)\<close> succeeds although no process has the number 0: it finds an unused slot of the table, marks it killed, and
  \<open>allocproc\<close>, which does not clear the mark, hands the slot to the next process, which is thus killed from the start.
\<close>

lemma kalloc_procs: "kalloc s = Done (r, t) \<Longrightarrow> procs t = procs s"
  by (auto simp: kalloc_def frozen_def Let_def split: if_splits dest!: acquire_effect(1) release_effect(1))

theorem kill_zero_poisons_slot:
  assumes "cli_ok s" and "locked (locks s Lptable) = 0" and "p < NPROC" and "state (procs s p) = UNUSED" and "pid (procs s p) = 0"
    and "\<forall>q<p. pid (procs s q) \<noteq> 0 \<and> state (procs s q) \<noteq> UNUSED"
  shows "\<exists>t. kill 0 s = Done (0, t) \<and> (\<forall>r u. allocproc t = Done (Some r, u) \<longrightarrow> r = p \<and> killed (procs u r) = 1)"
proof -
  let ?r = "(crit Lptable s)\<lparr>procs := (procs s)(p := (procs s p)\<lparr>killed := 1, state := UNUSED\<rparr>)\<rparr>"
  have find: "List.find (\<lambda>q. P (f q)) [0..<NPROC] = Some p" if "P (f p)" "\<forall>q<p. \<not> P (f q)" for P and f :: "nat \<Rightarrow> proc"
    using that assms(3) by (auto simp: find_Some_iff intro!: exI [of _ p])
  have f1: "List.find (\<lambda>q. pid (procs s q) = 0) [0..<NPROC] = Some p" using assms(5,6) by (intro find) auto
  have "kill 0 s = Done (0, ?r)"
    using assms crit_ok_crit [OF assms(1) refl, of Lptable] f1
    by (simp add: kill_def acquire_enter upd_proc_def release_enter Let_def)
  moreover have "r = p \<and> killed (procs u r) = 1" if al: "allocproc ?r = Done (Some r, u)" for r u
  proof -
    have fu: "find_unused w = Some p" if "procs w = procs ?r" for w
      unfolding find_unused_def that using assms(4,6) by (intro find [of "\<lambda>q. state q = UNUSED"]) auto
    obtain w where w: "acquire Lptable ?r = Done w" using al by (auto simp: allocproc_def alloc_slot_def)
    then have "procs w = procs ?r" using acquire_effect(1) by (simp add: frozen_def)
    then show ?thesis using al w fu [of w]
      by (auto simp: allocproc_def alloc_slot_def Let_def upd_proc_def frozen_def split: if_splits dest!: release_effect(1) kalloc_procs)
  qed
  ultimately show ?thesis by blast
qed

theorem kill_zero_poisons_slot_witness:
  "\<exists>t. kill 0 kernel0 = Done (0, t) \<and> (\<forall>r u. allocproc t = Done (Some r, u) \<longrightarrow> r = 0 \<and> killed (procs u r) = 1)"
  using kill_zero_poisons_slot [of kernel0 0] by (auto simp: NPROC_def proc0_def)

end
