(* ===== verification/Block_Store.thy ===== *)
theory Block_Store
  imports Prelude
begin

text \<open>
  The interface between the log and the buffer cache: blocks are read into buffers, changed there, written
  to the disk and released. \<open>rep s d c H D\<close> says that in state \<open>s\<close> the disk contains \<open>d\<close>, the current contents are
  \<open>c\<close>, \<open>H\<close> gives the buffers of the held blocks, and \<open>D\<close> is the set of dirty blocks. At most \<open>cap\<close> blocks can be
  held or dirty at a time.
\<close>

type_synonym contents = "u32 \<Rightarrow> u8 list"

section \<open>Compound operations\<close>

definition copy_src_first where
  "copy_src_first rd dat put wr rel src dst s =
     kbind (rd src s) (\<lambda>(x, s). kbind (rd dst s) (\<lambda>(y, s). kbind (wr y (put y (dat s x) s)) (\<lambda>s. kbind (rel x s) (rel y))))"

definition copy_dst_first where
  "copy_dst_first rd dat put wr rel src dst s =
     kbind (rd dst s) (\<lambda>(y, s). kbind (rd src s) (\<lambda>(x, s). kbind (wr y (put y (dat s x) s)) (\<lambda>s. kbind (rel x s) (rel y))))"

definition update_block where
  "update_block rd dat put wr rel f n s =
     kbind (rd n s) (\<lambda>(b, s). kbind (wr b (put b (f (dat s b)) s)) (rel b))"

definition read_block where
  "read_block rd dat rel n s = kbind (rd n s) (\<lambda>(b, s). kbind (rel b s) (\<lambda>t. Done (dat s b, t)))"

text \<open>The contents after copying the blocks of a list of pairs.\<close>

definition copied :: "contents \<Rightarrow> (u32 \<times> u32) list \<Rightarrow> contents \<Rightarrow> contents" where
  "copied c ps d = fold (\<lambda>(a, b) d. d(b := c a)) ps d"

lemma copied_other: "n \<notin> snd ` set ps \<Longrightarrow> copied c ps d n = d n"
  unfolding copied_def by (induction ps arbitrary: d) auto

lemma copied_at: "distinct (map snd ps) \<Longrightarrow> k < length ps \<Longrightarrow> copied c ps d (snd (ps ! k)) = c (fst (ps ! k))"
proof (induction ps arbitrary: d k)
  case (Cons p ps)
  show ?case
  proof (cases k)
    case 0
    then show ?thesis using Cons.prems copied_other [of "snd p" ps c "d(snd p := c (fst p))"]
      by (simp add: copied_def case_prod_beta)
  next
    case (Suc j)
    then show ?thesis using Cons by (simp add: copied_def case_prod_beta)
  qed
qed simp

lemma copied_cong: "(\<And>p. p \<in> set ps \<Longrightarrow> c (fst p) = c' (fst p)) \<Longrightarrow> copied c ps d = copied c' ps d"
  unfolding copied_def by (rule fold_cong) auto

section \<open>The interface\<close>

locale block_cache =
  fixes rep :: "'s \<Rightarrow> contents \<Rightarrow> contents \<Rightarrow> (u32 \<rightharpoonup> 'b) \<Rightarrow> u32 set \<Rightarrow> bool"
    and fr :: "'s \<Rightarrow> 's \<Rightarrow> bool"
    and par :: "'s \<Rightarrow> 'p"
    and ok :: "'p \<Rightarrow> u32 \<Rightarrow> bool"
    and cap :: nat
    and rd :: "u32 \<Rightarrow> 's \<Rightarrow> ('b \<times> 's) kresult"
    and dat :: "'s \<Rightarrow> 'b \<Rightarrow> u8 list"
    and put :: "'b \<Rightarrow> u8 list \<Rightarrow> 's \<Rightarrow> 's"
    and wr :: "'b \<Rightarrow> 's \<Rightarrow> 's kresult"
    and rel :: "'b \<Rightarrow> 's \<Rightarrow> 's kresult"
  assumes rd_law: "rep s d c H D \<Longrightarrow> H n = None \<Longrightarrow> ok (par s) n \<Longrightarrow> n \<in> D \<or> card (dom H \<union> D) < cap
      \<Longrightarrow> \<exists>b t. rd n s = Done (b, t) \<and> rep t d c (H(n \<mapsto> b)) D \<and> fr s t"
    and dat_law: "rep s d c H D \<Longrightarrow> H n = Some b \<Longrightarrow> dat s b = c n \<and> length (c n) = 512"
    and put_law: "rep s d c H D \<Longrightarrow> H n = Some b \<Longrightarrow> length xs = 512 \<Longrightarrow> rep (put b xs s) d (c(n := xs)) H D \<and> fr s (put b xs s)"
    and wr_law: "rep s d c H D \<Longrightarrow> H n = Some b \<Longrightarrow> ok (par s) n \<Longrightarrow> \<exists>t. wr b s = Done t \<and> rep t (d(n := c n)) c H (D - {n}) \<and> fr s t"
    and rel_law: "rep s d c H D \<Longrightarrow> H n = Some b \<Longrightarrow> n \<in> D \<or> c n = d n \<Longrightarrow> \<exists>t. rel b s = Done t \<and> rep t d c (H(n := None)) D \<and> fr s t"
    and clean_law: "rep s d c H D \<Longrightarrow> n \<notin> D \<Longrightarrow> H n = None \<Longrightarrow> c n = d n"
    and fr_par: "fr s t \<Longrightarrow> par t = par s"
    and fr_trans: "fr s t \<Longrightarrow> fr t u \<Longrightarrow> fr s u"
    and fr_refl: "fr s s"
begin

text \<open>Copying a block, once both buffers are held.\<close>

lemma copy_held:
  assumes R: "rep s d c H D" and h: "H src = Some x" "H dst = Some y" and H: "H(src := None, dst := None) = Map.empty"
    and "src \<noteq> dst" and ok: "ok (par s) dst" and clean: "src \<in> D \<or> c src = d src"
  shows "\<exists>t. kbind (wr y (put y (dat s x) s)) (\<lambda>s. kbind (rel x s) (rel y)) = Done t
    \<and> rep t (d(dst := c src)) (c(dst := c src)) Map.empty (D - {dst}) \<and> fr s t"
proof -
  let ?u = "put y (dat s x) s"
  have u: "rep ?u d (c(dst := c src)) H D" "fr s ?u"
    using put_law [OF R h(2), of "c src"] dat_law [OF R h(1)] by metis+
  have "ok (par ?u) dst" using ok fr_par [OF u(2)] by simp
  then obtain v where v: "wr y ?u = Done v" "rep v (d(dst := (c(dst := c src)) dst)) (c(dst := c src)) H (D - {dst})" "fr ?u v"
    using wr_law [OF u(1) h(2)] by blast
  have "src \<in> D - {dst} \<or> (c(dst := c src)) src = (d(dst := (c(dst := c src)) dst)) src" using assms(5) clean by simp
  then obtain w where w: "rel x v = Done w" "rep w (d(dst := (c(dst := c src)) dst)) (c(dst := c src)) (H(src := None)) (D - {dst})" "fr v w"
    using rel_law [OF v(2) h(1)] by blast
  have "(H(src := None)) dst = Some y" using h(2) assms(5) by simp
  moreover have "(c(dst := c src)) dst = (d(dst := (c(dst := c src)) dst)) dst" by simp
  ultimately obtain t where t: "rel y w = Done t"
    "rep t (d(dst := (c(dst := c src)) dst)) (c(dst := c src)) (H(src := None, dst := None)) (D - {dst})" "fr w t"
    using rel_law [OF w(2)] by blast
  have "rep t (d(dst := c src)) (c(dst := c src)) Map.empty (D - {dst})" using t(2) unfolding H by simp
  moreover have "fr s t" using fr_trans [OF fr_trans [OF fr_trans [OF u(2) v(3)] w(3)] t(3)] .
  ultimately show ?thesis using v(1) w(1) t(1) by simp
qed

lemma read_first:
  assumes "rep s d c Map.empty D" and "ok (par s) n" and "n \<in> D \<or> card D < cap"
  shows "\<exists>b t. rd n s = Done (b, t) \<and> rep t d c [n \<mapsto> b] D \<and> fr s t"
  using rd_law [OF assms(1) _ assms(2)] assms(3) by (metis dom_empty empty_iff sup_bot_left)

lemma read_second:
  assumes "rep s d c [m \<mapsto> a] D" and "m \<noteq> n" and "ok (par s) n" and "n \<in> D \<or> card D + 2 \<le> cap"
  shows "\<exists>b t. rd n s = Done (b, t) \<and> rep t d c [m \<mapsto> a, n \<mapsto> b] D \<and> fr s t"
proof -
  have "dom [m \<mapsto> a] \<union> D = insert m D" by simp
  moreover have "card (insert m D) \<le> Suc (card D)" by (rule card_insert_le_m1) simp_all
  ultimately have "n \<in> D \<or> card (dom [m \<mapsto> a] \<union> D) < cap" using assms(4) by auto
  then show ?thesis using rd_law [OF assms(1) _ assms(3)] assms(2) by (metis fun_upd_other)
qed

lemma copy_src_first_rep:
  assumes R: "rep s d c Map.empty D" and ne: "src \<noteq> dst" and ok: "ok (par s) src" "ok (par s) dst"
    and "card D < cap" and "dst \<in> D \<or> card D + 2 \<le> cap"
  shows "\<exists>t. copy_src_first rd dat put wr rel src dst s = Done t
    \<and> rep t (d(dst := c src)) (c(dst := c src)) Map.empty (D - {dst}) \<and> fr s t"
proof -
  obtain x s1 where 1: "rd src s = Done (x, s1)" "rep s1 d c [src \<mapsto> x] D" "fr s s1"
    using read_first [OF R ok(1)] assms(5) by blast
  have ok1: "ok (par s1) dst" using ok(2) fr_par [OF 1(3)] by simp
  obtain y s2 where 2: "rd dst s1 = Done (y, s2)" "rep s2 d c [src \<mapsto> x, dst \<mapsto> y] D" "fr s1 s2"
    using read_second [OF 1(2) ne ok1 assms(6)] by blast
  have ok2: "ok (par s2) dst" using ok1 fr_par [OF 2(3)] by simp
  have "[src \<mapsto> x, dst \<mapsto> y] src = Some x" "[src \<mapsto> x, dst \<mapsto> y] dst = Some y" "[src \<mapsto> x, dst \<mapsto> y](src := None, dst := None) = Map.empty"
    using ne by auto
  then obtain t where t: "kbind (wr y (put y (dat s2 x) s2)) (\<lambda>s. kbind (rel x s) (rel y)) = Done t"
    "rep t (d(dst := c src)) (c(dst := c src)) Map.empty (D - {dst})" "fr s2 t"
    using copy_held [OF 2(2) _ _ _ ne ok2] clean_law [OF R, of src] by blast
  have "fr s t" using fr_trans [OF fr_trans [OF 1(3) 2(3)] t(3)] .
  moreover have "copy_src_first rd dat put wr rel src dst s = Done t" using 1(1) 2(1) t(1) by (simp add: copy_src_first_def)
  ultimately show ?thesis using t(2) by blast
qed

lemma copy_dst_first_rep:
  assumes R: "rep s d c Map.empty D" and ne: "src \<noteq> dst" and ok: "ok (par s) src" "ok (par s) dst"
    and "card D < cap" and "src \<in> D \<or> card D + 2 \<le> cap"
  shows "\<exists>t. copy_dst_first rd dat put wr rel src dst s = Done t
    \<and> rep t (d(dst := c src)) (c(dst := c src)) Map.empty (D - {dst}) \<and> fr s t"
proof -
  obtain y s1 where 1: "rd dst s = Done (y, s1)" "rep s1 d c [dst \<mapsto> y] D" "fr s s1"
    using read_first [OF R ok(2)] assms(5) by blast
  have ok1: "ok (par s1) src" using ok(1) fr_par [OF 1(3)] by simp
  obtain x s2 where 2: "rd src s1 = Done (x, s2)" "rep s2 d c [dst \<mapsto> y, src \<mapsto> x] D" "fr s1 s2"
    using read_second [OF 1(2) ne [symmetric] ok1 assms(6)] by blast
  have ok2: "ok (par s2) dst" using ok(2) fr_par [OF 1(3)] fr_par [OF 2(3)] by simp
  have "[dst \<mapsto> y, src \<mapsto> x] src = Some x" "[dst \<mapsto> y, src \<mapsto> x] dst = Some y" "[dst \<mapsto> y, src \<mapsto> x](src := None, dst := None) = Map.empty"
    using ne by auto
  then obtain t where t: "kbind (wr y (put y (dat s2 x) s2)) (\<lambda>s. kbind (rel x s) (rel y)) = Done t"
    "rep t (d(dst := c src)) (c(dst := c src)) Map.empty (D - {dst})" "fr s2 t"
    using copy_held [OF 2(2) _ _ _ ne ok2] clean_law [OF R, of src] by blast
  have "fr s t" using fr_trans [OF fr_trans [OF 1(3) 2(3)] t(3)] .
  moreover have "copy_dst_first rd dat put wr rel src dst s = Done t" using 1(1) 2(1) t(1) by (simp add: copy_dst_first_def)
  ultimately show ?thesis using t(2) by blast
qed

lemma update_block_rep:
  assumes R: "rep s d c Map.empty D" and ok: "ok (par s) n" and "n \<in> D \<or> card D < cap" and len: "length (f (c n)) = 512"
  shows "\<exists>t. update_block rd dat put wr rel f n s = Done t \<and> rep t (d(n := f (c n))) (c(n := f (c n))) Map.empty (D - {n}) \<and> fr s t"
proof -
  obtain b s1 where 1: "rd n s = Done (b, s1)" "rep s1 d c [n \<mapsto> b] D" "fr s s1"
    using read_first [OF R ok assms(3)] by blast
  have h: "[n \<mapsto> b] n = Some b" and h0: "[n \<mapsto> b](n := None) = Map.empty" by auto
  note dt = dat_law [OF 1(2) h]
  let ?x = "f (c n)"
  let ?u = "put b ?x s1"
  have 2: "rep ?u d (c(n := ?x)) [n \<mapsto> b] D" "fr s1 ?u" using put_law [OF 1(2) h len] by blast+
  have "ok (par ?u) n" using ok fr_par [OF 1(3)] fr_par [OF 2(2)] by simp
  then obtain s3 where 3: "wr b ?u = Done s3" "rep s3 (d(n := (c(n := ?x)) n)) (c(n := ?x)) [n \<mapsto> b] (D - {n})" "fr ?u s3"
    using wr_law [OF 2(1) h] by blast
  have "(c(n := ?x)) n = (d(n := (c(n := ?x)) n)) n" by simp
  then obtain t where 4: "rel b s3 = Done t" "rep t (d(n := (c(n := ?x)) n)) (c(n := ?x)) ([n \<mapsto> b](n := None)) (D - {n})" "fr s3 t"
    using rel_law [OF 3(2) h] by blast
  have "rep t (d(n := ?x)) (c(n := ?x)) Map.empty (D - {n})" using 4(2) unfolding h0 by simp
  moreover have "fr s t" using fr_trans [OF fr_trans [OF fr_trans [OF 1(3) 2(2)] 3(3)] 4(3)] .
  ultimately show ?thesis using 1(1) 3(1) 4(1) dt by (simp add: update_block_def)
qed

lemma read_block_rep:
  assumes R: "rep s d c Map.empty D" and ok: "ok (par s) n" and "n \<in> D \<or> card D < cap"
  shows "\<exists>t. read_block rd dat rel n s = Done (c n, t) \<and> rep t d c Map.empty D \<and> fr s t"
proof -
  obtain b s1 where 1: "rd n s = Done (b, s1)" "rep s1 d c [n \<mapsto> b] D" "fr s s1"
    using read_first [OF R ok assms(3)] by blast
  have h: "[n \<mapsto> b] n = Some b" and h0: "[n \<mapsto> b](n := None) = Map.empty" by auto
  have "n \<in> D \<or> c n = d n" using clean_law [OF R, of n] by auto
  then obtain t where 4: "rel b s1 = Done t" "rep t d c ([n \<mapsto> b](n := None)) D" "fr s1 t"
    using rel_law [OF 1(2) h] by blast
  have "rep t d c Map.empty D" using 4(2) unfolding h0 .
  moreover have "fr s t" using fr_trans [OF 1(3) 4(3)] .
  ultimately show ?thesis using 1(1) 4(1) dat_law [OF 1(2) h] by (simp add: read_block_def)
qed

text \<open>
  Copying a list of pairs of blocks, step by step: every step is a copy on the contents reached so far, and no
  source is also a target.
\<close>

lemma copies_rep:
  assumes R: "rep s d c Map.empty D" and dis: "distinct (map snd ps)" "fst ` set ps \<inter> snd ` set ps = {}"
    and step: "\<And>k s' d' c'. k < length ps \<Longrightarrow> rep s' d' c' Map.empty (D - snd ` set (take k ps)) \<Longrightarrow> fr s s' \<Longrightarrow>
      \<exists>t. f k s' = Done t \<and> rep t (d'(snd (ps ! k) := c' (fst (ps ! k)))) (c'(snd (ps ! k) := c' (fst (ps ! k)))) Map.empty
        (D - snd ` set (take k ps) - {snd (ps ! k)}) \<and> fr s' t"
  shows "k \<le> length ps \<Longrightarrow> \<exists>t. kfold f [0..<k] s = Done t
    \<and> rep t (copied c (take k ps) d) (copied c (take k ps) c) Map.empty (D - snd ` set (take k ps)) \<and> fr s t"
proof (induction k)
  case 0
  then show ?case using R fr_refl by (simp add: copied_def)
next
  case (Suc k)
  then have k: "k < length ps" by simp
  let ?qs = "take k ps"
  obtain u where u: "kfold f [0..<k] s = Done u" "rep u (copied c ?qs d) (copied c ?qs c) Map.empty (D - snd ` set ?qs)" "fr s u"
    using Suc by auto
  obtain t where t: "f k u = Done t" "rep t ((copied c ?qs d)(snd (ps ! k) := copied c ?qs c (fst (ps ! k))))
      ((copied c ?qs c)(snd (ps ! k) := copied c ?qs c (fst (ps ! k)))) Map.empty (D - snd ` set ?qs - {snd (ps ! k)})" "fr u t"
    using step [OF k u(2,3)] by blast
  have "fst (ps ! k) \<in> fst ` set ps" "snd ` set ?qs \<subseteq> snd ` set ps" using k set_take_subset [of k ps] by auto
  then have "copied c ?qs c (fst (ps ! k)) = c (fst (ps ! k))" using dis(2) by (intro copied_other) blast
  moreover have tk: "take (Suc k) ps = ?qs @ [ps ! k]" using k by (simp add: take_Suc_conv_app_nth)
  then have "copied c (take (Suc k) ps) e = (copied c ?qs e)(snd (ps ! k) := c (fst (ps ! k)))" for e
    by (simp add: copied_def case_prod_beta)
  moreover have "D - snd ` set (take (Suc k) ps) = D - snd ` set ?qs - {snd (ps ! k)}" using tk by auto
  ultimately have "rep t (copied c (take (Suc k) ps) d) (copied c (take (Suc k) ps) c) Map.empty (D - snd ` set (take (Suc k) ps))"
    using t(2) by simp
  moreover have "kfold f [0..<Suc k] s = Done t" using u(1) t(1) by (simp add: kfold_append)
  ultimately show ?case using fr_trans [OF u(3) t(3)] by blast
qed

end

end
