(* ===== verification/Bio_Correct.thy ===== *)
theory Bio_Correct
  imports Bio Shm_Correct Block_Store
begin

text \<open>
  The buffer cache is a block store: \<open>bread\<close>, \<open>bwrite\<close> and \<open>brelse\<close> on the ring of buffers behave like
  reads and writes on the current contents of the blocks, with a set of held and a set of dirty blocks.
\<close>

section \<open>The ring\<close>

text \<open>\<open>lk nx pv xs\<close>: neighbours in the list are neighbours by \<open>next\<close> and \<open>prev\<close>.\<close>

fun lk :: "(nat \<Rightarrow> nat) \<Rightarrow> (nat \<Rightarrow> nat) \<Rightarrow> nat list \<Rightarrow> bool" where
  "lk nx pv (x # y # zs) \<longleftrightarrow> nx x = y \<and> pv y = x \<and> lk nx pv (y # zs)"
| "lk nx pv _ \<longleftrightarrow> True"

abbreviation nexts :: "(nat \<Rightarrow> buf) \<Rightarrow> nat \<Rightarrow> nat" where "nexts B \<equiv> \<lambda>i. bnext (B i)"
abbreviation prevs :: "(nat \<Rightarrow> buf) \<Rightarrow> nat \<Rightarrow> nat" where "prevs B \<equiv> \<lambda>i. bprev (B i)"

definition ring_ok :: "(nat \<Rightarrow> nat) \<Rightarrow> (nat \<Rightarrow> nat) \<Rightarrow> nat list \<Rightarrow> bool" where
  "ring_ok nx pv xs \<longleftrightarrow> lk nx pv (NBUF # xs @ [NBUF]) \<and> distinct xs \<and> set xs = {..<NBUF}"

lemma lk_append: "lk nx pv (xs @ y # ys) \<longleftrightarrow> lk nx pv (xs @ [y]) \<and> lk nx pv (y # ys)"
proof (induction xs)
  case (Cons x xs)
  then show ?case by (cases xs) auto
qed simp

lemma lk_upd:
  "lk nx pv xs \<Longrightarrow> (\<And>x. x \<in> set (butlast xs) \<Longrightarrow> nx' x = nx x) \<Longrightarrow> (\<And>x. x \<in> set (tl xs) \<Longrightarrow> pv' x = pv x) \<Longrightarrow> lk nx' pv' xs"
proof (induction nx pv xs rule: lk.induct)
  case (1 nx pv x y zs)
  have "lk nx' pv' (y # zs)" using 1 by (intro "1.IH") (auto simp: in_set_tlD dest: in_set_butlastD)
  then show ?case using 1 by auto
qed auto

lemma lk_unlink:
  assumes "lk nx pv (us @ p # b # n # vs)" and "distinct (us @ [p, b])" and "distinct (b # n # vs)"
    and "p \<notin> set (butlast (n # vs))" and "n \<notin> set (tl (us @ [p]))"
  shows "lk (nx(p := n)) (pv(n := p)) (us @ p # n # vs)"
proof -
  have l: "lk nx pv (us @ [p])" "lk nx pv (n # vs)" using assms(1) lk_append [of nx pv us p "b # n # vs"] by simp_all
  have pu: "p \<notin> set us" using assms(2) by simp
  have nv: "n \<notin> set vs" using assms(3) by simp
  have "lk (nx(p := n)) (pv(n := p)) (us @ [p])"
  proof (rule lk_upd [OF l(1)])
    fix x
    show "x \<in> set (butlast (us @ [p])) \<Longrightarrow> (nx(p := n)) x = nx x" using pu by (metis butlast_snoc fun_upd_other)
    show "x \<in> set (tl (us @ [p])) \<Longrightarrow> (pv(n := p)) x = pv x" using assms(5) by (metis fun_upd_other)
  qed
  moreover have "lk (nx(p := n)) (pv(n := p)) (n # vs)"
  proof (rule lk_upd [OF l(2)])
    fix x
    show "x \<in> set (butlast (n # vs)) \<Longrightarrow> (nx(p := n)) x = nx x" using assms(4) by (metis fun_upd_other)
    show "x \<in> set (tl (n # vs)) \<Longrightarrow> (pv(n := p)) x = pv x" using nv by (metis fun_upd_other list.sel(3))
  qed
  ultimately show ?thesis using lk_append [of _ _ us p "n # vs"] by simp
qed

lemma lk_push:
  assumes "lk nx pv (a # f # vs)" and "b \<noteq> a" and "b \<notin> set (f # vs)" and "a \<notin> set (butlast (f # vs))" and "distinct (f # vs)"
  shows "lk (nx(b := f, a := b)) (pv(b := a, f := b)) (a # b # f # vs)"
proof -
  have "lk nx pv (f # vs)" using assms(1) by simp
  then have "lk (nx(b := f, a := b)) (pv(b := a, f := b)) (f # vs)"
  proof (rule lk_upd)
    fix x
    assume x: "x \<in> set (butlast (f # vs))"
    then have "x \<noteq> b" "x \<noteq> a" using assms(3,4) in_set_butlastD [OF x] by blast+
    then show "(nx(b := f, a := b)) x = nx x" by simp
  next
    fix x
    assume "x \<in> set (tl (f # vs))"
    then have "x \<noteq> b" "x \<noteq> f" using assms(3,5) by auto
    then show "(pv(b := a, f := b)) x = pv x" by simp
  qed
  moreover have "f \<noteq> b" using assms(3) by auto
  ultimately show ?thesis using assms(2) by simp
qed

text \<open>Walking along the ring finds what a search of the list finds.\<close>

lemma walk_next:
  "lk nx pv (a # xs @ [z]) \<Longrightarrow> z \<notin> set xs \<Longrightarrow> kloop (\<lambda>b. b \<noteq> z) (\<lambda>b. if P b then Done (Inr b) else Done (Inl (nx b))) (nx a)
     = (case List.find P xs of Some b \<Rightarrow> Done (Inr b) | None \<Rightarrow> Done (Inl z))"
proof (induction xs arbitrary: a)
  case Nil
  then show ?case by (subst kloop_unfold) simp
next
  case (Cons x xs)
  have "nx a = x" "lk nx pv (x # xs @ [z])" using Cons.prems by auto
  then show ?case using Cons by (subst kloop_unfold) auto
qed

lemma lk_rev: "lk nx pv (xs :: nat list) \<Longrightarrow> lk pv nx (rev xs)"
proof (induction nx pv xs rule: lk.induct)
  case (1 nx pv x y zs)
  then show ?case using lk_append [of pv nx "rev zs" y "[x]"] by simp
qed auto

lemma ring_walks:
  assumes "ring_ok nx pv xs"
  shows "kloop (\<lambda>b. b \<noteq> NBUF) (\<lambda>b. if P b then Done (Inr b) else Done (Inl (nx b))) (nx NBUF)
     = (case List.find P xs of Some b \<Rightarrow> Done (Inr b) | None \<Rightarrow> Done (Inl NBUF))"
    and "kloop (\<lambda>b. b \<noteq> NBUF) (\<lambda>b. if P b then Done (Inr b) else Done (Inl (pv b))) (pv NBUF)
     = (case List.find P (rev xs) of Some b \<Rightarrow> Done (Inr b) | None \<Rightarrow> Done (Inl NBUF))"
  using assms walk_next [of nx pv NBUF xs NBUF P] lk_rev [of nx pv "NBUF # xs @ [NBUF]"] walk_next [of pv nx NBUF "rev xs" NBUF P]
  by (auto simp: ring_ok_def)

text \<open>The pointer moves of \<open>brelse\<close>: unlink \<open>b\<close>, then put it behind the head.\<close>

lemma ring_move:
  assumes "ring_ok nx pv (xs @ b # ys)"
  defines "nx1 \<equiv> nx(pv b := nx b)" and "pv1 \<equiv> pv(nx b := pv b)"
  shows "ring_ok (nx1(b := nx1 NBUF, NBUF := b)) (pv1(b := NBUF, nx1 NBUF := b)) (b # xs @ ys)"
proof -
  have d: "distinct (xs @ b # ys)" "set (xs @ b # ys) = {..<NBUF}" and l: "lk nx pv (NBUF # xs @ b # ys @ [NBUF])"
    using assms by (auto simp: ring_ok_def)
  have nb: "NBUF \<notin> set (xs @ b # ys)" using d(2) by auto
  obtain us p where p: "NBUF # xs = us @ [p]" by (metis rev_exhaust list.distinct(1))
  obtain n vs where n: "ys @ [NBUF] = n # vs" by (cases "ys @ [NBUF]") auto
  have l': "lk nx pv (us @ p # b # n # vs)" using l p n by (metis append.assoc append_Cons append_Nil)
  then have pb: "pv b = p" "nx b = n" using lk_append [of nx pv us p "b # n # vs"] by auto
  have dd: "distinct (us @ [p, b])" "distinct (b # n # vs)"
  proof -
    have "distinct ((NBUF # xs) @ [b])" "distinct (b # ys @ [NBUF])" using d(1) nb by auto
    then show "distinct (us @ [p, b])" "distinct (b # n # vs)" unfolding p n by simp_all
  qed
  have pn: "p \<notin> set (butlast (n # vs))" "n \<notin> set (tl (us @ [p]))"
  proof -
    have "p \<in> set (NBUF # xs)" "butlast (n # vs) = ys" unfolding p by (simp, metis n butlast_snoc)
    then show "p \<notin> set (butlast (n # vs))" using d(1) nb by auto
    have "n \<in> set (ys @ [NBUF])" "tl (us @ [p]) = xs" unfolding n by (simp, metis p list.sel(3))
    then show "n \<notin> set (tl (us @ [p]))" using d(1) nb by auto
  qed
  have l1: "lk nx1 pv1 (NBUF # xs @ ys @ [NBUF])"
    using lk_unlink [OF l' dd pn] p n unfolding nx1_def pv1_def pb by (metis append.assoc append_Cons append_Nil)
  obtain f ws where f: "xs @ ys @ [NBUF] = f # ws" by (cases "xs @ ys @ [NBUF]") auto
  have "nx1 NBUF = f" using l1 f by simp
  moreover have "lk (nx1(b := f, NBUF := b)) (pv1(b := NBUF, f := b)) (NBUF # b # f # ws)"
  proof (rule lk_push)
    show "lk nx1 pv1 (NBUF # f # ws)" using l1 f by simp
    show "b \<noteq> NBUF" using nb by auto
    have "b \<notin> set (xs @ ys @ [NBUF])" "distinct (xs @ ys @ [NBUF])" using d(1) nb by auto
    then show "b \<notin> set (f # ws)" "distinct (f # ws)" unfolding f by simp_all
    have "butlast (f # ws) = xs @ ys" by (metis f append.assoc butlast_snoc)
    then show "NBUF \<notin> set (butlast (f # ws))" using nb by auto
  qed
  ultimately show ?thesis using f d by (auto simp: ring_ok_def)
qed

section \<open>The buffers as a block store\<close>

text \<open>
  \<open>cached B n i\<close>: buffer \<open>i\<close> holds block \<open>n\<close> of the disk. \<open>buf_rep B d c H D\<close>: over the disk \<open>d\<close>, the buffers \<open>B\<close>
  represent the contents \<open>c\<close>, where the blocks of \<open>H\<close> are held (locked) in the given buffers and those of \<open>D\<close>
  are dirty, that is, pinned until they are written.
\<close>

definition cached :: "(nat \<Rightarrow> buf) \<Rightarrow> u32 \<Rightarrow> nat \<Rightarrow> bool" where
  "cached B n i \<longleftrightarrow> i < NBUF \<and> bdev (B i) = 1 \<and> blockno (B i) = n"

definition buf_rep :: "(nat \<Rightarrow> buf) \<Rightarrow> contents \<Rightarrow> contents \<Rightarrow> (u32 \<rightharpoonup> nat) \<Rightarrow> u32 set \<Rightarrow> bool" where
  "buf_rep B d c H D \<longleftrightarrow>
     (\<forall>n i j. cached B n i \<longrightarrow> cached B n j \<longrightarrow> i = j)
     \<and> (\<forall>n i. cached B n i \<longrightarrow> B_VALID (B i) \<and> bdata (B i) = c n \<and> (B_DIRTY (B i) \<longleftrightarrow> n \<in> D))
     \<and> (\<forall>n. (\<forall>i. \<not> cached B n i) \<longrightarrow> n \<notin> D)
     \<and> (\<forall>i<NBUF. B_BUSY (B i) \<longrightarrow> (\<exists>n. H n = Some i))
     \<and> (\<forall>i<NBUF. B_DIRTY (B i) \<longrightarrow> bdev (B i) = 1)
     \<and> (\<forall>n i. H n = Some i \<longrightarrow> cached B n i \<and> B_BUSY (B i))
     \<and> (\<forall>n. n \<notin> D \<longrightarrow> H n = None \<longrightarrow> c n = d n)
     \<and> (\<forall>n. length (d n) = 512 \<and> length (c n) = 512)"

lemma cached_upd:
  "cached (B(i := x)) n j \<longleftrightarrow> (if j = i then i < NBUF \<and> bdev x = 1 \<and> blockno x = n else cached B n j)"
  by (simp add: cached_def)

lemma cached_buf: "cached B n i \<Longrightarrow> i < NBUF \<and> bdev (B i) = 1 \<and> blockno (B i) = n"
  by (simp add: cached_def)

lemma buf_repD:
  assumes "buf_rep B d c H D"
  shows "cached B n i \<Longrightarrow> cached B n j \<Longrightarrow> i = j"
    and "cached B n i \<Longrightarrow> B_VALID (B i)" and "cached B n i \<Longrightarrow> bdata (B i) = c n" and "cached B n i \<Longrightarrow> B_DIRTY (B i) = (n \<in> D)"
    and "n \<in> D \<Longrightarrow> \<exists>i. cached B n i" and "i < NBUF \<Longrightarrow> B_BUSY (B i) \<Longrightarrow> \<exists>n. H n = Some i"
    and "H n = Some i \<Longrightarrow> cached B n i" and "H n = Some i \<Longrightarrow> B_BUSY (B i)"
    and "n \<notin> D \<Longrightarrow> H n = None \<Longrightarrow> c n = d n" and "length (d n) = 512" and "length (c n) = 512"
    and "i < NBUF \<Longrightarrow> B_DIRTY (B i) \<Longrightarrow> bdev (B i) = 1"
  using assms unfolding buf_rep_def by blast+

text \<open>Changing one buffer that keeps its block.\<close>

lemma buf_rep_keep:
  assumes R: "buf_rep B d c H D" and x: "cached B n i" "bdev x = 1" "blockno x = n" "B_VALID x"
    and dat: "bdata x = c' n" and dirty: "B_DIRTY x = (n \<in> D')" and busy: "B_BUSY x = (H' n = Some i)" "H' n = None \<or> H' n = Some i"
    and other: "\<And>m. m \<noteq> n \<Longrightarrow> c' m = c m \<and> d' m = d m \<and> (m \<in> D' \<longleftrightarrow> m \<in> D) \<and> H' m = H m"
    and clean: "n \<notin> D' \<Longrightarrow> H' n = None \<Longrightarrow> c' n = d' n" and len: "length (d' n) = 512" "length (c' n) = 512"
  shows "buf_rep (B(i := x)) d' c' H' D'"
proof -
  have i: "i < NBUF" using x(1) by (simp add: cached_def)
  have C: "cached (B(i := x)) m j \<longleftrightarrow> cached B m j" for m j
    using x by (auto simp: cached_def)
  have own: "m = n" if "cached B m i" for m using that x(1) by (simp add: cached_def)
  show ?thesis unfolding buf_rep_def C
  proof (intro conjI allI impI)
    fix m j k assume "cached B m j" "cached B m k"
    then show "j = k" by (rule buf_repD(1) [OF R])
  next
    fix m j assume m: "cached B m j"
    have ji: "m = n" if "j = i" using m that own by blast
    have nj: "m \<noteq> n" if "j \<noteq> i" using m that x(1) buf_repD(1) [OF R] by blast
    show "B_VALID ((B(i := x)) j)" using m x(4) buf_repD(2) [OF R m] by simp
    show "bdata ((B(i := x)) j) = c' m"
      using ji nj dat other buf_repD(3) [OF R m] by (cases "j = i") auto
    show "B_DIRTY ((B(i := x)) j) = (m \<in> D')"
      using ji nj dirty other buf_repD(4) [OF R m] by (cases "j = i") auto
  next
    fix m assume m: "\<forall>j. \<not> cached B m j"
    then have "m \<noteq> n" using x(1) by blast
    then show "m \<notin> D'" using other m buf_repD(5) [OF R] by blast
  next
    fix j assume j: "j < NBUF" "B_BUSY ((B(i := x)) j)"
    show "\<exists>m. H' m = Some j"
    proof (cases "j = i")
      case True
      then show ?thesis using j busy by auto
    next
      case False
      then obtain m where m: "H m = Some j" using j buf_repD(6) [OF R] by auto
      then have "m \<noteq> n" using False buf_repD(1) [OF R x(1)] buf_repD(7) [OF R m] by blast
      then show ?thesis using other m by metis
    qed
  next
    fix j assume "j < NBUF" "B_DIRTY ((B(i := x)) j)"
    then show "bdev ((B(i := x)) j) = 1" using x(2) buf_repD(12) [OF R] by (cases "j = i") auto
  next
    fix m j assume m: "H' m = Some j"
    have "cached B m j \<and> B_BUSY ((B(i := x)) j)"
    proof (cases "m = n")
      case True
      then have "j = i" using m busy(2) by auto
      then show ?thesis using True x(1) m busy(1) by simp
    next
      case False
      then have h: "H m = Some j" using m other by metis
      have "j \<noteq> i" using False own buf_repD(7) [OF R h] by blast
      then show ?thesis using buf_repD(7,8) [OF R h] by simp
    qed
    then show "cached B m j" "B_BUSY ((B(i := x)) j)" by blast+
  next
    fix m assume "m \<notin> D'" "H' m = None"
    then show "c' m = d' m" using clean other buf_repD(9) [OF R, of m] by (cases "m = n") auto
  next
    fix m
    show "length (d' m) = 512" "length (c' m) = 512"
      using len other buf_repD(10,11) [OF R, of m] by (cases "m = n"; auto)+
  qed
qed

text \<open>Loading a block that is not cached into a buffer that is neither held nor dirty.\<close>

lemma buf_rep_load:
  assumes R: "buf_rep B d c H D" and i: "i < NBUF" "\<not> B_BUSY (B i)" "\<not> B_DIRTY (B i)" and n: "\<And>j. \<not> cached B n j"
    and x: "bdev x = 1" "blockno x = n" "B_VALID x" "B_BUSY x" "\<not> B_DIRTY x" "bdata x = d n"
  shows "buf_rep (B(i := x)) d c (H(n \<mapsto> i)) D"
proof -
  have C: "cached (B(i := x)) m j \<longleftrightarrow> (if j = i then m = n else cached B m j)" for m j
    using x i by (auto simp: cached_def)
  have nD: "n \<notin> D" "H n = None" using n buf_repD(5,7) [OF R] by (blast, metis not_None_eq n buf_repD(7) [OF R])
  have ev: "m \<notin> D" "H m = None" if "cached B m i" for m
  proof -
    show "m \<notin> D" using buf_repD(4) [OF R that] i(3) by simp
    show "H m = None"
    proof (rule ccontr)
      assume "H m \<noteq> None"
      then obtain j where j: "H m = Some j" by blast
      then have "j = i" using buf_repD(1) [OF R that] buf_repD(7) [OF R j] by blast
      then show False using buf_repD(8) [OF R j] i(2) by simp
    qed
  qed
  show ?thesis unfolding buf_rep_def C
  proof (intro conjI allI impI)
    fix m j k assume a: "if j = i then m = n else cached B m j" "if k = i then m = n else cached B m k"
    then show "j = k" using n buf_repD(1) [OF R] by (cases "j = i"; cases "k = i") auto
  next
    fix m j assume a: "if j = i then m = n else cached B m j"
    have cn: "c n = d n" using buf_repD(9) [OF R nD] .
    show "B_VALID ((B(i := x)) j)" using a x(3) buf_repD(2) [OF R, of m j] by (cases "j = i") auto
    show "bdata ((B(i := x)) j) = c m" using a x(6) cn buf_repD(3) [OF R, of m j] by (cases "j = i") auto
    show "B_DIRTY ((B(i := x)) j) = (m \<in> D)" using a x(5) nD(1) buf_repD(4) [OF R, of m j] by (cases "j = i") auto
  next
    fix m assume a: "\<forall>j. \<not> (if j = i then m = n else cached B m j)"
    show "m \<notin> D"
    proof
      assume "m \<in> D"
      then obtain j where "cached B m j" using buf_repD(5) [OF R] by blast
      then show False using spec [OF a, of j] ev(1) \<open>m \<in> D\<close> by (cases "j = i") auto
    qed
  next
    fix j assume j: "j < NBUF" "B_BUSY ((B(i := x)) j)"
    show "\<exists>m. (H(n \<mapsto> i)) m = Some j"
    proof (cases "j = i")
      case False
      then obtain m where "H m = Some j" using j buf_repD(6) [OF R] by auto
      moreover then have "m \<noteq> n" using nD(2) by auto
      ultimately show ?thesis by (auto intro!: exI [of _ m])
    qed auto
  next
    fix j assume "j < NBUF" "B_DIRTY ((B(i := x)) j)"
    then show "bdev ((B(i := x)) j) = 1" using x(1) buf_repD(12) [OF R] by (cases "j = i") auto
  next
    fix m j assume m: "(H(n \<mapsto> i)) m = Some j"
    have "(if j = i then m = n else cached B m j) \<and> B_BUSY ((B(i := x)) j)"
    proof (cases "m = n")
      case False
      then have h: "H m = Some j" using m by simp
      then have "j \<noteq> i" using buf_repD(8) [OF R h] i(2) by blast
      then show ?thesis using buf_repD(7,8) [OF R h] by simp
    qed (use m x(4) in auto)
    then show "if j = i then m = n else cached B m j" "B_BUSY ((B(i := x)) j)" by blast+
  next
    fix m assume "m \<notin> D" "(H(n \<mapsto> i)) m = None"
    then show "c m = d m" using buf_repD(9) [OF R, of m] by (cases "m = n") auto
  next
    fix m show "length (d m) = 512" "length (c m) = 512" using buf_repD(10,11) [OF R] by blast+
  qed
qed

text \<open>Only the pointers of the ring differ.\<close>

lemma buf_rep_ptrs:
  assumes "buf_rep B d c H D" and "\<And>i. bdev (B' i) = bdev (B i) \<and> blockno (B' i) = blockno (B i) \<and> B_VALID (B' i) = B_VALID (B i)
     \<and> B_DIRTY (B' i) = B_DIRTY (B i) \<and> B_BUSY (B' i) = B_BUSY (B i) \<and> bdata (B' i) = bdata (B i)"
  shows "buf_rep B' d c H D"
proof -
  have "cached B' = cached B" using assms(2) by (auto simp: cached_def fun_eq_iff)
  then show ?thesis using assms unfolding buf_rep_def by simp
qed

text \<open>There is a free buffer as long as fewer than \<open>NBUF\<close> blocks are held or dirty.\<close>

lemma buf_rep_victim:
  assumes R: "buf_rep B d c H D" and "card (dom H \<union> D) < NBUF"
  shows "\<exists>i<NBUF. \<not> B_BUSY (B i) \<and> \<not> B_DIRTY (B i)"
proof (rule ccontr)
  assume "\<not> ?thesis"
  then have all: "B_BUSY (B i) \<or> B_DIRTY (B i)" if "i < NBUF" for i using that by blast
  have own: "cached B (blockno (B i)) i \<and> blockno (B i) \<in> dom H \<union> D" if i: "i < NBUF" for i
  proof (cases "B_BUSY (B i)")
    case True
    then obtain n where n: "H n = Some i" using buf_repD(6) [OF R i] by blast
    then show ?thesis using buf_repD(7) [OF R n] cached_buf by blast
  next
    case False
    then have dirty: "B_DIRTY (B i)" using all [OF i] by blast
    then have "cached B (blockno (B i)) i" using i buf_repD(12) [OF R i] by (simp add: cached_def)
    then show ?thesis using buf_repD(4) [OF R] dirty by blast
  qed
  have "inj_on (\<lambda>i. blockno (B i)) {..<NBUF}"
    using own buf_repD(1) [OF R] by (metis (no_types, lifting) inj_onI lessThan_iff)
  then have "card ((\<lambda>i. blockno (B i)) ` {..<NBUF}) = NBUF" by (simp add: card_image)
  moreover have "dom H \<union> D \<subseteq> (\<lambda>i. blockno (B i)) ` {..<NBUF}"
  proof
    fix n assume "n \<in> dom H \<union> D"
    then obtain i where "cached B n i" using buf_repD(5,7) [OF R] by blast
    then show "n \<in> (\<lambda>i. blockno (B i)) ` {..<NBUF}" using cached_buf by blast
  qed
  moreover have "(\<lambda>i. blockno (B i)) ` {..<NBUF} \<subseteq> dom H \<union> D" using own by blast
  ultimately show False using assms(2) by (metis order_less_irrefl subset_antisym)
qed

section \<open>The operations of the cache\<close>

definition frame :: "kernel \<Rightarrow> kernel \<Rightarrow> bool" where
  "frame s t \<longleftrightarrow> klog t = klog s \<and> sb t = sb s \<and> inodes t = inodes s \<and> disksize t = disksize s \<and> me t = me s
     \<and> files t = files s \<and> cons t = cons s \<and> devs t = devs s \<and> (\<forall>l. locked (locks t l) = locked (locks s l))
     \<and> (\<forall>c. cproc (cpus t c) = cproc (cpus s c)) \<and> (\<forall>c. ncli (cpus t c) = ncli (cpus s c)) \<and> (cli_ok s \<longrightarrow> cli_ok t)"

lemma frame_refl [simp]: "frame s s"
  by (simp add: frame_def)

lemma frame_trans: "frame s t \<Longrightarrow> frame t u \<Longrightarrow> frame s u"
  by (simp add: frame_def)

definition cache_rep :: "kernel \<Rightarrow> contents \<Rightarrow> contents \<Rightarrow> (u32 \<rightharpoonup> nat) \<Rightarrow> u32 set \<Rightarrow> bool" where
  "cache_rep s d c H D \<longleftrightarrow> cli_ok s \<and> locked (locks s Lbcache) = 0 \<and> locked (locks s Lptable) = 0 \<and> disk s = d
     \<and> (\<exists>xs. ring_ok (nexts (bufs s)) (prevs (bufs s)) xs) \<and> buf_rep (bufs s) d c H D"

lemma find_cached_eq:
  assumes "ring_ok (nexts (bufs s)) (prevs (bufs s)) xs"
  shows "find_cached dev n s = (case List.find (\<lambda>b. bdev (bufs s b) = dev \<and> blockno (bufs s b) = n) xs of
     Some b \<Rightarrow> Done (Inr b) | None \<Rightarrow> Done (Inl NBUF))"
  unfolding find_cached_def by (rule ring_walks(1) [OF assms])

lemma find_victim_eq:
  assumes "ring_ok (nexts (bufs s)) (prevs (bufs s)) xs"
  shows "find_victim s = (case List.find (\<lambda>b. \<not> B_BUSY (bufs s b) \<and> \<not> B_DIRTY (bufs s b)) (rev xs) of
     Some b \<Rightarrow> Done (Inr b) | None \<Rightarrow> Done (Inl NBUF))"
  unfolding find_victim_def by (rule ring_walks(2) [OF assms])

lemma ring_find:
  assumes "ring_ok nx pv xs"
  shows "(\<exists>b<NBUF. P b) \<longleftrightarrow> (\<exists>b. List.find P xs = Some b \<and> b < NBUF \<and> P b)"
    and "(\<exists>b<NBUF. P b) \<longleftrightarrow> (\<exists>b. List.find P (rev xs) = Some b \<and> b < NBUF \<and> P b)"
proof -
  have "(\<exists>b<NBUF. P b) \<longleftrightarrow> (\<exists>b. List.find P ys = Some b \<and> b < NBUF \<and> P b)" if "set ys = {..<NBUF}" for ys
  proof
    assume "\<exists>b<NBUF. P b"
    then have "List.find P ys \<noteq> None" using that by (auto simp: find_None_iff)
    then obtain b where "List.find P ys = Some b" by blast
    then show "\<exists>b. List.find P ys = Some b \<and> b < NBUF \<and> P b" using find_Some_state [of P ys b] that by auto
  qed blast
  then show "(\<exists>b<NBUF. P b) \<longleftrightarrow> (\<exists>b. List.find P xs = Some b \<and> b < NBUF \<and> P b)"
    "(\<exists>b<NBUF. P b) \<longleftrightarrow> (\<exists>b. List.find P (rev xs) = Some b \<and> b < NBUF \<and> P b)"
    using assms by (simp_all add: ring_ok_def)
qed

lemma upd_buf_enter [simp]: "upd_buf b f (enter lkk P r) = enter lkk P (upd_buf b f r)"
  by (simp add: upd_buf_def)

lemma upd_buf_simps [simp]:
  "bufs (upd_buf b f s) = (bufs s)(b := f (bufs s b))" "disk (upd_buf b f s) = disk s" "locks (upd_buf b f s) = locks s"
  "cli_ok (upd_buf b f s) = cli_ok s" "crit_ok lkk P (upd_buf b f s) = crit_ok lkk P s" "klog (upd_buf b f s) = klog s"
  "disksize (upd_buf b f s) = disksize s" "procs (upd_buf b f s) = procs s"
  by (simp_all add: upd_buf_def)

lemma frame_upd_buf [simp]: "frame s (upd_buf b f t) = frame s t"
  by (simp add: frame_def upd_buf_def cli_ok_def)

lemma frame_crit: "locked (locks s l) = 0 \<Longrightarrow> frame s (crit l s)"
  by (simp add: frame_def crit_locked)

lemma frame_dbg: "locked (locks t l) = 0 \<Longrightarrow> frame s t \<Longrightarrow> frame s ((dbg l t)\<lparr>procs := ps\<rparr>)"
  by (simp add: frame_def dbg_locked)

lemma ring_keep:
  "bnext x = bnext (B i) \<Longrightarrow> bprev x = bprev (B i) \<Longrightarrow> nexts (B(i := x)) = nexts B \<and> prevs (B(i := x)) = prevs B"
  by (auto simp: fun_eq_iff)

lemma bread_hit:
  assumes R: "cache_rep s d c H D" and n: "cached (bufs s) n b" "H n = None"
  shows "\<exists>t. bread 1 n s = Done (b, t) \<and> cache_rep t d c (H(n \<mapsto> b)) D \<and> frame s t"
proof -
  have B: "buf_rep (bufs s) d c H D" and L: "cli_ok s" "locked (locks s Lbcache) = 0" "locked (locks s Lptable) = 0" "disk s = d"
    using R by (auto simp: cache_rep_def)
  obtain xs where xs: "ring_ok (nexts (bufs s)) (prevs (bufs s)) xs" using R by (auto simp: cache_rep_def)
  let ?r = "crit Lbcache s"
  let ?t = "upd_buf b (\<lambda>x. x\<lparr>B_BUSY := True\<rparr>) ?r"
  have idle: "\<not> B_BUSY (bufs s b)"
  proof
    assume "B_BUSY (bufs s b)"
    then obtain m where m: "H m = Some b" using buf_repD(6) [OF B] n(1) cached_buf by blast
    then have "m = n" using buf_repD(7) [OF B m] n(1) by (simp add: cached_def)
    then show False using m n(2) by simp
  qed
  have "\<exists>j<NBUF. bdev (bufs s j) = 1 \<and> blockno (bufs s j) = n" using n(1) cached_buf by blast
  then obtain j where j: "List.find (\<lambda>b. bdev (bufs s b) = 1 \<and> blockno (bufs s b) = n) xs = Some j" "cached (bufs s) n j"
    using ring_find(1) [OF xs] by (auto simp: cached_def)
  have "j = b" using buf_repD(1) [OF B j(2) n(1)] .
  then have "find_cached 1 n (enter Lbcache (callers s) ?r) = Done (Inr b)"
    using find_cached_eq [of "enter Lbcache (callers s) ?r" xs 1 n] xs j(1) by simp
  moreover have "release Lbcache (enter Lbcache (callers s) ?t) = Done ?t"
    using L(1) by (intro release_enter) (simp add: crit_ok_crit)
  ultimately have "bget 1 n s = Done (Ret b, ?t)"
    using L(2) idle by (simp add: bget_def bget_body_def acquire_enter)
  then have "bread 1 n s = Done (b, ?t)" using buf_repD(2) [OF B n(1)] by (simp add: bread_def)
  moreover have "cache_rep ?t d c (H(n \<mapsto> b)) D"
  proof -
    have "buf_rep ((bufs s)(b := (bufs s b)\<lparr>B_BUSY := True\<rparr>)) d c (H(n \<mapsto> b)) D"
      using n buf_repD(2-4) [OF B n(1)] cached_buf [OF n(1)] buf_repD(10,11) [OF B]
      by (intro buf_rep_keep [OF B n(1)]) auto
    then show ?thesis using L xs ring_keep [of "(bufs s b)\<lparr>B_BUSY := True\<rparr>" "bufs s" b]
      by (auto simp: cache_rep_def crit_locked)
  qed
  ultimately show ?thesis using frame_crit [OF L(2)] by auto
qed

lemma bread_miss:
  assumes R: "cache_rep s d c H D" and n: "\<And>j. \<not> cached (bufs s) n j" "n < disksize s" and room: "card (dom H \<union> D) < NBUF"
  shows "\<exists>b t. bread 1 n s = Done (b, t) \<and> cache_rep t d c (H(n \<mapsto> b)) D \<and> frame s t"
proof -
  have B: "buf_rep (bufs s) d c H D" and L: "cli_ok s" "locked (locks s Lbcache) = 0" "locked (locks s Lptable) = 0" "disk s = d"
    using R by (auto simp: cache_rep_def)
  obtain xs where xs: "ring_ok (nexts (bufs s)) (prevs (bufs s)) xs" using R by (auto simp: cache_rep_def)
  let ?r = "crit Lbcache s"
  have "\<not> (\<exists>j<NBUF. bdev (bufs s j) = 1 \<and> blockno (bufs s j) = n)" using n(1) by (auto simp: cached_def)
  then have "List.find (\<lambda>b. bdev (bufs s b) = 1 \<and> blockno (bufs s b) = n) xs = None"
    using xs by (auto simp: find_None_iff ring_ok_def)
  then have fc: "find_cached 1 n (enter Lbcache (callers s) ?r) = Done (Inl NBUF)"
    using find_cached_eq [of "enter Lbcache (callers s) ?r" xs 1 n] xs by simp
  obtain b where b: "List.find (\<lambda>b. \<not> B_BUSY (bufs s b) \<and> \<not> B_DIRTY (bufs s b)) (rev xs) = Some b"
    "b < NBUF" "\<not> B_BUSY (bufs s b)" "\<not> B_DIRTY (bufs s b)"
    using ring_find(2) [OF xs, of "\<lambda>b. \<not> B_BUSY (bufs s b) \<and> \<not> B_DIRTY (bufs s b)"] buf_rep_victim [OF B room] by blast
  then have fv: "find_victim (enter Lbcache (callers s) ?r) = Done (Inr b)"
    using find_victim_eq [of "enter Lbcache (callers s) ?r" xs] xs by simp
  let ?f = "\<lambda>x. x\<lparr>bdev := 1, blockno := n, B_BUSY := True, B_VALID := False, B_DIRTY := False\<rparr>"
  let ?u = "upd_buf b ?f ?r"
  let ?x = "(bufs s b)\<lparr>bdev := 1, blockno := n, B_BUSY := True, B_DIRTY := False, bdata := d n, B_VALID := True\<rparr>"
  let ?t = "?r\<lparr>bufs := (bufs s)(b := ?x)\<rparr>"
  have "release Lbcache (enter Lbcache (callers s) ?u) = Done ?u"
    using L(1) by (intro release_enter) (simp add: crit_ok_crit)
  then have "bget 1 n s = Done (Ret b, ?u)"
    using L(2) fc fv by (simp add: bget_def bget_body_def acquire_enter)
  moreover have "iderw b ?u = Done ?t" using n(2) L(4) by (simp add: iderw_def Let_def) (simp add: upd_buf_def)
  ultimately have "bread 1 n s = Done (b, ?t)" by (simp add: bread_def)
  moreover have "cache_rep ?t d c (H(n \<mapsto> b)) D"
    using buf_rep_load [OF B b(2-4) n(1), of ?x] L xs ring_keep [of ?x "bufs s" b] by (auto simp: cache_rep_def crit_locked)
  moreover have "frame s ?t" using frame_crit [OF L(2)] by (simp add: frame_def cli_ok_def)
  ultimately show ?thesis by blast
qed

lemma bread_rep:
  assumes "cache_rep s d c H D" and "H n = None" and "n < disksize s" and "n \<in> D \<or> card (dom H \<union> D) < NBUF"
  shows "\<exists>b t. bread 1 n s = Done (b, t) \<and> cache_rep t d c (H(n \<mapsto> b)) D \<and> frame s t"
proof (cases "\<exists>b. cached (bufs s) n b")
  case True
  then show ?thesis using bread_hit [OF assms(1) _ assms(2)] by blast
next
  case False
  have "buf_rep (bufs s) d c H D" using assms(1) by (simp add: cache_rep_def)
  then have "n \<notin> D" using buf_repD(5) False by blast
  then show ?thesis using bread_miss [OF assms(1) _ assms(3)] False assms(4) by blast
qed

text \<open>What a held buffer contains, and writing to it.\<close>

lemma held_data: "cache_rep s d c H D \<Longrightarrow> H n = Some b \<Longrightarrow> bdata (bufs s b) = c n \<and> blockno (bufs s b) = n \<and> b < NBUF \<and> B_BUSY (bufs s b)"
  using buf_repD(3,7,8) cached_buf by (metis cache_rep_def)

lemma set_rep:
  assumes R: "cache_rep s d c H D" and h: "H n = Some b" and len: "length xs = 512"
  shows "cache_rep (upd_buf b (\<lambda>x. x\<lparr>bdata := xs\<rparr>) s) d (c(n := xs)) H D"
proof -
  have B: "buf_rep (bufs s) d c H D" using R by (simp add: cache_rep_def)
  note C = buf_repD(7) [OF B h]
  have "buf_rep ((bufs s)(b := (bufs s b)\<lparr>bdata := xs\<rparr>)) d (c(n := xs)) H D"
    using h len buf_repD(2-4) [OF B C] buf_repD(8) [OF B h] cached_buf [OF C] buf_repD(10,11) [OF B]
    by (intro buf_rep_keep [OF B C]) auto
  then show ?thesis using R ring_keep [of "(bufs s b)\<lparr>bdata := xs\<rparr>" "bufs s" b] by (auto simp: cache_rep_def)
qed

lemma mark_rep:
  assumes R: "cache_rep s d c H D" and h: "H n = Some b"
  shows "cache_rep (upd_buf b (\<lambda>x. x\<lparr>B_DIRTY := True\<rparr>) s) d c H (insert n D)"
proof -
  have B: "buf_rep (bufs s) d c H D" using R by (simp add: cache_rep_def)
  note C = buf_repD(7) [OF B h]
  have "buf_rep ((bufs s)(b := (bufs s b)\<lparr>B_DIRTY := True\<rparr>)) d c H (insert n D)"
    using h buf_repD(2-4) [OF B C] buf_repD(8) [OF B h] cached_buf [OF C] buf_repD(10,11) [OF B]
    by (intro buf_rep_keep [OF B C]) auto
  then show ?thesis using R ring_keep [of "(bufs s b)\<lparr>B_DIRTY := True\<rparr>" "bufs s" b] by (auto simp: cache_rep_def)
qed

lemma bwrite_rep:
  assumes R: "cache_rep s d c H D" and h: "H n = Some b" and n: "n < disksize s"
  shows "\<exists>t. bwrite b s = Done t \<and> cache_rep t (d(n := c n)) c H (D - {n}) \<and> frame s t"
proof -
  have B: "buf_rep (bufs s) d c H D" and d: "disk s = d" using R by (simp_all add: cache_rep_def)
  note C = buf_repD(7) [OF B h] and busy = buf_repD(8) [OF B h]
  let ?x = "(bufs s b)\<lparr>B_DIRTY := False, B_VALID := True\<rparr>"
  let ?t = "s\<lparr>bufs := (bufs s)(b := ?x), disk := d(n := c n)\<rparr>"
  have "bwrite b s = Done ?t"
    using busy cached_buf [OF C] n d buf_repD(3) [OF B C]
    by (simp add: bwrite_def iderw_def Let_def) (simp add: upd_buf_def)
  moreover have "buf_rep ((bufs s)(b := ?x)) (d(n := c n)) c H (D - {n})"
    using h busy buf_repD(2-4) [OF B C] cached_buf [OF C] buf_repD(10,11) [OF B]
    by (intro buf_rep_keep [OF B C]) auto
  then have "cache_rep ?t (d(n := c n)) c H (D - {n})"
    using R ring_keep [of ?x "bufs s" b] by (auto simp: cache_rep_def)
  moreover have "frame s ?t" by (simp add: frame_def cli_ok_def)
  ultimately show ?thesis by blast
qed

text \<open>Releasing a buffer: it moves to the front of the ring.\<close>

lemma push_mru_ptrs:
  "nexts (bufs (push_mru b s)) = (nexts (bufs s))(b := nexts (bufs s) NBUF, NBUF := b)"
  "b \<noteq> NBUF \<Longrightarrow> prevs (bufs (push_mru b s)) = (prevs (bufs s))(b := NBUF, nexts (bufs s) NBUF := b)"
  by (auto simp: push_mru_def set_next_def set_prev_def Let_def fun_eq_iff)

definition same_data :: "(nat \<Rightarrow> buf) \<Rightarrow> (nat \<Rightarrow> buf) \<Rightarrow> bool" where
  "same_data B B' \<longleftrightarrow> (\<forall>i. bdev (B' i) = bdev (B i) \<and> blockno (B' i) = blockno (B i) \<and> B_VALID (B' i) = B_VALID (B i)
     \<and> B_DIRTY (B' i) = B_DIRTY (B i) \<and> B_BUSY (B' i) = B_BUSY (B i) \<and> bdata (B' i) = bdata (B i))"

lemma same_data_set:
  "same_data B (bufs s) \<Longrightarrow> same_data B (bufs (set_next i j s))" "same_data B (bufs s) \<Longrightarrow> same_data B (bufs (set_prev i j s))"
  by (simp_all add: same_data_def set_next_def set_prev_def)

definition unlinked :: "nat \<Rightarrow> kernel \<Rightarrow> kernel" where
  "unlinked b s = (let s = set_prev (bnext (bufs s b)) (bprev (bufs s b)) s in set_next (bprev (bufs s b)) (bnext (bufs s b)) s)"

lemma unlinked_ptrs:
  "nexts (bufs s) b \<noteq> b \<Longrightarrow> nexts (bufs (unlinked b s)) = (nexts (bufs s))(prevs (bufs s) b := nexts (bufs s) b)"
  "nexts (bufs s) b \<noteq> b \<Longrightarrow> prevs (bufs (unlinked b s)) = (prevs (bufs s))(nexts (bufs s) b := prevs (bufs s) b)"
  by (auto simp: unlinked_def set_next_def set_prev_def Let_def fun_eq_iff)

lemma ptr_only:
  "set_next i j (enter l P r) = enter l P (set_next i j r)" "set_prev i j (enter l P r) = enter l P (set_prev i j r)"
  "push_mru b (enter l P r) = enter l P (push_mru b r)" "unlinked b (enter l P r) = enter l P (unlinked b r)"
  by (simp_all add: push_mru_def unlinked_def set_next_def set_prev_def Let_def)

lemma ring_neq:
  assumes "ring_ok nx pv xs" and "b < NBUF"
  shows "nx b \<noteq> b"
proof -
  obtain us vs where xs: "xs = us @ b # vs" using assms by (metis ring_ok_def lessThan_iff split_list)
  obtain f ws where f: "vs @ [NBUF] = f # ws" by (cases "vs @ [NBUF]") auto
  have "lk nx pv ((NBUF # us) @ b # f # ws)" using assms(1) unfolding ring_ok_def xs by (simp flip: f)
  then have "nx b = f" using lk_append [of nx pv "NBUF # us" b "f # ws"] by simp
  moreover have "f \<in> set (vs @ [NBUF])" unfolding f by simp
  ultimately show ?thesis using assms unfolding ring_ok_def xs by auto
qed

lemma moved_ok:
  assumes "ring_ok (nexts (bufs s)) (prevs (bufs s)) xs" and "b < NBUF"
  shows "\<exists>ys. ring_ok (nexts (bufs (push_mru b (unlinked b s)))) (prevs (bufs (push_mru b (unlinked b s)))) ys"
    and "same_data (bufs s) (bufs (push_mru b (unlinked b s)))"
proof -
  obtain us vs where xs: "xs = us @ b # vs" using assms by (metis ring_ok_def lessThan_iff split_list)
  show "\<exists>ys. ring_ok (nexts (bufs (push_mru b (unlinked b s)))) (prevs (bufs (push_mru b (unlinked b s)))) ys"
  proof -
    have b: "b \<noteq> NBUF" using assms(2) by simp
    note U = unlinked_ptrs [OF ring_neq [OF assms]]
    have "bnext (bufs (unlinked b s) NBUF) = ((nexts (bufs s))(prevs (bufs s) b := nexts (bufs s) b)) NBUF"
      using fun_cong [OF U(1), of NBUF] .
    then show ?thesis
      using ring_move [OF assms(1) [unfolded xs]] unfolding push_mru_ptrs(1) push_mru_ptrs(2) [OF b] U by metis
  qed
  show "same_data (bufs s) (bufs (push_mru b (unlinked b s)))"
    unfolding push_mru_def unlinked_def Let_def by (intro same_data_set) (simp add: same_data_def)
qed

lemma brelse_rep:
  assumes R: "cache_rep s d c H D" and h: "H n = Some b" and clean: "n \<in> D \<or> c n = d n"
  shows "\<exists>t. brelse b s = Done t \<and> cache_rep t d c (H(n := None)) D \<and> frame s t"
proof -
  have B: "buf_rep (bufs s) d c H D" and L: "cli_ok s" "locked (locks s Lbcache) = 0" "locked (locks s Lptable) = 0" "disk s = d"
    using R by (auto simp: cache_rep_def)
  obtain xs where xs: "ring_ok (nexts (bufs s)) (prevs (bufs s)) xs" using R by (auto simp: cache_rep_def)
  note C = buf_repD(7) [OF B h] and busy = buf_repD(8) [OF B h]
  let ?r = "crit Lbcache s"
  let ?m = "push_mru b (unlinked b ?r)"
  let ?u = "upd_buf b (\<lambda>x. x\<lparr>B_BUSY := False\<rparr>) ?m"
  let ?t = "(dbg Lptable ?u)\<lparr>procs := wake_all (ChBuf b) (procs s)\<rparr>"
  have M: "ring_ok (nexts (bufs ?r)) (prevs (bufs ?r)) xs" "b < NBUF" using xs cached_buf [OF C] by simp_all
  obtain ys where ys: "ring_ok (nexts (bufs ?m)) (prevs (bufs ?m)) ys" using moved_ok(1) [OF M] by blast
  have dat: "same_data (bufs s) (bufs ?m)" using moved_ok(2) [OF M] by simp
  have sk: "locks ?m = locks ?r" "cli_ok ?m" "procs ?m = procs s" "disk ?m = d" "frame s ?m" "crit_ok Lbcache (callers s) ?m"
    using L frame_crit [OF L(2)]
    by (simp_all add: push_mru_def unlinked_def set_next_def set_prev_def Let_def crit_ok_crit)
  have "brelse b s = kbind (wakeup (ChBuf b) (enter Lbcache (callers s) ?u)) (release Lbcache)"
    using busy L(2) by (simp add: brelse_def acquire_enter ptr_only unlinked_def Let_def)
  also have "\<dots> = Done ?t"
    using L sk by (simp add: wakeup_enter crit_locked release_enter crit_ok_dbg)
  finally have "brelse b s = Done ?t" .
  moreover have "buf_rep (bufs ?u) d c (H(n := None)) D"
  proof -
    have Bm: "buf_rep (bufs ?m) d c H D" using buf_rep_ptrs [OF B] dat by (simp add: same_data_def)
    note Cm = buf_repD(7) [OF Bm h]
    show ?thesis unfolding upd_buf_simps
      using h clean buf_repD(2-4) [OF Bm Cm] cached_buf [OF Cm] buf_repD(10,11) [OF Bm]
      by (intro buf_rep_keep [OF Bm Cm]) auto
  qed
  then have "cache_rep ?t d c (H(n := None)) D"
    using L sk ys ring_keep [of "(bufs ?m b)\<lparr>B_BUSY := False\<rparr>" "bufs ?m" b] by (auto simp: cache_rep_def lock_words)
  moreover have "locked (locks ?u Lptable) = 0" "frame s ?u" using sk L(3) by (simp_all add: crit_locked)
  then have "frame s ?t" by (rule frame_dbg)
  ultimately show ?thesis by blast
qed

text \<open>Start-up builds the ring and an empty cache.\<close>

lemma lk_cong: "(\<And>x. x \<in> set (butlast xs) \<Longrightarrow> nx' x = nx x) \<Longrightarrow> (\<And>x. x \<in> set (tl xs) \<Longrightarrow> pv' x = pv x) \<Longrightarrow> lk nx' pv' xs = lk nx pv xs"
  using lk_upd [of nx pv xs nx' pv'] lk_upd [of nx' pv' xs nx pv] by metis

lemma binit_loop:
  assumes "lk (nexts (bufs s)) (prevs (bufs s)) [NBUF, NBUF]" and "k \<le> NBUF"
  defines "t \<equiv> fold (\<lambda>b s. push_mru b (upd_buf b (\<lambda>x. x\<lparr>bdev := -1\<rparr>) s)) [0..<k] s"
  shows "lk (nexts (bufs t)) (prevs (bufs t)) (NBUF # rev [0..<k] @ [NBUF])
    \<and> (\<forall>i<NBUF. bdev (bufs t i) = (if i < k then -1 else bdev (bufs s i)) \<and> B_BUSY (bufs t i) = B_BUSY (bufs s i) \<and> B_DIRTY (bufs t i) = B_DIRTY (bufs s i))
    \<and> frame s t \<and> disk t = disk s \<and> locks t = locks s"
  using assms(2) unfolding t_def
proof (induction k)
  case 0
  then show ?case using assms(1) by simp
next
  case (Suc k)
  let ?u = "fold (\<lambda>b s. push_mru b (upd_buf b (\<lambda>x. x\<lparr>bdev := -1\<rparr>) s)) [0..<k] s"
  let ?v = "upd_buf k (\<lambda>x. x\<lparr>bdev := -1\<rparr>) ?u"
  have IH: "lk (nexts (bufs ?u)) (prevs (bufs ?u)) (NBUF # rev [0..<k] @ [NBUF])"
    "\<forall>i<NBUF. bdev (bufs ?u i) = (if i < k then -1 else bdev (bufs s i)) \<and> B_BUSY (bufs ?u i) = B_BUSY (bufs s i) \<and> B_DIRTY (bufs ?u i) = B_DIRTY (bufs s i)"
    "frame s ?u" "disk ?u = disk s" "locks ?u = locks s"
    using Suc by auto
  have "nexts (bufs ?v) = nexts (bufs ?u)" "prevs (bufs ?v) = prevs (bufs ?u)" by (auto simp: fun_eq_iff)
  then have l: "lk (nexts (bufs ?v)) (prevs (bufs ?v)) (NBUF # rev [0..<k] @ [NBUF])" using IH(1) by simp
  obtain f ws where f: "rev [0..<k] @ [NBUF] = f # ws" by (cases "rev [0..<k] @ [NBUF]") auto
  have k: "k \<noteq> NBUF" "k \<notin> set (rev [0..<k] @ [NBUF])" "NBUF \<notin> set (butlast (rev [0..<k] @ [NBUF]))" "distinct (rev [0..<k] @ [NBUF])"
    using Suc.prems by auto
  have fst: "bnext (bufs ?v NBUF) = f" using l unfolding f by simp
  have "lk ((nexts (bufs ?v))(k := f, NBUF := k)) ((prevs (bufs ?v))(k := NBUF, f := k)) (NBUF # k # f # ws)"
    using l k unfolding f by (intro lk_push) simp_all
  then have "lk (nexts (bufs (push_mru k ?v))) (prevs (bufs (push_mru k ?v))) (NBUF # k # f # ws)"
    unfolding push_mru_ptrs(1) push_mru_ptrs(2) [OF k(1)] fst .
  moreover have "same_data (bufs ?v) (bufs (push_mru k ?v))"
    unfolding push_mru_def Let_def by (intro same_data_set) (simp add: same_data_def)
  moreover have "frame ?v (push_mru k ?v)" "disk (push_mru k ?v) = disk ?v" "locks (push_mru k ?v) = locks ?v"
    by (simp_all add: push_mru_def set_next_def set_prev_def Let_def)
  ultimately show ?case using IH(2-5) f Suc.prems frame_trans [of s ?v]
    by (auto simp: same_data_def)
qed

lemma binit_rep:
  assumes "cli_ok s" and "locked (locks s Lptable) = 0" and "\<forall>n. length (disk s n) = 512"
    and "\<forall>i<NBUF. \<not> B_BUSY (bufs s i) \<and> \<not> B_DIRTY (bufs s i)"
  shows "cache_rep (binit s) (disk s) (disk s) Map.empty {} \<and> klog (binit s) = klog s \<and> disksize (binit s) = disksize s
    \<and> sb (binit s) = sb s \<and> (\<forall>l. l \<noteq> Lbcache \<longrightarrow> locks (binit s) l = locks s l)"
proof -
  let ?i = "initlock Lbcache ''bcache'' s"
  let ?u = "set_next NBUF NBUF (set_prev NBUF NBUF ?i)"
  let ?t = "fold (\<lambda>b s. push_mru b (upd_buf b (\<lambda>x. x\<lparr>bdev := -1\<rparr>) s)) [0..<NBUF] ?u"
  have u: "lk (nexts (bufs ?u)) (prevs (bufs ?u)) [NBUF, NBUF]" by (simp add: set_next_def set_prev_def)
  have s: "cli_ok ?u" "disk ?u = disk s" "klog ?u = klog s" "disksize ?u = disksize s" "sb ?u = sb s"
    "locked (locks ?u Lbcache) = 0" "\<forall>l. l \<noteq> Lbcache \<longrightarrow> locks ?u l = locks s l"
    "\<forall>i<NBUF. \<not> B_BUSY (bufs ?u i) \<and> \<not> B_DIRTY (bufs ?u i)"
    using assms(1,4) by (auto simp: set_next_def set_prev_def initlock_def upd_lock_def cli_ok_def upd_buf_def)
  note L = binit_loop [OF u order_refl]
  have nc: "\<not> cached (bufs ?t) n i" for n i using L by (auto simp: cached_def)
  have "buf_rep (bufs ?t) (disk s) (disk s) Map.empty {}"
    using nc L s(8) assms(3) unfolding buf_rep_def by auto
  moreover have "ring_ok (nexts (bufs ?t)) (prevs (bufs ?t)) (rev [0..<NBUF])" using L by (auto simp: ring_ok_def)
  ultimately have "cache_rep ?t (disk s) (disk s) Map.empty {}"
    using L s assms(2) by (auto simp: cache_rep_def frame_def)
  then show ?thesis using L s by (simp add: binit_def Let_def frame_def)
qed

text \<open>The cache meets the interface of the log.\<close>

interpretation bc: block_cache cache_rep frame disksize "\<lambda>m n. n < m" NBUF "bread 1" "\<lambda>s b. bdata (bufs s b)"
  "\<lambda>b xs. upd_buf b (\<lambda>x. x\<lparr>bdata := xs\<rparr>)" bwrite brelse
proof unfold_locales
  show "cache_rep s d c H D \<Longrightarrow> H n = None \<Longrightarrow> n < disksize s \<Longrightarrow> n \<in> D \<or> card (dom H \<union> D) < NBUF
      \<Longrightarrow> \<exists>b t. bread 1 n s = Done (b, t) \<and> cache_rep t d c (H(n \<mapsto> b)) D \<and> frame s t" for s d c H D n
    by (rule bread_rep)
  show "cache_rep s d c H D \<Longrightarrow> H n = Some b \<Longrightarrow> bdata (bufs s b) = c n \<and> length (c n) = 512" for s d c H D n b
    using held_data buf_repD(11) by (metis cache_rep_def)
  show "cache_rep s d c H D \<Longrightarrow> H n = Some b \<Longrightarrow> length xs = 512
      \<Longrightarrow> cache_rep (upd_buf b (\<lambda>x. x\<lparr>bdata := xs\<rparr>) s) d (c(n := xs)) H D \<and> frame s (upd_buf b (\<lambda>x. x\<lparr>bdata := xs\<rparr>) s)" for s d c H D n b xs
    by (simp add: set_rep)
  show "cache_rep s d c H D \<Longrightarrow> H n = Some b \<Longrightarrow> n < disksize s
      \<Longrightarrow> \<exists>t. bwrite b s = Done t \<and> cache_rep t (d(n := c n)) c H (D - {n}) \<and> frame s t" for s d c H D n b
    by (rule bwrite_rep)
  show "cache_rep s d c H D \<Longrightarrow> H n = Some b \<Longrightarrow> n \<in> D \<or> c n = d n
      \<Longrightarrow> \<exists>t. brelse b s = Done t \<and> cache_rep t d c (H(n := None)) D \<and> frame s t" for s d c H D n b
    by (rule brelse_rep)
  show "cache_rep s d c H D \<Longrightarrow> n \<notin> D \<Longrightarrow> H n = None \<Longrightarrow> c n = d n" for s d c H D n
    using buf_repD(9) by (metis cache_rep_def)
  show "frame s t \<Longrightarrow> disksize t = disksize s" for s t by (simp add: frame_def)
  show "frame s t \<Longrightarrow> frame t u \<Longrightarrow> frame s u" for s t u by (rule frame_trans)
  show "frame s s" for s by simp
qed

end
