(* ===== verification/Log_Correct.thy ===== *)
theory Log_Correct
  imports Log Bio_Correct
begin

text \<open>
  The log: what \<open>commit\<close> writes, and what a boot finds after a crash at any point of it.
\<close>

section \<open>The places of the log\<close>

definition header :: "log \<Rightarrow> u32" where
  "header l = of_int (start l)"

definition slots :: "log \<Rightarrow> u32 list" where
  "slots l = map (\<lambda>k. of_int (start l + int k + 1)) [0..<nat (lh_n l)]"

definition targets :: "log \<Rightarrow> u32 list" where
  "targets l = map of_int (take (nat (lh_n l)) (lh_block l))"

definition log_area :: "log \<Rightarrow> u32 set" where
  "log_area l = of_int ` {start l ..< start l + lsize l}"

text \<open>
  A log that fits the disk: it starts behind the super block, its \<open>lsize\<close> blocks have room for the header and the
  entries, and the entries are different blocks of the disk outside of the log.
\<close>

definition log_ok :: "u32 \<Rightarrow> log \<Rightarrow> bool" where
  "log_ok m l \<longleftrightarrow> ldev l = 1 \<and> 1 < start l \<and> 0 \<le> lh_n l \<and> lh_n l < lsize l \<and> lsize l \<le> LOGSIZE \<and> length (lh_block l) = nat LOGSIZE
     \<and> start l + lsize l \<le> uint m \<and> uint m < 2 ^ 31
     \<and> distinct (take (nat (lh_n l)) (lh_block l))
     \<and> (\<forall>b\<in>set (take (nat (lh_n l)) (lh_block l)). 1 < b \<and> b < uint m \<and> \<not> (start l \<le> b \<and> b < start l + lsize l))"

lemma log_ok_length: "log_ok m l \<Longrightarrow> length (targets l) = nat (lh_n l) \<and> length (slots l) = nat (lh_n l)"
  by (auto simp: log_ok_def targets_def slots_def)

lemma uint_of_int_lt: "0 \<le> i \<Longrightarrow> i < uint (m :: u32) \<Longrightarrow> uint (of_int i :: u32) = i"
  using unsigned_less [of m, where 'a = int] by (simp add: uint_word_of_int)

lemma of_int_inj_lt: "0 \<le> i \<Longrightarrow> i < uint (m :: u32) \<Longrightarrow> 0 \<le> j \<Longrightarrow> j < uint m \<Longrightarrow> (of_int i :: u32) = of_int j \<longleftrightarrow> i = j"
  using uint_of_int_lt by metis

lemma of_int_lt: "0 \<le> i \<Longrightarrow> i < uint (m :: u32) \<Longrightarrow> (of_int i :: u32) < m"
  by (simp add: word_less_def uint_of_int_lt)

lemma targets_distinct:
  assumes "log_ok m l" shows "distinct (targets l)"
proof -
  have "inj_on (of_int :: int \<Rightarrow> u32) (set (take (nat (lh_n l)) (lh_block l)))"
  proof (rule inj_onI)
    fix x y assume "x \<in> set (take (nat (lh_n l)) (lh_block l))" "y \<in> set (take (nat (lh_n l)) (lh_block l))" "(of_int x :: u32) = of_int y"
    moreover then have "1 < x \<and> x < uint m" "1 < y \<and> y < uint m" using assms unfolding log_ok_def by blast+
    ultimately show "x = y" using of_int_inj_lt [of x m y] by simp
  qed
  then show ?thesis using assms by (simp add: targets_def distinct_map log_ok_def)
qed

lemma slots_distinct:
  assumes "log_ok m l" shows "distinct (slots l)"
proof -
  have "inj_on (\<lambda>k. of_int (start l + int k + 1) :: u32) {0..<nat (lh_n l)}"
  proof (rule inj_onI)
    fix x y assume "x \<in> {0..<nat (lh_n l)}" "y \<in> {0..<nat (lh_n l)}" and e: "(of_int (start l + int x + 1) :: u32) = of_int (start l + int y + 1)"
    then have "start l + int x + 1 < uint m" "start l + int y + 1 < uint m" "1 < start l" using assms by (auto simp: log_ok_def)
    then show "x = y" using e of_int_inj_lt [of "start l + int x + 1" m "start l + int y + 1"] by simp
  qed
  then show ?thesis by (simp add: slots_def distinct_map)
qed

lemma log_places:
  assumes "log_ok m l"
  shows "header l \<in> log_area l" and "set (slots l) \<subseteq> log_area l" and "header l \<notin> set (slots l)"
    and "set (targets l) \<inter> log_area l = {}" and "1 \<notin> log_area l" and "1 \<notin> set (targets l)"
    and "n \<in> log_area l \<Longrightarrow> n < m" and "n \<in> set (targets l) \<Longrightarrow> n < m"
proof -
  have b: "1 < start l" "0 \<le> lh_n l" "lh_n l < lsize l" "start l + lsize l \<le> uint m" using assms by (auto simp: log_ok_def)
  show "header l \<in> log_area l" using b by (auto simp: header_def log_area_def)
  show "set (slots l) \<subseteq> log_area l"
  proof
    fix n assume "n \<in> set (slots l)"
    then obtain k where "k < nat (lh_n l)" "n = of_int (start l + int k + 1)" by (auto simp: slots_def)
    then show "n \<in> log_area l" using b unfolding log_area_def by (intro image_eqI [of _ _ "start l + int k + 1"]) auto
  qed
  show "header l \<notin> set (slots l)"
  proof
    assume "header l \<in> set (slots l)"
    then obtain k where k: "k < nat (lh_n l)" "(of_int (start l) :: u32) = of_int (start l + int k + 1)" by (auto simp: slots_def header_def)
    have "0 \<le> start l" "start l < uint m" "0 \<le> start l + int k + 1" "start l + int k + 1 < uint m" using b k(1) by auto
    then have "start l = start l + int k + 1" using of_int_inj_lt k(2) by blast
    then show False by simp
  qed
  have t: "\<exists>i. n = of_int i \<and> 1 < i \<and> i < uint m \<and> \<not> (start l \<le> i \<and> i < start l + lsize l)" if "n \<in> set (targets l)" for n
    using that assms unfolding targets_def log_ok_def by auto
  have a: "\<exists>i. n = of_int i \<and> start l \<le> i \<and> i < start l + lsize l \<and> 1 < i \<and> i < uint m" if "n \<in> log_area l" for n
    using that b unfolding log_area_def by fastforce
  show "set (targets l) \<inter> log_area l = {}"
  proof (rule ccontr)
    assume "set (targets l) \<inter> log_area l \<noteq> {}"
    then obtain n where n: "n \<in> set (targets l)" "n \<in> log_area l" by blast
    obtain i where i: "n = of_int i" "1 < i" "i < uint m" "\<not> (start l \<le> i \<and> i < start l + lsize l)" using t [OF n(1)] by blast
    obtain j where j: "n = of_int j" "start l \<le> j" "j < start l + lsize l" "1 < j" "j < uint m" using a [OF n(2)] by blast
    have "i = j" using of_int_inj_lt [of i m j] i j by simp
    then show False using i j by simp
  qed
  have one: "(of_int i :: u32) \<noteq> 1" if "1 < i" "i < uint m" for i
    using of_int_inj_lt [of i m 1] that by simp
  show "1 \<notin> log_area l" using a one by metis
  show "1 \<notin> set (targets l)" using t one by metis
  show "n \<in> log_area l \<Longrightarrow> n < m" using a of_int_lt by (metis less_trans zero_less_one order_less_imp_le)
  show "n \<in> set (targets l) \<Longrightarrow> n < m" using t of_int_lt by (metis less_trans zero_less_one order_less_imp_le)
qed

section \<open>The operations\<close>

abbreviation (input) cdata :: "kernel \<Rightarrow> nat \<Rightarrow> u8 list" where "cdata \<equiv> \<lambda>s b. bdata (bufs s b)"
abbreviation (input) cput :: "nat \<Rightarrow> u8 list \<Rightarrow> kernel \<Rightarrow> kernel" where "cput \<equiv> \<lambda>b xs. upd_buf b (\<lambda>x. x\<lparr>bdata := xs\<rparr>)"

lemma install_one_copy:
  "ldev (klog s) = 1 \<Longrightarrow> k < nat (lh_n (klog s)) \<Longrightarrow> nat (lh_n (klog s)) \<le> length (lh_block (klog s))
    \<Longrightarrow> install_one k s = copy_src_first (bread 1) cdata cput bwrite brelse (slots (klog s) ! k) (targets (klog s) ! k) s"
  by (simp add: install_one_def copy_src_first_def slots_def targets_def copy_buf_def Let_def)

lemma write_log_one_copy:
  "ldev (klog s) = 1 \<Longrightarrow> k < nat (lh_n (klog s)) \<Longrightarrow> nat (lh_n (klog s)) \<le> length (lh_block (klog s))
    \<Longrightarrow> write_log_one k s = copy_dst_first (bread 1) cdata cput bwrite brelse (targets (klog s) ! k) (slots (klog s) ! k) s"
  by (simp add: write_log_one_def copy_dst_first_def slots_def targets_def copy_buf_def Let_def)

abbreviation log_pairs :: "log \<Rightarrow> (u32 \<times> u32) list" where "log_pairs l \<equiv> zip (targets l) (slots l)"
abbreviation home_pairs :: "log \<Rightarrow> (u32 \<times> u32) list" where "home_pairs l \<equiv> zip (slots l) (targets l)"

lemma pairs_facts:
  assumes "log_ok m l"
  shows "map fst (log_pairs l) = targets l" "map snd (log_pairs l) = slots l" "map fst (home_pairs l) = slots l" "map snd (home_pairs l) = targets l"
    "fst ` set (log_pairs l) = set (targets l)" "snd ` set (log_pairs l) = set (slots l)"
    "fst ` set (home_pairs l) = set (slots l)" "snd ` set (home_pairs l) = set (targets l)"
proof -
  show m: "map fst (log_pairs l) = targets l" "map snd (log_pairs l) = slots l" "map fst (home_pairs l) = slots l" "map snd (home_pairs l) = targets l"
    using log_ok_length [OF assms] by simp_all
  show "fst ` set (log_pairs l) = set (targets l)" "snd ` set (log_pairs l) = set (slots l)"
    "fst ` set (home_pairs l) = set (slots l)" "snd ` set (home_pairs l) = set (targets l)"
    using m by (metis list.set_map)+
qed

lemma targets_slots: "log_ok m l \<Longrightarrow> set (targets l) \<inter> set (slots l) = {}"
  using log_places(2,4) [of m l] by blast

lemma frame_klog: "frame s t \<Longrightarrow> klog t = klog s \<and> disksize t = disksize s"
  by (simp add: frame_def)

lemma card_targets: "log_ok m l \<Longrightarrow> card (set (targets l)) < NBUF"
proof -
  assume l: "log_ok m l"
  then have "nat (lh_n l) < 30" by (auto simp: log_ok_def LOGSIZE_def MAXOPBLOCKS_def)
  then show ?thesis using log_ok_length [OF l] card_length [of "targets l"] by (simp add: NBUF_def)
qed

lemma write_log_prefix:
  assumes R: "cache_rep s d c Map.empty (set (targets l))" and l: "klog s = l" "log_ok (disksize s) l" and "k \<le> nat (lh_n l)"
  shows "\<exists>t. kfold write_log_one [0..<k] s = Done t
    \<and> cache_rep t (copied c (take k (log_pairs l)) d) (copied c (take k (log_pairs l)) c) Map.empty (set (targets l)) \<and> frame s t"
proof -
  let ?D = "set (targets l)" and ?ps = "log_pairs l"
  note len = log_ok_length [OF l(2)] and P = log_places [OF l(2)] and F = pairs_facts [OF l(2)]
  have n: "nat (lh_n l) \<le> length (lh_block l)" "ldev l = 1" using l(2) by (auto simp: log_ok_def)
  have dis: "distinct (map snd ?ps)" "fst ` set ?ps \<inter> snd ` set ?ps = {}"
    using slots_distinct [OF l(2)] targets_slots [OF l(2)] by (simp_all only: F)
  have D: "?D - snd ` set (take i ?ps) = ?D" for i
    using F(6) set_take_subset [of i ?ps] P(2,4) by blast
  have "\<exists>t. kfold write_log_one [0..<k] s = Done t
    \<and> cache_rep t (copied c (take k ?ps) d) (copied c (take k ?ps) c) Map.empty (?D - snd ` set (take k ?ps)) \<and> frame s t"
  proof (rule bc.copies_rep [OF R dis])
    show "k \<le> length ?ps" using assms(4) len by simp
  next
    fix i s' d' c'
    assume i: "i < length ?ps" and R': "cache_rep s' d' c' Map.empty (?D - snd ` set (take i ?ps))" and fr: "frame s s'"
    have k': "klog s' = l" "disksize s' = disksize s" "i < nat (lh_n l)" using frame_klog [OF fr] l(1) i len by simp_all
    have ps: "?ps ! i = (targets l ! i, slots l ! i)" using i by simp
    have ts: "targets l ! i \<in> ?D" "slots l ! i \<in> set (slots l)" using k'(3) len by simp_all
    have lt: "targets l ! i < disksize s'" "slots l ! i < disksize s'"
      unfolding k'(2) by (rule P(8) [OF ts(1)], rule P(7) [OF subsetD [OF P(2) ts(2)]])
    have ne: "targets l ! i \<noteq> slots l ! i" using ts targets_slots [OF l(2)] by (metis disjoint_iff)
    have w: "write_log_one i s' = copy_dst_first (bread 1) cdata cput bwrite brelse (targets l ! i) (slots l ! i) s'"
      using write_log_one_copy [of s' i] k' n by simp
    have R0: "cache_rep s' d' c' Map.empty ?D" using R' unfolding D .
    have "\<exists>t. write_log_one i s' = Done t \<and> cache_rep t (d'(slots l ! i := c' (targets l ! i))) (c'(slots l ! i := c' (targets l ! i)))
        Map.empty (?D - {slots l ! i}) \<and> frame s' t"
      unfolding w by (rule bc.copy_dst_first_rep [OF R0 ne lt card_targets [OF l(2)] disjI1 [OF ts(1)]])
    then show "\<exists>t. write_log_one i s' = Done t \<and> cache_rep t (d'(snd (?ps ! i) := c' (fst (?ps ! i)))) (c'(snd (?ps ! i) := c' (fst (?ps ! i))))
        Map.empty (?D - snd ` set (take i ?ps) - {snd (?ps ! i)}) \<and> frame s' t"
      unfolding ps fst_conv snd_conv D .
  qed
  then show ?thesis unfolding D .
qed

lemma install_prefix:
  assumes R: "cache_rep s d c Map.empty D" and D: "D = {} \<or> D = set (targets l)" and l: "klog s = l" "log_ok (disksize s) l" and "k \<le> nat (lh_n l)"
  shows "\<exists>t. kfold install_one [0..<k] s = Done t
    \<and> cache_rep t (copied c (take k (home_pairs l)) d) (copied c (take k (home_pairs l)) c) Map.empty (D - snd ` set (take k (home_pairs l))) \<and> frame s t"
proof (rule bc.copies_rep [OF R])
  note len = log_ok_length [OF l(2)] and P = log_places [OF l(2)] and F = pairs_facts [OF l(2)]
  let ?ps = "home_pairs l"
  have n: "nat (lh_n l) \<le> length (lh_block l)" "ldev l = 1" using l(2) by (auto simp: log_ok_def)
  show dis: "distinct (map snd ?ps)" "fst ` set ?ps \<inter> snd ` set ?ps = {}"
    using targets_distinct [OF l(2)] targets_slots [OF l(2)] by (simp_all only: F Int_commute)
  show "k \<le> length ?ps" using assms(5) len by simp
  fix i s' d' c'
  let ?E = "D - snd ` set (take i ?ps)"
  assume i: "i < length ?ps" and R': "cache_rep s' d' c' Map.empty ?E" and fr: "frame s s'"
  have k': "klog s' = l" "disksize s' = disksize s" "i < nat (lh_n l)" using frame_klog [OF fr] l(1) i len by simp_all
  have ps: "?ps ! i = (slots l ! i, targets l ! i)" using i by simp
  have ts: "targets l ! i \<in> set (targets l)" "slots l ! i \<in> set (slots l)" using k'(3) len by simp_all
  have lt: "slots l ! i < disksize s'" "targets l ! i < disksize s'"
    unfolding k'(2) by (rule P(7) [OF subsetD [OF P(2) ts(2)]], rule P(8) [OF ts(1)])
  have ne: "slots l ! i \<noteq> targets l ! i" using ts targets_slots [OF l(2)] by (metis disjoint_iff)
  have c: "install_one i s' = copy_src_first (bread 1) cdata cput bwrite brelse (slots l ! i) (targets l ! i) s'"
    using install_one_copy [of s' i] k' n by simp
  have "card ?E \<le> card (set (targets l))" using D by (intro card_mono) auto
  then have card: "card ?E < NBUF" using card_targets [OF l(2)] by (rule order_le_less_trans)
  have "targets l ! i \<notin> snd ` set (take i ?ps)"
  proof
    assume "targets l ! i \<in> snd ` set (take i ?ps)"
    then have "targets l ! i \<in> set (take i (targets l))" using F(4) by (metis list.set_map take_map)
    then obtain j where "j < i" "targets l ! j = targets l ! i" using k'(3) len by (auto simp: in_set_conv_nth)
    then show False using targets_distinct [OF l(2)] k'(3) len nth_eq_iff_index_eq [of "targets l" j i] by simp
  qed
  then have "targets l ! i \<in> ?E \<or> card ?E + 2 \<le> NBUF" using D ts(1) by (auto simp: NBUF_def)
  then show "\<exists>t. install_one i s' = Done t \<and> cache_rep t (d'(snd (?ps ! i) := c' (fst (?ps ! i)))) (c'(snd (?ps ! i) := c' (fst (?ps ! i))))
      Map.empty (?E - {snd (?ps ! i)}) \<and> frame s' t"
    unfolding ps fst_conv snd_conv c by (rule bc.copy_src_first_rep [OF R' ne lt card])
qed

text \<open>The header block.\<close>

lemma log_ok_head:
  assumes "log_ok m l" and "length bs = 512"
  shows "lh_read (lh_write bs (lh_n l) (lh_block l)) = (lh_n l, take (nat (lh_n l)) (lh_block l))" "length (lh_write bs (lh_n l) (lh_block l)) = 512"
proof -
  let ?xs = "take (nat (lh_n l)) (lh_block l)"
  have "lh_write bs (lh_n l) (lh_block l) = lh_write bs (lh_n l) ?xs" by (simp add: lh_write_def)
  moreover have "0 \<le> lh_n l" "lh_n l \<le> LOGSIZE" "nat (lh_n l) \<le> length ?xs" using assms(1) by (auto simp: log_ok_def)
  moreover have "\<forall>b\<in>set ?xs. int_ok b"
    using assms(1) unfolding log_ok_def int_ok_def by (meson less_trans order_less_imp_le zero_less_one neg_le_0_iff_le order_trans zero_le_numeral zero_le_power)
  ultimately show "lh_read (lh_write bs (lh_n l) (lh_block l)) = (lh_n l, ?xs)" "length (lh_write bs (lh_n l) (lh_block l)) = 512"
    using lh_read_write [of "lh_n l" ?xs bs] assms(2) by simp_all
qed

lemma log_ok_clear: "log_ok m l \<Longrightarrow> log_ok m (l\<lparr>lh_n := 0\<rparr>)"
  by (auto simp: log_ok_def)

lemma write_head_rep:
  assumes R: "cache_rep s d c Map.empty D" and l: "klog s = l" "log_ok (disksize s) l" and D: "card D < NBUF"
  defines "x \<equiv> lh_write (c (header l)) (lh_n l) (lh_block l)"
  shows "\<exists>t. write_head s = Done t \<and> cache_rep t (d(header l := x)) (c(header l := x)) Map.empty (D - {header l}) \<and> frame s t"
proof -
  let ?f = "\<lambda>bs. lh_write bs (lh_n l) (lh_block l)"
  have h: "header l < disksize s" using log_places(1,7) [OF l(2)] by blast
  have "length (c (header l)) = 512" using R buf_repD(11) by (metis cache_rep_def)
  then have len: "length (?f (c (header l))) = 512" by (rule log_ok_head(2) [OF l(2)])
  obtain t where t: "update_block (bread 1) cdata cput bwrite brelse ?f (header l) s = Done t"
    "cache_rep t (d(header l := x)) (c(header l := x)) Map.empty (D - {header l})" "frame s t"
    using bc.update_block_rep [where f = ?f, OF R h disjI2 [OF D] len] unfolding x_def by blast
  obtain b u where b: "bread 1 (header l) s = Done (b, u)" "frame s u"
    using bc.read_first [OF R h disjI2 [OF D]] by blast
  have "klog u = l" using frame_klog [OF b(2)] l(1) by simp
  then have "write_head s = update_block (bread 1) cdata cput bwrite brelse ?f (header l) s"
    using b(1) l by (simp add: write_head_def update_block_def header_def log_ok_def upd_buf_def)
  then show ?thesis using t by metis
qed

section \<open>Commit\<close>

text \<open>The state in which the file system hands a transaction to \<open>commit\<close>: its blocks are the dirty ones.\<close>

definition log_rep :: "kernel \<Rightarrow> contents \<Rightarrow> contents \<Rightarrow> bool" where
  "log_rep s d c \<longleftrightarrow> log_ok (disksize s) (klog s) \<and> cache_rep s d c Map.empty (set (targets (klog s)))
     \<and> fst (lh_read (d (header (klog s)))) = 0"

lemma log_rep_clean: "log_rep s d c \<Longrightarrow> n \<notin> set (targets (klog s)) \<Longrightarrow> c n = d n"
  using buf_repD(9) by (metis log_rep_def cache_rep_def)

definition logged :: "log \<Rightarrow> contents \<Rightarrow> contents \<Rightarrow> nat \<Rightarrow> contents" where
  "logged l d c k = copied c (take k (log_pairs l)) d"

definition published :: "log \<Rightarrow> contents \<Rightarrow> contents \<Rightarrow> contents" where
  "published l d c = (logged l d c (nat (lh_n l)))(header l := lh_write (c (header l)) (lh_n l) (lh_block l))"

definition installed :: "log \<Rightarrow> contents \<Rightarrow> contents \<Rightarrow> nat \<Rightarrow> contents" where
  "installed l d c k = copied (published l c c) (take k (home_pairs l)) (published l d c)"

lemma logged_at:
  assumes "log_ok m l"
  shows "n \<notin> set (slots l) \<Longrightarrow> logged l d c k n = d n"
    and "i < nat (lh_n l) \<Longrightarrow> logged l d c (nat (lh_n l)) (slots l ! i) = c (targets l ! i)"
proof -
  note F = pairs_facts [OF assms] and len = log_ok_length [OF assms]
  have "snd ` set (take k (log_pairs l)) \<subseteq> set (slots l)" using F(6) set_take_subset by (metis image_mono)
  then show "n \<notin> set (slots l) \<Longrightarrow> logged l d c k n = d n" unfolding logged_def by (intro copied_other) blast
  assume i: "i < nat (lh_n l)"
  have "distinct (map snd (log_pairs l))" unfolding F by (rule slots_distinct [OF assms])
  then show "logged l d c (nat (lh_n l)) (slots l ! i) = c (targets l ! i)"
    using copied_at [of "log_pairs l" i c d] i len by (simp add: logged_def)
qed

lemma published_at:
  assumes "log_ok m l"
  shows "n \<notin> log_area l \<Longrightarrow> published l d c n = d n"
    and "published l d c (header l) = lh_write (c (header l)) (lh_n l) (lh_block l)"
    and "i < nat (lh_n l) \<Longrightarrow> published l d c (slots l ! i) = c (targets l ! i)"
proof -
  note P = log_places [OF assms] and len = log_ok_length [OF assms]
  show "published l d c (header l) = lh_write (c (header l)) (lh_n l) (lh_block l)" by (simp add: published_def)
  show "n \<notin> log_area l \<Longrightarrow> published l d c n = d n"
    using P(1,2) logged_at(1) [OF assms] unfolding published_def by (metis fun_upd_other subsetD)
  assume i: "i < nat (lh_n l)"
  then have "slots l ! i \<noteq> header l" using P(3) len by (metis nth_mem)
  then show "published l d c (slots l ! i) = c (targets l ! i)" using logged_at(2) [OF assms i] by (simp add: published_def)
qed

lemma installed_at:
  assumes "log_ok m l"
  shows "n \<notin> set (targets l) \<Longrightarrow> installed l d c k n = published l d c n"
    and "installed l d c k n = published l d c n \<or> installed l d c k n = c n"
    and "i < nat (lh_n l) \<Longrightarrow> installed l d c (nat (lh_n l)) (targets l ! i) = c (targets l ! i)"
proof -
  note F = pairs_facts [OF assms] and len = log_ok_length [OF assms]
  have "snd ` set (take k (home_pairs l)) \<subseteq> set (targets l)" using F(8) set_take_subset by (metis image_mono)
  then show "n \<notin> set (targets l) \<Longrightarrow> installed l d c k n = published l d c n" unfolding installed_def by (intro copied_other) blast
  have dis: "distinct (map snd (home_pairs l))" unfolding F by (rule targets_distinct [OF assms])
  then show "i < nat (lh_n l) \<Longrightarrow> installed l d c (nat (lh_n l)) (targets l ! i) = c (targets l ! i)"
    using copied_at [of "home_pairs l" i "published l c c" "published l d c"] len published_at(3) [OF assms, of i c c]
    by (simp add: installed_def)
  show "installed l d c k n = published l d c n \<or> installed l d c k n = c n"
  proof (cases "n \<in> snd ` set (take k (home_pairs l))")
    case True
    then obtain i where i: "i < length (take k (home_pairs l))" "n = targets l ! i"
      using len by (auto simp: in_set_conv_nth image_iff)
    have "distinct (map snd (take k (home_pairs l)))" using dis by (simp flip: take_map)
    then show ?thesis
      using copied_at [of "take k (home_pairs l)" i "published l c c" "published l d c"] i len published_at(3) [OF assms, of i c c]
      by (simp add: installed_def)
  next
    case False
    then show ?thesis by (simp add: installed_def copied_other)
  qed
qed

lemma disk_rep: "cache_rep s d c H D \<Longrightarrow> disk s = d"
  by (simp add: cache_rep_def)

lemma logging_rep:
  assumes "log_rep s d c" and "k \<le> nat (lh_n (klog s))"
  shows "\<exists>t. kfold write_log_one [0..<k] s = Done t \<and> frame s t
    \<and> cache_rep t (logged (klog s) d c k) (logged (klog s) c c k) Map.empty (set (targets (klog s)))"
  using write_log_prefix [of s d c "klog s" k] assms unfolding log_rep_def logged_def by metis

lemma publishing_rep:
  assumes R: "log_rep s d c"
  shows "\<exists>u. kbind (write_log s) write_head = Done u \<and> frame s u
    \<and> cache_rep u (published (klog s) d c) (published (klog s) c c) Map.empty (set (targets (klog s)))"
proof -
  let ?l = "klog s" and ?n = "nat (lh_n (klog s))"
  have l: "log_ok (disksize s) ?l" using R by (simp add: log_rep_def)
  obtain t where t: "kfold write_log_one [0..<?n] s = Done t" "frame s t"
    "cache_rep t (logged ?l d c ?n) (logged ?l c c ?n) Map.empty (set (targets ?l))"
    using logging_rep [OF R order_refl] by blast
  have lt: "klog t = ?l" "log_ok (disksize t) ?l" using frame_klog [OF t(2)] l by simp_all
  obtain u where u: "write_head t = Done u" "frame t u"
    "cache_rep u ((logged ?l d c ?n)(header ?l := lh_write (logged ?l c c ?n (header ?l)) (lh_n ?l) (lh_block ?l)))
      ((logged ?l c c ?n)(header ?l := lh_write (logged ?l c c ?n (header ?l)) (lh_n ?l) (lh_block ?l))) Map.empty (set (targets ?l) - {header ?l})"
    using write_head_rep [OF t(3) lt card_targets [OF l]] by blast
  have "logged ?l c c ?n (header ?l) = c (header ?l)" using logged_at(1) [OF l] log_places(3) [OF l] by blast
  moreover have "set (targets ?l) - {header ?l} = set (targets ?l)" using log_places(1,4) [OF l] by blast
  ultimately have "cache_rep u (published ?l d c) (published ?l c c) Map.empty (set (targets ?l))" using u(3) by (simp add: published_def)
  then show ?thesis using t(1) u(1) frame_trans [OF t(2) u(2)] by (simp add: write_log_def)
qed

lemma installing_rep:
  assumes R: "log_rep s d c" and u: "kbind (write_log s) write_head = Done u" and k: "k \<le> nat (lh_n (klog s))"
  shows "\<exists>t. kfold install_one [0..<k] u = Done t \<and> frame s t
    \<and> cache_rep t (installed (klog s) d c k) (installed (klog s) c c k) Map.empty (set (targets (klog s)) - snd ` set (take k (home_pairs (klog s))))"
proof -
  let ?l = "klog s"
  have l: "log_ok (disksize s) ?l" using R by (simp add: log_rep_def)
  have c: "cache_rep u (published ?l d c) (published ?l c c) Map.empty (set (targets ?l))" "frame s u"
    using publishing_rep [OF R] u by auto
  have lu: "klog u = ?l" "log_ok (disksize u) ?l" using frame_klog [OF c(2)] l by simp_all
  show ?thesis
    using install_prefix [OF c(1) disjI2 [OF refl] lu k] frame_trans [OF c(2)] unfolding installed_def by blast
qed

lemma cache_rep_upd_log [simp]: "cache_rep (upd_log f s) d c H D = cache_rep s d c H D"
  by (simp add: upd_log_def cache_rep_def cli_ok_def)

lemma upd_log_simps [simp]: "klog (upd_log f s) = f (klog s)" "disksize (upd_log f s) = disksize s"
  by (simp_all add: upd_log_def)

text \<open>After the last step the whole transaction is in place and no buffer is dirty any more.\<close>

lemma commit_rep:
  assumes R: "log_rep s d c" and n: "0 < lh_n (klog s)"
  defines "l \<equiv> klog s"
  defines "h \<equiv> lh_write (published l c c (header l)) 0 (lh_block l)"
  shows "\<exists>t. commit s = Done t \<and> klog t = l\<lparr>lh_n := 0\<rparr> \<and> disksize t = disksize s \<and> (\<forall>l. locked (locks t l) = locked (locks s l))
    \<and> cache_rep t ((installed l d c (nat (lh_n l)))(header l := h)) ((installed l c c (nat (lh_n l)))(header l := h)) Map.empty {}"
proof -
  have l: "log_ok (disksize s) l" using R by (simp add: log_rep_def l_def)
  obtain u where u: "kbind (write_log s) write_head = Done u" "frame s u" using publishing_rep [OF R] by blast
  have lu: "klog u = l" using frame_klog [OF u(2)] l_def by simp
  obtain w where w: "kfold install_one [0..<nat (lh_n l)] u = Done w" "frame s w"
    "cache_rep w (installed l d c (nat (lh_n l))) (installed l c c (nat (lh_n l))) Map.empty (set (targets l) - snd ` set (take (nat (lh_n l)) (home_pairs l)))"
    using installing_rep [OF R u(1)] unfolding l_def by blast
  have "take (nat (lh_n l)) (home_pairs l) = home_pairs l" using log_ok_length [OF l] by simp
  then have D: "set (targets l) - snd ` set (take (nat (lh_n l)) (home_pairs l)) = {}" using pairs_facts(8) [OF l] by simp
  let ?w = "upd_log (\<lambda>l. l\<lparr>lh_n := 0\<rparr>) w"
  have lw: "klog ?w = l\<lparr>lh_n := 0\<rparr>" "disksize ?w = disksize s" "log_ok (disksize ?w) (l\<lparr>lh_n := 0\<rparr>)"
    using frame_klog [OF w(2)] log_ok_clear [OF l] by (simp_all add: l_def)
  have cw: "cache_rep ?w (installed l d c (nat (lh_n l))) (installed l c c (nat (lh_n l))) Map.empty {}" using w(3) unfolding D by simp
  have "installed l c c (nat (lh_n l)) (header l) = published l c c (header l)"
    using installed_at(1) [OF l] log_places(1,4) [OF l] by blast
  then obtain t where t: "write_head ?w = Done t" "frame ?w t"
    "cache_rep t ((installed l d c (nat (lh_n l)))(header l := h)) ((installed l c c (nat (lh_n l)))(header l := h)) Map.empty {}"
    using write_head_rep [OF cw lw(1,3)] by (auto simp: h_def header_def NBUF_def)
  obtain v where v: "write_log s = Done v" "write_head v = Done u" using u(1) by (cases "write_log s") auto
  have "commit s = Done t" using n v w(1) t(1) lu by (simp add: commit_def install_trans_def)
  moreover have "\<forall>l. locked (locks t l) = locked (locks s l)" using w(2) t(2) by (simp add: frame_def upd_log_def)
  ultimately show ?thesis using t(3) frame_klog [OF t(2)] lw by metis
qed

text \<open>
  \<open>commit\<close> as the sequence of its disk writes: the log blocks, the header, the home blocks, the empty header. Run one after the other
  they are \<open>commit\<close>, and each changes one block of the disk.
\<close>

definition commit_writes :: "kernel \<Rightarrow> (kernel \<Rightarrow> kernel kresult) list" where
  "commit_writes s =
     (let n = nat (lh_n (klog s)) in
      if lh_n (klog s) > 0
      then map write_log_one [0..<n] @ [write_head] @ map install_one [0..<n] @ [\<lambda>s. write_head (upd_log (\<lambda>l. l\<lparr>lh_n := 0\<rparr>) s)]
      else [])"

abbreviation run_writes :: "(kernel \<Rightarrow> kernel kresult) list \<Rightarrow> kernel \<Rightarrow> kernel kresult" where
  "run_writes \<equiv> kfold (\<lambda>w. w)"

text \<open>The disk after \<open>k\<close> of the writes.\<close>

definition commit_disk :: "log \<Rightarrow> contents \<Rightarrow> contents \<Rightarrow> nat \<Rightarrow> contents" where
  "commit_disk l d c k =
     (let n = nat (lh_n l) in
      if k \<le> n then logged l d c k
      else if k \<le> 2 * n + 1 then installed l d c (k - n - 1)
      else (installed l d c n)(header l := lh_write (published l c c (header l)) 0 (lh_block l)))"

lemma copied_snoc: "copied c (ps @ [(a, b)]) d = (copied c ps d)(b := c a)"
  by (simp add: copied_def)

lemma copied_take: "i < length ps \<Longrightarrow> copied c (take (Suc i) ps) d = (copied c (take i ps) d)(snd (ps ! i) := c (fst (ps ! i)))"
  using copied_snoc [of c "take i ps" "fst (ps ! i)" "snd (ps ! i)" d] by (simp add: take_Suc_conv_app_nth)

lemma commit_disk_one:
  assumes l: "log_ok m l" and k: "k < 2 * nat (lh_n l) + 2"
  shows "\<exists>n x. commit_disk l d c (Suc k) = (commit_disk l d c k)(n := x)"
proof -
  let ?n = "nat (lh_n l)"
  note len = log_ok_length [OF l]
  consider "k < ?n" | "k = ?n" | "?n < k" "k < 2 * ?n + 1" | "k = 2 * ?n + 1" using k by linarith
  then show ?thesis
  proof cases
    case 1
    then show ?thesis using len by (auto simp: commit_disk_def Let_def logged_def copied_take)
  next
    case 2
    then show ?thesis by (auto simp: commit_disk_def Let_def installed_def published_def copied_def)
  next
    case 3
    have "Suc k - ?n - 1 = Suc (k - ?n - 1)" "k - ?n - 1 < ?n" using 3 by linarith+
    then show ?thesis using 3 len by (auto simp: commit_disk_def Let_def installed_def copied_take)
  next
    case 4
    then show ?thesis by (auto simp: commit_disk_def Let_def)
  qed
qed

lemma kbind_kfold_Nil: "kbind x (kfold f []) = x"
  by (cases x) simp_all

lemma commit_writes_all:
  assumes R: "log_rep s d c"
  shows "run_writes (commit_writes s) s = commit s"
proof (cases "0 < lh_n (klog s)")
  case True
  let ?n = "nat (lh_n (klog s))"
  obtain u where u: "kbind (write_log s) write_head = Done u" "frame s u" using publishing_rep [OF R] by blast
  then obtain v where v: "kfold write_log_one [0..<?n] s = Done v" "write_head v = Done u"
    by (cases "write_log s") (auto simp: write_log_def)
  have "klog u = klog s" using frame_klog [OF u(2)] by simp
  then show ?thesis using True v
    by (cases "kfold install_one [0..<?n] u") (simp_all add: commit_writes_def Let_def commit_def write_log_def install_trans_def kfold_append kfold_map kbind_kfold_Nil)
qed (simp add: commit_writes_def Let_def commit_def)

lemma commit_prefix:
  assumes R: "log_rep s d c" and k: "k \<le> length (commit_writes s)"
  shows "\<exists>t c' D. run_writes (take k (commit_writes s)) s = Done t \<and> disksize t = disksize s \<and> cache_rep t (commit_disk (klog s) d c k) c' Map.empty D"
proof (cases "0 < lh_n (klog s)")
  case True
  let ?l = "klog s" and ?n = "nat (lh_n (klog s))"
  have w: "commit_writes s = map write_log_one [0..<?n] @ [write_head] @ map install_one [0..<?n] @ [\<lambda>s. write_head (upd_log (\<lambda>l. l\<lparr>lh_n := 0\<rparr>) s)]"
    using True by (simp add: commit_writes_def Let_def)
  have len: "length (commit_writes s) = 2 * ?n + 2" by (simp add: w)
  consider "k \<le> ?n" | "?n < k" "k \<le> 2 * ?n + 1" | "k = 2 * ?n + 2" using k len by linarith
  then show ?thesis
  proof cases
    case 1
    have "take k (commit_writes s) = map write_log_one [0..<k]" using 1 by (simp add: w take_map)
    moreover obtain t where "kfold write_log_one [0..<k] s = Done t" "frame s t" "cache_rep t (logged ?l d c k) (logged ?l c c k) Map.empty (set (targets ?l))"
      using logging_rep [OF R 1] by blast
    ultimately show ?thesis using 1 frame_klog by (fastforce simp: commit_disk_def Let_def kfold_map)
  next
    case 2
    let ?j = "k - ?n - 1"
    have j: "?j \<le> ?n" using 2 by linarith
    have "take k (commit_writes s) = map write_log_one [0..<?n] @ [write_head] @ map install_one [0..<?j]"
      using 2 by (simp add: w take_map take_Cons')
    moreover obtain u where u: "kbind (write_log s) write_head = Done u" using publishing_rep [OF R] by blast
    moreover then obtain v where "kfold write_log_one [0..<?n] s = Done v" "write_head v = Done u"
      by (cases "write_log s") (auto simp: write_log_def)
    moreover obtain t where "kfold install_one [0..<?j] u = Done t" "frame s t"
      "cache_rep t (installed ?l d c ?j) (installed ?l c c ?j) Map.empty (set (targets ?l) - snd ` set (take ?j (home_pairs ?l)))"
      using installing_rep [OF R u j] by blast
    ultimately show ?thesis using 2 frame_klog by (fastforce simp: commit_disk_def Let_def kfold_map kfold_append)
  next
    case 3
    then have "run_writes (take k (commit_writes s)) s = commit s" using commit_writes_all [OF R] len by simp
    then show ?thesis using commit_rep [OF R True] 3 by (auto simp: commit_disk_def Let_def)
  qed
next
  case False
  then have "commit_writes s = []" by (simp add: commit_writes_def Let_def)
  moreover have "cache_rep s d c Map.empty (set (targets (klog s)))" using R by (simp add: log_rep_def)
  ultimately show ?thesis using k False by (auto simp: commit_disk_def Let_def logged_def copied_def)
qed

section \<open>Recovery\<close>

definition head_log :: "u8 list \<Rightarrow> log \<Rightarrow> log" where
  "head_log bs l = l\<lparr>lh_n := fst (lh_read bs), lh_block := snd (lh_read bs) @ drop (length (snd (lh_read bs))) (lh_block l)\<rparr>"

lemma header_head_log [simp]: "header (head_log bs l) = header l" "header (l\<lparr>lh_n := n\<rparr>) = header l"
  by (simp_all add: head_log_def header_def)

lemma read_head_rep:
  assumes R: "cache_rep r e c Map.empty {}" and l: "log_ok (disksize r) (head_log (c (header (klog r))) (klog r))"
  shows "\<exists>t. read_head r = Done t \<and> klog t = head_log (c (header (klog r))) (klog r) \<and> disksize t = disksize r
    \<and> cache_rep t e c Map.empty {}"
proof -
  let ?h = "header (klog r)" and ?l = "head_log (c (header (klog r))) (klog r)"
  have h: "?h < disksize r" using log_places(1,7) [OF l] by simp
  obtain b u where u: "bread 1 ?h r = Done (b, u)" "cache_rep u e c [?h \<mapsto> b] {}" "frame r u"
    using bc.read_first [OF R h] by (auto simp: NBUF_def)
  have b: "bdata (bufs u b) = c ?h" using held_data [OF u(2)] by simp
  let ?u = "upd_log (\<lambda>_. ?l) u"
  have U: "cache_rep ?u e c [?h \<mapsto> b] {}" using u(2) by simp
  have "\<exists>t. brelse b ?u = Done t \<and> cache_rep t e c ([?h \<mapsto> b](?h := None)) {} \<and> frame ?u t"
    using bc.clean_law [OF R] by (intro brelse_rep [OF U]) simp_all
  moreover have "[?h \<mapsto> b](?h := None) = Map.empty" by simp
  ultimately obtain t where t: "brelse b ?u = Done t" "cache_rep t e c Map.empty {}" "frame ?u t" by metis
  obtain n bs where nb: "lh_read (c ?h) = (n, bs)" by fastforce
  have n: "n \<le> LOGSIZE" and dev: "ldev (klog r) = 1" using l nb by (auto simp: log_ok_def head_log_def)
  have "klog u = klog r" using frame_klog [OF u(3)] by simp
  then have "upd_log (\<lambda>l. l\<lparr>lh_n := n, lh_block := bs @ drop (length bs) (lh_block l)\<rparr>) u = ?u"
    using nb by (simp add: upd_log_def head_log_def)
  moreover have "bread (ldev (klog r)) (of_int (start (klog r))) r = Done (b, u)"
    using u(1) dev by (simp add: header_def)
  ultimately have "read_head r = Done t" using t(1) n b nb by (simp add: read_head_def)
  then show ?thesis using t(2) frame_klog [OF t(3)] frame_klog [OF u(3)] by simp
qed

lemma recover_rep:
  assumes R: "cache_rep r e e Map.empty {}" and l: "log_ok (disksize r) (head_log (e (header (klog r))) (klog r))"
  defines "l1 \<equiv> head_log (e (header (klog r))) (klog r)"
  defines "e1 \<equiv> (copied e (home_pairs l1) e)(header l1 := lh_write (e (header l1)) 0 (lh_block l1))"
  shows "\<exists>t. recover_from_log r = Done t \<and> klog t = l1\<lparr>lh_n := 0\<rparr> \<and> disksize t = disksize r \<and> cache_rep t e1 e1 Map.empty {}"
proof -
  have l1: "log_ok (disksize r) l1" using l by (simp add: l1_def)
  obtain u where u: "read_head r = Done u" "klog u = l1" "disksize u = disksize r" "cache_rep u e e Map.empty {}"
    using read_head_rep [OF R l] l1_def by blast
  have lu: "log_ok (disksize u) l1" using l1 u(3) by simp
  have tk: "take (nat (lh_n l1)) (home_pairs l1) = home_pairs l1" using log_ok_length [OF l1] by simp
  obtain w where w: "kfold install_one [0..<nat (lh_n l1)] u = Done w" "frame u w"
    "cache_rep w (copied e (home_pairs l1) e) (copied e (home_pairs l1) e) Map.empty {}"
    using install_prefix [OF u(4) disjI1 [OF refl] u(2) lu order_refl] unfolding tk by (auto simp: empty_Diff)
  let ?w = "upd_log (\<lambda>l. l\<lparr>lh_n := 0\<rparr>) w"
  have lw: "klog ?w = l1\<lparr>lh_n := 0\<rparr>" "disksize ?w = disksize r" "log_ok (disksize ?w) (l1\<lparr>lh_n := 0\<rparr>)"
    using frame_klog [OF w(2)] u(2,3) log_ok_clear [OF l1] by simp_all
  have cw: "cache_rep ?w (copied e (home_pairs l1) e) (copied e (home_pairs l1) e) Map.empty {}" using w(3) by simp
  have "copied e (home_pairs l1) e (header l1) = e (header l1)"
    using pairs_facts(8) [OF l1] log_places(1,4) [OF l1] by (intro copied_other) blast
  then obtain t where t: "write_head ?w = Done t" "frame ?w t" "cache_rep t e1 e1 Map.empty {}"
    using write_head_rep [OF cw lw(1,3)] by (auto simp: e1_def NBUF_def)
  have "recover_from_log r = Done t" using u(1,2) w(1) t(1) by (simp add: recover_from_log_def install_trans_def)
  then show ?thesis using t(3) frame_klog [OF t(2)] lw by metis
qed

text \<open>
  A boot: memory is lost, the disk is kept. The buffer cache is set up, then \<open>initlog\<close> finds the log through the
  super block and recovers.
\<close>

definition rebooted :: "contents \<Rightarrow> u32 \<Rightarrow> kernel \<Rightarrow> bool" where
  "rebooted e m r \<longleftrightarrow> disk r = e \<and> disksize r = m \<and> cli_ok r \<and> locked (locks r Lptable) = 0
     \<and> (\<forall>i<NBUF. \<not> B_BUSY (bufs r i) \<and> \<not> B_DIRTY (bufs r i)) \<and> length (lh_block (klog r)) = nat LOGSIZE"

definition super_ok :: "contents \<Rightarrow> log \<Rightarrow> bool" where
  "super_ok e l \<longleftrightarrow> sint (logstart (dec_superblock (e 1))) = start l \<and> sint (nlog (dec_superblock (e 1))) = lsize l"

lemma initlock_simps [simp]:
  "klog (initlock l n s) = klog s" "disksize (initlock l n s) = disksize s" "bufs (initlock l n s) = bufs s" "disk (initlock l n s) = disk s"
  "cli_ok (initlock l n s) = cli_ok s" "locked (locks (initlock l n s) m) = (if m = l then 0 else locked (locks s m))"
  by (simp_all add: initlock_def upd_lock_def cli_ok_def)

lemma cache_rep_initlock [simp]: "l \<noteq> Lbcache \<Longrightarrow> l \<noteq> Lptable \<Longrightarrow> cache_rep (initlock l n s) d c H D = cache_rep s d c H D"
  by (simp add: cache_rep_def)

lemma boot_rep:
  assumes r: "rebooted e m r" and len: "\<forall>n. length (e n) = 512" and s: "super_ok e l"
    and ok: "log_ok m (head_log (e (header l)) l0)"
    and l0: "l0 = (klog r)\<lparr>start := start l, lsize := lsize l, ldev := 1\<rparr>"
  defines "l1 \<equiv> head_log (e (header l)) l0"
  defines "e1 \<equiv> (copied e (home_pairs l1) e)(header l := lh_write (e (header l)) 0 (lh_block l1))"
  shows "\<exists>t. initlog 1 (binit r) = Done t \<and> klog t = l1\<lparr>lh_n := 0\<rparr> \<and> disksize t = m \<and> cache_rep t e1 e1 Map.empty {}"
proof -
  let ?i = "initlock Llog ''log'' (binit r)"
  have B: "cache_rep (binit r) e e Map.empty {}" "klog (binit r) = klog r" "disksize (binit r) = m"
    using binit_rep [of r] r len unfolding rebooted_def by blast+
  have I: "cache_rep ?i e e Map.empty {}" "klog ?i = klog r" "disksize ?i = m" using B by simp_all
  have "1 < m"
  proof -
    have "uint (1::u32) < uint m" using ok by (simp add: log_ok_def)
    then show ?thesis by (simp add: word_less_def)
  qed
  then have one: "1 < disksize ?i" using I(3) by simp
  obtain t where t: "read_block (bread 1) cdata brelse 1 ?i = Done (e 1, t)" "cache_rep t e e Map.empty {}" "frame ?i t"
    using bc.read_block_rep [OF I(1) one] by (auto simp: NBUF_def)
  have "readsb 1 ?i = Done (dec_superblock (e 1), t)"
    using t(1) by (auto simp: read_block_def readsb_def kbind_Done_iff)
  then have i: "initlog 1 (binit r) = recover_from_log (upd_log (\<lambda>l'. l'\<lparr>start := start l, lsize := lsize l, ldev := 1\<rparr>) t)"
    using s by (simp add: initlog_def super_ok_def)
  let ?t = "upd_log (\<lambda>l'. l'\<lparr>start := start l, lsize := lsize l, ldev := 1\<rparr>) t"
  have T: "klog ?t = l0" "disksize ?t = m" "cache_rep ?t e e Map.empty {}"
    using frame_klog [OF t(3)] I t(2) l0 by simp_all
  have h: "header l0 = header l" by (simp add: l0 header_def)
  have ok': "log_ok (disksize ?t) (head_log (e (header (klog ?t))) (klog ?t))" using ok T h by simp
  then show ?thesis using recover_rep [OF T(3)] i T h unfolding l1_def e1_def by simp
qed

section \<open>Crash and recovery\<close>

text \<open>Recovery with an empty header changes nothing outside of the log.\<close>

definition boot_log :: "log \<Rightarrow> kernel \<Rightarrow> log" where
  "boot_log l r = (klog r)\<lparr>start := start l, lsize := lsize l, ldev := 1\<rparr>"

lemma boot_log_header [simp]: "header (boot_log l r) = header l"
  by (simp add: boot_log_def header_def)

lemma fresh_log_rep:
  assumes "klog t = l1\<lparr>lh_n := 0\<rparr>" and "disksize t = m" and "cache_rep t e1 e1 Map.empty {}" and "log_ok m l1"
    and "e1 (header l1) = lh_write bs 0 (lh_block l1)" and "length bs = 512"
  shows "log_rep t (disk t) (disk t) \<and> disk t = e1"
proof -
  have "fst (lh_read (lh_write bs 0 (lh_block l1))) = 0"
    using log_ok_head(1) [OF log_ok_clear [OF assms(4)] assms(6)] by simp
  then show ?thesis using assms log_ok_clear [OF assms(4)] disk_rep [OF assms(3)] by (simp add: log_rep_def targets_def)
qed

lemma boot_empty:
  assumes r: "rebooted e m r" and len: "\<forall>n. length (e n) = 512" and s: "super_ok e l" and l: "log_ok m l"
    and h: "fst (lh_read (e (header l))) = 0"
  shows "\<exists>t. initlog 1 (binit r) = Done t \<and> log_rep t (disk t) (disk t) \<and> (\<forall>n. n \<notin> log_area l \<longrightarrow> disk t n = e n)"
proof -
  let ?l1 = "head_log (e (header l)) (boot_log l r)"
  have "lh_read (e (header l)) = (0, [])" using h by (auto simp: lh_read_def)
  then have l1: "?l1 = (boot_log l r)\<lparr>lh_n := 0\<rparr>" by (simp add: head_log_def)
  have ok: "log_ok m ?l1" using l r unfolding l1 by (auto simp: log_ok_def boot_log_def rebooted_def)
  have c: "copied e (home_pairs ?l1) e = e" unfolding l1 by (simp add: targets_def copied_def)
  obtain t where t: "initlog 1 (binit r) = Done t" "klog t = ?l1\<lparr>lh_n := 0\<rparr>" "disksize t = m"
    "cache_rep t (e(header l := lh_write (e (header l)) 0 (lh_block ?l1))) (e(header l := lh_write (e (header l)) 0 (lh_block ?l1))) Map.empty {}"
    using boot_rep [OF r len s ok boot_log_def] unfolding c by blast
  have "log_rep t (disk t) (disk t) \<and> disk t = e(header l := lh_write (e (header l)) 0 (lh_block ?l1))"
    using fresh_log_rep [OF t(2-4) ok, of "e (header l)"] len by auto
  then show ?thesis using t(1) log_places(1) [OF l] by auto
qed

text \<open>Recovery with a published header installs the whole transaction.\<close>

lemma boot_published:
  assumes r: "rebooted e m r" and len: "\<forall>n. length (e n) = 512" and s: "super_ok e l" and l: "log_ok m l"
    and h: "lh_read (e (header l)) = (lh_n l, take (nat (lh_n l)) (lh_block l))"
    and log: "\<And>i. i < nat (lh_n l) \<Longrightarrow> e (slots l ! i) = c (targets l ! i)"
    and home: "\<And>n. n \<notin> log_area l \<Longrightarrow> n \<notin> set (targets l) \<Longrightarrow> e n = c n"
  shows "\<exists>t. initlog 1 (binit r) = Done t \<and> log_rep t (disk t) (disk t) \<and> (\<forall>n. n \<notin> log_area l \<longrightarrow> disk t n = c n)"
proof -
  let ?l1 = "head_log (e (header l)) (boot_log l r)"
  have bnd: "length (lh_block l) = 30" "length (lh_block (klog r)) = 30" "0 \<le> lh_n l" "lh_n l < 30"
    using l r by (auto simp: log_ok_def rebooted_def LOGSIZE_def MAXOPBLOCKS_def)
  then have l1: "lh_n ?l1 = lh_n l" "take (nat (lh_n l)) (lh_block ?l1) = take (nat (lh_n l)) (lh_block l)" "length (lh_block ?l1) = 30"
    "start ?l1 = start l" "lsize ?l1 = lsize l" "ldev ?l1 = 1"
    using h by (simp_all add: head_log_def boot_log_def min_def)
  have ok: "log_ok m ?l1" using l l1 unfolding log_ok_def by (simp add: LOGSIZE_def MAXOPBLOCKS_def)
  have ts: "targets ?l1 = targets l" "slots ?l1 = slots l" unfolding targets_def slots_def l1 by simp_all
  let ?e1 = "(copied e (home_pairs l) e)(header l := lh_write (e (header l)) 0 (lh_block ?l1))"
  obtain t where t: "initlog 1 (binit r) = Done t" "klog t = ?l1\<lparr>lh_n := 0\<rparr>" "disksize t = m" "cache_rep t ?e1 ?e1 Map.empty {}"
    using boot_rep [OF r len s ok boot_log_def] unfolding ts by blast
  have d: "log_rep t (disk t) (disk t)" "disk t = ?e1" using fresh_log_rep [OF t(2-4) ok, of "e (header l)"] len by auto
  note F = pairs_facts [OF l] and ln = log_ok_length [OF l]
  have "?e1 n = c n" if n: "n \<notin> log_area l" for n
  proof (cases "n \<in> set (targets l)")
    case True
    then obtain i where i: "i < nat (lh_n l)" "n = targets l ! i" using ln by (auto simp: in_set_conv_nth)
    have "distinct (map snd (home_pairs l))" unfolding F by (rule targets_distinct [OF l])
    then have "copied e (home_pairs l) e n = e (slots l ! i)" using copied_at [of "home_pairs l" i e e] i ln by simp
    moreover have "n \<noteq> header l" using n log_places(1) [OF l] by blast
    ultimately show ?thesis using log [OF i(1)] i(2) by simp
  next
    case False
    then have "copied e (home_pairs l) e n = e n" using F(8) by (intro copied_other) simp
    moreover have "n \<noteq> header l" using n log_places(1) [OF l] by blast
    ultimately show ?thesis using home [OF n False] by simp
  qed
  then show ?thesis using t(1) d by auto
qed

text \<open>The disk at the crash points.\<close>

lemma rep_lengths: "cache_rep s d c H D \<Longrightarrow> length (d n) = 512 \<and> length (c n) = 512"
  using buf_repD(10,11) by (metis cache_rep_def)

text \<open>What the home blocks contain at the end of \<open>commit\<close>.\<close>

lemma installed_home:
  assumes R: "log_rep s d c"
  defines "l \<equiv> klog s"
  assumes n: "n \<notin> log_area l"
  shows "installed l d c (nat (lh_n l)) n = c n"
proof (cases "n \<in> set (targets l)")
  case True
  have l: "log_ok (disksize s) l" using R by (simp add: log_rep_def l_def)
  obtain i where "i < nat (lh_n l)" "n = targets l ! i" using True log_ok_length [OF l] by (auto simp: in_set_conv_nth)
  then show ?thesis using installed_at(3) [OF l] by blast
next
  case False
  have l: "log_ok (disksize s) l" using R by (simp add: log_rep_def l_def)
  show ?thesis using installed_at(1) [OF l False] published_at(1) [OF l n] log_rep_clean [OF R] False by (simp add: l_def)
qed

lemma super_ok_upd: "log_ok m l \<Longrightarrow> super_ok d l \<Longrightarrow> e 1 = d 1 \<Longrightarrow> super_ok e l"
  by (simp add: super_ok_def)

text \<open>Recovery from the disk after \<open>k\<close> writes: before the header is written nothing of the transaction is found, afterwards all of it.\<close>

lemma recover_before:
  assumes R: "log_rep s d c" and sup: "super_ok d (klog s)" and k: "k \<le> nat (lh_n (klog s))"
    and r: "rebooted (logged (klog s) d c k) (disksize s) r"
  shows "\<exists>u. initlog 1 (binit r) = Done u \<and> log_rep u (disk u) (disk u) \<and> (\<forall>n. n \<notin> log_area (klog s) \<longrightarrow> disk u n = d n)"
proof -
  let ?l = "klog s"
  have l: "log_ok (disksize s) ?l" and h0: "fst (lh_read (d (header ?l))) = 0" using R by (auto simp: log_rep_def)
  note P = log_places [OF l]
  obtain t c' D where e: "cache_rep t (logged ?l d c k) c' Map.empty D" using logging_rep [OF R k] by blast
  have off: "logged ?l d c k n = d n" if "n \<notin> set (slots ?l)" for n by (rule logged_at(1) [OF l that])
  have "super_ok (logged ?l d c k) ?l" using super_ok_upd [OF l sup] off P(2,5) by blast
  moreover have "fst (lh_read (logged ?l d c k (header ?l))) = 0" using h0 off [OF P(3)] by simp
  moreover have "logged ?l d c k n = d n" if "n \<notin> log_area ?l" for n using off that P(2) by blast
  ultimately show ?thesis using boot_empty [OF r _ _ l] rep_lengths [OF e] by metis
qed

lemma recover_after:
  assumes R: "log_rep s d c" and sup: "super_ok d (klog s)" and k: "k \<le> nat (lh_n (klog s))"
    and r: "rebooted (installed (klog s) d c k) (disksize s) r"
  shows "\<exists>u. initlog 1 (binit r) = Done u \<and> log_rep u (disk u) (disk u) \<and> (\<forall>n. n \<notin> log_area (klog s) \<longrightarrow> disk u n = c n)"
proof -
  let ?l = "klog s" and ?e = "installed (klog s) d c k"
  have l: "log_ok (disksize s) ?l" and rep: "cache_rep s d c Map.empty (set (targets ?l))" using R by (auto simp: log_rep_def)
  note P = log_places [OF l]
  obtain u where "kbind (write_log s) write_head = Done u" using publishing_rep [OF R] by blast
  then obtain t c' D where e: "cache_rep t ?e c' Map.empty D" using installing_rep [OF R _ k] by blast
  have off: "?e n = published ?l d c n" if "n \<notin> set (targets ?l)" for n by (rule installed_at(1) [OF l that])
  have area: "?e n = published ?l d c n" if "n \<in> log_area ?l" for n using off that P(4) by blast
  have "?e 1 = d 1" using off [OF P(6)] published_at(1) [OF l P(5)] by simp
  then have s: "super_ok ?e ?l" using super_ok_upd [OF l sup] by blast
  have h: "lh_read (?e (header ?l)) = (lh_n ?l, take (nat (lh_n ?l)) (lh_block ?l))"
    using area [OF P(1)] published_at(2) [OF l] log_ok_head(1) [OF l] rep_lengths [OF rep] by simp
  have sl: "?e (slots ?l ! i) = c (targets ?l ! i)" if i: "i < nat (lh_n ?l)" for i
  proof -
    have "slots ?l ! i \<in> set (slots ?l)" using i log_ok_length [OF l] by simp
    then show ?thesis using area P(2) published_at(3) [OF l i] by (metis subsetD)
  qed
  have hm: "?e n = c n" if "n \<notin> log_area ?l" "n \<notin> set (targets ?l)" for n
    using off that published_at(1) [OF l] log_rep_clean [OF R] by metis
  show ?thesis using boot_published [OF r _ s l h sl hm] rep_lengths [OF e] by blast
qed

lemma recover_done:
  assumes R: "log_rep s d c" and sup: "super_ok d (klog s)" and n: "0 < lh_n (klog s)"
    and r: "rebooted (commit_disk (klog s) d c (2 * nat (lh_n (klog s)) + 2)) (disksize s) r"
  shows "\<exists>u. initlog 1 (binit r) = Done u \<and> log_rep u (disk u) (disk u) \<and> (\<forall>n. n \<notin> log_area (klog s) \<longrightarrow> disk u n = c n)"
proof -
  let ?l = "klog s" and ?n = "nat (lh_n (klog s))"
  let ?x = "published ?l c c (header ?l)"
  let ?e = "(installed ?l d c ?n)(header ?l := lh_write ?x 0 (lh_block ?l))"
  have l: "log_ok (disksize s) ?l" and rep: "cache_rep s d c Map.empty (set (targets ?l))" using R by (auto simp: log_rep_def)
  note P = log_places [OF l]
  have x: "length ?x = 512" using published_at(2) [OF l] log_ok_head(2) [OF l] rep_lengths [OF rep] by simp
  obtain t c' where e: "cache_rep t ?e c' Map.empty {}" using commit_rep [OF R n] by blast
  have off: "?e n = c n" if "n \<notin> log_area ?l" for n
  proof -
    have "n \<noteq> header ?l" using that P(1) by blast
    then show ?thesis using installed_home [OF R] that by simp
  qed
  have "fst (lh_read (?e (header ?l))) = 0" using log_ok_head(1) [OF log_ok_clear [OF l] x] by simp
  moreover have "?e 1 = d 1" using off [OF P(5)] log_rep_clean [OF R P(6)] by simp
  then have "super_ok ?e ?l" using super_ok_upd [OF l sup] by blast
  moreover have "rebooted ?e (disksize s) r" using r by (simp add: commit_disk_def Let_def)
  ultimately show ?thesis using boot_empty [OF _ _ _ l, of ?e r] rep_lengths [OF e] off by metis
qed

lemma crash_recover:
  assumes R: "log_rep s d c" and sup: "super_ok d (klog s)" and k: "k \<le> length (commit_writes s)"
    and r: "rebooted (commit_disk (klog s) d c k) (disksize s) r"
  shows "\<exists>u. initlog 1 (binit r) = Done u \<and> log_rep u (disk u) (disk u)
    \<and> (\<forall>n. n \<notin> log_area (klog s) \<longrightarrow> disk u n = (if k \<le> nat (lh_n (klog s)) then d n else c n))"
proof -
  let ?n = "nat (lh_n (klog s))"
  have len: "length (commit_writes s) = (if 0 < lh_n (klog s) then 2 * ?n + 2 else 0)" by (simp add: commit_writes_def Let_def)
  consider "k \<le> ?n" | "?n < k" "k \<le> 2 * ?n + 1" | "k = 2 * ?n + 2" "0 < lh_n (klog s)"
    using k unfolding len by (cases "0 < lh_n (klog s)") (simp_all, linarith)
  then show ?thesis
  proof cases
    case 1
    then show ?thesis using recover_before [OF R sup 1, of r] r by (simp add: commit_disk_def Let_def)
  next
    case 2
    then have "k - ?n - 1 \<le> ?n" by linarith
    then show ?thesis using recover_after [OF R sup, of "k - ?n - 1" r] r 2 by (simp add: commit_disk_def Let_def)
  next
    case 3
    then show ?thesis using recover_done [OF R sup 3(2), of r] r by simp
  qed
qed

end
