(* ===== verification/Log_Tx.thy ===== *)
theory Log_Tx
  imports Log_Correct
begin

text \<open>Transactions: \<open>begin_op\<close>, \<open>log_write\<close> and \<open>end_op\<close> on top of \<open>commit\<close>.\<close>

section \<open>Adding a block\<close>

definition tx_rep :: "kernel \<Rightarrow> contents \<Rightarrow> contents \<Rightarrow> (u32 \<rightharpoonup> nat) \<Rightarrow> bool" where
  "tx_rep s d c H \<longleftrightarrow> log_ok (disksize s) (klog s) \<and> cache_rep s d c H (set (targets (klog s)))
     \<and> fst (lh_read (d (header (klog s)))) = 0 \<and> locked (locks s Llog) = 0 \<and> \<not> committing (klog s)"

text \<open>The block numbers that a log entry may have.\<close>

definition loggable :: "kernel \<Rightarrow> u32 \<Rightarrow> bool" where
  "loggable s n \<longleftrightarrow> 1 < n \<and> n < disksize s \<and> n \<notin> log_area (klog s)"

lemma sint_small: "n < (m :: u32) \<Longrightarrow> uint m < 2 ^ 31 \<Longrightarrow> sint n = uint n"
  by (simp add: word_less_def sint_uint signed_take_bit_int_eq_self_iff) (rule order_trans [OF _ unsigned_greater_eq], simp)

definition entry :: "log \<Rightarrow> nat \<Rightarrow> u32 \<Rightarrow> log" where
  "entry l i n = (let l = l\<lparr>lh_block := (lh_block l)[i := sint n]\<rparr> in if int i = lh_n l then l\<lparr>lh_n := lh_n l + 1\<rparr> else l)"

lemma log_index_spec:
  assumes "log_ok m l"
  shows "log_index l n = (if n \<in> set (targets l) then log_index l n else nat (lh_n l))"
    and "n \<in> set (targets l) \<Longrightarrow> log_index l n < nat (lh_n l) \<and> targets l ! log_index l n = n"
proof -
  have t: "of_int (lh_block l ! i) = targets l ! i" if "i < nat (lh_n l)" for i
    using that assms by (simp add: targets_def log_ok_def)
  show "log_index l n = (if n \<in> set (targets l) then log_index l n else nat (lh_n l))"
  proof -
    have "List.find (\<lambda>i. of_int (lh_block l ! i) = n) [0..<nat (lh_n l)] = None" if "n \<notin> set (targets l)"
      using that t log_ok_length [OF assms] by (auto simp: find_None_iff in_set_conv_nth)
    then show ?thesis by (simp add: log_index_def)
  qed
  assume "n \<in> set (targets l)"
  then have "List.find (\<lambda>i. of_int (lh_block l ! i) = n) [0..<nat (lh_n l)] \<noteq> None"
    using t log_ok_length [OF assms] by (auto simp: find_None_iff in_set_conv_nth)
  then obtain i where i: "List.find (\<lambda>i. of_int (lh_block l ! i) = n) [0..<nat (lh_n l)] = Some i" by blast
  then have "log_index l n = i" by (simp add: log_index_def)
  then show "log_index l n < nat (lh_n l) \<and> targets l ! log_index l n = n"
    using i t by (auto simp: find_Some_iff)
qed

lemma entry_ok:
  assumes l: "log_ok m l" and n: "1 < n" "n < m" "n \<notin> log_area l" and room: "lh_n l < lsize l - 1"
  shows "log_ok m (entry l (log_index l n) n)" and "set (targets (entry l (log_index l n) n)) = insert n (set (targets l))"
    and "lh_n (entry l (log_index l n) n) \<le> lh_n l + 1"
proof -
  let ?i = "log_index l n" and ?k = "nat (lh_n l)"
  have b: "length (lh_block l) = 30" "0 \<le> lh_n l" "lsize l \<le> 30" "uint m < 2 ^ 31" "?k < length (lh_block l)"
    using l room by (auto simp: log_ok_def LOGSIZE_def MAXOPBLOCKS_def)
  have sn: "sint n = uint n" using sint_small n(2) b(4) by blast
  have "log_ok m (entry l ?i n) \<and> set (targets (entry l ?i n)) = insert n (set (targets l)) \<and> lh_n (entry l ?i n) \<le> lh_n l + 1"
  proof (cases "n \<in> set (targets l)")
    case True
    then have i: "?i < ?k" "targets l ! ?i = n" using log_index_spec(2) [OF l] by blast+
    have "lh_block l ! ?i \<in> set (take ?k (lh_block l))" using i(1) b(5) by (auto simp: in_set_conv_nth)
    then have blk: "0 \<le> lh_block l ! ?i" "lh_block l ! ?i < uint m" using l unfolding log_ok_def by fastforce+
    have "of_int (lh_block l ! ?i) = n" using i b(5) by (simp add: targets_def)
    then have "uint n = lh_block l ! ?i" using uint_of_int_lt [OF blk] by simp
    then have "entry l ?i n = l" using i(1) sn by (simp add: entry_def Let_def)
    then show ?thesis using l True by (simp add: insert_absorb)
  next
    case False
    then have i: "?i = ?k" using log_index_spec(1) [OF l, of n] by simp
    let ?l = "entry l ?i n"
    have e: "lh_n ?l = lh_n l + 1" "lh_block ?l = (lh_block l)[?k := uint n]" "start ?l = start l" "lsize ?l = lsize l" "ldev ?l = ldev l"
      using i b(2) sn by (simp_all add: entry_def Let_def)
    have k: "nat (lh_n l + 1) = Suc ?k" using b(2) by simp
    have tk: "take (nat (lh_n ?l)) (lh_block ?l) = take ?k (lh_block l) @ [uint n]"
      unfolding e k using b(5) by (simp add: take_Suc_conv_app_nth)
    have t: "targets ?l = targets l @ [n]" unfolding targets_def tk by simp
    have "distinct (targets ?l)" using False targets_distinct [OF l] t by simp
    then have "distinct (take (nat (lh_n ?l)) (lh_block ?l))" by (simp add: targets_def distinct_map)
    moreover have "\<not> (start l \<le> uint n \<and> uint n < start l + lsize l)"
    proof
      assume "start l \<le> uint n \<and> uint n < start l + lsize l"
      then have "of_int (uint n) \<in> log_area l" unfolding log_area_def by (intro imageI) simp
      then show False using n(3) by simp
    qed
    moreover have "1 < uint n" "uint n < uint m" using n(1,2) by (simp_all add: word_less_def)
    ultimately have "log_ok m ?l" using l room b tk unfolding log_ok_def e by auto
    then show ?thesis using t e(1) by auto
  qed
  then show "log_ok m (entry l ?i n)" "set (targets (entry l ?i n)) = insert n (set (targets l))" "lh_n (entry l ?i n) \<le> lh_n l + 1" by blast+
qed

lemma entry_simps [simp]:
  "start (entry l i n) = start l" "lsize (entry l i n) = lsize l" "outstanding (entry l i n) = outstanding l"
  "committing (entry l i n) = committing l" "log_area (entry l i n) = log_area l" "header (entry l i n) = header l"
  by (simp_all add: entry_def Let_def log_area_def header_def)

lemma upd_log_enter [simp]: "upd_log f (enter lkk P r) = enter lkk P (upd_log f r)"
  by (simp add: upd_log_def)

lemma upd_log_more [simp]:
  "bufs (upd_log f s) = bufs s" "disk (upd_log f s) = disk s" "locks (upd_log f s) = locks s" "cli_ok (upd_log f s) = cli_ok s"
  "crit_ok lkk P (upd_log f s) = crit_ok lkk P s" "procs (upd_log f s) = procs s"
  by (simp_all add: upd_log_def)

lemma upd_log_upd_log [simp]: "upd_log f (upd_log g s) = upd_log (\<lambda>l. f (g l)) s"
  by (simp add: upd_log_def)

lemma cache_rep_crit_log: "cache_rep s d c H D \<Longrightarrow> cache_rep (crit Llog s) d c H D"
  by (simp add: cache_rep_def crit_locked)

lemma log_write_rep:
  assumes R: "tx_rep s d c H" and h: "H n = Some b" and n: "loggable s n"
    and room: "lh_n (klog s) < lsize (klog s) - 1" and out: "1 \<le> outstanding (klog s)"
  shows "\<exists>t. log_write b s = Done t \<and> tx_rep t d c H \<and> klog t = entry (klog s) (log_index (klog s) n) n \<and> disksize t = disksize s
    \<and> frame (upd_log (\<lambda>_. klog t) s) t"
proof -
  let ?l = "klog s"
  have l: "log_ok (disksize s) ?l" and rep: "cache_rep s d c H (set (targets ?l))" and k: "locked (locks s Llog) = 0"
    using R by (auto simp: tx_rep_def)
  let ?r = "crit Llog s"
  let ?e = "entry ?l (log_index ?l n) n"
  let ?t = "upd_buf b (\<lambda>x. x\<lparr>B_DIRTY := True\<rparr>) (upd_log (\<lambda>_. ?e) ?r)"
  have b: "blockno (bufs s b) = n" using held_data [OF rep h] by blast
  have sz: "lh_n ?l < LOGSIZE" using room l by (auto simp: log_ok_def)
  have rel: "release Llog (enter Llog (callers s) ?t) = Done ?t"
    using rep by (intro release_enter) (simp add: crit_ok_crit cache_rep_def)
  have "log_write b s = release Llog (enter Llog (callers s) ?t)"
    using k sz room out b by (simp add: log_write_def acquire_enter Let_def entry_def) (simp add: upd_log_def)
  moreover have "cache_rep ?t d c H (set (targets ?e))"
    using mark_rep [of "upd_log (\<lambda>_. ?e) ?r" d c H "set (targets ?l)" n b] h cache_rep_crit_log [OF rep] entry_ok(2) [OF l, of n] n room
    by (simp add: loggable_def)
  moreover have "log_ok (disksize ?t) ?e" using entry_ok(1) [OF l, of n] n room by (simp add: loggable_def)
  moreover have "header ?e = header ?l" "committing ?e = committing ?l" by (simp_all add: entry_def Let_def header_def)
  moreover have "frame (upd_log (\<lambda>_. ?e) s) ?t" using k by (simp add: frame_def crit_locked) (simp add: upd_log_def upd_buf_def)
  ultimately show ?thesis using R rel by (simp add: tx_rep_def crit_locked)
qed

section \<open>Whole transactions\<close>

lemma begin_op_rep:
  assumes R: "log_rep s d c" and k: "locked (locks s Llog) = 0" and q: "\<not> committing (klog s)"
    and room: "lh_n (klog s) + (outstanding (klog s) + 1) * MAXOPBLOCKS \<le> LOGSIZE"
  shows "\<exists>t. begin_op s = Done t \<and> tx_rep t d c Map.empty \<and> klog t = (klog s)\<lparr>outstanding := outstanding (klog s) + 1\<rparr>
    \<and> disksize t = disksize s \<and> (\<forall>l. locked (locks t l) = locked (locks s l))"
proof -
  let ?r = "crit Llog s"
  let ?l = "(klog s)\<lparr>outstanding := outstanding (klog s) + 1\<rparr>"
  let ?t = "upd_log (\<lambda>_. ?l) ?r"
  have rep: "cache_rep s d c Map.empty (set (targets (klog s)))" using R by (simp add: log_rep_def)
  have rel: "release Llog (enter Llog (callers s) ?t) = Done ?t"
    using rep by (intro release_enter) (simp add: crit_ok_crit cache_rep_def)
  have "begin_op_call s = Done (Ret (), ?t)"
    using k q room rel by (simp add: begin_op_call_def begin_op_body_def acquire_enter Let_def) (simp add: upd_log_def)
  then have "begin_op s = Done ?t" by (simp add: begin_op_def)
  moreover have "log_ok (disksize ?t) ?l" "targets ?l = targets (klog s)" "header ?l = header (klog s)"
    using R by (simp_all add: log_rep_def log_ok_def targets_def header_def)
  ultimately show ?thesis using R q k cache_rep_crit_log [OF rep] by (simp add: tx_rep_def log_rep_def crit_locked)
qed

text \<open>One update of a block inside of a transaction, as the file system does it.\<close>

definition write_block :: "u32 \<times> u8 list \<Rightarrow> kernel \<Rightarrow> kernel kresult" where
  "write_block = (\<lambda>(n, xs) s. kbind (bread 1 n s) (\<lambda>(b, s).
     kbind (log_write b (upd_buf b (\<lambda>x. x\<lparr>bdata := xs\<rparr>) s)) (brelse b)))"

lemma write_block_rep:
  assumes R: "tx_rep s d c Map.empty" and n: "loggable s n" "length xs = 512"
    and room: "lh_n (klog s) < lsize (klog s) - 1" and out: "1 \<le> outstanding (klog s)"
  shows "\<exists>t. write_block (n, xs) s = Done t \<and> tx_rep t d (c(n := xs)) Map.empty
    \<and> klog t = entry (klog s) (log_index (klog s) n) n \<and> disksize t = disksize s"
proof -
  let ?l = "klog s" and ?D = "set (targets (klog s))"
  have l: "log_ok (disksize s) ?l" and rep: "cache_rep s d c Map.empty ?D" using R by (auto simp: tx_rep_def)
  have nd: "n < disksize s" using n(1) by (simp add: loggable_def)
  obtain b u where u: "bread 1 n s = Done (b, u)" "cache_rep u d c [n \<mapsto> b] ?D" "frame s u"
    using bc.read_first [OF rep nd disjI2 [OF card_targets [OF l]]] by blast
  let ?u = "upd_buf b (\<lambda>x. x\<lparr>bdata := xs\<rparr>) u"
  have h: "[n \<mapsto> b] n = Some b" by simp
  have cu: "cache_rep ?u d (c(n := xs)) [n \<mapsto> b] ?D" by (rule set_rep [OF u(2) h n(2)])
  have ku: "klog ?u = ?l" "disksize ?u = disksize s" using frame_klog [OF u(3)] by simp_all
  have tu: "tx_rep ?u d (c(n := xs)) [n \<mapsto> b]" using R cu u(3) ku by (simp add: tx_rep_def frame_def)
  have nu: "loggable ?u n" using n(1) ku by (simp add: loggable_def)
  obtain v where v: "log_write b ?u = Done v" "tx_rep v d (c(n := xs)) [n \<mapsto> b]" "klog v = entry ?l (log_index ?l n) n" "disksize v = disksize s"
    using log_write_rep [OF tu h nu] room out unfolding ku by blast
  have nv: "n \<in> set (targets (klog v))" using entry_ok(2) [OF l, of n] n(1) room v(3) by (simp add: loggable_def)
  have cv: "cache_rep v d (c(n := xs)) [n \<mapsto> b] (set (targets (klog v)))" using v(2) by (simp add: tx_rep_def)
  have "[n \<mapsto> b](n := None) = Map.empty" by simp
  then obtain t where t: "brelse b v = Done t" "cache_rep t d (c(n := xs)) Map.empty (set (targets (klog v)))" "frame v t"
    using brelse_rep [OF cv h disjI1 [OF nv]] by metis
  have "tx_rep t d (c(n := xs)) Map.empty" using v(2) t(2,3) frame_klog [OF t(3)] by (simp add: tx_rep_def frame_def)
  moreover have "write_block (n, xs) s = Done t" using u(1) v(1) t(1) by (simp add: write_block_def)
  ultimately show ?thesis using v(3,4) frame_klog [OF t(3)] by metis
qed

definition written :: "(u32 \<times> u8 list) list \<Rightarrow> contents \<Rightarrow> contents" where
  "written ws c = fold (\<lambda>(n, xs) c. c(n := xs)) ws c"

lemma write_blocks_rep:
  assumes "tx_rep s d c Map.empty" and "1 \<le> outstanding (klog s)" and "\<forall>(n, xs)\<in>set ws. loggable s n \<and> length xs = 512"
    and "lh_n (klog s) + int (length ws) \<le> lsize (klog s) - 1"
  shows "\<exists>t. kfold write_block ws s = Done t \<and> tx_rep t d (written ws c) Map.empty \<and> outstanding (klog t) = outstanding (klog s)
    \<and> log_area (klog t) = log_area (klog s) \<and> header (klog t) = header (klog s) \<and> lsize (klog t) = lsize (klog s) \<and> disksize t = disksize s"
  using assms
proof (induction ws arbitrary: s c)
  case Nil
  then show ?case by (simp add: written_def)
next
  case (Cons w ws)
  obtain n xs where w: "w = (n, xs)" by fastforce
  have n: "loggable s n" "length xs = 512" "lh_n (klog s) < lsize (klog s) - 1" using Cons.prems(3,4) w by auto
  obtain u where u: "write_block (n, xs) s = Done u" "tx_rep u d (c(n := xs)) Map.empty"
    "klog u = entry (klog s) (log_index (klog s) n) n" "disksize u = disksize s"
    using write_block_rep [OF Cons.prems(1) n Cons.prems(2)] by blast
  have "log_ok (disksize s) (klog s)" using Cons.prems(1) by (simp add: tx_rep_def)
  then have "lh_n (klog u) \<le> lh_n (klog s) + 1" using entry_ok(3) n u(3) by (simp add: loggable_def)
  then have "lh_n (klog u) + int (length ws) \<le> lsize (klog u) - 1" using Cons.prems(4) u(3) by simp
  moreover have "\<forall>(n, xs)\<in>set ws. loggable u n \<and> length xs = 512" using Cons.prems(3) u(3,4) by (auto simp: loggable_def)
  moreover have "1 \<le> outstanding (klog u)" using Cons.prems(2) u(3) by simp
  ultimately obtain t where t: "kfold write_block ws u = Done t" "tx_rep t d (written ws (c(n := xs))) Map.empty"
    "outstanding (klog t) = outstanding (klog u)" "log_area (klog t) = log_area (klog u)" "header (klog t) = header (klog u)"
    "lsize (klog t) = lsize (klog u)" "disksize t = disksize u"
    using Cons.IH [OF u(2)] by blast
  then show ?case using u w by (auto simp: written_def)
qed

lemma end_op_rep:
  assumes R: "tx_rep s d c Map.empty" and out: "outstanding (klog s) = 1"
  shows "\<exists>t. end_op s = Done t \<and> log_rep t (disk t) (disk t) \<and> (\<forall>n. n \<notin> log_area (klog s) \<longrightarrow> disk t n = c n)
    \<and> outstanding (klog t) = 0 \<and> \<not> committing (klog t) \<and> locked (locks t Llog) = 0"
proof -
  let ?l = "klog s"
  let ?l1 = "?l\<lparr>outstanding := 0, committing := True\<rparr>"
  let ?u = "upd_log (\<lambda>_. ?l1) (crit Llog s)"
  have l: "log_ok (disksize s) ?l" and rep: "cache_rep s d c Map.empty (set (targets ?l))" and k: "locked (locks s Llog) = 0"
    and q: "\<not> committing ?l" and h: "fst (lh_read (d (header ?l))) = 0"
    using R by (auto simp: tx_rep_def)
  have l1: "log_ok (disksize s) ?l1" "targets ?l1 = targets ?l" "header ?l1 = header ?l" "log_area ?l1 = log_area ?l" "lh_n ?l1 = lh_n ?l"
    using l by (simp_all add: log_ok_def targets_def header_def log_area_def)
  have U: "log_rep ?u d c" using l1 h cache_rep_crit_log [OF rep] by (simp add: log_rep_def)
  have rel: "release Llog (enter Llog (callers s) ?u) = Done ?u"
    using rep by (intro release_enter) (simp add: crit_ok_crit cache_rep_def)
  have locks: "locked (locks ?u Llog) = 0" "locked (locks ?u Lptable) = 0" using rep by (simp_all add: crit_locked cache_rep_def)
  obtain v e where v: "commit ?u = Done v" "klog v = ?l1\<lparr>lh_n := 0\<rparr>" "disksize v = disksize s" "cache_rep v e e Map.empty {}"
    "locked (locks v Llog) = 0" "\<forall>n. n \<notin> log_area ?l \<longrightarrow> e n = c n" "fst (lh_read (e (header ?l))) = 0"
  proof (cases "0 < lh_n ?l")
    case True
    let ?h = "lh_write (published ?l1 c c (header ?l)) 0 (lh_block ?l1)"
    let ?e = "(installed ?l1 d c (nat (lh_n ?l)))(header ?l := ?h)"
    obtain v c1 where v: "commit ?u = Done v" "klog v = ?l1\<lparr>lh_n := 0\<rparr>" "disksize v = disksize s" "cache_rep v ?e c1 Map.empty {}"
      "\<forall>l. locked (locks v l) = locked (locks ?u l)"
      using commit_rep [OF U] True l1 by auto
    have "c1 = ?e" using bc.clean_law [OF v(4)] by (simp add: fun_eq_iff)
    moreover have "length (published ?l1 c c (header ?l)) = 512"
      using published_at(2) [OF l1(1), of c c] log_ok_head(2) [OF l1(1), of "c (header ?l)"] rep_lengths [OF rep] l1(3) by simp
    then have "fst (lh_read ?h) = 0" using log_ok_head(1) [OF log_ok_clear [OF l1(1)]] by simp
    moreover have "?e n = c n" if "n \<notin> log_area ?l" for n
      using installed_home [OF U, of n] that l1 log_places(1) [OF l] by auto
    ultimately show thesis using that [of v ?e] v locks by simp
  next
    case False
    then have z: "lh_n ?l = 0" "targets ?l = []" using l by (auto simp: log_ok_def targets_def)
    have cu: "cache_rep ?u d c Map.empty {}" using U l1(2) z(2) by (simp add: log_rep_def)
    have "c = d" using bc.clean_law [OF cu] by (simp add: fun_eq_iff)
    moreover have "?l1\<lparr>lh_n := 0\<rparr> = ?l1" using z(1) by simp
    moreover have "commit ?u = Done ?u" using z(1) by (simp add: commit_def)
    ultimately show thesis using that [of ?u d] cu locks h by simp
  qed
  let ?w = "upd_log (\<lambda>l. l\<lparr>committing := False\<rparr>) (crit Llog v)"
  let ?t = "(dbg Lptable ?w)\<lparr>procs := wake_all ChLog (procs v)\<rparr>"
  have cv: "cli_ok v" "locked (locks v Lptable) = 0" using v(4) by (simp_all add: cache_rep_def)
  have w: "wakeup ChLog (enter Llog (callers v) ?w) = Done (enter Llog (callers v) ?t)"
    using cv by (simp add: wakeup_enter crit_locked)
  have t: "release Llog (enter Llog (callers v) ?t) = Done ?t"
    using cv by (intro release_enter) (simp add: crit_ok_dbg crit_ok_crit)
  have "end_op s = kbind (commit ?u) (\<lambda>s. kbind (acquire Llog s) (\<lambda>s.
        kbind (wakeup ChLog (upd_log (\<lambda>l. l\<lparr>committing := False\<rparr>) s)) (release Llog)))"
    using k q out rel by (simp add: end_op_def acquire_enter Let_def) (simp add: upd_log_def)
  then have "end_op s = Done ?t" using v(1,5) w t by (simp add: acquire_enter)
  moreover have "cache_rep ?t e e Map.empty {}" using cache_rep_crit_log [OF v(4)] by (simp add: cache_rep_def lock_words)
  moreover have "log_ok (disksize s) (?l1\<lparr>lh_n := 0, committing := False\<rparr>)" "targets (?l1\<lparr>lh_n := 0, committing := False\<rparr>) = []"
    "header (?l1\<lparr>lh_n := 0, committing := False\<rparr>) = header ?l"
    using l by (auto simp: log_ok_def targets_def header_def)
  ultimately show ?thesis using v disk_rep [of ?t e] by (simp add: log_rep_def lock_words)
qed

end
