(* ===== verification/Inode_Correct.thy ===== *)
theory Inode_Correct
  imports Inode Log_Tx
begin

text \<open>The block allocator, the inode cache and the on-disk inodes inside of a transaction.\<close>

section \<open>Steps of a transaction\<close>

text \<open>
  \<open>tx_step k s t\<close>: between \<open>s\<close> and \<open>t\<close> at most \<open>k\<close> blocks were added to the transaction, and the inodes, the files and
  the locks are as before.
\<close>

definition tx_step :: "int \<Rightarrow> u32 set \<Rightarrow> kernel \<Rightarrow> kernel \<Rightarrow> bool" where
  "tx_step k W s t \<longleftrightarrow> sb t = sb s \<and> inodes t = inodes s \<and> disksize t = disksize s \<and> me t = me s \<and> files t = files s
     \<and> (\<forall>l. locked (locks t l) = locked (locks s l)) \<and> (\<forall>c. cproc (cpus t c) = cproc (cpus s c))
     \<and> lh_n (klog t) \<le> lh_n (klog s) + k \<and> lsize (klog t) = lsize (klog s) \<and> start (klog t) = start (klog s)
     \<and> outstanding (klog t) = outstanding (klog s) \<and> set (targets (klog t)) \<subseteq> set (targets (klog s)) \<union> W"

lemma tx_step_frame: "frame s t \<Longrightarrow> tx_step 0 {} s t"
  by (simp add: frame_def tx_step_def)

lemma tx_step_trans: "tx_step j V s t \<Longrightarrow> tx_step k W t u \<Longrightarrow> tx_step (j + k) (V \<union> W) s u"
  unfolding tx_step_def by (intro conjI) auto

lemma tx_step_weaken: "tx_step j V s t \<Longrightarrow> j \<le> k \<Longrightarrow> V \<subseteq> W \<Longrightarrow> tx_step k W s t"
  unfolding tx_step_def by auto

definition room :: "int \<Rightarrow> kernel \<Rightarrow> bool" where
  "room k s \<longleftrightarrow> lh_n (klog s) + k \<le> lsize (klog s) - 1 \<and> 1 \<le> outstanding (klog s)"

lemma room_step: "tx_step j W s t \<Longrightarrow> room (j + k) s \<Longrightarrow> room k t"
  by (simp add: tx_step_def room_def)

lemma room_less: "room k s \<Longrightarrow> j \<le> k \<Longrightarrow> room j s"
  by (simp add: room_def)

lemma loggable_step: "tx_step j W s t \<Longrightarrow> loggable t n = loggable s n"
  by (simp add: tx_step_def loggable_def log_area_def)

text \<open>At most one other block is held while a block is read, and then the log is not full.\<close>

definition hold_ok :: "(u32 \<rightharpoonup> nat) \<Rightarrow> kernel \<Rightarrow> bool" where
  "hold_ok H s \<longleftrightarrow> H = Map.empty \<or> card (dom H) \<le> 1 \<and> room 1 s"

lemma hold_empty [simp]: "hold_ok Map.empty s"
  by (simp add: hold_ok_def)

lemma hold_one: "room 1 s \<Longrightarrow> hold_ok [m \<mapsto> a] s"
  by (simp add: hold_ok_def)

lemma hold_step: "hold_ok H s \<Longrightarrow> tx_step 0 W s t \<Longrightarrow> hold_ok H t"
  using room_step [of 0 W s t 1] by (auto simp: hold_ok_def)

lemma tx_bread_held:
  assumes R: "tx_rep s d c H" and n: "n < disksize s" "H n = None" and h: "hold_ok H s"
  shows "\<exists>b t. bread 1 n s = Done (b, t) \<and> tx_rep t d c (H(n \<mapsto> b)) \<and> frame s t"
proof -
  let ?T = "set (targets (klog s))"
  have l: "log_ok (disksize s) (klog s)" and rep: "cache_rep s d c H ?T" using R by (auto simp: tx_rep_def)
  have "card (dom H \<union> ?T) < NBUF"
  proof (cases "H = Map.empty")
    case True
    then show ?thesis using card_targets [OF l] by simp
  next
    case False
    then have r: "card (dom H) \<le> 1" "room 1 s" using h by (simp_all add: hold_ok_def)
    have "card ?T \<le> nat (lh_n (klog s))" using card_length [of "targets (klog s)"] log_ok_length [OF l] by simp
    moreover have "lh_n (klog s) \<le> 28" using r(2) l by (simp add: room_def log_ok_def LOGSIZE_def MAXOPBLOCKS_def)
    ultimately show ?thesis using card_Un_le [of "dom H" ?T] r(1) by (simp add: NBUF_def MAXOPBLOCKS_def)
  qed
  then obtain b t where t: "bread 1 n s = Done (b, t)" "cache_rep t d c (H(n \<mapsto> b)) ?T" "frame s t"
    using bc.rd_law [OF rep n(2,1)] by blast
  then show ?thesis using R frame_klog [OF t(3)] by (simp add: tx_rep_def frame_def)
qed

lemma tx_bread:
  assumes R: "tx_rep s d c Map.empty" and n: "n < disksize s"
  shows "\<exists>b t. bread 1 n s = Done (b, t) \<and> tx_rep t d c [n \<mapsto> b] \<and> frame s t"
  using tx_bread_held [OF R n] by simp

lemma tx_data: "tx_rep s d c H \<Longrightarrow> H n = Some b \<Longrightarrow> data s b = c n \<and> length (c n) = 512"
  using held_data rep_lengths by (metis tx_rep_def)

lemma tx_length: "tx_rep s d c H \<Longrightarrow> length (c n) = 512"
  using rep_lengths by (metis tx_rep_def)

lemma tx_brelse_held:
  assumes R: "tx_rep s d c H" and h: "H n = Some b" and clean: "n \<in> set (targets (klog s)) \<or> c n = d n"
  shows "\<exists>t. brelse b s = Done t \<and> tx_rep t d c (H(n := None)) \<and> frame s t"
proof -
  have rep: "cache_rep s d c H (set (targets (klog s)))" using R by (simp add: tx_rep_def)
  obtain t where t: "brelse b s = Done t" "cache_rep t d c (H(n := None)) (set (targets (klog s)))" "frame s t"
    using brelse_rep [OF rep h clean] by metis
  then show ?thesis using R frame_klog [OF t(3)] by (simp add: tx_rep_def frame_def)
qed

lemma tx_brelse:
  assumes R: "tx_rep s d c [n \<mapsto> b]" and clean: "n \<in> set (targets (klog s)) \<or> c n = d n"
  shows "\<exists>t. brelse b s = Done t \<and> tx_rep t d c Map.empty \<and> frame s t"
  using tx_brelse_held [OF R _ clean] by simp

lemma tx_clean_held: "tx_rep s d c H \<Longrightarrow> H n = None \<Longrightarrow> n \<in> set (targets (klog s)) \<or> c n = d n"
  using bc.clean_law [of s d c H "set (targets (klog s))" n] by (auto simp: tx_rep_def)

lemma tx_clean: "tx_rep s d c Map.empty \<Longrightarrow> n \<in> set (targets (klog s)) \<or> c n = d n"
  by (simp add: tx_clean_held)

text \<open>A block that is only read.\<close>

lemma tx_read:
  assumes R: "tx_rep s d c Map.empty" and n: "n < disksize s"
  shows "\<exists>b t u. bread 1 n s = Done (b, t) \<and> data t b = c n \<and> frame s t \<and> brelse b t = Done u \<and> tx_rep u d c Map.empty \<and> frame s u"
proof -
  obtain b t where t: "bread 1 n s = Done (b, t)" "tx_rep t d c [n \<mapsto> b]" "frame s t" using tx_bread [OF R n] by blast
  have "n \<in> set (targets (klog t)) \<or> c n = d n" using tx_clean [OF R] frame_klog [OF t(3)] by simp
  then obtain u where u: "brelse b t = Done u" "tx_rep u d c Map.empty" "frame t u" using tx_brelse [OF t(2)] by blast
  have "data t b = c n" using tx_data [OF t(2), of n b] by simp
  then show ?thesis using t(1,3) u frame_trans [OF t(3) u(3)] by blast
qed

text \<open>A held block that is changed, logged and released.\<close>

lemma log_release_held:
  assumes R: "tx_rep s d c H" and h: "H n = Some b" and n: "loggable s n" "length xs = 512" and r: "room 1 s"
  shows "\<exists>t. log_release b (set_data b xs s) = Done t \<and> tx_rep t d (c(n := xs)) (H(n := None)) \<and> tx_step 1 {n} s t"
proof -
  let ?l = "klog s" and ?D = "set (targets (klog s))"
  have l: "log_ok (disksize s) ?l" and rep: "cache_rep s d c H ?D" using R by (auto simp: tx_rep_def)
  let ?u = "upd_buf b (\<lambda>x. x\<lparr>bdata := xs\<rparr>) s"
  have cu: "cache_rep ?u d (c(n := xs)) H ?D" by (rule set_rep [OF rep h n(2)])
  have tu: "tx_rep ?u d (c(n := xs)) H" using R cu by (simp add: tx_rep_def)
  have nu: "loggable ?u n" using n(1) by (simp add: loggable_def)
  have ru: "lh_n (klog ?u) < lsize (klog ?u) - 1" "1 \<le> outstanding (klog ?u)" using r by (simp_all add: room_def)
  obtain v where v: "log_write b ?u = Done v" "tx_rep v d (c(n := xs)) H" "klog v = entry ?l (log_index ?l n) n" "disksize v = disksize s"
    "frame (upd_log (\<lambda>_. klog v) ?u) v"
    using log_write_rep [OF tu h nu ru] unfolding upd_buf_simps by blast
  have n': "1 < n" "n < disksize s" "n \<notin> log_area ?l" using n(1) by (simp_all add: loggable_def)
  have r': "lh_n ?l < lsize ?l - 1" using r by (simp add: room_def)
  note e = entry_ok [OF l n' r', folded v(3)]
  have "n \<in> set (targets (klog v))" unfolding e(2) by simp
  then obtain t where t: "brelse b v = Done t" "tx_rep t d (c(n := xs)) (H(n := None))" "frame v t"
    using tx_brelse_held [OF v(2) h disjI1] by blast
  have "log_release b (set_data b xs s) = Done t" using v(1) t(1) by (simp add: log_release_def set_data_def)
  moreover have "tx_step 1 {n} s v"
    using v(5) e(2,3) unfolding v(3) by (simp add: frame_def tx_step_def) (simp add: upd_log_def upd_buf_def)
  then have "tx_step (1 + 0) ({n} \<union> {}) s t" by (rule tx_step_trans [OF _ tx_step_frame [OF t(3)]])
  ultimately show ?thesis using t(2) by auto
qed

lemma log_release_rep:
  assumes R: "tx_rep s d c [n \<mapsto> b]" and n: "loggable s n" "length xs = 512" and r: "room 1 s"
  shows "\<exists>t. log_release b (set_data b xs s) = Done t \<and> tx_rep t d (c(n := xs)) Map.empty \<and> tx_step 1 {n} s t"
  using log_release_held [OF R _ n r] by simp

section \<open>Inodes on disk\<close>

lemma get_put_dinode:
  assumes "length bs = 512" and "k < 8" and "dinode_ok x"
  shows "get_dinode (put_dinode bs k x) k = x" and "length (put_dinode bs k x) = 512"
    and "j < 8 \<Longrightarrow> j \<noteq> k \<Longrightarrow> get_dinode (put_dinode bs k x) j = get_dinode bs j"
proof -
  have len: "length (enc_dinode x) = 64" using assms(3) by (simp add: enc_dinode_length dinode_ok_def)
  have fit: "64 * k + length (enc_dinode x) \<le> length bs" using assms(1,2) len by simp
  show "length (put_dinode bs k x) = 512" using blit_length [OF fit] assms(1) by (simp add: put_dinode_def)
  show "get_dinode (put_dinode bs k x) k = x"
    using slice_blit [OF fit] len dec_enc_dinode [OF assms(3)] by (simp add: get_dinode_def put_dinode_def)
  assume "j < 8" "j \<noteq> k"
  then have "64 * j + 64 \<le> length bs" "64 * j + 64 \<le> 64 * k \<or> 64 * k + length (enc_dinode x) \<le> 64 * j"
    using assms(1) len by auto
  then show "get_dinode (put_dinode bs k x) j = get_dinode bs j"
    using slice_blit_other [OF fit] by (simp add: get_dinode_def put_dinode_def)
qed

definition slot_of :: "u32 \<Rightarrow> nat" where "slot_of i = unat (i mod IPB)"

lemma slot_less: "slot_of i < 8"
  by (simp add: slot_of_def IPB_def unat_mod)

lemma iupdate_rep:
  assumes R: "tx_rep s d c Map.empty" and dev: "idev (inodes s ip) = 1" and ok: "dinode_ok (dinode_of (inodes s ip))"
    and n: "loggable s (IBLOCK (inum (inodes s ip)) (sb s))" and r: "room 1 s"
  defines "n \<equiv> IBLOCK (inum (inodes s ip)) (sb s)"
  shows "\<exists>t. iupdate ip s = Done t \<and> tx_step 1 {n} s t
    \<and> tx_rep t d (c(n := put_dinode (c n) (slot_of (inum (inodes s ip))) (dinode_of (inodes s ip)))) Map.empty"
proof -
  let ?x = "inodes s ip"
  let ?k = "slot_of (inum ?x)"
  have nd: "n < disksize s" and nl: "loggable s n" using n by (simp_all add: loggable_def n_def)
  obtain b t where t: "bread 1 n s = Done (b, t)" "tx_rep t d c [n \<mapsto> b]" "frame s t" using tx_bread [OF R nd] by blast
  have dat: "data t b = c n" "length (c n) = 512" using tx_data [OF t(2), of n b] by simp_all
  have len: "length (put_dinode (c n) ?k (dinode_of ?x)) = 512" by (rule get_put_dinode(2) [OF dat(2) slot_less ok])
  have nt: "loggable t n" using nl loggable_step [OF tx_step_frame [OF t(3)]] by simp
  have rt: "room 1 t" using room_step [OF tx_step_frame [OF t(3)], of 1] r by simp
  obtain u where u: "log_release b (set_data b (put_dinode (c n) ?k (dinode_of ?x)) t) = Done u"
    "tx_rep u d (c(n := put_dinode (c n) ?k (dinode_of ?x))) Map.empty" "tx_step 1 {n} t u"
    using log_release_rep [OF t(2) nt len rt] by blast
  have "iupdate ip s = Done u" using t(1) u(1) dat(1) dev unfolding iupdate_def Let_def n_def slot_of_def by simp
  then show ?thesis using u(2) tx_step_trans [OF tx_step_frame [OF t(3)] u(3)] by auto
qed

text \<open>Loading an inode that is not valid yet.\<close>

lemma tx_rep_upd_inode [simp]: "tx_rep (upd_inode ip f s) d c H = tx_rep s d c H"
  by (simp add: upd_inode_def tx_rep_def cache_rep_def cli_ok_def)

lemma tx_rep_crit: "tx_rep s d c H \<Longrightarrow> tx_rep (crit Licache s) d c H"
  by (simp add: tx_rep_def cache_rep_def crit_locked)

lemma upd_inode_simps [simp]:
  "inodes (upd_inode ip f s) = (inodes s)(ip := f (inodes s ip))" "sb (upd_inode ip f s) = sb s" "disksize (upd_inode ip f s) = disksize s"
  "klog (upd_inode ip f s) = klog s" "locks (upd_inode ip f s) = locks s" "cli_ok (upd_inode ip f s) = cli_ok s" "bufs (upd_inode ip f s) = bufs s"
  "crit_ok l P (upd_inode ip f s) = crit_ok l P s" "upd_inode ip f (enter l P s) = enter l P (upd_inode ip f s)"
  by (simp_all add: upd_inode_def)

lemma of_dinode_busy: "of_dinode x (y\<lparr>I_BUSY := b\<rparr>) = (of_dinode x y)\<lparr>I_BUSY := b\<rparr>"
  by (cases y) (simp add: of_dinode_def)

lemma ilock_load:
  assumes R: "tx_rep s d c Map.empty" and i: "idev (inodes s ip) = 1" "1 \<le> iref (inodes s ip)" "\<not> I_BUSY (inodes s ip)" "\<not> I_VALID (inodes s ip)"
    and free: "locked (locks s Licache) = 0"
  defines "n \<equiv> IBLOCK (inum (inodes s ip)) (sb s)"
  defines "x \<equiv> get_dinode (c n) (slot_of (inum (inodes s ip)))"
  assumes n: "n < disksize s" and ty: "d_type x \<noteq> 0"
  shows "\<exists>t. ilock ip s = Done t \<and> tx_rep t d c Map.empty \<and> inodes t = (inodes s)(ip := (of_dinode x (inodes s ip))\<lparr>I_BUSY := True, I_VALID := True\<rparr>)
    \<and> sb t = sb s \<and> klog t = klog s \<and> disksize t = disksize s"
proof -
  let ?u = "upd_inode ip (\<lambda>x. x\<lparr>I_BUSY := True\<rparr>) (crit Licache s)"
  have cli: "cli_ok s" using R by (simp add: tx_rep_def cache_rep_def)
  have rel: "release Licache (enter Licache (callers s) ?u) = Done ?u" using cli by (intro release_enter) (simp add: crit_ok_crit)
  have U: "tx_rep ?u d c Map.empty" using tx_rep_crit [OF R] by simp
  have nu: "n < disksize ?u" using n by simp
  obtain b v w where v: "bread 1 n ?u = Done (b, v)" "data v b = c n" "frame ?u v" "brelse b v = Done w" "tx_rep w d c Map.empty" "frame ?u w"
    using tx_read [OF U nu] by blast
  obtain b' v' where v': "bread 1 n ?u = Done (b', v')" "tx_rep v' d c [n \<mapsto> b']" "frame ?u v'" using tx_bread [OF U nu] by blast
  have bb: "b' = b" "v' = v" using v(1) v'(1) by simp_all
  let ?v = "upd_inode ip (of_dinode x) v"
  have V: "tx_rep ?v d c [n \<mapsto> b]" using v'(2) bb by simp
  have "n \<in> set (targets (klog ?v)) \<or> c n = d n" using tx_clean [OF U, of n] frame_klog [OF v(3)] by simp
  then obtain w where w: "brelse b ?v = Done w" "tx_rep w d c Map.empty" "frame ?v w" using tx_brelse [OF V] by blast
  have iw: "inodes w = (inodes s)(ip := of_dinode x ((inodes s ip)\<lparr>I_BUSY := True\<rparr>))"
    using w(3) v(3) by (simp add: frame_def)
  let ?t = "upd_inode ip (\<lambda>x. x\<lparr>I_VALID := True\<rparr>) w"
  have "inodes v ip = (inodes s ip)\<lparr>I_BUSY := True\<rparr>" "sb ?u = sb s" using v(3) by (simp_all add: frame_def)
  then have "ilock ip s = Done ?t"
    using i free rel v(1,2) w(1) iw ty unfolding ilock_def
    by (simp add: acquire_enter Let_def n_def [symmetric] x_def [symmetric] slot_of_def [symmetric] of_dinode_def)
  moreover have "tx_rep ?t d c Map.empty" using w(2) by simp
  moreover have "inodes ?t = (inodes s)(ip := (of_dinode x (inodes s ip))\<lparr>I_BUSY := True, I_VALID := True\<rparr>)"
    using iw by (simp add: of_dinode_busy)
  moreover have "sb ?t = sb s" "klog ?t = klog s" "disksize ?t = disksize s" using w(3) v(3) by (simp_all add: frame_def)
  ultimately show ?thesis by blast
qed

section \<open>The block bitmap\<close>

text \<open>\<open>in_use c x n\<close>: the bit of block \<open>n\<close> is set in the bitmap of the contents \<open>c\<close>.\<close>

definition in_use :: "contents \<Rightarrow> superblock \<Rightarrow> u32 \<Rightarrow> bool" where
  "in_use c x n \<longleftrightarrow> \<not> bit_free (c (BBLOCK n x)) (unat (n mod BPB))"

lemma BPB_parts: "unat (BBLOCK n x - bmapstart x) = unat n div 4096" "unat (n mod BPB) = unat n mod 4096"
  by (simp_all add: BBLOCK_def BPB_def unat_div unat_mod)

lemma bitmap_bits:
  assumes "length bs = 512" and "i < 4096" and "j < 4096"
  shows "bit_free (mark_bit bs i) j = (bit_free bs j \<and> j \<noteq> i)" and "bit_free (clear_bit bs i) j = (bit_free bs j \<or> j = i)"
    and "length (mark_bit bs i) = 512" and "length (clear_bit bs i) = 512"
proof -
  have e: "bit_free ys k = (\<not> bit (ys ! (k div 8)) (k mod 8))" for ys k
    by (simp add: bit_free_def bit_iff_and_push_bit_not_eq_0 flip: push_bit_of_1)
  show "length (mark_bit bs i) = 512" "length (clear_bit bs i) = 512" using assms by (simp_all add: mark_bit_def clear_bit_def)
  have d: "i div 8 < 512" "j div 8 < 512" "i mod 8 < LENGTH(8)" "j mod 8 < LENGTH(8)" using assms by auto
  have ij: "j = i \<longleftrightarrow> j div 8 = i div 8 \<and> j mod 8 = i mod 8" by (metis div_mult_mod_eq)
  show "bit_free (mark_bit bs i) j = (bit_free bs j \<and> j \<noteq> i)" "bit_free (clear_bit bs i) j = (bit_free bs j \<or> j = i)"
    using assms d ij by (auto simp: e mark_bit_def clear_bit_def bit_simps nth_list_update)
qed

lemma takeWhile_upt: "takeWhile (\<lambda>i. i < k) [0..<n] = [0..<min n k]"
proof (cases "n \<le> k")
  case True
  then have "takeWhile (\<lambda>i. i < k) [0..<n] = [0..<n]" by (simp add: takeWhile_eq_all_conv)
  then show ?thesis using True by (simp add: min_def)
next
  case False
  then have "[0..<n] = [0..<k] @ [k..<n]" using upt_add_eq_append [of 0 k "n - k"] by simp
  moreover have "takeWhile (\<lambda>i. i < k) [k..<n] = []" using False by (simp add: upt_conv_Cons)
  ultimately have "takeWhile (\<lambda>i. i < k) [0..<n] = [0..<k]" using takeWhile_append2 [of "[0..<k]" "\<lambda>i. i < k" "[k..<n]"] by simp
  then show ?thesis using False by (simp add: min_def)
qed

lemma find_bit_spec:
  assumes size: "unat (sb_size x) + 4096 < 2 ^ 32" and b: "b < sb_size x"
  shows "find_bit b x bs = Some i \<Longrightarrow> i < 4096 \<and> unat b + i < unat (sb_size x) \<and> bit_free bs i \<and> (\<forall>j<i. \<not> bit_free bs j)"
    and "find_bit b x bs = None \<Longrightarrow> j < 4096 \<Longrightarrow> unat b + j < unat (sb_size x) \<Longrightarrow> \<not> bit_free bs j"
proof -
  let ?k = "unat (sb_size x) - unat b"
  have bs: "unat b < unat (sb_size x)" using b by (simp add: word_less_nat_alt)
  have le: "b + of_nat i < sb_size x \<longleftrightarrow> i < ?k" if "i < 4096" for i
  proof -
    have "unat (of_nat i :: u32) = i" using that by (simp add: unat_of_nat)
    then have "unat (b + of_nat i) = unat b + i" using unat_add_u32 [of b "of_nat i"] bs size that by simp
    then show ?thesis using bs by (auto simp: word_less_nat_alt)
  qed
  have B: "unat BPB = 4096" by (simp add: BPB_def)
  have le': "b + of_nat i < sb_size x \<longleftrightarrow> i < ?k" if "i < unat BPB" for i using le that unfolding B .
  have "takeWhile (\<lambda>i. b + of_nat i < sb_size x) [0..<unat BPB] = takeWhile (\<lambda>i. i < ?k) [0..<unat BPB]"
    by (intro takeWhile_cong refl) (simp only: le' set_upt atLeastLessThan_iff)
  also have "\<dots> = [0..<min (unat BPB) ?k]" by (rule takeWhile_upt)
  finally have f: "find_bit b x bs = List.find (bit_free bs) [0..<min (unat BPB) ?k]" by (simp only: find_bit_def)
  show "i < 4096 \<and> unat b + i < unat (sb_size x) \<and> bit_free bs i \<and> (\<forall>j<i. \<not> bit_free bs j)" if "find_bit b x bs = Some i"
  proof -
    from that have "\<exists>k<min (unat BPB) ?k. i = k \<and> bit_free bs k \<and> (\<forall>j<k. \<not> bit_free bs j)"
      unfolding f by (auto simp: find_Some_iff)
    then show ?thesis unfolding B by auto
  qed
  show "\<not> bit_free bs j" if "find_bit b x bs = None" "j < 4096" "unat b + j < unat (sb_size x)"
  proof -
    have "j \<in> set [0..<min (unat BPB) ?k]" using that(2,3) unfolding B by simp
    then show ?thesis using that(1) unfolding f find_None_iff by blast
  qed
qed

lemma bzero_held:
  assumes R: "tx_rep s d c H" and n: "loggable s n" "H n = None" and r: "room 1 s" and h: "hold_ok H s"
  shows "\<exists>t. bzero 1 n s = Done t \<and> tx_rep t d (c(n := replicate 512 0)) H \<and> tx_step 1 {n} s t"
proof -
  have nd: "n < disksize s" using n(1) by (simp add: loggable_def)
  obtain b t where t: "bread 1 n s = Done (b, t)" "tx_rep t d c (H(n \<mapsto> b))" "frame s t" using tx_bread_held [OF R nd n(2) h] by blast
  have nt: "loggable t n" using n(1) loggable_step [OF tx_step_frame [OF t(3)]] by simp
  have rt: "room 1 t" using room_step [OF tx_step_frame [OF t(3)], of 1] r by simp
  have "(H(n \<mapsto> b))(n := None) = H" using n(2) by auto
  then obtain u where u: "log_release b (set_data b (replicate 512 0) t) = Done u" "tx_rep u d (c(n := replicate 512 0)) H" "tx_step 1 {n} t u"
    using log_release_held [OF t(2) _ nt _ rt, of b "replicate 512 0"] by auto
  have "bzero 1 n s = Done u" using t(1) u(1) by (simp add: bzero_def BSIZE_def)
  then show ?thesis using u(2) tx_step_trans [OF tx_step_frame [OF t(3)] u(3)] by auto
qed

text \<open>A disk whose bitmap can be read and written and whose free blocks are data blocks.\<close>

definition bitmap_ok :: "kernel \<Rightarrow> contents \<Rightarrow> bool" where
  "bitmap_ok s c \<longleftrightarrow> unat (sb_size (sb s)) + 4096 < 2 ^ 32 \<and> (\<forall>n < sb_size (sb s). loggable s (BBLOCK n (sb s)))
     \<and> (\<forall>n < sb_size (sb s). \<not> in_use c (sb s) n \<longrightarrow> loggable s n \<and> (\<forall>m < sb_size (sb s). n \<noteq> BBLOCK m (sb s)))"

text \<open>What is held has nothing to do with the allocation.\<close>

definition apart :: "(u32 \<rightharpoonup> nat) \<Rightarrow> contents \<Rightarrow> superblock \<Rightarrow> bool" where
  "apart H c x \<longleftrightarrow> (\<forall>n < sb_size x. H (BBLOCK n x) = None \<and> (\<not> in_use c x n \<longrightarrow> H n = None))"

lemma BBLOCK_same: "unat b mod 4096 = 0 \<Longrightarrow> unat n = unat b + i \<Longrightarrow> i < 4096 \<Longrightarrow> BBLOCK n x = BBLOCK b x \<and> unat (n mod BPB) = i"
proof -
  assume a: "unat b mod 4096 = 0" "unat n = unat b + i" "i < 4096"
  obtain q where q: "unat b = 4096 * q" using a(1) by (metis mod_0_imp_dvd dvdE)
  have "unat n div 4096 = unat b div 4096" "unat n mod 4096 = i" using a(2,3) unfolding q by simp_all
  then have "n div BPB = b div BPB" by (simp add: BPB_def word_unat_eq_iff unat_div)
  then show ?thesis using \<open>unat n mod 4096 = i\<close> BPB_parts(2) by (simp add: BBLOCK_def)
qed

definition balloc_body :: "(u32 \<times> kernel) \<Rightarrow> ((u32 \<times> kernel) + (u32 \<times> kernel)) kresult" where
  "balloc_body = (\<lambda>(b, s).
          kbind (bread 1 (BBLOCK b (sb s)) s) (\<lambda>(bp, s).
          case find_bit b (sb s) (data s bp) of
            Some bi \<Rightarrow>
              kbind (log_release bp (set_data bp (mark_bit (data s bp) bi) s)) (\<lambda>s.
              kbind (bzero 1 (b + of_nat bi) s) (\<lambda>s.
              Done (Inr (b + of_nat bi, s))))
          | None \<Rightarrow> kbind (brelse bp s) (\<lambda>s. Done (Inl (b + BPB, s)))))"

definition taken :: "superblock \<Rightarrow> contents \<Rightarrow> u32 \<Rightarrow> contents" where
  "taken x c n = c(BBLOCK n x := mark_bit (c (BBLOCK n x)) (unat (n mod BPB)), n := replicate 512 0)"

definition first_free :: "contents \<Rightarrow> superblock \<Rightarrow> u32 \<Rightarrow> bool" where
  "first_free c x n \<longleftrightarrow> n < sb_size x \<and> \<not> in_use c x n \<and> (\<forall>m<n. in_use c x m)"

lemma balloc_step:
  assumes R: "tx_rep s d c H" and bm: "bitmap_ok s c" and hh: "hold_ok H s" "apart H c (sb s)" and b: "b < sb_size (sb s)" "unat b mod 4096 = 0"
    and used: "\<forall>m<b. in_use c (sb s) m" and r: "room 2 s"
  shows "\<exists>y. balloc_body (b, s) = Done y \<and> (case y of
      Inl (b', t) \<Rightarrow> unat b' = unat b + 4096 \<and> tx_rep t d c H \<and> tx_step 0 {} s t \<and> (\<forall>m<b'. m < sb_size (sb s) \<longrightarrow> in_use c (sb s) m)
    | Inr (n, t) \<Rightarrow> first_free c (sb s) n \<and> tx_rep t d (taken (sb s) c n) H \<and> tx_step 2 {BBLOCK n (sb s), n} s t)"
proof -
  let ?x = "sb s"
  let ?B = "BBLOCK b ?x"
  have size: "unat (sb_size ?x) + 4096 < 2 ^ 32" and lB: "loggable s ?B" using bm b(1) by (auto simp: bitmap_ok_def)
  have ub: "unat b < unat (sb_size ?x)" using b(1) by (simp add: word_less_nat_alt)
  have HB: "H ?B = None" "(H(?B \<mapsto> x))(?B := None) = H" for x using hh(2) b(1) unfolding apart_def by auto
  have Bd: "?B < disksize s" using lB by (simp add: loggable_def)
  obtain bp t where t: "bread 1 ?B s = Done (bp, t)" "tx_rep t d c (H(?B \<mapsto> bp))" "frame s t" using tx_bread_held [OF R Bd HB(1) hh(1)] by blast
  have dat: "data t bp = c ?B" "length (c ?B) = 512" using tx_data [OF t(2), of ?B bp] by simp_all
  have sbt: "sb t = ?x" using t(3) by (simp add: frame_def)
  note st = tx_step_frame [OF t(3)]
  show ?thesis
  proof (cases "find_bit b ?x (c ?B)")
    case None
    have "?B \<in> set (targets (klog t)) \<or> c ?B = d ?B" using tx_clean_held [OF R HB(1)] frame_klog [OF t(3)] by simp
    then obtain u where u: "brelse bp t = Done u" "tx_rep u d c H" "frame t u" using tx_brelse_held [OF t(2), of ?B bp] HB(2) by auto
    have e: "balloc_body (b, s) = Done (Inl (b + BPB, u))" using t(1) u(1) dat(1) sbt None by (simp add: balloc_body_def)
    have ub': "unat (b + BPB) = unat b + 4096" using unat_add_u32 [of b BPB] ub size by (simp add: BPB_def)
    have "in_use c ?x m" if m: "m < b + BPB" "m < sb_size ?x" for m
    proof (cases "m < b")
      case True
      then show ?thesis using used by blast
    next
      case False
      then obtain j where j: "unat m = unat b + j" by (metis word_less_nat_alt not_less le_Suc_ex)
      have "j < 4096" "unat b + j < unat (sb_size ?x)" using m j ub' by (simp_all add: word_less_nat_alt)
      then show ?thesis using BBLOCK_same [OF b(2) j] find_bit_spec(2) [OF size b(1) None] by (simp add: in_use_def)
    qed
    then show ?thesis using e ub' u(2) tx_step_trans [OF st tx_step_frame [OF u(3)]] by auto
  next
    case (Some i)
    note f = find_bit_spec(1) [OF size b(1) Some]
    let ?n = "b + of_nat i"
    have un: "unat ?n = unat b + i"
    proof -
      have "unat (of_nat i :: u32) = i" using f by (simp add: unat_of_nat)
      then show ?thesis using unat_add_u32 [of b "of_nat i"] f size by simp
    qed
    note nB = BBLOCK_same [OF b(2) un conjunct1 [OF f], of ?x]
    have ff: "first_free c ?x ?n"
      unfolding first_free_def
    proof (intro conjI allI impI)
      show "?n < sb_size ?x" using f un by (simp add: word_less_nat_alt)
      show "\<not> in_use c ?x ?n" using f nB by (simp add: in_use_def)
      fix m assume m: "m < ?n"
      show "in_use c ?x m"
      proof (cases "m < b")
        case True
        then show ?thesis using used by blast
      next
        case False
        then obtain j where j: "unat m = unat b + j" by (metis word_less_nat_alt not_less le_Suc_ex)
        have "j < i" using m j un by (simp add: word_less_nat_alt)
        then show ?thesis using BBLOCK_same [OF b(2) j] f by (simp add: in_use_def)
      qed
    qed
    have ln: "loggable s ?n" "?n \<noteq> ?B" using bm ff b(1) unfolding bitmap_ok_def first_free_def by blast+
    have lt: "loggable t ?B" "room 1 t" using lB loggable_step [OF st] room_step [OF st, of 1] r by (simp_all add: room_def)
    obtain u where u: "log_release bp (set_data bp (mark_bit (c ?B) i) t) = Done u" "tx_rep u d (c(?B := mark_bit (c ?B) i)) H" "tx_step 1 {?B} t u"
      using log_release_held [OF t(2) _ lt(1) bitmap_bits(3) [OF dat(2)] lt(2), of bp i i] f HB(2) by auto
    have su: "tx_step 1 {?B} s u" using tx_step_trans [OF st u(3)] by simp
    have lu: "loggable u ?n" "room 1 u" using ln(1) loggable_step [OF su] room_step [OF su, of 1] r by simp_all
    have Hn: "H ?n = None" using hh(2) ff unfolding apart_def first_free_def by blast
    have hu: "hold_ok H u" using hh(1) lu(2) by (auto simp: hold_ok_def)
    obtain v where v: "bzero 1 ?n u = Done v" "tx_rep v d (c(?B := mark_bit (c ?B) i, ?n := replicate 512 0)) H" "tx_step 1 {?n} u v"
      using bzero_held [OF u(2) lu(1) Hn lu(2) hu] by blast
    have "balloc_body (b, s) = Done (Inr (?n, v))" using t(1) u(1) v(1) dat(1) sbt Some by (simp add: balloc_body_def)
    moreover have "taken ?x c ?n = c(?B := mark_bit (c ?B) i, ?n := replicate 512 0)" using nB by (simp add: taken_def)
    moreover have "tx_step 2 {BBLOCK ?n ?x, ?n} s v" using tx_step_trans [OF su v(3)] nB by (simp add: insert_commute)
    ultimately show ?thesis using ff v(2) by simp
  qed
qed

lemma balloc_body_eq:
  "balloc 1 s = kbind (kloop (\<lambda>(b, s). b < sb_size (sb s)) balloc_body (0, s))
     (\<lambda>r. case r of Inr x \<Rightarrow> Done x | Inl _ \<Rightarrow> Panic ''balloc: out of blocks'')"
  by (simp add: balloc_def balloc_body_def)

lemma balloc_held:
  assumes R: "tx_rep s d c H" and bm: "bitmap_ok s c" and hh: "hold_ok H s" "apart H c (sb s)" and r: "room 2 s"
  shows "(\<exists>n t. balloc 1 s = Done (n, t) \<and> first_free c (sb s) n \<and> tx_rep t d (taken (sb s) c n) H \<and> tx_step 2 {BBLOCK n (sb s), n} s t)
    \<or> (\<forall>n < sb_size (sb s). in_use c (sb s) n) \<and> balloc 1 s = Panic ''balloc: out of blocks''"
proof -
  let ?x = "sb s"
  define I where "I = (\<lambda>(b, t). unat b mod 4096 = 0 \<and> tx_rep t d c H \<and> tx_step 0 {} s t \<and> (\<forall>m<b. m < sb_size ?x \<longrightarrow> in_use c ?x m))"
  define Q where "Q = (\<lambda>(n, t). first_free c ?x n \<and> tx_rep t d (taken ?x c n) H \<and> tx_step 2 {BBLOCK n ?x, n} s t)"
  define f where "f = (\<lambda>(b, t :: kernel). unat (sb_size ?x) - unat (b :: u32))"
  have start: "I (0, s)" using R by (simp add: I_def tx_step_def)
  have step: "\<exists>y. balloc_body x = Done y \<and> (case y of Inl x' \<Rightarrow> I x' \<and> f x' < f x | Inr r \<Rightarrow> Q r)"
    if I: "I x" and b: "case x of (b, t) \<Rightarrow> b < sb_size (sb t)" for x
  proof -
    obtain b t where x: "x = (b, t)" by fastforce
    have i: "unat b mod 4096 = 0" "tx_rep t d c H" "tx_step 0 {} s t" "\<forall>m<b. m < sb_size ?x \<longrightarrow> in_use c ?x m"
      using I by (simp_all add: I_def x)
    have sb: "sb t = ?x" using i(3) by (simp add: tx_step_def)
    have bs: "b < sb_size (sb t)" using b x by simp
    have used: "\<forall>m<b. in_use c (sb t) m"
    proof (intro allI impI)
      fix m assume m: "m < b"
      have "m < sb_size ?x" by (rule order.strict_trans [OF m bs [unfolded sb]])
      then show "in_use c (sb t) m" using i(4) m unfolding sb by blast
    qed
    have bt: "bitmap_ok t c" using bm unfolding bitmap_ok_def sb loggable_step [OF i(3)] .
    have ht: "hold_ok H t" "apart H c (sb t)" using hold_step [OF hh(1) i(3)] hh(2) sb by simp_all
    have rt: "room 2 t" using room_step [OF i(3), of 2] r by simp
    obtain y where y: "balloc_body (b, t) = Done y" "case y of
      Inl (b', u) \<Rightarrow> unat b' = unat b + 4096 \<and> tx_rep u d c H \<and> tx_step 0 {} t u \<and> (\<forall>m<b'. m < sb_size (sb t) \<longrightarrow> in_use c (sb t) m)
    | Inr (n, u) \<Rightarrow> first_free c (sb t) n \<and> tx_rep u d (taken (sb t) c n) H \<and> tx_step 2 {BBLOCK n (sb t), n} t u"
      using balloc_step [OF i(2) bt ht bs i(1) used rt] by blast
    show ?thesis
    proof (cases y)
      case (Inl z)
      obtain b' u where z: "z = (b', u)" by fastforce
      have a: "unat b' = unat b + 4096" "tx_rep u d c H" "tx_step 0 {} t u" "\<forall>m<b'. m < sb_size ?x \<longrightarrow> in_use c ?x m"
        using y(2) Inl z sb by simp_all
      have "I z" using a i(1) tx_step_trans [OF i(3) a(3)] by (simp add: I_def z)
      moreover have "f z < f x" using a(1) bs sb by (simp add: f_def z x word_less_nat_alt)
      ultimately show ?thesis using y(1) Inl x by simp
    next
      case (Inr z)
      obtain n u where z: "z = (n, u)" by fastforce
      have a: "first_free c ?x n" "tx_rep u d (taken ?x c n) H" "tx_step 2 {BBLOCK n ?x, n} t u" using y(2) Inr z sb by simp_all
      have "Q z" using a tx_step_trans [OF i(3) a(3)] by (simp add: Q_def z)
      then show ?thesis using y(1) Inr x by simp
    qed
  qed
  have "\<exists>y. kloop (\<lambda>(b, s). b < sb_size (sb s)) balloc_body (0, s) = Done y
    \<and> (case y of Inl x \<Rightarrow> I x \<and> \<not> (case x of (b, t) \<Rightarrow> b < sb_size (sb t)) | Inr r \<Rightarrow> Q r)"
    by (rule kloop_rule [where f = f]) (rule start, rule step)
  then obtain y where y: "kloop (\<lambda>(b, s). b < sb_size (sb s)) balloc_body (0, s) = Done y"
    "case y of Inl x \<Rightarrow> I x \<and> \<not> (case x of (b, t) \<Rightarrow> b < sb_size (sb t)) | Inr r \<Rightarrow> Q r"
    by (elim exE conjE)
  show ?thesis
  proof (cases y)
    case (Inl x)
    obtain b t where x: "x = (b, t)" by fastforce
    have a: "tx_step 0 {} s t" "\<forall>m<b. m < sb_size ?x \<longrightarrow> in_use c ?x m" "\<not> b < sb_size (sb t)" using y(2) Inl x by (simp_all add: I_def)
    have sb: "sb t = ?x" using a(1) by (simp add: tx_step_def)
    have "in_use c ?x n" if n: "n < sb_size ?x" for n
    proof -
      have "sb_size ?x \<le> b" using a(3) unfolding sb by (simp only: not_less)
      then have "n < b" by (rule order_less_le_trans [OF n])
      then show ?thesis using a(2) n by blast
    qed
    moreover have "balloc 1 s = Panic ''balloc: out of blocks''" unfolding balloc_body_eq y(1) Inl by simp
    ultimately show ?thesis by blast
  next
    case (Inr z)
    obtain n t where z: "z = (n, t)" by fastforce
    have "balloc 1 s = Done (n, t)" unfolding balloc_body_eq y(1) Inr z by simp
    then show ?thesis using y(2) Inr z by (simp add: Q_def)
  qed
qed

lemma balloc_rep:
  assumes R: "tx_rep s d c Map.empty" and bm: "bitmap_ok s c" and r: "room 2 s"
  shows "(\<exists>n t. balloc 1 s = Done (n, t) \<and> first_free c (sb s) n \<and> tx_rep t d (taken (sb s) c n) Map.empty
      \<and> tx_step 2 {BBLOCK n (sb s), n} s t)
    \<or> (\<forall>n < sb_size (sb s). in_use c (sb s) n) \<and> balloc 1 s = Panic ''balloc: out of blocks''"
  by (rule balloc_held [OF R bm hold_empty _ r]) (simp add: apart_def)

text \<open>The effect of an allocation on the bitmap and on the blocks.\<close>

lemma taken_spec:
  assumes "tx_rep s d c H" and bm: "bitmap_ok s c" and f: "first_free c (sb s) n"
  shows "m < sb_size (sb s) \<Longrightarrow> in_use (taken (sb s) c n) (sb s) m = (in_use c (sb s) m \<or> m = n)"
    and "taken (sb s) c n n = replicate 512 0"
    and "m \<noteq> n \<Longrightarrow> m \<noteq> BBLOCK n (sb s) \<Longrightarrow> taken (sb s) c n m = c m"
    and "m < sb_size (sb s) \<Longrightarrow> n \<noteq> BBLOCK m (sb s)"
    and "n < sb_size (sb s)" and "\<not> in_use c (sb s) n" and "loggable s n"
proof -
  let ?x = "sb s"
  let ?c = "taken ?x c n" and ?B = "BBLOCK n ?x"
  show n: "n < sb_size ?x" "\<not> in_use c ?x n" using f by (simp_all add: first_free_def)
  have ne: "n \<noteq> BBLOCK m ?x" if "m < sb_size ?x" for m using bm n that unfolding bitmap_ok_def by blast
  show "loggable s n" using bm n unfolding bitmap_ok_def by blast
  show "?c n = replicate 512 0" "m \<noteq> n \<Longrightarrow> m \<noteq> ?B \<Longrightarrow> ?c m = c m" by (simp_all add: taken_def)
  assume m: "m < sb_size ?x"
  then show "n \<noteq> BBLOCK m ?x" by (rule ne)
  have len: "length (c ?B) = 512" using tx_length assms(1) by blast
  show "in_use ?c ?x m = (in_use c ?x m \<or> m = n)"
  proof (cases "BBLOCK m ?x = ?B")
    case True
    have "?c (BBLOCK m ?x) = mark_bit (c ?B) (unat (n mod BPB))" using ne [OF m] True by (simp add: taken_def)
    moreover have "unat (m mod BPB) < 4096" "unat (n mod BPB) < 4096" using BPB_parts(2) by simp_all
    moreover have "m = n \<longleftrightarrow> unat (m mod BPB) = unat (n mod BPB)"
    proof
      assume r: "unat (m mod BPB) = unat (n mod BPB)"
      have "m div BPB = n div BPB" using True by (simp add: BBLOCK_def)
      then show "m = n" using r by (metis word_unat_eq_iff div_mult_mod_eq)
    qed simp
    ultimately show ?thesis using bitmap_bits(1) [OF len] True by (simp add: in_use_def)
  next
    case False
    then have "?c (BBLOCK m ?x) = c (BBLOCK m ?x)" using ne [OF m] by (simp add: taken_def)
    then show ?thesis using False by (auto simp: in_use_def)
  qed
qed

text \<open>\<open>bfree\<close> reads the super block again; afterwards \<open>sb\<close> holds it.\<close>

lemma tx_rep_sb [simp]: "tx_rep (s\<lparr>sb := x\<rparr>) d c H = tx_rep s d c H"
  by (simp add: tx_rep_def cache_rep_def cli_ok_def)

lemma readsb_rep:
  assumes R: "tx_rep s d c Map.empty" and m: "1 < disksize s"
  shows "\<exists>t. readsb 1 s = Done (dec_superblock (c 1), t) \<and> tx_rep t d c Map.empty \<and> frame s t"
proof -
  obtain b t u where t: "bread 1 1 s = Done (b, t)" "data t b = c 1" "frame s t" "brelse b t = Done u" "tx_rep u d c Map.empty" "frame s u"
    using tx_read [OF R m] by blast
  then show ?thesis by (simp add: readsb_def)
qed

lemma bfree_rep:
  assumes R: "tx_rep s d c Map.empty" and n: "loggable s (BBLOCK b x)" and sb: "dec_superblock (c 1) = x"
  shows "room 1 s \<Longrightarrow> in_use c x b \<Longrightarrow> \<exists>t. bfree 1 b s = Done t \<and> sb t = x
      \<and> tx_rep t d (c(BBLOCK b x := clear_bit (c (BBLOCK b x)) (unat (b mod BPB)))) Map.empty \<and> tx_step 1 {BBLOCK b x} (s\<lparr>sb := x\<rparr>) t"
    and "\<not> in_use c x b \<Longrightarrow> bfree 1 b s = Panic ''freeing free block''"
proof -
  let ?n = "BBLOCK b x" and ?i = "unat (b mod BPB)"
  have m: "1 < disksize s" "?n < disksize s" using n by (auto simp: loggable_def)
  obtain t where t: "readsb 1 s = Done (x, t)" "tx_rep t d c Map.empty" "frame s t" using readsb_rep [OF R m(1)] sb by blast
  let ?t = "t\<lparr>sb := x\<rparr>"
  have st: "tx_step 0 {} (s\<lparr>sb := x\<rparr>) ?t" using t(3) by (simp add: tx_step_def frame_def)
  have T: "tx_rep ?t d c Map.empty" "?n < disksize ?t" using t(2) m(2) frame_klog [OF t(3)] by simp_all
  obtain p u where u: "bread 1 ?n ?t = Done (p, u)" "tx_rep u d c [?n \<mapsto> p]" "frame ?t u" using tx_bread [OF T] by blast
  have dat: "data u p = c ?n" "length (c ?n) = 512" using tx_data [OF u(2), of ?n p] by simp_all
  have su: "tx_step 0 {} (s\<lparr>sb := x\<rparr>) u" using tx_step_trans [OF st tx_step_frame [OF u(3)]] by simp
  have i: "?i < 4096" using BPB_parts(2) by simp
  show "\<not> in_use c x b \<Longrightarrow> bfree 1 b s = Panic ''freeing free block''"
    using t(1) u(1) dat(1) by (simp add: bfree_def in_use_def kassert_def Let_def)
  assume r: "room 1 s" and used: "in_use c x b"
  have "loggable (s\<lparr>sb := x\<rparr>) ?n" using n by (simp add: loggable_def)
  then have l: "loggable u ?n" unfolding loggable_step [OF su] .
  have ru: "room 1 u" using room_step [OF su, of 1] r by (simp add: room_def)
  obtain v where v: "log_release p (set_data p (clear_bit (c ?n) ?i) u) = Done v" "tx_rep v d (c(?n := clear_bit (c ?n) ?i)) Map.empty" "tx_step 1 {?n} u v"
    using log_release_rep [OF u(2) l bitmap_bits(4) [OF dat(2) i i] ru] by blast
  have "bfree 1 b s = Done v" using t(1) u(1) v(1) dat(1) used by (simp add: bfree_def in_use_def kassert_def Let_def)
  moreover have "tx_step 1 {?n} (s\<lparr>sb := x\<rparr>) v" using tx_step_trans [OF su v(3)] by simp
  moreover have "sb v = x" using \<open>tx_step 1 {?n} (s\<lparr>sb := x\<rparr>) v\<close> by (simp add: tx_step_def)
  ultimately show "\<exists>t. bfree 1 b s = Done t \<and> sb t = x \<and> tx_rep t d (c(?n := clear_bit (c ?n) ?i)) Map.empty \<and> tx_step 1 {?n} (s\<lparr>sb := x\<rparr>) t"
    using v(2) by blast
qed

end
