(* ===== verification/Content.thy ===== *)
theory Content
  imports Inode_Correct Fs
begin

text \<open>
  The bytes of a file: the block pointers of an inode, direct and through the indirect block, as one array of addresses, and
  \<open>bmap\<close>, \<open>readi\<close> and \<open>writei\<close> over it. A block that is not mapped reads as zero, which is what a block just allocated holds.
\<close>

section \<open>The blocks of an inode\<close>

text \<open>The pointers of an inode: 12 direct ones, the indirect block, and the 128 entries of the indirect block.\<close>

definition slot_addr :: "contents \<Rightarrow> inode \<Rightarrow> nat \<Rightarrow> u32" where
  "slot_addr c x k = (if k \<le> 12 then addrs x ! k
     else if addrs x ! 12 = 0 then 0 else get32 (c (addrs x ! 12)) (4 * (k - 13)))"

definition file_slot :: "nat \<Rightarrow> nat" where
  "file_slot k = (if k < 12 then k else Suc k)"

definition file_addr :: "contents \<Rightarrow> inode \<Rightarrow> nat \<Rightarrow> u32" where
  "file_addr c x k = slot_addr c x (file_slot k)"

text \<open>Byte \<open>p\<close> of the file.\<close>

definition fbyte :: "contents \<Rightarrow> inode \<Rightarrow> nat \<Rightarrow> u8" where
  "fbyte c x p = (let a = file_addr c x (p div 512) in if a = 0 then 0 else c a ! (p mod 512))"

text \<open>A block that a file may own, and an inode whose blocks are its own.\<close>

definition block_ok :: "kernel \<Rightarrow> contents \<Rightarrow> u32 \<Rightarrow> bool" where
  "block_ok s c a \<longleftrightarrow> a < sb_size (sb s) \<and> loggable s a \<and> in_use c (sb s) a \<and> (\<forall>m < sb_size (sb s). a \<noteq> BBLOCK m (sb s))"

definition file_ok :: "kernel \<Rightarrow> contents \<Rightarrow> inode \<Rightarrow> bool" where
  "file_ok s c x \<longleftrightarrow> idev x = 1 \<and> length (addrs x) = 13
     \<and> (\<forall>k<141. slot_addr c x k \<noteq> 0 \<longrightarrow> block_ok s c (slot_addr c x k))
     \<and> (\<forall>j<141. \<forall>k<141. slot_addr c x j \<noteq> 0 \<and> slot_addr c x j = slot_addr c x k \<longrightarrow> j = k)"

lemma file_slot_less: "k < 140 \<Longrightarrow> file_slot k < 141 \<and> file_slot k \<noteq> 12"
  by (auto simp: file_slot_def)

lemma file_slot_inj: "file_slot j = file_slot k \<Longrightarrow> j = k"
  by (auto simp: file_slot_def split: if_splits)

lemma file_addr_ok:
  assumes "file_ok s c x" and "k < 140" and "file_addr c x k \<noteq> 0"
  shows "block_ok s c (file_addr c x k)"
  using assms file_slot_less by (auto simp: file_ok_def file_addr_def)

lemma file_addr_inj:
  assumes "file_ok s c x" and "j < 140" "k < 140" and "file_addr c x j \<noteq> 0" and "file_addr c x j = file_addr c x k"
  shows "j = k"
  using assms file_slot_less [of j] file_slot_less [of k] file_slot_inj [of j k] unfolding file_ok_def file_addr_def by blast

lemma ind_ok: "file_ok s c x \<Longrightarrow> addrs x ! 12 \<noteq> 0 \<Longrightarrow> block_ok s c (addrs x ! 12)"
  by (auto simp: file_ok_def slot_addr_def dest: spec [of _ 12])

lemma ind_not_file:
  assumes "file_ok s c x" and "k < 140" and "addrs x ! 12 \<noteq> 0"
  shows "file_addr c x k \<noteq> addrs x ! 12"
proof
  assume e: "file_addr c x k = addrs x ! 12"
  have "slot_addr c x 12 = addrs x ! 12" by (simp add: slot_addr_def)
  moreover have "\<forall>j<141. \<forall>k<141. slot_addr c x j \<noteq> 0 \<and> slot_addr c x j = slot_addr c x k \<longrightarrow> j = k"
    using assms(1) unfolding file_ok_def by (elim conjE)
  ultimately have "file_slot k = 12" using e assms(2,3) file_slot_less [of k] by (auto simp: file_addr_def)
  then show False using file_slot_less [OF assms(2)] by simp
qed

lemma block_ok_disk: "block_ok s c a \<Longrightarrow> a < disksize s"
  by (simp add: block_ok_def loggable_def)

lemma block_ok_step: "tx_step k W s t \<Longrightarrow> block_ok t c a = block_ok s c a"
  using loggable_step [of k W s t] by (simp add: block_ok_def tx_step_def)

section \<open>Mapped blocks\<close>

lemma of_nat_u32: "k < 2 ^ 32 \<Longrightarrow> unat (of_nat k :: u32) = k"
  by (simp add: unat_of_nat)

lemma bmap_direct: "k < 12 \<Longrightarrow> bmap ip (of_nat k) s = addr_or_alloc ip k s"
proof -
  assume k: "k < 12"
  then have "unat (of_nat k :: u32) = k" by (intro of_nat_u32) simp
  then show ?thesis using k by (simp add: bmap_def word_less_nat_alt NDIRECT_def)
qed

definition bmap_ind :: "nat \<Rightarrow> nat \<Rightarrow> u32 \<times> kernel \<Rightarrow> (u32 \<times> kernel) kresult" where
  "bmap_ind ip j = (\<lambda>(ind, s).
     kbind (bread (idev (inodes s ip)) ind s) (\<lambda>(bp, s).
     let a = get32 (data s bp) (4 * j) in
     if a = 0 then
       kbind (balloc (idev (inodes s ip)) s) (\<lambda>(a, s).
       kbind (log_release bp (set_data bp (put32 (data s bp) (4 * j) a) s)) (\<lambda>s. Done (a, s)))
     else kbind (brelse bp s) (\<lambda>s. Done (a, s))))"

lemma bmap_indirect: "12 \<le> k \<Longrightarrow> k < 140 \<Longrightarrow> bmap ip (of_nat k) s = kbind (addr_or_alloc ip 12 s) (bmap_ind ip (k - 12))"
proof -
  assume k: "12 \<le> k" "k < 140"
  have u: "unat (of_nat k :: u32) = k" "unat (of_nat (k - 12) :: u32) = k - 12" using k by (intro of_nat_u32; simp)+
  have d: "(of_nat k :: u32) - of_nat NDIRECT = of_nat (k - 12)" using k by (simp add: NDIRECT_def of_nat_diff)
  have "\<not> (of_nat k :: u32) < of_nat NDIRECT" "(of_nat (k - 12) :: u32) < of_nat NINDIRECT"
    using k u by (simp_all add: word_less_nat_alt NDIRECT_def NINDIRECT_def)
  then show ?thesis unfolding bmap_def bmap_ind_def d Let_def u(2) by (simp add: NDIRECT_def)
qed

lemma file_addr_indirect:
  "12 \<le> k \<Longrightarrow> file_addr c x k = (if addrs x ! 12 = 0 then 0 else get32 (c (addrs x ! 12)) (4 * (k - 12)))"
  by (simp add: file_addr_def slot_addr_def file_slot_def)

lemma file_addr_direct: "k < 12 \<Longrightarrow> file_addr c x k = addrs x ! k"
  by (simp add: file_addr_def slot_addr_def file_slot_def)

lemma bmap_mapped:
  assumes R: "tx_rep s d c Map.empty" and ok: "file_ok s c (inodes s ip)" and k: "k < 140"
    and a: "file_addr c (inodes s ip) k \<noteq> 0"
  shows "\<exists>t. bmap ip (of_nat k) s = Done (file_addr c (inodes s ip) k, t) \<and> tx_rep t d c Map.empty \<and> frame s t"
proof (cases "k < 12")
  case True
  then have "bmap ip (of_nat k) s = Done (file_addr c (inodes s ip) k, s)"
    using a by (simp add: bmap_direct addr_or_alloc_def file_addr_direct Let_def)
  moreover have "frame s s" by (simp add: frame_def)
  ultimately show ?thesis using R by blast
next
  case False
  let ?x = "inodes s ip"
  have ind: "addrs ?x ! 12 \<noteq> 0" "file_addr c ?x k = get32 (c (addrs ?x ! 12)) (4 * (k - 12))"
    using a False by (simp_all add: file_addr_indirect split: if_splits)
  have dev: "idev ?x = 1" using ok by (simp add: file_ok_def)
  obtain b t v where t: "bread 1 (addrs ?x ! 12) s = Done (b, t)" "data t b = c (addrs ?x ! 12)" "frame s t"
    "brelse b t = Done v" "tx_rep v d c Map.empty" "frame s v"
    using tx_read [OF R block_ok_disk [OF ind_ok [OF ok ind(1)]]] by blast
  have "bmap_ind ip (k - 12) (addrs ?x ! 12, s) = Done (file_addr c ?x k, v)"
    using t(1,2,4) a dev unfolding ind(2) by (simp add: bmap_ind_def Let_def)
  moreover have "addr_or_alloc ip 12 s = Done (addrs ?x ! 12, s)" using ind(1) by (simp add: addr_or_alloc_def)
  ultimately show ?thesis using bmap_indirect [of k ip s] False k t(5,6) by simp
qed

section \<open>Growing a file\<close>

definition blocks :: "contents \<Rightarrow> inode \<Rightarrow> u32 set" where
  "blocks c x = slot_addr c x ` {..<141}"

text \<open>
  \<open>keeps s c x c' x'\<close>: between \<open>(c, x)\<close> and \<open>(c', x')\<close> the inode only got more blocks, and they were free; the blocks of
  other files are as before.
\<close>

definition keeps :: "kernel \<Rightarrow> contents \<Rightarrow> inode \<Rightarrow> contents \<Rightarrow> inode \<Rightarrow> bool" where
  "keeps s c x c' x' \<longleftrightarrow> x' = x\<lparr>addrs := addrs x'\<rparr>
     \<and> (\<forall>k<141. slot_addr c x k \<noteq> 0 \<longrightarrow> slot_addr c' x' k = slot_addr c x k)
     \<and> (\<forall>a. block_ok s c a \<longrightarrow> block_ok s c' a)
     \<and> (\<forall>a. block_ok s c a \<and> a \<notin> blocks c x \<longrightarrow> c' a = c a \<and> a \<notin> blocks c' x')"

lemma keeps_refl: "keeps s c x c x"
  by (simp add: keeps_def)

lemma keeps_trans:
  assumes "keeps s c x c' x'" and "keeps s c' x' c'' x''"
  shows "keeps s c x c'' x''"
proof -
  have "x'' = x\<lparr>addrs := addrs x''\<rparr>" using assms unfolding keeps_def by (metis inode.surjective inode.update_convs(11))
  moreover have "slot_addr c'' x'' k = slot_addr c x k" if "k < 141" "slot_addr c x k \<noteq> 0" for k
    using assms that unfolding keeps_def by metis
  moreover have "block_ok s c'' a" if "block_ok s c a" for a using assms that unfolding keeps_def by blast
  moreover have "c'' a = c a \<and> a \<notin> blocks c'' x''" if "block_ok s c a" "a \<notin> blocks c x" for a
  proof -
    have "c' a = c a" "a \<notin> blocks c' x'" "block_ok s c' a" using assms(1) that unfolding keeps_def by blast+
    then show ?thesis using assms(2) unfolding keeps_def by metis
  qed
  ultimately show ?thesis unfolding keeps_def by blast
qed

lemma block_nonzero: "block_ok s c a \<Longrightarrow> a \<noteq> 0"
  by (auto simp: block_ok_def loggable_def)

text \<open>A file that gets one more block.\<close>

lemma grow:
  assumes ok: "file_ok s c x" and x': "idev x' = 1" "length (addrs x') = 13" "x' = x\<lparr>addrs := addrs x'\<rparr>"
    and slot: "\<And>j. j < 141 \<Longrightarrow> slot_addr c' x' j = (if j = k then n else slot_addr c x j)"
    and k: "k < 141" "slot_addr c x k = 0"
    and old: "\<And>a. block_ok s c a \<Longrightarrow> block_ok s c' a" "\<And>a. block_ok s c a \<Longrightarrow> a \<noteq> addrs x ! 12 \<Longrightarrow> c' a = c a"
    and new: "block_ok s c' n" "\<not> block_ok s c n" "c' n = replicate 512 0"
  shows "file_ok s c' x'" and "keeps s c x c' x'" and "p < 71680 \<Longrightarrow> fbyte c' x' p = fbyte c x p"
proof -
  have blk: "block_ok s c (slot_addr c x j)" if "j < 141" "slot_addr c x j \<noteq> 0" for j using ok that by (simp add: file_ok_def)
  have inj: "i = j" if "i < 141" "j < 141" "slot_addr c x i \<noteq> 0" "slot_addr c x i = slot_addr c x j" for i j
    using ok that unfolding file_ok_def by blast
  have ne: "slot_addr c x j \<noteq> n" if "j < 141" for j using blk [OF that] new block_nonzero [OF new(1)] by auto
  show "file_ok s c' x'"
    unfolding file_ok_def
  proof (intro conjI allI impI)
    show "block_ok s c' (slot_addr c' x' j)" if "j < 141" "slot_addr c' x' j \<noteq> 0" for j
      using that slot blk old(1) new(1) by (cases "j = k") auto
    show "i = j" if "i < 141" "j < 141" "slot_addr c' x' i \<noteq> 0 \<and> slot_addr c' x' i = slot_addr c' x' j" for i j
    proof (cases "i = k \<or> j = k")
      case True
      then show ?thesis using that slot [OF that(1)] slot [OF that(2)] ne [OF that(1)] ne [OF that(2)] by (auto split: if_splits)
    next
      case False
      then have "slot_addr c x i \<noteq> 0" "slot_addr c x i = slot_addr c x j" using that(3) slot [OF that(1)] slot [OF that(2)] by auto
      then show ?thesis using inj that(1,2) by blast
    qed
  qed (use x' in simp_all)
  have other: "c' a = c a \<and> a \<notin> blocks c' x'" if a: "block_ok s c a" "a \<notin> blocks c x" for a
  proof -
    have "slot_addr c x 12 = addrs x ! 12" by (simp add: slot_addr_def)
    moreover have "slot_addr c x 12 \<in> blocks c x" unfolding blocks_def by (intro imageI) simp
    ultimately have "a \<noteq> addrs x ! 12" using a(2) by metis
    moreover have "a \<notin> blocks c' x'"
    proof
      assume "a \<in> blocks c' x'"
      then obtain j where j: "j < 141" "a = slot_addr c' x' j" by (auto simp: blocks_def)
      show False
      proof (cases "j = k")
        case True
        then show False using slot [OF j(1)] j(2) a(1) new(2) by simp
      next
        case False
        then have "a = slot_addr c x j" using slot [OF j(1)] j(2) by simp
        then show False using a(2) j(1) unfolding blocks_def by blast
      qed
    qed
    ultimately show ?thesis using old(2) a(1) by blast
  qed
  have "slot_addr c' x' j = slot_addr c x j" if "j < 141" "slot_addr c x j \<noteq> 0" for j using slot [OF that(1)] that k(2) by auto
  then show "keeps s c x c' x'" unfolding keeps_def using x'(3) old(1) other by blast
  assume p: "p < 71680"
  then have q: "p div 512 < 140" by simp
  then have s: "file_slot (p div 512) < 141" using file_slot_less by blast
  show "fbyte c' x' p = fbyte c x p"
  proof (cases "file_slot (p div 512) = k")
    case True
    then have "file_addr c x (p div 512) = 0" "file_addr c' x' (p div 512) = n" using slot [OF s] k(2) by (simp_all add: file_addr_def)
    then show ?thesis using new(3) by (simp add: fbyte_def Let_def)
  next
    case False
    then have e: "file_addr c' x' (p div 512) = file_addr c x (p div 512)" using slot [OF s] by (simp add: file_addr_def)
    show ?thesis
    proof (cases "file_addr c x (p div 512) = 0")
      case False
      have "file_addr c x (p div 512) \<noteq> addrs x ! 12"
        using ind_not_file [OF ok q] False by (cases "addrs x ! 12 = 0") auto
      then have "c' (file_addr c x (p div 512)) = c (file_addr c x (p div 512))" using old(2) file_addr_ok [OF ok q False] by blast
      then show ?thesis using e by (simp add: fbyte_def Let_def)
    qed (use e in \<open>simp add: fbyte_def Let_def\<close>)
  qed
qed

text \<open>What an allocation means for the blocks of files.\<close>

lemma taken_blocks:
  assumes R: "tx_rep s d c H" and bm: "bitmap_ok s c" and f: "first_free c (sb s) n"
  shows "block_ok s c a \<Longrightarrow> block_ok s (taken (sb s) c n) a \<and> taken (sb s) c n a = c a"
    and "block_ok s (taken (sb s) c n) n" and "\<not> block_ok s c n" and "bitmap_ok s (taken (sb s) c n)"
proof -
  note T = taken_spec [OF R bm f]
  show "block_ok s (taken (sb s) c n) a \<and> taken (sb s) c n a = c a" if a: "block_ok s c a"
  proof -
    have b: "a < sb_size (sb s)" "in_use c (sb s) a" "a \<noteq> BBLOCK n (sb s)" "a \<noteq> n"
      using a T(5,6) unfolding block_ok_def by auto
    then show ?thesis using a T(1) [OF b(1)] T(3) [OF b(4,3)] by (simp add: block_ok_def)
  qed
  show "block_ok s (taken (sb s) c n) n" using T(1) [OF T(5)] T(4,5,7) by (simp add: block_ok_def)
  show "\<not> block_ok s c n" using T(6) by (simp add: block_ok_def)
  show "bitmap_ok s (taken (sb s) c n)"
    using bm T(1) unfolding bitmap_ok_def by (intro conjI allI impI) auto
qed

text \<open>The free blocks.\<close>

definition spare :: "kernel \<Rightarrow> contents \<Rightarrow> u32 set" where
  "spare s c = {n. n < sb_size (sb s) \<and> \<not> in_use c (sb s) n}"

lemma taken_spare:
  assumes R: "tx_rep s d c H" and bm: "bitmap_ok s c" and f: "first_free c (sb s) n"
  shows "spare s c \<subseteq> insert n (spare s (taken (sb s) c n))"
  using taken_spec(1) [OF R bm f] by (auto simp: spare_def)

text \<open>Writing a block of a file leaves the bitmap alone.\<close>

lemma write_block_ok:
  assumes "block_ok s c n"
  shows "block_ok s (c(n := xs)) a = block_ok s c a" and "bitmap_ok s (c(n := xs)) = bitmap_ok s c" and "spare s (c(n := xs)) = spare s c"
proof -
  have "in_use (c(n := xs)) (sb s) m = in_use c (sb s) m" if "m < sb_size (sb s)" for m
    using assms that by (auto simp: in_use_def block_ok_def)
  then show "block_ok s (c(n := xs)) a = block_ok s c a" "bitmap_ok s (c(n := xs)) = bitmap_ok s c" "spare s (c(n := xs)) = spare s c"
    unfolding block_ok_def bitmap_ok_def spare_def by blast+
qed

section \<open>Mapping with allocation\<close>

text \<open>Steps that change the pointers of one inode as well.\<close>

definition file_step :: "int \<Rightarrow> u32 set \<Rightarrow> nat \<Rightarrow> kernel \<Rightarrow> kernel \<Rightarrow> bool" where
  "file_step k W ip s t \<longleftrightarrow> tx_step k W s (upd_inode ip (\<lambda>_. inodes s ip) t)"

definition file_inv :: "kernel \<Rightarrow> contents \<Rightarrow> contents \<Rightarrow> nat \<Rightarrow> bool" where
  "file_inv s d c ip \<longleftrightarrow> tx_rep s d c Map.empty \<and> bitmap_ok s c \<and> file_ok s c (inodes s ip)"

definition bitmaps :: "kernel \<Rightarrow> u32 set" where
  "bitmaps s = (\<lambda>m. BBLOCK m (sb s)) ` {m. m < sb_size (sb s)}"

lemma upd_inode_more [simp]:
  "me (upd_inode ip f s) = me s" "files (upd_inode ip f s) = files s" "cpus (upd_inode ip f s) = cpus s"
  by (simp_all add: upd_inode_def)

lemma tx_file_step: "tx_step k W s t \<Longrightarrow> file_step k W ip s t"
  by (auto simp: file_step_def tx_step_def)

lemma file_step_trans: "file_step j V ip s t \<Longrightarrow> file_step k W ip t u \<Longrightarrow> file_step (j + k) (V \<union> W) ip s u"
  unfolding file_step_def tx_step_def upd_inode_simps upd_inode_more by (intro conjI) (auto simp: fun_eq_iff split: if_splits, metis+)

lemma file_step_weaken: "file_step j V ip s t \<Longrightarrow> j \<le> k \<Longrightarrow> V \<subseteq> W \<Longrightarrow> file_step k W ip s t"
  unfolding file_step_def by (rule tx_step_weaken)

lemma upd_inode_checks [simp]:
  "block_ok (upd_inode ip f s) c a = block_ok s c a" "bitmap_ok (upd_inode ip f s) c = bitmap_ok s c" "room k (upd_inode ip f s) = room k s"
  "loggable (upd_inode ip f s) n = loggable s n" "bitmaps (upd_inode ip f s) = bitmaps s" "file_ok (upd_inode ip f s) c x = file_ok s c x"
  "keeps (upd_inode ip f s) = keeps s" "spare (upd_inode ip f s) = spare s"
  by (simp_all add: spare_def block_ok_def bitmap_ok_def room_def loggable_def bitmaps_def file_ok_def keeps_def fun_eq_iff)

lemma tx_step_checks:
  assumes "tx_step k W s t"
  shows "block_ok t c a = block_ok s c a" and "bitmap_ok t c = bitmap_ok s c" and "bitmaps t = bitmaps s" and "file_ok t c x = file_ok s c x"
    and "keeps t = keeps s" and "spare t = spare s"
  using loggable_step [OF assms] block_ok_step [OF assms] assms
  by (simp_all add: spare_def bitmap_ok_def tx_step_def bitmaps_def file_ok_def keeps_def fun_eq_iff)

lemma file_step_checks:
  assumes "file_step k W ip s t"
  shows "block_ok t c a = block_ok s c a" and "bitmap_ok t c = bitmap_ok s c" and "bitmaps t = bitmaps s" and "file_ok t c x = file_ok s c x"
    and "keeps t = keeps s" and "sb t = sb s" and "room (k + j) s \<Longrightarrow> room j t" and "loggable t n = loggable s n"
    and "jp \<noteq> ip \<Longrightarrow> inodes t jp = inodes s jp" and "spare t = spare s"
  using tx_step_checks [OF assms [unfolded file_step_def]] assms room_step [OF assms [unfolded file_step_def]] loggable_step [OF assms [unfolded file_step_def]]
  by (simp_all add: file_step_def tx_step_def) (metis fun_upd_other)

text \<open>What a call that maps a block achieves, with the pointer \<open>k\<close> of the inode set to \<open>a\<close> in the end.\<close>

definition mapped :: "nat \<Rightarrow> int \<Rightarrow> u32 set \<Rightarrow> kernel \<Rightarrow> contents \<Rightarrow> contents \<Rightarrow> nat \<Rightarrow> u32 \<times> kernel \<Rightarrow> contents \<Rightarrow> bool" where
  "mapped k i W s d c ip = (\<lambda>(a, t) c'. file_inv t d c' ip \<and> keeps s c (inodes s ip) c' (inodes t ip)
     \<and> (\<forall>p<71680. fbyte c' (inodes t ip) p = fbyte c (inodes s ip) p) \<and> slot_addr c' (inodes t ip) k = a \<and> a \<noteq> 0
     \<and> spare s c \<subseteq> spare s c' \<union> W \<and> file_step i (bitmaps s \<union> W) ip s t)"

lemma mapped_refl:
  assumes "file_inv s d c ip" and "slot_addr c (inodes s ip) k \<noteq> 0" and "0 \<le> i"
  shows "mapped k i W s d c ip (slot_addr c (inodes s ip) k, s) c"
proof -
  have "tx_step 0 {} s s" by (simp add: tx_step_def)
  then have "file_step i (bitmaps s \<union> W) ip s s" using tx_step_weaken [of 0 "{}" s s i "bitmaps s \<union> W"] assms(3) tx_file_step by simp
  then show ?thesis using assms keeps_refl by (simp add: mapped_def)
qed

lemma get32_zeros: "i + 4 \<le> n \<Longrightarrow> get32 (replicate n 0) i = 0"
  by (simp add: get32_def)

lemma slot_set:
  assumes k: "k \<le> 12" "addrs x ! k = 0" and len: "length (addrs x) = 13" and j: "j < 141"
    and ind: "addrs x ! 12 \<noteq> 0 \<Longrightarrow> c' (addrs x ! 12) = c (addrs x ! 12)" and new: "c' n = replicate 512 0"
  shows "slot_addr c' (x\<lparr>addrs := (addrs x)[k := n]\<rparr>) j = (if j = k then n else slot_addr c x j)"
proof (cases "j \<le> 12")
  case True
  then show ?thesis using k(1) len by (simp add: slot_addr_def)
next
  case False
  then have jk: "j \<noteq> k" "4 * (j - 13) + 4 \<le> 512" using k(1) j by auto
  show ?thesis
  proof (cases "k = 12")
    case True
    then have "slot_addr c x j = 0" using k(2) False by (simp add: slot_addr_def)
    moreover have "(addrs x)[k := n] ! 12 = n" using True len by simp
    ultimately show ?thesis using jk False new get32_zeros [OF jk(2)] by (simp add: slot_addr_def)
  next
    case k12: False
    then have "(addrs x)[k := n] ! 12 = addrs x ! 12" by simp
    then show ?thesis using False jk(1) ind by (simp add: slot_addr_def)
  qed
qed

lemma addr_or_alloc_rep:
  assumes I: "file_inv s d c ip" and k: "k \<le> 12" and r: "room 2 s"
  shows "(\<exists>a t c'. addr_or_alloc ip k s = Done (a, t) \<and> mapped k 2 {a} s d c ip (a, t) c')
    \<or> addr_or_alloc ip k s = Panic ''balloc: out of blocks'' \<and> spare s c = {}"
proof (cases "addrs (inodes s ip) ! k = 0")
  case False
  then have "addr_or_alloc ip k s = Done (slot_addr c (inodes s ip) k, s)" "slot_addr c (inodes s ip) k \<noteq> 0"
    using k by (simp_all add: addr_or_alloc_def slot_addr_def)
  then show ?thesis using mapped_refl [OF I, of k 2] by (intro disjI1 exI conjI) simp_all
next
  case True
  let ?x = "inodes s ip"
  have R: "tx_rep s d c Map.empty" and bm: "bitmap_ok s c" and ok: "file_ok s c ?x" using I by (simp_all add: file_inv_def)
  have dev: "idev ?x = 1" "length (addrs ?x) = 13" using ok by (simp_all add: file_ok_def)
  from balloc_rep [OF R bm r] show ?thesis
  proof (elim disjE exE conjE)
    fix n t
    assume b: "balloc 1 s = Done (n, t)" and f: "first_free c (sb s) n" and T: "tx_rep t d (taken (sb s) c n) Map.empty"
      and st: "tx_step 2 {BBLOCK n (sb s), n} s t"
    let ?c = "taken (sb s) c n" and ?x' = "?x\<lparr>addrs := (addrs ?x)[k := n]\<rparr>" and ?t = "set_addr ip k n t"
    note tb = taken_blocks [OF R bm f] and ts = taken_spec [OF R bm f]
    have it: "inodes t = inodes s" using st by (simp add: tx_step_def)
    have xt: "inodes ?t ip = ?x'" by (simp add: set_addr_def it)
    have ic: "?c (addrs ?x ! 12) = c (addrs ?x ! 12)" if "addrs ?x ! 12 \<noteq> 0" using tb(1) [OF ind_ok [OF ok that]] by (rule conjunct2)
    have slot: "slot_addr ?c ?x' j = (if j = k then n else slot_addr c ?x j)" if j: "j < 141" for j
      using slot_set [OF k True dev(2) j, of ?c c n] ic ts(2) by simp
    have k': "k < 141" "slot_addr c ?x k = 0" using k True by (simp_all add: slot_addr_def)
    note g = grow [OF ok _ _ _ slot k' conjunct1 [OF tb(1)] conjunct2 [OF tb(1)] tb(2,3) ts(2)]
    have gg: "file_ok s ?c ?x'" "keeps s c ?x ?c ?x'" "\<And>p. p < 71680 \<Longrightarrow> fbyte ?c ?x' p = fbyte c ?x p"
      by (rule g; use dev in simp)+
    have e: "addr_or_alloc ip k s = Done (n, ?t)" using True b dev(1) by (simp add: addr_or_alloc_def)
    have fs: "file_step 2 {BBLOCK n (sb s), n} ip s ?t"
      using st unfolding file_step_def tx_step_def set_addr_def upd_inode_simps upd_inode_more by (auto simp: fun_eq_iff)
    have "BBLOCK n (sb s) \<in> bitmaps s" unfolding bitmaps_def using ts(5) by (intro imageI) simp
    then have fw: "file_step 2 (bitmaps s \<union> {n}) ip s ?t" by (intro file_step_weaken [OF fs]) simp_all
    have "file_inv ?t d ?c ip"
      using T tb(4) gg(1) xt file_step_checks(2,4) [OF fs] unfolding file_inv_def by (simp add: set_addr_def)
    then have "mapped k 2 {n} s d c ip (n, ?t) ?c"
      unfolding mapped_def using gg(2,3) xt slot [OF k'(1)] block_nonzero [OF tb(2)] fw taken_spare [OF R bm f] by simp
    then show ?thesis using e by blast
  next
    assume "balloc 1 s = Panic ''balloc: out of blocks''" "\<forall>n < sb_size (sb s). in_use c (sb s) n"
    then show ?thesis using True dev(1) by (simp add: addr_or_alloc_def spare_def)
  qed
qed

lemma mapped_trans:
  assumes m: "mapped k i V s d c ip (b, t) c'" "mapped l j W t d c' ip (a, u) c''"
  shows "mapped l (i + j) (V \<union> W) s d c ip (a, u) c''"
proof -
  have st: "file_step i (bitmaps s \<union> V) ip s t" and tu: "file_step j (bitmaps t \<union> W) ip t u" using m by (simp_all add: mapped_def)
  note ch = file_step_checks [OF st]
  have "file_step (i + j) (bitmaps s \<union> (V \<union> W)) ip s u"
    by (rule file_step_weaken [OF file_step_trans [OF st tu]]) (use ch(3) in auto)
  moreover have "keeps s c (inodes s ip) c'' (inodes u ip)"
    using m keeps_trans [of s c "inodes s ip" c' "inodes t ip"] ch(5) by (simp add: mapped_def)
  moreover have "spare s c \<subseteq> spare s c'' \<union> (V \<union> W)" using m ch(10) unfolding mapped_def by auto
  ultimately show ?thesis using m by (simp add: mapped_def)
qed

text \<open>A new entry in the indirect block.\<close>

lemma slot_put:
  assumes ind: "addrs x ! 12 \<noteq> 0" "length (c (addrs x ! 12)) = 512" and j: "j < 128" "i < 141"
    and new: "c' (addrs x ! 12) = put32 (c (addrs x ! 12)) (4 * j) n"
  shows "slot_addr c' x i = (if i = 13 + j then n else slot_addr c x i)"
proof (cases "i \<le> 12")
  case False
  then have b: "4 * (i - 13) + 4 \<le> 512" "4 * j + 4 \<le> 512" using j by auto
  show ?thesis
  proof (cases "i = 13 + j")
    case True
    then show ?thesis using ind b new get32_put32 [of "4 * j" "c (addrs x ! 12)" n] by (simp add: slot_addr_def)
  next
    case ne: False
    then have "4 * (i - 13) + 4 \<le> 4 * j \<or> 4 * j + 4 \<le> 4 * (i - 13)" using False by auto
    then show ?thesis using ind b False ne new get32_put32_other [of "4 * j" "c (addrs x ! 12)" "4 * (i - 13)" n]
      by (simp add: slot_addr_def)
  qed
qed (simp add: slot_addr_def)

lemma bmap_ind_alloc:
  assumes I: "file_inv s d c ip" and ind: "addrs (inodes s ip) ! 12 \<noteq> 0" and j: "j < 128" and r: "room 3 s"
    and z: "slot_addr c (inodes s ip) (13 + j) = 0"
  shows "(\<exists>a t c'. bmap_ind ip j (addrs (inodes s ip) ! 12, s) = Done (a, t)
      \<and> mapped (13 + j) 3 {a, addrs (inodes s ip) ! 12} s d c ip (a, t) c')
    \<or> bmap_ind ip j (addrs (inodes s ip) ! 12, s) = Panic ''balloc: out of blocks'' \<and> spare s c = {}"
proof -
  let ?x = "inodes s ip"
  let ?i = "addrs ?x ! 12"
  have R: "tx_rep s d c Map.empty" and bm: "bitmap_ok s c" and ok: "file_ok s c ?x" using I by (simp_all add: file_inv_def)
  have dev: "idev ?x = 1" "length (addrs ?x) = 13" using ok by (simp_all add: file_ok_def)
  note bi = ind_ok [OF ok ind]
  obtain b t where t: "bread 1 ?i s = Done (b, t)" "tx_rep t d c [?i \<mapsto> b]" "frame s t" using tx_bread [OF R block_ok_disk [OF bi]] by blast
  note st = tx_step_frame [OF t(3)]
  note ct = tx_step_checks [OF st]
  have dat: "data t b = c ?i" "length (c ?i) = 512" using tx_data [OF t(2), of ?i b] by simp_all
  have it: "inodes t = inodes s" "sb t = sb s" using st by (simp_all add: tx_step_def)
  have e: "bmap_ind ip j (?i, s) = kbind (balloc 1 t) (\<lambda>(a, u). kbind (log_release b (set_data b (put32 (data u b) (4 * j) a) u)) (\<lambda>v. Done (a, v)))"
    using t(1) dat(1) dev(1) it(1) z ind by (simp add: bmap_ind_def Let_def slot_addr_def)
  have rt: "room 3 t" using room_step [OF st, of 3] r by simp
  have ap: "apart [?i \<mapsto> b] c (sb t)" using bi unfolding apart_def it(2) block_ok_def by auto
  have bt: "bitmap_ok t c" using bm ct(2) by simp
  have r12: "room 1 t" "room 2 t" using room_less [OF rt] by simp_all
  from balloc_held [OF t(2) bt hold_one [OF r12(1)] ap r12(2)] show ?thesis
  proof (elim disjE exE conjE)
    fix n u
    assume n: "balloc 1 t = Done (n, u)" and f: "first_free c (sb t) n" and U: "tx_rep u d (taken (sb t) c n) [?i \<mapsto> b]"
      and tu: "tx_step 2 {BBLOCK n (sb t), n} t u"
    let ?c = "taken (sb s) c n"
    let ?xs = "put32 (c ?i) (4 * j) n"
    let ?d = "?c(?i := ?xs)"
    have f': "first_free c (sb s) n" and U': "tx_rep u d ?c [?i \<mapsto> b]" using f U it(2) by simp_all
    note tb = taken_blocks [OF R bm f'] and ts = taken_spec [OF R bm f']
    have su: "tx_step 2 {BBLOCK n (sb s), n} s u" using tx_step_trans [OF st tu] it(2) by simp
    note cu = tx_step_checks [OF su]
    have du: "data u b = c ?i" using tx_data [OF U', of ?i b] tb(1) [OF bi] by simp
    have lu: "loggable u ?i" "room 1 u" using loggable_step [OF su] bi room_step [OF su, of 1] r by (simp_all add: block_ok_def)
    have len: "length ?xs = 512" using dat(2) j by simp
    have h: "[?i \<mapsto> b] ?i = Some b" "[?i \<mapsto> b](?i := None) = Map.empty" by simp_all
    obtain v where v: "log_release b (set_data b ?xs u) = Done v" "tx_rep v d ?d Map.empty" "tx_step 1 {?i} u v"
      using log_release_held [OF U' h(1) lu(1) len lu(2)] unfolding h(2) by blast
    have sv: "tx_step 3 {BBLOCK n (sb s), n, ?i} s v" using tx_step_trans [OF su v(3)] by (simp add: insert_commute)
    note cv = tx_step_checks [OF sv]
    have iv: "inodes v = inodes s" using sv by (simp add: tx_step_def)
    have ne: "n \<noteq> ?i" using tb(3) bi by blast
    have slot: "slot_addr ?d ?x i = (if i = 13 + j then n else slot_addr c ?x i)" if i: "i < 141" for i
      using slot_put [of ?x c j i ?d n] ind dat(2) j i by simp
    have wb: "block_ok s ?c ?i" using tb(1) [OF bi] by simp
    note wo = write_block_ok [OF wb, of ?xs]
    have o: "block_ok s ?d a" "a \<noteq> ?i \<Longrightarrow> ?d a = c a" if "block_ok s c a" for a using tb(1) [OF that] wo(1) by simp_all
    have nn: "block_ok s ?d n" "?d n = replicate 512 0" using tb(2) wo(1) ts(2) ne by simp_all
    have k: "13 + j < 141" using j by simp
    have gg: "file_ok s ?d ?x" "keeps s c ?x ?d ?x" "\<And>p. p < 71680 \<Longrightarrow> fbyte ?d ?x p = fbyte c ?x p"
      using grow [of s c ?x ?x ?d "13 + j" n] ok dev slot k z o nn tb(3) by simp_all
    have bd: "bitmap_ok s ?d" and sp: "spare s c \<subseteq> spare s ?d \<union> {n, ?i}" using tb(4) wo(2,3) taken_spare [OF R bm f'] by auto
    have "BBLOCK n (sb s) \<in> bitmaps s" unfolding bitmaps_def using ts(5) by (intro imageI) simp
    then have "file_step 3 (bitmaps s \<union> {n, ?i}) ip s v" by (intro file_step_weaken [OF tx_file_step [OF sv]]) simp_all
    moreover have "file_inv v d ?d ip" using v(2) bd gg(1) cv(2,4) iv by (simp add: file_inv_def)
    ultimately have "mapped (13 + j) 3 {n, ?i} s d c ip (n, v) ?d"
      unfolding mapped_def using gg(2,3) iv slot [OF k] block_nonzero [OF tb(2)] sp by simp
    moreover have "bmap_ind ip j (?i, s) = Done (n, v)" unfolding e using n du v(1) by simp
    ultimately show ?thesis by blast
  next
    assume "balloc 1 t = Panic ''balloc: out of blocks''" "\<forall>n < sb_size (sb t). in_use c (sb t) n"
    then show ?thesis unfolding e using it(2) by (simp add: spare_def)
  qed
qed

lemma mapped_weaken: "mapped k i V s d c ip y c' \<Longrightarrow> i \<le> j \<Longrightarrow> V \<subseteq> W \<Longrightarrow> mapped k j W s d c ip y c'"
  unfolding mapped_def by (auto intro: file_step_weaken)

lemma mappedD:
  assumes "mapped k i W s d c ip (a, t) c'"
  shows "file_inv t d c' ip" and "keeps s c (inodes s ip) c' (inodes t ip)" and "p < 71680 \<Longrightarrow> fbyte c' (inodes t ip) p = fbyte c (inodes s ip) p"
    and "slot_addr c' (inodes t ip) k = a" and "a \<noteq> 0" and "file_step i (bitmaps s \<union> W) ip s t" and "spare s c \<subseteq> spare s c' \<union> W"
  using assms by (simp_all add: mapped_def)

text \<open>
  \<open>bmap\<close> with allocation: at most five blocks are logged, among them the block itself, the indirect block and bitmap blocks.
\<close>

lemma bmap_rep:
  assumes I: "file_inv s d c ip" and k: "k < 140" and r: "room 5 s"
  shows "(\<exists>a t c'. bmap ip (of_nat k) s = Done (a, t)
      \<and> mapped (file_slot k) 5 ({a} \<union> ({addrs (inodes t ip) ! 12} - {0})) s d c ip (a, t) c')
    \<or> bmap ip (of_nat k) s = Panic ''balloc: out of blocks'' \<and> card (spare s c) \<le> 1"
proof (cases "k < 12")
  case True
  have r2: "room 2 s" using room_less [OF r] by simp
  have e: "bmap ip (of_nat k) s = addr_or_alloc ip k s" "k \<le> 12" "file_slot k = k" using bmap_direct True by (simp_all add: file_slot_def)
  from addr_or_alloc_rep [OF I e(2) r2] show ?thesis
  proof (elim disjE exE conjE)
    fix a t c'
    assume a: "addr_or_alloc ip k s = Done (a, t)" "mapped k 2 {a} s d c ip (a, t) c'"
    have "mapped k 5 ({a} \<union> ({addrs (inodes t ip) ! 12} - {0})) s d c ip (a, t) c'" by (rule mapped_weaken [OF a(2)]) simp_all
    then show ?thesis unfolding e(1,3) using a(1) by blast
  qed (use e in simp)
next
  case False
  have r2: "room 2 s" using room_less [OF r] by simp
  have e: "bmap ip (of_nat k) s = kbind (addr_or_alloc ip 12 s) (bmap_ind ip (k - 12))" "file_slot k = 13 + (k - 12)"
    using bmap_indirect [of k ip s] False k by (simp_all add: file_slot_def)
  from addr_or_alloc_rep [OF I order_refl r2] show ?thesis
  proof (elim disjE exE conjE)
    fix i t c'
    assume i: "addr_or_alloc ip 12 s = Done (i, t)" and m: "mapped 12 2 {i} s d c ip (i, t) c'"
    note mt = mappedD [OF m]
    have ind: "addrs (inodes t ip) ! 12 = i" "i \<noteq> 0" using mt(4,5) by (simp_all add: slot_addr_def)
    have rt: "room 3 t" using file_step_checks(7) [OF mt(6), of 3] r by simp
    have e': "bmap ip (of_nat k) s = bmap_ind ip (k - 12) (i, t)" unfolding e(1) i by simp
    have j: "k - 12 < 128" "13 + (k - 12) < 141" using k by simp_all
    show ?thesis
    proof (cases "slot_addr c' (inodes t ip) (13 + (k - 12)) = 0")
      case True
      have i0: "addrs (inodes t ip) ! 12 \<noteq> 0" using ind by simp
      from bmap_ind_alloc [OF mt(1) i0 j(1) rt True] show ?thesis
      proof (elim disjE exE conjE)
        fix a u c''
        assume a: "bmap_ind ip (k - 12) (addrs (inodes t ip) ! 12, t) = Done (a, u)"
          and n: "mapped (13 + (k - 12)) 3 {a, addrs (inodes t ip) ! 12} t d c' ip (a, u) c''"
        have "keeps t c' (inodes t ip) c'' (inodes u ip)" using mappedD(2) [OF n] .
        then have "slot_addr c'' (inodes u ip) 12 = i" using mt(4,5) by (simp add: keeps_def)
        then have iu: "addrs (inodes u ip) ! 12 = i" by (simp add: slot_addr_def)
        have "mapped (13 + (k - 12)) 5 ({a} \<union> ({i} - {0})) s d c ip (a, u) c''"
          using mapped_weaken [OF mapped_trans [OF m n]] ind by simp
        then show ?thesis unfolding e(2) e' using a ind(1) iu by auto
      next
        assume f: "bmap_ind ip (k - 12) (addrs (inodes t ip) ! 12, t) = Panic ''balloc: out of blocks''" "spare t c' = {}"
        then have "spare s c \<subseteq> {i}" using mt(7) file_step_checks(10) [OF mt(6)] by simp
        then have "card (spare s c) \<le> 1" using card_mono [of "{i}" "spare s c"] by simp
        then show ?thesis using f(1) e' ind by simp
      qed
    next
      case False
      let ?a = "slot_addr c' (inodes t ip) (13 + (k - 12))"
      have T: "tx_rep t d c' Map.empty" "file_ok t c' (inodes t ip)" using mt(1) by (simp_all add: file_inv_def)
      have fa: "file_addr c' (inodes t ip) k = ?a" using e(2) by (simp add: file_addr_def)
      obtain u where u: "bmap ip (of_nat k) t = Done (?a, u)" "tx_rep u d c' Map.empty" "frame t u"
        using bmap_mapped [OF T k] False unfolding fa by blast
      have "addr_or_alloc ip 12 t = Done (i, t)" using ind by (simp add: addr_or_alloc_def)
      then have "bmap ip (of_nat k) t = bmap_ind ip (k - 12) (i, t)" using bmap_indirect [of k ip t] \<open>\<not> k < 12\<close> k by simp
      then have b: "bmap ip (of_nat k) s = Done (?a, u)" using u(1) e' by simp
      have tu: "tx_step 0 {} t u" using tx_step_frame [OF u(3)] .
      have iu: "inodes u = inodes t" using tu by (simp add: tx_step_def)
      have "file_inv u d c' ip" using mt(1) u(2) tx_step_checks(2,4) [OF tu] iu by (simp add: file_inv_def)
      then have "mapped (13 + (k - 12)) 3 {} t d c' ip (?a, u) c'"
        unfolding mapped_def using iu False keeps_refl file_step_weaken [OF tx_file_step [OF tu], of 3 "bitmaps t"] by simp
      then have "mapped (13 + (k - 12)) 5 ({?a} \<union> ({i} - {0})) s d c ip (?a, u) c'"
        using mapped_weaken [OF mapped_trans [OF m]] ind(2) by simp
      then show ?thesis unfolding e(2) using b iu ind(1) by auto
    qed
  qed (use e in simp)
qed

end
