(* ===== verification/File_Data.thy ===== *)
theory File_Data
  imports Content
begin

text \<open>\<open>readi\<close> and \<open>writei\<close> as operations on the array of bytes that a file is.\<close>

section \<open>One block at a time\<close>

lemma pos_parts:
  assumes "unat (pos :: u32) = p"
  shows "pos div of_nat BSIZE = of_nat (p div 512)" and "unat (pos mod of_nat BSIZE) = p mod 512"
proof -
  have "(of_nat BSIZE :: u32) = 512" by (simp add: BSIZE_def)
  moreover have "unat pos < 2 ^ LENGTH(32)" by (rule unsigned_less)
  then have "p div 512 < 2 ^ 32" using assms by simp
  ultimately show "pos div of_nat BSIZE = of_nat (p div 512)" "unat (pos mod of_nat BSIZE) = p mod 512"
    using assms of_nat_u32 [of "p div 512"] by (simp_all add: word_unat_eq_iff unat_div unat_mod)
qed

text \<open>The number of bytes of one round: what is left, but not past the end of the block.\<close>

lemma round_length:
  assumes "unat (n :: u32) = m" and "unat (tot :: u32) = q" and "q \<le> m" and "unat (pos :: u32) = p"
  shows "unat (umin (n - tot) (of_nat BSIZE - pos mod of_nat BSIZE)) = min (m - q) (512 - p mod 512)"
proof -
  have b: "(of_nat BSIZE :: u32) = 512" by (simp add: BSIZE_def)
  have "unat (n - tot) = m - q" using assms(1-3) by (simp add: unat_sub_if_size word_le_nat_alt)
  moreover have "unat ((512 :: u32) - pos mod 512) = 512 - p mod 512"
    using pos_parts(2) [OF assms(4)] unfolding b by (simp add: unat_sub_if_size word_le_nat_alt)
  ultimately show ?thesis unfolding b by (simp add: umin_def word_less_nat_alt min_def)
qed

lemma same_block: "p mod 512 + i < 512 \<Longrightarrow> (p + i) div 512 = p div 512 \<and> (p + i) mod 512 = p mod 512 + (i :: nat)"
proof -
  assume i: "p mod 512 + i < 512"
  have g: "(512 * q + r) div 512 = q \<and> (512 * q + r) mod 512 = r" if "r < 512" for q r :: nat using that by simp
  have "512 * (p div 512) + (p mod 512 + i) = p + i" by simp
  then show ?thesis using g [OF i, of "p div 512"] by metis
qed

lemma slice_fbytes:
  assumes a: "file_addr c x (p div 512) = a" "a \<noteq> 0" and k: "k \<le> 512 - p mod 512" and len: "length (c a) = 512"
  shows "slice (c a) (p mod 512) k = map (fbyte c x) [p..<p + k]"
proof (rule nth_equalityI)
  have "p mod 512 < 512" by simp
  then have fit: "p mod 512 + k \<le> length (c a)" using k len by linarith
  show l: "length (slice (c a) (p mod 512) k) = length (map (fbyte c x) [p..<p + k])" using slice_length [OF fit] by simp
  fix i assume "i < length (slice (c a) (p mod 512) k)"
  then have i: "i < k" using l by simp
  then have "p mod 512 + i < 512" using fit len by linarith
  then have d: "(p + i) div 512 = p div 512" "(p + i) mod 512 = p mod 512 + i" using same_block by blast+
  show "slice (c a) (p mod 512) k ! i = map (fbyte c x) [p..<p + k] ! i"
    using i slice_nth [OF i fit] a d by (simp add: fbyte_def Let_def)
qed

section \<open>Reading\<close>

definition all_mapped :: "contents \<Rightarrow> inode \<Rightarrow> bool" where
  "all_mapped c x \<longleftrightarrow> unat (isize x) \<le> 71680 \<and> (\<forall>k. 512 * k < unat (isize x) \<longrightarrow> file_addr c x k \<noteq> 0)"

lemma frame_trans': "frame s t \<Longrightarrow> frame t u \<Longrightarrow> frame s u"
  by (rule frame_trans)

lemma readi_round:
  assumes R: "tx_rep t d c Map.empty" and ok: "file_ok t c (inodes t ip)" and dev: "idev (inodes t ip) = 1"
    and q: "unat tot = q" "q < m" "unat n = m" and p: "unat pos = p" "p < 71680"
    and a: "file_addr c (inodes t ip) (p div 512) \<noteq> 0"
  defines "k \<equiv> min (m - q) (512 - p mod 512)"
  shows "\<exists>u w. readi_body ip n (tot, pos, dst, t) = Done (tot + w, pos + w, dst @ map (fbyte c (inodes t ip)) [p..<p + k], u)
    \<and> unat w = k \<and> tx_rep u d c Map.empty \<and> frame t u"
proof -
  let ?x = "inodes t ip" and ?w = "umin (n - tot) (of_nat BSIZE - pos mod of_nat BSIZE)"
  let ?a = "file_addr c ?x (p div 512)"
  have k: "p div 512 < 140" using p(2) by simp
  obtain u where u: "bmap ip (of_nat (p div 512)) t = Done (?a, u)" "tx_rep u d c Map.empty" "frame t u"
    using bmap_mapped [OF R ok k a] by blast
  have ad: "?a < disksize u" using block_ok_disk [OF file_addr_ok [OF ok k a]] u(3) by (simp add: frame_def)
  obtain b v v' where v: "bread 1 ?a u = Done (b, v)" "data v b = c ?a" "frame u v" "brelse b v = Done v'" "tx_rep v' d c Map.empty" "frame u v'"
    using tx_read [OF u(2) ad] by blast
  have w: "unat ?w = k" using round_length [OF q(3,1) _ p(1)] q(2) by (simp add: k_def)
  have "slice (c ?a) (p mod 512) k = map (fbyte c ?x) [p..<p + k]"
    by (rule slice_fbytes [OF refl a _ tx_length [OF R]]) (simp add: k_def)
  then have "readi_body ip n (tot, pos, dst, t) = Done (tot + ?w, pos + ?w, dst @ map (fbyte c ?x) [p..<p + k], v')"
    using u(1) v(1,2,4) dev w pos_parts [OF p(1)] by (simp add: readi_body_def Let_def)
  then show ?thesis using w v(5) frame_trans [OF u(3) v(6)] by blast
qed

text \<open>The loop: \<open>m\<close> bytes from offset \<open>p\<close> on.\<close>

lemma readi_loop:
  assumes R: "tx_rep s d c Map.empty" and ok: "file_ok s c (inodes s ip)" and dev: "idev (inodes s ip) = 1" and al: "all_mapped c (inodes s ip)"
    and m: "unat n = m" "unat pos + m \<le> unat (isize (inodes s ip))"
  shows "\<exists>tot pos' t. kwhile (\<lambda>(tot, _). tot < n) (readi_body ip n) (0, pos, [], s)
      = Done (tot, pos', map (fbyte c (inodes s ip)) [unat pos..<unat pos + m], t)
    \<and> tx_rep t d c Map.empty \<and> frame s t"
proof -
  let ?x = "inodes s ip" and ?p = "unat pos"
  define I where "I = (\<lambda>(tot :: u32, p :: u32, dst, t). unat tot \<le> m \<and> unat p = ?p + unat tot
    \<and> dst = map (fbyte c ?x) [?p..<?p + unat tot] \<and> tx_rep t d c Map.empty \<and> frame s t)"
  define f where "f = (\<lambda>(tot :: u32, p :: u32, dst :: u8 list, t :: kernel). m - unat tot)"
  have sz: "unat (isize ?x) \<le> 71680" using al by (simp add: all_mapped_def)
  have f0: "frame s s" by (simp add: frame_def)
  have "\<exists>y. kwhile (\<lambda>(tot, _). tot < n) (readi_body ip n) (0, pos, [], s) = Done y \<and> I y \<and> \<not> (case y of (tot, _) \<Rightarrow> tot < n)"
  proof (rule kwhile_rule [where f = f])
    show "I (0, pos, [], s)" using R f0 by (simp add: I_def)
    fix y
    assume y: "I y" "case y of (tot, _) \<Rightarrow> tot < n"
    obtain tot p dst t where e: "y = (tot, p, dst, t)" using prod_cases4 by blast
    let ?q = "unat tot"
    have i: "unat p = ?p + ?q" "dst = map (fbyte c ?x) [?p..<?p + ?q]" "tx_rep t d c Map.empty" "frame s t"
      using y(1) by (simp_all add: I_def e)
    have q: "?q < m" using y(2) m(1) by (simp add: e word_less_nat_alt)
    have it: "inodes t = inodes s" and okt: "file_ok t c (inodes t ip)"
      using i(4) ok tx_step_checks(4) [OF tx_step_frame [OF i(4)]] by (simp_all add: frame_def)
    have pq: "?p + ?q < unat (isize ?x)" using q m(2) by linarith
    then have p': "?p + ?q < 71680" using sz by linarith
    have "512 * ((?p + ?q) div 512) < unat (isize ?x)" using pq by (metis le_less_trans div_times_less_eq_dividend mult.commute)
    then have a: "file_addr c (inodes t ip) ((?p + ?q) div 512) \<noteq> 0" using al unfolding it all_mapped_def by blast
    let ?k = "min (m - ?q) (512 - (?p + ?q) mod 512)"
    obtain u w where u: "readi_body ip n (tot, p, dst, t) = Done (tot + w, p + w, dst @ map (fbyte c ?x) [?p + ?q..<?p + ?q + ?k], u)"
      "unat w = ?k" "tx_rep u d c Map.empty" "frame t u"
      using readi_round [OF i(3) okt _ refl q m(1) i(1) p' a] dev unfolding it by blast
    have k: "0 < ?k" "?q + ?k \<le> m" using q by auto
    have un: "m < 2 ^ 32" "?p + m < 2 ^ 32" using m(2) sz by simp_all
    have b: "unat tot + unat w < 2 ^ 32" "unat p + unat w < 2 ^ 32" unfolding u(2) i(1) using k(2) un by linarith+
    have add: "unat (tot + w) = ?q + ?k" "unat (p + w) = ?p + (?q + ?k)"
      using unat_add_u32 [OF b(1)] unat_add_u32 [OF b(2)] unfolding u(2) i(1) add.assoc .
    have "[?p..<?p + (?q + ?k)] = [?p..<?p + ?q] @ [?p + ?q..<?p + ?q + ?k]"
      using upt_add_eq_append [of ?p "?p + ?q" ?k] unfolding add.assoc by (simp only: le_add1)
    then have "dst @ map (fbyte c ?x) [?p + ?q..<?p + ?q + ?k] = map (fbyte c ?x) [?p..<?p + (?q + ?k)]" unfolding i(2) by (simp only: map_append)
    then have "I (tot + w, p + w, dst @ map (fbyte c ?x) [?p + ?q..<?p + ?q + ?k], u)"
      unfolding I_def prod.case add using k(2) u(3) frame_trans [OF i(4) u(4)] by (intro conjI refl)
    moreover have "f (tot + w, p + w, dst @ map (fbyte c ?x) [?p + ?q..<?p + ?q + ?k], u) < f y"
      unfolding f_def e prod.case add using k q by linarith
    ultimately show "\<exists>z. readi_body ip n y = Done z \<and> I z \<and> f z < f y" using u(1) unfolding e by blast
  qed
  then obtain y where y: "kwhile (\<lambda>(tot, _). tot < n) (readi_body ip n) (0, pos, [], s) = Done y" "I y" "\<not> (case y of (tot, _) \<Rightarrow> tot < n)"
    by blast
  obtain tot p dst t where e: "y = (tot, p, dst, t)" using prod_cases4 by blast
  have "unat tot = m" using y(2,3) m(1) by (simp add: I_def e word_less_nat_alt)
  then show ?thesis using y(1,2) unfolding e by (auto simp: I_def)
qed

lemma sint_id: "uint (x :: u32) < 2 ^ 31 \<Longrightarrow> sint x = uint x"
  by (simp add: sint_uint signed_take_bit_int_eq_self_iff) (rule order_trans [OF _ unsigned_greater_eq], simp)

lemma readi_rep:
  assumes R: "tx_rep s d c Map.empty" and ok: "file_ok s c (inodes s ip)" and al: "all_mapped c (inodes s ip)"
    and ty: "itype (inodes s ip) \<noteq> T_DEV" and pos: "pos \<le> isize (inodes s ip)" "unat pos + unat n < 2 ^ 32"
  defines "m \<equiv> min (unat n) (unat (isize (inodes s ip)) - unat pos)"
  shows "\<exists>t. readi ip pos n s = Done ((int m, map (fbyte c (inodes s ip)) [unat pos..<unat pos + m]), t)
    \<and> tx_rep t d c Map.empty \<and> frame s t"
proof -
  let ?x = "inodes s ip" and ?n = "if pos + n > isize (inodes s ip) then isize (inodes s ip) - pos else n"
  have dev: "idev ?x = 1" using ok by (simp add: file_ok_def)
  have add: "unat (pos + n) = unat pos + unat n" using unat_add_u32 [of pos n] pos(2) by simp
  have le: "unat pos \<le> unat (isize ?x)" using pos(1) by (simp add: word_le_nat_alt)
  have n: "unat ?n = m" using add le pos(1) by (auto simp: m_def word_less_nat_alt unat_sub min_def)
  have bound: "unat pos + m \<le> unat (isize ?x)" using le by (simp add: m_def)
  have sz: "unat (isize ?x) \<le> 71680" using al by (simp add: all_mapped_def)
  have "uint ?n < 2 ^ 31" using n bound sz by (simp add: uint_nat)
  then have "sint ?n = uint ?n" by (rule sint_id)
  then have s: "sint ?n = int m" using n by (simp add: uint_nat)
  obtain tot pos' t where t: "kwhile (\<lambda>(tot, _). tot < ?n) (readi_body ip ?n) (0, pos, [], s)
      = Done (tot, pos', map (fbyte c ?x) [unat pos..<unat pos + m], t)" "tx_rep t d c Map.empty" "frame s t"
    using readi_loop [OF R ok dev al n bound] by blast
  have c: "\<not> (pos > isize ?x \<or> pos + n < pos)" using le add by (simp add: word_less_nat_alt)
  have "readi ip pos n s = Done ((int m, map (fbyte c ?x) [unat pos..<unat pos + m]), t)"
    unfolding readi_def Let_def using ty c t(1) s by (simp only: if_False) simp
  then show ?thesis using t(2,3) by blast
qed

section \<open>Writing\<close>

lemma div_mod_block:
  assumes "r div 512 = p div (512 :: nat)"
  shows "p mod 512 \<le> r mod 512 \<and> r mod 512 < p mod 512 + k \<longleftrightarrow> p \<le> r \<and> r < p + k" and "p \<le> r \<Longrightarrow> r mod 512 - p mod 512 = r - p"
proof -
  have "r = 512 * (p div 512) + r mod 512" "p = 512 * (p div 512) + p mod 512" using assms by (metis mult_div_mod_eq)+
  then show "p mod 512 \<le> r mod 512 \<and> r mod 512 < p mod 512 + k \<longleftrightarrow> p \<le> r \<and> r < p + k" "p \<le> r \<Longrightarrow> r mod 512 - p mod 512 = r - p"
    by linarith+
qed

text \<open>New contents for a block of the file.\<close>

lemma file_block_write:
  fixes xs :: "u8 list"
  assumes ok: "file_ok s c x" and k: "k < 140" and a: "file_addr c x k = a" "a \<noteq> 0"
  defines "c' \<equiv> c(a := xs)"
  shows "file_ok s c' x" and "keeps s c x c' x" and "j < 141 \<Longrightarrow> slot_addr c' x j = slot_addr c x j"
    and "r < 71680 \<Longrightarrow> fbyte c' x r = (if r div 512 = k then xs ! (r mod 512) else fbyte c x r)"
proof -
  note ab = file_addr_ok [OF ok k, unfolded a(1), OF a(2)]
  have ai: "a \<noteq> addrs x ! 12" if "addrs x ! 12 \<noteq> 0" using ind_not_file [OF ok k that] a(1) by simp
  have slot: "slot_addr c' x j = slot_addr c x j" for j using ai by (auto simp: slot_addr_def c'_def)
  then show "j < 141 \<Longrightarrow> slot_addr c' x j = slot_addr c x j" by simp
  note bo = write_block_ok(1) [OF ab, of xs, folded c'_def]
  show "file_ok s c' x" using ok unfolding file_ok_def slot bo .
  have "a \<in> blocks c x" using a(1) file_slot_less [OF k] unfolding blocks_def file_addr_def by blast
  moreover have "blocks c' x = blocks c x" by (simp add: blocks_def slot)
  ultimately show "keeps s c x c' x" unfolding keeps_def slot bo by (auto simp: c'_def)
  assume r: "r < 71680"
  then have rk: "r div 512 < 140" by simp
  have ca: "c' a = xs" "b \<noteq> a \<Longrightarrow> c' b = c b" for b by (simp_all add: c'_def)
  have f: "file_addr c' x j = file_addr c x j" for j by (simp add: file_addr_def slot)
  show "fbyte c' x r = (if r div 512 = k then xs ! (r mod 512) else fbyte c x r)"
  proof (cases "r div 512 = k")
    case True
    then show ?thesis using a by (simp add: fbyte_def f ca Let_def)
  next
    case False
    have "file_addr c x (r div 512) \<noteq> a" using file_addr_inj [OF ok k rk] a False by metis
    then show ?thesis using False by (simp add: fbyte_def f ca Let_def)
  qed
qed

lemma writei_round:
  assumes I: "file_inv t d c ip" and r: "room 6 t"
    and q: "unat tot = q" "q < m" "unat n = m" "m \<le> length src" and p: "unat pos = p" "p < 71680"
  defines "k \<equiv> min (m - q) (512 - p mod 512)"
  shows "(\<exists>w u c'. writei_body ip src n (tot, pos, t) = Done (tot + w, pos + w, u) \<and> unat w = k
      \<and> file_inv u d c' ip \<and> keeps t c (inodes t ip) c' (inodes u ip)
      \<and> (\<forall>r<71680. fbyte c' (inodes u ip) r = (if p \<le> r \<and> r < p + k then src ! (q + (r - p)) else fbyte c (inodes t ip) r))
      \<and> file_addr c' (inodes u ip) (p div 512) \<noteq> 0
      \<and> spare t c \<subseteq> spare t c' \<union> ({file_addr c' (inodes u ip) (p div 512)} \<union> ({addrs (inodes u ip) ! 12} - {0}))
      \<and> file_step 6 (bitmaps t \<union> {file_addr c' (inodes u ip) (p div 512)} \<union> ({addrs (inodes u ip) ! 12} - {0})) ip t u)
    \<or> writei_body ip src n (tot, pos, t) = Panic ''balloc: out of blocks'' \<and> card (spare t c) \<le> 1"
proof -
  let ?w = "umin (n - tot) (of_nat BSIZE - pos mod of_nat BSIZE)"
  have w: "unat ?w = k" using round_length [OF q(3,1) _ p(1)] q(2) by (simp add: k_def)
  have pk: "p div 512 < 140" using p(2) by simp
  have dev: "idev (inodes t ip) = 1" using I by (simp add: file_inv_def file_ok_def)
  have fit: "p mod 512 + k \<le> 512" "q + k \<le> length src" using q by (auto simp: k_def)
  let ?ys = "slice src q k"
  have ys: "length ?ys = k" using slice_length [OF fit(2)] .
  have r5: "room 5 t" using room_less [OF r] by simp
  from bmap_rep [OF I pk r5] show ?thesis
  proof (elim disjE exE conjE)
    fix a u c1
    assume b: "bmap ip (of_nat (p div 512)) t = Done (a, u)"
      and m: "mapped (file_slot (p div 512)) 5 ({a} \<union> ({addrs (inodes u ip) ! 12} - {0})) t d c ip (a, u) c1"
    let ?x = "inodes u ip"
    note mt = mappedD [OF m]
    have U: "tx_rep u d c1 Map.empty" "bitmap_ok u c1" "file_ok u c1 ?x" using mt(1) by (simp_all add: file_inv_def)
    have fa: "file_addr c1 ?x (p div 512) = a" using mt(4) by (simp add: file_addr_def)
    have ab: "block_ok u c1 a" using file_addr_ok [OF U(3) pk] fa mt(5) by simp
    obtain bp v where v: "bread 1 a u = Done (bp, v)" "tx_rep v d c1 [a \<mapsto> bp]" "frame u v" using tx_bread [OF U(1) block_ok_disk [OF ab]] by blast
    note sv = tx_step_frame [OF v(3)]
    have dat: "data v bp = c1 a" "length (c1 a) = 512" using tx_data [OF v(2), of a bp] by simp_all
    let ?xs = "blit (c1 a) (p mod 512) ?ys"
    have bf: "p mod 512 + length ?ys \<le> length (c1 a)" using fit(1) ys dat(2) by simp
    have len: "length ?xs = 512" using blit_length [OF bf] dat(2) by simp
    have ru: "room 1 v" using file_step_checks(7) [OF mt(6), of 1] r room_step [OF sv, of 1] by simp
    have la: "loggable v a" using ab loggable_step [OF sv] by (simp add: block_ok_def)
    let ?c = "c1(a := ?xs)"
    obtain z where z: "log_release bp (set_data bp ?xs v) = Done z" "tx_rep z d ?c Map.empty" "tx_step 1 {a} v z"
      using log_release_rep [OF v(2) la len ru] by blast
    have uz: "tx_step 1 {a} u z" using tx_step_trans [OF sv z(3)] by simp
    have iz: "inodes z = inodes u" using uz by (simp add: tx_step_def)
    note cz = tx_step_checks [OF uz] and ct = file_step_checks [OF mt(6)]
    note fw = file_block_write [OF U(3) pk fa mt(5), where xs = ?xs]
    have devu: "idev (inodes u ip) = 1" using U(3) by (simp add: file_ok_def)
    have e: "writei_body ip src n (tot, pos, t) = Done (tot + ?w, pos + ?w, z)"
      using b v(1) z(1) dev dat(1) w q(1) pos_parts [OF p(1)] by (simp add: writei_body_def Let_def)
    have inv: "file_inv z d ?c ip"
      using z(2) fw(1) U(2) write_block_ok(2) [OF ab] cz(2,4) iz by (simp add: file_inv_def)
    have kp: "keeps t c (inodes t ip) ?c (inodes z ip)"
      using keeps_trans [OF mt(2)] fw(2) ct(5) iz by simp
    have az: "file_addr ?c (inodes z ip) (p div 512) = a" using fw(3) file_slot_less [OF pk] fa iz by (simp add: file_addr_def)
    have fb: "fbyte ?c (inodes z ip) i = (if p \<le> i \<and> i < p + k then src ! (q + (i - p)) else fbyte c (inodes t ip) i)" if i: "i < 71680" for i
    proof (cases "i div 512 = p div 512")
      case True
      note dm = div_mod_block(1) [OF True, of k] div_mod_block(2) [OF True]
      have il: "i mod 512 < length (c1 a)" using dat(2) by simp
      have f1: "fbyte c1 ?x i = c1 a ! (i mod 512)" using fa mt(5) True by (simp add: fbyte_def Let_def)
      have "fbyte ?c (inodes z ip) i = ?xs ! (i mod 512)" using fw(4) [OF i] True iz by simp
      also have "\<dots> = (if p \<le> i \<and> i < p + k then ?ys ! (i - p) else c1 a ! (i mod 512))"
        using blit_nth [OF bf il] dm ys by simp
      also have "\<dots> = (if p \<le> i \<and> i < p + k then src ! (q + (i - p)) else c1 a ! (i mod 512))"
        using slice_nth [of "i - p" k q src] fit(2) by auto
      finally show ?thesis using f1 mt(3) [OF i] by simp
    next
      case False
      have "\<not> (p \<le> i \<and> i < p + k)"
      proof
        assume i2: "p \<le> i \<and> i < p + k"
        then have "p mod 512 + (i - p) < 512" using fit(1) by linarith
        then show False using same_block [of p "i - p"] i2 False by simp
      qed
      then show ?thesis using fw(4) [OF i] False iz mt(3) [OF i] by (simp only: if_False)
    qed
    have fs: "file_step 6 (bitmaps t \<union> {file_addr ?c (inodes z ip) (p div 512)} \<union> ({addrs (inodes z ip) ! 12} - {0})) ip t z"
      unfolding az by (rule file_step_weaken [OF file_step_trans [OF mt(6) tx_file_step [OF uz]]]) (use iz in auto)
    have nz: "file_addr ?c (inodes z ip) (p div 512) \<noteq> 0" unfolding az by (rule mt(5))
    have fb': "\<forall>i<71680. fbyte ?c (inodes z ip) i = (if p \<le> i \<and> i < p + k then src ! (q + (i - p)) else fbyte c (inodes t ip) i)"
      using fb by blast
    have sp: "spare t c \<subseteq> spare t ?c \<union> ({file_addr ?c (inodes z ip) (p div 512)} \<union> ({addrs (inodes z ip) ! 12} - {0}))"
      using mt(7) write_block_ok(3) [OF ab, of ?xs] ct(10) iz unfolding az by simp
    show ?thesis by (intro disjI1 exI conjI) (rule e, rule w, rule inv, rule kp, rule fb', rule nz, rule sp, rule fs)
  next
    assume "bmap ip (of_nat (p div 512)) t = Panic ''balloc: out of blocks''" "card (spare t c) \<le> 1"
    then show ?thesis using dev pos_parts [OF p(1)] by (simp add: writei_body_def Let_def)
  qed
qed

text \<open>A loop whose body may also panic with one message.\<close>

lemma kwhile_panic_rule:
  assumes "I x" and "\<And>x. I x \<Longrightarrow> b x \<Longrightarrow> (\<exists>y. c x = Done y \<and> I y \<and> f y < (f x :: nat)) \<or> c x = Panic e \<and> Q"
  shows "(\<exists>y. kwhile b c x = Done y \<and> I y \<and> \<not> b y) \<or> kwhile b c x = Panic e \<and> Q"
  using assms(1)
proof (induction "f x" arbitrary: x rule: less_induct)
  case less
  show ?case
  proof (cases "b x")
    case True
    from assms(2) [OF less.prems True] show ?thesis
    proof (elim disjE exE conjE)
      fix y assume y: "c x = Done y" "I y" "f y < f x"
      have "kwhile b c x = kwhile b c y" using True y(1) by (simp add: kwhile_unfold [of b c x])
      then show ?thesis using less.hyps [OF y(3,2)] by simp
    qed (use True in \<open>simp add: kwhile_unfold [of b c x]\<close>)
  next
    case False
    then show ?thesis using less.prems by (simp add: kwhile_unfold [of b c x])
  qed
qed

text \<open>The blocks that \<open>q\<close> bytes from offset \<open>p\<close> on lie in.\<close>

definition touched :: "nat \<Rightarrow> nat \<Rightarrow> nat set" where
  "touched p q = {k. 0 < q \<and> p div 512 \<le> k \<and> 512 * k < p + q}"

lemma touched_less: "k \<in> touched p q \<Longrightarrow> p + q \<le> 71680 \<Longrightarrow> k < 140"
  by (simp add: touched_def)

lemma touched_finite [simp]: "finite (touched p q)"
  by (rule finite_subset [of _ "{..p + q}"]) (auto simp: touched_def)

lemma touched_mono: "q \<le> r \<Longrightarrow> touched p q \<subseteq> touched p r"
  by (auto simp: touched_def)

lemma touched_round:
  assumes "0 < k" and "k \<le> 512 - (p + q) mod 512"
  shows "touched p (q + k) = insert ((p + q) div 512) (touched p q)"
proof -
  let ?b = "(p + q) div 512"
  have e: "p + q = 512 * ?b + (p + q) mod 512" by simp
  have m: "(p + q) mod 512 < 512" by simp
  have pb: "p div 512 \<le> ?b" by (simp add: div_le_mono)
  have g: "v + k \<le> 512 * Suc b" if "k \<le> 512 - r" "r < 512" "v = 512 * b + r" for v b r using that by simp
  have up: "p + (q + k) \<le> 512 * Suc ?b" using g [OF assms(2) m e] by (simp only: add.assoc)
  show ?thesis
  proof (intro equalityI subsetI)
    fix j assume j: "j \<in> touched p (q + k)"
    then have "j < Suc ?b" using up by (simp add: touched_def)
    moreover have "512 * j < p + q" if "j < ?b" using that e by linarith
    ultimately show "j \<in> insert ?b (touched p q)" using j by (cases "q = 0") (auto simp: touched_def less_Suc_eq)
  next
    fix j assume "j \<in> insert ?b (touched p q)"
    then show "j \<in> touched p (q + k)" using pb e assms(1) touched_mono [of q "q + k" p] by (auto simp: touched_def)
  qed
qed

lemma keeps_addr:
  assumes "keeps s c x c' x'"
  shows "k < 140 \<Longrightarrow> file_addr c x k \<noteq> 0 \<Longrightarrow> file_addr c' x' k = file_addr c x k" and "addrs x ! 12 \<noteq> 0 \<Longrightarrow> addrs x' ! 12 = addrs x ! 12"
proof -
  have s: "k < 141 \<Longrightarrow> slot_addr c x k \<noteq> 0 \<Longrightarrow> slot_addr c' x' k = slot_addr c x k" for k using assms unfolding keeps_def by blast
  show "k < 140 \<Longrightarrow> file_addr c x k \<noteq> 0 \<Longrightarrow> file_addr c' x' k = file_addr c x k"
    using s file_slot_less [of k] by (simp add: file_addr_def)
  show "addrs x ! 12 \<noteq> 0 \<Longrightarrow> addrs x' ! 12 = addrs x ! 12" using s [of 12] by (simp add: slot_addr_def)
qed

text \<open>The log fills with different blocks only.\<close>

lemma room_card:
  assumes R: "tx_rep s d c H" "tx_rep t d' c' H'" and st: "file_step j W ip s t" and W: "finite W" "card W \<le> w" and r: "room (int w + k) s"
  shows "room k t"
proof -
  let ?T = "set (targets (klog t))" and ?S = "set (targets (klog s))"
  have l: "log_ok (disksize s) (klog s)" "log_ok (disksize t) (klog t)" using R by (simp_all add: tx_rep_def)
  have e: "?T \<subseteq> ?S \<union> W" "lsize (klog t) = lsize (klog s)" "outstanding (klog t) = outstanding (klog s)"
    using st by (simp_all add: file_step_def tx_step_def)
  have "nat (lh_n (klog t)) = card ?T" using log_ok_length [OF l(2)] distinct_card [OF targets_distinct [OF l(2)]] by simp
  also have "\<dots> \<le> card (?S \<union> W)" using e(1) W(1) by (intro card_mono) simp_all
  also have "\<dots> \<le> card ?S + card W" by (rule card_Un_le)
  also have "card ?S \<le> nat (lh_n (klog s))" using log_ok_length [OF l(1)] card_length [of "targets (klog s)"] by simp
  finally have "nat (lh_n (klog t)) \<le> nat (lh_n (klog s)) + w" using W(2) by linarith
  moreover have "0 \<le> lh_n (klog s)" "0 \<le> lh_n (klog t)" using l by (simp_all add: log_ok_def)
  ultimately have "lh_n (klog t) \<le> lh_n (klog s) + int w" by (simp add: nat_le_iff)
  then show ?thesis using r e(2,3) by (simp add: room_def)
qed

text \<open>The file after \<open>q\<close> bytes of \<open>src\<close> have been written from offset \<open>p\<close> on.\<close>

definition owned :: "contents \<Rightarrow> inode \<Rightarrow> nat \<Rightarrow> nat \<Rightarrow> u32 set" where
  "owned c x p q = file_addr c x ` touched p q \<union> ({addrs x ! 12} - {0})"

definition logged :: "kernel \<Rightarrow> contents \<Rightarrow> inode \<Rightarrow> nat \<Rightarrow> nat \<Rightarrow> u32 set" where
  "logged s c x p q = bitmaps s \<union> owned c x p q"

definition wrote :: "kernel \<Rightarrow> contents \<Rightarrow> contents \<Rightarrow> nat \<Rightarrow> u8 list \<Rightarrow> nat \<Rightarrow> nat \<Rightarrow> kernel \<Rightarrow> contents \<Rightarrow> bool" where
  "wrote s d c ip src p q t c' \<longleftrightarrow> file_inv t d c' ip \<and> keeps s c (inodes s ip) c' (inodes t ip)
     \<and> (\<forall>r<71680. fbyte c' (inodes t ip) r = (if p \<le> r \<and> r < p + q then src ! (r - p) else fbyte c (inodes s ip) r))
     \<and> (\<forall>k\<in>touched p q. file_addr c' (inodes t ip) k \<noteq> 0)
     \<and> spare s c \<subseteq> spare s c' \<union> owned c' (inodes t ip) p q
     \<and> (\<exists>j. file_step j (logged s c' (inodes t ip) p q) ip s t)"

lemma wrote_0: "file_inv s d c ip \<Longrightarrow> wrote s d c ip src p 0 s c"
proof -
  assume "file_inv s d c ip"
  moreover have "touched p 0 = {}" by (auto simp: touched_def)
  moreover have "file_step 0 (logged s c (inodes s ip) p 0) ip s s"
    using tx_step_weaken [of 0 "{}" s s 0] tx_file_step by (simp add: tx_step_def)
  ultimately show ?thesis using keeps_refl unfolding wrote_def by auto
qed

lemma card_owned: "card (owned c x p q) \<le> card (touched p q) + 1"
proof -
  have "card (file_addr c x ` touched p q) \<le> card (touched p q)" by (rule card_image_le) simp
  moreover have "card ({addrs x ! 12} - {0}) \<le> 1" using card_Diff1_le [of "{addrs x ! 12}" 0] by simp
  ultimately show ?thesis using card_Un_le [of "file_addr c x ` touched p q" "{addrs x ! 12} - {0}"] unfolding owned_def by linarith
qed

lemma card_logged: "card (logged s c x p q) \<le> card (bitmaps s) + card (touched p q) + 1 \<and> finite (logged s c x p q)"
  using card_Un_le [of "bitmaps s" "owned c x p q"] card_owned [of c x p q] unfolding logged_def by auto

lemma wrote_room:
  assumes I: "file_inv s d c ip" and w: "wrote s d c ip src p q t c'" and q: "q \<le> m"
    and r: "room (int (card (bitmaps s)) + int (card (touched p m)) + 1 + k) s"
  shows "room k t"
proof -
  obtain j where j: "file_step j (logged s c' (inodes t ip) p q) ip s t" using w unfolding wrote_def by blast
  have R: "tx_rep s d c Map.empty" "tx_rep t d c' Map.empty" using I w by (simp_all add: file_inv_def wrote_def)
  note cl = card_logged [of s c' "inodes t ip" p q]
  have "card (touched p q) \<le> card (touched p m)" by (rule card_mono [OF touched_finite touched_mono [OF q]])
  then have "card (logged s c' (inodes t ip) p q) \<le> card (bitmaps s) + card (touched p m) + 1" using cl by linarith
  then show ?thesis using room_card [OF R j, of "card (bitmaps s) + card (touched p m) + 1" k] cl r by (simp add: algebra_simps)
qed

lemma wrote_step:
  assumes w: "wrote s d c ip src p q t c1" and k: "0 < k" "k \<le> 512 - (p + q) mod 512" and b: "p + q + k \<le> 71680"
    and u: "file_inv u d c2 ip" "keeps t c1 (inodes t ip) c2 (inodes u ip)"
      "\<forall>r<71680. fbyte c2 (inodes u ip) r = (if p + q \<le> r \<and> r < p + q + k then src ! (q + (r - (p + q))) else fbyte c1 (inodes t ip) r)"
      "file_addr c2 (inodes u ip) ((p + q) div 512) \<noteq> 0"
      "spare t c1 \<subseteq> spare t c2 \<union> ({file_addr c2 (inodes u ip) ((p + q) div 512)} \<union> ({addrs (inodes u ip) ! 12} - {0}))"
      "file_step 6 (bitmaps t \<union> {file_addr c2 (inodes u ip) ((p + q) div 512)} \<union> ({addrs (inodes u ip) ! 12} - {0})) ip t u"
  shows "wrote s d c ip src p (q + k) u c2"
proof -
  let ?b = "(p + q) div 512"
  obtain j where j: "file_step j (logged s c1 (inodes t ip) p q) ip s t" using w unfolding wrote_def by blast
  note cj = file_step_checks [OF j]
  have kp: "keeps s c (inodes s ip) c2 (inodes u ip)" using w u(2) keeps_trans cj(5) unfolding wrote_def by metis
  note ad = keeps_addr [OF u(2)] and tr = touched_round [OF k]
  have nz: "file_addr c1 (inodes t ip) i \<noteq> 0" if "i \<in> touched p q" for i using w that unfolding wrote_def by blast
  have small: "i < 140" if "i \<in> touched p q" for i using touched_less [OF that] b by simp
  have same: "file_addr c2 (inodes u ip) i = file_addr c1 (inodes t ip) i" if "i \<in> touched p q" for i
    using ad(1) [OF small [OF that] nz [OF that]] .
  have nz2: "\<forall>i\<in>touched p (q + k). file_addr c2 (inodes u ip) i \<noteq> 0"
    unfolding tr using u(4) same nz by auto
  have "file_addr c1 (inodes t ip) ` touched p q = file_addr c2 (inodes u ip) ` touched p q"
    using same by (intro image_cong) simp_all
  moreover have "{addrs (inodes t ip) ! 12} - {0} \<subseteq> {addrs (inodes u ip) ! 12} - {0}" using ad(2) by auto
  ultimately have own: "owned c1 (inodes t ip) p q \<union> ({file_addr c2 (inodes u ip) ?b} \<union> ({addrs (inodes u ip) ! 12} - {0}))
      \<subseteq> owned c2 (inodes u ip) p (q + k)"
    unfolding owned_def tr by auto
  then have sub: "logged s c1 (inodes t ip) p q \<union> (bitmaps t \<union> {file_addr c2 (inodes u ip) ?b} \<union> ({addrs (inodes u ip) ! 12} - {0}))
      \<subseteq> logged s c2 (inodes u ip) p (q + k)"
    unfolding logged_def cj(3) by auto
  have "spare s c \<subseteq> spare s c1 \<union> owned c1 (inodes t ip) p q" using w unfolding wrote_def by blast
  then have sp: "spare s c \<subseteq> spare s c2 \<union> owned c2 (inodes u ip) p (q + k)" using u(5) own unfolding cj(10) by blast
  have st: "file_step (j + 6) (logged s c2 (inodes u ip) p (q + k)) ip s u"
    by (rule file_step_weaken [OF file_step_trans [OF j u(6)] order_refl sub])
  have fb: "\<forall>r<71680. fbyte c1 (inodes t ip) r = (if p \<le> r \<and> r < p + q then src ! (r - p) else fbyte c (inodes s ip) r)"
    using w unfolding wrote_def by blast
  have "fbyte c2 (inodes u ip) r = (if p \<le> r \<and> r < p + (q + k) then src ! (r - p) else fbyte c (inodes s ip) r)" if r: "r < 71680" for r
  proof -
    have "q + (r - (p + q)) = r - p" if "p + q \<le> r" using that by simp
    then show ?thesis using u(3) fb r by auto
  qed
  then show ?thesis using u(1) kp nz2 st sp unfolding wrote_def by blast
qed

lemma writei_loop:
  assumes I: "file_inv s d c ip" and m: "unat n = m" "m \<le> length src" "unat pos + m \<le> 71680"
    and r: "room (int (card (bitmaps s)) + int (card (touched (unat pos) m)) + 7) s"
  shows "(\<exists>tot pos' t c'. kwhile (\<lambda>(tot, _). tot < n) (writei_body ip src n) (0, pos, s) = Done (tot, pos', t)
      \<and> unat pos' = unat pos + m \<and> wrote s d c ip src (unat pos) m t c')
    \<or> kwhile (\<lambda>(tot, _). tot < n) (writei_body ip src n) (0, pos, s) = Panic ''balloc: out of blocks''
      \<and> card (spare s c) \<le> card (touched (unat pos) m) + 2"
proof -
  let ?p = "unat pos" and ?Q = "card (spare s c) \<le> card (touched (unat pos) m) + 2"
  define J where "J = (\<lambda>(tot :: u32, p :: u32, t). unat tot \<le> m \<and> unat p = ?p + unat tot \<and> (\<exists>c'. wrote s d c ip src ?p (unat tot) t c'))"
  define f where "f = (\<lambda>(tot :: u32, p :: u32, t :: kernel). m - unat tot)"
  have "(\<exists>y. kwhile (\<lambda>(tot, _). tot < n) (writei_body ip src n) (0, pos, s) = Done y \<and> J y \<and> \<not> (case y of (tot, _) \<Rightarrow> tot < n))
    \<or> kwhile (\<lambda>(tot, _). tot < n) (writei_body ip src n) (0, pos, s) = Panic ''balloc: out of blocks'' \<and> ?Q"
  proof (rule kwhile_panic_rule [where f = f])
    show "J (0, pos, s)" using wrote_0 [OF I] by (auto simp: J_def)
    fix y
    assume y: "J y" "case y of (tot, _) \<Rightarrow> tot < n"
    obtain tot p t where e: "y = (tot, p, t)" using prod_cases3 by blast
    let ?q = "unat tot"
    obtain c1 where w: "wrote s d c ip src ?p ?q t c1" and up: "unat p = ?p + ?q" using y(1) by (auto simp: J_def e)
    have q: "?q < m" using y(2) m(1) by (simp add: e word_less_nat_alt)
    have It: "file_inv t d c1 ip" using w by (simp add: wrote_def)
    have r': "room (int (card (bitmaps s)) + int (card (touched ?p m)) + 1 + 6) s" using r by (simp add: algebra_simps)
    have rt: "room 6 t" by (rule wrote_room [OF I w less_imp_le [OF q] r'])
    have p': "?p + ?q < 71680" using q m(3) by linarith
    let ?k = "min (m - ?q) (512 - (?p + ?q) mod 512)"
    have k: "0 < ?k" "?q + ?k \<le> m" "?k \<le> 512 - (?p + ?q) mod 512" using q by auto
    from writei_round [OF It rt refl q m(1,2) up p'] show "(\<exists>z. writei_body ip src n y = Done z \<and> J z \<and> f z < f y) \<or> writei_body ip src n y = Panic ''balloc: out of blocks'' \<and> ?Q"
    proof (elim disjE exE conjE)
      fix v u c2
      assume u: "writei_body ip src n (tot, p, t) = Done (tot + v, p + v, u)" "unat v = ?k"
        and u2: "file_inv u d c2 ip" "keeps t c1 (inodes t ip) c2 (inodes u ip)"
        "\<forall>r<71680. fbyte c2 (inodes u ip) r = (if ?p + ?q \<le> r \<and> r < ?p + ?q + ?k then src ! (?q + (r - (?p + ?q))) else fbyte c1 (inodes t ip) r)"
        "file_addr c2 (inodes u ip) ((?p + ?q) div 512) \<noteq> 0"
        "spare t c1 \<subseteq> spare t c2 \<union> ({file_addr c2 (inodes u ip) ((?p + ?q) div 512)} \<union> ({addrs (inodes u ip) ! 12} - {0}))"
        "file_step 6 (bitmaps t \<union> {file_addr c2 (inodes u ip) ((?p + ?q) div 512)} \<union> ({addrs (inodes u ip) ! 12} - {0})) ip t u"
      have un: "m < 2 ^ 32" "?p + m < 2 ^ 32" using m(3) by simp_all
      have b: "?p + ?q + ?k \<le> 71680" using k(2) m(3) by linarith
      have "unat tot + unat v < 2 ^ 32" "unat p + unat v < 2 ^ 32" unfolding u(2) up using k(2) un by linarith+
      note ad = unat_add_u32 [OF this(1)] unat_add_u32 [OF this(2)]
      have add: "unat (tot + v) = ?q + ?k" "unat (p + v) = ?p + (?q + ?k)" using ad unfolding u(2) up add.assoc .
      have ww: "wrote s d c ip src ?p (?q + ?k) u c2" by (rule wrote_step [OF w k(1,3) b u2])
      have "J (tot + v, p + v, u)" unfolding J_def prod.case add by (intro conjI refl exI) (rule k(2), rule ww)
      moreover have g: "m - (a + b) < m - a" if "0 < b" "a < m" for a b :: nat using that by simp
      have "f (tot + v, p + v, u) < f y" unfolding f_def e prod.case add by (rule g [OF k(1) q])
      ultimately show ?thesis unfolding e using u(1) by (intro disjI1 exI conjI)
    next
      assume f: "writei_body ip src n (tot, p, t) = Panic ''balloc: out of blocks''" "card (spare t c1) \<le> 1"
      have "spare s c \<subseteq> spare s c1 \<union> owned c1 (inodes t ip) ?p ?q" "spare t = spare s"
        using w file_step_checks(10) unfolding wrote_def by blast+
      then have "card (spare s c) \<le> card (spare t c1 \<union> owned c1 (inodes t ip) ?p ?q)" by (intro card_mono) simp_all
      also have "\<dots> \<le> card (spare t c1) + card (owned c1 (inodes t ip) ?p ?q)" by (rule card_Un_le)
      also have "\<dots> \<le> 1 + (card (touched ?p ?q) + 1)" using f(2) card_owned by (intro add_mono)
      also have "card (touched ?p ?q) \<le> card (touched ?p m)" using q by (intro card_mono touched_finite touched_mono) simp
      finally have ?Q by simp
      then show ?thesis using f(1) unfolding e by simp
    qed
  qed
  then show ?thesis
  proof (elim disjE exE conjE)
    fix y
    assume y: "kwhile (\<lambda>(tot, _). tot < n) (writei_body ip src n) (0, pos, s) = Done y" "J y" "\<not> (case y of (tot, _) \<Rightarrow> tot < n)"
    obtain tot p t where e: "y = (tot, p, t)" using prod_cases3 by blast
    have "unat tot = m" using y(2,3) m(1) by (simp add: J_def e word_less_nat_alt)
    then show ?thesis using y(1,2) unfolding e J_def prod.case by blast
  qed blast
qed

text \<open>A block that is not one of the file, such as the one its inode is in.\<close>

lemma other_block_write:
  assumes ok: "file_ok s c x" and n: "block_ok s c n" "n \<notin> blocks c x"
  shows "file_ok s (c(n := xs)) x" and "slot_addr (c(n := xs)) x k = slot_addr c x k"
    and "r < 71680 \<Longrightarrow> fbyte (c(n := xs)) x r = fbyte c x r"
proof -
  have ne: "slot_addr c x k \<noteq> n" if "k < 141" for k using n(2) that unfolding blocks_def by blast
  have "addrs x ! 12 \<noteq> n" using ne [of 12] by (simp add: slot_addr_def)
  then have slot: "slot_addr (c(n := xs)) x k = slot_addr c x k" for k by (simp add: slot_addr_def)
  then show "slot_addr (c(n := xs)) x k = slot_addr c x k" .
  show "file_ok s (c(n := xs)) x" using ok unfolding file_ok_def slot write_block_ok(1) [OF n(1)] .
  assume "r < 71680"
  then have "file_slot (r div 512) < 141" using file_slot_less by simp
  then have "file_addr c x (r div 512) \<noteq> n" using ne by (simp add: file_addr_def)
  then show "fbyte (c(n := xs)) x r = fbyte c x r" by (simp add: fbyte_def file_addr_def slot Let_def)
qed

lemma size_free: "fbyte c (x\<lparr>isize := z\<rparr>) = fbyte c x" "file_ok s c (x\<lparr>isize := z\<rparr>) = file_ok s c x" "file_addr c (x\<lparr>isize := z\<rparr>) = file_addr c x"
proof -
  have "slot_addr c (x\<lparr>isize := z\<rparr>) = slot_addr c x" by (simp add: slot_addr_def fun_eq_iff)
  then show "fbyte c (x\<lparr>isize := z\<rparr>) = fbyte c x" "file_ok s c (x\<lparr>isize := z\<rparr>) = file_ok s c x" "file_addr c (x\<lparr>isize := z\<rparr>) = file_addr c x"
    by (simp_all add: fbyte_def file_addr_def file_ok_def fun_eq_iff)
qed

lemma grown_mapped:
  assumes al: "all_mapped c x" and w: "keeps s c x c' x'" "\<forall>k\<in>touched p m. file_addr c' x' k \<noteq> 0"
    and p: "p \<le> unat (isize x)" "p + m \<le> 71680" "unat z = max (unat (isize x)) (p + m)"
  shows "all_mapped c' (x'\<lparr>isize := z\<rparr>)"
  unfolding all_mapped_def size_free
proof (intro conjI allI impI)
  show "unat (isize (x'\<lparr>isize := z\<rparr>)) \<le> 71680" using al p by (simp add: all_mapped_def)
  fix k assume k: "512 * k < unat (isize (x'\<lparr>isize := z\<rparr>))"
  show "file_addr c' x' k \<noteq> 0"
  proof (cases "512 * k < unat (isize x)")
    case True
    then have "file_addr c x k \<noteq> 0" "k < 140" using al by (auto simp: all_mapped_def)
    then show ?thesis using keeps_addr(1) [OF w(1)] by simp
  next
    case False
    then have "512 * k < p + m" "p \<le> 512 * k" "0 < m" using k p by (auto simp: max_def split: if_splits)
    moreover have "p div 512 \<le> k" using div_le_mono [OF \<open>p \<le> 512 * k\<close>, of 512] by simp
    ultimately show ?thesis using w(2) by (simp add: touched_def)
  qed
qed

text \<open>
  \<open>writei\<close> inside of the file or at its end. The inode is in a block of its own; when the file grows, that block is written.
\<close>

definition inode_block :: "kernel \<Rightarrow> nat \<Rightarrow> u32" where
  "inode_block s ip = IBLOCK (inum (inodes s ip)) (sb s)"

definition file_written :: "kernel \<Rightarrow> contents \<Rightarrow> nat \<Rightarrow> u8 list \<Rightarrow> nat \<Rightarrow> nat \<Rightarrow> kernel \<Rightarrow> contents \<Rightarrow> bool" where
  "file_written s c ip src p m t c' \<longleftrightarrow>
     inodes t ip = (inodes s ip)\<lparr>addrs := addrs (inodes t ip), isize := isize (inodes t ip)\<rparr>
     \<and> unat (isize (inodes t ip)) = max (unat (isize (inodes s ip))) (p + m)
     \<and> (\<forall>r<71680. fbyte c' (inodes t ip) r = (if p \<le> r \<and> r < p + m then src ! (r - p) else fbyte c (inodes s ip) r))
     \<and> all_mapped c' (inodes t ip)
     \<and> (\<forall>a. block_ok s c a \<and> a \<notin> blocks c (inodes s ip) \<and> a \<noteq> inode_block s ip \<longrightarrow> c' a = c a \<and> block_ok t c' a)
     \<and> (unat (isize (inodes s ip)) < p + m \<longrightarrow> get_dinode (c' (inode_block s ip)) (slot_of (inum (inodes s ip))) = dinode_of (inodes t ip))
     \<and> (\<forall>k<8. k \<noteq> slot_of (inum (inodes s ip)) \<longrightarrow> get_dinode (c' (inode_block s ip)) k = get_dinode (c (inode_block s ip)) k)
     \<and> (\<forall>jp. jp \<noteq> ip \<longrightarrow> inodes t jp = inodes s jp) \<and> (\<forall>l. locked (locks t l) = locked (locks s l))"

text \<open>After the loop: the size is raised and the inode written when the file has grown.\<close>

lemma set_size_rep:
  assumes I: "file_inv s d c ip" and al: "all_mapped c (inodes s ip)" and dok: "dinode_ok (dinode_of (inodes s ip))"
    and ib: "block_ok s c (inode_block s ip)" "inode_block s ip \<notin> blocks c (inodes s ip)"
    and w: "wrote s d c ip src p m t c'" and r: "room 1 t"
    and p: "p \<le> unat (isize (inodes s ip))" "p + m \<le> 71680" "unat pos = p + m" "m = 0 \<longleftrightarrow> (n :: u32) = 0"
  shows "\<exists>u c''. (if n > 0 \<and> pos > isize (inodes t ip) then iupdate ip (upd_inode ip (\<lambda>x. x\<lparr>isize := pos\<rparr>) t) else Done t) = Done u
    \<and> file_inv u d c'' ip \<and> file_written s c ip src p m u c''"
proof -
  let ?x = "inodes s ip" and ?y = "inodes t ip"
  let ?B = "inode_block s ip"
  obtain j where j: "file_step j (logged s c' ?y p m) ip s t" using w unfolding wrote_def by blast
  note cj = file_step_checks [OF j]
  have T: "file_inv t d c' ip" and kp: "keeps s c ?x c' ?y" and fb: "\<forall>r<71680. fbyte c' ?y r = (if p \<le> r \<and> r < p + m then src ! (r - p) else fbyte c ?x r)"
    and nz: "\<forall>k\<in>touched p m. file_addr c' ?y k \<noteq> 0" using w unfolding wrote_def by blast+
  have y: "?y = ?x\<lparr>addrs := addrs ?y\<rparr>" using kp unfolding keeps_def by blast
  then have yx: "isize ?y = isize ?x" "inum ?y = inum ?x" "idev ?y = idev ?x" by (metis inode.select_convs inode.surjective inode.update_convs)+
  have oth: "jp \<noteq> ip \<Longrightarrow> inodes t jp = inodes s jp" for jp using cj(9) .
  have lk: "locked (locks t l) = locked (locks s l)" for l using j by (simp add: file_step_def tx_step_def)
  have old: "c' a = c a \<and> a \<notin> blocks c' ?y" "block_ok t c' a" if "block_ok s c a" "a \<notin> blocks c ?x" for a
    using kp that cj(1) unfolding keeps_def by blast+
  show ?thesis
  proof (cases "n > 0 \<and> pos > isize ?y")
    case False
    have "p + m \<le> unat (isize ?x)"
      using False p yx(1) by (auto simp: word_less_nat_alt not_less word_le_nat_alt unat_eq_zero)
    then have "max (unat (isize ?x)) (p + m) = unat (isize ?x)" "\<not> unat (isize ?x) < p + m" by simp_all
    moreover have same: "?y\<lparr>isize := isize ?y\<rparr> = ?y" by (cases ?y) simp
    have "unat (isize ?y) = max (unat (isize ?x)) (p + m)" using yx(1) calculation(1) by simp
    then have "all_mapped c' ?y" using grown_mapped [OF al kp nz p(1,2)] same by metis
    ultimately have "unat (isize ?y) = max (unat (isize ?x)) (p + m)" "all_mapped c' ?y" "\<not> unat (isize ?x) < p + m" using yx(1) by simp_all
    moreover have "?y = ?x\<lparr>addrs := addrs ?y, isize := isize ?y\<rparr>" using y yx(1) by (cases ?x; cases ?y) simp
    moreover have "\<forall>a. block_ok s c a \<and> a \<notin> blocks c ?x \<and> a \<noteq> ?B \<longrightarrow> c' a = c a \<and> block_ok t c' a" using old by blast
    moreover have "c' ?B = c ?B" using old ib by blast
    ultimately have "file_written s c ip src p m t c'"
      unfolding file_written_def using fb oth lk by simp
    then show ?thesis using False T by (simp only: if_False) blast
  next
    case True
    let ?s = "upd_inode ip (\<lambda>x. x\<lparr>isize := pos\<rparr>) t"
    let ?z = "?y\<lparr>isize := pos\<rparr>"
    have big: "unat (isize ?x) < p + m" using True yx(1) p(3) by (simp add: word_less_nat_alt)
    have S: "tx_rep ?s d c' Map.empty" using T by (simp add: file_inv_def)
    have B: "IBLOCK (inum (inodes ?s ip)) (sb ?s) = ?B" using yx(2) cj(6) by (simp add: inode_block_def)
    have len: "length (addrs ?y) = 13" "idev ?y = 1" using T by (simp_all add: file_inv_def file_ok_def)
    have "itype ?y = itype ?x" "major ?y = major ?x" "minor ?y = minor ?x" "nlink ?y = nlink ?x" by (subst y, simp)+
    then have "dinode_ok (dinode_of ?z)" using dok len(1) by (simp add: dinode_ok_def dinode_of_def NDIRECT_def)
    then have zok: "dinode_ok (dinode_of (inodes ?s ip))" by simp
    have bt: "block_ok t c' ?B" and bnt: "?B \<notin> blocks c' ?y" using old [OF ib] by blast+
    have lb: "loggable ?s (IBLOCK (inum (inodes ?s ip)) (sb ?s))" using bt unfolding B by (simp add: block_ok_def)
    have dv: "idev (inodes ?s ip) = 1" "room 1 ?s" using len(2) r by simp_all
    let ?d = "put_dinode (c' ?B) (slot_of (inum ?y)) (dinode_of ?z)"
    obtain u where u: "iupdate ip ?s = Done u" "tx_step 1 {?B} ?s u" "tx_rep u d (c'(?B := ?d)) Map.empty"
      using iupdate_rep [OF S dv(1) zok lb dv(2)] unfolding B by auto
    let ?c = "c'(?B := ?d)"
    have iu: "inodes u = (inodes t)(ip := ?z)" using u(2) by (simp add: tx_step_def)
    note cu = tx_step_checks [OF u(2), unfolded upd_inode_checks]
    have ok: "file_ok t c' ?y" and bm: "bitmap_ok t c'" using T by (simp_all add: file_inv_def)
    note ow = other_block_write [OF ok bt bnt, where xs = ?d] and wb = write_block_ok [OF bt, of ?d]
    have inv: "file_inv u d ?c ip" using u(3) ow(1) bm wb(2) cu(2,4) iu by (simp add: file_inv_def size_free)
    have sz: "unat pos = max (unat (isize ?x)) (p + m)" using big p(3) by simp
    have sl: "file_addr ?c ?y k = file_addr c' ?y k" for k by (simp add: file_addr_def ow(2))
    have am: "all_mapped ?c ?z"
      using grown_mapped [OF al kp nz p(1,2) sz] by (simp add: all_mapped_def size_free sl)
    have len: "length (c' ?B) = 512" using tx_length S by blast
    then have gd: "get_dinode (?c ?B) (slot_of (inum ?x)) = dinode_of ?z"
      using get_put_dinode(1) [OF _ slot_less] zok yx(2) by simp
    have nb: "get_dinode (?c ?B) k = get_dinode (c ?B) k" if "k < 8" "k \<noteq> slot_of (inum ?x)" for k
      using get_put_dinode(3) [OF len slot_less _ that(1)] zok that(2) yx(2) old [OF ib] by simp
    have "?z = ?x\<lparr>addrs := addrs ?z, isize := isize ?z\<rparr>" by (subst y) simp
    moreover have "\<forall>a. block_ok s c a \<and> a \<notin> blocks c ?x \<and> a \<noteq> ?B \<longrightarrow> ?c a = c a \<and> block_ok u ?c a"
      using old wb(1) cu(1) by simp
    moreover have "\<forall>r<71680. fbyte ?c ?z r = (if p \<le> r \<and> r < p + m then src ! (r - p) else fbyte c ?x r)"
      using fb ow(3) by (simp add: size_free)
    moreover have "locked (locks u l) = locked (locks s l)" for l using u(2) lk by (simp add: tx_step_def)
    ultimately have "file_written s c ip src p m u ?c"
      unfolding file_written_def iu using sz am gd nb oth by simp
    then show ?thesis using True u(1) inv by (simp only: if_True simp_thms) blast
  qed
qed

lemma writei_rep:
  assumes I: "file_inv s d c ip" and al: "all_mapped c (inodes s ip)" and dok: "dinode_ok (dinode_of (inodes s ip))"
    and ib: "block_ok s c (inode_block s ip)" "inode_block s ip \<notin> blocks c (inodes s ip)" and ty: "itype (inodes s ip) \<noteq> T_DEV"
    and p: "pos \<le> isize (inodes s ip)" "unat pos + unat n \<le> 71680" "unat n \<le> length src"
    and r: "room (int (card (bitmaps s)) + int (card (touched (unat pos) (unat n))) + 7) s"
  shows "(\<exists>t c'. writei ip src pos n s = Done (int (unat n), t) \<and> file_inv t d c' ip \<and> file_written s c ip src (unat pos) (unat n) t c')
    \<or> writei ip src pos n s = Panic ''balloc: out of blocks'' \<and> card (spare s c) \<le> card (touched (unat pos) (unat n)) + 2"
proof -
  let ?b = "kwhile (\<lambda>(tot, _). tot < n) (writei_body ip src n) (0, pos, s)"
  have "unat pos + unat n < 2 ^ 32" using p(2) by simp
  note add = unat_add_u32 [OF this]
  have c1: "\<not> (pos > isize (inodes s ip) \<or> pos + n < pos)" using p(1) add by (simp add: word_less_nat_alt word_le_nat_alt)
  have "unat (of_nat (MAXFILE * BSIZE) :: u32) = 71680" by (simp add: MAXFILE_def NDIRECT_def NINDIRECT_def BSIZE_def)
  then have c2: "\<not> pos + n > of_nat (MAXFILE * BSIZE)" using add p(2) by (simp add: word_less_nat_alt)
  have "unat n < 2 ^ 31" using p(2) by simp
  then have "int (unat n) < int (2 ^ 31)" by (simp only: of_nat_less_iff)
  then have "uint n < 2 ^ 31" by simp
  then have sn: "sint n = int (unat n)" using sint_id by simp
  have e: "writei ip src pos n s = kbind ?b (\<lambda>(tot, pos, s).
      kbind (if n > 0 \<and> pos > isize (inodes s ip) then iupdate ip (upd_inode ip (\<lambda>x. x\<lparr>isize := pos\<rparr>) s) else Done s) (\<lambda>s. Done (sint n, s)))"
    unfolding writei_def if_not_P [OF ty] if_not_P [OF c1] if_not_P [OF c2] ..
  from writei_loop [OF I refl p(3,2) r] show ?thesis
  proof (elim disjE exE conjE)
    fix tot pos' t c'
    assume k: "?b = Done (tot, pos', t)" "unat pos' = unat pos + unat n" and w: "wrote s d c ip src (unat pos) (unat n) t c'"
    have r': "room (int (card (bitmaps s)) + int (card (touched (unat pos) (unat n))) + 1 + 6) s" using r by (simp add: algebra_simps)
    have rt: "room 1 t" using room_less [OF wrote_room [OF I w order_refl r']] by simp
    have p': "unat pos \<le> unat (isize (inodes s ip))" using p(1) by (simp add: word_le_nat_alt)
    have n0: "unat n = 0 \<longleftrightarrow> n = 0" by (rule unat_eq_zero)
    obtain u c'' where u: "(if n > 0 \<and> pos' > isize (inodes t ip) then iupdate ip (upd_inode ip (\<lambda>x. x\<lparr>isize := pos'\<rparr>) t) else Done t) = Done u"
      "file_inv u d c'' ip" "file_written s c ip src (unat pos) (unat n) u c''"
      using set_size_rep [OF I al dok ib w rt p' p(2) k(2) n0] by blast
    have "writei ip src pos n s = Done (int (unat n), u)" unfolding e k(1) kbind.simps prod.case u(1) sn ..
    then show ?thesis using u(2,3) by blast
  next
    assume "?b = Panic ''balloc: out of blocks''" "card (spare s c) \<le> card (touched (unat pos) (unat n)) + 2"
    then show ?thesis unfolding e by simp
  qed
qed

end
