(* ===== verification/Icache_Correct.thy ===== *)
theory Icache_Correct
  imports Inode_Correct "HOL-Library.Multiset"
begin

text \<open>The inode cache counts references: it represents the multiset of the references that are held.\<close>

definition key :: "inode \<Rightarrow> u32 \<times> u32" where "key x = (idev x, inum x)"

abbreviation live :: "kernel \<Rightarrow> nat \<Rightarrow> bool" where "live s ip \<equiv> ip < NINODE \<and> 0 < iref (inodes s ip)"

definition ref_rep :: "kernel \<Rightarrow> (u32 \<times> u32) multiset \<Rightarrow> bool" where
  "ref_rep s M \<longleftrightarrow> cli_ok s \<and> locked (locks s Licache) = 0 \<and> (\<forall>ip<NINODE. 0 \<le> iref (inodes s ip))
     \<and> (\<forall>ip jp. live s ip \<longrightarrow> live s jp \<longrightarrow> key (inodes s ip) = key (inodes s jp) \<longrightarrow> ip = jp)
     \<and> (\<forall>ip. live s ip \<longrightarrow> iref (inodes s ip) = int (count M (key (inodes s ip))))
     \<and> (\<forall>k. k \<in># M \<longrightarrow> (\<exists>ip. live s ip \<and> key (inodes s ip) = k))"

lemma ref_repD:
  assumes "ref_rep s M"
  shows "cli_ok s" and "locked (locks s Licache) = 0" and "ip < NINODE \<Longrightarrow> 0 \<le> iref (inodes s ip)"
    and "live s ip \<Longrightarrow> live s jp \<Longrightarrow> key (inodes s ip) = key (inodes s jp) \<Longrightarrow> ip = jp"
    and "live s ip \<Longrightarrow> iref (inodes s ip) = int (count M (key (inodes s ip)))"
    and "k \<in># M \<Longrightarrow> \<exists>ip. live s ip \<and> key (inodes s ip) = k"
  using assms unfolding ref_rep_def by blast+

text \<open>A held reference determines its slot.\<close>

lemma find_inode_some: "find_inode dev i s = Some ip \<Longrightarrow> live s ip \<and> key (inodes s ip) = (dev, i)"
  by (auto simp: find_inode_def find_Some_iff key_def)

lemma find_inode_iff:
  assumes "ref_rep s M"
  shows "(dev, i) \<in># M \<longleftrightarrow> (\<exists>ip. find_inode dev i s = Some ip)"
proof
  assume "(dev, i) \<in># M"
  then obtain ip where ip: "live s ip" "key (inodes s ip) = (dev, i)" using ref_repD(6) [OF assms] by blast
  then have "find_inode dev i s \<noteq> None" by (auto simp: find_inode_def find_None_iff key_def)
  then show "\<exists>ip. find_inode dev i s = Some ip" by blast
next
  assume "\<exists>ip. find_inode dev i s = Some ip"
  then obtain ip where "live s ip" "key (inodes s ip) = (dev, i)" using find_inode_some by blast
  then have "0 < int (count M (dev, i))" using ref_repD(5) [OF assms, of ip] by simp
  then show "(dev, i) \<in># M" by simp
qed

text \<open>One slot changes; \<open>j\<close> is the change of its count.\<close>

lemma ref_rep_upd:
  assumes R: "ref_rep s M" and ip: "ip < NINODE" and k: "key x = k" "0 \<le> iref x" "iref x = int (count M' k)"
    and own: "\<And>jp. live s jp \<Longrightarrow> jp \<noteq> ip \<Longrightarrow> key (inodes s jp) \<noteq> k"
    and was: "live s ip \<Longrightarrow> key (inodes s ip) = k"
    and other: "\<And>k'. k' \<noteq> k \<Longrightarrow> count M' k' = count M k'"
    and t: "inodes t = (inodes s)(ip := x)" "cli_ok t" "locked (locks t Licache) = 0"
  shows "ref_rep t M'"
  unfolding ref_rep_def
proof (intro conjI allI impI)
  show "cli_ok t" "locked (locks t Licache) = 0" by (rule t)+
  fix jp
  show "jp < NINODE \<Longrightarrow> 0 \<le> iref (inodes t jp)" using k(2) ref_repD(3) [OF R] t(1) by simp
  show "iref (inodes t jp) = int (count M' (key (inodes t jp)))" if "live t jp"
  proof (cases "jp = ip")
    case False
    then have l: "live s jp" using that t(1) by simp
    then have "key (inodes s jp) \<noteq> k" using own False by blast
    then show ?thesis using ref_repD(5) [OF R l] other False t(1) by simp
  qed (use k t(1) in simp)
  fix jq
  show "jp = jq" if "live t jp" "live t jq" "key (inodes t jp) = key (inodes t jq)"
  proof (rule ccontr)
    assume ne: "jp \<noteq> jq"
    consider "jp = ip" "jq \<noteq> ip" | "jq = ip" "jp \<noteq> ip" | "jp \<noteq> ip" "jq \<noteq> ip" using ne by blast
    then show False
    proof cases
      case 1
      then show ?thesis using that t(1) own [of jq] k(1) by simp
    next
      case 2
      then show ?thesis using that t(1) own [of jp] k(1) by simp
    next
      case 3
      then show ?thesis using that t(1) ref_repD(4) [OF R, of jp jq] ne by simp
    qed
  qed
next
  fix k' assume m: "k' \<in># M'"
  show "\<exists>jp. live t jp \<and> key (inodes t jp) = k'"
  proof (cases "k' = k")
    case True
    then have "0 < iref x" using m k(3) by simp
    then show ?thesis using ip k(1) True t(1) by (intro exI [of _ ip]) simp
  next
    case False
    then have "k' \<in># M" using m other by (metis count_greater_zero_iff)
    then obtain jp where jp: "live s jp" "key (inodes s jp) = k'" using ref_repD(6) [OF R] by blast
    then have "jp \<noteq> ip" using was False by blast
    then show ?thesis using jp t(1) by (intro exI [of _ jp]) simp
  qed
qed

text \<open>
  The inodes of \<open>U\<close> may be without a link. One call on the cache changes the count of one entry in use, or takes an entry that is not
  in use and marks it as not loaded; an entry of an inode of \<open>U\<close> stays in use. No disk block, buffer or log entry changes.
\<close>

definition unlinked_in :: "(u32 \<times> u32) set \<Rightarrow> kernel \<Rightarrow> bool" where
  "unlinked_in U s \<longleftrightarrow> (\<forall>ip. live s ip \<and> I_VALID (inodes s ip) \<and> nlink (inodes s ip) = 0 \<longrightarrow> key (inodes s ip) \<in> U)"

definition icache_step :: "(u32 \<times> u32) set \<Rightarrow> kernel \<Rightarrow> kernel \<Rightarrow> bool" where
  "icache_step U s t \<longleftrightarrow> (\<exists>ip f. t = upd_inode ip f (crit Licache s)
     \<and> (if live s ip then \<exists>j. f (inodes s ip) = (inodes s ip)\<lparr>iref := j\<rparr> \<and> (key (inodes s ip) \<in> U \<longrightarrow> 0 < j)
        else \<not> I_VALID (f (inodes s ip))))"

definition icache_kept :: "(u32 \<times> u32) set \<Rightarrow> kernel \<Rightarrow> kernel \<Rightarrow> bool" where
  "icache_kept U s t \<longleftrightarrow> disk t = disk s \<and> bufs t = bufs s \<and> klog t = klog s
     \<and> (\<forall>ip. live s ip \<and> key (inodes s ip) \<in> U \<longrightarrow> live t ip \<and> inodes t ip = (inodes s ip)\<lparr>iref := iref (inodes t ip)\<rparr>)"

lemma icache_step_kept:
  assumes "icache_step U s t"
  shows "icache_kept U s t" and "unlinked_in U s \<Longrightarrow> unlinked_in U t"
proof -
  obtain ip f where t: "t = upd_inode ip f (crit Licache s)" and f: "if live s ip then \<exists>j. f (inodes s ip) = (inodes s ip)\<lparr>iref := j\<rparr> \<and> (key (inodes s ip) \<in> U \<longrightarrow> 0 < j)
      else \<not> I_VALID (f (inodes s ip))" using assms unfolding icache_step_def by blast
  have i: "inodes t jp = (if jp = ip then f (inodes s ip) else inodes s jp)" for jp by (simp add: t)
  show "icache_kept U s t" using f unfolding icache_kept_def i by (auto simp: t upd_inode_def split: if_splits)
  show "unlinked_in U t" if "unlinked_in U s" using f that unfolding unlinked_in_def i by (auto simp: key_def split: if_splits)
qed

lemma icache_kept_refl: "icache_kept U s s"
  by (simp add: icache_kept_def)

lemma icache_kept_trans:
  assumes "icache_kept U s t" and "icache_kept U t u"
  shows "icache_kept U s u"
proof -
  have "live u ip \<and> inodes u ip = (inodes s ip)\<lparr>iref := iref (inodes u ip)\<rparr>" if "live s ip \<and> key (inodes s ip) \<in> U" for ip
  proof -
    have t: "live t ip" "inodes t ip = (inodes s ip)\<lparr>iref := iref (inodes t ip)\<rparr>" using assms(1) that unfolding icache_kept_def by blast+
    have "key (inodes t ip) = key (inodes s ip)" by (subst t(2)) (simp add: key_def)
    then have "live u ip" "inodes u ip = (inodes t ip)\<lparr>iref := iref (inodes u ip)\<rparr>" using assms(2) t(1) that unfolding icache_kept_def by simp_all
    then show ?thesis using t(2) by (metis inode.select_convs(3) inode.surjective inode.update_convs(3))
  qed
  then show ?thesis using assms unfolding icache_kept_def by simp
qed

lemma icache_release:
  "cli_ok s \<Longrightarrow> release Licache (upd_inode ip f (enter Licache (callers s) (crit Licache s))) = Done (upd_inode ip f (crit Licache s))"
  using release_enter [of Licache "callers s" "upd_inode ip f (crit Licache s)"] by (simp add: crit_ok_crit)

lemma find_inode_enter [simp]: "find_inode dev i (enter l P (crit l s)) = find_inode dev i s" "empty_inode (enter l P (crit l s)) = empty_inode s"
  by (simp_all add: find_inode_def empty_inode_def)

lemma iget_rep:
  assumes R: "ref_rep s M"
  shows "(\<exists>ip t. iget dev i s = Done (ip, t) \<and> ref_rep t (add_mset (dev, i) M) \<and> find_inode dev i t = Some ip \<and> icache_step U s t)
    \<or> (dev, i) \<notin># M \<and> (\<forall>ip<NINODE. 0 < iref (inodes s ip)) \<and> iget dev i s = Panic ''iget: no inodes''"
proof -
  note cli = ref_repD(1) [OF R] and lock = ref_repD(2) [OF R]
  have found: "find_inode dev i t = Some ip" if T: "ref_rep t M'" and l: "live t ip" "key (inodes t ip) = (dev, i)" for t M' ip
  proof -
    have "0 < int (count M' (dev, i))" using ref_repD(5) [OF T l(1)] l by simp
    then obtain jp where "find_inode dev i t = Some jp" using find_inode_iff [OF T, of dev i] by auto
    then show ?thesis using find_inode_some [of dev i t jp] ref_repD(4) [OF T l(1), of jp] l(2) by simp
  qed
  show ?thesis
  proof (cases "find_inode dev i s")
    case (Some ip)
    let ?f = "\<lambda>x. x\<lparr>iref := iref x + 1\<rparr>"
    let ?t = "upd_inode ip ?f (crit Licache s)"
    note ip = find_inode_some [OF Some]
    have "iget dev i s = Done (ip, ?t)" using Some lock icache_release [OF cli, of ip ?f] by (simp add: iget_def acquire_enter)
    moreover have "ref_rep ?t (add_mset (dev, i) M)"
    proof (rule ref_rep_upd [OF R, of ip "(inodes s ip)\<lparr>iref := iref (inodes s ip) + 1\<rparr>" "(dev, i)"])
      show "iref ((inodes s ip)\<lparr>iref := iref (inodes s ip) + 1\<rparr>) = int (count (add_mset (dev, i) M) (dev, i))"
        using ref_repD(5) [OF R, of ip] ip by simp
    qed (use ip cli ref_repD [OF R] in \<open>auto simp: key_def crit_locked\<close>)
    moreover then have "find_inode dev i ?t = Some ip" using ip by (intro found) (auto simp: key_def)
    moreover have "icache_step U s ?t" unfolding icache_step_def using ip by (intro exI [of _ ip] exI [of _ ?f]) auto
    ultimately show ?thesis by blast
  next
    case None
    then have nm: "(dev, i) \<notin># M" using find_inode_iff [OF R] by simp
    show ?thesis
    proof (cases "empty_inode s")
      case (Some ip)
      then have ip: "ip < NINODE" "iref (inodes s ip) = 0" by (auto simp: empty_inode_def find_Some_iff)
      let ?f = "\<lambda>x. x\<lparr>idev := dev, inum := i, iref := 1, I_BUSY := False, I_VALID := False\<rparr>"
      let ?t = "upd_inode ip ?f (crit Licache s)"
      have "iget dev i s = Done (ip, ?t)" using Some None lock icache_release [OF cli, of ip ?f] by (simp add: iget_def acquire_enter)
      moreover have "ref_rep ?t (add_mset (dev, i) M)"
      proof (rule ref_rep_upd [OF R, of ip "?f (inodes s ip)" "(dev, i)"])
        show "key (inodes s jp) \<noteq> (dev, i)" if "live s jp" "jp \<noteq> ip" for jp
        proof
          assume "key (inodes s jp) = (dev, i)"
          then have "0 < int (count M (dev, i))" using ref_repD(5) [OF R that(1)] that(1) by simp
          then show False using nm by simp
        qed
        show "iref (?f (inodes s ip)) = int (count (add_mset (dev, i) M) (dev, i))" using nm by (simp add: not_in_iff)
      qed (use ip cli lock in \<open>auto simp: key_def crit_locked\<close>)
      moreover then have "find_inode dev i ?t = Some ip" using ip by (intro found) (auto simp: key_def)
      moreover have "icache_step U s ?t" unfolding icache_step_def using ip by (intro exI [of _ ip] exI [of _ ?f]) auto
      ultimately show ?thesis by blast
    next
      case none: None
      then have "\<forall>ip<NINODE. iref (inodes s ip) \<noteq> 0" by (auto simp: empty_inode_def find_None_iff)
      then have "\<forall>ip<NINODE. 0 < iref (inodes s ip)" using ref_repD(3) [OF R] by (metis order_le_less)
      moreover have "iget dev i s = Panic ''iget: no inodes''" using None none lock by (simp add: iget_def acquire_enter)
      ultimately show ?thesis using nm by blast
    qed
  qed
qed

lemma idup_rep:
  assumes R: "ref_rep s M" and h: "find_inode dev i s = Some ip"
  shows "\<exists>t. idup ip s = Done (ip, t) \<and> ref_rep t (add_mset (dev, i) M) \<and> icache_step U s t"
proof -
  let ?f = "\<lambda>x. x\<lparr>iref := iref x + 1\<rparr>"
  let ?t = "upd_inode ip ?f (crit Licache s)"
  note ip = find_inode_some [OF h] and cli = ref_repD(1) [OF R] and lock = ref_repD(2) [OF R]
  have "idup ip s = Done (ip, ?t)" using lock icache_release [OF cli, of ip ?f] by (simp add: idup_def acquire_enter)
  moreover have "ref_rep ?t (add_mset (dev, i) M)"
  proof (rule ref_rep_upd [OF R, of ip "?f (inodes s ip)" "(dev, i)"])
    show "iref (?f (inodes s ip)) = int (count (add_mset (dev, i) M) (dev, i))" using ref_repD(5) [OF R, of ip] ip by simp
  qed (use ip cli ref_repD [OF R] in \<open>auto simp: key_def crit_locked\<close>)
  moreover have "icache_step U s ?t" unfolding icache_step_def using ip by (intro exI [of _ ip] exI [of _ ?f]) auto
  ultimately show ?thesis by blast
qed

text \<open>
  Giving a reference back: the inode is not written as long as it has a link or another reference. The test of the count in
  \<open>iput\<close> is what protects an inode of \<open>U\<close> that is still open.
\<close>

lemma iput_rep:
  assumes R: "ref_rep s M" and un: "unlinked_in U s" and h: "find_inode dev i s = Some ip" and two: "(dev, i) \<in> U \<Longrightarrow> 2 \<le> count M (dev, i)"
  shows "\<exists>t. iput ip s = Done t \<and> ref_rep t (M - {#(dev, i)#}) \<and> icache_step U s t"
proof -
  let ?f = "\<lambda>x. x\<lparr>iref := iref x - 1\<rparr>"
  let ?t = "upd_inode ip ?f (crit Licache s)"
  note ip = find_inode_some [OF h] and cli = ref_repD(1) [OF R] and lock = ref_repD(2) [OF R]
  have cnt: "iref (inodes s ip) = int (count M (dev, i))" using ref_repD(5) [OF R, of ip] ip by simp
  have "\<not> (iref (inodes s ip) = 1 \<and> I_VALID (inodes s ip) \<and> nlink (inodes s ip) = 0)"
  proof
    assume *: "iref (inodes s ip) = 1 \<and> I_VALID (inodes s ip) \<and> nlink (inodes s ip) = 0"
    then have "(dev, i) \<in> U" using un ip unfolding unlinked_in_def by metis
    then show False using two cnt * by simp
  qed
  then consider "iref (inodes s ip) \<noteq> 1" | "\<not> I_VALID (inodes s ip)" | "nlink (inodes s ip) \<noteq> 0" by blast
  then have "iput ip s = Done ?t"
    by cases (use lock icache_release [OF cli, of ip ?f] in \<open>simp_all add: iput_def acquire_enter Let_def\<close>)
  moreover have "ref_rep ?t (M - {#(dev, i)#})"
  proof (rule ref_rep_upd [OF R, of ip "?f (inodes s ip)" "(dev, i)"])
    show "iref (?f (inodes s ip)) = int (count (M - {#(dev, i)#}) (dev, i))" using cnt ip by simp
  qed (use ip cli ref_repD [OF R] in \<open>auto simp: key_def crit_locked\<close>)
  moreover have "icache_step U s ?t" unfolding icache_step_def using ip two cnt
    by (intro exI [of _ ip] exI [of _ ?f]) (auto intro!: exI [of _ "iref (inodes s ip) - 1"])
  ultimately show ?thesis by blast
qed

end
