(* ===== verification/Fs_Props.thy ===== *)
theory Fs_Props
  imports Icache_Correct Fs Sample
begin

text \<open>
  Correctness statements of the storage stack: the buffer cache, the log with its transactions, and what a crash
  leaves behind.
\<close>

section \<open>The buffer cache\<close>

text \<open>
  The calls a client makes on the buffer cache, run on the kernel with the buffers it holds, and what they mean: \<open>d\<close> is
  the disk, \<open>c\<close> the current contents of every block, \<open>K\<close> the held blocks.
\<close>

datatype bop = Bread u32 | Bset u32 "u8 list" | Bwrite u32 | Brelse u32

fun bop_run :: "bop \<Rightarrow> kernel \<times> (u32 \<rightharpoonup> nat) \<Rightarrow> (kernel \<times> (u32 \<rightharpoonup> nat)) kresult" where
  "bop_run (Bread n) (s, H) = kbind (bread 1 n s) (\<lambda>(b, s). Done (s, H(n \<mapsto> b)))"
| "bop_run (Bset n xs) (s, H) = Done (upd_buf (the (H n)) (\<lambda>x. x\<lparr>bdata := xs\<rparr>) s, H)"
| "bop_run (Bwrite n) (s, H) = kbind (bwrite (the (H n)) s) (\<lambda>s. Done (s, H))"
| "bop_run (Brelse n) (s, H) = kbind (brelse (the (H n)) s) (\<lambda>s. Done (s, H(n := None)))"

fun bop_spec :: "bop \<Rightarrow> contents \<times> contents \<times> u32 set \<Rightarrow> contents \<times> contents \<times> u32 set" where
  "bop_spec (Bread n) (d, c, K) = (d, c, insert n K)"
| "bop_spec (Bset n xs) (d, c, K) = (d, c(n := xs), K)"
| "bop_spec (Bwrite n) (d, c, K) = (d(n := c n), c, K)"
| "bop_spec (Brelse n) (d, c, K) = (d, c, K - {n})"

text \<open>A client reads blocks of the disk it does not hold yet, at most \<open>NBUF\<close> at a time, and writes its changes before it releases.\<close>

fun bop_ok :: "u32 \<Rightarrow> bop \<Rightarrow> contents \<times> contents \<times> u32 set \<Rightarrow> bool" where
  "bop_ok m (Bread n) (d, c, K) \<longleftrightarrow> n \<notin> K \<and> n < m \<and> card K < NBUF"
| "bop_ok m (Bset n xs) (d, c, K) \<longleftrightarrow> n \<in> K \<and> length xs = 512"
| "bop_ok m (Bwrite n) (d, c, K) \<longleftrightarrow> n \<in> K \<and> n < m"
| "bop_ok m (Brelse n) (d, c, K) \<longleftrightarrow> n \<in> K \<and> c n = d n"

primrec bops_ok :: "u32 \<Rightarrow> bop list \<Rightarrow> contents \<times> contents \<times> u32 set \<Rightarrow> bool" where
  "bops_ok m [] x = True"
| "bops_ok m (p # ps) x = (bop_ok m p x \<and> bops_ok m ps (bop_spec p x))"

lemma bop_step:
  assumes R: "cache_rep s d c H {}" and ok: "bop_ok (disksize s) p (d, c, dom H)" and e: "bop_spec p (d, c, dom H) = (d', c', K')"
  shows "\<exists>s' H'. bop_run p (s, H) = Done (s', H') \<and> cache_rep s' d' c' H' {} \<and> dom H' = K' \<and> frame s s'"
proof (cases p)
  case (Bread n)
  then obtain b t where "bread 1 n s = Done (b, t)" "cache_rep t d c (H(n \<mapsto> b)) {}" "frame s t"
    using bread_rep [OF R, of n] ok by auto
  then show ?thesis using Bread e by auto
next
  case (Bset n xs)
  then obtain b where b: "H n = Some b" using ok by auto
  have "cache_rep (upd_buf b (\<lambda>x. x\<lparr>bdata := xs\<rparr>) s) d (c(n := xs)) H {}" using set_rep [OF R b] ok Bset by simp
  then show ?thesis using Bset e b by auto
next
  case (Bwrite n)
  then obtain b where b: "H n = Some b" using ok by auto
  obtain t where "bwrite b s = Done t" "cache_rep t (d(n := c n)) c H {}" "frame s t"
    using bwrite_rep [OF R b] ok Bwrite by auto
  then show ?thesis using Bwrite e b by auto
next
  case (Brelse n)
  then obtain b where b: "H n = Some b" using ok by auto
  obtain t where "brelse b s = Done t" "cache_rep t d c (H(n := None)) {}" "frame s t"
    using brelse_rep [OF R b] ok Brelse by auto
  then show ?thesis using Brelse e b by auto
qed

text \<open>
  C30. The buffer cache refines a plain array of blocks: for every sequence of bread, buffer updates, bwrite and brelse that
  a client may make, no call panics, sleeps or goes out of bounds, the disk and the contents are those of the array, and each
  buffer the client holds contains the current contents of its block, whatever the ring had to evict on the way.
\<close>

theorem buffer_cache_refines:
  assumes "cache_rep s d c H {}" and "bops_ok (disksize s) ps (d, c, dom H)"
  shows "\<exists>s' H' d' c'. kfold bop_run ps (s, H) = Done (s', H') \<and> fold bop_spec ps (d, c, dom H) = (d', c', dom H')
    \<and> disk s' = d' \<and> cache_rep s' d' c' H' {} \<and> (\<forall>n b. H' n = Some b \<longrightarrow> bdata (bufs s' b) = c' n)"
  using assms
proof (induction ps arbitrary: s d c H)
  case Nil
  then show ?case using disk_rep held_data by fastforce
next
  case (Cons p ps)
  obtain d1 c1 K1 where e: "bop_spec p (d, c, dom H) = (d1, c1, K1)" using prod_cases3 by blast
  obtain s1 H1 where 1: "bop_run p (s, H) = Done (s1, H1)" "cache_rep s1 d1 c1 H1 {}" "dom H1 = K1" "frame s s1"
    using bop_step [OF Cons.prems(1) _ e] Cons.prems(2) by auto
  have "bops_ok (disksize s1) ps (d1, c1, dom H1)" using Cons.prems(2) e 1(3) frame_klog [OF 1(4)] by simp
  then show ?case using Cons.IH [OF 1(2)] 1(1,3) e by simp
qed

text \<open>A small disk for the witnesses: 1000 blocks, the log from block 2 on, the blocks up to the bitmap block 58 in use.\<close>

definition super0 :: superblock where
  "super0 = \<lparr>sb_size = 1000, nblocks = 900, ninodes = 200, nlog = 30, logstart = 2, inodestart = 32, bmapstart = 58\<rparr>"

definition disk0 :: contents where
  "disk0 = (\<lambda>_. replicate 512 0)(1 := enc_superblock super0 @ replicate 484 0,
     58 := replicate 7 255 @ [7] @ replicate 504 0)"

definition power_on :: "contents \<Rightarrow> kernel" where
  "power_on e = kernel0\<lparr>disk := e\<rparr>"

lemma disk0_simps: "length (disk0 n) = 512" "n \<noteq> 1 \<Longrightarrow> n \<noteq> 58 \<Longrightarrow> disk0 n = replicate 512 0"
  "dec_superblock (disk0 1) = super0" "disk0 58 = replicate 7 255 @ [7] @ replicate 504 0"
  by (simp_all add: disk0_def dec_enc_superblock) (simp add: enc_superblock_def)

lemma power_on_rep:
  "\<forall>n. length (e n) = 512 \<Longrightarrow> rebooted e 1000 (power_on e) \<and> cache_rep (binit (power_on e)) e e Map.empty {}
    \<and> klog (binit (power_on e)) = log0 \<and> disksize (binit (power_on e)) = 1000 \<and> locked (locks (binit (power_on e)) Llog) = 0
    \<and> locked (locks (binit (power_on e)) Licache) = 0"
  using binit_rep [of "power_on e"] by (simp add: power_on_def buf0_def rebooted_def cli_ok_def sample_defs LOGSIZE_def MAXOPBLOCKS_def)

abbreviation booted0 :: kernel where "booted0 \<equiv> binit (power_on disk0)"

lemma booted0: "cache_rep booted0 disk0 disk0 Map.empty {}" "klog booted0 = log0" "disksize booted0 = 1000" "locked (locks booted0 Llog) = 0"
  "locked (locks booted0 Licache) = 0"
  using power_on_rep [of disk0] disk0_simps(1) by blast+

theorem buffer_cache_refines_witness:
  "\<exists>s' H'. kfold bop_run [Bread 7, Bread 9, Bset 7 (replicate 512 1), Bwrite 7, Brelse 7, Brelse 9, Bread 7] (booted0, Map.empty) = Done (s', H')
    \<and> disk s' 7 = replicate 512 1 \<and> dom H' = {7}"
proof -
  let ?ps = "[Bread 7, Bread 9, Bset 7 (replicate 512 1), Bwrite 7, Brelse 7, Brelse 9, Bread 7]"
  have "bops_ok (disksize booted0) ?ps (disk0, disk0, dom (Map.empty :: u32 \<rightharpoonup> nat))"
    by (simp add: booted0(2-) NBUF_def)
  from buffer_cache_refines [OF booted0(1) this] obtain s' H' d' c' where r: "kfold bop_run ?ps (booted0, Map.empty) = Done (s', H')"
    and f: "fold bop_spec ?ps (disk0, disk0, dom (Map.empty :: u32 \<rightharpoonup> nat)) = (d', c', dom H')" and d: "disk s' = d'"
    by blast
  have "d' 7 = replicate 512 1" "dom H' = {7}" using f by auto
  then show ?thesis using r d by blast
qed

section \<open>Transactions\<close>

text \<open>
  C31. A transaction is written as a whole: begin_op, up to as many block updates as the log has entries, end_op. No step
  panics or sleeps, and afterwards every block outside of the log contains exactly what was written last, the log is empty and
  ready for the next transaction.
\<close>

theorem transaction_commits:
  assumes "log_rep s d d" and "locked (locks s Llog) = 0" and "\<not> committing (klog s)" and "outstanding (klog s) = 0"
    and "lh_n (klog s) = 0" and "\<forall>(n, xs)\<in>set ws. loggable s n \<and> length xs = 512" and "int (length ws) < lsize (klog s)"
  shows "\<exists>t. kbind (begin_op s) (\<lambda>s. kbind (kfold write_block ws s) end_op) = Done t
    \<and> (\<forall>n. n \<notin> log_area (klog s) \<longrightarrow> disk t n = written ws d n) \<and> log_rep t (disk t) (disk t) \<and> outstanding (klog t) = 0"
proof -
  have "lh_n (klog s) + (outstanding (klog s) + 1) * MAXOPBLOCKS \<le> LOGSIZE"
    using assms(4,5) by (simp add: MAXOPBLOCKS_def LOGSIZE_def)
  then obtain u where u: "begin_op s = Done u" "tx_rep u d d Map.empty" "klog u = (klog s)\<lparr>outstanding := outstanding (klog s) + 1\<rparr>"
    "disksize u = disksize s"
    using begin_op_rep [OF assms(1-3)] by blast
  have a: "log_area (klog u) = log_area (klog s)" "outstanding (klog u) = 1" "lh_n (klog u) = 0" "lsize (klog u) = lsize (klog s)"
    using u(3) assms(4,5) by (simp_all add: log_area_def)
  have ws: "\<forall>(n, xs)\<in>set ws. loggable u n \<and> length xs = 512" using assms(6) a(1) u(4) by (auto simp: loggable_def)
  have "1 \<le> outstanding (klog u)" "lh_n (klog u) + int (length ws) \<le> lsize (klog u) - 1" using a assms(7) by simp_all
  then obtain v where v: "kfold write_block ws u = Done v" "tx_rep v d (written ws d) Map.empty" "outstanding (klog v) = 1"
    "log_area (klog v) = log_area (klog s)"
    using write_blocks_rep [OF u(2) _ ws] a by metis
  show ?thesis using end_op_rep [OF v(2,3)] u(1) v(1,4) by auto
qed

lemma log_rep_fresh:
  assumes "\<forall>n. length (e n) = 512" and "fst (lh_read (e 2)) = 0"
  shows "log_rep (binit (power_on e)) e e"
proof -
  have "log_ok 1000 log0" by (simp add: log_ok_def log0_def LOGSIZE_def MAXOPBLOCKS_def)
  moreover have "targets log0 = []" "header log0 = 2" by (simp_all add: targets_def log0_def header_def)
  ultimately show ?thesis using power_on_rep [OF assms(1)] assms(2) by (simp add: log_rep_def)
qed

lemma log_rep0: "log_rep booted0 disk0 disk0"
  by (rule log_rep_fresh) (simp_all add: disk0_simps lh_read_def get32_def)

lemma log_area0: "n \<in> log_area log0 \<Longrightarrow> n < 32"
proof -
  assume "n \<in> log_area log0"
  then obtain i where i: "n = of_int i" "2 \<le> i" "i < 32" by (auto simp: log_area_def log0_def)
  then have "uint n = i" using uint_of_int_lt [of i 1000] by simp
  then show "n < 32" using i(3) by (simp add: word_less_def)
qed

lemma loggable_fresh: "klog s = log0 \<Longrightarrow> disksize s = 1000 \<Longrightarrow> 32 \<le> n \<Longrightarrow> n < 1000 \<Longrightarrow> loggable s n"
proof -
  assume n: "32 \<le> n" "n < 1000" and s: "klog s = log0" "disksize s = 1000"
  have "(1 :: u32) < 32" by simp
  then have "1 < n" using n(1) by (rule order_less_le_trans)
  moreover have "n \<notin> log_area log0" using log_area0 n(1) by (metis linorder_not_less)
  ultimately show "loggable s n" using n(2) s by (simp add: loggable_def)
qed

lemma loggable0: "32 \<le> n \<Longrightarrow> n < 1000 \<Longrightarrow> loggable booted0 n"
  by (rule loggable_fresh) (simp_all add: booted0)

theorem transaction_commits_witness:
  "\<exists>t. kbind (begin_op booted0) (\<lambda>s. kbind (kfold write_block [(100, replicate 512 1), (101, replicate 512 2), (100, replicate 512 3)] s) end_op) = Done t
    \<and> disk t 100 = replicate 512 3 \<and> disk t 101 = replicate 512 2"
proof -
  let ?ws = "[(100, replicate 512 1), (101, replicate 512 2), (100, replicate 512 3)] :: (u32 \<times> u8 list) list"
  have ws: "\<forall>(n, xs)\<in>set ?ws. loggable booted0 n \<and> length xs = 512" using loggable0 by simp
  note lock = booted0(4)
  have l: "\<not> committing (klog booted0)" "outstanding (klog booted0) = 0" "lh_n (klog booted0) = 0"
    "int (length ?ws) < lsize (klog booted0)"
    by (simp_all add: booted0(2-)) (simp_all add: log0_def)
  from transaction_commits [OF log_rep0 lock l(1-3) ws l(4)] obtain t
    where t: "kbind (begin_op booted0) (\<lambda>s. kbind (kfold write_block ?ws s) end_op) = Done t"
      "\<And>n. n \<notin> log_area (klog booted0) \<Longrightarrow> disk t n = written ?ws disk0 n" by blast
  have "100 \<notin> log_area (klog booted0)" "101 \<notin> log_area (klog booted0)" using loggable0 by (auto simp: loggable_def)
  then have "disk t 100 = replicate 512 3 \<and> disk t 101 = replicate 512 2" using t(2) by (simp add: written_def)
  then show ?thesis using t(1) by blast
qed

text \<open>
  C32. Crash atomicity: \<open>commit\<close> is a sequence of disk writes, each of one block. Wherever the machine stops between two of them, the next boot
  recovers a disk on which, outside of the log, nothing of the transaction has happened if the header has not been written
  (\<open>k\<close> counts the writes done, the log blocks come first), and all of it if it has. The log is then again empty and
  consistent, so that a crash during later operation, or another boot, is covered by the same statement.
\<close>

theorem commit_crash_atomic:
  assumes "log_rep s d c" and "super_ok d (klog s)" and "k \<le> length (commit_writes s)"
  shows "run_writes (commit_writes s) s = commit s
    \<and> (\<exists>t. run_writes (take k (commit_writes s)) s = Done t
      \<and> (\<forall>v. k < length (commit_writes s) \<and> run_writes (take (Suc k) (commit_writes s)) s = Done v \<longrightarrow> (\<exists>n x. disk v = (disk t)(n := x)))
      \<and> (\<forall>r. rebooted (disk t) (disksize s) r \<longrightarrow> (\<exists>u. initlog 1 (binit r) = Done u \<and> log_rep u (disk u) (disk u)
          \<and> (\<forall>n. n \<notin> log_area (klog s) \<longrightarrow> disk u n = (if k \<le> nat (lh_n (klog s)) then d n else c n)))))"
proof -
  let ?w = "commit_writes s"
  obtain t c' D where t: "run_writes (take k ?w) s = Done t" "cache_rep t (commit_disk (klog s) d c k) c' Map.empty D"
    using commit_prefix [OF assms(1,3)] by blast
  have d: "disk t = commit_disk (klog s) d c k" by (rule disk_rep [OF t(2)])
  have "\<exists>n x. disk v = (disk t)(n := x)" if v: "k < length ?w" "run_writes (take (Suc k) ?w) s = Done v" for v
  proof -
    have "disk v = commit_disk (klog s) d c (Suc k)" using commit_prefix [OF assms(1), of "Suc k"] v disk_rep by fastforce
    moreover have "k < 2 * nat (lh_n (klog s)) + 2" using v(1) by (simp add: commit_writes_def Let_def split: if_splits)
    moreover have "log_ok (disksize s) (klog s)" using assms(1) by (simp add: log_rep_def)
    ultimately show ?thesis using commit_disk_one unfolding d by metis
  qed
  then show ?thesis using commit_writes_all [OF assms(1)] t(1) crash_recover [OF assms] unfolding d [symmetric] by blast
qed

lemma pending0:
  "\<exists>s c. log_rep s disk0 c \<and> c 100 = replicate 512 1 \<and> 0 < lh_n (klog s) \<and> log_area (klog s) = log_area log0 \<and> disksize s = 1000
    \<and> start (klog s) = 2 \<and> lsize (klog s) = 30"
proof -
  have q: "\<not> committing (klog booted0)" "lh_n (klog booted0) + (outstanding (klog booted0) + 1) * MAXOPBLOCKS \<le> LOGSIZE"
    by (simp_all add: booted0(2-)) (simp_all add: log0_def LOGSIZE_def MAXOPBLOCKS_def)
  obtain u where u: "begin_op booted0 = Done u" "tx_rep u disk0 disk0 Map.empty" "klog u = log0\<lparr>outstanding := outstanding log0 + 1\<rparr>" "disksize u = 1000"
    using begin_op_rep [OF log_rep0 booted0(4) q] booted0(2,3) by auto
  have n: "loggable u 100" using loggable0 [of 100] u(3,4) by (simp add: loggable_def booted0(2-) log_area_def)
  have r: "lh_n (klog u) < lsize (klog u) - 1" "1 \<le> outstanding (klog u)" using u(3) by (simp_all add: log0_def)
  have len: "length (replicate 512 1 :: u8 list) = 512" by simp
  obtain t where t: "tx_rep t disk0 (disk0(100 := replicate 512 1)) Map.empty" "klog t = entry (klog u) (log_index (klog u) 100) 100" "disksize t = 1000"
    using write_block_rep [OF u(2) n len r] u(4) by auto
  have l: "log_ok 1000 (klog u)" using u(2,4) by (simp add: tx_rep_def)
  have n1: "(1 :: u32) < 100" "(100 :: u32) < 1000" "100 \<notin> log_area (klog u)" using n by (simp_all add: loggable_def)
  have "set (targets (klog t)) = insert 100 (set (targets (klog u)))" unfolding t(2) by (rule entry_ok(2) [OF l n1 r(1)])
  then have "targets (klog t) \<noteq> []" by auto
  then have "0 < lh_n (klog t)" by (auto simp: targets_def)
  moreover have "log_rep t disk0 (disk0(100 := replicate 512 1))" using t(1) by (simp add: log_rep_def tx_rep_def)
  moreover have "log_area (klog t) = log_area log0" "start (klog t) = 2" "lsize (klog t) = 30"
    using t(2) u(3) by (simp_all add: log_area_def) (simp_all add: log0_def)
  ultimately show ?thesis using t(3) by (intro exI [of _ t] exI [of _ "disk0(100 := replicate 512 1)"]) simp
qed

text \<open>In the witness a crash after the first write loses the transaction and a crash after the header has been written does not.\<close>

theorem commit_crash_atomic_witness:
  "\<exists>s c. log_rep s disk0 c \<and> c 100 \<noteq> disk0 100
    \<and> (\<exists>t u. run_writes (take 1 (commit_writes s)) s = Done t \<and> initlog 1 (binit (power_on (disk t))) = Done u \<and> disk u 100 = disk0 100)
    \<and> (\<exists>t u. run_writes (take (nat (lh_n (klog s)) + 1) (commit_writes s)) s = Done t \<and> initlog 1 (binit (power_on (disk t))) = Done u
        \<and> disk u 100 = c 100)"
proof -
  obtain s c where s: "log_rep s disk0 c" "c 100 = replicate 512 1" "0 < lh_n (klog s)" "log_area (klog s) = log_area log0" "disksize s = 1000"
    "start (klog s) = 2" "lsize (klog s) = 30"
    using pending0 by blast
  let ?n = "nat (lh_n (klog s))"
  have sup: "super_ok disk0 (klog s)" using s(6,7) by (simp add: super_ok_def disk0_simps super0_def)
  have h: "100 \<notin> log_area (klog s)" using loggable0 [of 100] s(4) by (simp add: loggable_def booted0(2-))
  have crash: "\<exists>t u. run_writes (take k (commit_writes s)) s = Done t \<and> initlog 1 (binit (power_on (disk t))) = Done u
      \<and> disk u 100 = (if k \<le> ?n then disk0 100 else c 100)" if k: "k \<le> length (commit_writes s)" for k
  proof -
    obtain t where t: "run_writes (take k (commit_writes s)) s = Done t" "\<forall>r. rebooted (disk t) (disksize s) r \<longrightarrow> (\<exists>u. initlog 1 (binit r) = Done u
        \<and> log_rep u (disk u) (disk u) \<and> (\<forall>n. n \<notin> log_area (klog s) \<longrightarrow> disk u n = (if k \<le> ?n then disk0 n else c n)))"
      using commit_crash_atomic [OF s(1) sup k] by blast
    have "\<forall>n. length (disk t n) = 512" using commit_prefix [OF s(1) k] t(1) rep_lengths disk_rep by fastforce
    then have "rebooted (disk t) (disksize s) (power_on (disk t))" using power_on_rep s(5) by simp
    then show ?thesis using t h by blast
  qed
  have "length (commit_writes s) = 2 * ?n + 2" using s(3) by (simp add: commit_writes_def Let_def)
  moreover have "1 \<le> ?n" using s(3) by simp
  moreover have "c 100 \<noteq> disk0 100" using s(2) by (simp add: disk0_simps)
  ultimately show ?thesis using s(1) crash [of 1] crash [of "?n + 1"] by (intro exI [of _ s] exI [of _ c]) auto
qed

section \<open>Inodes and blocks\<close>

text \<open>
  The calls on the inode cache; a caller that holds a reference has its slot, the one \<open>find_inode\<close> finds.
\<close>

datatype iop = Iget u32 u32 | Idup u32 u32 | Iput u32 u32

fun iop_run :: "iop \<Rightarrow> kernel \<Rightarrow> kernel kresult" where
  "iop_run (Iget dev i) s = kbind (iget dev i s) (\<lambda>(_, s). Done s)"
| "iop_run (Idup dev i) s = (case find_inode dev i s of Some ip \<Rightarrow> kbind (idup ip s) (\<lambda>(_, s). Done s) | None \<Rightarrow> Fault)"
| "iop_run (Iput dev i) s = (case find_inode dev i s of Some ip \<Rightarrow> iput ip s | None \<Rightarrow> Fault)"

fun iop_spec :: "iop \<Rightarrow> (u32 \<times> u32) multiset \<Rightarrow> (u32 \<times> u32) multiset" where
  "iop_spec (Iget dev i) M = add_mset (dev, i) M"
| "iop_spec (Idup dev i) M = add_mset (dev, i) M"
| "iop_spec (Iput dev i) M = M - {#(dev, i)#}"

text \<open>A reference can be given back by one who holds it; of an inode without a link, one that is not the last.\<close>

fun iop_ok :: "(u32 \<times> u32) set \<Rightarrow> iop \<Rightarrow> (u32 \<times> u32) multiset \<Rightarrow> bool" where
  "iop_ok U (Iget dev i) M \<longleftrightarrow> card (set_mset M) < NINODE"
| "iop_ok U (Idup dev i) M \<longleftrightarrow> (dev, i) \<in># M"
| "iop_ok U (Iput dev i) M \<longleftrightarrow> (dev, i) \<in># M \<and> ((dev, i) \<in> U \<longrightarrow> 2 \<le> count M (dev, i))"

primrec iops_ok :: "(u32 \<times> u32) set \<Rightarrow> iop list \<Rightarrow> (u32 \<times> u32) multiset \<Rightarrow> bool" where
  "iops_ok U [] M = True"
| "iops_ok U (p # ps) M = (iop_ok U p M \<and> iops_ok U ps (iop_spec p M))"

lemma iop_step:
  assumes R: "ref_rep s M" and un: "unlinked_in U s" and ok: "iop_ok U p M"
  shows "\<exists>t. iop_run p s = Done t \<and> ref_rep t (iop_spec p M) \<and> icache_step U s t"
proof (cases p)
  case (Iget dev i)
  have "\<not> (\<forall>ip<NINODE. 0 < iref (inodes s ip))"
  proof
    assume all: "\<forall>ip<NINODE. 0 < iref (inodes s ip)"
    have "inj_on (\<lambda>ip. key (inodes s ip)) {..<NINODE}" using all ref_repD(4) [OF R] by (auto intro!: inj_onI)
    then have "card ((\<lambda>ip. key (inodes s ip)) ` {..<NINODE}) = NINODE" by (simp add: card_image)
    moreover have "(\<lambda>ip. key (inodes s ip)) ` {..<NINODE} \<subseteq> set_mset M"
    proof
      fix k assume "k \<in> (\<lambda>ip. key (inodes s ip)) ` {..<NINODE}"
      then obtain ip where "live s ip" "k = key (inodes s ip)" using all by auto
      then have "0 < int (count M k)" using ref_repD(5) [OF R, of ip] by simp
      then show "k \<in># M" by simp
    qed
    ultimately have "NINODE \<le> card (set_mset M)" by (metis card_mono finite_set_mset)
    then show False using ok Iget by simp
  qed
  then show ?thesis using iget_rep [OF R, of dev i U] Iget by auto
next
  case (Idup dev i)
  then obtain ip where ip: "find_inode dev i s = Some ip" using find_inode_iff [OF R, of dev i] ok by auto
  then show ?thesis using idup_rep [OF R ip, of U] Idup ip by auto
next
  case (Iput dev i)
  then obtain ip where ip: "find_inode dev i s = Some ip" using find_inode_iff [OF R, of dev i] ok by auto
  then show ?thesis using iput_rep [OF R un ip] ok Iput ip by auto
qed

lemma find_inode_count:
  assumes "ref_rep s M"
  shows "case find_inode dev i s of Some ip \<Rightarrow> iref (inodes s ip) = int (count M (dev, i)) | None \<Rightarrow> count M (dev, i) = 0"
proof (cases "find_inode dev i s")
  case None
  then show ?thesis using find_inode_iff [OF assms, of dev i] by (simp add: not_in_iff)
next
  case (Some ip)
  then show ?thesis using find_inode_some [OF Some] ref_repD(5) [OF assms, of ip] by simp
qed

lemma iops_run:
  "ref_rep s M \<Longrightarrow> unlinked_in U s \<Longrightarrow> iops_ok U ps M
    \<Longrightarrow> \<exists>t. kfold iop_run ps s = Done t \<and> ref_rep t (fold iop_spec ps M) \<and> unlinked_in U t \<and> icache_kept U s t"
proof (induction ps arbitrary: s M)
  case Nil
  then show ?case by (simp add: icache_kept_refl)
next
  case (Cons p ps)
  obtain u where u: "iop_run p s = Done u" "ref_rep u (iop_spec p M)" "icache_step U s u"
    using iop_step [OF Cons.prems(1,2), of p] Cons.prems(3) by auto
  note k = icache_step_kept [OF u(3)]
  obtain t where "kfold iop_run ps u = Done t" "ref_rep t (fold iop_spec ps (iop_spec p M))" "unlinked_in U t" "icache_kept U u t"
    using Cons.IH [OF u(2) k(2) [OF Cons.prems(2)]] Cons.prems(3) by auto
  then show ?case using u(1) icache_kept_trans [OF k(1)] by auto
qed

text \<open>
  C33. The inode cache counts references: after any sequence of iget, idup and iput in which references are given back only by
  those who hold them, with at most NINODE inodes in use, no call panics, and an inode is in the cache, in exactly
  one slot, with a count that is the number of references held, or with none held it is not there. The inodes of \<open>U\<close> may have
  lost their last link; as long as another reference to such an inode is held, giving one back does not free it: it stays in its slot with all
  its fields, and nothing is written to a disk block, a buffer or the log.
\<close>

theorem icache_counts_references:
  assumes "ref_rep s M" and "unlinked_in U s" and "iops_ok U ps M"
  shows "\<exists>t. kfold iop_run ps s = Done t \<and> ref_rep t (fold iop_spec ps M) \<and> unlinked_in U t
    \<and> (\<forall>dev i. case find_inode dev i t of Some ip \<Rightarrow> iref (inodes t ip) = int (count (fold iop_spec ps M) (dev, i))
        | None \<Rightarrow> count (fold iop_spec ps M) (dev, i) = 0)
    \<and> (\<forall>ip jp. live t ip \<and> live t jp \<and> key (inodes t ip) = key (inodes t jp) \<longrightarrow> ip = jp)
    \<and> disk t = disk s \<and> bufs t = bufs s \<and> klog t = klog s
    \<and> (\<forall>ip. live s ip \<and> key (inodes s ip) \<in> U \<longrightarrow> live t ip \<and> inodes t ip = (inodes s ip)\<lparr>iref := iref (inodes t ip)\<rparr>)"
proof -
  obtain t where t: "kfold iop_run ps s = Done t" "ref_rep t (fold iop_spec ps M)" "unlinked_in U t" "icache_kept U s t"
    using iops_run [OF assms] by blast
  have u: "\<forall>ip jp. live t ip \<and> live t jp \<and> key (inodes t ip) = key (inodes t jp) \<longrightarrow> ip = jp" using ref_repD(4) [OF t(2)] by blast
  have c: "\<forall>dev i. case find_inode dev i t of Some ip \<Rightarrow> iref (inodes t ip) = int (count (fold iop_spec ps M) (dev, i))
      | None \<Rightarrow> count (fold iop_spec ps M) (dev, i) = 0" using find_inode_count [OF t(2)] by (intro allI)
  show ?thesis using t(1-3) t(4) [unfolded icache_kept_def] u c
    by (intro exI [of _ t]) (elim conjE, intro conjI; assumption)
qed

lemma ref_rep0: "ref_rep kernel0 {#}"
  by (simp add: ref_rep_def inode0_def)

text \<open>In the witness inode 5 has no link left and is open twice; one reference is given back, and it is not freed.\<close>

definition open_unlinked :: kernel where
  "open_unlinked = kernel0\<lparr>inodes := (\<lambda>_. inode0)(3 := inode0\<lparr>idev := 1, inum := 5, iref := 2, I_VALID := True, itype := 2, isize := 9\<rparr>)\<rparr>"

theorem icache_counts_references_witness:
  "\<exists>t. kfold iop_run [Iput 1 5, Iget 1 7, Idup 1 5, Iput 1 7, Iput 1 5] open_unlinked = Done t
    \<and> find_inode 1 7 t = None \<and> nlink (inodes t 3) = 0 \<and> iref (inodes t 3) = 1 \<and> itype (inodes t 3) = 2 \<and> isize (inodes t 3) = 9"
proof -
  let ?ps = "[Iput 1 5, Iget 1 7, Idup 1 5, Iput 1 7, Iput 1 5]" and ?M = "{#(1, 5), (1, 5)#} :: (u32 \<times> u32) multiset"
  have R: "ref_rep open_unlinked ?M" "unlinked_in {(1, 5)} open_unlinked"
    by (auto simp: ref_rep_def unlinked_in_def open_unlinked_def inode0_def key_def NINODE_def split: if_splits)
  have "iops_ok {(1, 5)} ?ps ?M" by (simp add: NINODE_def)
  from icache_counts_references [OF R this] obtain t where t: "kfold iop_run ?ps open_unlinked = Done t" "ref_rep t (fold iop_spec ?ps ?M)"
    "\<forall>ip. live open_unlinked ip \<and> key (inodes open_unlinked ip) \<in> {(1, 5)} \<longrightarrow> live t ip \<and> inodes t ip = (inodes open_unlinked ip)\<lparr>iref := iref (inodes t ip)\<rparr>"
    by (elim exE conjE) (intro that; assumption)
  have f: "fold iop_spec ?ps ?M = {#(1, 5)#}" by simp
  have l: "live t 3" "inodes t 3 = (inodes open_unlinked 3)\<lparr>iref := iref (inodes t 3)\<rparr>"
    using t(3) [rule_format, of 3] by (simp_all add: open_unlinked_def NINODE_def key_def)
  have "key (inodes t 3) = (1, 5)" "nlink (inodes t 3) = 0" "itype (inodes t 3) = 2" "isize (inodes t 3) = 9"
    by (subst l(2), simp add: open_unlinked_def key_def inode0_def)+
  moreover have "iref (inodes t 3) = 1" using ref_repD(5) [OF t(2) l(1)] calculation(1) unfolding f by simp
  moreover have "find_inode 1 7 t = None" using find_inode_iff [OF t(2), of 1 7] unfolding f by (cases "find_inode 1 7 t") auto
  ultimately show ?thesis using t(1) by blast
qed

text \<open>
  What iupdate writes is what ilock reads: an inode written back to its block is found unchanged by the next process that
  locks a cache entry for it which is not loaded yet, and the other inodes of the same disk block are untouched.
\<close>

theorem inode_write_back:
  assumes "tx_rep s d c Map.empty" and "idev (inodes s ip) = 1" and "dinode_ok (dinode_of (inodes s ip))"
    and "loggable s (IBLOCK (inum (inodes s ip)) (sb s))" and "room 1 s" and "itype (inodes s ip) \<noteq> 0"
    and "idev (inodes s jp) = 1" and "inum (inodes s jp) = inum (inodes s ip)" and "1 \<le> iref (inodes s jp)"
    and "\<not> I_BUSY (inodes s jp)" and "\<not> I_VALID (inodes s jp)" and "locked (locks s Licache) = 0"
  shows "\<exists>t u c'. iupdate ip s = Done t \<and> ilock jp t = Done u \<and> dinode_of (inodes u jp) = dinode_of (inodes s ip)
    \<and> I_VALID (inodes u jp) \<and> tx_rep u d c' Map.empty
    \<and> (\<forall>n k. k < 8 \<longrightarrow> n \<noteq> IBLOCK (inum (inodes s ip)) (sb s) \<or> k \<noteq> slot_of (inum (inodes s ip)) \<longrightarrow> get_dinode (c' n) k = get_dinode (c n) k)"
proof -
  let ?i = "inum (inodes s ip)" and ?x = "dinode_of (inodes s ip)"
  let ?n = "IBLOCK ?i (sb s)"
  let ?c = "c(?n := put_dinode (c ?n) (slot_of ?i) ?x)"
  obtain t where t: "iupdate ip s = Done t" "tx_step 1 {?n} s t" "tx_rep t d ?c Map.empty" using iupdate_rep [OF assms(1-5)] by blast
  have same: "inodes t = inodes s" "sb t = sb s" "disksize t = disksize s" "locked (locks t Licache) = 0"
    using t(2) assms(12) by (simp_all add: tx_step_def)
  have len: "length (c ?n) = 512" using rep_lengths assms(1) by (metis tx_rep_def)
  note gp = get_put_dinode [OF len slot_less [of ?i] assms(3)]
  have "get_dinode (?c ?n) (slot_of ?i) = ?x" using gp(1) by simp
  moreover have "?n < disksize t" using assms(4) same(3) by (simp add: loggable_def)
  ultimately obtain u where u: "ilock jp t = Done u" "tx_rep u d ?c Map.empty"
    "inodes u = (inodes t)(jp := (of_dinode ?x (inodes t jp))\<lparr>I_BUSY := True, I_VALID := True\<rparr>)"
    using ilock_load [OF t(3), of jp] assms(6-11) same by (auto simp: dinode_of_def)
  have "dinode_of (inodes u jp) = ?x" "I_VALID (inodes u jp)" using u(3) by (simp_all add: dinode_of_def of_dinode_def)
  moreover have "get_dinode (?c n) k = get_dinode (c n) k" if "k < 8" "n \<noteq> ?n \<or> k \<noteq> slot_of ?i" for n k
    using that gp(3) [of k] by (cases "n = ?n") auto
  ultimately show ?thesis using t(1) u(1,2) by blast
qed

definition file_inode :: "kernel \<Rightarrow> kernel" where
  "file_inode s = upd_inode 0 (\<lambda>x. inode0\<lparr>idev := 1, inum := 5, iref := 1, I_BUSY := True, I_VALID := True, itype := 2, nlink := 1, isize := 700\<rparr>)
     (upd_inode 1 (\<lambda>x. inode0\<lparr>idev := 1, inum := 5, iref := 1\<rparr>) (s\<lparr>sb := super0\<rparr>))"

lemma in_tx0:
  "\<exists>s. tx_rep s disk0 disk0 Map.empty \<and> room 20 s \<and> disksize s = 1000 \<and> locked (locks s Licache) = 0 \<and> sb s = super0
    \<and> inodes s 0 = inode0\<lparr>idev := 1, inum := 5, iref := 1, I_BUSY := True, I_VALID := True, itype := 2, nlink := 1, isize := 700\<rparr>
    \<and> inodes s 1 = inode0\<lparr>idev := 1, inum := 5, iref := 1\<rparr> \<and> (\<forall>n. 32 \<le> n \<and> n < 1000 \<longrightarrow> loggable s n)"
proof -
  have q: "\<not> committing (klog booted0)" "lh_n (klog booted0) + (outstanding (klog booted0) + 1) * MAXOPBLOCKS \<le> LOGSIZE"
    by (simp_all add: booted0(2-)) (simp_all add: log0_def LOGSIZE_def MAXOPBLOCKS_def)
  obtain u where u: "tx_rep u disk0 disk0 Map.empty" "klog u = log0\<lparr>outstanding := outstanding log0 + 1\<rparr>" "disksize u = 1000"
    "locked (locks u Licache) = 0"
    using begin_op_rep [OF log_rep0 booted0(4) q] booted0(2,3,5) by auto
  have "loggable u n" if "32 \<le> n" "n < 1000" for n
    using loggable0 [OF that] u(2,3) by (simp add: loggable_def booted0(2-) log_area_def)
  then have "\<forall>n. 32 \<le> n \<and> n < 1000 \<longrightarrow> loggable (file_inode u) n" by (simp add: loggable_def file_inode_def)
  moreover have "room 20 (file_inode u)" using u(2) by (simp add: room_def file_inode_def) (simp add: log0_def)
  moreover have "sb (file_inode u) = super0" by (simp add: file_inode_def)
  ultimately show ?thesis using u by (intro exI [of _ "file_inode u"]) (simp add: file_inode_def)
qed

theorem inode_write_back_witness:
  "\<exists>s t u. iupdate 0 s = Done t \<and> ilock 1 t = Done u \<and> isize (inodes u 1) = 700 \<and> isize (inodes s 1) = 0"
proof -
  obtain s where s: "tx_rep s disk0 disk0 Map.empty" "room 20 s" "locked (locks s Licache) = 0" "sb s = super0"
    "inodes s 0 = inode0\<lparr>idev := 1, inum := 5, iref := 1, I_BUSY := True, I_VALID := True, itype := 2, nlink := 1, isize := 700\<rparr>"
    "inodes s 1 = inode0\<lparr>idev := 1, inum := 5, iref := 1\<rparr>" "\<forall>n. 32 \<le> n \<and> n < 1000 \<longrightarrow> loggable s n"
    using in_tx0 by blast
  have "IBLOCK 5 super0 = 32" by (simp add: IBLOCK_def IPB_def super0_def)
  then have "loggable s (IBLOCK (inum (inodes s 0)) (sb s))" using s(4,5,7) by simp
  moreover have "dinode_ok (dinode_of (inodes s 0))"
    using s(5) by (simp add: dinode_ok_def dinode_of_def short_ok_def inode0_def NDIRECT_def)
  moreover have "room 1 s" using s(2) by (simp add: room_def)
  ultimately obtain t u where "iupdate 0 s = Done t" "ilock 1 t = Done u" "dinode_of (inodes u 1) = dinode_of (inodes s 0)"
    using inode_write_back [OF s(1), of 0 1] s(3,5,6) by (auto simp: inode0_def)
  moreover have "isize (inodes s 1) = 0" using s(6) by (simp add: inode0_def)
  ultimately show ?thesis using s(5) by (auto simp: dinode_of_def)
qed

text \<open>
  Block allocation: balloc hands out the first block that is free in the bitmap, marks exactly this one, clears its
  contents and touches no other block; with every block in use it panics.
\<close>

theorem balloc_first_free:
  assumes "tx_rep s d c Map.empty" and "bitmap_ok s c" and "room 2 s"
  shows "(\<exists>n t c'. balloc 1 s = Done (n, t) \<and> tx_rep t d c' Map.empty \<and> n < sb_size (sb s) \<and> \<not> in_use c (sb s) n
      \<and> (\<forall>m < n. in_use c (sb s) m) \<and> c' n = replicate 512 0
      \<and> (\<forall>m < sb_size (sb s). in_use c' (sb s) m = (in_use c (sb s) m \<or> m = n))
      \<and> (\<forall>m. m \<noteq> n \<and> m \<noteq> BBLOCK n (sb s) \<longrightarrow> c' m = c m))
    \<or> (\<forall>m < sb_size (sb s). in_use c (sb s) m) \<and> balloc 1 s = Panic ''balloc: out of blocks''"
  using balloc_rep [OF assms]
proof (elim disjE exE conjE)
  fix n t
  assume b: "balloc 1 s = Done (n, t)" and f: "first_free c (sb s) n" and T: "tx_rep t d (taken (sb s) c n) Map.empty"
  note T' = taken_spec [OF assms(1,2) f]
  have "\<forall>m<n. in_use c (sb s) m" using f by (simp add: first_free_def)
  then show ?thesis using b T T'(1-3,5,6) by blast
qed blast

lemma block0: "m < 1000 \<Longrightarrow> BBLOCK m super0 = 58"
proof -
  assume "m < 1000"
  then have "unat m < 1000" by (simp add: word_less_nat_alt)
  then have "m div BPB = 0" by (simp add: BPB_def word_unat_eq_iff unat_div)
  then show ?thesis by (simp add: BBLOCK_def super0_def)
qed

lemma used0: "m < 1000 \<Longrightarrow> in_use disk0 super0 m = (unat m < 59)"
proof -
  assume m: "m < 1000"
  have um: "unat m < 1000" using m by (simp add: word_less_nat_alt)
  have B: "BBLOCK m super0 = 58" "unat (m mod BPB) = unat m"
    using um block0 [OF m] by (simp_all add: BPB_def unat_mod)
  let ?bs = "replicate 7 255 @ [7] @ replicate 504 0 :: u8 list"
  have "\<forall>i\<in>set [0..<59]. \<not> bit_free ?bs i" by code_simp
  moreover have "bit_free ?bs i" if "59 \<le> i" "i < 1000" for i
  proof (cases "i < 64")
    case True
    have "\<forall>i\<in>set [59..<64]. bit_free ?bs i" by code_simp
    moreover have "i \<in> set [59..<64]" using True that(1) by (simp only: set_upt atLeastLessThan_iff)
    ultimately show ?thesis by blast
  next
    case False
    then have "?bs ! (i div 8) = 0" using that by (auto simp: nth_append nth_Cons' )
    then show ?thesis by (simp add: bit_free_def)
  qed
  ultimately show "in_use disk0 super0 m = (unat m < 59)"
    using um unfolding in_use_def B disk0_simps(4) by (metis atLeastLessThan_iff linorder_not_le set_upt zero_le)
qed

lemma bitmap0: "sb s = super0 \<Longrightarrow> \<forall>n. 32 \<le> n \<and> n < 1000 \<longrightarrow> loggable s n \<Longrightarrow> bitmap_ok s disk0"
proof -
  assume s: "sb s = super0" and l: "\<forall>n. 32 \<le> n \<and> n < 1000 \<longrightarrow> loggable s n"
  have sz: "sb_size super0 = 1000" by (simp add: super0_def)
  note B = block0
  have free: "32 \<le> n \<and> n < 1000 \<and> n \<noteq> 58" if "n < 1000" "\<not> in_use disk0 super0 n" for n
  proof -
    have "59 \<le> unat n" using used0 [OF that(1)] that(2) by simp
    then show ?thesis using that(1) by (auto simp: word_le_nat_alt)
  qed
  have l58: "loggable s 58" using l by simp
  show "bitmap_ok s disk0"
    unfolding bitmap_ok_def s sz
  proof (intro conjI allI impI)
    show "loggable s (BBLOCK n super0)" if "n < 1000" for n using B [OF that] l58 by simp
    show "loggable s n" if "n < 1000" "\<not> in_use disk0 super0 n" for n using free [OF that] l by blast
    show "n \<noteq> BBLOCK m super0" if "n < 1000" "\<not> in_use disk0 super0 n" "m < 1000" for n m using free [OF that(1,2)] B [OF that(3)] by simp
  qed simp
qed

theorem balloc_first_free_witness: "\<exists>s t. balloc 1 s = Done (59, t) \<and> tx_rep s disk0 disk0 Map.empty"
proof -
  obtain s where s: "tx_rep s disk0 disk0 Map.empty" "room 20 s" "sb s = super0" "\<forall>n. 32 \<le> n \<and> n < 1000 \<longrightarrow> loggable s n"
    using in_tx0 by blast
  have sz: "sb_size (sb s) = 1000" using s(3) by (simp add: super0_def)
  have "room 2 s" using s(2) by (simp add: room_def)
  from balloc_first_free [OF s(1) bitmap0 [OF s(3,4)] this] show ?thesis
  proof (elim disjE exE conjE)
    fix n t
    assume n: "balloc 1 s = Done (n, t)" "n < sb_size (sb s)" "\<not> in_use disk0 (sb s) n" "\<forall>m<n. in_use disk0 (sb s) m"
    have "59 \<le> unat n" using used0 [of n] n(2,3) s(3) sz by simp
    moreover have "\<not> 59 < n"
    proof
      assume "59 < n"
      then have "in_use disk0 super0 59" using n(4) s(3) by simp
      then show False using used0 [of 59] by simp
    qed
    ultimately have "n = 59" by (simp add: word_less_nat_alt word_unat_eq_iff)
    then show ?thesis using n(1) s(1) by blast
  next
    assume "\<forall>m < sb_size (sb s). in_use disk0 (sb s) m"
    then have "in_use disk0 super0 59" using s(3) sz by simp
    then show ?thesis using used0 [of 59] by simp
  qed
qed

text \<open>
  Freeing: bfree clears exactly the bit of its block, so that balloc can hand it out again, and panics for a block that
  is not in use, in particular for one that has just been freed.
\<close>

theorem bfree_releases:
  assumes "tx_rep s d c Map.empty" and "loggable s (BBLOCK b (sb s))" and "room 1 s" and "dec_superblock (c 1) = sb s"
  shows "if in_use c (sb s) b
    then \<exists>t c'. bfree 1 b s = Done t \<and> tx_rep t d c' Map.empty \<and> (\<forall>m. in_use c' (sb s) m = (in_use c (sb s) m \<and> m \<noteq> b))
      \<and> (\<forall>m. m \<noteq> BBLOCK b (sb s) \<longrightarrow> c' m = c m) \<and> bfree 1 b t = Panic ''freeing free block''
    else bfree 1 b s = Panic ''freeing free block''"
proof (cases "in_use c (sb s) b")
  case True
  let ?x = "sb s"
  let ?B = "BBLOCK b ?x"
  let ?c = "c(?B := clear_bit (c ?B) (unat (b mod BPB)))"
  obtain t where t: "bfree 1 b s = Done t" "sb t = ?x" "tx_rep t d ?c Map.empty" "tx_step 1 {?B} s t"
    using bfree_rep(1) [OF assms(1,2,4,3) True] by auto
  have len: "length (c ?B) = 512" using rep_lengths assms(1) by (metis tx_rep_def)
  have u: "in_use ?c ?x m = (in_use c ?x m \<and> m \<noteq> b)" for m
  proof (cases "BBLOCK m ?x = ?B")
    case True
    have "unat (m mod BPB) < 4096" "unat (b mod BPB) < 4096" using BPB_parts(2) by simp_all
    moreover have "m = b \<longleftrightarrow> unat (m mod BPB) = unat (b mod BPB)"
    proof
      assume r: "unat (m mod BPB) = unat (b mod BPB)"
      have "m div BPB = b div BPB" using True by (simp add: BBLOCK_def)
      then show "m = b" using r by (metis word_unat_eq_iff div_mult_mod_eq)
    qed simp
    ultimately show ?thesis using bitmap_bits(2) [OF len] True by (simp add: in_use_def)
  next
    case False
    then show ?thesis by (auto simp: in_use_def)
  qed
  moreover have "bfree 1 b t = Panic ''freeing free block''"
  proof (rule bfree_rep(2) [OF t(3)])
    show "loggable t ?B" using assms(2) loggable_step [OF t(4)] by simp
    have "1 \<noteq> ?B" using assms(2) by (auto simp: loggable_def)
    then show "dec_superblock (?c 1) = ?x" using assms(4) by simp
    show "\<not> in_use ?c ?x b" using u by simp
  qed
  moreover have "\<forall>m. m \<noteq> ?B \<longrightarrow> ?c m = c m" by simp
  ultimately show ?thesis using t(1,3) True by (simp only: if_True) blast
next
  case False
  then show ?thesis using bfree_rep(2) [OF assms(1,2,4)] by simp
qed

theorem bfree_releases_witness: "\<exists>s t. bfree 1 58 s = Done t \<and> bfree 1 58 t = Panic ''freeing free block'' \<and> bfree 1 59 s = Panic ''freeing free block''"
proof -
  obtain s where s: "tx_rep s disk0 disk0 Map.empty" "room 20 s" "sb s = super0" "\<forall>n. 32 \<le> n \<and> n < 1000 \<longrightarrow> loggable s n"
    using in_tx0 by blast
  have B: "BBLOCK 58 (sb s) = 58" "BBLOCK 59 (sb s) = 58" using s(3) by (simp_all add: BBLOCK_def BPB_def super0_def)
  have l: "loggable s 58" using s(4) by simp
  have r: "room 1 s" using s(2) by (simp add: room_def)
  have d: "dec_superblock (disk0 1) = sb s" using s(3) disk0_simps(3) by simp
  have u: "in_use disk0 (sb s) 58" "\<not> in_use disk0 (sb s) 59" using used0 [of 58] used0 [of 59] s(3) by simp_all
  show ?thesis
    using bfree_releases [OF s(1), of 58, unfolded B, OF l r d] bfree_releases [OF s(1), of 59, unfolded B, OF l r d] u by auto
qed

section \<open>Paths\<close>

text \<open>The names in a path: its parts between slashes, the empty ones left out, cut to the length of a directory entry.\<close>

fun split_at :: "'a \<Rightarrow> 'a list \<Rightarrow> 'a list list" where
  "split_at c [] = [[]]"
| "split_at c (x # xs) = (if x = c then [] # split_at c xs else (x # hd (split_at c xs)) # tl (split_at c xs))"

definition elements :: "u8 list \<Rightarrow> u8 list list" where
  "elements path = map (take DIRSIZ) (filter (\<lambda>e. e \<noteq> []) (split_at SLASH path))"

lemma split_at_ne [simp]: "split_at c xs \<noteq> []"
  by (induction c xs rule: split_at.induct) auto

lemma split_at_none: "c \<notin> set xs \<Longrightarrow> split_at c xs = [xs]"
  by (induction c xs rule: split_at.induct) auto

lemma split_at_first: "c \<notin> set xs \<Longrightarrow> split_at c (xs @ c # ys) = xs # split_at c ys"
  by (induction xs) auto

lemma elements_skip: "elements (skip_slashes p) = elements p"
proof (induction p)
  case (Cons x p)
  then show ?case by (simp add: elements_def skip_slashes_def)
qed (simp add: skip_slashes_def)

lemma elements_word:
  assumes "xs \<noteq> []" and "SLASH \<notin> set xs"
  shows "elements xs = [take DIRSIZ xs]" and "elements (xs @ SLASH # ys) = take DIRSIZ xs # elements ys"
  using assms split_at_none [OF assms(2)] split_at_first [OF assms(2), of ys] by (simp_all add: elements_def)

lemma skipelem_elements:
  "skipelem p = None \<Longrightarrow> elements p = []"
  "skipelem p = Some (q, e) \<Longrightarrow> elements p = e # elements q \<and> (q = [] \<longleftrightarrow> elements q = [])"
proof -
  let ?p = "skip_slashes p"
  show "skipelem p = None \<Longrightarrow> elements p = []"
    using elements_skip [of p] by (auto simp: skipelem_def Let_def elements_def split: if_splits)
  assume s: "skipelem p = Some (q, e)"
  let ?w = "takeWhile (\<lambda>b. b \<noteq> SLASH) ?p" and ?r = "dropWhile (\<lambda>b. b \<noteq> SLASH) ?p"
  have p: "?p \<noteq> []" "q = skip_slashes ?r" "e = take DIRSIZ ?w" using s by (auto simp: skipelem_def Let_def split: if_splits)
  have "hd ?p \<noteq> SLASH" using p(1) hd_dropWhile [of "\<lambda>b. b = SLASH" p] by (simp add: skip_slashes_def)
  then have w: "?w \<noteq> []" "SLASH \<notin> set ?w" using p(1) by (cases ?p) (auto dest: set_takeWhileD)
  have e: "elements ?p = take DIRSIZ ?w # elements ?r"
  proof (cases ?r)
    case Nil
    then have "?p = ?w" by (metis append_Nil2 takeWhile_dropWhile_id)
    then have "elements ?p = [take DIRSIZ ?w]" using elements_word(1) [OF w] by metis
    moreover have "elements ?r = []" unfolding Nil by (simp add: elements_def)
    ultimately show ?thesis by metis
  next
    case (Cons x ys)
    then have "x = SLASH" using hd_dropWhile [of "\<lambda>b. b \<noteq> SLASH" ?p] by simp
    then have "?p = ?w @ SLASH # ys" using Cons by (metis takeWhile_dropWhile_id)
    then have "elements ?p = take DIRSIZ ?w # elements ys" using elements_word(2) [OF w] by metis
    then show ?thesis using Cons \<open>x = SLASH\<close> by (simp add: elements_def)
  qed
  have "q = [] \<longleftrightarrow> elements q = []"
  proof
    assume "elements q = []"
    show "q = []"
    proof (rule ccontr)
      assume "q \<noteq> []"
      then have "hd q \<noteq> SLASH" using hd_dropWhile [of "\<lambda>b. b = SLASH" ?r] p(2) by (simp add: skip_slashes_def)
      then show False using \<open>elements q = []\<close> \<open>q \<noteq> []\<close> by (cases q) (simp_all add: elements_def)
    qed
  qed (simp add: elements_def)
  then show "elements p = e # elements q \<and> (q = [] \<longleftrightarrow> elements q = [])"
    using e elements_skip p(2,3) by metis
qed

text \<open>Walking down from an inode along a list of names.\<close>

primrec walk :: "u8 list list \<Rightarrow> bool \<Rightarrow> u8 list \<Rightarrow> nat \<Rightarrow> (nat option \<times> u8 list) K" where
  "walk [] par name ip s = (if par then kbind (iput ip s) (\<lambda>s. Done ((None, name), s)) else Done ((Some ip, name), s))"
| "walk (e # es) par name ip s =
     kbind (ilock ip s) (\<lambda>s.
     if itype (inodes s ip) \<noteq> T_DIR then kbind (iunlockput ip s) (\<lambda>s. Done ((None, e), s))
     else if par \<and> es = [] then kbind (iunlock ip s) (\<lambda>s. Done ((Some ip, e), s))
     else
       kbind (dirlookup ip e s) (\<lambda>(r, s). case r of
         None \<Rightarrow> kbind (iunlockput ip s) (\<lambda>s. Done ((None, e), s))
       | Some (child, _) \<Rightarrow> kbind (iunlockput ip s) (\<lambda>s. walk es par e child s)))"

text \<open>
  C37. A path means the list of its names: the loop of namex, for namei as for nameiparent, walks down the parts of the path
  between the slashes, in order; repeated, leading and trailing slashes do not matter, longer names are cut to 14 bytes,
  and nameiparent stops exactly before the last name.
\<close>

theorem path_walks_elements: "namex_loop path par name ip s = walk (elements path) par name ip s"
proof (induction "length path" arbitrary: path name ip s rule: less_induct)
  case less
  show ?case
  proof (cases "skipelem path")
    case None
    then show ?thesis using skipelem_elements(1) [OF None] by (subst namex_loop.simps) simp
  next
    case (Some x)
    obtain q e where x: "x = (q, e)" by fastforce
    note E = skipelem_elements(2) [OF Some [unfolded x]]
    have "length q < length path" using skipelem_length Some x by simp
    then have IH: "namex_loop q par = walk (elements q) par" using less by (intro ext) blast
    have Q: "(q = []) = (elements q = [])" using E by blast
    show ?thesis unfolding namex_loop.simps [of path] Some x option.case prod.case IH conjunct1 [OF E] walk.simps Q ..
  qed
qed

end
