(* ===== verification/File_Props.thy ===== *)
theory File_Props
  imports File_Data Fs_Props
begin

text \<open>Correctness statements of file contents: a file is an array of bytes.\<close>

text \<open>A new, empty file, inode 5 of the sample disk, inside of a transaction.\<close>

definition new_file :: "kernel \<Rightarrow> kernel" where
  "new_file s = upd_inode 0 (\<lambda>x. x\<lparr>isize := 0, addrs := replicate 13 0\<rparr>) s"

lemma new_file0:
  "\<exists>s. file_inv s disk0 disk0 0 \<and> all_mapped disk0 (inodes s 0) \<and> dinode_ok (dinode_of (inodes s 0))
    \<and> block_ok s disk0 (inode_block s 0) \<and> inode_block s 0 \<notin> blocks disk0 (inodes s 0) \<and> itype (inodes s 0) \<noteq> T_DEV
    \<and> isize (inodes s 0) = 0 \<and> room (int (card (bitmaps s)) + int (card (touched 0 3)) + 7) s
    \<and> card (touched 0 3) + 2 < card (spare s disk0)"
proof -
  obtain r where r: "tx_rep r disk0 disk0 Map.empty" "room 20 r" "sb r = super0"
    "inodes r 0 = inode0\<lparr>idev := 1, inum := 5, iref := 1, I_BUSY := True, I_VALID := True, itype := 2, nlink := 1, isize := 700\<rparr>"
    "\<forall>n. 32 \<le> n \<and> n < 1000 \<longrightarrow> loggable r n" using in_tx0 by blast
  let ?s = "new_file r"
  have x: "inodes ?s 0 = inode0\<lparr>idev := 1, inum := 5, iref := 1, I_BUSY := True, I_VALID := True, itype := 2, nlink := 1, isize := 0, addrs := replicate 13 0\<rparr>"
    using r(4) by (simp add: new_file_def)
  have s: "sb ?s = super0" "room 20 ?s" "\<forall>n. 32 \<le> n \<and> n < 1000 \<longrightarrow> loggable ?s n" "sb_size super0 = 1000"
    using r(2,3,5) by (simp_all add: new_file_def super0_def)
  have slot: "slot_addr disk0 (inodes ?s 0) k = 0" if "k < 141" for k
    using that by (simp add: x slot_addr_def nth_replicate del: replicate.simps replicate_Suc)
  have fok: "file_ok ?s disk0 (inodes ?s 0)" using slot by (simp add: file_ok_def) (simp add: x)
  have "file_inv ?s disk0 disk0 0"
    using r(1) bitmap0 [OF s(1,3)] fok by (simp add: file_inv_def new_file_def)
  moreover have "all_mapped disk0 (inodes ?s 0)" by (simp add: all_mapped_def x)
  moreover have "dinode_ok (dinode_of (inodes ?s 0))" by (simp add: x dinode_ok_def dinode_of_def short_ok_def inode0_def NDIRECT_def)
  moreover have ib: "inode_block ?s 0 = 32" using s(1) by (simp add: inode_block_def x IBLOCK_def IPB_def super0_def)
  have "in_use disk0 super0 32" using used0 [of 32] by simp
  moreover have "BBLOCK m super0 = 58" if "m < 1000" for m by (rule block0 [OF that])
  ultimately have A: "file_inv ?s disk0 disk0 0" "all_mapped disk0 (inodes ?s 0)" "dinode_ok (dinode_of (inodes ?s 0))"
    "block_ok ?s disk0 (inode_block ?s 0)" using s ib by (simp_all add: block_ok_def)
  have "inode_block ?s 0 \<notin> blocks disk0 (inodes ?s 0)" unfolding ib blocks_def using slot by auto
  moreover have "bitmaps ?s \<subseteq> {58}" using block0 s(1,4) by (auto simp: bitmaps_def)
  then have "card (bitmaps ?s) \<le> 1" using card_mono [of "{58 :: u32}"] by fastforce
  moreover have t: "touched 0 3 = {0}" by (auto simp: touched_def)
  ultimately have B: "inode_block ?s 0 \<notin> blocks disk0 (inodes ?s 0)" "room (int (card (bitmaps ?s)) + int (card (touched 0 3)) + 7) ?s"
    using room_less [OF s(2)] by simp_all
  have "{59, 60, 61, 62} \<subseteq> spare ?s disk0" using used0 s(1,4) by (simp add: spare_def)
  then have "card {59, 60, 61, 62 :: u32} \<le> card (spare ?s disk0)" by (intro card_mono) simp_all
  then have C: "card (touched 0 3) + 2 < card (spare ?s disk0)" using t by simp
  have "itype (inodes ?s 0) \<noteq> T_DEV" "isize (inodes ?s 0) = 0" by (simp_all add: x T_DEV_def)
  then show ?thesis using A B C by blast
qed

text \<open>
  C10. Writing a file: with room in the log and enough free blocks, writei stores all its bytes at their place, extends the file
  to the end of what it wrote, leaves every other byte of the file, every block of other files, every other inode in memory and
  the other inodes of the same inode block on disk alone, writes the inode to disk when the file has grown, and what readi then reads from that place is what was written.
\<close>

theorem writei_stores_bytes:
  assumes "file_inv s d c ip" and "all_mapped c (inodes s ip)" and "dinode_ok (dinode_of (inodes s ip))"
    and "block_ok s c (inode_block s ip)" and "inode_block s ip \<notin> blocks c (inodes s ip)" and "itype (inodes s ip) \<noteq> T_DEV"
    and "pos \<le> isize (inodes s ip)" and "unat pos + unat n \<le> 71680" and "unat n \<le> length src"
    and "room (int (card (bitmaps s)) + int (card (touched (unat pos) (unat n))) + 7) s"
    and "card (touched (unat pos) (unat n)) + 2 < card (spare s c)"
  shows "\<exists>t u c'. writei ip src pos n s = Done (int (unat n), t) \<and> file_inv t d c' ip
    \<and> file_written s c ip src (unat pos) (unat n) t c' \<and> readi ip pos n t = Done ((int (unat n), take (unat n) src), u)"
proof -
  let ?p = "unat pos" and ?m = "unat n"
  obtain t c' where t: "writei ip src pos n s = Done (int ?m, t)" "file_inv t d c' ip" "file_written s c ip src ?p ?m t c'"
    using writei_rep [OF assms(1-10)] assms(11) by auto
  let ?y = "inodes t ip"
  have T: "tx_rep t d c' Map.empty" "file_ok t c' ?y" using t(2) by (simp_all add: file_inv_def)
  have y: "?y = (inodes s ip)\<lparr>addrs := addrs ?y, isize := isize ?y\<rparr>" "unat (isize ?y) = max (unat (isize (inodes s ip))) (?p + ?m)"
    "all_mapped c' ?y" using t(3) unfolding file_written_def by blast+
  have fb: "fbyte c' ?y r = src ! (r - ?p)" if "?p \<le> r" "r < ?p + ?m" for r
    using t(3) that assms(8) unfolding file_written_def by simp
  have "itype ?y \<noteq> T_DEV" using assms(6) by (subst y(1)) simp
  moreover have "pos \<le> isize ?y" using y(2) by (simp add: word_le_nat_alt)
  moreover have "?p + ?m < 2 ^ 32" using assms(8) by simp
  moreover have "min ?m (unat (isize ?y) - ?p) = ?m" using y(2) by (simp add: min_def)
  ultimately obtain u where u: "readi ip pos n t = Done ((int ?m, map (fbyte c' ?y) [?p..<?p + ?m]), u)"
    using readi_rep [OF T y(3)] by metis
  have "map (fbyte c' ?y) [?p..<?p + ?m] = take ?m src"
    using fb assms(9) by (intro nth_equalityI) simp_all
  then show ?thesis using t u by metis
qed

theorem writei_stores_bytes_witness:
  "\<exists>s t u. writei 0 [1, 2, 3] 0 3 s = Done (3, t) \<and> readi 0 0 3 t = Done ((3, [1, 2, 3]), u) \<and> isize (inodes s 0) = 0 \<and> isize (inodes t 0) = 3"
proof -
  obtain s where s: "file_inv s disk0 disk0 0" "all_mapped disk0 (inodes s 0)" "dinode_ok (dinode_of (inodes s 0))"
    "block_ok s disk0 (inode_block s 0)" "inode_block s 0 \<notin> blocks disk0 (inodes s 0)" "itype (inodes s 0) \<noteq> T_DEV"
    "isize (inodes s 0) = 0" "room (int (card (bitmaps s)) + int (card (touched 0 3)) + 7) s" "card (touched 0 3) + 2 < card (spare s disk0)"
    using new_file0 by blast
  obtain t u c' where t: "writei 0 [1, 2, 3] 0 3 s = Done (3, t)" "file_written s disk0 0 [1, 2, 3] 0 3 t c'"
    "readi 0 0 3 t = Done ((3, take 3 [1, 2, 3]), u)"
    using writei_stores_bytes [OF s(1-6), of 0 3 "[1, 2, 3]"] s(7-9) by auto
  have "unat (isize (inodes t 0)) = 3" using t(2) s(7) by (simp add: file_written_def)
  then have "isize (inodes t 0) = 3" by (simp add: word_unat_eq_iff)
  then show ?thesis using t s(7) by auto
qed

text \<open>
  C24. Reading a file: readi returns exactly the bytes of the file from the offset on, as many as asked for or as the file has left,
  across direct and indirect blocks, and changes neither the disk nor the cached contents nor any inode.
\<close>

theorem readi_returns_bytes:
  assumes "tx_rep s d c Map.empty" and "file_ok s c (inodes s ip)" and "all_mapped c (inodes s ip)" and "itype (inodes s ip) \<noteq> T_DEV"
    and "pos \<le> isize (inodes s ip)" and "unat pos + unat n < 2 ^ 32"
  shows "\<exists>t. readi ip pos n s = Done ((int (min (unat n) (unat (isize (inodes s ip)) - unat pos)),
      take (unat n) (drop (unat pos) (map (fbyte c (inodes s ip)) [0..<unat (isize (inodes s ip))]))), t)
    \<and> tx_rep t d c Map.empty \<and> frame s t"
proof -
  let ?z = "unat (isize (inodes s ip))" and ?p = "unat pos"
  have le: "?p \<le> ?z" using assms(5) by (simp add: word_le_nat_alt)
  have "take (unat n) (drop ?p (map f [0..<?z])) = map f [?p..<?p + min (unat n) (?z - ?p)]" for f :: "nat \<Rightarrow> u8"
    using le by (simp add: drop_map take_map drop_upt min_def)
  then show ?thesis using readi_rep [OF assms] by metis
qed

theorem readi_returns_bytes_witness: "\<exists>s t. readi 0 1 10 s = Done ((2, [8, 9]), t) \<and> isize (inodes s 0) = 3"
proof -
  obtain s where s: "file_inv s disk0 disk0 0" "all_mapped disk0 (inodes s 0)" "dinode_ok (dinode_of (inodes s 0))"
    "block_ok s disk0 (inode_block s 0)" "inode_block s 0 \<notin> blocks disk0 (inodes s 0)" "itype (inodes s 0) \<noteq> T_DEV"
    "isize (inodes s 0) = 0" "room (int (card (bitmaps s)) + int (card (touched 0 3)) + 7) s" "card (touched 0 3) + 2 < card (spare s disk0)"
    using new_file0 by blast
  obtain t c' where t: "file_inv t disk0 c' 0" "file_written s disk0 0 [7, 8, 9] 0 3 t c'"
    using writei_rep [OF s(1-6), of 0 3 "[7, 8, 9]"] s(7-9) by auto
  let ?y = "inodes t 0"
  have y: "?y = (inodes s 0)\<lparr>addrs := addrs ?y, isize := isize ?y\<rparr>" "unat (isize ?y) = 3" "all_mapped c' ?y"
    using t(2) s(7) unfolding file_written_def by (blast, simp, blast)
  have fb: "fbyte c' ?y 0 = 7" "fbyte c' ?y 1 = 8" "fbyte c' ?y 2 = 9" using t(2) by (simp_all add: file_written_def)
  have m: "map (fbyte c' ?y) [0..<3] = [7, 8, 9]" using fb by (simp add: upt_rec numeral_2_eq_2)
  have "itype ?y \<noteq> T_DEV" using s(6) by (subst y(1)) simp
  moreover have "tx_rep t disk0 c' Map.empty" "file_ok t c' ?y" using t(1) by (simp_all add: file_inv_def)
  moreover have "(1 :: u32) \<le> isize ?y" using y(2) by (simp add: word_le_nat_alt)
  ultimately obtain u where "readi 0 1 10 t = Done ((int (min 10 (3 - 1)), take 10 (drop 1 (map (fbyte c' ?y) [0..<3]))), u)"
    using readi_returns_bytes [of t disk0 c' 0 1 10] y(2,3) by auto
  then have "readi 0 1 10 t = Done ((2, [8, 9]), u)" unfolding m by simp
  moreover have "isize ?y = 3" using y(2) by (simp add: word_unat_eq_iff)
  ultimately show ?thesis by blast
qed

end
