(* ===== verification/Grep.thy ===== *)
theory Grep
  imports Prelude
begin

text \<open>
  The str tools of user space: \<open>grep\<close> with its pattern matcher (grep.c) and \<open>wc\<close> (wc.c). A C string is the list of
  its bytes before the final NUL. A file descriptor is the list of pieces in which its bytes arrive: a read takes at
  most as many bytes as it asks for from the first piece, and an empty result is the end of the file.
\<close>

section \<open>The matcher\<close>

abbreviation (input) chr8 :: "char \<Rightarrow> u8" where "chr8 c \<equiv> of_char c"

text \<open>The do-while loop of \<open>matchstar\<close> is its own recursion.\<close>

function (sequential) matchhere :: "u8 list \<Rightarrow> u8 list \<Rightarrow> bool"
  and matchstar :: "u8 \<Rightarrow> u8 list \<Rightarrow> u8 list \<Rightarrow> bool" where
  "matchhere [] str = True"
| "matchhere (c # re) str =
     (if re \<noteq> [] \<and> hd re = chr8 CHR ''*'' then matchstar c (tl re) str
      else if c = chr8 CHR ''$'' \<and> re = [] then str = []
      else if str \<noteq> [] \<and> (c = chr8 CHR ''.'' \<or> c = hd str) then matchhere re (tl str)
      else False)"
| "matchstar c re str =
     (if matchhere re str then True
      else if str \<noteq> [] \<and> (hd str = c \<or> c = chr8 CHR ''.'') then matchstar c re (tl str)
      else False)"
  by pat_completeness auto
termination
  by (relation "measures [case_sum (\<lambda>(re, str). length re) (\<lambda>(c, re, str). length re),
      case_sum (\<lambda>_. 0) (\<lambda>_. 1), case_sum (\<lambda>_. 0) (\<lambda>(c, re, str). length str)]") auto

fun match_loop :: "u8 list \<Rightarrow> u8 list \<Rightarrow> bool" where
  "match_loop re str =
     (if matchhere re str then True
      else case str of [] \<Rightarrow> False | _ # str \<Rightarrow> match_loop re str)"

declare matchstar.simps [simp del] match_loop.simps [simp del]

definition match :: "u8 list \<Rightarrow> u8 list \<Rightarrow> bool" where
  "match re str = (if re \<noteq> [] \<and> hd re = chr8 CHR ''^'' then matchhere (tl re) str else match_loop re str)"

section \<open>Reading\<close>

definition read_fd :: "nat \<Rightarrow> u8 list list \<Rightarrow> u8 list \<times> u8 list list" where
  "read_fd k cs = (case cs of [] \<Rightarrow> ([], [])
     | c # cs \<Rightarrow> if length c \<le> k then (c, cs) else (take k c, drop k c # cs))"

fun strchr :: "u8 \<Rightarrow> u8 list \<Rightarrow> nat option" where
  "strchr c [] = None"
| "strchr c (x # xs) = (if x = 0 then None else if x = c then Some 0 else map_option Suc (strchr c xs))"

lemma read_fd_less: "read_fd k cs = (xs, ds) \<Longrightarrow> xs \<noteq> [] \<Longrightarrow> sum_list (map length ds) < sum_list (map length cs)"
  by (auto simp: read_fd_def split: list.splits if_splits)

lemma strchr_less: "strchr c xs = Some i \<Longrightarrow> i < length xs"
  by (induction c xs arbitrary: i rule: strchr.induct) (auto split: if_splits)

section \<open>grep\<close>

text \<open>The inner loop: the lines of the buffer from \<open>p\<close> on; it leaves the bytes behind the last newline.\<close>

function grep_lines :: "u8 list \<Rightarrow> u8 list \<Rightarrow> u8 list \<times> u8 list" where
  "grep_lines re xs = (case strchr 10 xs of None \<Rightarrow> ([], xs)
     | Some i \<Rightarrow> let (ys, r) = grep_lines re (drop (i + 1) xs)
                 in ((if match re (take i xs) then take (i + 1) xs else []) @ ys, r))"
  by auto
termination by (relation "measure (\<lambda>(re, xs). length xs)") (auto dest: strchr_less)

declare grep_lines.simps [simp del]

text \<open>The outer loop; \<open>xs\<close> are the \<open>m\<close> bytes kept in \<open>buf\<close>, the result is what is written to standard output.\<close>

function grep :: "u8 list \<Rightarrow> u8 list \<Rightarrow> u8 list list \<Rightarrow> u8 list" where
  "grep re xs cs =
     (case read_fd (1024 - length xs - 1) cs of (got, cs) \<Rightarrow>
      if got = [] then []
      else case grep_lines re (xs @ got) of (ys, r) \<Rightarrow>
        ys @ grep re (if length r = length (xs @ got) then [] else r) cs)"
  by auto
termination by (relation "measure (\<lambda>(re, xs, cs). sum_list (map length cs))") (auto dest: read_fd_less [OF sym])

declare grep.simps [simp del]

section \<open>wc\<close>

record wcount =
  wc_l :: int
  wc_w :: int
  wc_c :: int
  inword :: bool

definition wc_space :: "u8 list" where "wc_space = [32, 13, 9, 10, 11]"

definition wc_byte :: "u8 \<Rightarrow> wcount \<Rightarrow> wcount" where
  "wc_byte b s =
     (let s = s\<lparr>wc_c := wc_c s + 1\<rparr>;
          s = (if b = 10 then s\<lparr>wc_l := wc_l s + 1\<rparr> else s)
      in if strchr b wc_space \<noteq> None then s\<lparr>inword := False\<rparr>
         else if \<not> inword s then s\<lparr>wc_w := wc_w s + 1, inword := True\<rparr> else s)"

function wc_loop :: "u8 list list \<Rightarrow> wcount \<Rightarrow> wcount" where
  "wc_loop cs s = (case read_fd 512 cs of (got, cs) \<Rightarrow> if got = [] then s else wc_loop cs (fold wc_byte got s))"
  by auto
termination by (relation "measure (\<lambda>(cs, s). sum_list (map length cs))") (auto dest: read_fd_less [OF sym])

declare wc_loop.simps [simp del]

definition wc :: "u8 list list \<Rightarrow> int \<times> int \<times> int" where
  "wc cs = (let s = wc_loop cs \<lparr>wc_l = 0, wc_w = 0, wc_c = 0, inword = False\<rparr> in (wc_l s, wc_w s, wc_c s))"

section \<open>What a pattern means\<close>

datatype atom = One u8 | Many u8 | Eol

fun parse_re :: "u8 list \<Rightarrow> atom list" where
  "parse_re [] = []"
| "parse_re (c # re) =
     (if re \<noteq> [] \<and> hd re = chr8 CHR ''*'' then Many c # parse_re (tl re)
      else if c = chr8 CHR ''$'' \<and> re = [] then [Eol] else One c # parse_re re)"

definition fits :: "u8 \<Rightarrow> u8 \<Rightarrow> bool" where "fits c x \<longleftrightarrow> c = chr8 CHR ''.'' \<or> c = x"

text \<open>\<open>re_match as w r\<close>: the atoms describe the bytes \<open>w\<close> in front of the rest \<open>r\<close>.\<close>

primrec re_match :: "atom list \<Rightarrow> u8 list \<Rightarrow> u8 list \<Rightarrow> bool" where
  "re_match [] w r = (w = [])"
| "re_match (a # as) w r = (case a of
     One c \<Rightarrow> \<exists>x v. w = x # v \<and> fits c x \<and> re_match as v r
   | Many c \<Rightarrow> \<exists>u v. w = u @ v \<and> list_all (fits c) u \<and> re_match as v r
   | Eol \<Rightarrow> w = [] \<and> r = [] \<and> re_match as [] [])"

lemma matchhere_spec:
  "matchhere re str \<longleftrightarrow> (\<exists>w r. str = w @ r \<and> re_match (parse_re re) w r)"
  "matchstar c re str \<longleftrightarrow> (\<exists>u w r. str = u @ w @ r \<and> list_all (fits c) u \<and> re_match (parse_re re) w r)"
proof (induction re str and c re str rule: matchhere_matchstar.induct)
  case (2 c re str)
  show ?case
  proof (cases "re \<noteq> [] \<and> hd re = chr8 CHR ''*''")
    case True
    then show ?thesis using "2.IH"(1) by (simp del: list_all_iff) (metis append.assoc)
  next
    case False
    show ?thesis
    proof (cases "c = chr8 CHR ''$'' \<and> re = []")
      case True
      then show ?thesis by simp
    next
      case nd: False
      show ?thesis
      proof (cases "str \<noteq> [] \<and> fits c (hd str)")
        case True
        then obtain x ts where x: "str = x # ts" by (cases str) auto
        have "matchhere (c # re) str = matchhere re ts" using False nd True x by (auto simp: fits_def)
        also have "\<dots> \<longleftrightarrow> (\<exists>w r. ts = w @ r \<and> re_match (parse_re re) w r)" using "2.IH"(2) False nd True x by (auto simp: fits_def)
        also have "\<dots> \<longleftrightarrow> (\<exists>w r. str = w @ r \<and> re_match (One c # parse_re re) w r)" using True x by (auto simp: Cons_eq_append_conv)
        finally show ?thesis using False nd by auto
      next
        case nt: False
        then have "\<not> matchhere (c # re) str" using False nd by (auto simp: fits_def)
        moreover have "\<not> (\<exists>w r. str = w @ r \<and> re_match (One c # parse_re re) w r)" using nt by auto
        ultimately show ?thesis using False nd by auto
      qed
    qed
  qed
next
  case (3 c re str)
  let ?R = "\<lambda>t. \<exists>w r. t = w @ r \<and> re_match (parse_re re) w r"
  let ?S = "\<lambda>t. \<exists>u w r. t = u @ w @ r \<and> list_all (fits c) u \<and> re_match (parse_re re) w r"
  have S: "?S t \<longleftrightarrow> ?R t \<or> (\<exists>x ts. t = x # ts \<and> fits c x \<and> ?S ts)" for t
  proof
    assume "?S t"
    then obtain u w r where u: "t = u @ w @ r" "list_all (fits c) u" "re_match (parse_re re) w r" by blast
    then show "?R t \<or> (\<exists>x ts. t = x # ts \<and> fits c x \<and> ?S ts)" by (cases u) auto
  next
    assume a: "?R t \<or> (\<exists>x ts. t = x # ts \<and> fits c x \<and> ?S ts)"
    then show "?S t"
    proof
      assume "?R t"
      then show "?S t" by (metis append_Nil list.pred_inject(1))
    next
      assume "\<exists>x ts. t = x # ts \<and> fits c x \<and> ?S ts"
      then obtain x u w r where "t = (x # u) @ w @ r" "list_all (fits c) (x # u)" "re_match (parse_re re) w r" by auto
      then show "?S t" by blast
    qed
  qed
  have R: "matchhere re str = ?R str" using "3.IH"(1) .
  show ?case
  proof (cases "?R str")
    case True
    then have "matchstar c re str" using R by (subst matchstar.simps) simp
    then show ?thesis using True S [of str] by blast
  next
    case False
    show ?thesis
    proof (cases "str \<noteq> [] \<and> fits c (hd str)")
      case True
      then obtain x ts where x: "str = x # ts" "fits c x" by (cases str) auto
      have nr: "\<not> matchhere re str" using False R by blast
      have cond: "str \<noteq> [] \<and> (hd str = c \<or> c = chr8 CHR ''.'')" and tl: "tl str = ts" using x by (auto simp: fits_def)
      have "matchstar c re str = matchstar c re ts" using nr cond tl by (subst matchstar.simps) (simp only: if_False if_True not_False_eq_True simp_thms)
      moreover have "matchstar c re ts = ?S ts" using "3.IH"(2) [OF nr cond] unfolding tl .
      ultimately show ?thesis using S [of str] False x by auto
    next
      case nt: False
      then have "\<not> matchstar c re str" using False R by (subst matchstar.simps) (auto simp: fits_def)
      then show ?thesis using S [of str] False nt by auto
    qed
  qed
qed simp

lemma match_loop_spec: "match_loop re str \<longleftrightarrow> (\<exists>p t. str = p @ t \<and> matchhere re t)"
proof (induction str)
  case Nil
  then show ?case by (subst match_loop.simps) auto
next
  case (Cons x str)
  then show ?case by (subst match_loop.simps) (auto simp: Cons_eq_append_conv)
qed

section \<open>The lines of a file\<close>

lemma newline_less: "10 \<in> set xs \<Longrightarrow> length (dropWhile (\<lambda>x. x \<noteq> 10) xs) - Suc 0 < length xs"
  by (induction xs) auto

function lines :: "u8 list \<Rightarrow> u8 list list" where
  "lines xs = (if 10 \<in> set xs then takeWhile (\<lambda>x. x \<noteq> 10) xs # lines (tl (dropWhile (\<lambda>x. x \<noteq> 10) xs)) else [])"
  by auto
termination
  by (relation "measure length") (auto intro: newline_less)

function tail_part :: "u8 list \<Rightarrow> u8 list" where
  "tail_part xs = (if 10 \<in> set xs then tail_part (tl (dropWhile (\<lambda>x. x \<noteq> 10) xs)) else xs)"
  by auto
termination
  by (relation "measure length") (auto intro: newline_less)

declare lines.simps [simp del] tail_part.simps [simp del]

definition selected :: "u8 list \<Rightarrow> u8 list \<Rightarrow> u8 list" where
  "selected re xs = concat (map (\<lambda>l. l @ [10]) (filter (match re) (lines xs)))"

lemma lines_none: "10 \<notin> set xs \<Longrightarrow> lines xs = [] \<and> tail_part xs = xs \<and> selected re xs = []"
  by (simp add: lines.simps tail_part.simps selected_def)

lemma lines_line: "10 \<notin> set l \<Longrightarrow> lines (l @ 10 # xs) = l # lines xs \<and> tail_part (l @ 10 # xs) = tail_part xs
    \<and> selected re (l @ 10 # xs) = (if match re l then l @ [10] else []) @ selected re xs"
  by (subst lines.simps, subst tail_part.simps) (auto simp: takeWhile_append dropWhile_append selected_def lines.simps [of "l @ 10 # xs"])

text \<open>Every list is a line, a newline and the rest, or has no newline.\<close>

lemma line_cases:
  obtains "10 \<notin> set xs" | l ys where "xs = l @ 10 # ys" "10 \<notin> set (l :: u8 list)"
proof (cases "10 \<in> set xs")
  case True
  then obtain l ys where "xs = l @ 10 # ys" "10 \<notin> set l" by (metis split_list_first)
  then show thesis by (rule that(2))
qed (rule that(1))

lemma lines_append: "lines (xs @ ys) = lines xs @ lines (tail_part xs @ ys) \<and> tail_part (xs @ ys) = tail_part (tail_part xs @ ys)"
proof (induction "length xs" arbitrary: xs rule: less_induct)
  case less
  show ?case
  proof (cases xs rule: line_cases)
    case 1
    then show ?thesis using lines_none by simp
  next
    case (2 l zs)
    then show ?thesis using less lines_line [of l zs] lines_line [of l "zs @ ys"] by simp
  qed
qed

lemma selected_append: "selected re (xs @ ys) = selected re xs @ selected re (tail_part xs @ ys)"
  using lines_append [of xs ys] by (simp add: selected_def)

lemma tail_part_facts: "10 \<notin> set (tail_part xs) \<and> (10 \<in> set xs \<longrightarrow> length (tail_part xs) < length xs)"
proof (induction "length xs" arbitrary: xs rule: less_induct)
  case less
  show ?case
  proof (cases xs rule: line_cases)
    case 1
    then show ?thesis using lines_none by simp
  next
    case (2 l zs)
    then show ?thesis using less [of zs] lines_line [of l zs] lines_none [of zs] by (cases "10 \<in> set zs") auto
  qed
qed

lemma tail_part_set: "set (tail_part xs) \<subseteq> set xs"
proof (induction "length xs" arbitrary: xs rule: less_induct)
  case less
  show ?case
  proof (cases xs rule: line_cases)
    case 1
    then show ?thesis using lines_none by simp
  next
    case (2 l zs)
    then show ?thesis using less [of zs] lines_line [of l zs] by auto
  qed
qed

lemma strchr_newline: "0 \<notin> set l \<Longrightarrow> c \<notin> set l \<Longrightarrow> c \<noteq> 0 \<Longrightarrow> strchr c (l @ c # ys) = Some (length l) \<and> strchr c l = None"
  by (induction l) auto

lemma grep_lines_spec: "0 \<notin> set xs \<Longrightarrow> grep_lines re xs = (selected re xs, tail_part xs)"
proof (induction "length xs" arbitrary: xs rule: less_induct)
  case less
  show ?case
  proof (cases xs rule: line_cases)
    case 1
    then show ?thesis using lines_none less.prems strchr_newline [of xs 10] by (subst grep_lines.simps) simp
  next
    case (2 l zs)
    have "grep_lines re zs = (selected re zs, tail_part zs)" using 2 less by simp
    moreover have "strchr 10 xs = Some (length l)" using 2 less.prems strchr_newline [of l 10 zs] by simp
    ultimately show ?thesis using 2 lines_line [of l zs] by (subst grep_lines.simps) simp
  qed
qed

text \<open>
  On a file, where a read returns all it was asked for unless the end comes first, grep prints the matching lines,
  provided that no line is longer than the buffer.
\<close>

definition short_lines :: "u8 list \<Rightarrow> bool" where
  "short_lines xs \<longleftrightarrow> (\<forall>l\<in>set (lines xs). length l \<le> 1022) \<and> length (tail_part xs) \<le> 1022"

lemma short_lines_append: "short_lines (xs @ ys) \<Longrightarrow> short_lines (tail_part xs @ ys)"
  using lines_append [of xs ys] by (simp add: short_lines_def)

lemma short_first:
  assumes "short_lines (xs @ ys)" and "10 \<notin> set xs" shows "length xs \<le> 1022"
proof (cases ys rule: line_cases)
  case 1
  then show ?thesis using assms lines_none [of "xs @ ys"] by (simp add: short_lines_def)
next
  case (2 l zs)
  then show ?thesis using assms lines_line [of "xs @ l" zs] by (simp add: short_lines_def)
qed

lemma grep_file_aux:
  "0 \<notin> set (xs @ c) \<Longrightarrow> 10 \<notin> set xs \<Longrightarrow> short_lines (xs @ c) \<Longrightarrow> grep re xs [c] = selected re (xs @ c)"
proof (induction "length c" arbitrary: xs c rule: less_induct)
  case less
  let ?k = "1024 - length xs - 1"
  let ?got = "take ?k c" and ?rest = "drop ?k c"
  have xs: "length xs \<le> 1022" using short_first less.prems(2,3) by blast
  have rd: "read_fd ?k [c] = (?got, if length c \<le> ?k then [] else [?rest])" by (simp add: read_fd_def)
  show ?case
  proof (cases "c = []")
    case True
    then show ?thesis using less.prems lines_none [of xs] by (subst grep.simps) (simp add: read_fd_def)
  next
    case False
    then have got: "?got \<noteq> []" using xs by auto
    let ?b = "xs @ ?got"
    have z: "0 \<notin> set ?b" "0 \<notin> set (tail_part ?b)" "0 \<notin> set ?rest"
    proof -
      show "0 \<notin> set ?b" "0 \<notin> set ?rest" using less.prems(1) set_take_subset [of ?k c] set_drop_subset [of ?k c] by auto
      then show "0 \<notin> set (tail_part ?b)" using tail_part_set by blast
    qed
    have sp: "xs @ c = ?b @ ?rest" by simp
    have r: "grep re xs [c] = selected re ?b @ grep re (if length (tail_part ?b) = length ?b then [] else tail_part ?b) (if length c \<le> ?k then [] else [?rest])"
      using got rd grep_lines_spec [OF z(1), of re] by (subst grep.simps) simp
    show ?thesis
    proof (cases "length c \<le> ?k")
      case True
      then have "grep re ys [] = []" for ys by (subst grep.simps) (simp add: read_fd_def)
      then show ?thesis using r True by simp
    next
      case big: False
      then have "length ?b = 1023" using xs by simp
      moreover have "short_lines (?b @ ?rest)" using less.prems(3) unfolding sp .
      ultimately have "10 \<in> set ?b" using short_first [of ?b ?rest] by linarith
      then have "grep re xs [c] = selected re ?b @ grep re (tail_part ?b) [?rest]"
        using r big tail_part_facts [of ?b] by simp
      also have "grep re (tail_part ?b) [?rest] = selected re (tail_part ?b @ ?rest)"
      proof (rule less.hyps)
        have "0 < ?k" "0 < length c" using xs False by simp_all
        then show "length ?rest < length c" by (simp only: length_drop)
        show "0 \<notin> set (tail_part ?b @ ?rest)" using z by simp
        show "10 \<notin> set (tail_part ?b)" using tail_part_facts by blast
        show "short_lines (tail_part ?b @ ?rest)" by (rule short_lines_append) (use less.prems(3) in \<open>simp only: sp\<close>)
      qed
      finally show ?thesis unfolding sp selected_append [of re ?b ?rest] .
    qed
  qed
qed

text \<open>
  A line that arrives in two pieces loses the first one: without a newline in the buffer the loop starts over with an
  empty buffer.
\<close>

lemma grep_loses_split_lines: "grep [97] [] [[97, 98], [99, 10]] = []" "grep [97] [] [[97, 98, 99, 10]] = [97, 98, 99, 10]"
proof -
  have s: "strchr 10 ([97, 98] :: u8 list) = None" "strchr 10 ([99, 10] :: u8 list) = Some 1" "strchr 10 ([97, 98, 99, 10] :: u8 list) = Some 3" by simp_all
  have m: "\<not> match [97] [99]" "match [97] [97, 98, 99]" by (simp_all add: match_def match_loop.simps)
  have g: "grep_lines [97] [97, 98] = ([], [97, 98])" "grep_lines [97] [99, 10] = ([], [])"
    "grep_lines [97] [97, 98, 99, 10] = ([97, 98, 99, 10], [])"
    using s m by (simp_all add: grep_lines.simps numeral_3_eq_3)
  show "grep [97] [] [[97, 98], [99, 10]] = []" "grep [97] [] [[97, 98, 99, 10]] = [97, 98, 99, 10]"
    using g by (simp_all add: grep.simps read_fd_def)
qed

section \<open>Counting\<close>

lemma wc_loop_concat: "[] \<notin> set cs \<Longrightarrow> wc_loop cs s = fold wc_byte (concat cs) s"
proof (induction cs s rule: wc_loop.induct)
  case (1 cs s)
  show ?case
  proof (cases cs)
    case (Cons c ds)
    then have c: "c \<noteq> []" using 1 by auto
    show ?thesis
    proof (cases "length c \<le> 512")
      case True
      then have rd: "read_fd 512 cs = (c, ds)" using Cons by (simp add: read_fd_def)
      then show ?thesis using 1 Cons c by (subst wc_loop.simps) simp
    next
      case False
      then have rd: "read_fd 512 cs = (take 512 c, drop 512 c # ds)" using Cons by (simp add: read_fd_def)
      moreover have "take 512 c \<noteq> []" "drop 512 c \<noteq> []" using False c by auto
      moreover have "fold wc_byte (drop 512 c) (fold wc_byte (take 512 c) s) = fold wc_byte c s"
        by (metis append_take_drop_id fold_append comp_apply)
      ultimately show ?thesis using 1 Cons by (subst wc_loop.simps) auto
    qed
  qed (subst wc_loop.simps, simp add: read_fd_def)
qed

end
