(* ===== verification/Shell.thy ===== *)
theory Shell
  imports Prelude
begin

text \<open>
  The command parser of the shell (sh.c). A pointer into the command line is the rest of the line, the NUL at its end is the
  end of the list. \<open>gettoken\<close> returns its token character, the text of the token and the rest; the pairs of pointers that
  \<open>nulterminate\<close> turns into C strings are the words themselves. A panic ends the parse with its message.
\<close>

section \<open>Tokens\<close>

definition whitespace :: string where "whitespace = [CHR '' '', CHR 0x09, CHR 0x0D, CHR 0x0A, CHR 0x0B]"
definition symbols :: string where "symbols = ''<|>&;()''"
definition NUL :: char where "NUL = CHR 0x00"

definition skip_ws :: "string \<Rightarrow> string" where
  "skip_ws s = dropWhile (\<lambda>c. c \<in> set whitespace) s"

definition word_char :: "char \<Rightarrow> bool" where
  "word_char c \<longleftrightarrow> c \<notin> set whitespace \<and> c \<notin> set symbols"

definition gettoken :: "string \<Rightarrow> char \<times> string \<times> string" where
  "gettoken s =
     (let s = skip_ws s in
      case s of
        [] \<Rightarrow> (NUL, [], [])
      | c # t \<Rightarrow>
          if c \<in> set ''|();&<'' then (c, [c], skip_ws t)
          else if c = CHR ''>'' then
            (if t \<noteq> [] \<and> hd t = CHR ''>'' then (CHR ''+'', [c, hd t], skip_ws (tl t)) else (c, [c], skip_ws t))
          else (CHR ''a'', takeWhile word_char s, skip_ws (dropWhile word_char s)))"

definition peek :: "string \<Rightarrow> string \<Rightarrow> string \<times> bool" where
  "peek s toks = (let s = skip_ws s in (s, s \<noteq> [] \<and> hd s \<in> set toks))"

section \<open>Commands\<close>

definition O_RDONLY :: int where "O_RDONLY = 0"
definition O_WRONLY_CREATE :: int where "O_WRONLY_CREATE = 0x201"
definition MAXARGS :: nat where "MAXARGS = 10"

datatype cmd = EXEC "string list" | REDIR cmd string int int | PIPE cmd cmd | LIST cmd cmd | BACK cmd

datatype 'a parse = Ok 'a | Syntax string | NoFuel

fun pbind :: "'a parse \<Rightarrow> ('a \<Rightarrow> 'b parse) \<Rightarrow> 'b parse" where
  "pbind (Ok x) f = f x"
| "pbind (Syntax m) f = Syntax m"
| "pbind NoFuel f = NoFuel"

lemma pbind_cong [fundef_cong]: "x = y \<Longrightarrow> (\<And>z. y = Ok z \<Longrightarrow> f z = g z) \<Longrightarrow> pbind x f = pbind y g"
  by (cases y) auto

lemma pbind_Ok: "pbind x f = Ok y \<longleftrightarrow> (\<exists>z. x = Ok z \<and> f z = Ok y)"
  by (cases x) auto

lemma skip_ws_length: "length (skip_ws s) \<le> length s"
  by (simp add: skip_ws_def length_dropWhile_le)

lemma skip_ws_idem [simp]: "skip_ws (skip_ws s) = skip_ws s"
  by (simp add: skip_ws_def)

lemma gettoken_length: "gettoken s = (t, w, r) \<Longrightarrow> skip_ws s \<noteq> [] \<Longrightarrow> length r < length s"
proof -
  assume g: "gettoken s = (t, w, r)" and ne: "skip_ws s \<noteq> []"
  then obtain c u where c: "skip_ws s = c # u" by (cases "skip_ws s") auto
  have "c \<notin> set whitespace" using hd_dropWhile [of "\<lambda>c. c \<in> set whitespace" s] c by (metis skip_ws_def list.sel(1) list.distinct(1))
  have "length r \<le> length u"
  proof (cases "c \<in> set symbols")
    case True
    have "length (skip_ws (tl u)) \<le> length u" using skip_ws_length [of "tl u"] by (simp add: le_diff_conv)
    then show ?thesis using g c skip_ws_length [of u] True
      by (auto simp: gettoken_def Let_def symbols_def split: if_splits)
  next
    case False
    then have "word_char c" "c \<notin> set ''|();&<''" "c \<noteq> CHR ''>''" using \<open>c \<notin> set whitespace\<close> by (auto simp: word_char_def symbols_def)
    then have "r = skip_ws (dropWhile word_char u)" using g c by (auto simp: gettoken_def Let_def)
    then show ?thesis using skip_ws_length [of "dropWhile word_char u"] length_dropWhile_le [of word_char u] by simp
  qed
  moreover have "length (c # u) \<le> length s" using skip_ws_length [of s] c by simp
  ultimately show "length r < length s" by simp
qed

lemma gettoken_le: "gettoken s = (t, w, r) \<Longrightarrow> length r \<le> length s"
  using gettoken_length [of s t w r] by (cases "skip_ws s = []") (auto simp: gettoken_def Let_def)

lemma peek_some: "peek s ts = (r, True) \<Longrightarrow> r = skip_ws s \<and> r \<noteq> [] \<and> hd r \<in> set ts"
  "peek s ts = (r, b) \<Longrightarrow> r = skip_ws s \<and> length r \<le> length s"
  using skip_ws_length [of s] by (auto simp: peek_def Let_def)

lemma peek_token: "peek s ts = (r, True) \<Longrightarrow> gettoken r = (t, w, u) \<Longrightarrow> length u < length s"
  using peek_some [of s ts r] gettoken_length [of r t w u] by fastforce

lemma redirs_less: "(r, True) = peek s ts \<Longrightarrow> (t, w, u) = gettoken r \<Longrightarrow> (t2, q, v) = gettoken u \<Longrightarrow> length v < length s"
  using peek_token [of s ts r t w u] gettoken_le [of u t2 q v] by simp

lemma word_less: "(r, b) = peek s ts \<Longrightarrow> (t, w, u) = gettoken r \<Longrightarrow> t \<noteq> NUL \<Longrightarrow> length u < length s"
proof -
  assume p: "(r, b) = peek s ts" and g: "(t, w, u) = gettoken r" and t: "t \<noteq> NUL"
  have "r = skip_ws s" using peek_some(2) [of s ts r b] p by simp
  moreover have "skip_ws r \<noteq> []" using g t by (auto simp: gettoken_def Let_def)
  ultimately show ?thesis using gettoken_length [of r t w u] g skip_ws_length [of s] by simp
qed

section \<open>The parser\<close>

text \<open>The redirections \<open>parseredirs\<close> finds: file, mode, descriptor.\<close>

function parseredirs :: "string \<Rightarrow> ((string \<times> int \<times> int) list \<times> string) parse" where
  "parseredirs s =
     (case peek s ''<>'' of (s, p) \<Rightarrow>
      if \<not> p then Ok ([], s)
      else case gettoken s of (tok, _, s1) \<Rightarrow>
        case gettoken s1 of (tok2, q, s2) \<Rightarrow>
        if tok2 \<noteq> CHR ''a'' then Syntax ''missing file for redirection''
        else pbind (parseredirs s2) (\<lambda>(rs, s).
          Ok ((if tok = CHR ''<'' then (q, O_RDONLY, 0) else (q, O_WRONLY_CREATE, 1)) # rs, s)))"
  by auto
termination by (relation "measure length") (auto intro: redirs_less)

declare parseredirs.simps [simp del]

fun redirect :: "(string \<times> int \<times> int) list \<Rightarrow> cmd \<Rightarrow> cmd" where
  "redirect [] c = c"
| "redirect ((f, m, d) # rs) c = redirect rs (REDIR c f m d)"

lemma parseredirs_le: "parseredirs s = Ok (rs, r) \<Longrightarrow> length r \<le> length s"
proof (induction s arbitrary: rs r rule: parseredirs.induct)
  case (1 s)
  obtain s0 p where p: "peek s ''<>'' = (s0, p)" by fastforce
  show ?case
  proof (cases p)
    case False
    then show ?thesis using "1.prems" p skip_ws_length [of s] peek_some(2) [OF p] by (subst (asm) parseredirs.simps) auto
  next
    case True
    obtain tok w s1 where g: "gettoken s0 = (tok, w, s1)" using prod_cases3 by blast
    obtain tok2 q s2 where g2: "gettoken s1 = (tok2, q, s2)" using prod_cases3 by blast
    have "tok2 = CHR ''a''" and "\<exists>rs'. parseredirs s2 = Ok (rs', r)"
      using "1.prems" p True g g2 by (subst (asm) parseredirs.simps, auto simp: pbind_Ok split: if_splits)+
    then have "length r \<le> length s2" using "1.IH" [OF p [symmetric] _ g [symmetric] refl g2 [symmetric] refl] True by auto
    then show ?thesis using redirs_less [of s0 s "''<>''" tok w s1 tok2 q s2] p True g g2 by simp
  qed
qed

text \<open>The loop of \<open>parseexec\<close>: it adds words to \<open>argv\<close> and redirections around the command.\<close>

function parseargs :: "string list \<Rightarrow> (string \<times> int \<times> int) list \<Rightarrow> string \<Rightarrow> (cmd \<times> string) parse" where
  "parseargs args rs s =
     (case peek s ''|)&;'' of (s, p) \<Rightarrow>
      if p then Ok (redirect rs (EXEC args), s)
      else case gettoken s of (tok, q, s1) \<Rightarrow>
        if tok = NUL then Ok (redirect rs (EXEC args), s1)
        else if tok \<noteq> CHR ''a'' then Syntax ''syntax''
        else if length args + 1 \<ge> MAXARGS then Syntax ''too many args''
        else pbind (parseredirs s1) (\<lambda>(rs1, s). parseargs (args @ [q]) (rs @ rs1) s))"
  by auto
termination
  by (relation "measure (\<lambda>(args, rs, s). length s)") (auto dest!: parseredirs_le word_less)

declare parseargs.simps [simp del]

text \<open>
  The recursive descent. Every call passes on one unit of fuel less than it has; a proof below shows that the amount that
  \<open>parsecmd\<close> starts with is always enough. A loop of \<open>parseline\<close> collects the ampersands.
\<close>

function back_loop :: "cmd \<Rightarrow> string \<Rightarrow> cmd \<times> string" where
  "back_loop c s =
     (case peek s ''&'' of (s, p) \<Rightarrow> if p then case gettoken s of (_, _, s) \<Rightarrow> back_loop (BACK c) s else (c, s))"
  by auto
termination by (relation "measure (\<lambda>(c, s). length s)") (auto intro: peek_token [OF sym sym])

declare back_loop.simps [simp del]

fun parseline :: "nat \<Rightarrow> string \<Rightarrow> (cmd \<times> string) parse"
  and parsepipe :: "nat \<Rightarrow> string \<Rightarrow> (cmd \<times> string) parse"
  and parseexec :: "nat \<Rightarrow> string \<Rightarrow> (cmd \<times> string) parse"
  and parseblock :: "nat \<Rightarrow> string \<Rightarrow> (cmd \<times> string) parse" where
  "parseline 0 s = NoFuel"
| "parseline (Suc n) s =
     pbind (parsepipe n s) (\<lambda>(c, s).
     case back_loop c s of (c, s) \<Rightarrow>
     case peek s '';'' of (s, p) \<Rightarrow>
     if p then case gettoken s of (_, _, s) \<Rightarrow> pbind (parseline n s) (\<lambda>(d, s). Ok (LIST c d, s))
     else Ok (c, s))"
| "parsepipe 0 s = NoFuel"
| "parsepipe (Suc n) s =
     pbind (parseexec n s) (\<lambda>(c, s).
     case peek s ''|'' of (s, p) \<Rightarrow>
     if p then case gettoken s of (_, _, s) \<Rightarrow> pbind (parsepipe n s) (\<lambda>(d, s). Ok (PIPE c d, s))
     else Ok (c, s))"
| "parseexec 0 s = NoFuel"
| "parseexec (Suc n) s =
     (case peek s ''('' of (s, p) \<Rightarrow>
      if p then parseblock n s
      else pbind (parseredirs s) (\<lambda>(rs, s). parseargs [] rs s))"
| "parseblock 0 s = NoFuel"
| "parseblock (Suc n) s =
     (case peek s ''('' of (s, p) \<Rightarrow>
      if \<not> p then Syntax ''parseblock''
      else case gettoken s of (_, _, s) \<Rightarrow>
        pbind (parseline n s) (\<lambda>(c, s).
        case peek s '')'' of (s, p) \<Rightarrow>
        if \<not> p then Syntax ''syntax - missing )''
        else case gettoken s of (_, _, s) \<Rightarrow> pbind (parseredirs s) (\<lambda>(rs, s). Ok (redirect rs c, s))))"

definition parsecmd :: "string \<Rightarrow> cmd parse" where
  "parsecmd s =
     pbind (parseline (4 * length s + 4) s) (\<lambda>(c, s).
     case peek s [] of (s, _) \<Rightarrow> if s \<noteq> [] then Syntax ''syntax'' else Ok c)"

section \<open>Every line is parsed\<close>

definition word :: "string \<Rightarrow> bool" where "word w \<longleftrightarrow> w \<noteq> [] \<and> list_all word_char w"

definition redir_ok :: "string \<times> int \<times> int \<Rightarrow> bool" where
  "redir_ok = (\<lambda>(f, m, d). word f \<and> ((m, d) = (O_RDONLY, 0) \<or> (m, d) = (O_WRONLY_CREATE, 1)))"

text \<open>What \<open>runcmd\<close> may rely on: the arguments fit \<open>argv\<close> with its final null pointer, and every name is a word.\<close>

fun cmd_ok :: "cmd \<Rightarrow> bool" where
  "cmd_ok (EXEC args) \<longleftrightarrow> length args < MAXARGS \<and> list_all word args"
| "cmd_ok (REDIR c f m d) \<longleftrightarrow> cmd_ok c \<and> redir_ok (f, m, d)"
| "cmd_ok (PIPE c d) \<longleftrightarrow> cmd_ok c \<and> cmd_ok d"
| "cmd_ok (LIST c d) \<longleftrightarrow> cmd_ok c \<and> cmd_ok d"
| "cmd_ok (BACK c) \<longleftrightarrow> cmd_ok c"

lemma redirect_ok: "cmd_ok c \<Longrightarrow> list_all redir_ok rs \<Longrightarrow> cmd_ok (redirect rs c)"
  by (induction rs c rule: redirect.induct) auto

lemma takeWhile_word: "list_all word_char (takeWhile word_char s)"
  by (simp add: list_all_iff) (meson set_takeWhileD)

lemma gettoken_word: "gettoken s = (CHR ''a'', w, r) \<Longrightarrow> word w"
proof -
  assume g: "gettoken s = (CHR ''a'', w, r)"
  then obtain c u where c: "skip_ws s = c # u" by (cases "skip_ws s") (auto simp: gettoken_def NUL_def)
  have "c \<notin> set whitespace" using hd_dropWhile [of "\<lambda>c. c \<in> set whitespace" s] c by (metis skip_ws_def list.sel(1) list.distinct(1))
  have n: "c \<notin> set ''|();&<''" "c \<noteq> CHR ''>''" using g c by (auto simp: gettoken_def Let_def split: if_splits)
  then have w: "w = takeWhile word_char (c # u)" using g c by (auto simp: gettoken_def Let_def)
  have "word_char c" using n \<open>c \<notin> set whitespace\<close> by (auto simp: word_char_def symbols_def)
  then show "word w" using w takeWhile_word [of "c # u"] by (simp add: word_def)
qed

lemma parseredirs_good:
  "case parseredirs s of Ok (rs, r) \<Rightarrow> list_all redir_ok rs \<and> length r \<le> length s | Syntax _ \<Rightarrow> True | NoFuel \<Rightarrow> False"
proof (induction s rule: parseredirs.induct)
  case (1 s)
  obtain s0 p where p: "peek s ''<>'' = (s0, p)" by fastforce
  show ?case
  proof (cases p)
    case False
    then show ?thesis using p peek_some(2) [OF p] by (subst parseredirs.simps) auto
  next
    case True
    obtain tok w s1 where g: "gettoken s0 = (tok, w, s1)" using prod_cases3 by blast
    obtain tok2 q s2 where g2: "gettoken s1 = (tok2, q, s2)" using prod_cases3 by blast
    show ?thesis
    proof (cases "tok2 = CHR ''a''")
      case False
      then show ?thesis using p True g g2 by (subst parseredirs.simps) simp
    next
      case a: True
      have IH: "case parseredirs s2 of Ok (rs, r) \<Rightarrow> list_all redir_ok rs \<and> length r \<le> length s2 | Syntax _ \<Rightarrow> True | NoFuel \<Rightarrow> False"
        using "1.IH" [OF p [symmetric] _ g [symmetric] refl g2 [symmetric] refl] True a by simp
      have "word q" using gettoken_word g2 a by blast
      moreover have "length s2 < length s" using redirs_less [of s0 s "''<>''" tok w s1 tok2 q s2] p True g g2 by simp
      moreover have e: "parseredirs s = pbind (parseredirs s2) (\<lambda>(rs, s).
          Ok ((if tok = CHR ''<'' then (q, O_RDONLY, 0) else (q, O_WRONLY_CREATE, 1)) # rs, s))"
        using p True g g2 a by (subst parseredirs.simps) simp
      ultimately show ?thesis using IH unfolding e by (cases "parseredirs s2") (auto simp: redir_ok_def)
    qed
  qed
qed

definition good :: "(cmd \<times> string) parse \<Rightarrow> string \<Rightarrow> bool" where
  "good x s \<longleftrightarrow> (case x of Ok (c, r) \<Rightarrow> cmd_ok c \<and> length r \<le> length s | Syntax _ \<Rightarrow> True | NoFuel \<Rightarrow> False)"

lemma good_bind: "good x t \<Longrightarrow> (\<And>c r. x = Ok (c, r) \<Longrightarrow> cmd_ok c \<Longrightarrow> length r \<le> length t \<Longrightarrow> good (f (c, r)) s) \<Longrightarrow> good (pbind x f) s"
  by (cases x) (auto simp: good_def)

lemma good_Ok: "good (Ok (c, r)) s = (cmd_ok c \<and> length r \<le> length s)"
  by (simp add: good_def)

lemma parseargs_good:
  "length args < MAXARGS \<Longrightarrow> list_all word args \<Longrightarrow> list_all redir_ok rs \<Longrightarrow> good (parseargs args rs s) s"
proof (induction args rs s rule: parseargs.induct)
  case (1 args rs s)
  obtain s0 p where p: "peek s ''|)&;'' = (s0, p)" by fastforce
  obtain tok q s1 where g: "gettoken s0 = (tok, q, s1)" using prod_cases3 by blast
  have fin: "cmd_ok (redirect rs (EXEC args))" using 1 by (intro redirect_ok) auto
  have le: "length s0 \<le> length s" "length s1 \<le> length s0" using peek_some(2) [OF p] gettoken_le [OF g] by auto
  consider "p \<or> tok = NUL" | "\<not> p" "tok \<noteq> NUL" "tok \<noteq> CHR ''a'' \<or> MAXARGS \<le> length args + 1"
    | "\<not> p" "tok \<noteq> NUL" "tok = CHR ''a''" "\<not> MAXARGS \<le> length args + 1" by blast
  then show ?case
  proof cases
    case 1
    then show ?thesis using p g fin le by (subst parseargs.simps) (auto simp: good_Ok)
  next
    case 2
    then show ?thesis using p g by (subst parseargs.simps) (auto simp: good_def)
  next
    case 3
    have e: "parseargs args rs s = pbind (parseredirs s1) (\<lambda>(rs1, s). parseargs (args @ [q]) (rs @ rs1) s)"
      using p g 3 by (subst parseargs.simps) simp
    have q: "word q" using gettoken_word g 3(3) by blast
    show ?thesis
    proof (cases "parseredirs s1")
      case (Ok x)
      obtain rs1 r where x: "x = (rs1, r)" by fastforce
      have r: "list_all redir_ok rs1" "length r \<le> length s1" using parseredirs_good [of s1] Ok x by auto
      have "good (parseargs (args @ [q]) (rs @ rs1) r) r"
        using "1.IH" [OF p [symmetric] _ g [symmetric] refl _ _ _ _ x [symmetric]] 3 Ok x q r(1) 1(2-4) by simp
      then show ?thesis using e Ok x r(2) le by (auto simp: good_def split: parse.splits)
    qed (use parseredirs_good [of s1] e in \<open>auto simp: good_def\<close>)
  qed
qed

lemma back_loop_good: "cmd_ok c \<Longrightarrow> back_loop c s = (d, r) \<Longrightarrow> cmd_ok d \<and> length r \<le> length s"
proof (induction c s rule: back_loop.induct)
  case (1 c s)
  obtain s0 p where p: "peek s ''&'' = (s0, p)" by fastforce
  obtain t w s1 where g: "gettoken s0 = (t, w, s1)" using prod_cases3 by blast
  have le: "length s0 \<le> length s" "length s1 \<le> length s0" using peek_some(2) [OF p] gettoken_le [OF g] by auto
  show ?case
  proof (cases p)
    case True
    then have "back_loop c s = back_loop (BACK c) s1" using p g by (subst back_loop.simps) simp
    then have "cmd_ok d \<and> length r \<le> length s1" using "1.IH" [OF p [symmetric] True g [symmetric] refl] 1(2,3) by simp
    then show ?thesis using le by simp
  next
    case False
    then show ?thesis using p 1(2,3) le by (subst (asm) back_loop.simps) auto
  qed
qed

lemma peek_gettoken: "peek s ts = (r, p) \<Longrightarrow> p \<Longrightarrow> \<exists>t w u. gettoken r = (t, w, u) \<and> length u < length s"
  using peek_token [of s ts r] by (metis prod_cases3)

text \<open>One step of each of the four functions, over the ones it calls.\<close>

lemma parseline_good:
  assumes pipe: "good (parsepipe n s) s" and rest: "\<And>u. length u < length s \<Longrightarrow> good (parseline n u) u"
  shows "good (parseline (Suc n) s) s"
  unfolding parseline.simps
proof (rule good_bind [OF pipe])
  fix c and r :: string
  assume c: "cmd_ok c" "length r \<le> length s"
  obtain d r1 where b: "back_loop c r = (d, r1)" by fastforce
  have d: "cmd_ok d" "length r1 \<le> length s" using back_loop_good [OF c(1) b] c(2) by auto
  obtain r2 p where p: "peek r1 '';'' = (r2, p)" by fastforce
  show "good (case (c, r) of (c, s) \<Rightarrow> case back_loop c s of (c, s) \<Rightarrow> case peek s '';'' of (s, p) \<Rightarrow>
    if p then case gettoken s of (_, _, s) \<Rightarrow> pbind (parseline n s) (\<lambda>(d, s). Ok (LIST c d, s)) else Ok (c, s)) s"
  proof (cases p)
    case True
    then obtain t w u where u: "gettoken r2 = (t, w, u)" "length u < length r1" using peek_gettoken [OF p] by blast
    have "good (pbind (parseline n u) (\<lambda>(e, s). Ok (LIST d e, s))) s"
      by (rule good_bind [OF rest]) (use d u(2) in \<open>auto simp: good_Ok\<close>)
    then show ?thesis using b p True u(1) by simp
  next
    case False
    then show ?thesis using b p d peek_some(2) [OF p] by (auto simp: good_Ok)
  qed
qed

lemma parsepipe_good:
  assumes exec: "good (parseexec n s) s" and rest: "\<And>u. length u < length s \<Longrightarrow> good (parsepipe n u) u"
  shows "good (parsepipe (Suc n) s) s"
  unfolding parsepipe.simps
proof (rule good_bind [OF exec])
  fix c and r :: string
  assume c: "cmd_ok c" "length r \<le> length s"
  obtain r2 p where p: "peek r ''|'' = (r2, p)" by fastforce
  show "good (case (c, r) of (c, s) \<Rightarrow> case peek s ''|'' of (s, p) \<Rightarrow>
    if p then case gettoken s of (_, _, s) \<Rightarrow> pbind (parsepipe n s) (\<lambda>(d, s). Ok (PIPE c d, s)) else Ok (c, s)) s"
  proof (cases p)
    case True
    then obtain t w u where u: "gettoken r2 = (t, w, u)" "length u < length r" using peek_gettoken [OF p] by blast
    have "good (pbind (parsepipe n u) (\<lambda>(e, s). Ok (PIPE c e, s))) s"
      by (rule good_bind [OF rest]) (use c u(2) in \<open>auto simp: good_Ok\<close>)
    then show ?thesis using p True u(1) by simp
  next
    case False
    then show ?thesis using p c peek_some(2) [OF p] by (auto simp: good_Ok)
  qed
qed

lemma parseexec_good:
  assumes block: "\<And>r :: string. length r \<le> length s \<Longrightarrow> good (parseblock n r) r"
  shows "good (parseexec (Suc n) s) s"
proof -
  obtain r p where p: "peek s ''('' = (r, p)" by fastforce
  have r: "length r \<le> length s" using peek_some(2) [OF p] by blast
  show ?thesis
  proof (cases p)
    case True
    then show ?thesis using p block [OF r] r by (auto simp: good_def split: parse.splits)
  next
    case False
    show ?thesis
    proof (cases "parseredirs r")
      case (Ok x)
      obtain rs r1 where x: "x = (rs, r1)" by fastforce
      have a: "list_all redir_ok rs" "length r1 \<le> length r" using parseredirs_good [of r] Ok x by auto
      have "good (parseargs [] rs r1) r1" using a(1) by (intro parseargs_good) (simp_all add: MAXARGS_def)
      then show ?thesis using p False Ok x a(2) r by (auto simp: good_def split: parse.splits)
    qed (use p False parseredirs_good [of r] in \<open>auto simp: good_def\<close>)
  qed
qed

lemma parseblock_good:
  assumes line: "\<And>u. length u < length s \<Longrightarrow> good (parseline n u) u"
  shows "good (parseblock (Suc n) s) s"
proof -
  obtain r p where p: "peek s ''('' = (r, p)" by fastforce
  show ?thesis
  proof (cases p)
    case True
    then obtain t w u where u: "gettoken r = (t, w, u)" "length u < length s" using peek_gettoken [OF p] by blast
    have "good (pbind (parseline n u) (\<lambda>(c, s). case peek s '')'' of (s, p) \<Rightarrow>
      if \<not> p then Syntax ''syntax - missing )''
      else case gettoken s of (_, _, s) \<Rightarrow> pbind (parseredirs s) (\<lambda>(rs, s). Ok (redirect rs c, s)))) s"
    proof (rule good_bind [OF line [OF u(2)]])
      fix c and v :: string
      assume c: "cmd_ok c" "length v \<le> length u"
      obtain v1 p2 where p2: "peek v '')'' = (v1, p2)" by fastforce
      show "good (case (c, v) of (c, s) \<Rightarrow> case peek s '')'' of (s, p) \<Rightarrow>
        if \<not> p then Syntax ''syntax - missing )''
        else case gettoken s of (_, _, s) \<Rightarrow> pbind (parseredirs s) (\<lambda>(rs, s). Ok (redirect rs c, s))) s"
      proof (cases p2)
        case True
        then obtain t2 w2 v2 where v2: "gettoken v1 = (t2, w2, v2)" "length v2 < length v" using peek_gettoken [OF p2] by blast
        show ?thesis using p2 True v2 parseredirs_good [of v2] c u(2)
          by (cases "parseredirs v2") (auto simp: good_def intro: redirect_ok)
      qed (use p2 in \<open>simp add: good_def\<close>)
    qed
    then show ?thesis using p True u(1) by simp
  qed (use p in \<open>simp add: good_def\<close>)
qed

text \<open>Four units of fuel for every character, and one for each function that has not read one yet.\<close>

lemma parser_good:
  "(4 * length s + 4 \<le> n \<longrightarrow> good (parseline n s) s) \<and> (4 * length s + 3 \<le> n \<longrightarrow> good (parsepipe n s) s)
    \<and> (4 * length s + 2 \<le> n \<longrightarrow> good (parseexec n s) s) \<and> (4 * length s + 1 \<le> n \<longrightarrow> good (parseblock n s) s)"
proof (induction n arbitrary: s)
  case (Suc n)
  show ?case
  proof (intro conjI impI)
    assume f: "4 * length s + 4 \<le> Suc n"
    show "good (parseline (Suc n) s) s"
    proof (rule parseline_good)
      show "good (parsepipe n s) s" using Suc [of s] f by simp
      show "good (parseline n u) u" if "length u < length s" for u using Suc [of u] f that by simp
    qed
  next
    assume f: "4 * length s + 3 \<le> Suc n"
    show "good (parsepipe (Suc n) s) s"
    proof (rule parsepipe_good)
      show "good (parseexec n s) s" using Suc [of s] f by simp
      show "good (parsepipe n u) u" if "length u < length s" for u using Suc [of u] f that by simp
    qed
  next
    assume f: "4 * length s + 2 \<le> Suc n"
    show "good (parseexec (Suc n) s) s"
    proof (rule parseexec_good)
      show "good (parseblock n r) r" if "length r \<le> length s" for r using Suc [of r] f that by simp
    qed
  next
    assume f: "4 * length s + 1 \<le> Suc n"
    show "good (parseblock (Suc n) s) s"
    proof (rule parseblock_good)
      show "good (parseline n u) u" if "length u < length s" for u using Suc [of u] f that by simp
    qed
  qed
qed simp

lemma parsecmd_good: "case parsecmd s of Ok c \<Rightarrow> cmd_ok c | Syntax _ \<Rightarrow> True | NoFuel \<Rightarrow> False"
proof -
  have g: "good (parseline (4 * length s + 4) s) s" using parser_good [of s "4 * length s + 4"] by simp
  show ?thesis
  proof (cases "parseline (4 * length s + 4) s")
    case (Ok x)
    obtain c r where x: "x = (c, r)" by fastforce
    obtain r2 p where p: "peek r [] = (r2, p)" by fastforce
    show ?thesis using g Ok x p by (simp add: parsecmd_def good_def)
  qed (use g in \<open>simp_all add: parsecmd_def good_def\<close>)
qed

end
