(* ===== verification/Shell_Print.thy ===== *)
theory Shell_Print
  imports Shell
begin

text \<open>
  A printer for command trees and the proof that the shell's parser reads its output back: every operand of an operator is put
  in parentheses, every word is followed by a space.
\<close>

fun show_cmd :: "cmd \<Rightarrow> string" where
  "show_cmd (EXEC args) = concat (map (\<lambda>a. a @ '' '') args)"
| "show_cmd (REDIR c f m d) = ''('' @ show_cmd c @ '')'' @ (if d = 0 then ''<'' else ''>'') @ f @ '' ''"
| "show_cmd (PIPE c d) = ''('' @ show_cmd c @ '')|('' @ show_cmd d @ '')''"
| "show_cmd (LIST c d) = ''('' @ show_cmd c @ '');('' @ show_cmd d @ '')''"
| "show_cmd (BACK c) = ''('' @ show_cmd c @ '')&''"

section \<open>Tokens of printed text\<close>

text \<open>Printed text never starts with a blank. A command ends at the end of the line or at a closing parenthesis.\<close>

definition trim :: "string \<Rightarrow> bool" where "trim s \<longleftrightarrow> (s \<noteq> [] \<longrightarrow> hd s \<notin> set whitespace)"
definition ends :: "string \<Rightarrow> bool" where "ends t \<longleftrightarrow> (t \<noteq> [] \<longrightarrow> hd t = CHR '')'')"

lemma trim_skip: "trim s \<Longrightarrow> skip_ws s = s"
  by (cases s) (auto simp: trim_def skip_ws_def)

lemma skip_blank: "skip_ws (CHR '' '' # s) = skip_ws s"
  by (simp add: skip_ws_def whitespace_def)

lemma trim_Cons [simp]: "trim (c # s) \<longleftrightarrow> c \<notin> set whitespace"
  by (simp add: trim_def)

lemma symbols_trim [simp]: "CHR ''('' \<notin> set whitespace" "CHR '')'' \<notin> set whitespace" "CHR ''|'' \<notin> set whitespace"
  "CHR '';'' \<notin> set whitespace" "CHR ''&'' \<notin> set whitespace" "CHR ''<'' \<notin> set whitespace" "CHR ''>'' \<notin> set whitespace"
  by (simp_all add: whitespace_def)

lemma symbols_neq: "CHR '')'' \<noteq> CHR ''|''" "CHR '')'' \<noteq> CHR ''&''"
  by simp_all

lemma ends_trim: "ends t \<Longrightarrow> trim t"
  by (cases t) (auto simp: ends_def trim_def)

lemma word_hd: "word a \<Longrightarrow> word_char (hd (a @ s)) \<and> a @ s \<noteq> []"
  by (cases a) (auto simp: word_def)

lemma word_trim: "word a \<Longrightarrow> trim (a @ s)"
  using word_hd [of a s] by (simp add: trim_def word_char_def)

lemma peek_trim: "trim s \<Longrightarrow> peek s ts = (s, s \<noteq> [] \<and> hd s \<in> set ts)"
  by (simp add: peek_def trim_skip)

lemma peek_ends: "ends t \<Longrightarrow> CHR '')'' \<notin> set ts \<Longrightarrow> peek t ts = (t, False)"
  using peek_trim [OF ends_trim, of t ts] by (auto simp: ends_def)

lemma peek_word: "word a \<Longrightarrow> set ts \<subseteq> set symbols \<Longrightarrow> peek (a @ s) ts = (a @ s, False)"
  using peek_trim [OF word_trim, of a s ts] word_hd [of a s] by (auto simp: word_char_def)

lemma gettoken_symbol: "c \<in> set ''|();&<'' \<Longrightarrow> gettoken (c # s) = (c, [c], skip_ws s)"
proof -
  assume c: "c \<in> set ''|();&<''"
  then have "skip_ws (c # s) = c # s" by (intro trim_skip) auto
  then show ?thesis using c by (simp add: gettoken_def)
qed

lemma gettoken_gt: "s = [] \<or> hd s \<noteq> CHR ''>'' \<Longrightarrow> gettoken (CHR ''>'' # s) = (CHR ''>'', ''>'', skip_ws s)"
  using trim_skip [of "CHR ''>'' # s"] by (auto simp: gettoken_def)

lemma gettoken_text:
  assumes "word a"
  shows "gettoken (a @ CHR '' '' # s) = (CHR ''a'', a, skip_ws s)"
proof -
  obtain c b where a: "a = c # b" and c: "word_char c" using assms by (cases a) (auto simp: word_def)
  have n: "\<not> word_char CHR '' ''" by (simp add: word_char_def whitespace_def)
  have "c \<notin> set ''|();&<''" "c \<noteq> CHR ''>''" using c by (auto simp: word_char_def symbols_def)
  moreover have "skip_ws (a @ CHR '' '' # s) = a @ CHR '' '' # s" using trim_skip [OF word_trim [OF assms]] .
  moreover have "takeWhile word_char (a @ CHR '' '' # s) = a" "dropWhile word_char (a @ CHR '' '' # s) = CHR '' '' # s"
    using assms n by (auto simp: word_def list_all_iff takeWhile_append dropWhile_append)
  ultimately show ?thesis using a by (simp add: gettoken_def skip_blank)
qed

section \<open>Reading a printed command\<close>

declare parseline.simps [simp del] and parsepipe.simps [simp del] and parseexec.simps [simp del] and parseblock.simps [simp del]

lemma parseredirs_none: "peek s ''<>'' = (s, False) \<Longrightarrow> parseredirs s = Ok ([], s)"
  by (subst parseredirs.simps) simp

lemma parseredirs_one:
  assumes r: "redir_ok (f, m, d)" and t: "ends t"
  shows "parseredirs ((if d = 0 then ''<'' else ''>'') @ f @ CHR '' '' # t) = Ok ([(f, m, d)], t)"
proof -
  let ?g = "f @ CHR '' '' # t" and ?c = "if d = 0 then CHR ''<'' else CHR ''>''"
  have w: "word f" using r by (simp add: redir_ok_def)
  have c: "(if d = 0 then ''<'' else ''>'') @ ?g = ?c # ?g" by simp
  have "hd ?g \<noteq> CHR ''>''" using word_hd [OF w, of "CHR '' '' # t"] by (auto simp: word_char_def symbols_def)
  then have g: "gettoken (?c # ?g) = (?c, [?c], ?g)"
    using gettoken_symbol [of "CHR ''<''" ?g] gettoken_gt [of ?g] trim_skip [OF word_trim [OF w]] by auto
  have t2: "gettoken ?g = (CHR ''a'', f, t)" using gettoken_text [OF w] trim_skip [OF ends_trim [OF t]] by simp
  have p: "peek (?c # ?g) ''<>'' = (?c # ?g, True)" by (subst peek_trim) auto
  have n: "parseredirs t = Ok ([], t)" using t by (intro parseredirs_none peek_ends) auto
  show ?thesis using r p g t2 n unfolding c by (subst parseredirs.simps) (auto simp: redir_ok_def)
qed

lemma parseargs_show:
  assumes "list_all word bs" and "length (as @ bs) < MAXARGS" and t: "ends t"
  shows "parseargs as [] (concat (map (\<lambda>a. a @ '' '') bs) @ t) = Ok (EXEC (as @ bs), t)"
  using assms
proof (induction bs arbitrary: as)
  case Nil
  show ?case
  proof (cases "t = []")
    case True
    then show ?thesis by (subst parseargs.simps) (simp add: peek_def gettoken_def skip_ws_def)
  next
    case False
    then show ?thesis using t peek_trim [OF ends_trim [OF t], of "''|)&;''"]
      by (subst parseargs.simps) (simp add: ends_def)
  qed
next
  case (Cons b bs)
  let ?r = "concat (map (\<lambda>a. a @ '' '') bs) @ t"
  have b: "word b" "list_all word bs" using Cons.prems by auto
  have tr: "peek ?r ''<>'' = (?r, False)" "trim ?r"
    using b(2) peek_ends [OF t, of "''<>''"] ends_trim [OF t] peek_word word_trim
    by (cases bs; simp add: symbols_def)+
  have "gettoken (b @ CHR '' '' # ?r) = (CHR ''a'', b, ?r)" using gettoken_text [OF b(1)] trim_skip [OF tr(2)] by simp
  moreover have "peek (b @ CHR '' '' # ?r) ''|)&;'' = (b @ CHR '' '' # ?r, False)"
    using b(1) by (intro peek_word) (auto simp: symbols_def)
  moreover have "parseargs (as @ [b]) [] ?r = Ok (EXEC ((as @ [b]) @ bs), t)" using Cons b by (intro Cons.IH) auto
  moreover have "parseredirs ?r = Ok ([], ?r)" using tr by (intro parseredirs_none) auto
  ultimately show ?case using Cons.prems by (subst parseargs.simps) (simp add: NUL_def)
qed

lemma show_trim: "cmd_ok c \<Longrightarrow> ends t \<Longrightarrow> trim (show_cmd c @ t)"
proof (cases c)
  case (EXEC args)
  assume "cmd_ok c" "ends t"
  then show ?thesis using EXEC ends_trim word_trim by (cases args) auto
qed auto

text \<open>A parenthesised command is read by \<open>parseblock\<close>, and then the redirections after it.\<close>

lemma parseexec_block:
  assumes "parseline n (show_cmd c @ CHR '')'' # u) = Ok (c, CHR '')'' # u)" and "cmd_ok c"
  shows "parseexec (Suc (Suc n)) (CHR ''('' # show_cmd c @ CHR '')'' # u)
    = pbind (parseredirs (skip_ws u)) (\<lambda>(rs, s). Ok (redirect rs c, s))"
proof -
  let ?s = "show_cmd c @ CHR '')'' # u"
  have "trim ?s" using assms(2) by (intro show_trim) (auto simp: ends_def)
  then have "gettoken (CHR ''('' # ?s) = (CHR ''('', ''('', ?s)" using gettoken_symbol trim_skip by auto
  moreover have "peek (CHR ''('' # ?s) ''('' = (CHR ''('' # ?s, True)" by (subst peek_trim) auto
  moreover have "peek (CHR '')'' # u) '')'' = (CHR '')'' # u, True)" by (subst peek_trim) auto
  moreover have "gettoken (CHR '')'' # u) = (CHR '')'', '')'', skip_ws u)" by (rule gettoken_symbol) simp
  ultimately show ?thesis using assms(1) by (simp add: parseexec.simps parseblock.simps)
qed

lemma parseexec_group:
  assumes "parseline n (show_cmd c @ CHR '')'' # u) = Ok (c, CHR '')'' # u)" and "cmd_ok c"
    and "trim u" and "u \<noteq> [] \<longrightarrow> hd u \<notin> set ''<>''"
  shows "parseexec (Suc (Suc n)) (CHR ''('' # show_cmd c @ CHR '')'' # u) = Ok (c, u)"
proof -
  have "parseredirs u = Ok ([], u)" using assms(3,4) by (intro parseredirs_none) (auto simp: peek_trim)
  then show ?thesis using parseexec_block [OF assms(1,2)] trim_skip [OF assms(3)] by simp
qed

text \<open>What follows a pipeline, and what follows a command.\<close>

lemma parsepipe_end:
  assumes "parseexec n s = Ok (c, t)" and "trim t" and "t \<noteq> [] \<longrightarrow> hd t \<noteq> CHR ''|''"
  shows "parsepipe (Suc n) s = Ok (c, t)"
  using assms peek_trim [of t "''|''"] by (auto simp: parsepipe.simps)

lemma back_loop_end: "trim t \<Longrightarrow> t \<noteq> [] \<longrightarrow> hd t \<noteq> CHR ''&'' \<Longrightarrow> back_loop c t = (c, t)"
  using peek_trim [of t "''&''"] by (subst back_loop.simps) auto

lemma parseline_end:
  assumes "parsepipe n s = Ok (c, t)" and "ends t"
  shows "parseline (Suc n) s = Ok (c, t)"
proof -
  have "back_loop c t = (c, t)" using assms(2) by (intro back_loop_end) (auto simp: ends_def ends_trim)
  moreover have "peek t '';'' = (t, False)" using assms(2) by (intro peek_ends) auto
  ultimately show ?thesis using assms(1) by (simp add: parseline.simps)
qed

lemma ends_paren: "ends (CHR '')'' # u)"
  by (simp add: ends_def)

text \<open>The cases of the reading back: what \<open>parseline\<close> reads is a group, then an operator, then a group.\<close>

lemma parseline_args:
  assumes "list_all word args" and "length args < MAXARGS" and t: "ends t"
  shows "parseline (Suc (Suc (Suc m))) (concat (map (\<lambda>a. a @ '' '') args) @ t) = Ok (EXEC args, t)"
proof -
  let ?s = "concat (map (\<lambda>a. a @ '' '') args) @ t"
  have p: "peek ?s ts = (?s, False)" if "set ts \<subseteq> set symbols" "CHR '')'' \<notin> set ts" for ts
  proof (cases args)
    case Nil
    then show ?thesis using peek_ends [OF t that(2)] by simp
  next
    case (Cons b bs)
    then show ?thesis using assms(1) peek_word [OF _ that(1), of b] by simp
  qed
  have a: "parseargs [] [] ?s = Ok (EXEC args, t)" using parseargs_show [OF assms(1) _ t, of "[]"] assms(2) by simp
  have r: "parseredirs ?s = Ok ([], ?s)" by (rule parseredirs_none [OF p]) (simp_all add: symbols_def)
  have "peek ?s ''('' = (?s, False)" by (rule p) (simp_all add: symbols_def)
  then have "parseexec (Suc m) ?s = Ok (EXEC args, t)" using a r by (subst parseexec.simps) simp
  then show ?thesis using t by (intro parseline_end parsepipe_end) (auto simp: ends_def ends_trim)
qed

lemma parseline_redir:
  assumes c: "parseline k (show_cmd c @ CHR '')'' # (if d = 0 then CHR ''<'' else CHR ''>'') # f @ CHR '' '' # t)
      = Ok (c, CHR '')'' # (if d = 0 then CHR ''<'' else CHR ''>'') # f @ CHR '' '' # t)"
    and ok: "cmd_ok c" "redir_ok (f, m, d)" and t: "ends t"
  shows "parseline (Suc (Suc (Suc (Suc k)))) (show_cmd (REDIR c f m d) @ t) = Ok (REDIR c f m d, t)"
proof -
  let ?u = "(if d = 0 then CHR ''<'' else CHR ''>'') # f @ CHR '' '' # t"
  have u: "skip_ws ?u = ?u" by (intro trim_skip) simp
  have "parseredirs ?u = Ok ([(f, m, d)], t)" using parseredirs_one [OF ok(2) t] by (cases "d = 0") simp_all
  then have "parseexec (Suc (Suc k)) (CHR ''('' # show_cmd c @ CHR '')'' # ?u) = Ok (REDIR c f m d, t)"
    using parseexec_block [OF c ok(1)] u by simp
  moreover have "show_cmd (REDIR c f m d) @ t = CHR ''('' # show_cmd c @ CHR '')'' # ?u" by simp
  ultimately show ?thesis using t by (metis ends_trim ends_def parseline_end parsepipe_end symbols_neq)
qed

text \<open>The operator characters between two groups.\<close>

lemma operator_next:
  assumes "c \<in> set ''|;&''" and "trim r"
  shows "peek (c # r) [c] = (c # r, True)" and "gettoken (c # r) = (c, [c], r)" and "trim (c # r)"
proof -
  show t: "trim (c # r)" using assms(1) by auto
  show "peek (c # r) [c] = (c # r, True)" using peek_trim [OF t] by simp
  show "gettoken (c # r) = (c, [c], r)" using assms gettoken_symbol [of c r] trim_skip by auto
qed

lemma parsepipe_group:
  assumes "parseline n (show_cmd c @ CHR '')'' # u) = Ok (c, CHR '')'' # u)" and "cmd_ok c"
    and "trim u" and "u \<noteq> [] \<longrightarrow> hd u \<notin> set ''<>|''"
  shows "parsepipe (Suc (Suc (Suc n))) (CHR ''('' # show_cmd c @ CHR '')'' # u) = Ok (c, u)"
proof (rule parsepipe_end)
  show "parseexec (Suc (Suc n)) (CHR ''('' # show_cmd c @ CHR '')'' # u) = Ok (c, u)"
    by (rule parseexec_group [OF assms(1-3)]) (use assms(4) in auto)
qed (use assms in auto)

lemma ends_group: "ends t \<Longrightarrow> t \<noteq> [] \<longrightarrow> hd t \<notin> set ''<>|''"
  by (auto simp: ends_def)

lemma parseline_pipe:
  assumes c: "parseline (Suc k) (show_cmd c @ CHR '')'' # CHR ''|'' # CHR ''('' # show_cmd d @ CHR '')'' # t)
      = Ok (c, CHR '')'' # CHR ''|'' # CHR ''('' # show_cmd d @ CHR '')'' # t)"
    and d: "parseline k (show_cmd d @ CHR '')'' # t) = Ok (d, CHR '')'' # t)"
    and ok: "cmd_ok c" "cmd_ok d" and t: "ends t"
  shows "parseline (Suc (Suc (Suc (Suc (Suc k))))) (show_cmd (PIPE c d) @ t) = Ok (PIPE c d, t)"
proof -
  let ?r = "CHR ''('' # show_cmd d @ CHR '')'' # t"
  let ?s = "CHR ''('' # show_cmd c @ CHR '')'' # CHR ''|'' # ?r"
  have r: "parsepipe (Suc (Suc (Suc k))) ?r = Ok (d, t)"
    by (rule parsepipe_group [OF d ok(2) ends_trim [OF t] ends_group [OF t]])
  have l: "parseexec (Suc (Suc (Suc k))) ?s = Ok (c, CHR ''|'' # ?r)"
    by (rule parseexec_group [OF c ok(1)]) auto
  have o: "trim ?r" "CHR ''|'' \<in> set ''|;&''" by simp_all
  have "parsepipe (Suc (Suc (Suc (Suc k)))) ?s = Ok (PIPE c d, t)"
    using l r operator_next(1,2) [OF o(2,1)] by (subst parsepipe.simps) simp
  then have "parseline (Suc (Suc (Suc (Suc (Suc k))))) ?s = Ok (PIPE c d, t)" using t by (rule parseline_end)
  moreover have "show_cmd (PIPE c d) @ t = ?s" by simp
  ultimately show ?thesis by simp
qed

lemma parseline_list:
  assumes c: "parseline (Suc k) (show_cmd c @ CHR '')'' # CHR '';'' # CHR ''('' # show_cmd d @ CHR '')'' # t)
      = Ok (c, CHR '')'' # CHR '';'' # CHR ''('' # show_cmd d @ CHR '')'' # t)"
    and d: "parseline k (show_cmd d @ CHR '')'' # t) = Ok (d, CHR '')'' # t)"
    and ok: "cmd_ok c" "cmd_ok d" and t: "ends t"
  shows "parseline (Suc (Suc (Suc (Suc (Suc k))))) (show_cmd (LIST c d) @ t) = Ok (LIST c d, t)"
proof -
  let ?r = "CHR ''('' # show_cmd d @ CHR '')'' # t"
  let ?s = "CHR ''('' # show_cmd c @ CHR '')'' # CHR '';'' # ?r"
  have "parsepipe (Suc (Suc (Suc k))) ?r = Ok (d, t)"
    by (rule parsepipe_group [OF d ok(2) ends_trim [OF t] ends_group [OF t]])
  then have r: "parseline (Suc (Suc (Suc (Suc k)))) ?r = Ok (d, t)" using t by (rule parseline_end)
  have l: "parsepipe (Suc (Suc (Suc (Suc k)))) ?s = Ok (c, CHR '';'' # ?r)"
    by (rule parsepipe_group [OF c ok(1)]) auto
  have o: "trim ?r" "CHR '';'' \<in> set ''|;&''" by simp_all
  have "back_loop c (CHR '';'' # ?r) = (c, CHR '';'' # ?r)" using operator_next(3) [OF o(2,1)] by (intro back_loop_end) auto
  then have "parseline (Suc (Suc (Suc (Suc (Suc k))))) ?s = Ok (LIST c d, t)"
    using l r operator_next(1,2) [OF o(2,1)] by (subst parseline.simps) simp
  moreover have "show_cmd (LIST c d) @ t = ?s" by simp
  ultimately show ?thesis by simp
qed

lemma parseline_back:
  assumes c: "parseline k (show_cmd c @ CHR '')'' # CHR ''&'' # t) = Ok (c, CHR '')'' # CHR ''&'' # t)"
    and ok: "cmd_ok c" and t: "ends t"
  shows "parseline (Suc (Suc (Suc (Suc k)))) (show_cmd (BACK c) @ t) = Ok (BACK c, t)"
proof -
  let ?s = "CHR ''('' # show_cmd c @ CHR '')'' # CHR ''&'' # t"
  have l: "parsepipe (Suc (Suc (Suc k))) ?s = Ok (c, CHR ''&'' # t)"
    by (rule parsepipe_group [OF c ok]) auto
  have o: "CHR ''&'' \<in> set ''|;&''" by simp
  have "back_loop (BACK c) t = (BACK c, t)" using t ends_trim [OF t] by (intro back_loop_end) (auto simp: ends_def)
  then have b: "back_loop c (CHR ''&'' # t) = (BACK c, t)"
    using operator_next(1,2) [OF o ends_trim [OF t]] by (subst back_loop.simps) simp
  have "peek t '';'' = (t, False)" using t by (intro peek_ends) auto
  then have "parseline (Suc (Suc (Suc (Suc k)))) ?s = Ok (BACK c, t)" using l b by (subst parseline.simps) simp
  moreover have "show_cmd (BACK c) @ t = ?s" by simp
  ultimately show ?thesis by simp
qed

lemma parseline_show:
  "cmd_ok c \<Longrightarrow> ends t \<Longrightarrow> 4 * length (show_cmd c) + 4 \<le> n \<Longrightarrow> parseline n (show_cmd c @ t) = Ok (c, t)"
proof (induction c arbitrary: t n)
  case (EXEC args)
  have n: "n = Suc (Suc (Suc (n - 3)))" using EXEC.prems(3) by simp
  show ?case using EXEC.prems by (subst n) (simp add: parseline_args)
next
  case (REDIR c f m d)
  have n: "n = Suc (Suc (Suc (Suc (n - 4))))" using REDIR.prems(3) by simp
  show ?case by (subst n, rule parseline_redir, rule REDIR.IH) (use REDIR.prems in \<open>auto simp: ends_def\<close>)
next
  case (PIPE c d)
  have n: "n = Suc (Suc (Suc (Suc (Suc (n - 5)))))" using PIPE.prems(3) by simp
  have "cmd_ok c" "cmd_ok d" "4 * length (show_cmd c) + 4 \<le> Suc (n - 5)" "4 * length (show_cmd d) + 4 \<le> n - 5"
    using PIPE.prems by auto
  then show ?case using PIPE.prems(2) by (subst n) (intro parseline_pipe PIPE.IH; simp add: ends_def)
next
  case (LIST c d)
  have n: "n = Suc (Suc (Suc (Suc (Suc (n - 5)))))" using LIST.prems(3) by simp
  have "cmd_ok c" "cmd_ok d" "4 * length (show_cmd c) + 4 \<le> Suc (n - 5)" "4 * length (show_cmd d) + 4 \<le> n - 5"
    using LIST.prems by auto
  then show ?case using LIST.prems(2) by (subst n) (intro parseline_list LIST.IH; simp add: ends_def)
next
  case (BACK c)
  have n: "n = Suc (Suc (Suc (Suc (n - 4))))" using BACK.prems(3) by simp
  show ?case by (subst n, rule parseline_back, rule BACK.IH) (use BACK.prems in \<open>auto simp: ends_def\<close>)
qed

lemma parsecmd_show: "cmd_ok c \<Longrightarrow> parsecmd (show_cmd c) = Ok c"
  using parseline_show [of c "[]" "4 * length (show_cmd c) + 4"]
  by (simp add: parsecmd_def ends_def peek_def skip_ws_def)

end
