(* ===== verification/User_Props.thy ===== *)
theory User_Props
  imports Grep Shell_Print
begin

text \<open>Correctness statements of the user programs.\<close>

section \<open>grep\<close>

text \<open>
  C38. The matcher of grep decides the usual meaning of a pattern: with a leading ^ some prefix of the text, otherwise some
  part of it, is a sequence of the atoms of the pattern, where a dot fits every byte, a starred atom any number of fitting
  bytes, and a final $ the end of the text. It returns for every pattern and text.
\<close>

theorem grep_match_pattern:
  "match re str = (if re \<noteq> [] \<and> hd re = chr8 CHR ''^''
    then \<exists>w r. str = w @ r \<and> re_match (parse_re (tl re)) w r
    else \<exists>p w r. str = p @ w @ r \<and> re_match (parse_re re) w r)"
  by (auto simp: match_def matchhere_spec(1) match_loop_spec)

text \<open>
  C39. On a file without NUL bytes whose lines fit the buffer grep prints exactly the lines that match, complete, in order, each with its newline,
  for every length of the file.
\<close>

theorem grep_prints_matching_lines:
  assumes "0 \<notin> set xs" and "\<forall>l\<in>set (lines xs). length l \<le> 1022" and "length (tail_part xs) \<le> 1022"
  shows "grep re [] [xs] = concat (map (\<lambda>l. l @ [10]) (filter (match re) (lines xs)))"
  using grep_file_aux [of "[]" xs re] assms by (simp add: short_lines_def selected_def)

theorem grep_prints_matching_lines_witness:
  "grep [98] [] [[97, 98, 10, 99, 10, 98, 10]] = [97, 98, 10, 98, 10]"
proof -
  let ?xs = "[97, 98, 10, 99, 10, 98, 10] :: u8 list"
  have l: "lines ?xs = [[97, 98], [99], [98]]" "tail_part ?xs = []" by (simp_all add: lines.simps tail_part.simps)
  have m: "match [98] [97, 98]" "\<not> match [98] [99]" "match [98] [98]" by (simp_all add: match_def match_loop.simps)
  have "grep [98] [] [?xs] = concat (map (\<lambda>l. l @ [10]) (filter (match [98]) (lines ?xs)))"
    by (rule grep_prints_matching_lines) (simp_all add: l)
  then show ?thesis using m by (simp add: l)
qed

section \<open>The shell's parser\<close>

text \<open>
  C6. The shell parses every line with the fuel it is given: it either reports a syntax error or returns a command tree that
  fits the types \<open>runcmd\<close> relies on. Every argument and file name is a non-empty word without blanks and operators,
  every argument list leaves room for the final null pointer in \<open>argv\<close>, and every redirection opens
  descriptor 0 for reading or descriptor 1 for writing.
\<close>

theorem parsecmd_typed: "case parsecmd s of Ok c \<Rightarrow> cmd_ok c | Syntax _ \<Rightarrow> True | NoFuel \<Rightarrow> False"
  by (rule parsecmd_good)

text \<open>
  C40. Parsing inverts printing: a command tree of words, written with every operand in parentheses and a space after every
  word, is read back by the shell as the same tree, whatever the nesting of pipes, lists, background commands and redirections.
\<close>

theorem parsecmd_roundtrip:
  assumes "cmd_ok c"
  shows "parsecmd (show_cmd c) = Ok c"
  using assms by (rule parsecmd_show)

theorem parsecmd_roundtrip_witness:
  "parsecmd ''((cat x )|(grep b ))>out '' = Ok (REDIR (PIPE (EXEC [''cat'', ''x'']) (EXEC [''grep'', ''b''])) ''out'' O_WRONLY_CREATE 1)"
proof -
  let ?c = "REDIR (PIPE (EXEC [''cat'', ''x'']) (EXEC [''grep'', ''b''])) ''out'' O_WRONLY_CREATE 1"
  have "cmd_ok ?c" by (simp add: redir_ok_def word_def word_char_def whitespace_def symbols_def MAXARGS_def)
  then have "parsecmd (show_cmd ?c) = Ok ?c" by (rule parsecmd_roundtrip)
  then show ?thesis by simp
qed

end
