(* ===== verification/Umalloc.thy ===== *)
theory Umalloc
  imports Prelude
begin

text \<open>
  The memory allocator of user programs (umalloc.c): a ring of free blocks, sorted by address, that starts at a
  static header. A header is typed and found by its address; a block is its header and the units of 8 bytes behind it.
  The heap grows by \<open>sbrk\<close>, which answers with the old end of the process or -1; \<open>grant b n\<close> tells whether
  the kernel has memory for n bytes more at b, and the kernel never goes beyond its own base address. Its argument is an
  \<open>int\<close>: a size from \<open>2 ^ 31\<close> on is negative and takes memory away.
\<close>

section \<open>Operations\<close>

record header =
  hptr :: u32
  hsize :: u32

record uheap =
  hdr :: "u32 \<Rightarrow> header"
  base :: u32
  freep :: u32
  brk :: u32

abbreviation nxt :: "uheap \<Rightarrow> u32 \<Rightarrow> u32" where "nxt h p \<equiv> hptr (hdr h p)"
abbreviation siz :: "uheap \<Rightarrow> u32 \<Rightarrow> u32" where "siz h p \<equiv> hsize (hdr h p)"

definition upd_hdr :: "u32 \<Rightarrow> (header \<Rightarrow> header) \<Rightarrow> uheap \<Rightarrow> uheap" where
  "upd_hdr p f h = h\<lparr>hdr := (hdr h)(p := f (hdr h p))\<rparr>"


text \<open>The place in the ring where the block goes: behind the next lower block, or at the end of the ring.\<close>

definition free_spot :: "uheap \<Rightarrow> u32 \<Rightarrow> u32 \<Rightarrow> bool" where
  "free_spot h bp p \<longleftrightarrow> (p < bp \<and> bp < nxt h p) \<or> (nxt h p \<le> p \<and> (p < bp \<or> bp < nxt h p))"

definition join_next :: "u32 \<Rightarrow> u32 \<Rightarrow> uheap \<Rightarrow> uheap" where
  "join_next bp p h =
     (if bp + 8 * siz h bp = nxt h p
      then let h = upd_hdr bp (\<lambda>x. x\<lparr>hsize := hsize x + siz h (nxt h p)\<rparr>) h
           in upd_hdr bp (\<lambda>x. x\<lparr>hptr := nxt h (nxt h p)\<rparr>) h
      else upd_hdr bp (\<lambda>x. x\<lparr>hptr := nxt h p\<rparr>) h)"

definition join_prev :: "u32 \<Rightarrow> u32 \<Rightarrow> uheap \<Rightarrow> uheap" where
  "join_prev bp p h =
     (if p + 8 * siz h p = bp
      then let h = upd_hdr p (\<lambda>x. x\<lparr>hsize := hsize x + siz h bp\<rparr>) h
           in upd_hdr p (\<lambda>x. x\<lparr>hptr := nxt h bp\<rparr>) h
      else upd_hdr p (\<lambda>x. x\<lparr>hptr := bp\<rparr>) h)"

definition ufree :: "u32 \<Rightarrow> uheap \<Rightarrow> uheap kresult" where
  "ufree ap h =
     (let bp = ap - 8 in
      kbind (kwhile (\<lambda>p. \<not> free_spot h bp p) (\<lambda>p. Done (nxt h p)) (freep h)) (\<lambda>p.
      Done ((join_prev bp p (join_next bp p h))\<lparr>freep := p\<rparr>)))"






section \<open>The ring of free blocks\<close>

text \<open>The bytes of a block, and what it means that one block ends before another begins.\<close>

definition block :: "uheap \<Rightarrow> u32 \<Rightarrow> nat set" where
  "block h a = {unat a ..< unat a + 8 * unat (siz h a)}"

definition ends_before :: "uheap \<Rightarrow> u32 \<Rightarrow> u32 \<Rightarrow> bool" where
  "ends_before h a b \<longleftrightarrow> unat a + 8 * unat (siz h a) < unat b"

definition linked :: "uheap \<Rightarrow> u32 list \<Rightarrow> bool" where
  "linked h cs = successively (\<lambda>a b. nxt h a = b) cs"

definition in_heap :: "uheap \<Rightarrow> u32 \<Rightarrow> bool" where
  "in_heap h a \<longleftrightarrow> unat (base h) + 8 \<le> unat a \<and> 0 < unat (siz h a) \<and> unat a + 8 * unat (siz h a) \<le> unat (brk h)"

text \<open>
  \<open>heap_ok h as al\<close>: \<open>as\<close> are the free blocks in the order of the ring behind the static header, and \<open>al\<close> the blocks
  handed out. Blocks lie inside of the heap and are disjoint, and between two free blocks there is a gap, so every
  two free blocks that touch have been joined.
\<close>

definition ring_ok :: "uheap \<Rightarrow> u32 list \<Rightarrow> bool" where
  "ring_ok h as \<longleftrightarrow> linked h (base h # as @ [base h]) \<and> sorted_wrt (ends_before h) as \<and> (\<forall>a\<in>set as. in_heap h a)
     \<and> siz h (base h) = 0 \<and> base h \<noteq> 0 \<and> freep h \<in> set (base h # as) \<and> unat (base h) + 8 \<le> unat (brk h) \<and> unat (brk h) < 2 ^ 31"

definition used_ok :: "uheap \<Rightarrow> u32 list \<Rightarrow> u32 set \<Rightarrow> bool" where
  "used_ok h as al \<longleftrightarrow> (\<forall>a\<in>al. in_heap h a \<and> (\<forall>b\<in>al \<union> set as. a \<noteq> b \<longrightarrow> block h a \<inter> block h b = {}) \<and> a \<notin> set as)"

definition heap_ok :: "uheap \<Rightarrow> u32 list \<Rightarrow> u32 set \<Rightarrow> bool" where
  "heap_ok h as al \<longleftrightarrow>
     (if freep h = 0 then as = [] \<and> al = {} \<and> base h \<noteq> 0 \<and> unat (base h) + 8 \<le> unat (brk h) \<and> unat (brk h) < 2 ^ 31
      else ring_ok h as \<and> used_ok h as al)"

lemma upd_hdr_simps [simp]:
  "hdr (upd_hdr p f h) q = (if q = p then f (hdr h p) else hdr h q)" "base (upd_hdr p f h) = base h"
  "freep (upd_hdr p f h) = freep h" "brk (upd_hdr p f h) = brk h"
  by (simp_all add: upd_hdr_def)

lemma chain_append: "linked h (xs @ ys) \<longleftrightarrow> linked h xs \<and> linked h ys \<and> (xs = [] \<or> ys = [] \<or> nxt h (last xs) = hd ys)"
  by (simp add: linked_def successively_append_iff)

lemma chain_simps [simp]: "linked h []" "linked h [a]" "linked h (a # b # cs) \<longleftrightarrow> nxt h a = b \<and> linked h (b # cs)"
  by (simp_all add: linked_def)

lemma chain_cong: "(\<And>a. a \<in> set (butlast cs) \<Longrightarrow> nxt h' a = nxt h a) \<Longrightarrow> linked h' cs = linked h cs"
  by (induction cs rule: induct_list012) auto

lemma chain_next: "linked h (us @ p # vs) \<Longrightarrow> vs \<noteq> [] \<Longrightarrow> nxt h p = hd vs"
  by (cases vs) (simp_all add: chain_append)

lemma sorted_wrt_less_ends: "sorted_wrt (ends_before h) as \<Longrightarrow> sorted_wrt (<) as"
  by (erule sorted_wrt_mono_rel [rotated]) (simp add: ends_before_def word_less_nat_alt)

lemma ring_sorted: assumes "ring_ok h as" shows "sorted_wrt (<) (base h # as)"
proof -
  have "\<forall>a\<in>set as. base h < a" using assms by (auto simp: ring_ok_def in_heap_def word_less_nat_alt)
  then show ?thesis using assms sorted_wrt_less_ends by (auto simp: ring_ok_def)
qed

lemma ring_split:
  assumes "ring_ok h as" and "p \<in> set (base h # as)"
  shows "\<exists>us ys. base h # as = us @ p # ys \<and> nxt h p = hd (ys @ [base h]) \<and> (\<forall>x\<in>set us. x < p) \<and> (\<forall>y\<in>set ys. p < y)"
proof -
  obtain us ys where s: "base h # as = us @ p # ys" using assms(2) split_list by metis
  have "linked h ((base h # as) @ [base h])" using assms(1) by (simp add: ring_ok_def)
  then have "linked h (us @ p # (ys @ [base h]))" unfolding s by simp
  then have "nxt h p = hd (ys @ [base h])" by (rule chain_next) simp
  moreover have "sorted_wrt (<) (us @ p # ys)" using ring_sorted [OF assms(1)] unfolding s .
  ultimately show ?thesis using s by (auto simp: sorted_wrt_append)
qed

text \<open>The loop of \<open>free\<close> finds the block below, from wherever it starts.\<close>

definition spot_dist :: "uheap \<Rightarrow> u32 list \<Rightarrow> u32 \<Rightarrow> u32 \<Rightarrow> nat" where
  "spot_dist h as bp p = card {x \<in> set (base h # as). p < x} + (if p < bp then 0 else length as + 2)"

lemma spot_found:
  assumes "ring_ok h as" and "bp \<notin> set (base h # as)" and "base h < bp"
  shows "\<exists>p. kwhile (\<lambda>p. \<not> free_spot h bp p) (\<lambda>p. Done (nxt h p)) (freep h) = Done p \<and> p \<in> set (base h # as) \<and> free_spot h bp p"
proof -
  let ?I = "\<lambda>p. p \<in> set (base h # as)"
  have "\<exists>y. Done (nxt h p) = Done y \<and> ?I y \<and> spot_dist h as bp y < spot_dist h as bp p" if p: "?I p" "\<not> free_spot h bp p" for p
  proof -
    obtain us ys where s: "base h # as = us @ p # ys" "nxt h p = hd (ys @ [base h])" "\<forall>x\<in>set us. x < p" "\<forall>y\<in>set ys. p < y"
      using ring_split [OF assms(1) p(1)] by blast
    have card: "card {x \<in> set (base h # as). q < x} \<le> length as + 1" for q
      using card_mono [of "set (base h # as)" "{x \<in> set (base h # as). q < x}"] card_length [of "base h # as"] by fastforce
    show ?thesis
    proof (cases ys)
      case Nil
      then have n: "nxt h p = base h" using s(2) by simp
      have "base h \<le> p" using ring_sorted [OF assms(1)] p(1) by auto
      then have "\<not> p < bp" using p(2) n by (simp add: free_spot_def)
      then show ?thesis using n assms(3) card [of "base h"] card [of p] by (simp add: spot_dist_def)
    next
      case (Cons y zs)
      then have n: "nxt h p = y" "p < y" "y \<in> set (base h # as)" using s by auto
      have "{x \<in> set (base h # as). y < x} \<subset> {x \<in> set (base h # as). p < x}"
        using n(2,3) by (intro psubsetI subsetI) (auto simp: set_eq_iff)
      then have "card {x \<in> set (base h # as). y < x} < card {x \<in> set (base h # as). p < x}" by (intro psubset_card_mono) auto
      moreover have "y < bp \<or> \<not> p < bp" using p(2) n assms(2) unfolding free_spot_def by (metis linorder_cases)
      ultimately show ?thesis using n by (auto simp: spot_dist_def)
    qed
  qed
  moreover have "?I (freep h)" using assms(1) by (simp add: ring_ok_def)
  ultimately show ?thesis using kwhile_rule [of ?I "freep h" "\<lambda>p. \<not> free_spot h bp p" "\<lambda>p. Done (nxt h p)" "spot_dist h as bp"] by auto
qed

lemma spot_split:
  assumes "ring_ok h as" and "p \<in> set (base h # as)" and "free_spot h bp p" and "base h < bp"
  shows "\<exists>us ys. base h # as = us @ p # ys \<and> nxt h p = hd (ys @ [base h]) \<and> (\<forall>x\<in>set us. x < p) \<and> p < bp \<and> (\<forall>y\<in>set ys. bp < y)"
proof -
  obtain us ys where s: "base h # as = us @ p # ys" "nxt h p = hd (ys @ [base h])" "\<forall>x\<in>set us. x < p" "\<forall>y\<in>set ys. p < y"
    using ring_split [OF assms(1,2)] by blast
  have sorted: "sorted_wrt (<) (us @ p # ys)" using ring_sorted [OF assms(1)] unfolding s(1) .
  show ?thesis
  proof (cases ys)
    case Nil
    then have "nxt h p = base h" using s(2) by simp
    moreover have "base h \<le> p" using ring_sorted [OF assms(1)] assms(2) by auto
    ultimately have "p < bp" using assms(3,4) by (auto simp: free_spot_def)
    moreover have "\<forall>y\<in>set ys. bp < y" using Nil by simp
    ultimately show ?thesis using s by blast
  next
    case (Cons y zs)
    then have y: "nxt h p = y" "p < y" "\<forall>z\<in>set zs. y < z" using s sorted by (auto simp: sorted_wrt_append)
    then have b: "p < bp" "bp < y" using assms(3) by (auto simp: free_spot_def)
    then have "\<forall>z\<in>set ys. bp < z" using y(3) Cons by fastforce
    then show ?thesis using s b(1) by blast
  qed
qed

section \<open>Giving a block back\<close>

definition area :: "uheap \<Rightarrow> u32 set \<Rightarrow> nat set" where
  "area h A = (\<Union>a\<in>A. block h a)"

lemma area_simps [simp]: "area h {} = {}" "area h (insert a A) = block h a \<union> area h A" "area h (A \<union> A') = area h A \<union> area h A'"
  by (auto simp: area_def)

lemma area_cong: "(\<And>a. a \<in> A \<Longrightarrow> siz h' a = siz h a) \<Longrightarrow> area h' A = area h A"
  by (simp add: area_def block_def)

lemma end_unat:
  assumes "in_heap h a" and "unat (brk h) < 2 ^ 31"
  shows "unat (a + 8 * siz h a) = unat a + 8 * unat (siz h a)"
proof -
  have b: "unat a + 8 * unat (siz h a) < 2 ^ 31" using assms by (simp add: in_heap_def)
  then have "unat (8 * siz h a) = 8 * unat (siz h a)" by (simp add: unat_word_ariths)
  then show ?thesis using b by (simp add: unat_add_u32)
qed

lemma end_eq:
  assumes "in_heap h a" and "unat (brk h) < 2 ^ 31"
  shows "a + 8 * siz h a = b \<longleftrightarrow> unat a + 8 * unat (siz h a) = unat b"
  unfolding word_unat_eq_iff end_unat [OF assms] ..

lemma ends_cong: "siz h' a = siz h a \<Longrightarrow> ends_before h' a b = ends_before h a b"
  by (simp add: ends_before_def)

lemma sorted_ends_cong: "(\<And>a. a \<in> set as \<Longrightarrow> siz h' a = siz h a) \<Longrightarrow> sorted_wrt (ends_before h') as = sorted_wrt (ends_before h) as"
  by (induction as) (simp_all add: ends_before_def)

lemma block_apart: "block h a \<inter> block h b = {} \<Longrightarrow> a < b \<Longrightarrow> 0 < unat (siz h b) \<Longrightarrow> unat a + 8 * unat (siz h a) \<le> unat b"
  by (rule ccontr) (auto simp: block_def disjoint_iff word_less_nat_alt)

lemma join_next_ok:
  assumes bp: "in_heap h bp" "unat (brk h) < 2 ^ 31" "p \<noteq> bp" and nx: "nxt h p = hd (ys @ [base h])"
    and lk: "linked h (ys @ [base h])" and ys: "\<forall>y\<in>set ys. in_heap h y \<and> bp < y \<and> block h bp \<inter> block h y = {}"
    and so: "sorted_wrt (ends_before h) ys"
  shows "\<exists>h1 ys1. join_next bp p h = h1 \<and> base h1 = base h \<and> brk h1 = brk h \<and> freep h1 = freep h \<and> (\<forall>c. c \<noteq> bp \<longrightarrow> hdr h1 c = hdr h c)
    \<and> set ys1 \<subseteq> set ys \<and> linked h1 (bp # ys1 @ [base h]) \<and> sorted_wrt (ends_before h1) (bp # ys1) \<and> in_heap h1 bp
    \<and> area h1 (insert bp (set ys1)) = area h (insert bp (set ys)) \<and> unat (siz h bp) \<le> unat (siz h1 bp)"
proof -
  have B: "unat (base h) < unat bp" using bp(1) by (simp add: in_heap_def)
  have nin: "bp \<notin> set ys" "bp \<noteq> base h" using ys B by auto
  have E: "unat bp + 8 * unat (siz h bp) \<le> unat y" if "y \<in> set ys" for y
    using that ys block_apart [of h bp y] by (simp add: in_heap_def)
  show ?thesis
  proof (cases "bp + 8 * siz h bp = nxt h p")
    case False
    let ?h = "upd_hdr bp (\<lambda>x. x\<lparr>hptr := nxt h p\<rparr>) h"
    have "linked ?h (ys @ [base h]) = linked h (ys @ [base h])" using nin by (intro chain_cong) (auto dest: in_set_butlastD)
    then have l: "linked ?h (bp # ys @ [base h])" using lk nx by (cases ys) simp_all
    have "ends_before h bp y" if "y \<in> set ys" for y
    proof (cases ys)
      case (Cons y0 zs)
      have "unat bp + 8 * unat (siz h bp) \<noteq> unat y0" using False nx Cons end_eq [OF bp(1,2), of y0] by simp
      then have "unat bp + 8 * unat (siz h bp) < unat y0" using E [of y0] Cons by simp
      moreover have "unat y0 \<le> unat y" using so that Cons by (auto simp: ends_before_def)
      ultimately show ?thesis by (simp add: ends_before_def)
    qed (use that in simp)
    then have s: "sorted_wrt (ends_before ?h) (bp # ys)" using so sorted_ends_cong [of ys ?h h] by (simp add: ends_before_def)
    have "area ?h (insert bp (set ys)) = area h (insert bp (set ys))" by (rule area_cong) simp
    then show ?thesis using l s False bp(1)
      by (intro exI [of _ ?h] exI [of _ ys]) (simp add: join_next_def in_heap_def)
  next
    case True
    have "ys \<noteq> []" using True nx B end_eq [OF bp(1,2), of "base h"] by auto
    then obtain y zs where y: "ys = y # zs" by (cases ys) auto
    have e: "unat bp + 8 * unat (siz h bp) = unat y" using True nx y end_eq [OF bp(1,2), of y] by simp
    have ny: "bp \<noteq> y" "nxt h y = hd (zs @ [base h])" using nin lk y by (auto, cases zs) simp_all
    let ?h = "join_next bp p h"
    have h: "base ?h = base h" "brk ?h = brk h" "freep ?h = freep h" "\<forall>c. c \<noteq> bp \<longrightarrow> hdr ?h c = hdr h c"
      "siz ?h bp = siz h bp + siz h y" "nxt ?h bp = nxt h y"
      using True nx y ny(1) bp(3) by (simp_all add: join_next_def Let_def)
    have hy: "in_heap h y" using ys y by simp
    then have sum: "unat (siz h bp) + unat (siz h y) < 2 ^ 31" using bp(2) e by (simp add: in_heap_def)
    then have sz: "unat (siz ?h bp) = unat (siz h bp) + unat (siz h y)" unfolding h(5) by (simp add: unat_add_u32)
    have "linked ?h (zs @ [base h]) = linked h (zs @ [base h])"
      using nin y h(4) by (intro chain_cong) (auto dest: in_set_butlastD)
    then have l: "linked ?h (bp # zs @ [base h])" using lk y ny(2) h(6) by (cases zs) simp_all
    have "ends_before ?h bp z" if "z \<in> set zs" for z
      using that so y e sz by (auto simp: ends_before_def)
    moreover have "sorted_wrt (ends_before ?h) zs = sorted_wrt (ends_before h) zs" using nin y h(4) by (intro sorted_ends_cong) auto
    ultimately have s: "sorted_wrt (ends_before ?h) (bp # zs)" using so y by simp
    have "block ?h bp = block h bp \<union> block h y" using e sz by (auto simp: block_def)
    moreover have "area ?h (set zs) = area h (set zs)" using nin y h(4) by (intro area_cong) auto
    ultimately have a: "area ?h (insert bp (set zs)) = area h (insert bp (set ys))" using y by auto
    have "in_heap ?h bp" using bp(1) hy e sz h(1,2) by (simp add: in_heap_def)
    moreover have "unat (siz h bp) \<le> unat (siz ?h bp)" using sz by simp
    ultimately show ?thesis using h(1-4) l s a y by (intro exI [of _ ?h] exI [of _ zs]) auto
  qed
qed

lemma join_prev_ok:
  assumes bp: "in_heap h bp" "unat (brk h) < 2 ^ 31" and B: "siz h (base h) = 0"
    and lk1: "linked h (base h # xs)" and p: "p = last (base h # xs)" and sx: "sorted_wrt (ends_before h) xs"
    and xs: "\<forall>x\<in>set xs. in_heap h x \<and> x < bp \<and> block h x \<inter> block h bp = {}"
    and lk2: "linked h (bp # ys @ [base h])" and sy: "sorted_wrt (ends_before h) (bp # ys)" and ys: "\<forall>y\<in>set ys. in_heap h y \<and> bp < y"
  shows "\<exists>h2 zs. join_prev bp p h = h2 \<and> base h2 = base h \<and> brk h2 = brk h \<and> freep h2 = freep h \<and> (\<forall>c. c \<noteq> p \<longrightarrow> hdr h2 c = hdr h c)
    \<and> set zs \<subseteq> set xs \<union> {bp} \<union> set ys \<and> linked h2 (base h # zs @ [base h]) \<and> sorted_wrt (ends_before h2) zs \<and> (\<forall>a\<in>set zs. in_heap h2 a)
    \<and> area h2 (set zs) = area h (set xs \<union> {bp} \<union> set ys) \<and> p \<in> set (base h # zs) \<and> siz h2 (base h) = 0
    \<and> (\<exists>x\<in>set zs. unat (siz h bp) \<le> unat (siz h2 x))"
proof -
  have Bbp: "unat (base h) < unat bp" "base h \<noteq> bp" using bp(1) by (auto simp: in_heap_def)
  have Bx: "base h \<noteq> x" if "x \<in> set xs \<union> set ys" for x using that xs ys by (auto simp: in_heap_def)
  have pp: "p \<noteq> bp" "p \<notin> set ys" "p \<notin> set (butlast (base h # xs))"
  proof -
    show "p \<noteq> bp" using p xs Bbp(2) by (cases xs rule: rev_cases) auto
    show "p \<notin> set ys" using p xs ys Bx by (cases xs rule: rev_cases) fastforce+
    show "p \<notin> set (butlast (base h # xs))"
      using p Bx sx by (cases xs rule: rev_cases) (auto simp: butlast_append sorted_wrt_append ends_before_def)
  qed
  have E: "unat x + 8 * unat (siz h x) \<le> unat bp" if "x \<in> set xs" for x
    using that xs bp(1) block_apart [of h x bp] by (simp add: in_heap_def)
  have lk: "linked h2 (base h # zs @ [base h])" if "\<forall>c. c \<noteq> p \<longrightarrow> hdr h2 c = hdr h c" "zs = xs @ vs" "vs = bp # ys \<or> vs = ys" "nxt h2 p = hd (vs @ [base h])" for h2 vs zs
  proof -
    have "linked h2 (base h # xs)" using lk1 that(1) pp(3) chain_cong [of "base h # xs" h2 h] by metis
    moreover have "linked h (vs @ [base h])" using that(3) lk2 by (cases ys) auto
    then have "linked h2 (vs @ [base h])"
      using that(1,3) pp(1,2) chain_cong [of "vs @ [base h]" h2 h] by (metis butlast_snoc set_ConsD)
    ultimately have "linked h2 ((base h # xs) @ (vs @ [base h]))" using that(4) p unfolding chain_append by simp
    then show ?thesis using that(2) by simp
  qed
  show ?thesis
  proof (cases "xs \<noteq> [] \<and> p + 8 * siz h p = bp")
    case False
    then have ne: "p + 8 * siz h p \<noteq> bp" using p B Bbp(2) by (cases xs) auto
    let ?h = "upd_hdr p (\<lambda>x. x\<lparr>hptr := bp\<rparr>) h"
    have j: "join_prev bp p h = ?h" using ne by (simp add: join_prev_def)
    have "ends_before h x bp" if x: "x \<in> set xs" for x
    proof (cases "x = p")
      case True
      then show ?thesis using E [OF x] ne end_eq [of h p bp] x xs bp(2) by (auto simp: ends_before_def)
    next
      case False
      obtain vs where v: "xs = vs @ [p]" using x p by (cases xs rule: rev_cases) auto
      then have "ends_before h x p" using x False sx by (auto simp: sorted_wrt_append)
      moreover have "unat p \<le> unat bp" using E [of p] v by simp
      ultimately show ?thesis by (simp add: ends_before_def)
    qed
    then have "sorted_wrt (ends_before h) (xs @ bp # ys)" using sx sy by (fastforce simp: sorted_wrt_append ends_before_def)
    then have s: "sorted_wrt (ends_before ?h) (xs @ bp # ys)" using sorted_ends_cong [of "xs @ bp # ys" ?h h] by simp
    have l: "linked ?h (base h # (xs @ bp # ys) @ [base h])" by (rule lk [of _ _ "bp # ys"]) simp_all
    have "area ?h (set (xs @ bp # ys)) = area h (set (xs @ bp # ys))" by (rule area_cong) simp
    moreover have "p \<in> set (base h # (xs @ bp # ys))" using p by (cases xs rule: rev_cases) auto
    moreover have "\<forall>a\<in>set (xs @ bp # ys). in_heap ?h a" using xs ys bp(1) by (auto simp: in_heap_def)
    ultimately show ?thesis using l s B unfolding j
      by (intro exI [of _ ?h] exI [of _ "xs @ bp # ys"]) (simp add: insert_commute Un_commute, metis)
  next
    case True
    then obtain vs where v: "xs = vs @ [p]" using p by (cases xs rule: rev_cases) auto
    have hp: "in_heap h p" using xs v by simp
    have e: "unat p + 8 * unat (siz h p) = unat bp" using True end_eq [OF hp bp(2)] by blast
    let ?h = "join_prev bp p h"
    have h: "base ?h = base h" "brk ?h = brk h" "freep ?h = freep h" "\<forall>c. c \<noteq> p \<longrightarrow> hdr ?h c = hdr h c"
      "siz ?h p = siz h p + siz h bp" "nxt ?h p = nxt h bp"
      using True pp(1) by (simp_all add: join_prev_def Let_def)
    have "unat (siz h p) + unat (siz h bp) < 2 ^ 31" using bp e by (simp add: in_heap_def)
    then have sz: "unat (siz ?h p) = unat (siz h p) + unat (siz h bp)" unfolding h(5) by (simp add: unat_add_u32)
    have "nxt h bp = hd (ys @ [base h])" using lk2 by (cases ys) simp_all
    then have l: "linked ?h (base h # (xs @ ys) @ [base h])" using h(4,6) by (intro lk [of _ _ ys]) simp_all
    have nv: "p \<notin> set vs" using pp(3) v by (simp add: butlast_append split: if_splits)
    have eb: "ends_before ?h x y \<longleftrightarrow> ends_before h x y" if "x \<in> set vs" for x y
      using that nv h(4) by (metis ends_cong)
    have "\<forall>y\<in>set ys. ends_before ?h p y" using sy e sz by (auto simp: ends_before_def)
    moreover have "\<forall>x\<in>set vs. \<forall>y\<in>set ys. ends_before h x y"
    proof (intro ballI)
      fix x y assume xy: "x \<in> set vs" "y \<in> set ys"
      then have "ends_before h x p" "unat bp < unat y" using sx v ys by (auto simp: sorted_wrt_append word_less_nat_alt)
      then show "ends_before h x y" using e by (simp add: ends_before_def)
    qed
    moreover have "sorted_wrt (ends_before ?h) vs = sorted_wrt (ends_before h) vs" using nv h(4) by (intro sorted_ends_cong) auto
    moreover have "sorted_wrt (ends_before ?h) ys = sorted_wrt (ends_before h) ys" using pp(2) h(4) by (intro sorted_ends_cong) auto
    ultimately have s: "sorted_wrt (ends_before ?h) (xs @ ys)" using sx sy v nv eb by (auto simp: sorted_wrt_append)
    have "block ?h p = block h p \<union> block h bp" using e sz by (auto simp: block_def)
    moreover have "area ?h (set vs) = area h (set vs)" "area ?h (set ys) = area h (set ys)"
      using nv pp(2) h(4) by (auto intro!: area_cong)
    ultimately have a: "area ?h (set (xs @ ys)) = area h (set xs \<union> {bp} \<union> set ys)" using v by auto
    have "in_heap ?h p" using hp bp(1) e sz h(1,2) by (simp add: in_heap_def)
    moreover have "in_heap ?h x" if "x \<in> set (vs @ ys)" "x \<noteq> p" for x using that xs ys v h by (auto simp: in_heap_def)
    ultimately have i: "\<forall>a\<in>set (xs @ ys). in_heap ?h a" using v by auto
    have "siz ?h (base h) = 0" using B Bx [of p] v h(4) by simp
    moreover have "unat (siz h bp) \<le> unat (siz ?h p)" using sz by simp
    ultimately show ?thesis using l s a i h(1-4) v by (intro exI [of _ ?h] exI [of _ "xs @ ys"]) auto
  qed
qed

text \<open>\<open>free\<close> puts any block that touches no free block into the ring.\<close>

lemma ufree_ring:
  assumes R: "ring_ok h as" and bp: "in_heap h bp" "bp \<notin> set as" "\<forall>b\<in>set as. block h bp \<inter> block h b = {}"
  shows "\<exists>h' as'. ufree (bp + 8) h = Done h' \<and> ring_ok h' as' \<and> base h' = base h \<and> brk h' = brk h
    \<and> (\<forall>c. c \<notin> set as \<union> {bp, base h} \<longrightarrow> hdr h' c = hdr h c) \<and> set as' \<subseteq> insert bp (set as)
    \<and> area h' (set as') = area h (insert bp (set as)) \<and> (\<exists>x\<in>set as'. unat (siz h bp) \<le> unat (siz h' x))"
proof -
  have B: "base h < bp" "bp \<noteq> base h" using bp(1) by (auto simp: in_heap_def word_less_nat_alt)
  have br: "unat (brk h) < 2 ^ 31" and sB: "siz h (base h) = 0" using R by (auto simp: ring_ok_def)
  have "bp \<notin> set (base h # as)" using bp(2) B(2) by simp
  then obtain p where p: "kwhile (\<lambda>p. \<not> free_spot h bp p) (\<lambda>p. Done (nxt h p)) (freep h) = Done p" "p \<in> set (base h # as)" "free_spot h bp p"
    using spot_found [OF R _ B(1)] by blast
  obtain us ys where s: "base h # as = us @ p # ys" "nxt h p = hd (ys @ [base h])" "\<forall>x\<in>set us. x < p" "p < bp" "\<forall>y\<in>set ys. bp < y"
    using spot_split [OF R p(2,3) B(1)] by blast
  obtain xs where xs: "us @ [p] = base h # xs" using s(1) by (cases us) auto
  then have as: "as = xs @ ys" using s(1) by (metis append.assoc append_Cons append_Nil list.inject)
  have pl: "p = last (base h # xs)" using xs by (metis last_snoc)
  have heap: "\<forall>a\<in>set as. in_heap h a" and sorted: "sorted_wrt (ends_before h) as" using R by (auto simp: ring_ok_def)
  have L: "linked h ((base h # xs) @ (ys @ [base h]))" using R as by (simp add: ring_ok_def)
  have lx: "linked h (base h # xs)" and ly: "linked h (ys @ [base h])" using L unfolding chain_append by blast+
  have ys: "\<forall>y\<in>set ys. in_heap h y \<and> bp < y \<and> block h bp \<inter> block h y = {}" using heap as s(5) bp(3) by simp
  have so: "sorted_wrt (ends_before h) ys" "sorted_wrt (ends_before h) xs" using sorted as by (simp_all add: sorted_wrt_append)
  have xb: "x < bp" if "x \<in> set xs" for x
  proof -
    have "x \<in> set (us @ [p])" using that xs by simp
    then show ?thesis using s(3,4) by auto
  qed
  have pne: "p \<noteq> bp" using s(4) by simp
  obtain h1 ys1 where h1: "join_next bp p h = h1" "base h1 = base h" "brk h1 = brk h" "freep h1 = freep h" "\<forall>c. c \<noteq> bp \<longrightarrow> hdr h1 c = hdr h c"
    "set ys1 \<subseteq> set ys" "linked h1 (bp # ys1 @ [base h])" "sorted_wrt (ends_before h1) (bp # ys1)" "in_heap h1 bp"
    "area h1 (insert bp (set ys1)) = area h (insert bp (set ys))" "unat (siz h bp) \<le> unat (siz h1 bp)"
    using join_next_ok [OF bp(1) br pne s(2) ly ys so(1)] by blast
  have nx: "bp \<notin> set (base h # xs)" using xb B(2) by auto
  have same: "siz h1 a = siz h a" "block h1 a = block h a" "in_heap h1 a = in_heap h a" if "a \<noteq> bp" for a
    using that h1(2,3,5) by (simp_all add: block_def in_heap_def)
  have lx1: "linked h1 (base h1 # xs)" using lx nx h1(2,5) chain_cong [of "base h # xs" h1 h] by (metis in_set_butlastD)
  have sx1: "sorted_wrt (ends_before h1) xs" using so(2) sorted_ends_cong [of xs h1 h] nx same(1) by (metis list.set_intros(2))
  have "area h (set xs) \<inter> block h bp = {}" using bp(3) as by (auto simp: area_def)
  have xs1: "\<forall>x\<in>set xs. in_heap h1 x \<and> x < bp \<and> block h1 x \<inter> block h1 bp = {}"
  proof (intro ballI conjI)
    fix x assume x: "x \<in> set xs"
    then have n: "x \<noteq> bp" using nx by auto
    show "in_heap h1 x" "x < bp" using x heap as same(3) [OF n] xb by auto
    have "block h x \<inter> block h a = {}" if a: "a \<in> insert bp (set ys)" for a
    proof (cases "a = bp")
      case True
      then show ?thesis using bp(3) x as by (auto simp: Int_commute)
    next
      case False
      then have "ends_before h x a" using a sorted as x by (simp add: sorted_wrt_append)
      then show ?thesis by (auto simp: ends_before_def block_def)
    qed
    then have "block h x \<inter> area h (insert bp (set ys)) = {}" by (auto simp: area_def)
    then show "block h1 x \<inter> block h1 bp = {}" using h1(10) same(2) [OF n] by auto
  qed
  have ys1: "\<forall>y\<in>set ys1. in_heap h1 y \<and> bp < y" using h1(6) ys same(3) by (metis subsetD less_irrefl)
  have B1: "siz h1 (base h1) = 0" "in_heap h1 bp" "unat (brk h1) < 2 ^ 31" using sB same(1) B(2) h1 br by simp_all
  obtain h2 zs where h2: "join_prev bp p h1 = h2" "base h2 = base h1" "brk h2 = brk h1" "freep h2 = freep h1" "\<forall>c. c \<noteq> p \<longrightarrow> hdr h2 c = hdr h1 c"
    "set zs \<subseteq> set xs \<union> {bp} \<union> set ys1" "linked h2 (base h1 # zs @ [base h1])" "sorted_wrt (ends_before h2) zs" "\<forall>a\<in>set zs. in_heap h2 a"
    "area h2 (set zs) = area h1 (set xs \<union> {bp} \<union> set ys1)" "p \<in> set (base h1 # zs)" "siz h2 (base h1) = 0"
    "\<exists>x\<in>set zs. unat (siz h1 bp) \<le> unat (siz h2 x)"
    using join_prev_ok [OF B1(2,3,1) lx1 pl [folded h1(2)] sx1 xs1 h1(7) [folded h1(2)] h1(8) ys1] by blast
  have pin: "p \<in> set as \<union> {base h}" using p(2) by auto
  let ?h = "h2\<lparr>freep := p\<rparr>"
  have "ufree (bp + 8) h = Done ?h" using p(1) h1(1) h2(1) by (simp add: ufree_def)
  moreover have "linked ?h = linked h2" "ends_before ?h = ends_before h2" "in_heap ?h = in_heap h2" "area ?h = area h2"
    by (simp_all add: fun_eq_iff linked_def ends_before_def in_heap_def area_def block_def)
  then have "ring_ok ?h zs" "area ?h (set zs) = area h2 (set zs)" using R h1(2,3) h2 by (simp_all add: ring_ok_def)
  moreover have "\<forall>c. c \<notin> set as \<union> {bp, base h} \<longrightarrow> hdr ?h c = hdr h c" using h1(5) h2(5) pin by auto
  moreover have "set zs \<subseteq> insert bp (set as)" using h2(6) h1(6) as by auto
  moreover have "area h2 (set zs) = area h (insert bp (set as))"
  proof -
    have "area h1 (set xs) = area h (set xs)" using nx by (intro area_cong same(1)) auto
    then show ?thesis using h2(10) h1(10) as by auto
  qed
  moreover have "\<exists>x\<in>set zs. unat (siz h bp) \<le> unat (siz ?h x)" using h1(11) h2(13) by force
  ultimately show ?thesis using h1(2,3) h2(2,3) by (intro exI [of _ ?h] exI [of _ zs]) simp
qed

lemma ring_nonzero: assumes "ring_ok h as" shows "freep h \<noteq> 0" and "0 \<notin> set as"
  using assms by (auto simp: ring_ok_def in_heap_def)

lemma used_ok_move:
  assumes u: "used_ok h as al" and sub: "al' \<subseteq> al" and same: "\<forall>b\<in>al'. hdr h' b = hdr h b"
    and b: "base h' = base h" "unat (brk h) \<le> unat (brk h')" and apart: "\<forall>b\<in>al'. block h b \<inter> area h' (set as') = {} \<and> b \<notin> set as'"
  shows "used_ok h' as' al'"
proof -
  have blk: "block h' b = block h b" if "b \<in> al'" for b using that same by (simp add: block_def)
  have "in_heap h' a" if "a \<in> al'" for a using that u sub same b by (force simp: used_ok_def in_heap_def)
  moreover have "block h' a \<inter> block h' b = {}" if "a \<in> al'" "b \<in> al' \<union> set as'" "a \<noteq> b" for a b
  proof (cases "b \<in> al'")
    case True
    then show ?thesis using that u sub blk unfolding used_ok_def by blast
  next
    case False
    then have "block h' b \<subseteq> area h' (set as')" using that(2) by (auto simp: area_def)
    then show ?thesis using that(1) apart blk by blast
  qed
  ultimately show ?thesis using apart by (auto simp: used_ok_def)
qed

lemma used_apart: assumes "used_ok h as al" and "b \<in> al" shows "block h b \<inter> area h (set as) = {}"
proof -
  have "block h b \<inter> block h a = {}" if "a \<in> set as" for a using assms that unfolding used_ok_def by fastforce
  then show ?thesis by (auto simp: area_def)
qed

lemma ufree_ok:
  assumes "heap_ok h as al" and a: "a \<in> al"
  shows "\<exists>h' as'. ufree (a + 8) h = Done h' \<and> heap_ok h' as' (al - {a}) \<and> area h' (set as') = area h (set as) \<union> block h a
    \<and> (\<forall>b\<in>al - {a}. hdr h' b = hdr h b) \<and> base h' = base h \<and> brk h' = brk h"
proof -
  have R: "ring_ok h as" and U: "used_ok h as al" using assms by (auto simp: heap_ok_def split: if_splits)
  have ua: "in_heap h a" "\<forall>b\<in>al \<union> set as. a \<noteq> b \<longrightarrow> block h a \<inter> block h b = {}" "a \<notin> set as"
    using bspec [OF U [unfolded used_ok_def] a] by simp_all
  then have bp: "in_heap h a" "a \<notin> set as" "\<forall>b\<in>set as. block h a \<inter> block h b = {}" by auto
  obtain h' as' where f: "ufree (a + 8) h = Done h'" "ring_ok h' as'" "base h' = base h" "brk h' = brk h"
    "\<forall>c. c \<notin> set as \<union> {a, base h} \<longrightarrow> hdr h' c = hdr h c" "set as' \<subseteq> insert a (set as)" "area h' (set as') = area h (insert a (set as))"
    using ufree_ring [OF R bp] by blast
  have nb: "b \<notin> set as" "b \<noteq> base h" if "b \<in> al" for b using U that by (auto simp: used_ok_def in_heap_def)
  have same: "\<forall>b\<in>al - {a}. hdr h' b = hdr h b" using f(5) nb by blast
  have "block h b \<inter> area h' (set as') = {} \<and> b \<notin> set as'" if b: "b \<in> al - {a}" for b
  proof -
    have "block h b \<inter> block h a = {}" using U a b unfolding used_ok_def by blast
    then have "block h b \<inter> area h' (set as') = {}" using used_apart [OF U, of b] b unfolding f(7) area_simps by blast
    then show ?thesis using f(6) nb(1) [of b] b by blast
  qed
  then have ap: "\<forall>b\<in>al - {a}. block h b \<inter> area h' (set as') = {} \<and> b \<notin> set as'" by blast
  have "used_ok h' as' (al - {a})" by (intro used_ok_move [OF U Diff_subset same f(3) _ ap]) (simp only: f(4))
  then have "heap_ok h' as' (al - {a})" using f(2) ring_nonzero(1) [OF f(2)] by (simp add: heap_ok_def)
  moreover have "area h' (set as') = area h (set as) \<union> block h a" unfolding f(7) area_simps by (rule Un_commute)
  ultimately show ?thesis using f(1,3,4) same by blast
qed

section \<open>Taking a block\<close>
















section \<open>The contract\<close>








text \<open>
  C5. \<open>free\<close> takes back any block that was handed out, whatever the order: the loop finds its place in the ring from wherever it
  starts, the block joins the free blocks it touches, so that afterwards again no two free blocks touch, the other blocks in use keep
  their headers, and no memory is lost or gained.
\<close>

theorem free_releases:
  assumes "heap_ok h as al" and "a \<in> al"
  shows "\<exists>h' as'. ufree (a + 8) h = Done h' \<and> heap_ok h' as' (al - {a}) \<and> sorted_wrt (ends_before h') as'
    \<and> area h' (set as') = area h (set as) \<union> block h a \<and> (\<forall>b\<in>al - {a}. hdr h' b = hdr h b) \<and> brk h' = brk h"
proof -
  obtain h' as' where f: "ufree (a + 8) h = Done h'" "heap_ok h' as' (al - {a})" "area h' (set as') = area h (set as) \<union> block h a"
    "\<forall>b\<in>al - {a}. hdr h' b = hdr h b" "brk h' = brk h"
    using ufree_ok [OF assms] by blast
  moreover have "sorted_wrt (ends_before h') as'" using f(2) by (auto simp: heap_ok_def ring_ok_def split: if_splits)
  ultimately show ?thesis by blast
qed

definition heap1 :: uheap where
  "heap1 = \<lparr>hdr = (\<lambda>_. \<lparr>hptr = 0, hsize = 4\<rparr>)(0x1000 := \<lparr>hptr = 0x2020, hsize = 0\<rparr>, 0x2020 := \<lparr>hptr = 0x1000, hsize = 2\<rparr>),
     base = 0x1000, freep = 0x2020, brk = 0x2030\<rparr>"

theorem free_releases_witness: "\<exists>h' as'. ufree 0x2008 heap1 = Done h' \<and> heap_ok h' as' {} \<and> area h' (set as') = {0x2000..<0x2030}"
proof -
  have ok: "heap_ok heap1 [0x2020] {0x2000}" "0x2000 \<in> {0x2000 :: u32}"
    by (simp_all add: heap_ok_def ring_ok_def used_ok_def in_heap_def heap1_def block_def)
  have "area heap1 (set [0x2020]) \<union> block heap1 0x2000 = {0x2000..<0x2030}"
    by (auto simp: area_def block_def heap1_def)
  then show ?thesis using free_releases [OF ok] by auto
qed

end
