(* ===== verification/Directory.thy ===== *)
theory Directory
  imports File_Data Icache_Correct
begin

text \<open>Directories: the file as an array of entries, \<open>dirlookup\<close> and \<open>dirlink\<close>.\<close>

section \<open>Names\<close>

text \<open>What \<open>strncmp(p, q, DIRSIZ)\<close> compares: the bytes before the first zero, at most 14.\<close>

definition cname :: "u8 list \<Rightarrow> u8 list" where
  "cname p = takeWhile (\<lambda>x. x \<noteq> 0) (take DIRSIZ p)"

lemma lstrncmp_eq: "lstrncmp n p q = 0 \<longleftrightarrow> takeWhile (\<lambda>x. x \<noteq> 0) (take n p) = takeWhile (\<lambda>x. x \<noteq> 0) (take n q)"
proof (induction n p q rule: lstrncmp.induct)
  case (2 n p q)
  have u: "uint a - uint b = 0 \<longleftrightarrow> a = b" for a b :: u8 by (simp add: word_uint_eq_iff)
  show ?case
  proof (cases p)
    case Nil
    then show ?thesis using u [of 0 "hd q"] by (cases q) (auto simp: Let_def)
  next
    case (Cons x xs)
    then show ?thesis using 2 u [of x "hd q"] u [of x 0] by (cases q) (auto simp: Let_def)
  qed
qed simp

lemma namecmp_eq: "namecmp p q = 0 \<longleftrightarrow> cname p = cname q"
  by (simp add: namecmp_def cname_def lstrncmp_eq)

section \<open>Entries\<close>

definition entry_at :: "contents \<Rightarrow> inode \<Rightarrow> nat \<Rightarrow> dirent" where
  "entry_at c x k = dec_dirent (map (fbyte c x) [16 * k..<16 * k + 16])"

definition entry_match :: "u8 list \<Rightarrow> dirent \<Rightarrow> bool" where
  "entry_match name e \<longleftrightarrow> de_inum e \<noteq> 0 \<and> cname (de_name e) = cname name"

definition first_entry :: "(dirent \<Rightarrow> bool) \<Rightarrow> contents \<Rightarrow> inode \<Rightarrow> nat option" where
  "first_entry P c x = List.find (\<lambda>k. P (entry_at c x k)) [0..<unat (isize x) div 16]"

text \<open>A directory whose blocks are all there.\<close>

definition dir_rep :: "kernel \<Rightarrow> contents \<Rightarrow> contents \<Rightarrow> nat \<Rightarrow> bool" where
  "dir_rep s d c dp \<longleftrightarrow> tx_rep s d c Map.empty \<and> file_ok s c (inodes s dp) \<and> all_mapped c (inodes s dp)
     \<and> itype (inodes s dp) = T_DIR \<and> 16 dvd unat (isize (inodes s dp))"

lemma dir_rep_frame: "dir_rep s d c dp \<Longrightarrow> tx_rep t d c Map.empty \<Longrightarrow> frame s t \<Longrightarrow> dir_rep t d c dp"
  using tx_step_checks(4) [OF tx_step_frame] by (auto simp: dir_rep_def frame_def)

lemma read_dirent_rep:
  assumes R: "dir_rep s d c dp" and k: "k < unat (isize (inodes s dp)) div 16"
  shows "\<exists>t. read_dirent dp (of_nat (16 * k)) s = Done (entry_at c (inodes s dp) k, t) \<and> tx_rep t d c Map.empty \<and> frame s t"
proof -
  let ?x = "inodes s dp"
  have T: "tx_rep s d c Map.empty" "file_ok s c ?x" "all_mapped c ?x" and ty: "itype ?x \<noteq> T_DEV" using R by (simp_all add: dir_rep_def T_DIR_def T_DEV_def)
  have sz: "unat (isize ?x) \<le> 71680" using T(3) by (simp add: all_mapped_def)
  have k16: "16 * k + 16 \<le> unat (isize ?x)" using k by (metis Suc_leI less_eq_div_iff_mult_less_eq mult.commute mult_Suc_right add.commute zero_less_numeral)
  have "16 * k < 2 ^ 32" using k16 sz by simp
  then have u: "unat (of_nat (16 * k) :: u32) = 16 * k" by (rule of_nat_u32)
  have p: "(of_nat (16 * k) :: u32) \<le> isize ?x" using k16 by (simp only: word_le_nat_alt u)
  have q: "unat (of_nat (16 * k) :: u32) + unat (16 :: u32) < 2 ^ 32" using k16 sz unfolding u by simp
  have m: "min (unat (16 :: u32)) (unat (isize ?x) - unat (of_nat (16 * k) :: u32)) = 16" using k16 unfolding u by simp
  obtain t where "readi dp (of_nat (16 * k)) 16 s = Done ((16, map (fbyte c ?x) [16 * k..<16 * k + 16]), t)" "tx_rep t d c Map.empty" "frame s t"
    using readi_rep [OF T ty p q, unfolded m, unfolded u] by auto
  then show ?thesis by (simp add: read_dirent_def entry_at_def)
qed

text \<open>A loop over the entries that stops at the first one with \<open>P\<close>.\<close>

lemma entry_loop:
  assumes R: "dir_rep s d c dp"
    and stop: "\<And>k t. frame s t \<Longrightarrow> P (entry_at c (inodes s dp) k) \<Longrightarrow> f (entry_at c (inodes s dp) k) (of_nat (16 * k)) t = g k t"
    and go: "\<And>k t. \<not> P (entry_at c (inodes s dp) k) \<Longrightarrow> f (entry_at c (inodes s dp) k) (of_nat (16 * k)) t = Done (Inl (of_nat (16 * k) + 16, t))"
  defines "loop \<equiv> kloop (\<lambda>(pos, s). pos < isize (inodes s dp)) (\<lambda>(pos, s). kbind (read_dirent dp pos s) (\<lambda>(de, s). f de pos s))"
  shows "case first_entry P c (inodes s dp) of
      None \<Rightarrow> \<exists>t. loop (0, s) = Done (Inl (isize (inodes s dp), t)) \<and> tx_rep t d c Map.empty \<and> frame s t
    | Some k \<Rightarrow> \<exists>t. loop (0, s) = kbind (g k t) (case_sum loop (\<lambda>r. Done (Inr r))) \<and> tx_rep t d c Map.empty \<and> frame s t"
proof -
  let ?x = "inodes s dp"
  let ?N = "unat (isize ?x) div 16"
  have n16: "unat (isize ?x) = 16 * ?N" "unat (isize ?x) \<le> 71680" using R by (auto simp: dir_rep_def all_mapped_def)
  have run: "case List.find (\<lambda>k. P (entry_at c ?x k)) [k..<?N] of
      None \<Rightarrow> \<exists>u. loop (of_nat (16 * k), t) = Done (Inl (isize ?x, u)) \<and> tx_rep u d c Map.empty \<and> frame s u
    | Some j \<Rightarrow> \<exists>u. loop (of_nat (16 * k), t) = kbind (g j u) (case_sum loop (\<lambda>r. Done (Inr r))) \<and> tx_rep u d c Map.empty \<and> frame s u"
    if "k \<le> ?N" "tx_rep t d c Map.empty" "frame s t" for k t
    using that
  proof (induction "?N - k" arbitrary: k t)
    case 0
    then have "16 * k = unat (isize ?x)" using n16(1) by simp
    moreover have "of_nat (unat (isize ?x)) = isize ?x" by simp
    ultimately have "(of_nat (16 * k) :: u32) = isize ?x" by (simp only:)
    moreover have "inodes t dp = ?x" using 0(4) by (simp add: frame_def)
    ultimately have "loop (of_nat (16 * k), t) = Done (Inl (isize ?x, t))" unfolding loop_def by (subst kloop_unfold) simp
    then show ?case using 0 by auto
  next
    case (Suc m)
    have k: "k < ?N" "[k..<?N] = k # [Suc k..<?N]" using Suc(2) by (simp_all add: upt_conv_Cons)
    have x: "inodes t dp = ?x" using Suc.prems(3) by (simp add: frame_def)
    have kt: "k < unat (isize (inodes t dp)) div 16" using k(1) unfolding x .
    obtain u where u: "read_dirent dp (of_nat (16 * k)) t = Done (entry_at c ?x k, u)" "tx_rep u d c Map.empty" "frame t u"
      using read_dirent_rep [OF dir_rep_frame [OF R Suc.prems(2,3)] kt] unfolding x by blast
    have su: "frame s u" by (rule frame_trans [OF Suc.prems(3) u(3)])
    have "16 * k < 71680" using k(1) n16 by linarith
    then have "16 * k < 2 ^ 32" by simp
    then have "unat (of_nat (16 * k) :: u32) = 16 * k" by (rule of_nat_u32)
    then have "(of_nat (16 * k) :: u32) < isize ?x" using k(1) n16(1) unfolding word_less_nat_alt by simp
    then have l: "loop (of_nat (16 * k), t) = kbind (f (entry_at c ?x k) (of_nat (16 * k)) u) (case_sum loop (\<lambda>r. Done (Inr r)))"
      unfolding loop_def by (subst kloop_unfold) (simp only: prod.case x if_True u(1) kbind.simps)
    show ?case
    proof (cases "P (entry_at c ?x k)")
      case True
      then show ?thesis using l stop [OF su True] u(2) su k(2) by auto
    next
      case False
      have e: "(of_nat (16 * k) :: u32) + 16 = of_nat (16 * Suc k)" by simp
      have l': "loop (of_nat (16 * k), t) = loop (of_nat (16 * Suc k), u)" using l go [OF False, of u] unfolding e by (simp only: kbind.simps sum.case)
      have "m = ?N - Suc k" "Suc k \<le> ?N" using Suc.hyps(2) k(1) by simp_all
      from Suc.hyps(1) [OF this u(2) su] False show ?thesis unfolding l' k(2) by simp
    qed
  qed
  have "tx_rep s d c Map.empty" using R by (simp add: dir_rep_def)
  moreover have z: "(of_nat (16 * 0) :: u32) = 0" by simp
  ultimately show ?thesis unfolding first_entry_def using run [of 0 s, unfolded z] by simp
qed

section \<open>dirlookup\<close>

text \<open>\<open>iget\<close> inside of a transaction.\<close>

lemma iget_tx:
  assumes R: "ref_rep s M" and ig: "iget dev i s = Done (ip, t)" and T: "tx_rep s d c Map.empty"
  shows "tx_rep t d c Map.empty" and "sb t = sb s" and "klog t = klog s" and "disksize t = disksize s" and "locked (locks t Licache) = 0"
    and "jp \<noteq> ip \<Longrightarrow> inodes t jp = inodes s jp"
proof -
  note cli = ref_repD(1) [OF R] and lock = ref_repD(2) [OF R]
  obtain f where t: "t = upd_inode ip f (crit Licache s)"
  proof (cases "find_inode dev i s")
    case (Some jp)
    let ?f = "\<lambda>x. x\<lparr>iref := iref x + 1\<rparr>"
    have "iget dev i s = Done (jp, upd_inode jp ?f (crit Licache s))" using Some lock icache_release [OF cli, of jp ?f] by (simp add: iget_def acquire_enter)
    then show ?thesis using ig that by simp
  next
    case None
    obtain jp where jp: "empty_inode s = Some jp" using ig None lock by (cases "empty_inode s") (auto simp: iget_def acquire_enter)
    let ?f = "\<lambda>x. x\<lparr>idev := dev, inum := i, iref := 1, I_BUSY := False, I_VALID := False\<rparr>"
    have "iget dev i s = Done (jp, upd_inode jp ?f (crit Licache s))" using None jp lock icache_release [OF cli, of jp ?f] by (simp add: iget_def acquire_enter)
    then show ?thesis using ig that by simp
  qed
  show "tx_rep t d c Map.empty" using tx_rep_crit [OF T] by (simp add: t)
  show "sb t = sb s" "klog t = klog s" "disksize t = disksize s" "jp \<noteq> ip \<Longrightarrow> inodes t jp = inodes s jp" by (simp_all add: t)
  show "locked (locks t Licache) = 0" using lock by (simp add: t crit_locked)
qed

lemma iget_fresh:
  assumes R: "ref_rep s M" and new: "(dev, i) \<notin># M" and free: "\<exists>jp<NINODE. iref (inodes s jp) = 0"
  shows "\<exists>ip t. iget dev i s = Done (ip, t) \<and> inodes t ip = (inodes s ip)\<lparr>idev := dev, inum := i, iref := 1, I_BUSY := False, I_VALID := False\<rparr>"
proof -
  note cli = ref_repD(1) [OF R] and lock = ref_repD(2) [OF R]
  have "find_inode dev i s = None" using find_inode_iff [OF R, of dev i] new by (cases "find_inode dev i s") auto
  moreover obtain jp where "empty_inode s = Some jp" using free by (cases "empty_inode s") (auto simp: empty_inode_def find_None_iff)
  ultimately show ?thesis
    using lock icache_release [OF cli, of jp "\<lambda>x. x\<lparr>idev := dev, inum := i, iref := 1, I_BUSY := False, I_VALID := False\<rparr>"]
    by (simp add: iget_def acquire_enter)
qed

lemma ref_rep_frame: "ref_rep s M \<Longrightarrow> frame s t \<Longrightarrow> ref_rep t M"
  by (auto simp: ref_rep_def frame_def)

lemma dirlookup_rep:
  assumes R: "dir_rep s d c dp"
  shows "first_entry (entry_match name) c (inodes s dp) = None \<Longrightarrow> \<exists>t. dirlookup dp name s = Done (None, t) \<and> tx_rep t d c Map.empty \<and> frame s t"
    and "first_entry (entry_match name) c (inodes s dp) = Some k \<Longrightarrow> \<exists>t. tx_rep t d c Map.empty \<and> frame s t
      \<and> dirlookup dp name s = kbind (iget 1 (ucast (de_inum (entry_at c (inodes s dp) k))) t) (\<lambda>(ip, u). Done (Some (ip, of_nat (16 * k)), u))"
proof -
  let ?x = "inodes s dp"
  let ?f = "\<lambda>de pos s. if de_inum de \<noteq> 0 \<and> namecmp name (de_name de) = 0 then
             kbind (iget (idev (inodes s dp)) (ucast (de_inum de)) s) (\<lambda>(ip, s). Done (Inr (Some (ip, pos), s)))
           else Done (Inl (pos + 16, s))"
  have ty: "itype ?x = T_DIR" and dev: "idev ?x = 1" using R by (simp_all add: dir_rep_def file_ok_def)
  have m: "de_inum e \<noteq> 0 \<and> namecmp name (de_name e) = 0 \<longleftrightarrow> entry_match name e" for e by (auto simp: entry_match_def namecmp_eq)
  let ?g = "\<lambda>k t. kbind (iget 1 (ucast (de_inum (entry_at c ?x k))) t) (\<lambda>(ip, u). Done (Inr (Some (ip, of_nat (16 * k) :: u32), u)))"
  have stop: "?f (entry_at c ?x k) (of_nat (16 * k)) t = ?g k t" if "frame s t" "entry_match name (entry_at c ?x k)" for k t
    using that dev unfolding m by (simp add: frame_def)
  have go: "?f (entry_at c ?x k) (of_nat (16 * k)) t = Done (Inl (of_nat (16 * k) + 16, t))" if "\<not> entry_match name (entry_at c ?x k)" for k t
    using that unfolding m by simp
  let ?loop = "kloop (\<lambda>(pos, s). pos < isize (inodes s dp)) (\<lambda>(pos, s). kbind (read_dirent dp pos s) (\<lambda>(de, s). ?f de pos s))"
  note run = entry_loop [where P = "entry_match name" and f = ?f and g = ?g, OF R stop go]
  have d: "dirlookup dp name s = kbind (?loop (0, s)) (\<lambda>r. case r of Inr x \<Rightarrow> Done x | Inl (_, s) \<Rightarrow> Done (None, s))"
    unfolding dirlookup_def ty by (simp only: kassert_simps simp_thms)
  show "first_entry (entry_match name) c ?x = None \<Longrightarrow> \<exists>t. dirlookup dp name s = Done (None, t) \<and> tx_rep t d c Map.empty \<and> frame s t"
    using run unfolding d by auto
  assume k: "first_entry (entry_match name) c ?x = Some k"
  then obtain t where t: "?loop (0, s) = kbind (?g k t) (case_sum ?loop (\<lambda>r. Done (Inr r)))" "tx_rep t d c Map.empty" "frame s t"
    using run by auto
  have "dirlookup dp name s = kbind (iget 1 (ucast (de_inum (entry_at c ?x k))) t) (\<lambda>(ip, u). Done (Some (ip, of_nat (16 * k)), u))"
    unfolding d t(1) by (cases "iget 1 (ucast (de_inum (entry_at c ?x k))) t") auto
  then show "\<exists>t. tx_rep t d c Map.empty \<and> frame s t
      \<and> dirlookup dp name s = kbind (iget 1 (ucast (de_inum (entry_at c ?x k))) t) (\<lambda>(ip, u). Done (Some (ip, of_nat (16 * k)), u))"
    using t(2,3) by blast
qed

section \<open>dirlink\<close>

lemma find_slot_rep:
  assumes R: "dir_rep s d c dp"
  defines "k \<equiv> case first_entry (\<lambda>e. de_inum e = 0) c (inodes s dp) of Some k \<Rightarrow> k | None \<Rightarrow> unat (isize (inodes s dp)) div 16"
  shows "\<exists>t. find_slot dp s = Done (of_nat (16 * k), t) \<and> tx_rep t d c Map.empty \<and> frame s t" and "k \<le> unat (isize (inodes s dp)) div 16"
proof -
  let ?x = "inodes s dp"
  let ?P = "\<lambda>e. de_inum e = 0" and ?g = "\<lambda>k t. Done (Inr (of_nat (16 * k) :: u32, t))"
  let ?f = "\<lambda>de pos s. if de_inum de = 0 then Done (Inr (pos, s)) else Done (Inl (pos + 16, s))"
  let ?loop = "kloop (\<lambda>(pos, s). pos < isize (inodes s dp)) (\<lambda>(pos, s). kbind (read_dirent dp pos s) (\<lambda>(de, s). ?f de pos s))"
  have run: "case first_entry ?P c ?x of
      None \<Rightarrow> \<exists>t. ?loop (0, s) = Done (Inl (isize ?x, t)) \<and> tx_rep t d c Map.empty \<and> frame s t
    | Some k \<Rightarrow> \<exists>t. ?loop (0, s) = kbind (?g k t) (case_sum ?loop (\<lambda>r. Done (Inr r))) \<and> tx_rep t d c Map.empty \<and> frame s t"
    by (rule entry_loop [OF R]) simp_all
  have e: "find_slot dp s = kbind (?loop (0, s)) (case_sum Done Done)" by (simp add: find_slot_def)
  show "k \<le> unat (isize ?x) div 16" by (auto simp: k_def first_entry_def find_Some_iff split: option.splits)
  have "unat (isize ?x) = 16 * (unat (isize ?x) div 16)" using R by (simp add: dir_rep_def)
  moreover have "of_nat (unat (isize ?x)) = isize ?x" by simp
  ultimately have z: "(of_nat (16 * (unat (isize ?x) div 16)) :: u32) = isize ?x" by (simp only:)
  show "\<exists>t. find_slot dp s = Done (of_nat (16 * k), t) \<and> tx_rep t d c Map.empty \<and> frame s t"
    using run unfolding e k_def by (cases "first_entry ?P c ?x") (auto simp: z simp del: of_nat_mult)
qed

lemma touched_entry: "touched (16 * k) 16 = {k div 32}"
proof -
  define q r where "q = k div 32" and "r = k mod 32"
  have r: "k = 32 * q + r" "r < 32" by (simp_all add: q_def r_def)
  then have k: "16 * k = 512 * q + 16 * r" "16 * r + 16 \<le> 512" by simp_all
  have "q \<le> j \<and> 512 * j < 16 * k + 16 \<longleftrightarrow> j = q" for j
  proof
    assume j: "q \<le> j \<and> 512 * j < 16 * k + 16"
    then have "512 * j < 512 * (q + 1)" using k by simp
    then show "j = q" using j by simp
  qed (use k in simp)
  moreover have "16 * k div 512 = q" by (simp add: q_def)
  ultimately show ?thesis by (auto simp: touched_def q_def)
qed

text \<open>The new entry, and where it is put.\<close>

definition new_entry :: "u8 list \<Rightarrow> u32 \<Rightarrow> dirent" where
  "new_entry name i = \<lparr>de_inum = ucast i, de_name = lstrncpy DIRSIZ name\<rparr>"

definition slot_for :: "contents \<Rightarrow> inode \<Rightarrow> nat" where
  "slot_for c x = (case first_entry (\<lambda>e. de_inum e = 0) c x of Some k \<Rightarrow> k | None \<Rightarrow> unat (isize x) div 16)"

lemma takeWhile_take: "takeWhile P (take n xs) = take n (takeWhile P xs)"
  by (induction xs arbitrary: n) (auto simp: take_Cons split: nat.splits)

lemma new_entry_name: "length (lstrncpy DIRSIZ name) = DIRSIZ" "cname (lstrncpy DIRSIZ name) = cname name"
proof -
  let ?q = "take DIRSIZ (takeWhile (\<lambda>b. b \<noteq> 0) name)"
  have l: "length ?q \<le> DIRSIZ" by simp
  then show "length (lstrncpy DIRSIZ name) = DIRSIZ" by (simp add: lstrncpy_def Let_def)
  have q: "b \<noteq> 0" if "b \<in> set ?q" for b using set_takeWhileD [OF in_set_takeD [OF that]] by blast
  have "takeWhile (\<lambda>b. b \<noteq> 0) (replicate n (0 :: u8)) = []" for n by (cases n) simp_all
  moreover have "takeWhile (\<lambda>b. b \<noteq> 0) (?q @ ys) = ?q @ takeWhile (\<lambda>b. b \<noteq> 0) ys" for ys by (rule takeWhile_append2) (rule q)
  ultimately have "takeWhile (\<lambda>b. b \<noteq> 0) (?q @ replicate n 0) = ?q" for n by (simp only: append_Nil2)
  moreover have "lstrncpy DIRSIZ name = ?q @ replicate (DIRSIZ - length ?q) 0" by (simp add: lstrncpy_def Let_def)
  ultimately have "cname (lstrncpy DIRSIZ name) = take DIRSIZ ?q" unfolding cname_def takeWhile_take by (simp only:)
  then show "cname (lstrncpy DIRSIZ name) = cname name" by (simp add: cname_def takeWhile_take)
qed

lemma ref_rep_inodes:
  assumes R: "ref_rep s M" and c: "cli_ok t" and l: "locked (locks t Licache) = locked (locks s Licache)"
    and i: "\<And>jp. \<exists>as z. inodes t jp = (inodes s jp)\<lparr>addrs := as, isize := z\<rparr>"
  shows "ref_rep t M"
proof -
  have e: "iref (inodes t jp) = iref (inodes s jp)" "key (inodes t jp) = key (inodes s jp)" for jp using i [of jp] by (auto simp: key_def)
  show ?thesis using R c l unfolding ref_rep_def e by simp
qed

text \<open>The entries after a write of 16 bytes at entry \<open>k\<close>.\<close>

lemma entry_written:
  assumes w: "file_written s c dp (enc_dirent e) (16 * k) 16 t c'" and e: "length (de_name e) = DIRSIZ" and j: "16 * j + 16 \<le> 71680"
  shows "entry_at c' (inodes t dp) j = (if j = k then e else entry_at c (inodes s dp) j)"
proof -
  have l: "length (enc_dirent e) = 16" using e by (simp add: enc_dirent_def DIRSIZ_def)
  have b: "fbyte c' (inodes t dp) r = (if 16 * k \<le> r \<and> r < 16 * k + 16 then enc_dirent e ! (r - 16 * k) else fbyte c (inodes s dp) r)" if "r < 71680" for r
    using w that unfolding file_written_def by blast
  show ?thesis
  proof (cases "j = k")
    case True
    have "map (fbyte c' (inodes t dp)) [16 * k..<16 * k + 16] = enc_dirent e"
      using b j True l by (intro nth_equalityI) simp_all
    then show ?thesis using True dec_enc_dirent [OF e] by (simp add: entry_at_def)
  next
    case False
    have "map (fbyte c' (inodes t dp)) [16 * j..<16 * j + 16] = map (fbyte c (inodes s dp)) [16 * j..<16 * j + 16]"
    proof (rule map_cong [OF refl])
      fix r assume "r \<in> set [16 * j..<16 * j + 16]"
      then have r: "16 * j \<le> r" "r < 16 * j + 16" by simp_all
      have "j < k \<or> k < j" using False by linarith
      then have "\<not> (16 * k \<le> r \<and> r < 16 * k + 16)" using r by linarith
      then show "fbyte c' (inodes t dp) r = fbyte c (inodes s dp) r" using b [of r] r(2) j by (simp only: if_False)
    qed
    then have "entry_at c' (inodes t dp) j = entry_at c (inodes s dp) j" unfolding entry_at_def by (rule arg_cong)
    then show ?thesis using False by simp
  qed
qed

lemma dirlink_rep:
  assumes I: "file_inv s d c dp" and al: "all_mapped c (inodes s dp)" and dok: "dinode_ok (dinode_of (inodes s dp))"
    and ib: "block_ok s c (inode_block s dp)" "inode_block s dp \<notin> blocks c (inodes s dp)"
    and dir: "itype (inodes s dp) = T_DIR" "16 dvd unat (isize (inodes s dp))" "unat (isize (inodes s dp)) + 16 \<le> 71680"
    and r: "room (int (card (bitmaps s)) + 8) s" and sp: "3 < card (spare s c)"
    and new: "first_entry (entry_match name) c (inodes s dp) = None" and M: "ref_rep s M"
  defines "k \<equiv> slot_for c (inodes s dp)"
  shows "\<exists>t c'. dirlink dp name i s = Done (0, t) \<and> dir_rep t d c' dp \<and> ref_rep t M
    \<and> unat (isize (inodes t dp)) div 16 = max (unat (isize (inodes s dp)) div 16) (Suc k)
    \<and> (\<forall>j. 16 * j + 16 \<le> 71680 \<longrightarrow> entry_at c' (inodes t dp) j = (if j = k then new_entry name i else entry_at c (inodes s dp) j))
    \<and> (\<forall>jp. \<exists>as z. inodes t jp = (inodes s jp)\<lparr>addrs := as, isize := z\<rparr>)"
proof -
  let ?x = "inodes s dp"
  let ?N = "unat (isize ?x) div 16" and ?e = "enc_dirent (new_entry name i)"
  have R: "dir_rep s d c dp" using I al dir by (simp add: dir_rep_def file_inv_def)
  obtain a where a: "dirlookup dp name s = Done (None, a)" "tx_rep a d c Map.empty" "frame s a" using dirlookup_rep(1) [OF R new] by blast
  have xa: "inodes a dp = ?x" using a(3) by (simp add: frame_def)
  note Ra = dir_rep_frame [OF R a(2,3)]
  obtain b where b: "find_slot dp a = Done (of_nat (16 * k), b)" "tx_rep b d c Map.empty" "frame a b"
    using find_slot_rep(1) [OF Ra] unfolding xa k_def slot_for_def by blast
  have k: "k \<le> ?N" using find_slot_rep(2) [OF Ra] unfolding xa k_def slot_for_def .
  have sb: "frame s b" by (rule frame_trans [OF a(3) b(3)])
  note ch = tx_step_checks [OF tx_step_frame [OF sb]]
  have ob: "inodes b = inodes s" "sb b = sb s" "room j b = room j s" "locked (locks b Licache) = locked (locks s Licache)" for j
    using sb by (simp_all add: frame_def room_def)
  have N: "unat (isize ?x) = 16 * ?N" using dir(2) by simp
  have "16 * k + 16 \<le> 71680" using k N dir(3) by linarith
  moreover have "16 * k < 2 ^ 32" using calculation by simp
  ultimately have u: "16 * k + 16 \<le> 71680" "unat (of_nat (16 * k) :: u32) = 16 * k" using of_nat_u32 by blast+
  have le: "(of_nat (16 * k) :: u32) \<le> isize ?x" using k N unfolding word_le_nat_alt u(2) by linarith
  have l: "length ?e = 16" "length (de_name (new_entry name i)) = DIRSIZ" by (simp_all add: enc_dirent_def new_entry_def new_entry_name) (simp add: DIRSIZ_def)
  have r': "room (8 + int (card (bitmaps s))) s" using r by (simp only: add.commute)
  have W: "file_inv b d c dp" "block_ok b c (inode_block b dp)" "inode_block b dp \<notin> blocks c (inodes b dp)"
    "room (int (card (bitmaps b)) + int (card (touched (unat (of_nat (16 * k) :: u32)) (unat (16 :: u32)))) + 7) b"
    using I b(2) ch ib r' ob(1,2) unfolding ob(3) u(2) by (simp_all add: file_inv_def inode_block_def touched_entry)
  have "card (touched (unat (of_nat (16 * k) :: u32)) (unat (16 :: u32))) + 2 < card (spare b c)"
    unfolding u(2) using sp ch by (simp add: touched_entry)
  then obtain t c' where t: "writei dp ?e (of_nat (16 * k)) 16 b = Done (16, t)" "file_inv t d c' dp" "file_written b c dp ?e (16 * k) 16 t c'"
    using writei_rep [OF W(1), of "of_nat (16 * k)" 16 ?e] al dok W(2-4) dir(1) le u l(1) unfolding ob(1) by (auto simp: T_DIR_def T_DEV_def)
  have y: "inodes t dp = ?x\<lparr>addrs := addrs (inodes t dp), isize := isize (inodes t dp)\<rparr>" "unat (isize (inodes t dp)) = max (unat (isize ?x)) (16 * k + 16)"
    "all_mapped c' (inodes t dp)" "\<And>jp. jp \<noteq> dp \<Longrightarrow> inodes t jp = inodes s jp" "locked (locks t Licache) = locked (locks s Licache)"
    using t(3) ob(1,4) unfolding file_written_def by auto
  have sz: "unat (isize (inodes t dp)) = 16 * max ?N (Suc k)" unfolding y(2) using N by (simp add: max_def)
  have "itype (inodes t dp) = T_DIR" by (subst y(1)) (simp add: dir(1))
  then have Rt: "dir_rep t d c' dp" using t(2) y(3) sz by (simp add: dir_rep_def file_inv_def)
  have al: "\<exists>as z. inodes t jp = (inodes s jp)\<lparr>addrs := as, isize := z\<rparr>" for jp
  proof (cases "jp = dp")
    case False
    then have "inodes t jp = (inodes s jp)\<lparr>addrs := addrs (inodes s jp), isize := isize (inodes s jp)\<rparr>" using y(4) by simp
    then show ?thesis by blast
  qed (use y(1) in blast)
  have "cli_ok t" using t(2) by (simp add: file_inv_def tx_rep_def cache_rep_def)
  then have "ref_rep t M" using ref_rep_inodes [OF M _ y(5) al] by blast
  moreover have "dirlink dp name i s = Done (0, t)" using a(1) b(1) t(1) by (simp add: dirlink_def new_entry_def)
  ultimately show ?thesis using Rt sz al entry_written [OF t(3) l(2)] unfolding ob(1) by (intro exI [of _ t] exI [of _ c']) simp
qed

end
