(* ===== verification/Mkfs.thy ===== *)
theory Mkfs
  imports File_Data
begin

text \<open>
  mkfs.c, the program on the host that makes the first disk: superblock, inodes, one root directory with the files given on the command
  line, and the bitmap. The image is a file of blocks; a block behind its end cannot be read. The host is little endian, as the target,
  so \<open>xint\<close> and \<open>xshort\<close> do not change a value. A file of the host is its name and the pieces in which \<open>read\<close> delivers
  its bytes; a failing assertion and an exit after an error end the run with a message.
\<close>

section \<open>The layout\<close>

definition FSSIZE :: u32 where "FSSIZE = 1000"
definition NINODES :: u32 where "NINODES = 200"
definition nbitmap :: u32 where "nbitmap = FSSIZE div (512 * 8) + 1"
definition ninodeblocks :: u32 where "ninodeblocks = NINODES div IPB + 1"
definition nlogblocks :: u32 where "nlogblocks = of_int LOGSIZE"
definition nmeta :: u32 where "nmeta = 2 + nlogblocks + ninodeblocks + nbitmap"

definition mk_sb :: superblock where
  "mk_sb = \<lparr>sb_size = FSSIZE, nblocks = FSSIZE - nmeta, ninodes = NINODES, nlog = nlogblocks, logstart = 2,
     inodestart = 2 + nlogblocks, bmapstart = 2 + nlogblocks + ninodeblocks\<rparr>"

section \<open>Blocks and inodes\<close>

record mkstate =
  img :: "u32 \<Rightarrow> u8 list option"
  freeinode :: u32
  freeblock :: u32

definition wsect :: "u32 \<Rightarrow> u8 list \<Rightarrow> mkstate \<Rightarrow> mkstate" where
  "wsect sec b s = s\<lparr>img := (img s)(sec \<mapsto> b)\<rparr>"

definition rsect :: "u32 \<Rightarrow> mkstate \<Rightarrow> u8 list kresult" where
  "rsect sec s = (case img s sec of Some b \<Rightarrow> Done b | None \<Rightarrow> Panic ''read'')"

definition winode :: "u32 \<Rightarrow> dinode \<Rightarrow> mkstate \<Rightarrow> mkstate kresult" where
  "winode i d s =
     (let bn = IBLOCK i mk_sb in
      kbind (rsect bn s) (\<lambda>b. Done (wsect bn (put_dinode b (unat (i mod IPB)) d) s)))"

definition rinode :: "u32 \<Rightarrow> mkstate \<Rightarrow> dinode kresult" where
  "rinode i s =
     (let bn = IBLOCK i mk_sb in
      kbind (rsect bn s) (\<lambda>b. Done (get_dinode b (unat (i mod IPB)))))"

definition mk_ialloc :: "int \<Rightarrow> mkstate \<Rightarrow> (u32 \<times> mkstate) kresult" where
  "mk_ialloc type s =
     (let i = freeinode s; s = s\<lparr>freeinode := i + 1\<rparr> in
      kbind (winode i \<lparr>d_type = type, d_major = 0, d_minor = 0, d_nlink = 1, d_size = 0, d_addrs = replicate 13 0\<rparr> s) (\<lambda>s.
      Done (i, s)))"

definition mk_balloc :: "nat \<Rightarrow> mkstate \<Rightarrow> mkstate kresult" where
  "mk_balloc used s =
     kassert (used < 512 * 8) ''assert''
       (Done (wsect (bmapstart mk_sb) (fold (\<lambda>j b. mark_bit b j) [0..<used] (replicate 512 0)) s))"

section \<open>Appending to a file\<close>

definition new_block :: "mkstate \<Rightarrow> u32 \<times> mkstate" where
  "new_block s = (freeblock s, s\<lparr>freeblock := freeblock s + 1\<rparr>)"

text \<open>The pointer \<open>k\<close> of the inode, set to a new block when it is 0.\<close>

definition din_addr :: "nat \<Rightarrow> dinode \<Rightarrow> mkstate \<Rightarrow> u32 \<times> dinode \<times> mkstate" where
  "din_addr k din s =
     (if d_addrs din ! k = 0
      then case new_block s of (x, s) \<Rightarrow> (x, din\<lparr>d_addrs := (d_addrs din)[k := x]\<rparr>, s)
      else (d_addrs din ! k, din, s))"

definition file_block :: "nat \<Rightarrow> dinode \<Rightarrow> mkstate \<Rightarrow> (u32 \<times> dinode \<times> mkstate) kresult" where
  "file_block fbn din s =
     (if fbn < NDIRECT then Done (din_addr fbn din s)
      else
        case din_addr NDIRECT din s of (ind, din, s) \<Rightarrow>
        kbind (rsect ind s) (\<lambda>b.
        let j = 4 * (fbn - NDIRECT); x = get32 b j in
        if x = 0
        then case new_block s of (x, s) \<Rightarrow> Done (x, din, wsect ind (put32 b j x) s)
        else Done (x, din, s)))"

text \<open>One turn of the loop: what of the bytes \<open>p\<close> fits into the block of offset \<open>ofs\<close>.\<close>

definition append_turn :: "u8 list \<times> nat \<times> dinode \<times> mkstate \<Rightarrow> (u8 list \<times> nat \<times> dinode \<times> mkstate) kresult" where
  "append_turn y =
     (case y of (p, ofs, din, s) \<Rightarrow>
      let fbn = ofs div 512 in
      kassert (fbn < MAXFILE) ''assert''
      (kbind (file_block fbn din s) (\<lambda>(x, din, s).
       let n1 = min (length p) ((fbn + 1) * 512 - ofs) in
       kbind (rsect x s) (\<lambda>b.
       Done (drop n1 p, ofs + n1, din, wsect x (blit b (ofs - fbn * 512) (take n1 p)) s)))))"

definition iappend :: "u32 \<Rightarrow> u8 list \<Rightarrow> mkstate \<Rightarrow> mkstate kresult" where
  "iappend i xp s =
     kbind (rinode i s) (\<lambda>din.
     kbind (kwhile (\<lambda>(p, ofs, din, s). p \<noteq> []) append_turn (xp, unat (d_size din), din, s)) (\<lambda>(p, ofs, din, s).
     winode i (din\<lparr>d_size := of_nat ofs\<rparr>) s))"

section \<open>main\<close>

definition pad_name :: "u8 list \<Rightarrow> u8 list" where
  "pad_name xs = take DIRSIZ (xs @ replicate DIRSIZ 0)"

text \<open>One file of the command line; a leading underscore is not part of its name.\<close>

definition add_file :: "u8 list \<times> u8 list list \<Rightarrow> mkstate \<Rightarrow> mkstate kresult" where
  "add_file f s =
     (case f of (name, pieces) \<Rightarrow>
      kassert (of_char CHR ''/'' \<notin> set name) ''assert''
      (let name = (if name \<noteq> [] \<and> hd name = of_char CHR ''_'' then tl name else name) in
       kbind (mk_ialloc T_FILE s) (\<lambda>(i, s).
       kbind (iappend ROOTINO (enc_dirent \<lparr>de_inum = ucast i, de_name = pad_name name\<rparr>) s) (\<lambda>s.
       kfold (iappend i) pieces s))))"

definition mkfs :: "(u8 list \<times> u8 list list) list \<Rightarrow> mkstate kresult" where
  "mkfs fs =
     (let s = \<lparr>img = (\<lambda>n. if n < FSSIZE then Some (replicate 512 0) else None), freeinode = 1, freeblock = nmeta\<rparr>;
          s = wsect 1 (blit (replicate 512 0) 0 (enc_superblock mk_sb)) s in
      kbind (mk_ialloc T_DIR s) (\<lambda>(root, s).
      kassert (root = ROOTINO) ''assert''
      (kbind (iappend root (enc_dirent \<lparr>de_inum = ucast root, de_name = pad_name [of_char CHR ''.'']\<rparr>) s) (\<lambda>s.
       kbind (iappend root (enc_dirent \<lparr>de_inum = ucast root, de_name = pad_name [of_char CHR ''.'', of_char CHR ''.'']\<rparr>) s) (\<lambda>s.
       kbind (kfold add_file fs s) (\<lambda>s.
       kbind (rinode root s) (\<lambda>din.
       let ofs = (d_size din div 512 + 1) * 512 in
       kbind (winode root (din\<lparr>d_size := ofs\<rparr>) s) (\<lambda>s.
       mk_balloc (unat (freeblock s)) s))))))))"

end
