(* ===== verification/Mkfs_Correct.thy ===== *)
theory Mkfs_Correct
  imports Mkfs
begin

text \<open>
  The image that mkfs writes is a file system: every inode owns its blocks alone, a file holds the bytes of the host's file, and the
  bitmap marks exactly the blocks below \<open>freeblock\<close>.
\<close>

section \<open>Blocks and their owners\<close>

text \<open>The blocks of the image; behind its end they count as zero. An inode of the disk, as an inode of the kernel.\<close>

definition blk :: "mkstate \<Rightarrow> contents" where
  "blk s n = (case img s n of Some b \<Rightarrow> b | None \<Rightarrow> replicate 512 0)"

definition ino :: "dinode \<Rightarrow> inode" where
  "ino d = of_dinode d \<lparr>idev = 1, inum = 0, iref = 0, I_BUSY = False, I_VALID = False, itype = 0, major = 0, minor = 0,
     nlink = 0, isize = 0, addrs = []\<rparr>"

lemma ino_addrs [simp]: "addrs (ino d) = d_addrs d"
  by (simp add: ino_def of_dinode_def)

text \<open>The pointers of the inodes \<open>D 0, \<dots>, D (m - 1)\<close>, and those that are set.\<close>

definition ptr :: "contents \<Rightarrow> (nat \<Rightarrow> dinode) \<Rightarrow> nat \<times> nat \<Rightarrow> u32" where
  "ptr c D q = slot_addr c (ino (D (fst q))) (snd q)"

definition ptrs :: "nat \<Rightarrow> (nat \<times> nat) set" where
  "ptrs m = {..<m} \<times> {..<141}"

definition set_ptrs :: "contents \<Rightarrow> (nat \<Rightarrow> dinode) \<Rightarrow> nat \<Rightarrow> (nat \<times> nat) set" where
  "set_ptrs c D m = {q \<in> ptrs m. ptr c D q \<noteq> 0}"

definition wf_image :: "contents \<Rightarrow> u32 \<Rightarrow> (nat \<Rightarrow> dinode) \<Rightarrow> nat \<Rightarrow> bool" where
  "wf_image c fb D m \<longleftrightarrow> (\<forall>j<m. length (d_addrs (D j)) = 13) \<and> inj_on (ptr c D) (set_ptrs c D m)
     \<and> (\<forall>q\<in>set_ptrs c D m. 59 \<le> unat (ptr c D q) \<and> unat (ptr c D q) < unat fb)
     \<and> unat fb = 59 + card (set_ptrs c D m) \<and> (\<forall>n. length (c n) = 512) \<and> (\<forall>n. unat fb \<le> unat n \<longrightarrow> c n = replicate 512 0)"

lemma finite_ptrs [simp]: "finite (ptrs m)" "finite (set_ptrs c D m)"
  by (simp_all add: ptrs_def set_ptrs_def)

text \<open>A step of the program that sets the pointers \<open>V\<close> and changes no byte of a file.\<close>

definition extends :: "(nat \<times> nat) set \<Rightarrow> nat \<Rightarrow> contents \<Rightarrow> (nat \<Rightarrow> dinode) \<Rightarrow> contents \<Rightarrow> (nat \<Rightarrow> dinode) \<Rightarrow> bool" where
  "extends V m c D c' D' \<longleftrightarrow> set_ptrs c' D' m = set_ptrs c D m \<union> V \<and> (\<forall>n. unat n < 59 \<longrightarrow> c' n = c n)
     \<and> (\<forall>j<m. \<forall>r<71680. fbyte c' (ino (D' j)) r = fbyte c (ino (D j)) r)"

lemma extends_refl: "V \<subseteq> set_ptrs c D m \<Longrightarrow> extends V m c D c D"
  by (auto simp: extends_def)

lemma extends_trans: "extends V m c D c' D' \<Longrightarrow> extends W m c' D' c'' D'' \<Longrightarrow> extends (V \<union> W) m c D c'' D''"
  by (simp add: extends_def Un_assoc)

lemma wf_ptr:
  assumes "wf_image c fb D m" and "q \<in> ptrs m" and "ptr c D q \<noteq> 0"
  shows "59 \<le> unat (ptr c D q)" and "unat (ptr c D q) < unat fb" and "p \<in> ptrs m \<Longrightarrow> ptr c D p = ptr c D q \<Longrightarrow> p = q"
proof -
  have q: "q \<in> set_ptrs c D m" using assms by (simp add: set_ptrs_def)
  then show "59 \<le> unat (ptr c D q)" "unat (ptr c D q) < unat fb" using assms(1) unfolding wf_image_def by blast+
  assume p: "p \<in> ptrs m" "ptr c D p = ptr c D q"
  then have "p \<in> set_ptrs c D m" using assms(3) by (simp add: set_ptrs_def)
  then show "p = q" using p(2) q assms(1) inj_onD [of "ptr c D" "set_ptrs c D m" p q] unfolding wf_image_def by blast
qed

text \<open>One pointer more.\<close>

lemma grow_image:
  assumes W: "wf_image c fb D m" and p: "p \<in> ptrs m" "ptr c D p = 0" and fb: "unat fb < 1000"
    and new: "\<And>q. q \<in> ptrs m \<Longrightarrow> ptr c' D' q = (if q = p then fb else ptr c D q)"
    and len: "\<And>j. j < m \<Longrightarrow> length (d_addrs (D' j)) = 13" "\<And>n. length (c' n) = 512"
    and old: "\<And>n. unat n < 59 \<or> unat fb \<le> unat n \<Longrightarrow> c' n = c n"
      "\<And>q. q \<in> set_ptrs c D m \<Longrightarrow> snd q \<noteq> 12 \<Longrightarrow> c' (ptr c D q) = c (ptr c D q)"
  shows "wf_image c' (fb + 1) D' m" and "extends {p} m c D c' D'"
proof -
  have fb0: "59 \<le> unat fb" "fb \<noteq> 0" using W by (auto simp: wf_image_def)
  have fb1: "unat (fb + 1) = unat fb + 1" using fb unat_add_u32 [of fb 1] by simp
  have ow: "set_ptrs c' D' m = insert p (set_ptrs c D m)" using new p fb0(2) unfolding set_ptrs_def by auto metis+
  have pn: "p \<notin> set_ptrs c D m" using p(2) by (simp add: set_ptrs_def)
  have v: "ptr c' D' q = ptr c D q" "59 \<le> unat (ptr c D q)" "unat (ptr c D q) < unat fb" if "q \<in> set_ptrs c D m" for q
  proof -
    have q: "q \<in> ptrs m" "ptr c D q \<noteq> 0" "q \<noteq> p" using that pn by (auto simp: set_ptrs_def)
    then show "ptr c' D' q = ptr c D q" "59 \<le> unat (ptr c D q)" "unat (ptr c D q) < unat fb"
      using new [OF q(1)] wf_ptr(1,2) [OF W q(1,2)] by simp_all
  qed
  have vp: "ptr c' D' p = fb" using new [OF p(1)] by simp
  have "inj_on (ptr c' D') (insert p (set_ptrs c D m))"
  proof (rule inj_onI)
    fix x y
    assume xy: "x \<in> insert p (set_ptrs c D m)" "y \<in> insert p (set_ptrs c D m)" "ptr c' D' x = ptr c' D' y"
    have ij: "inj_on (ptr c D) (set_ptrs c D m)" using W by (simp add: wf_image_def)
    consider "x = p" "y = p" | "x = p" "y \<in> set_ptrs c D m" | "x \<in> set_ptrs c D m" "y = p" | "x \<in> set_ptrs c D m" "y \<in> set_ptrs c D m"
      using xy(1,2) by blast
    then show "x = y"
    proof cases
      case 2 then show ?thesis using xy(3) v(1,3) [of y] vp by auto
    next
      case 3 then show ?thesis using xy(3) v(1,3) [of x] vp by auto
    next
      case 4 then show ?thesis using xy(3) v(1) [of x] v(1) [of y] inj_onD [OF ij] by metis
    qed simp
  qed
  moreover have "59 \<le> unat (ptr c' D' q) \<and> unat (ptr c' D' q) < unat (fb + 1)" if "q \<in> insert p (set_ptrs c D m)" for q
    using that v [of q] vp fb0(1) fb1 by (cases "q = p") auto
  moreover have "c' n = replicate 512 0" if "unat (fb + 1) \<le> unat n" for n
    using that old(1) [of n] W fb1 by (simp add: wf_image_def)
  moreover have "unat (fb + 1) = 59 + card (insert p (set_ptrs c D m))" using W fb1 pn by (simp add: wf_image_def)
  ultimately show "wf_image c' (fb + 1) D' m" using len unfolding wf_image_def ow by blast
  have "fbyte c' (ino (D' j)) r = fbyte c (ino (D j)) r" if j: "j < m" "r < 71680" for j r
  proof -
    let ?q = "(j, file_slot (r div 512))"
    have sl: "file_slot (r div 512) < 141" "file_slot (r div 512) \<noteq> 12" using file_slot_less [of "r div 512"] j(2) by simp_all
    then have q: "?q \<in> ptrs m" using j(1) by (simp add: ptrs_def)
    have a: "file_addr c (ino (D j)) (r div 512) = ptr c D ?q" "file_addr c' (ino (D' j)) (r div 512) = ptr c' D' ?q"
      by (simp_all add: file_addr_def ptr_def)
    show ?thesis
    proof (cases "?q = p")
      case True
      have z: "c' fb = replicate 512 0" using old(1) [of fb] W by (simp add: wf_image_def)
      have "ptr c D ?q = 0" "ptr c' D' ?q = fb" using p(2) vp True by simp_all
      then show ?thesis using fb0(2) z unfolding fbyte_def a Let_def by simp
    next
      case False
      then have e: "ptr c' D' ?q = ptr c D ?q" using new [OF q] by simp
      have "ptr c D ?q \<noteq> 0 \<Longrightarrow> c' (ptr c D ?q) = c (ptr c D ?q)" using old(2) [of ?q] q sl(2) by (simp add: set_ptrs_def)
      then show ?thesis by (simp add: fbyte_def a e Let_def)
    qed
  qed
  then show "extends {p} m c D c' D'" using old(1) ow by (simp add: extends_def)
qed

text \<open>What the pointers depend on: the addresses in the inodes, and the indirect blocks.\<close>

lemma ptr_cong:
  assumes "d_addrs (D' (fst q)) = d_addrs (D (fst q))"
    and "d_addrs (D (fst q)) ! 12 \<noteq> 0 \<Longrightarrow> c' (d_addrs (D (fst q)) ! 12) = c (d_addrs (D (fst q)) ! 12)"
  shows "ptr c' D' q = ptr c D q"
  using assms by (auto simp: ptr_def slot_addr_def)

lemma wf_cong:
  assumes W: "wf_image c fb D m" and pt: "\<And>q. q \<in> ptrs m \<Longrightarrow> ptr c' D' q = ptr c D q"
    and len: "\<And>j. j < m \<Longrightarrow> d_addrs (D' j) = d_addrs (D j)" "\<And>n. length (c' n) = 512"
    and z: "\<And>n. unat fb \<le> unat n \<Longrightarrow> c' n = c n"
  shows "wf_image c' fb D' m" and "set_ptrs c' D' m = set_ptrs c D m"
proof -
  show ow: "set_ptrs c' D' m = set_ptrs c D m" using pt unfolding set_ptrs_def by auto
  have e: "ptr c' D' q = ptr c D q" if "q \<in> set_ptrs c D m" for q using that pt by (simp add: set_ptrs_def)
  have "inj_on (ptr c' D') (set_ptrs c D m) = inj_on (ptr c D) (set_ptrs c D m)" by (rule inj_on_cong) (rule e)
  then show "wf_image c' fb D' m" using W e len z unfolding wf_image_def ow by (intro conjI) (simp_all only:, auto)
qed

text \<open>A block that is no indirect block gets new contents.\<close>

lemma block_written:
  assumes W: "wf_image c fb D m" and n: "unat n < unat fb" "\<And>j. j < m \<Longrightarrow> ptr c D (j, 12) \<noteq> 0 \<Longrightarrow> ptr c D (j, 12) \<noteq> n"
    and xs: "length xs = 512"
  defines "c' \<equiv> c(n := xs)"
  shows "wf_image c' fb D m" and "set_ptrs c' D m = set_ptrs c D m" and "q \<in> ptrs m \<Longrightarrow> ptr c' D q = ptr c D q"
    and "j < m \<Longrightarrow> r < 71680 \<Longrightarrow> fbyte c' (ino (D j)) r =
      (if n \<noteq> 0 \<and> ptr c D (j, file_slot (r div 512)) = n then xs ! (r mod 512) else fbyte c (ino (D j)) r)"
proof -
  have pt: "ptr c' D q = ptr c D q" if q: "q \<in> ptrs m" for q
  proof (rule ptr_cong)
    have "ptr c D (fst q, 12) = d_addrs (D (fst q)) ! 12" by (simp add: ptr_def slot_addr_def)
    then show "c' (d_addrs (D (fst q)) ! 12) = c (d_addrs (D (fst q)) ! 12)" if "d_addrs (D (fst q)) ! 12 \<noteq> 0"
      using n(2) [of "fst q"] q that by (auto simp: c'_def ptrs_def)
  qed simp
  have len: "length (c' k) = 512" for k using W xs by (simp add: c'_def wf_image_def)
  have z: "c' k = c k" if "unat fb \<le> unat k" for k using that n(1) by (auto simp: c'_def)
  show "wf_image c' fb D m" "set_ptrs c' D m = set_ptrs c D m" by (rule wf_cong [OF W pt refl len z]; assumption)+
  show "q \<in> ptrs m \<Longrightarrow> ptr c' D q = ptr c D q" by (rule pt)
  assume j: "j < m" "r < 71680"
  let ?q = "(j, file_slot (r div 512))"
  have "?q \<in> ptrs m" using j file_slot_less [of "r div 512"] by (simp add: ptrs_def)
  then have a: "file_addr c' (ino (D j)) (r div 512) = ptr c D ?q" "file_addr c (ino (D j)) (r div 512) = ptr c D ?q"
    using pt [of ?q] by (simp_all add: file_addr_def ptr_def)
  show "fbyte c' (ino (D j)) r = (if n \<noteq> 0 \<and> ptr c D ?q = n then xs ! (r mod 512) else fbyte c (ino (D j)) r)"
    unfolding fbyte_def a Let_def by (auto simp: c'_def)
qed

section \<open>Writing to a file\<close>

definition image_ok :: "mkstate \<Rightarrow> bool" where
  "image_ok s \<longleftrightarrow> (\<forall>n. img s n \<noteq> None \<longleftrightarrow> unat n < 1000) \<and> (\<forall>n. length (blk s n) = 512)"

lemma rsect_ok: "image_ok s \<Longrightarrow> unat n < 1000 \<Longrightarrow> rsect n s = Done (blk s n)"
  by (auto simp: image_ok_def rsect_def blk_def split: option.splits)

lemma wsect_ok:
  assumes "image_ok s" and "unat n < 1000" and "length xs = 512"
  shows "image_ok (wsect n xs s)"
  using assms by (auto simp: image_ok_def wsect_def blk_def split: option.splits)

lemma wsect_simps [simp]: "blk (wsect n xs s) = (blk s)(n := xs)" "freeblock (wsect n xs s) = freeblock s" "freeinode (wsect n xs s) = freeinode s"
  by (simp_all add: wsect_def blk_def fun_eq_iff)

lemma freeblock_simps [simp]: "blk (s\<lparr>freeblock := b\<rparr>) = blk s" "image_ok (s\<lparr>freeblock := b\<rparr>) = image_ok s"
  "blk (s\<lparr>freeinode := i\<rparr>) = blk s" "image_ok (s\<lparr>freeinode := i\<rparr>) = image_ok s"
proof -
  show b: "blk (s\<lparr>freeblock := b\<rparr>) = blk s" "blk (s\<lparr>freeinode := i\<rparr>) = blk s" by (simp_all add: blk_def fun_eq_iff)
  show "image_ok (s\<lparr>freeblock := b\<rparr>) = image_ok s" "image_ok (s\<lparr>freeinode := i\<rparr>) = image_ok s" unfolding image_ok_def b by simp_all
qed

definition image_rep :: "mkstate \<Rightarrow> (nat \<Rightarrow> dinode) \<Rightarrow> nat \<Rightarrow> bool" where
  "image_rep s D m \<longleftrightarrow> image_ok s \<and> wf_image (blk s) (freeblock s) D m"

text \<open>A direct pointer or that to the indirect block.\<close>

lemma din_addr_image:
  assumes S: "image_rep s (D(i := din)) m" and i: "i < m" "k \<le> 12"
    and room: "59 + card (insert (i, k) (set_ptrs (blk s) (D(i := din)) m)) \<le> 1000"
  shows "\<exists>x as t. din_addr k din s = (x, din\<lparr>d_addrs := as\<rparr>, t) \<and> x = as ! k \<and> x \<noteq> 0 \<and> freeinode t = freeinode s
    \<and> image_rep t (D(i := din\<lparr>d_addrs := as\<rparr>)) m
    \<and> extends {(i, k)} m (blk s) (D(i := din)) (blk t) (D(i := din\<lparr>d_addrs := as\<rparr>))"
proof -
  let ?D = "D(i := din)" and ?c = "blk s" and ?fb = "freeblock s"
  have W: "wf_image ?c ?fb ?D m" and len: "length (d_addrs din) = 13" using S i(1) by (auto simp: image_rep_def wf_image_def)
  have q: "(i, k) \<in> ptrs m" using i by (simp add: ptrs_def)
  have v: "ptr ?c ?D (i, k) = d_addrs din ! k" using i(2) by (simp add: ptr_def slot_addr_def)
  show ?thesis
  proof (cases "d_addrs din ! k = 0")
    case False
    have d: "din\<lparr>d_addrs := d_addrs din\<rparr> = din" by (cases din) simp
    have "(i, k) \<in> set_ptrs ?c ?D m" using q v False by (simp add: set_ptrs_def)
    then have "extends {(i, k)} m ?c ?D ?c ?D" by (intro extends_refl) simp
    moreover have "din_addr k din s = (d_addrs din ! k, din\<lparr>d_addrs := d_addrs din\<rparr>, s)" unfolding d using False by (simp add: din_addr_def)
    ultimately show ?thesis using S False d by metis
  next
    case True
    let ?as = "(d_addrs din)[k := ?fb]" and ?t = "s\<lparr>freeblock := ?fb + 1\<rparr>"
    let ?D' = "D(i := din\<lparr>d_addrs := ?as\<rparr>)"
    have no: "(i, k) \<notin> set_ptrs ?c ?D m" using v True by (simp add: set_ptrs_def)
    have fb: "unat ?fb < 1000" "?fb \<noteq> 0" using W room no by (auto simp: wf_image_def)
    have z: "?c ?fb = replicate 512 0" using W by (simp add: wf_image_def)
    have new: "ptr ?c ?D' p = (if p = (i, k) then ?fb else ptr ?c ?D p)" if p: "p \<in> ptrs m" for p
    proof (cases "fst p = i")
      case True
      then obtain j where j: "p = (i, j)" "j < 141" using p by (cases p) (auto simp: ptrs_def)
      have "addrs (ino din) ! k = 0" "length (addrs (ino din)) = 13" using \<open>d_addrs din ! k = 0\<close> len by simp_all
      from slot_set [OF i(2) this j(2), of ?c ?c ?fb] z have "slot_addr ?c ((ino din)\<lparr>addrs := ?as\<rparr>) j = (if j = k then ?fb else slot_addr ?c (ino din) j)"
        by simp
      then show ?thesis by (simp add: j ptr_def ino_def of_dinode_def)
    next
      case False
      then have "ptr ?c ?D' p = ptr ?c ?D p" by (intro ptr_cong) simp_all
      then show ?thesis using False by auto
    qed
    have l: "length (d_addrs (?D' j)) = 13" if "j < m" for j using that W len unfolding wf_image_def by (auto split: if_splits)
    have lc: "length (?c n) = 512" for n using W by (simp add: wf_image_def)
    have "ptr ?c ?D (i, k) = 0" using v True by simp
    note g = grow_image [OF W q this fb(1) new l lc]
    have "wf_image ?c (?fb + 1) ?D' m" "extends {(i, k)} m ?c ?D ?c ?D'" by (rule g; simp)+
    moreover have "din_addr k din s = (?fb, din\<lparr>d_addrs := ?as\<rparr>, ?t)" using True by (simp add: din_addr_def new_block_def)
    moreover have "?as ! k = ?fb" using len i(2) by simp
    ultimately show ?thesis using S fb(2) by (intro exI [of _ ?fb] exI [of _ ?as] exI [of _ ?t]) (simp add: image_rep_def)
  qed
qed

text \<open>An entry of the indirect block that is not set yet.\<close>

lemma indirect_image:
  assumes S: "image_rep s D m" and i: "i < m" "j < 128" and ind: "d_addrs (D i) ! 12 \<noteq> 0" and z: "ptr (blk s) D (i, 13 + j) = 0"
    and fb: "unat (freeblock s) < 1000"
  defines "t \<equiv> wsect (d_addrs (D i) ! 12) (put32 (blk s (d_addrs (D i) ! 12)) (4 * j) (freeblock s)) (s\<lparr>freeblock := freeblock s + 1\<rparr>)"
  shows "image_rep t D m" and "extends {(i, 13 + j)} m (blk s) D (blk t) D" and "ptr (blk t) D (i, 13 + j) = freeblock s"
proof -
  let ?c = "blk s" and ?fb = "freeblock s" and ?i = "d_addrs (D i) ! 12"
  let ?b = "put32 (?c ?i) (4 * j) ?fb"
  have W: "wf_image ?c ?fb D m" and ok: "image_ok s" using S by (simp_all add: image_rep_def)
  have q: "(i, 13 + j) \<in> ptrs m" "(i, 12) \<in> ptrs m" using i by (simp_all add: ptrs_def)
  have vi: "ptr ?c D (i', 12) = d_addrs (D i') ! 12" for i' by (simp add: ptr_def slot_addr_def)
  have ii: "59 \<le> unat ?i" "unat ?i < unat ?fb" using wf_ptr(1,2) [OF W q(2)] ind unfolding vi by blast+
  have own: "p = (i, 12)" if "p \<in> ptrs m" "ptr ?c D p = ?i" for p using wf_ptr(3) [OF W q(2) _ that(1)] that(2) ind unfolding vi by simp
  have lc: "length (?c n) = 512" for n using W by (simp add: wf_image_def)
  have lb: "length ?b = 512" using lc i(2) by simp
  have bt: "blk t = ?c(?i := ?b)" by (simp add: t_def)
  have new: "ptr (blk t) D p = (if p = (i, 13 + j) then ?fb else ptr ?c D p)" if p: "p \<in> ptrs m" for p
  proof (cases "fst p = i")
    case True
    then obtain l where l: "p = (i, l)" "l < 141" using p by (cases p) (auto simp: ptrs_def)
    show ?thesis using slot_put [of "ino (D i)" ?c j l "blk t" ?fb] ind lc i(2) l by (simp add: bt ptr_def)
  next
    case False
    have "d_addrs (D (fst p)) ! 12 \<noteq> ?i"
    proof
      assume e: "d_addrs (D (fst p)) ! 12 = ?i"
      have "(fst p, 12) \<in> ptrs m" using p by (auto simp: ptrs_def)
      then show False using own [of "(fst p, 12)"] e False unfolding vi by simp
    qed
    then have "ptr (blk t) D p = ptr ?c D p" by (intro ptr_cong) (simp_all add: bt)
    then show ?thesis using False by auto
  qed
  have l: "length (d_addrs (D j)) = 13" if "j < m" for j using that W by (simp add: wf_image_def)
  have lt: "length (blk t n) = 512" for n using lc lb by (simp add: bt)
  have o1: "blk t n = ?c n" if "unat n < 59 \<or> unat ?fb \<le> unat n" for n using that ii by (auto simp: bt)
  have o2: "blk t (ptr ?c D p) = ?c (ptr ?c D p)" if "p \<in> set_ptrs ?c D m" "snd p \<noteq> 12" for p
    using own [of p] that by (auto simp: bt set_ptrs_def)
  note g = grow_image [OF W q(1) z fb new l lt o1 o2]
  have "wf_image (blk t) (?fb + 1) D m" "extends {(i, 13 + j)} m ?c D (blk t) D" by (rule g; assumption)+
  moreover have "image_ok t" unfolding t_def using ok ii fb lb by (intro wsect_ok) simp_all
  ultimately show "image_rep t D m" "extends {(i, 13 + j)} m (blk s) D (blk t) D" by (simp_all add: image_rep_def) (simp add: t_def)
  show "ptr (blk t) D (i, 13 + j) = ?fb" using new [OF q(1)] by simp
qed

text \<open>The pointers that block \<open>k\<close> of a file needs.\<close>

definition file_slots :: "nat \<Rightarrow> nat set" where
  "file_slots k = (if k < 12 then {k} else {12, 13 + (k - 12)})"

lemma file_block_image:
  assumes S: "image_rep s (D(i := din)) m" and i: "i < m" "k < 140"
    and room: "59 + card ({i} \<times> file_slots k \<union> set_ptrs (blk s) (D(i := din)) m) \<le> 1000"
  shows "\<exists>x as t. file_block k din s = Done (x, din\<lparr>d_addrs := as\<rparr>, t) \<and> x = ptr (blk t) (D(i := din\<lparr>d_addrs := as\<rparr>)) (i, file_slot k) \<and> x \<noteq> 0
    \<and> freeinode t = freeinode s \<and> image_rep t (D(i := din\<lparr>d_addrs := as\<rparr>)) m
    \<and> extends ({i} \<times> file_slots k) m (blk s) (D(i := din)) (blk t) (D(i := din\<lparr>d_addrs := as\<rparr>))"
proof (cases "k < 12")
  case True
  have v: "ptr c (D(i := d)) (i, file_slot k) = d_addrs d ! k" "{i} \<times> file_slots k = {(i, k)}" for c d
    using True by (simp_all add: ptr_def slot_addr_def file_slot_def file_slots_def)
  have f: "file_block k din s = Done (din_addr k din s)" using True by (simp add: file_block_def NDIRECT_def)
  have k: "k \<le> 12" using True by simp
  have r: "59 + card (insert (i, k) (set_ptrs (blk s) (D(i := din)) m)) \<le> 1000" using room unfolding v(2) by simp
  show ?thesis unfolding v f using din_addr_image [OF S i(1) k r] by auto
next
  case False
  define j where "j = k - 12"
  have j: "j < 128" "file_slot k = 13 + j" "file_slots k = {12, 13 + j}" "k - NDIRECT = j"
    using False i(2) by (simp_all add: j_def file_slot_def file_slots_def NDIRECT_def)
  let ?P = "set_ptrs (blk s) (D(i := din)) m"
  have "card (insert (i, 12) ?P) \<le> card ({i} \<times> file_slots k \<union> ?P)" by (rule card_mono) (auto simp: j(3))
  then have "59 + card (insert (i, 12) ?P) \<le> 1000" using room by linarith
  from din_addr_image [OF S i(1) order_refl this] obtain x as t where t: "din_addr 12 din s = (x, din\<lparr>d_addrs := as\<rparr>, t)" "x = as ! 12" "x \<noteq> 0"
    "freeinode t = freeinode s" "image_rep t (D(i := din\<lparr>d_addrs := as\<rparr>)) m"
    "extends {(i, 12)} m (blk s) (D(i := din)) (blk t) (D(i := din\<lparr>d_addrs := as\<rparr>))" by blast
  let ?D = "D(i := din\<lparr>d_addrs := as\<rparr>)" and ?y = "get32 (blk t x) (4 * j)"
  have y: "ptr (blk t) ?D (i, 13 + j) = ?y" using t(2,3) by (simp add: ptr_def slot_addr_def)
  have P: "set_ptrs (blk t) ?D m = insert (i, 12) ?P" using t(6) by (simp add: extends_def)
  have fb: "unat (freeblock t) = 59 + card (insert (i, 12) ?P)" using t(5) P by (simp add: image_rep_def wf_image_def)
  have q: "(i, 12) \<in> ptrs m" "ptr (blk t) ?D (i, 12) = x" using i(1) t(2) by (simp_all add: ptrs_def ptr_def slot_addr_def)
  have "unat x < unat (freeblock t)" using wf_ptr(2) [of "blk t" "freeblock t" ?D m "(i, 12)"] t(3,5) q by (simp add: image_rep_def)
  then have "unat x < 1000" using fb \<open>59 + card (insert (i, 12) ?P) \<le> 1000\<close> by linarith
  then have rs: "rsect x t = Done (blk t x)" using t(5) by (intro rsect_ok) (simp_all add: image_rep_def)
  have f: "file_block k din s = (if ?y = 0 then Done (freeblock t, din\<lparr>d_addrs := as\<rparr>,
      wsect x (put32 (blk t x) (4 * j) (freeblock t)) (t\<lparr>freeblock := freeblock t + 1\<rparr>)) else Done (?y, din\<lparr>d_addrs := as\<rparr>, t))"
    using False t(1) rs by (simp add: file_block_def NDIRECT_def j_def new_block_def)
  show ?thesis
  proof (cases "?y = 0")
    case True
    let ?t = "wsect x (put32 (blk t x) (4 * j) (freeblock t)) (t\<lparr>freeblock := freeblock t + 1\<rparr>)"
    have "(i, 13 + j) \<notin> insert (i, 12) ?P" using y True unfolding P [symmetric] by (simp add: set_ptrs_def)
    then have "card (insert (i, 13 + j) (insert (i, 12) ?P)) = Suc (card (insert (i, 12) ?P))" by simp
    moreover have "{i} \<times> file_slots k \<union> ?P = insert (i, 13 + j) (insert (i, 12) ?P)" by (auto simp: j(3))
    ultimately have fb': "unat (freeblock t) < 1000" using fb room by simp
    have e: "d_addrs (?D i) ! 12 = x" "d_addrs (?D i) ! 12 \<noteq> 0" "ptr (blk t) ?D (i, 13 + j) = 0" using t(2,3) y True by simp_all
    note g = indirect_image [OF t(5) i(1) j(1) e(2,3) fb', unfolded e(1)]
    have s2: "{i} \<times> file_slots k = {(i, 12)} \<union> {(i, 13 + j)}" by (auto simp: j(3))
    have ex: "extends ({i} \<times> file_slots k) m (blk s) (D(i := din)) (blk ?t) ?D" unfolding s2 by (rule extends_trans [OF t(6) g(2)])
    have "59 \<le> unat (freeblock t)" using fb by simp
    then have "freeblock t \<noteq> 0" by auto
    then show ?thesis using f True g(1,3) ex t(4) j(2) by (intro exI [of _ "freeblock t"] exI [of _ as] exI [of _ ?t]) simp
  next
    case False
    have in2: "(i, 13 + j) \<in> insert (i, 12) ?P" unfolding P [symmetric] using y False i(1) j(1) by (simp add: set_ptrs_def ptrs_def)
    have "extends {(i, 13 + j)} m (blk t) ?D (blk t) ?D" by (rule extends_refl) (use in2 P in simp)
    moreover have s2: "{i} \<times> file_slots k = {(i, 12)} \<union> {(i, 13 + j)}" by (auto simp: j(3))
    ultimately have ex: "extends ({i} \<times> file_slots k) m (blk s) (D(i := din)) (blk t) ?D" unfolding s2 by (intro extends_trans [OF t(6)])
    show ?thesis using f False y ex t(4,5) j(2) by (intro exI [of _ ?y] exI [of _ as] exI [of _ t]) simp
  qed
qed

section \<open>The bytes of the files\<close>

text \<open>The pointers that a file of \<open>n\<close> bytes sets, those of files of the lengths \<open>ls\<close>, and files that fit on the disk.\<close>

definition slot_used :: "nat \<Rightarrow> nat \<Rightarrow> bool" where
  "slot_used n k \<longleftrightarrow> (if k < 12 then 512 * k < n else if k = 12 then 6144 < n else 512 * (k - 1) < n)"

definition pointers :: "nat list \<Rightarrow> (nat \<times> nat) set" where
  "pointers ls = {(j, k). j < length ls \<and> k < 141 \<and> slot_used (ls ! j) k}"

definition fits :: "u8 list list \<Rightarrow> bool" where
  "fits fs \<longleftrightarrow> 59 + card (pointers (map length fs)) \<le> 1000 \<and> (\<forall>f\<in>set fs. length f \<le> 71680)"

definition file_bytes :: "contents \<Rightarrow> dinode \<Rightarrow> u8 list \<Rightarrow> bool" where
  "file_bytes c d bs \<longleftrightarrow> (\<forall>r<71680. fbyte c (ino d) r = (if r < length bs then bs ! r else 0))"

definition files_rep :: "mkstate \<Rightarrow> (nat \<Rightarrow> dinode) \<Rightarrow> u8 list list \<Rightarrow> bool" where
  "files_rep s D fs \<longleftrightarrow> image_rep s D (length fs) \<and> set_ptrs (blk s) D (length fs) = pointers (map length fs)
     \<and> (\<forall>j<length fs. file_bytes (blk s) (D j) (fs ! j))"

lemma pointers_finite: "finite (pointers ls)"
  by (rule finite_subset [of _ "{..<length ls} \<times> {..<141}"]) (auto simp: pointers_def)

lemma slot_used_mono: "slot_used m k \<Longrightarrow> m \<le> n \<Longrightarrow> slot_used n k"
  by (auto simp: slot_used_def split: if_splits)

lemma pointers_mono: "length ks \<le> length ls \<Longrightarrow> (\<And>j. j < length ks \<Longrightarrow> ks ! j \<le> ls ! j) \<Longrightarrow> pointers ks \<subseteq> pointers ls"
  by (auto simp: pointers_def intro: slot_used_mono)

lemma fits_mono:
  assumes "fits fs'" and "length fs \<le> length fs'" and "\<And>j. j < length fs \<Longrightarrow> length (fs ! j) \<le> length (fs' ! j)"
  shows "fits fs"
proof -
  have "pointers (map length fs) \<subseteq> pointers (map length fs')" by (rule pointers_mono) (use assms(2,3) in simp_all)
  then have "card (pointers (map length fs)) \<le> card (pointers (map length fs'))" by (rule card_mono [OF pointers_finite])
  moreover have "length f \<le> 71680" if f: "f \<in> set fs" for f
  proof -
    obtain j where j: "f = fs ! j" "j < length fs" using f by (auto simp: in_set_conv_nth)
    then have "length (fs' ! j) \<le> 71680" using assms(1,2) by (simp add: fits_def)
    then show ?thesis using assms(2,3) j by fastforce
  qed
  ultimately show ?thesis using assms(1) by (simp add: fits_def)
qed

lemma slot_used_grow:
  assumes n: "0 < n" "n \<le> 512 - ofs mod 512"
  shows "slot_used (ofs + n) k \<longleftrightarrow> slot_used ofs k \<or> k \<in> file_slots (ofs div 512)"
proof -
  define q where "q = ofs div 512"
  have o: "512 * q \<le> ofs" "ofs + n \<le> 512 * q + 512" "ofs < 512 * q + 512"
  proof -
    have "512 * q + ofs mod 512 = ofs" "ofs mod 512 < 512" by (simp_all add: q_def)
    then show "512 * q \<le> ofs" "ofs + n \<le> 512 * q + 512" "ofs < 512 * q + 512" using n(2) by linarith+
  qed
  have a: "512 * i < ofs + n \<longleftrightarrow> 512 * i < ofs \<or> i = q" for i :: nat using o n(1) by linarith
  have b: "6144 < ofs + n \<longleftrightarrow> 6144 < ofs \<or> 12 \<le> q" using o n(1) by linarith
  have "k = 13 + (q - 12) \<longleftrightarrow> k - 1 = q" if "12 < k" "12 \<le> q" using that by linarith
  moreover have "12 \<le> q" if "12 < k" "k - 1 = q" using that by linarith
  ultimately show ?thesis unfolding slot_used_def a b file_slots_def q_def [symmetric] by (cases "q < 12"; cases "k < 12"; cases "k = 12"; auto)
qed

lemma pointers_grow:
  assumes i: "i < length fs" and n: "0 < length p" "length p \<le> 512 - length (fs ! i) mod 512" and k: "length (fs ! i) div 512 < 140"
  shows "pointers (map length (fs[i := fs ! i @ p])) = pointers (map length fs) \<union> {i} \<times> file_slots (length (fs ! i) div 512)"
proof -
  have l: "length (fs[i := fs ! i @ p] ! j) = (if j = i then length (fs ! i) + length p else length (fs ! j))" if "j < length fs" for j
    using that by (simp add: nth_list_update)
  have "k < 141" if "k \<in> file_slots (length (fs ! i) div 512)" for k using that assms(4) by (auto simp: file_slots_def split: if_splits)
  then show ?thesis using i l slot_used_grow [OF n] by (auto simp: pointers_def split: if_splits)
qed

text \<open>Storing into the block \<open>k\<close> of file \<open>i\<close>.\<close>

lemma block_poked:
  assumes S: "image_rep s D m" and i: "i < m" "k < 140" and x: "x = ptr (blk s) D (i, file_slot k)" "x \<noteq> 0" and xs: "length xs = 512"
    and fb: "unat (freeblock s) \<le> 1000"
  shows "image_rep (wsect x xs s) D m" and "set_ptrs (blk (wsect x xs s)) D m = set_ptrs (blk s) D m"
    and "j < m \<Longrightarrow> r < 71680 \<Longrightarrow> fbyte (blk (wsect x xs s)) (ino (D j)) r = (if j = i \<and> r div 512 = k then xs ! (r mod 512) else fbyte (blk s) (ino (D j)) r)"
    and "59 \<le> unat x" and "rsect x s = Done (blk s x)" and "length (blk s x) = 512"
    and "r div 512 = k \<Longrightarrow> fbyte (blk s) (ino (D i)) r = blk s x ! (r mod 512)"
proof -
  have W: "wf_image (blk s) (freeblock s) D m" and ok: "image_ok s" using S by (simp_all add: image_rep_def)
  have sl: "file_slot k < 141" "file_slot k \<noteq> 12" using file_slot_less [OF i(2)] by simp_all
  have q: "(i, file_slot k) \<in> ptrs m" using i sl by (simp add: ptrs_def)
  note w = wf_ptr [OF W q, folded x(1), OF x(2)]
  have ne: "ptr (blk s) D (j, 12) \<noteq> x" if "j < m" "ptr (blk s) D (j, 12) \<noteq> 0" for j using w(3) [of "(j, 12)"] that(1) sl(2) by (auto simp: ptrs_def)
  note b = block_written [OF W w(2) _ xs]
  show "59 \<le> unat x" by (rule w(1))
  show "rsect x s = Done (blk s x)" by (rule rsect_ok [OF ok]) (use w(2) fb in linarith)
  show "length (blk s x) = 512" using W by (simp add: wf_image_def)
  have "image_ok (wsect x xs s)" by (rule wsect_ok [OF ok _ xs]) (use w(2) fb in linarith)
  then show "image_rep (wsect x xs s) D m" using b(1) ne by (simp add: image_rep_def)
  show "set_ptrs (blk (wsect x xs s)) D m = set_ptrs (blk s) D m" using b(2) ne by simp
  show "r div 512 = k \<Longrightarrow> fbyte (blk s) (ino (D i)) r = blk s x ! (r mod 512)"
    using x by (simp add: fbyte_def file_addr_def ptr_def Let_def)
  assume j: "j < m" "r < 71680"
  have "(j, file_slot (r div 512)) \<in> ptrs m" using j file_slot_less [of "r div 512"] by (simp add: ptrs_def)
  then have "ptr (blk s) D (j, file_slot (r div 512)) = x \<longleftrightarrow> j = i \<and> r div 512 = k"
    using w(3) [of "(j, file_slot (r div 512))"] x(1) file_slot_inj by auto
  then show "fbyte (blk (wsect x xs s)) (ino (D j)) r = (if j = i \<and> r div 512 = k then xs ! (r mod 512) else fbyte (blk s) (ino (D j)) r)"
    using b(4) [OF _ j] ne x(2) by simp
qed

text \<open>One turn of the loop of \<open>iappend\<close>.\<close>

definition below_same :: "mkstate \<Rightarrow> mkstate \<Rightarrow> bool" where
  "below_same s t \<longleftrightarrow> freeinode t = freeinode s \<and> (\<forall>n. unat n < 59 \<longrightarrow> blk t n = blk s n)"

lemma below_same_trans: "below_same s t \<Longrightarrow> below_same t u \<Longrightarrow> below_same s u"
  by (simp add: below_same_def)

lemma appended_bytes:
  assumes old: "\<forall>r<71680. f r = (if r < length bs then bs ! r else 0)" and blk: "length (b :: u8 list) = 512"
    and xs: "length xs \<le> 512 - length bs mod 512" and k: "length bs div 512 = k"
    and b: "\<And>r. r div 512 = k \<Longrightarrow> f r = b ! (r mod 512)" and r: "r < 71680"
  shows "(if r div 512 = k then blit b (length bs mod 512) xs ! (r mod 512) else f r) = (if r < length (bs @ xs) then (bs @ xs) ! r else 0)"
proof (cases "r div 512 = k")
  case True
  note d = div_mod_block(1) [OF True [folded k], of "length xs"] div_mod_block(2) [OF True [folded k]]
  have fit: "length bs mod 512 + length xs \<le> length b" using xs blk by simp
  have "blit b (length bs mod 512) xs ! (r mod 512) = (if length bs \<le> r \<and> r < length bs + length xs then xs ! (r - length bs) else f r)"
    using blit_nth [OF fit, of "r mod 512"] blk d b [OF True] by simp
  then show ?thesis using True old r by (auto simp: nth_append)
next
  case False
  have "length bs + length xs \<le> 512 * k + 512" using xs k mult_div_mod_eq [of 512 "length bs"] mod_less_divisor [of 512 "length bs"] by linarith
  moreover have "r < 512 * k \<or> 512 * k + 512 \<le> r"
    using False mult_div_mod_eq [of 512 r] mod_less_divisor [of 512 r] by (cases "r div 512 < k") linarith+
  moreover have "512 * k \<le> length bs" unfolding k [symmetric] by simp
  ultimately have "r < length bs + length xs \<longleftrightarrow> r < length bs" by linarith
  then show ?thesis using False old r by (simp add: nth_append)
qed

lemma block_room: "(ofs div 512 + 1) * 512 - ofs = 512 - ofs mod (512 :: nat)"
proof -
  have "(q + 1) * 512 - (512 * q + r) = 512 - (r :: nat)" for q r by simp
  from this [of "ofs div 512" "ofs mod 512"] show ?thesis by simp
qed

lemma append_turn_files:
  assumes F: "files_rep s (D(i := din)) fs" and i: "i < length fs" and p: "p \<noteq> []" and fit: "fits (fs[i := fs ! i @ p])"
  defines "n \<equiv> min (length p) (512 - length (fs ! i) mod 512)"
  shows "\<exists>as t. append_turn (p, length (fs ! i), din, s) = Done (drop n p, length (fs ! i) + n, din\<lparr>d_addrs := as\<rparr>, t)
    \<and> files_rep t (D(i := din\<lparr>d_addrs := as\<rparr>)) (fs[i := fs ! i @ take n p]) \<and> below_same s t"
proof -
  let ?ofs = "length (fs ! i)" and ?D = "D(i := din)" and ?m = "length fs"
  let ?k = "?ofs div 512" and ?fs = "fs[i := fs ! i @ take n p]"
  have S: "image_rep s ?D ?m" and P: "set_ptrs (blk s) ?D ?m = pointers (map length fs)"
    and B: "\<And>j. j < ?m \<Longrightarrow> file_bytes (blk s) (?D j) (fs ! j)" using F by (simp_all add: files_rep_def)
  have "fs ! i @ p \<in> set (fs[i := fs ! i @ p])" by (rule set_update_memI [OF i])
  then have "length (fs ! i @ p) \<le> 71680" using fit unfolding fits_def by blast
  then have "?ofs + length p \<le> 71680" by simp
  then have k: "?k < 140" using p by (cases p) auto
  have n: "0 < length (take n p)" "length (take n p) \<le> 512 - ?ofs mod 512" "length (take n p) = n" using p by (auto simp: n_def)
  have f': "fits ?fs" by (rule fits_mono [OF fit]) (use i in \<open>simp_all add: nth_list_update\<close>)
  note pg = pointers_grow [OF i n(1,2) k]
  have r: "59 + card ({i} \<times> file_slots ?k \<union> set_ptrs (blk s) ?D ?m) \<le> 1000" using f' unfolding P fits_def pg by (simp add: Un_commute)
  obtain x as t where t: "file_block ?k din s = Done (x, din\<lparr>d_addrs := as\<rparr>, t)" "x = ptr (blk t) (D(i := din\<lparr>d_addrs := as\<rparr>)) (i, file_slot ?k)" "x \<noteq> 0"
    "freeinode t = freeinode s" "image_rep t (D(i := din\<lparr>d_addrs := as\<rparr>)) ?m"
    "extends ({i} \<times> file_slots ?k) ?m (blk s) ?D (blk t) (D(i := din\<lparr>d_addrs := as\<rparr>))"
    using file_block_image [OF S i k r] by blast
  let ?D' = "D(i := din\<lparr>d_addrs := as\<rparr>)" and ?xs = "blit (blk t x) (?ofs mod 512) (take n p)"
  have sp: "set_ptrs (blk t) ?D' ?m = pointers (map length ?fs)" using t(6) P pg by (simp add: extends_def)
  then have fb: "unat (freeblock t) \<le> 1000" using t(5) f' by (simp add: image_rep_def wf_image_def fits_def)
  have lx: "length (blk t x) = 512" using t(5) by (simp add: image_rep_def image_ok_def)
  have "?ofs mod 512 + n \<le> 512" using n(2,3) mod_less_divisor [of 512 ?ofs] by linarith
  then have len: "length ?xs = 512" using lx n(3) by simp
  note b = block_poked [OF t(5) i k t(2,3) len fb]
  let ?t = "wsect x ?xs t"
  have e: "(?k + 1) * 512 - ?ofs = 512 - ?ofs mod 512" "?ofs - ?k * 512 = ?ofs mod 512"
    by (rule block_room minus_div_mult_eq_mod)+
  have "append_turn (p, ?ofs, din, s) = Done (drop n p, ?ofs + n, din\<lparr>d_addrs := as\<rparr>, ?t)"
    using k b(5) unfolding append_turn_def prod.case Let_def e n_def [symmetric] t(1) by (simp add: MAXFILE_def NDIRECT_def NINDIRECT_def)
  moreover have "below_same s ?t" using t(4,6) b(4) by (auto simp: below_same_def extends_def)
  moreover have "file_bytes (blk ?t) (?D' j) (?fs ! j)" if j: "j < ?m" for j
  proof -
    have B': "\<forall>r<71680. fbyte (blk t) (ino (?D' j)) r = (if r < length (fs ! j) then fs ! j ! r else 0)"
      using B [OF j] t(6) j by (simp add: file_bytes_def extends_def)
    show ?thesis
    proof (cases "j = i")
      case True
      have e: "?fs ! j = fs ! i @ take n p" using i True by simp
      show ?thesis unfolding file_bytes_def e
      proof (intro allI impI)
        fix r :: nat assume r: "r < 71680"
        show "fbyte (blk ?t) (ino (?D' j)) r = (if r < length (fs ! i @ take n p) then (fs ! i @ take n p) ! r else 0)"
          using b(3) [OF j r] appended_bytes [OF B' [unfolded True] lx n(2) refl b(7) r] True by (simp only: simp_thms)
      qed
    next
      case False
      then show ?thesis unfolding file_bytes_def using b(3) [OF j] B' by simp
    qed
  qed
  ultimately show ?thesis using b(1,2) sp by (intro exI [of _ as] exI [of _ ?t]) (simp add: files_rep_def)
qed

end
