(* ===== verification/Mkfs_Files.thy ===== *)
theory Mkfs_Files
  imports Mkfs_Correct
begin

text \<open>The programs \<open>iappend\<close>, \<open>ialloc\<close> and \<open>main\<close> of mkfs.c as operations on the list of the files of the image.\<close>

section \<open>The loop of iappend\<close>

lemma append_loop:
  assumes "files_rep s (D(i := din)) fs" and "i < length fs" and "fits (fs[i := fs ! i @ p])"
  shows "\<exists>as t. kwhile (\<lambda>(p, ofs, din, s). p \<noteq> []) append_turn (p, length (fs ! i), din, s) = Done ([], length (fs ! i @ p), din\<lparr>d_addrs := as\<rparr>, t)
    \<and> files_rep t (D(i := din\<lparr>d_addrs := as\<rparr>)) (fs[i := fs ! i @ p]) \<and> below_same s t"
  using assms
proof (induction "length p" arbitrary: s din fs p rule: less_induct)
  case less
  let ?W = "kwhile (\<lambda>(p, ofs, din, s). p \<noteq> []) append_turn"
  show ?case
  proof (cases "p = []")
    case True
    have "din\<lparr>d_addrs := d_addrs din\<rparr> = din" by (cases din) simp
    then show ?thesis using True less.prems(1)
      by (intro exI [of _ "d_addrs din"] exI [of _ s]) (simp add: kwhile_unfold below_same_def)
  next
    case False
    let ?n = "min (length p) (512 - length (fs ! i) mod 512)"
    obtain as t where t: "append_turn (p, length (fs ! i), din, s) = Done (drop ?n p, length (fs ! i) + ?n, din\<lparr>d_addrs := as\<rparr>, t)"
      "files_rep t (D(i := din\<lparr>d_addrs := as\<rparr>)) (fs[i := fs ! i @ take ?n p])" "below_same s t"
      using append_turn_files [OF less.prems(1,2) False less.prems(3)] by blast
    let ?fs = "fs[i := fs ! i @ take ?n p]"
    have f: "?fs ! i = fs ! i @ take ?n p" "?fs[i := ?fs ! i @ drop ?n p] = fs[i := fs ! i @ p]" "length (?fs ! i) = length (fs ! i) + ?n"
      "length (?fs ! i @ drop ?n p) = length (fs ! i @ p)" using less.prems(2) by simp_all
    have n: "length (drop ?n p) < length p" using False by simp
    have i: "i < length ?fs" "fits (?fs[i := ?fs ! i @ drop ?n p])" using less.prems(2,3) f(2) by simp_all
    obtain bs u where u: "?W (drop ?n p, length (?fs ! i), din\<lparr>d_addrs := as\<rparr>, t) = Done ([], length (fs ! i @ p), din\<lparr>d_addrs := bs\<rparr>, u)"
      "files_rep u (D(i := din\<lparr>d_addrs := bs\<rparr>)) (fs[i := fs ! i @ p])" "below_same t u"
      using less.hyps [OF n t(2) i] unfolding f(2,4) by auto
    have "?W (p, length (fs ! i), din, s) = Done ([], length (fs ! i @ p), din\<lparr>d_addrs := bs\<rparr>, u)"
      using False t(1) u(1) unfolding f(3) by (subst kwhile_unfold) simp
    then show ?thesis using u(2) below_same_trans [OF t(3) u(3)] by blast
  qed
qed

section \<open>The blocks of the inodes\<close>

text \<open>The number of the file \<open>j\<close>: the root directory is file 0.\<close>

definition inode_no :: "nat \<Rightarrow> u32" where
  "inode_no j = of_nat (Suc j)"

definition din_at :: "mkstate \<Rightarrow> nat \<Rightarrow> dinode" where
  "din_at s j = get_dinode (blk s (IBLOCK (inode_no j) mk_sb)) (slot_of (inode_no j))"

lemma mk_sb_simps [simp]: "sb_size mk_sb = 1000" "nblocks mk_sb = 941" "ninodes mk_sb = 200" "nlog mk_sb = 30" "logstart mk_sb = 2"
  "inodestart mk_sb = 32" "bmapstart mk_sb = 58" "nmeta = 59"
  by (simp_all add: mk_sb_def FSSIZE_def NINODES_def nmeta_def nbitmap_def ninodeblocks_def nlogblocks_def IPB_def LOGSIZE_def MAXOPBLOCKS_def)

lemma inode_place:
  assumes "i < 207"
  shows "unat (IBLOCK (inode_no i) mk_sb) = 32 + Suc i div 8" and "slot_of (inode_no i) = Suc i mod 8"
proof -
  have u: "unat (inode_no i :: u32) = Suc i" unfolding inode_no_def using assms by (intro of_nat_u32) simp
  have d: "unat ((inode_no i :: u32) div IPB) = Suc i div 8" unfolding unat_div u by (simp add: IPB_def)
  have "unat ((inode_no i :: u32) div IPB + 32) = Suc i div 8 + 32" using d assms unat_add_u32 [of "inode_no i div IPB" 32] by simp
  then show "unat (IBLOCK (inode_no i) mk_sb) = 32 + Suc i div 8" by (simp add: IBLOCK_def)
  show "slot_of (inode_no i) = Suc i mod 8" unfolding slot_of_def unat_mod u by (simp add: IPB_def)
qed

lemma inode_block_below: "i < 207 \<Longrightarrow> unat (IBLOCK (inode_no i) mk_sb) < 58"
  using div_le_mono [of "Suc i" 207 8] by (simp add: inode_place)

lemma inode_place_inj:
  assumes "i < 207" and "j < 207" and "IBLOCK (inode_no i) mk_sb = IBLOCK (inode_no j) mk_sb" and "slot_of (inode_no i) = slot_of (inode_no j)"
  shows "i = j"
proof -
  have "Suc i div 8 = Suc j div 8" "Suc i mod 8 = Suc j mod 8"
    using assms inode_place(1) [of i] inode_place(1) [of j] inode_place(2) [of i] inode_place(2) [of j] by simp_all
  then have "Suc i = Suc j" by (metis mult_div_mod_eq)
  then show ?thesis by simp
qed

text \<open>A block in front of the data blocks gets new contents.\<close>

lemma low_write:
  assumes F: "files_rep s D fs" and n: "unat n < 59" and xs: "length xs = 512"
  shows "files_rep (wsect n xs s) D fs"
proof -
  have W: "wf_image (blk s) (freeblock s) D (length fs)" and ok: "image_ok s" using F by (simp_all add: files_rep_def image_rep_def)
  have fb: "unat n < unat (freeblock s)" using W n by (simp add: wf_image_def)
  have ne: "ptr (blk s) D q \<noteq> n" if "q \<in> ptrs (length fs)" "ptr (blk s) D q \<noteq> 0" for q using wf_ptr(1) [OF W that] n by auto
  have w: "wf_image ((blk s)(n := xs)) (freeblock s) D (length fs)" "set_ptrs ((blk s)(n := xs)) D (length fs) = set_ptrs (blk s) D (length fs)"
    by (rule block_written [OF W fb _ xs]; use ne in \<open>simp add: ptrs_def\<close>)+
  have "fbyte ((blk s)(n := xs)) (ino (D j)) r = fbyte (blk s) (ino (D j)) r" if j: "j < length fs" "r < 71680" for j r
  proof -
    let ?q = "(j, file_slot (r div 512))"
    have "?q \<in> ptrs (length fs)" using j file_slot_less [of "r div 512"] by (simp add: ptrs_def)
    then have "\<not> (n \<noteq> 0 \<and> ptr (blk s) D ?q = n)" using ne by metis
    moreover have "ptr (blk s) D (j, 12) \<noteq> n" if "j < length fs" "ptr (blk s) D (j, 12) \<noteq> 0" for j using ne [of "(j, 12)"] that by (simp add: ptrs_def)
    ultimately show ?thesis using block_written(4) [OF W fb _ xs j] by (simp only: if_False) blast
  qed
  then have "file_bytes ((blk s)(n := xs)) (D j) bs = file_bytes (blk s) (D j) bs" if "j < length fs" for j bs
    using that by (simp add: file_bytes_def)
  moreover have "image_ok (wsect n xs s)" by (rule wsect_ok [OF ok _ xs]) (use n in simp)
  ultimately show ?thesis using F w by (simp add: files_rep_def image_rep_def)
qed

lemma files_cong:
  assumes F: "files_rep s D fs" and a: "\<And>j. j < length fs \<Longrightarrow> d_addrs (D' j) = d_addrs (D j)"
  shows "files_rep s D' fs"
proof -
  have W: "wf_image (blk s) (freeblock s) D (length fs)" and ok: "image_ok s" using F by (simp_all add: files_rep_def image_rep_def)
  have pt: "ptr (blk s) D' q = ptr (blk s) D q" if "q \<in> ptrs (length fs)" for q
    using that a by (intro ptr_cong) (auto simp: ptrs_def)
  have l: "length (blk s n) = 512" for n using W by (simp add: wf_image_def)
  have w: "wf_image (blk s) (freeblock s) D' (length fs)" "set_ptrs (blk s) D' (length fs) = set_ptrs (blk s) D (length fs)"
    by (rule wf_cong [OF W pt a l refl]; assumption)+
  have "file_bytes (blk s) (D' j) bs = file_bytes (blk s) (D j) bs" if "j < length fs" for j bs
    using a [OF that] by (simp add: file_bytes_def fbyte_def file_addr_def slot_addr_def)
  then show ?thesis using F w by (simp add: files_rep_def image_rep_def)
qed

section \<open>The image as a list of files\<close>

definition inode_header :: "int \<Rightarrow> nat \<Rightarrow> dinode \<Rightarrow> bool" where
  "inode_header ty n d \<longleftrightarrow> d_type d = ty \<and> d_major d = 0 \<and> d_minor d = 0 \<and> d_nlink d = 1 \<and> unat (d_size d) = n \<and> dinode_ok d"

definition disk_rep :: "mkstate \<Rightarrow> (int \<times> u8 list) list \<Rightarrow> bool" where
  "disk_rep s fs \<longleftrightarrow> files_rep s (din_at s) (map snd fs) \<and> freeinode s = inode_no (length fs) \<and> length fs \<le> 207
     \<and> (\<forall>j<length fs. inode_header (fst (fs ! j)) (length (snd (fs ! j))) (din_at s j))"

text \<open>The boot block, the superblock and the log, in front of the inodes.\<close>

definition front :: "mkstate \<Rightarrow> nat \<Rightarrow> u8 list" where
  "front s = (\<lambda>i. if i < 32 then blk s (of_nat i) else [])"

lemma front_eq: "(\<And>n. unat n < 32 \<Longrightarrow> blk t n = blk s n) \<Longrightarrow> front t = front s"
  by (auto simp: front_def fun_eq_iff unat_of_nat)

lemma front_blk: "front t = front s \<Longrightarrow> i < 32 \<Longrightarrow> blk t (of_nat i) = blk s (of_nat i)"
  unfolding front_def by metis

lemma front_simps [simp]: "front (s\<lparr>freeinode := i\<rparr>) = front s"
  by (rule front_eq) simp

lemma winode_files:
  assumes F: "files_rep s D fs" and i: "i < 207" and d: "dinode_ok d"
  shows "\<exists>t. winode (inode_no i) d s = Done t \<and> files_rep t D fs \<and> (\<forall>j<207. din_at t j = (if j = i then d else din_at s j))
    \<and> freeinode t = freeinode s \<and> front t = front s \<and> freeblock t = freeblock s"
proof -
  let ?n = "IBLOCK (inode_no i) mk_sb" and ?k = "slot_of (inode_no i)"
  let ?xs = "put_dinode (blk s ?n) ?k d"
  have ok: "image_ok s" using F by (simp add: files_rep_def image_rep_def)
  have n: "unat ?n < 58" "32 \<le> unat ?n" using inode_block_below [OF i] inode_place(1) [OF i] by simp_all
  have len: "length (blk s ?n) = 512" using ok by (simp add: image_ok_def)
  note g = get_put_dinode [OF len slot_less [of "inode_no i"] d]
  have "winode (inode_no i) d s = Done (wsect ?n ?xs s)"
    using rsect_ok [OF ok, of ?n] n(1) by (simp add: winode_def Let_def slot_of_def)
  moreover have "files_rep (wsect ?n ?xs s) D fs" by (rule low_write [OF F _ g(2)]) (use n(1) in simp)
  moreover have "din_at (wsect ?n ?xs s) j = (if j = i then d else din_at s j)" if j: "j < 207" for j
  proof (cases "IBLOCK (inode_no j) mk_sb = ?n")
    case True
    show ?thesis
    proof (cases "j = i")
      case False
      then have "slot_of (inode_no j) \<noteq> ?k" using inode_place_inj [OF j i True] by blast
      then show ?thesis using g(3) [OF slot_less] False True by (simp add: din_at_def)
    qed (use g(1) in \<open>simp add: din_at_def\<close>)
  next
    case False
    then show ?thesis by (auto simp: din_at_def)
  qed
  moreover have "front (wsect ?n ?xs s) = front s" by (rule front_eq) (use n(2) in auto)
  ultimately show ?thesis by (intro exI [of _ "wsect ?n ?xs s"]) simp
qed

lemma rinode_files:
  assumes F: "files_rep s D fs" and i: "i < 207"
  shows "rinode (inode_no i) s = Done (din_at s i)"
  using rsect_ok [of s "IBLOCK (inode_no i) mk_sb"] F inode_block_below [OF i]
  by (simp add: rinode_def Let_def din_at_def slot_of_def files_rep_def image_rep_def)

lemma files_addrs: "files_rep s D fs \<Longrightarrow> j < length fs \<Longrightarrow> length (d_addrs (D j)) = 13"
  unfolding files_rep_def image_rep_def wf_image_def by blast

lemma iappend_files:
  assumes R: "disk_rep s fs" and i: "i < length fs" and fit: "fits (map snd (fs[i := (ty, snd (fs ! i) @ p)]))" and ty: "fst (fs ! i) = ty"
  shows "\<exists>t. iappend (inode_no i) p s = Done t \<and> disk_rep t (fs[i := (ty, snd (fs ! i) @ p)]) \<and> front t = front s"
proof -
  let ?D = "din_at s" and ?fs = "map snd fs" and ?bs = "snd (fs ! i)"
  let ?d = "?D i"
  have F: "files_rep s ?D ?fs" and h: "\<And>j. j < length fs \<Longrightarrow> inode_header (fst (fs ! j)) (length (snd (fs ! j))) (?D j)" and i': "i < 207" "length fs \<le> 207"
    using R i by (simp_all add: disk_rep_def)
  have hd: "unat (d_size ?d) = length ?bs" "dinode_ok ?d" using h [OF i] by (simp_all add: inode_header_def)
  have e: "?D(i := ?d) = ?D" "map snd (fs[i := (ty, ?bs @ p)]) = ?fs[i := ?fs ! i @ p]" "?fs ! i = ?bs" using i by (simp_all add: map_update)
  have il: "i < length ?fs" and fit': "fits (?fs[i := ?fs ! i @ p])" using i fit e(2) by simp_all
  obtain as t where t: "kwhile (\<lambda>(p, ofs, din, s). p \<noteq> []) append_turn (p, length ?bs, ?d, s) = Done ([], length (?bs @ p), ?d\<lparr>d_addrs := as\<rparr>, t)"
    "files_rep t (?D(i := ?d\<lparr>d_addrs := as\<rparr>)) (?fs[i := ?bs @ p])" "below_same s t"
    using append_loop [of s ?D i ?d ?fs p] F il fit' unfolding e(1,3) by blast
  let ?e = "?d\<lparr>d_addrs := as, d_size := of_nat (length (?bs @ p))\<rparr>"
  have "?bs @ p \<in> set (?fs[i := ?fs ! i @ p])" using set_update_memI [OF il] e(3) by simp
  then have len: "length (?bs @ p) \<le> 71680" using fit' unfolding fits_def by blast
  have sz: "unat (of_nat (length (?bs @ p)) :: u32) = length (?bs @ p)" by (rule of_nat_u32, rule le_less_trans [OF len]) simp
  have "length as = 13" using files_addrs [OF t(2), of i] il by simp
  then have dok: "dinode_ok ?e" using hd(2) by (simp add: dinode_ok_def NDIRECT_def)
  obtain u where u: "winode (inode_no i) ?e t = Done u" "files_rep u (?D(i := ?d\<lparr>d_addrs := as\<rparr>)) (?fs[i := ?bs @ p])"
    "\<And>j. j < 207 \<Longrightarrow> din_at u j = (if j = i then ?e else din_at t j)" "freeinode u = freeinode t" "front u = front t"
    using winode_files [OF t(2) i'(1) dok] by auto
  have bs: "blk t n = blk s n" if "unat n < 59" for n using t(3) that by (simp add: below_same_def)
  have dt: "din_at t j = ?D j" if "j < 207" for j using bs inode_block_below [OF that] by (simp add: din_at_def)
  have du: "din_at u j = (if j = i then ?e else ?D j)" if "j < 207" for j using u(3) [OF that] dt [OF that] by simp
  have "files_rep u (din_at u) (?fs[i := ?bs @ p])" by (rule files_cong [OF u(2)]) (use du i'(2) in auto)
  moreover have "inode_header (fst (fs[i := (ty, ?bs @ p)] ! j)) (length (snd (fs[i := (ty, ?bs @ p)] ! j))) (din_at u j)" if "j < length fs" for j
  proof (cases "j = i")
    case True
    then show ?thesis using du [OF i'(1)] h [OF i] ty i sz dok by (simp add: inode_header_def del: of_nat_add length_append)
  next
    case False
    then show ?thesis using du [of j] h [OF that] that i'(2) by simp
  qed
  ultimately have "disk_rep u (fs[i := (ty, ?bs @ p)])"
    using R u(4) t(3) e(2,3) by (simp add: disk_rep_def below_same_def)
  moreover have "iappend (inode_no i) p s = Done u"
    using rinode_files [OF F i'(1)] t(1) u(1) hd(1) by (simp add: iappend_def)
  moreover have "front t = front s" by (rule front_eq) (use bs in simp)
  ultimately show ?thesis using u(5) by auto
qed

text \<open>A new file is empty.\<close>

lemma files_new:
  assumes F: "files_rep s D fs" and z: "d_addrs (D (length fs)) = replicate 13 0"
  shows "files_rep s D (fs @ [[]])"
proof -
  let ?m = "length fs"
  have W: "wf_image (blk s) (freeblock s) D ?m" and ok: "image_ok s" and P: "set_ptrs (blk s) D ?m = pointers (map length fs)"
    using F by (simp_all add: files_rep_def image_rep_def)
  have a: "slot_addr (blk s) (ino (D ?m)) k = 0" if "k < 141" for k
    using z by (simp add: slot_addr_def nth_replicate del: replicate.simps replicate_Suc)
  then have "ptr (blk s) D (?m, k) = 0" if "k < 141" for k using that by (simp add: ptr_def)
  moreover have "ptrs (Suc ?m) = ptrs ?m \<union> {?m} \<times> {..<141}" by (auto simp: ptrs_def less_Suc_eq)
  ultimately have sp: "set_ptrs (blk s) D (Suc ?m) = set_ptrs (blk s) D ?m" by (auto simp: set_ptrs_def)
  have "length (d_addrs (D j)) = 13" if "j < Suc ?m" for j using that W z by (cases "j = ?m") (auto simp: wf_image_def)
  then have "wf_image (blk s) (freeblock s) D (Suc ?m)" using W unfolding wf_image_def sp by blast
  moreover have "pointers (map length (fs @ [[]])) = pointers (map length fs)"
    by (auto simp: pointers_def nth_append slot_used_def less_Suc_eq split: if_splits)
  moreover have "file_bytes (blk s) (D j) ((fs @ [[]]) ! j)" if j: "j < Suc ?m" for j
  proof (cases "j = ?m")
    case True
    have "file_addr (blk s) (ino (D ?m)) (r div 512) = 0" if "r < 71680" for r
      using a file_slot_less [of "r div 512"] that by (simp add: file_addr_def)
    then show ?thesis by (simp add: True file_bytes_def fbyte_def Let_def)
  next
    case False
    then have "j < ?m" "(fs @ [[]]) ! j = fs ! j" using j by (simp_all add: nth_append)
    then show ?thesis using F by (simp add: files_rep_def)
  qed
  ultimately show ?thesis using ok P sp by (simp add: files_rep_def image_rep_def)
qed

lemma mk_ialloc_files:
  assumes R: "disk_rep s fs" and n: "length fs < 207" and ty: "short_ok ty"
  shows "\<exists>t. mk_ialloc ty s = Done (inode_no (length fs), t) \<and> disk_rep t (fs @ [(ty, [])]) \<and> front t = front s"
proof -
  let ?m = "length fs" and ?d = "\<lparr>d_type = ty, d_major = 0, d_minor = 0, d_nlink = 1, d_size = 0, d_addrs = replicate 13 0\<rparr>"
  let ?s = "s\<lparr>freeinode := inode_no ?m + 1\<rparr>"
  have F: "files_rep s (din_at s) (map snd fs)" and fi: "freeinode s = inode_no ?m" using R by (simp_all add: disk_rep_def)
  have F': "files_rep ?s (din_at s) (map snd fs)" using F by (simp add: files_rep_def image_rep_def)
  have d: "dinode_ok ?d" using ty by (simp add: dinode_ok_def short_ok_def NDIRECT_def)
  obtain t where t: "winode (inode_no ?m) ?d ?s = Done t" "files_rep t (din_at s) (map snd fs)"
    "\<And>j. j < 207 \<Longrightarrow> din_at t j = (if j = ?m then ?d else din_at ?s j)" "freeinode t = inode_no ?m + 1" "front t = front s"
    using winode_files [OF F' n d] by auto
  have ds: "din_at ?s = din_at s" by (simp add: din_at_def fun_eq_iff)
  have "files_rep t (din_at t) (map snd fs)" by (rule files_cong [OF t(2)]) (use t(3) ds n in auto)
  then have "files_rep t (din_at t) (map snd fs @ [[]])" using t(3) n by (intro files_new) simp_all
  moreover have "inode_header (fst ((fs @ [(ty, [])]) ! j)) (length (snd ((fs @ [(ty, [])]) ! j))) (din_at t j)" if "j < Suc ?m" for j
  proof (cases "j = ?m")
    case True
    then show ?thesis using t(3) n d by (simp add: inode_header_def)
  next
    case False
    then show ?thesis using that t(3) [of j] n ds R by (simp add: nth_append disk_rep_def)
  qed
  ultimately have "disk_rep t (fs @ [(ty, [])])" using t(4) n by (simp add: disk_rep_def inode_no_def add.commute)
  moreover have "mk_ialloc ty s = Done (inode_no ?m, t)" using t(1) fi by (simp add: mk_ialloc_def Let_def)
  ultimately show ?thesis using t(5) by blast
qed

section \<open>The files of the command line\<close>

text \<open>The name without a leading underscore, a directory entry, and the files of the image.\<close>

definition short_name :: "u8 list \<Rightarrow> u8 list" where
  "short_name name = (if name \<noteq> [] \<and> hd name = of_char CHR ''_'' then tl name else name)"

definition dir_entry :: "nat \<Rightarrow> u8 list \<Rightarrow> u8 list" where
  "dir_entry j name = enc_dirent \<lparr>de_inum = ucast (inode_no j), de_name = pad_name name\<rparr>"

definition root_dir :: "u8 list list \<Rightarrow> u8 list" where
  "root_dir names = dir_entry 0 [of_char CHR ''.''] @ dir_entry 0 [of_char CHR ''.'', of_char CHR ''.'']
     @ concat (map (\<lambda>k. dir_entry (Suc k) (short_name (names ! k))) [0..<length names])"

definition disk_files :: "(u8 list \<times> u8 list list) list \<Rightarrow> (int \<times> u8 list) list" where
  "disk_files fs = (T_DIR, root_dir (map fst fs)) # map (\<lambda>f. (T_FILE, concat (snd f))) fs"

lemma dir_entry_length [simp]: "length (dir_entry j name) = 16"
  by (simp add: dir_entry_def enc_dirent_def pad_name_def DIRSIZ_def)

lemma root_dir_snoc: "root_dir (names @ [n]) = root_dir names @ dir_entry (Suc (length names)) (short_name n)"
proof -
  have "map (\<lambda>k. dir_entry (Suc k) (short_name ((names @ [n]) ! k))) [0..<length names]
      = map (\<lambda>k. dir_entry (Suc k) (short_name (names ! k))) [0..<length names]" by (rule map_cong) (simp_all add: nth_append)
  then show ?thesis by (simp add: root_dir_def del: map_eq_conv)
qed

lemma disk_files_length [simp]: "length (disk_files fs) = Suc (length fs)"
  by (simp add: disk_files_def)

lemma pieces_files:
  assumes "disk_rep s fs" and "i < length fs" and "fst (fs ! i) = ty" and "fits (map snd (fs[i := (ty, snd (fs ! i) @ concat ps)]))"
  shows "\<exists>t. kfold (iappend (inode_no i)) ps s = Done t \<and> disk_rep t (fs[i := (ty, snd (fs ! i) @ concat ps)]) \<and> front t = front s"
  using assms
proof (induction ps arbitrary: s fs)
  case Nil
  have "fs[i := (ty, snd (fs ! i))] = fs" using Nil.prems(3) by (metis list_update_id prod.collapse)
  then show ?case using Nil.prems(1) by simp
next
  case (Cons p ps)
  let ?fs = "fs[i := (ty, snd (fs ! i) @ p)]"
  have g: "fits (map snd ?fs)"
    by (rule fits_mono [OF Cons.prems(4)]) (use Cons.prems(2) in \<open>simp_all add: nth_list_update\<close>)
  obtain t where t: "iappend (inode_no i) p s = Done t" "disk_rep t ?fs" "front t = front s"
    using iappend_files [OF Cons.prems(1,2) g Cons.prems(3)] by blast
  have e: "i < length ?fs" "fst (?fs ! i) = ty" "?fs[i := (ty, snd (?fs ! i) @ concat ps)] = fs[i := (ty, snd (fs ! i) @ concat (p # ps))]"
    using Cons.prems(2) by simp_all
  obtain u where "kfold (iappend (inode_no i)) ps t = Done u" "disk_rep u (fs[i := (ty, snd (fs ! i) @ concat (p # ps))])" "front u = front t"
    using Cons.IH [OF t(2) e(1,2)] Cons.prems(4) unfolding e(3) by blast
  then show ?case using t(1,3) by auto
qed

lemma add_file_files:
  assumes R: "disk_rep s (disk_files fs)" and n: "length fs < 206" and name: "of_char CHR ''/'' \<notin> set (fst f)"
    and fit: "fits (map snd (disk_files (fs @ [f])))"
  shows "\<exists>t. add_file f s = Done t \<and> disk_rep t (disk_files (fs @ [f])) \<and> front t = front s"
proof -
  obtain nm ps where f: "f = (nm, ps)" by (cases f)
  let ?m = "Suc (length fs)" and ?e = "dir_entry (Suc (length fs)) (short_name nm)"
  let ?fs = "disk_files fs @ [(T_FILE, [])]"
  let ?gs = "?fs[0 := (T_DIR, snd (?fs ! 0) @ ?e)]"
  have h: "fst (?fs ! 0) = T_DIR" "snd (?fs ! 0) = root_dir (map fst fs)" "0 < length ?fs" by (simp_all add: disk_files_def)
  have gs: "?gs = (T_DIR, root_dir (map fst (fs @ [f]))) # map (\<lambda>f. (T_FILE, concat (snd f))) fs @ [(T_FILE, [])]"
    using root_dir_snoc [of "map fst fs" nm] by (simp add: disk_files_def f)
  have gm: "?gs ! ?m = (T_FILE, [])" "?m < length ?gs" "?gs[?m := (T_FILE, snd (?gs ! ?m) @ concat ps)] = disk_files (fs @ [f])"
    unfolding gs by (simp_all add: nth_append disk_files_def f list_update_append)
  have fg: "fits (map snd ?gs)"
  proof (rule fits_mono [OF fit])
    fix j assume "j < length (map snd ?gs)"
    then show "length (map snd ?gs ! j) \<le> length (map snd (disk_files (fs @ [f])) ! j)"
      unfolding gs by (cases j) (auto simp: disk_files_def nth_append)
  qed simp
  have "short_ok T_FILE" by (simp add: short_ok_def T_FILE_def)
  then obtain t where t: "mk_ialloc T_FILE s = Done (inode_no ?m, t)" "disk_rep t ?fs" "front t = front s"
    using mk_ialloc_files [OF R] n by auto
  obtain u where u: "iappend (inode_no 0) ?e t = Done u" "disk_rep u ?gs" "front u = front t"
    using iappend_files [OF t(2) h(3) fg h(1)] by blast
  obtain v where v: "kfold (iappend (inode_no ?m)) ps u = Done v" "disk_rep v (disk_files (fs @ [f]))" "front v = front u"
    using pieces_files [OF u(2) gm(2), of T_FILE ps] gm(1) fit unfolding gm(3) by auto
  have "ROOTINO = inode_no 0" by (simp add: ROOTINO_def inode_no_def)
  then have "add_file f s = Done v"
    using t(1) u(1) v(1) name by (simp add: add_file_def f Let_def dir_entry_def short_name_def)
  then show ?thesis using v(2,3) u(3) t(3) by auto
qed

section \<open>The space that files need\<close>

definition blocks_needed :: "nat \<Rightarrow> nat" where
  "blocks_needed n = (n + 511) div 512 + (if 6144 < n then 1 else 0)"

lemma slots_card:
  assumes n: "n \<le> 71680"
  shows "card {k. k < 141 \<and> slot_used n k} = blocks_needed n"
proof -
  let ?A = "{..<(n + 511) div 512}"
  have a: "j \<in> ?A \<longleftrightarrow> 512 * j < n" for j
  proof -
    have "j < (n + 511) div 512 \<longleftrightarrow> Suc j \<le> (n + 511) div 512" by (rule Suc_le_eq [symmetric])
    also have "\<dots> \<longleftrightarrow> Suc j * 512 \<le> n + 511" by (rule less_eq_div_iff_mult_less_eq) simp
    also have "\<dots> \<longleftrightarrow> 512 * j < n" unfolding mult_Suc by (rule iffI) linarith+
    finally show ?thesis by (simp only: lessThan_iff)
  qed
  have s: "slot_used n (file_slot j) \<longleftrightarrow> 512 * j < n" for j by (simp add: slot_used_def file_slot_def)
  have f: "\<exists>j. k = file_slot j" if "k \<noteq> 12" for k
  proof (cases "k < 12")
    case True
    then show ?thesis by (intro exI [of _ k]) (simp add: file_slot_def)
  next
    case False
    then show ?thesis using that by (intro exI [of _ "k - 1"]) (simp add: file_slot_def)
  qed
  have l: "file_slot j < 141" if "512 * j < n" for j using file_slot_less [of j] that n by simp
  have "{k. k < 141 \<and> slot_used n k} = file_slot ` ?A \<union> (if 6144 < n then {12} else {})" (is "?L = ?R")
  proof (intro set_eqI iffI)
    fix k assume k: "k \<in> ?L"
    show "k \<in> ?R"
    proof (cases "k = 12")
      case False
      then obtain j where "k = file_slot j" using f by blast
      then show ?thesis using k s a by auto
    qed (use k in \<open>auto simp: slot_used_def\<close>)
  next
    fix k assume "k \<in> ?R"
    then consider j where "k = file_slot j" "512 * j < n" | "k = 12" "6144 < n" using a by (auto split: if_splits)
    then show "k \<in> ?L"
    proof cases
      case 1
      then show ?thesis using s l by simp
    qed (simp add: slot_used_def)
  qed
  moreover have "12 \<notin> file_slot ` ?A" by (auto simp: file_slot_def split: if_splits)
  moreover have "card (file_slot ` ?A) = card ?A" using file_slot_inj by (intro card_image) (auto simp: inj_on_def)
  ultimately show ?thesis by (simp add: blocks_needed_def)
qed

lemma pointers_card: "\<forall>n\<in>set ls. n \<le> 71680 \<Longrightarrow> card (pointers ls) = sum_list (map blocks_needed ls)"
proof (induction ls rule: rev_induct)
  case (snoc n ls)
  let ?B = "{length ls} \<times> {k. k < 141 \<and> slot_used n k}"
  have "pointers (ls @ [n]) = pointers ls \<union> ?B" by (auto simp: pointers_def nth_append less_Suc_eq)
  moreover have "finite ?B" by simp
  moreover have "pointers ls \<inter> ?B = {}" by (auto simp: pointers_def)
  ultimately have "card (pointers (ls @ [n])) = card (pointers ls) + card ?B" by (simp add: card_Un_disjoint pointers_finite)
  then show ?case using snoc slots_card [of n] by (simp add: card_cartesian_product)
qed (simp add: pointers_def)

section \<open>main\<close>

lemma marked_bits:
  assumes "k \<le> 4096" and "j < 4096"
  shows "length (fold (\<lambda>j b. mark_bit b j) [0..<k] (replicate 512 0)) = 512
    \<and> (bit_free (fold (\<lambda>j b. mark_bit b j) [0..<k] (replicate 512 0)) j \<longleftrightarrow> k \<le> j)"
  using assms(1)
proof (induction k)
  case 0
  then show ?case using assms(2) by (simp add: bit_free_def nth_replicate del: replicate.simps replicate_Suc)
next
  case (Suc k)
  then have IH: "length (fold (\<lambda>j b. mark_bit b j) [0..<k] (replicate 512 0)) = 512"
    "bit_free (fold (\<lambda>j b. mark_bit b j) [0..<k] (replicate 512 0)) j \<longleftrightarrow> k \<le> j" by simp_all
  have "k < 4096" using Suc.prems by simp
  from bitmap_bits(1,3) [OF IH(1) this assms(2)] IH(2) show ?case by (auto simp: less_Suc_eq_le)
qed

lemma mk_balloc_files:
  assumes F: "files_rep s D fs" and fit: "fits fs"
  shows "\<exists>t. mk_balloc (unat (freeblock s)) s = Done t \<and> files_rep t D fs \<and> freeblock t = freeblock s \<and> (\<forall>n. n \<noteq> 58 \<longrightarrow> blk t n = blk s n)
    \<and> (\<forall>n. unat n < 1000 \<longrightarrow> in_use (blk t) mk_sb n = (n < freeblock s))"
proof -
  let ?u = "unat (freeblock s)"
  let ?b = "fold (\<lambda>j b. mark_bit b j) [0..<?u] (replicate 512 0)"
  have u: "?u \<le> 1000" using F fit by (simp add: files_rep_def image_rep_def wf_image_def fits_def)
  have "length ?b = 512" using marked_bits [of ?u 0] u by simp
  then have "files_rep (wsect 58 ?b s) D fs" using low_write [OF F, of 58 ?b] by simp
  moreover have "mk_balloc ?u s = Done (wsect 58 ?b s)" using u by (simp add: mk_balloc_def)
  moreover have "in_use (blk (wsect 58 ?b s)) mk_sb n = (n < freeblock s)" if n: "unat n < 1000" for n
  proof -
    have "unat (BBLOCK n mk_sb - 58) = 0" using BPB_parts(1) [of n mk_sb] n by simp
    then have "BBLOCK n mk_sb - 58 = 0" by (simp add: unat_eq_zero)
    then have "BBLOCK n mk_sb = 58" by simp
    moreover have "unat (n mod BPB) = unat n" using BPB_parts(2) [of n] n by simp
    ultimately show ?thesis using marked_bits [of ?u "unat n"] u n by (auto simp: in_use_def word_less_nat_alt)
  qed
  ultimately show ?thesis by (intro exI [of _ "wsect 58 ?b s"]) simp
qed

lemma empty_disk:
  defines "s \<equiv> \<lparr>img = (\<lambda>n. if n < FSSIZE then Some (replicate 512 0) else None), freeinode = 1, freeblock = nmeta\<rparr>"
  shows "disk_rep (wsect 1 (blit (replicate 512 0) 0 (enc_superblock mk_sb)) s) []"
    and "dec_superblock (blk (wsect 1 (blit (replicate 512 0) 0 (enc_superblock mk_sb)) s) 1) = mk_sb"
proof -
  have b: "blk s n = replicate 512 0" for n by (simp add: blk_def s_def)
  have f: "n < FSSIZE \<longleftrightarrow> unat n < 1000" for n by (simp add: FSSIZE_def word_less_nat_alt)
  have ok: "image_ok s" unfolding image_ok_def b by (simp add: s_def f)
  have "wf_image (blk s) (freeblock s) (din_at t) 0" for t by (simp add: wf_image_def b set_ptrs_def ptrs_def) (simp add: s_def)
  then have F: "files_rep s (din_at t) []" for t using ok by (simp add: files_rep_def image_rep_def set_ptrs_def ptrs_def pointers_def)
  let ?xs = "blit (replicate 512 0) 0 (enc_superblock mk_sb)"
  have l: "length (enc_superblock mk_sb) = 28" by (simp add: enc_superblock_def)
  then have "length ?xs = 512" by simp
  then have "files_rep (wsect 1 ?xs s) (din_at (wsect 1 ?xs s)) []" using low_write [OF F, of 1 ?xs] by simp
  moreover have "freeinode s = inode_no 0" by (simp add: s_def inode_no_def)
  ultimately show "disk_rep (wsect 1 ?xs s) []" by (simp add: disk_rep_def)
  show "dec_superblock (blk (wsect 1 ?xs s) 1) = mk_sb" by (simp add: blit_def dec_enc_superblock)
qed

lemma add_files:
  assumes "disk_rep s (disk_files [])" and "length fs \<le> 206" and "\<forall>f\<in>set fs. of_char CHR ''/'' \<notin> set (fst f)" and "fits (map snd (disk_files fs))"
  shows "\<exists>t. kfold add_file fs s = Done t \<and> disk_rep t (disk_files fs) \<and> front t = front s"
  using assms(2-4)
proof (induction fs rule: rev_induct)
  case (snoc f fs)
  have "fits (map snd (disk_files fs))"
  proof (rule fits_mono [OF snoc.prems(3)])
    fix j assume "j < length (map snd (disk_files fs))"
    then show "length (map snd (disk_files fs) ! j) \<le> length (map snd (disk_files (fs @ [f])) ! j)"
      using root_dir_snoc [of "map fst fs" "fst f"] by (cases j) (auto simp: disk_files_def nth_append)
  qed simp
  then obtain t where t: "kfold add_file fs s = Done t" "disk_rep t (disk_files fs)" "front t = front s" using snoc.IH snoc.prems(1,2) by auto
  have "length fs < 206" "of_char CHR ''/'' \<notin> set (fst f)" using snoc.prems(1,2) by simp_all
  then obtain u where u: "add_file f t = Done u" "disk_rep u (disk_files (fs @ [f]))" "front u = front t"
    using add_file_files [OF t(2) _ _ snoc.prems(3)] by blast
  have "kfold add_file (fs @ [f]) s = Done u" using t(1) u(1) by (simp add: kfold_append)
  then show ?case using u(2,3) t(3) by auto
qed (use assms(1) in simp)

end
