(* ===== verification/Mkfs_Props.thy ===== *)
theory Mkfs_Props
  imports Mkfs_Files File_Props
begin

text \<open>Correctness statements of mkfs: what the image holds, and what the kernel reads from it.\<close>

text \<open>The whole image after \<open>mkfs\<close>.\<close>

definition mkfs_ok :: "(u8 list \<times> u8 list list) list \<Rightarrow> bool" where
  "mkfs_ok fs \<longleftrightarrow> length fs < 199 \<and> (\<forall>f\<in>set fs. of_char CHR ''/'' \<notin> set (fst f) \<and> length (concat (snd f)) \<le> 71680)
     \<and> 59 + sum_list (map (\<lambda>f. blocks_needed (length (snd f))) (disk_files fs)) \<le> 1000"

lemma root_dir_length: "length (root_dir names) = 32 + 16 * length names"
  by (simp add: root_dir_def length_concat comp_def sum_list_triv)

lemma mkfs_fits:
  assumes "mkfs_ok fs"
  shows "fits (map snd (disk_files fs))" and "card (pointers (map length (map snd (disk_files fs)))) = sum_list (map (\<lambda>f. blocks_needed (length (snd f))) (disk_files fs))"
proof -
  have l: "\<forall>f\<in>set (map snd (disk_files fs)). length f \<le> 71680"
    using assms by (auto simp: disk_files_def root_dir_length mkfs_ok_def)
  then show c: "card (pointers (map length (map snd (disk_files fs)))) = sum_list (map (\<lambda>f. blocks_needed (length (snd f))) (disk_files fs))"
    by (subst pointers_card) (auto simp: comp_def)
  show "fits (map snd (disk_files fs))" using assms l unfolding fits_def c mkfs_ok_def by blast
qed

text \<open>The end of \<open>main\<close>: the size of the root directory is rounded up, and the bitmap is written.\<close>

definition finished :: "(u8 list \<times> u8 list list) list \<Rightarrow> mkstate \<Rightarrow> bool" where
  "finished fs t \<longleftrightarrow> files_rep t (din_at t) (map snd (disk_files fs))
    \<and> inode_header T_DIR ((length (root_dir (map fst fs)) div 512 + 1) * 512) (din_at t 0)
    \<and> (\<forall>k<length fs. inode_header T_FILE (length (concat (snd (fs ! k)))) (din_at t (Suc k)))
    \<and> (\<forall>n. unat n < 1000 \<longrightarrow> in_use (blk t) mk_sb n = (n < freeblock t))"

lemma rounded_size:
  assumes "unat (x :: u32) = n" and "n \<le> 3200"
  shows "unat ((x div 512 + 1) * 512) = (n div 512 + 1) * 512"
proof -
  have "unat (x div 512) = n div 512" using assms(1) by (simp add: unat_div)
  moreover have "n div 512 \<le> 3200 div 512" by (rule div_le_mono [OF assms(2)])
  ultimately show ?thesis by (simp add: unat_word_ariths)
qed

lemma mkfs_finish:
  assumes ok: "mkfs_ok fs" and R: "disk_rep d (disk_files fs)"
  shows "\<exists>e t. winode (inode_no 0) ((din_at d 0)\<lparr>d_size := (d_size (din_at d 0) div 512 + 1) * 512\<rparr>) d = Done e
    \<and> mk_balloc (unat (freeblock e)) e = Done t \<and> finished fs t \<and> front t = front d"
proof -
  let ?fs = "map snd (disk_files fs)" and ?n = "length (root_dir (map fst fs))" and ?d = "(din_at d 0)\<lparr>d_size := (d_size (din_at d 0) div 512 + 1) * 512\<rparr>"
  have F: "files_rep d (din_at d) ?fs" and h: "\<And>j. j < Suc (length fs) \<Longrightarrow> inode_header (fst (disk_files fs ! j)) (length (snd (disk_files fs ! j))) (din_at d j)"
    using R by (simp_all add: disk_rep_def)
  have h0: "inode_header T_DIR ?n (din_at d 0)" using h [of 0] by (simp add: disk_files_def)
  have "?n \<le> 3200" using ok by (simp add: root_dir_length mkfs_ok_def)
  then have z: "unat (d_size ?d) = (?n div 512 + 1) * 512" using rounded_size [of "d_size (din_at d 0)" ?n] h0 by (simp add: inode_header_def)
  have hd: "inode_header T_DIR ((?n div 512 + 1) * 512) ?d" using h0 z by (simp add: inode_header_def dinode_ok_def short_ok_def T_DIR_def)
  have i0: "(0 :: nat) < 207" and dok: "dinode_ok ?d" using hd by (simp_all add: inode_header_def)
  obtain e where e: "winode (inode_no 0) ?d d = Done e" "files_rep e (din_at d) ?fs"
    "\<And>j. j < 207 \<Longrightarrow> din_at e j = (if j = 0 then ?d else din_at d j)" "front e = front d"
    using winode_files [OF F i0 dok] by blast
  have E: "files_rep e (din_at e) ?fs" by (rule files_cong [OF e(2)]) (use e(3) ok in \<open>auto simp: mkfs_ok_def\<close>)
  obtain t where t: "mk_balloc (unat (freeblock e)) e = Done t" "files_rep t (din_at e) ?fs" "freeblock t = freeblock e"
    "\<And>n. n \<noteq> 58 \<Longrightarrow> blk t n = blk e n" "\<forall>n. unat n < 1000 \<longrightarrow> in_use (blk t) mk_sb n = (n < freeblock e)"
    using mk_balloc_files [OF E mkfs_fits(1) [OF ok]] by blast
  have "IBLOCK (inode_no j) mk_sb \<noteq> 58" if "j < 207" for j using inode_block_below [OF that] by auto
  then have dt: "din_at t j = din_at e j" if "j < 207" for j using t(4) that by (simp add: din_at_def)
  have "files_rep t (din_at t) ?fs" by (rule files_cong [OF t(2)]) (use dt ok in \<open>auto simp: mkfs_ok_def\<close>)
  moreover have "inode_header T_FILE (length (concat (snd (fs ! k)))) (din_at t (Suc k))" if "k < length fs" for k
    using h [of "Suc k"] that dt [of "Suc k"] e(3) [of "Suc k"] ok by (simp add: disk_files_def mkfs_ok_def)
  moreover have "din_at t 0 = ?d" using dt [OF i0] e(3) [OF i0] by simp
  ultimately have "finished fs t" using hd t(3,5) by (simp add: finished_def)
  moreover have "n \<noteq> 58" if "unat n < 32" for n :: u32 using that by auto
  then have "front t = front e" using t(4) by (intro front_eq) blast
  ultimately show ?thesis using e(1,4) t(1) by auto
qed

lemma mkfs_image:
  assumes ok: "mkfs_ok fs"
  shows "\<exists>t. mkfs fs = Done t \<and> dec_superblock (blk t 1) = mk_sb \<and> blk t 2 = replicate 512 0 \<and> finished fs t"
proof -
  let ?s0 = "\<lparr>img = (\<lambda>n. if n < FSSIZE then Some (replicate 512 0) else None), freeinode = 1, freeblock = nmeta\<rparr>"
  let ?s = "wsect 1 (blit (replicate 512 0) 0 (enc_superblock mk_sb)) ?s0"
  let ?dot = "dir_entry 0 [of_char CHR ''.'']" and ?dots = "dir_entry 0 [of_char CHR ''.'', of_char CHR ''.'']"
  have small: "fits [xs]" if "length xs \<le> 32" for xs :: "u8 list"
  proof -
    have "card (pointers [length xs]) = blocks_needed (length xs)" using pointers_card [of "[length xs]"] that by simp
    moreover have "(length xs + 511) div 512 \<le> 1" using that by simp
    ultimately show ?thesis using that by (simp add: fits_def blocks_needed_def)
  qed
  have "short_ok T_DIR" by (simp add: short_ok_def T_DIR_def)
  then obtain a where a: "mk_ialloc T_DIR ?s = Done (inode_no 0, a)" "disk_rep a [(T_DIR, [])]" "front a = front ?s"
    using mk_ialloc_files [OF empty_disk(1)] by auto
  obtain b where b: "iappend (inode_no 0) ?dot a = Done b" "disk_rep b [(T_DIR, ?dot)]" "front b = front a"
    using iappend_files [OF a(2), of 0 T_DIR ?dot] small [of ?dot] by auto
  obtain c where c: "iappend (inode_no 0) ?dots b = Done c" "disk_rep c (disk_files [])" "front c = front b"
    using iappend_files [OF b(2), of 0 T_DIR ?dots] small [of "?dot @ ?dots"] by (auto simp: disk_files_def root_dir_def)
  obtain d where d: "kfold add_file fs c = Done d" "disk_rep d (disk_files fs)" "front d = front c"
    using add_files [OF c(2) _ _ mkfs_fits(1) [OF ok]] ok by (auto simp: mkfs_ok_def)
  obtain e t where t: "winode (inode_no 0) ((din_at d 0)\<lparr>d_size := (d_size (din_at d 0) div 512 + 1) * 512\<rparr>) d = Done e"
    "mk_balloc (unat (freeblock e)) e = Done t" "finished fs t" "front t = front d"
    using mkfs_finish [OF ok d(2)] by blast
  have fr: "front t = front ?s" using t(4) d(3) c(3) b(3) a(3) by simp
  have "dec_superblock (blk t 1) = mk_sb" using empty_disk(2) front_blk [OF fr, of 1] by simp
  moreover have "blk t 2 = replicate 512 0" using front_blk [OF fr, of 2] by (simp add: blk_def FSSIZE_def)
  moreover have "ROOTINO = inode_no 0" by (simp add: ROOTINO_def inode_no_def)
  moreover have "rinode (inode_no 0) d = Done (din_at d 0)" using d(2) by (intro rinode_files [of d "din_at d" "map snd (disk_files fs)"]) (simp_all add: disk_rep_def)
  ultimately show ?thesis
    using a(1) b(1) c(1) d(1) t(1-3) by (simp add: mkfs_def Let_def dir_entry_def)
qed

text \<open>
  C35. mkfs builds a file system: for files whose names have no slash and that fit on the disk, the superblock describes the
  layout, the log is empty,
  the root directory holds an entry for \<open>.\<close>, \<open>..\<close> and every file, every file has an inode of type T_FILE with one link and holds the bytes
  of the host's file, no block has two owners, every owned block is marked in the bitmap, and the bitmap marks exactly the first
  blocks: 59 of metadata and those that the files need.
\<close>

theorem mkfs_builds_file_system:
  assumes "mkfs_ok fs"
  shows "\<exists>t. mkfs fs = Done t \<and> dec_superblock (blk t 1) = mk_sb \<and> lh_read (blk t 2) = (0, [])
    \<and> inode_header T_DIR ((length (root_dir (map fst fs)) div 512 + 1) * 512) (din_at t 0)
    \<and> file_bytes (blk t) (din_at t 0) (root_dir (map fst fs))
    \<and> (\<forall>k<length fs. inode_header T_FILE (length (concat (snd (fs ! k)))) (din_at t (Suc k))
        \<and> file_bytes (blk t) (din_at t (Suc k)) (concat (snd (fs ! k))))
    \<and> inj_on (ptr (blk t) (din_at t)) (set_ptrs (blk t) (din_at t) (Suc (length fs)))
    \<and> (\<forall>q\<in>set_ptrs (blk t) (din_at t) (Suc (length fs)). in_use (blk t) mk_sb (ptr (blk t) (din_at t) q))
    \<and> (\<forall>n. unat n < 1000 \<longrightarrow>
        in_use (blk t) mk_sb n = (unat n < 59 + sum_list (map (\<lambda>f. blocks_needed (length (snd f))) (disk_files fs))))"
proof -
  obtain t where t: "mkfs fs = Done t" "dec_superblock (blk t 1) = mk_sb" "blk t 2 = replicate 512 0" "finished fs t" using mkfs_image [OF assms] by blast
  let ?S = "set_ptrs (blk t) (din_at t) (Suc (length fs))" and ?P = "ptr (blk t) (din_at t)"
  have F: "files_rep t (din_at t) (map snd (disk_files fs))" and iu: "\<forall>n. unat n < 1000 \<longrightarrow> in_use (blk t) mk_sb n = (n < freeblock t)"
    using t(4) by (simp_all add: finished_def)
  have fb: "unat (freeblock t) = 59 + sum_list (map (\<lambda>f. blocks_needed (length (snd f))) (disk_files fs))"
    using F mkfs_fits(2) [OF assms] by (simp add: files_rep_def image_rep_def wf_image_def)
  have lh: "lh_read (blk t 2) = (0, [])" using t(3) by (simp add: lh_read_def get32_def)
  have W: "inj_on ?P ?S" "\<forall>q\<in>?S. unat (?P q) < unat (freeblock t)"
    using F unfolding files_rep_def image_rep_def wf_image_def length_map disk_files_length by blast+
  have "unat (freeblock t) \<le> 1000" using fb assms by (simp add: mkfs_ok_def)
  then have "in_use (blk t) mk_sb (?P q)" if "q \<in> ?S" for q
    using W(2) that iu by (metis order_less_le_trans word_less_nat_alt)
  moreover have "file_bytes (blk t) (din_at t j) (snd (disk_files fs ! j))" if "j < Suc (length fs)" for j
    using F that by (simp add: files_rep_def)
  from this [of 0] this [of "Suc _"] have "file_bytes (blk t) (din_at t 0) (root_dir (map fst fs))"
    "\<forall>k<length fs. file_bytes (blk t) (din_at t (Suc k)) (concat (snd (fs ! k)))" by (simp_all add: disk_files_def)
  ultimately show ?thesis
    using t lh W(1) iu fb by (intro exI [of _ t]) (simp add: finished_def word_less_nat_alt)
qed

text \<open>A disk with the program \<open>cat\<close>, of three bytes.\<close>

abbreviation cat_files :: "(u8 list \<times> u8 list list) list" where
  "cat_files \<equiv> [([95, 99, 97, 116], [[7, 8], [9]])]"

lemma cat_files: "mkfs_ok cat_files" "sum_list (map (\<lambda>f. blocks_needed (length (snd f))) (disk_files cat_files)) = 2"
  by (simp_all add: mkfs_ok_def disk_files_def root_dir_length blocks_needed_def)

theorem mkfs_builds_file_system_witness:
  "\<exists>t. mkfs cat_files = Done t \<and> unat (d_size (din_at t 1)) = 3 \<and> fbyte (blk t) (ino (din_at t 1)) 2 = 9
    \<and> in_use (blk t) mk_sb 60 \<and> \<not> in_use (blk t) mk_sb 61"
proof -
  obtain t where t: "mkfs cat_files = Done t" "\<forall>k<1. inode_header T_FILE (length (concat (snd (cat_files ! k)))) (din_at t (Suc k))
      \<and> file_bytes (blk t) (din_at t (Suc k)) (concat (snd (cat_files ! k)))"
    "\<forall>n. unat n < 1000 \<longrightarrow> in_use (blk t) mk_sb n = (unat n < 61)"
    using mkfs_builds_file_system [OF cat_files(1)] unfolding cat_files(2) by auto
  have "file_bytes (blk t) (din_at t 1) [7, 8, 9]" "unat (d_size (din_at t 1)) = 3" using t(2) by (simp_all add: inode_header_def)
  then show ?thesis using t(1,3) by (auto simp: file_bytes_def)
qed

text \<open>An inode of the image, loaded by the kernel.\<close>

lemma bitmap_block: "m < 1000 \<Longrightarrow> BBLOCK m mk_sb = 58"
proof -
  assume "m < 1000"
  then have "unat m < 1000" by (simp add: word_less_nat_alt)
  then have "unat (BBLOCK m mk_sb - 58) = 0" using BPB_parts(1) [of m mk_sb] by simp
  then show ?thesis by (simp add: unat_eq_zero)
qed

lemma image_file_ok:
  assumes T: "files_rep t (din_at t) fs" and j: "j < length fs" and iu: "\<forall>n. unat n < 1000 \<longrightarrow> in_use (blk t) mk_sb n = (n < freeblock t)"
    and fb: "unat (freeblock t) \<le> 1000" and s: "sb s = mk_sb" "\<forall>n. 59 \<le> n \<and> n < 1000 \<longrightarrow> loggable s n"
    and x: "idev x = 1" "addrs x = d_addrs (din_at t j)"
  shows "file_ok s (blk t) x" and "fbyte (blk t) x = fbyte (blk t) (ino (din_at t j))"
    and "length (fs ! j) \<le> 71680 \<Longrightarrow> unat (isize x) \<le> 71680 \<Longrightarrow> (\<And>k. 512 * k < unat (isize x) \<Longrightarrow> 512 * k < length (fs ! j)) \<Longrightarrow> all_mapped (blk t) x"
proof -
  have W: "wf_image (blk t) (freeblock t) (din_at t) (length fs)" using T by (simp add: files_rep_def image_rep_def)
  have sl: "slot_addr (blk t) x k = ptr (blk t) (din_at t) (j, k)" for k using x(2) by (simp add: slot_addr_def ptr_def)
  have q: "(j, k) \<in> ptrs (length fs)" if "k < 141" for k using j that by (simp add: ptrs_def)
  note bb = bitmap_block
  have "block_ok s (blk t) a" if a: "59 \<le> unat a" "unat a < unat (freeblock t)" for a
  proof -
    have "a < 1000" "59 \<le> a" "a < freeblock t" "a \<noteq> 58" using a fb by (auto simp: word_less_nat_alt word_le_nat_alt)
    then show ?thesis using s iu bb fb a by (auto simp: block_ok_def)
  qed
  then have "block_ok s (blk t) (slot_addr (blk t) x k)" if "k < 141" "slot_addr (blk t) x k \<noteq> 0" for k
    using that wf_ptr(1,2) [OF W q] unfolding sl by blast
  moreover have "i = k" if "i < 141" "k < 141" "slot_addr (blk t) x i \<noteq> 0" "slot_addr (blk t) x i = slot_addr (blk t) x k" for i k
    using that wf_ptr(3) [OF W q [OF that(1)] _ q [OF that(2)]] unfolding sl by (metis prod.inject)
  moreover have "length (addrs x) = 13" using x(2) j W by (simp add: wf_image_def)
  ultimately show "file_ok s (blk t) x" using x(1) unfolding file_ok_def by blast
  have "slot_addr (blk t) x = slot_addr (blk t) (ino (din_at t j))" using x(2) by (simp add: slot_addr_def fun_eq_iff)
  then show "fbyte (blk t) x = fbyte (blk t) (ino (din_at t j))" by (simp add: fbyte_def file_addr_def fun_eq_iff)
  assume n: "length (fs ! j) \<le> 71680" "unat (isize x) \<le> 71680" "\<And>k. 512 * k < unat (isize x) \<Longrightarrow> 512 * k < length (fs ! j)"
  have "file_addr (blk t) x k \<noteq> 0" if k: "512 * k < length (fs ! j)" for k
  proof -
    have "k < 140" using k n(1) by linarith
    moreover have "slot_used (length (fs ! j)) (file_slot k)" using k by (simp add: slot_used_def file_slot_def)
    ultimately have "(j, file_slot k) \<in> pointers (map length fs)" using j file_slot_less [of k] by (simp add: pointers_def)
    then have "(j, file_slot k) \<in> set_ptrs (blk t) (din_at t) (length fs)" using T by (simp add: files_rep_def)
    then show ?thesis by (simp add: file_addr_def sl set_ptrs_def)
  qed
  then show "all_mapped (blk t) x" using n by (simp add: all_mapped_def)
qed

text \<open>
  From the host to a process: with the disk that mkfs wrote, the kernel finds every file. ilock on a fresh cache entry for the
  inode of file k loads it, and readi then returns the bytes of the host's file from the offset on, as many as asked for or left.
\<close>

lemma mkfs_file_read_by_kernel:
  assumes "mkfs_ok fs" and "mkfs fs = Done m" and "k < length fs" and "tx_rep s d (blk m) Map.empty"
    and "sb s = mk_sb" and "\<forall>n. 32 \<le> n \<and> n < 1000 \<longrightarrow> loggable s n" and "idev (inodes s ip) = 1" and "inum (inodes s ip) = inode_no (Suc k)"
    and "1 \<le> iref (inodes s ip)" and "\<not> I_BUSY (inodes s ip)" and "\<not> I_VALID (inodes s ip)" and "locked (locks s Licache) = 0"
    and "unat pos \<le> length (concat (snd (fs ! k)))" and "unat pos + unat n < 2 ^ 32"
  shows "\<exists>t u bs. ilock ip s = Done t \<and> readi ip pos n t = Done ((int (length bs), bs), u)
    \<and> bs = take (unat n) (drop (unat pos) (concat (snd (fs ! k))))"
proof -
  let ?xs = "concat (snd (fs ! k))" and ?d = "din_at m (Suc k)" and ?i = "inode_no (Suc k)"
  let ?z = "length (concat (snd (fs ! k)))"
  have fin: "finished fs m" using mkfs_image [OF assms(1)] assms(2) by auto
  have T: "files_rep m (din_at m) (map snd (disk_files fs))" and h: "inode_header T_FILE ?z ?d" and iu: "\<forall>n. unat n < 1000 \<longrightarrow> in_use (blk m) mk_sb n = (n < freeblock m)"
    using fin assms(3) by (simp_all add: finished_def)
  have k: "Suc k < length (map snd (disk_files fs))" "map snd (disk_files fs) ! Suc k = ?xs" "Suc k < 207" "?z \<le> 71680"
    using assms(1,3) by (auto simp: disk_files_def mkfs_ok_def)
  have fb: "unat (freeblock m) \<le> 1000" using T mkfs_fits(1) [OF assms(1)] by (simp add: files_rep_def image_rep_def wf_image_def fits_def)
  have di: "get_dinode (blk m (IBLOCK ?i (sb s))) (slot_of ?i) = ?d" using assms(5) by (simp add: din_at_def)
  have "IBLOCK ?i (sb s) < disksize s"
  proof -
    have "unat (IBLOCK ?i mk_sb) < 58" "32 \<le> unat (IBLOCK ?i mk_sb)" using inode_block_below [OF k(3)] inode_place(1) [OF k(3)] by simp_all
    then have "32 \<le> IBLOCK ?i mk_sb" "IBLOCK ?i mk_sb < 1000" by (simp_all add: word_le_nat_alt word_less_nat_alt)
    then show ?thesis using assms(5,6) by (simp add: loggable_def)
  qed
  moreover have "d_type ?d \<noteq> 0" using h by (simp add: inode_header_def T_FILE_def)
  ultimately obtain t where t: "ilock ip s = Done t" "tx_rep t d (blk m) Map.empty"
    "inodes t = (inodes s)(ip := (of_dinode ?d (inodes s ip))\<lparr>I_BUSY := True, I_VALID := True\<rparr>)" "sb t = sb s" "klog t = klog s" "disksize t = disksize s"
    using ilock_load [OF assms(4,7,9,10,11,12)] unfolding assms(8) di by blast
  let ?x = "inodes t ip"
  have x: "idev ?x = 1" "addrs ?x = d_addrs ?d" "isize ?x = d_size ?d" "itype ?x = T_FILE" using t(3) h assms(7) by (simp_all add: of_dinode_def inode_header_def)
  have "loggable t n = loggable s n" for n using t(5,6) by (simp add: loggable_def)
  moreover have "32 \<le> n" if "59 \<le> n" for n :: u32 using that by (simp add: word_le_nat_alt)
  ultimately have lg: "\<forall>n. 59 \<le> n \<and> n < 1000 \<longrightarrow> loggable t n" using assms(6) by blast
  have sz: "unat (isize ?x) = ?z" using x(3) h by (simp add: inode_header_def)
  have sbt: "sb t = mk_sb" using t(4) assms(5) by simp
  note f = image_file_ok [OF T k(1) iu fb sbt lg x(1,2), unfolded k(2)]
  have "file_bytes (blk m) ?d ?xs" using T k(1,2) unfolding files_rep_def by metis
  then have fbs: "map (fbyte (blk m) ?x) [0..<?z] = ?xs" using k(4) unfolding f(2) file_bytes_def by (intro nth_equalityI) simp_all
  have "itype ?x \<noteq> T_DEV" using x(4) by (simp add: T_FILE_def T_DEV_def)
  moreover have "pos \<le> isize ?x" using assms(13) sz by (simp add: word_le_nat_alt)
  moreover have "all_mapped (blk m) ?x" by (rule f(3) [OF k(4)]) (use sz k(4) in simp_all)
  ultimately obtain u where "readi ip pos n t = Done ((int (min (unat n) (?z - unat pos)), take (unat n) (drop (unat pos) ?xs)), u)"
    using readi_returns_bytes [OF t(2) f(1) _ _ _ assms(14)] unfolding sz fbs by blast
  then show ?thesis using t(1) by (intro exI [of _ t] exI [of _ u]) (simp add: min.commute)
qed

end
