(* ===== verification/Dir_Props.thy ===== *)
theory Dir_Props
  imports Directory Mkfs_Props
begin

text \<open>Correctness statements of directories: linking and looking up, and the root directory that mkfs writes.\<close>

section \<open>Entries of the root directory\<close>

lemma chunk_concat:
  assumes "\<forall>xs\<in>set xss. length xs = n" and "k < length xss"
  shows "take n (drop (n * k) (concat xss)) = xss ! k"
  using assms
proof (induction xss arbitrary: k)
  case (Cons xs xss)
  show ?case
  proof (cases k)
    case (Suc j)
    have "drop (n * k) (concat (xs # xss)) = drop (n * j) (concat xss)" using Cons.prems(1) Suc by simp
    then show ?thesis using Cons.IH [of j] Cons.prems Suc by simp
  qed (use Cons.prems in simp)
qed simp

text \<open>Entry \<open>k\<close> of the root directory for files with these names.\<close>

definition root_names :: "u8 list list \<Rightarrow> u8 list list" where
  "root_names names = [of_char CHR ''.''] # [of_char CHR ''.'', of_char CHR ''.''] # map short_name names"

lemma root_names_length: "length (root_names names) = length names + 2"
  by (simp add: root_names_def)

definition root_entry :: "u8 list list \<Rightarrow> nat \<Rightarrow> dirent" where
  "root_entry names k = \<lparr>de_inum = ucast (inode_no (k - 1)), de_name = pad_name (root_names names ! k)\<rparr>"

lemma root_dir_entries: "root_dir names = concat (map (\<lambda>k. enc_dirent (root_entry names k)) [0..<length names + 2])"
proof -
  have u: "[0..<length names + 2] = 0 # 1 # map (\<lambda>k. k + 2) [0..<length names]"
  proof -
    have "[0..<length names + 2] = [0..<2] @ [2..<length names + 2]" using upt_add_eq_append [of 0 2 "length names"] by (simp add: add.commute)
    moreover have "[0..<2] = [0, 1 :: nat]" by (simp add: upt_rec)
    moreover have "[2..<length names + 2] = map (\<lambda>k. k + 2) [0..<length names]" by (rule map_add_upt [symmetric])
    ultimately show ?thesis by (simp only: append_Cons append_Nil)
  qed
  have "map (\<lambda>k. dir_entry (Suc k) (short_name (names ! k))) [0..<length names]
      = map (\<lambda>k. enc_dirent (root_entry names (k + 2))) [0..<length names]"
    by (intro map_cong refl) (simp add: dir_entry_def root_entry_def root_names_def)
  then show ?thesis unfolding u root_dir_def by (simp add: comp_def dir_entry_def root_entry_def root_names_def del: map_eq_conv)
qed

lemma enc_root_entry: "length (enc_dirent (root_entry names k)) = 16"
  by (simp add: root_entry_def enc_dirent_def pad_name_def DIRSIZ_def)

lemma root_entry_at:
  assumes b: "file_bytes c d (root_dir names)" and x: "fbyte c x = fbyte c (ino d)" and k: "16 * k + 16 \<le> 71680" and n: "32 + 16 * length names \<le> 71680"
  shows "k < length names + 2 \<Longrightarrow> entry_at c x k = root_entry names k" and "length names + 2 \<le> k \<Longrightarrow> de_inum (entry_at c x k) = 0"
proof -
  have f: "fbyte c x r = (if r < 32 + 16 * length names then root_dir names ! r else 0)" if "r < 71680" for r
    using b that by (simp add: x file_bytes_def root_dir_length)
  show "entry_at c x k = root_entry names k" if kn: "k < length names + 2"
  proof -
    have "map (fbyte c x) [16 * k..<16 * k + 16] = take 16 (drop (16 * k) (root_dir names))"
      using f k kn by (intro nth_equalityI) (simp_all add: root_dir_length)
    also have "\<dots> = enc_dirent (root_entry names k)"
      unfolding root_dir_entries by (subst chunk_concat) (use kn in \<open>simp_all add: enc_root_entry del: upt_Suc\<close>)
    finally show ?thesis unfolding entry_at_def by (simp add: dec_enc_dirent root_entry_def pad_name_def)
  qed
  assume kn: "length names + 2 \<le> k"
  have "fbyte c x (16 * k + i) = 0" if "i < 16" for i using f [of "16 * k + i"] that k kn by simp
  then have "map (fbyte c x) [16 * k..<16 * k + 16] = replicate 16 0"
    by (intro nth_equalityI) simp_all
  then show "de_inum (entry_at c x k) = 0" by (simp add: entry_at_def dec_dirent_def get16_def)
qed

lemma cname_pad: "cname (pad_name xs) = cname xs"
proof -
  have "takeWhile (\<lambda>x. x \<noteq> 0) (take n (xs @ replicate m 0)) = takeWhile (\<lambda>x. x \<noteq> 0) (take n xs)" for n m :: nat and xs :: "u8 list"
  proof (induction xs arbitrary: n)
    case Nil
    then show ?case by (cases n; cases m) simp_all
  next
    case (Cons x xs)
    then show ?case by (cases n) simp_all
  qed
  then show ?thesis unfolding cname_def pad_name_def take_take min.idem .
qed

lemma inode_no_short:
  assumes "j < 207"
  shows "(ucast (inode_no j) :: u16) \<noteq> 0" and "ucast (ucast (inode_no j) :: u16) = inode_no j"
proof -
  have u: "unat (inode_no j) = Suc j" unfolding inode_no_def using assms by (intro of_nat_u32) simp
  have v: "unat (ucast (inode_no j) :: u16) = Suc j" using u assms by (simp add: unsigned_ucast_eq take_bit_eq_mod)
  show "(ucast (inode_no j) :: u16) \<noteq> 0"
  proof
    assume "(ucast (inode_no j) :: u16) = 0"
    then show False using v by simp
  qed
  have "unat (ucast (ucast (inode_no j) :: u16) :: u32) = Suc j" unfolding unsigned_ucast_eq using u assms by (simp add: take_bit_eq_mod unat_mod)
  then show "ucast (ucast (inode_no j) :: u16) = inode_no j" using u by (simp add: word_unat_eq_iff)
qed

text \<open>The root directory of the image, loaded, and a name in it.\<close>

definition root_loaded :: "mkstate \<Rightarrow> kernel \<Rightarrow> nat \<Rightarrow> bool" where
  "root_loaded m s dp \<longleftrightarrow> idev (inodes s dp) = 1 \<and> dinode_of (inodes s dp) = din_at m 0"

lemma find_first:
  assumes "k < n" and "P k" and "\<And>j. j < k \<Longrightarrow> \<not> P j"
  shows "List.find P [0..<n] = Some k"
proof -
  have "[0..<n] = [0..<k] @ k # [Suc k..<n]" using assms(1) upt_add_eq_append [of 0 k "n - k"] by (simp add: upt_conv_Cons)
  moreover have "List.find P [0..<k] = None" using assms(3) by (simp add: find_None_iff)
  moreover have "List.find P (xs @ ys) = (case List.find P xs of None \<Rightarrow> List.find P ys | Some y \<Rightarrow> Some y)" for xs ys :: "nat list"
    by (induction xs) auto
  ultimately show ?thesis using assms(2) by simp
qed

lemma image_root:
  assumes ok: "mkfs_ok fs" and fin: "finished fs m" and len: "(2 + length fs) mod 32 \<noteq> 0" and root: "root_loaded m s dp"
    and T: "tx_rep s d (blk m) Map.empty" and s: "sb s = mk_sb" "\<forall>n. 32 \<le> n \<and> n < 1000 \<longrightarrow> loggable s n"
    and names: "distinct (map cname (root_names (map fst fs)))" and k: "k < length fs" "cname name = cname (short_name (fst (fs ! k)))"
  shows "dir_rep s d (blk m) dp" and "first_entry (entry_match name) (blk m) (inodes s dp) = Some (k + 2)"
    and "entry_at (blk m) (inodes s dp) (k + 2) = root_entry (map fst fs) (k + 2)"
proof -
  let ?x = "inodes s dp" and ?names = "map fst fs" and ?n = "32 + 16 * length fs"
  let ?z = "(?n div 512 + 1) * 512" and ?fs = "map snd (disk_files fs)"
  have F: "files_rep m (din_at m) ?fs" and h: "inode_header T_DIR ?z (din_at m 0)" and iu: "\<forall>n. unat n < 1000 \<longrightarrow> in_use (blk m) mk_sb n = (n < freeblock m)"
    using fin by (simp_all add: finished_def root_dir_length)
  have fb: "unat (freeblock m) \<le> 1000" using F mkfs_fits(1) [OF ok] by (simp add: files_rep_def image_rep_def wf_image_def fits_def)
  have "dinode_of ?x = din_at m 0" using root by (simp add: root_loaded_def)
  then have x: "idev ?x = 1" "addrs ?x = d_addrs (din_at m 0)" "itype ?x = T_DIR" "unat (isize ?x) = ?z"
    using root h by (auto simp: root_loaded_def dinode_of_def inode_header_def dest: arg_cong [of _ _ d_addrs] arg_cong [of _ _ d_type] arg_cong [of _ _ d_size])
  have lg: "\<forall>n. 59 \<le> n \<and> n < 1000 \<longrightarrow> loggable s n" using s(2) by (auto simp: word_le_nat_alt)
  have r0: "0 < length ?fs" "?fs ! 0 = root_dir ?names" "length (root_dir ?names) = ?n" by (simp_all add: disk_files_def root_dir_length)
  note f = image_file_ok [OF F r0(1) iu fb s(1) lg x(1,2), unfolded r0(2,3)]
  have fs: "length fs < 199" using ok by (simp add: mkfs_ok_def)
  have mp: "512 * j < ?n" if "512 * j < ?z" for j
  proof -
    have "j \<le> ?n div 512" using that by simp
    then have "512 * j \<le> ?n" by (simp add: less_eq_div_iff_mult_less_eq mult.commute)
    moreover have "512 * j \<noteq> ?n"
    proof
      assume "512 * j = ?n"
      then have "2 + length fs = 32 * j" by simp
      then show False using len by simp
    qed
    ultimately show ?thesis by simp
  qed
  have zz: "?n < ?z" "?z \<le> ?n + 512"
    using mult_div_mod_eq [of 512 ?n] mod_less_divisor [of 512 ?n] by simp_all
  have al: "all_mapped (blk m) ?x" by (rule f(3)) (use x(4) zz fs mp in simp_all)
  have "16 dvd ?z" by (rule dvd_mult) simp
  then show "dir_rep s d (blk m) dp" unfolding dir_rep_def x(4) using T f(1) al x(3) by blast
  have "file_bytes (blk m) (din_at m 0) (root_dir ?names)" using F r0(1,2) unfolding files_rep_def by metis
  note e = root_entry_at [OF this f(2)]
  have ee: "entry_at (blk m) ?x j = root_entry ?names j" if "j < length fs + 2" for j using e(1) [of j] that fs by simp
  show "entry_at (blk m) ?x (k + 2) = root_entry ?names (k + 2)" using ee k(1) by simp
  have em: "entry_match name (entry_at (blk m) ?x j) \<longleftrightarrow> j = k + 2" if j: "j < length fs + 2" for j
  proof -
    have "j - 1 < 207" using j fs by simp
    then have "entry_match name (entry_at (blk m) ?x j) \<longleftrightarrow> cname (root_names ?names ! j) = cname name"
      using inode_no_short(1) by (simp add: ee [OF j] entry_match_def root_entry_def cname_pad)
    also have "cname name = cname (root_names ?names ! (k + 2))" using k by (simp add: root_names_def)
    also have "cname (root_names ?names ! j) = cname (root_names ?names ! (k + 2)) \<longleftrightarrow> j = k + 2"
      using nth_eq_iff_index_eq [OF names, of j "k + 2"] j k(1) by (simp add: root_names_length)
    finally show ?thesis .
  qed
  have "k + 2 < ?z div 16" using zz(1) k(1) by simp
  then show "first_entry (entry_match name) (blk m) ?x = Some (k + 2)"
    unfolding first_entry_def x(4) using em k(1) by (intro find_first) auto
qed

section \<open>Finding a file by its name\<close>

text \<open>
  C36. From the host to a process: with the disk that mkfs wrote and its root directory loaded, the kernel finds every file of the
  command line by its name. dirlookup yields a cache entry for the inode of the file, ilock loads it, and readi returns the bytes of
  the host's file from the offset on, as many as asked for or left. The names have to differ, and the entries of the directory must
  not end exactly at a block.
\<close>

theorem mkfs_file_found_by_name:
  assumes "mkfs_ok fs" and "mkfs fs = Done m" and "k < length fs" and "distinct (map cname (root_names (map fst fs)))"
    and "(2 + length fs) mod 32 \<noteq> 0" and "cname name = cname (short_name (fst (fs ! k)))"
    and "tx_rep s d (blk m) Map.empty" and "sb s = mk_sb" and "\<forall>n. 32 \<le> n \<and> n < 1000 \<longrightarrow> loggable s n" and "root_loaded m s dp"
    and "ref_rep s M" and "(1, inode_no (Suc k)) \<notin># M" and "\<exists>jp<NINODE. iref (inodes s jp) = 0"
    and "unat pos \<le> length (concat (snd (fs ! k)))" and "unat pos + unat n < 2 ^ 32"
  shows "\<exists>ip t u v bs. dirlookup dp name s = Done (Some (ip, of_nat (16 * (k + 2))), t) \<and> ilock ip t = Done u
    \<and> readi ip pos n u = Done ((int (length bs), bs), v) \<and> bs = take (unat n) (drop (unat pos) (concat (snd (fs ! k))))"
proof -
  let ?x = "inodes s dp" and ?i = "inode_no (Suc k)"
  have fin: "finished fs m" using mkfs_image [OF assms(1)] assms(2) by auto
  note R = image_root [OF assms(1) fin assms(5,10,7,8,9,4,3,6)]
  obtain a where a: "tx_rep a d (blk m) Map.empty" "frame s a" "dirlookup dp name s =
      kbind (iget 1 (ucast (de_inum (entry_at (blk m) ?x (k + 2)))) a) (\<lambda>(ip, u). Done (Some (ip, of_nat (16 * (k + 2))), u))"
    using dirlookup_rep(2) [OF R(1,2)] by blast
  have "Suc k < 207" using assms(1,3) by (simp add: mkfs_ok_def)
  then have i: "ucast (de_inum (entry_at (blk m) ?x (k + 2))) = ?i" unfolding R(3) root_entry_def using inode_no_short(2) [of "Suc k"] by simp
  have Ma: "ref_rep a M" by (rule ref_rep_frame [OF assms(11) a(2)])
  have ia: "inodes a = inodes s" "sb a = sb s" "klog a = klog s" "disksize a = disksize s" using a(2) by (simp_all add: frame_def)
  obtain ip t where t: "iget 1 ?i a = Done (ip, t)" "inodes t ip = (inodes a ip)\<lparr>idev := 1, inum := ?i, iref := 1, I_BUSY := False, I_VALID := False\<rparr>"
    using iget_fresh [OF Ma assms(12)] assms(13) unfolding ia(1) by blast
  note g = iget_tx [OF Ma t(1) a(1)]
  have sbt: "sb t = mk_sb" using g(2) ia(2) assms(8) by simp
  have "loggable t n = loggable s n" for n using g(3,4) ia(3,4) by (simp add: loggable_def)
  then have lg: "\<forall>n. 32 \<le> n \<and> n < 1000 \<longrightarrow> loggable t n" using assms(9) by simp
  have it: "idev (inodes t ip) = 1" "inum (inodes t ip) = ?i" "1 \<le> iref (inodes t ip)" "\<not> I_BUSY (inodes t ip)" "\<not> I_VALID (inodes t ip)"
    unfolding t(2) by simp_all
  obtain u v bs where "ilock ip t = Done u" "readi ip pos n u = Done ((int (length bs), bs), v)" "bs = take (unat n) (drop (unat pos) (concat (snd (fs ! k))))"
    using mkfs_file_read_by_kernel [OF assms(1-3) g(1) sbt lg it g(5) assms(14,15)] by blast
  moreover have "dirlookup dp name s = Done (Some (ip, of_nat (16 * (k + 2))), t)" using a(3) t(1) unfolding i by simp
  ultimately show ?thesis by blast
qed

text \<open>A machine that starts with a disk, inside of a system call, with one inode in the cache.\<close>

definition boot_with :: "kernel \<Rightarrow> inode \<Rightarrow> kernel" where
  "boot_with s x = s\<lparr>sb := mk_sb, inodes := (\<lambda>_. inode0)(0 := x)\<rparr>"

lemma in_tx_with:
  assumes e: "\<forall>n. length (e n) = 512" "fst (lh_read (e 2)) = 0" and x: "iref x = 1" "nlink x \<noteq> 0"
  shows "\<exists>s. tx_rep s e e Map.empty \<and> sb s = mk_sb \<and> (\<forall>n. 32 \<le> n \<and> n < 1000 \<longrightarrow> loggable s n) \<and> room 20 s
    \<and> inodes s = (\<lambda>_. inode0)(0 := x) \<and> ref_rep s {#key x#}"
proof -
  let ?b = "binit (power_on e)"
  note p = power_on_rep [OF e(1)]
  have q: "\<not> committing (klog ?b)" "lh_n (klog ?b) + (outstanding (klog ?b) + 1) * MAXOPBLOCKS \<le> LOGSIZE"
    using p by (simp_all add: log0_def LOGSIZE_def MAXOPBLOCKS_def)
  have "locked (locks ?b Llog) = 0" using p by blast
  then obtain u where u: "tx_rep u e e Map.empty" "klog u = log0\<lparr>outstanding := outstanding log0 + 1\<rparr>" "disksize u = 1000" "locked (locks u Licache) = 0"
    using begin_op_rep [OF log_rep_fresh [OF e] _ q] p by auto
  let ?s = "boot_with u x"
  have "loggable u n" if "32 \<le> n" "n < 1000" for n
    using loggable_fresh [of "u\<lparr>klog := log0\<rparr>" n] that u(2,3) by (simp add: loggable_def log_area_def)
  then have "\<forall>n. 32 \<le> n \<and> n < 1000 \<longrightarrow> loggable ?s n" by (simp add: loggable_def boot_with_def)
  moreover have T: "tx_rep ?s e e Map.empty" using u(1) by (simp add: boot_with_def tx_rep_def cache_rep_def cli_ok_def)
  moreover have "room 20 ?s" using u(2) by (simp add: room_def boot_with_def) (simp add: log0_def)
  moreover have "cli_ok ?s" using T by (simp add: tx_rep_def cache_rep_def)
  then have "ref_rep ?s {#key x#}" using u(4) x
    by (auto simp: ref_rep_def boot_with_def inode0_def NINODE_def split: if_splits)
  ultimately show ?thesis by (intro exI [of _ ?s]) (simp add: boot_with_def)
qed

lemma booted_cat:
  "\<exists>m s. mkfs cat_files = Done m \<and> finished cat_files m \<and> tx_rep s (blk m) (blk m) Map.empty \<and> sb s = mk_sb
    \<and> (\<forall>n. 32 \<le> n \<and> n < 1000 \<longrightarrow> loggable s n) \<and> room 20 s \<and> ref_rep s {#(1, 1)#} \<and> root_loaded m s 0 \<and> inum (inodes s 0) = 1
    \<and> (\<forall>ip. ip \<noteq> 0 \<longrightarrow> iref (inodes s ip) = 0)"
proof -
  obtain m where m: "mkfs cat_files = Done m" "blk m 2 = replicate 512 0" "finished cat_files m" using mkfs_image [OF cat_files(1)] by blast
  have l: "\<forall>n. length (blk m n) = 512" "fst (lh_read (blk m 2)) = 0"
    using m(2,3) by (simp_all add: finished_def files_rep_def image_rep_def image_ok_def lh_read_def get32_def)
  let ?x = "(of_dinode (din_at m 0) inode0)\<lparr>idev := 1, inum := 1, iref := 1, I_BUSY := True, I_VALID := True\<rparr>"
  have "nlink ?x \<noteq> 0" using m(3) by (simp add: finished_def inode_header_def of_dinode_def)
  then obtain s where s: "tx_rep s (blk m) (blk m) Map.empty" "sb s = mk_sb" "\<forall>n. 32 \<le> n \<and> n < 1000 \<longrightarrow> loggable s n" "room 20 s"
    "inodes s = (\<lambda>_. inode0)(0 := ?x)" "ref_rep s {#key ?x#}" using in_tx_with [OF l, of ?x] by auto
  have k: "key ?x = (1, 1)" by (simp add: key_def)
  have "root_loaded m s 0" unfolding root_loaded_def s(5) by (cases "din_at m 0") (simp add: dinode_of_def of_dinode_def)
  moreover have "inum (inodes s 0) = 1" "\<forall>ip. ip \<noteq> 0 \<longrightarrow> iref (inodes s ip) = 0" unfolding s(5) by (simp_all add: inode0_def)
  ultimately show ?thesis using m(1,3) s(1-4) s(6) [unfolded k] by blast
qed

lemma cat_names: "distinct (map cname (root_names (map fst cat_files)))" "cname [99, 97, 116] = [99, 97, 116]" "cname (short_name (fst (cat_files ! 0))) = [99, 97, 116]"
  by (simp_all add: root_names_def short_name_def cname_def DIRSIZ_def)

theorem mkfs_file_found_by_name_witness:
  "\<exists>s ip t u v. dirlookup 0 [99, 97, 116] s = Done (Some (ip, 32), t) \<and> ilock ip t = Done u \<and> readi ip 1 10 u = Done ((2, [8, 9]), v)"
proof -
  obtain m s where m: "mkfs cat_files = Done m" and s: "tx_rep s (blk m) (blk m) Map.empty" "sb s = mk_sb" "\<forall>n. 32 \<le> n \<and> n < 1000 \<longrightarrow> loggable s n"
    "root_loaded m s 0" "ref_rep s {#(1, 1)#}" "\<forall>ip. ip \<noteq> 0 \<longrightarrow> iref (inodes s ip) = 0" using booted_cat by blast
  have new: "(1, inode_no (Suc 0)) \<notin># {#(1 :: u32, 1)#}" by (simp add: inode_no_def)
  have free: "\<exists>jp<NINODE. iref (inodes s jp) = 0" using s(6) by (intro exI [of _ 1]) (simp add: NINODE_def)
  have c: "0 < length cat_files" "(2 + length cat_files) mod 32 \<noteq> 0" "cname [99, 97, 116] = cname (short_name (fst (cat_files ! 0)))"
    "unat (1 :: u32) \<le> length (concat (snd (cat_files ! 0)))" "unat (1 :: u32) + unat (10 :: u32) < 2 ^ 32" using cat_names by simp_all
  from mkfs_file_found_by_name [OF cat_files(1) m c(1) cat_names(1) c(2,3) s(1-3) s(4,5) new free c(4,5)]
  obtain ip t u v where "dirlookup 0 [99, 97, 116] s = Done (Some (ip, 32), t)" "ilock ip t = Done u" "readi ip 1 10 u = Done ((2, [8, 9]), v)" by auto
  then show ?thesis by blast
qed

section \<open>Linking\<close>

text \<open>
  C34. What dirlink links, dirlookup finds: with room in the log and on the disk, dirlink of a name that the directory does not have
  puts an entry into the first empty slot, or at the end of the directory; the next dirlookup of the name finds it there and yields a
  cache entry for the linked inode, and every other entry is as before.
\<close>

theorem dirlink_then_dirlookup:
  assumes "file_inv s d c dp" and "all_mapped c (inodes s dp)" and "dinode_ok (dinode_of (inodes s dp))"
    and "block_ok s c (inode_block s dp)" and "inode_block s dp \<notin> blocks c (inodes s dp)"
    and "itype (inodes s dp) = T_DIR" and "16 dvd unat (isize (inodes s dp))" and "unat (isize (inodes s dp)) + 16 \<le> 71680"
    and "room (int (card (bitmaps s)) + 8) s" and "3 < card (spare s c)"
    and "first_entry (entry_match name) c (inodes s dp) = None" and "ref_rep s M" and "\<exists>jp<NINODE. iref (inodes s jp) = 0"
    and "unat i < 2 ^ 16" and "i \<noteq> 0"
  shows "\<exists>t u c' ip. dirlink dp name i s = Done (0, t) \<and> tx_rep t d c' Map.empty
    \<and> dirlookup dp name t = Done (Some (ip, of_nat (16 * slot_for c (inodes s dp))), u) \<and> key (inodes u ip) = (1, i)
    \<and> (\<forall>j. 16 * j + 16 \<le> 71680 \<and> j \<noteq> slot_for c (inodes s dp) \<longrightarrow> entry_at c' (inodes t dp) j = entry_at c (inodes s dp) j)"
proof -
  let ?x = "inodes s dp" and ?k = "slot_for c (inodes s dp)"
  let ?N = "unat (isize ?x) div 16"
  obtain t c' where t: "dirlink dp name i s = Done (0, t)" "dir_rep t d c' dp" "ref_rep t M" "unat (isize (inodes t dp)) div 16 = max ?N (Suc ?k)"
    "\<And>j. 16 * j + 16 \<le> 71680 \<Longrightarrow> entry_at c' (inodes t dp) j = (if j = ?k then new_entry name i else entry_at c ?x j)"
    "\<And>jp. \<exists>as z. inodes t jp = (inodes s jp)\<lparr>addrs := as, isize := z\<rparr>"
    using dirlink_rep [OF assms(1-12)] by blast
  have R: "dir_rep s d c dp" using assms(1,2,6,7) by (simp add: dir_rep_def file_inv_def)
  have k: "?k \<le> ?N" using find_slot_rep(2) [OF R] unfolding slot_for_def .
  have N: "unat (isize ?x) = 16 * ?N" using assms(7) by simp
  have k16: "16 * j + 16 \<le> 71680" if "j \<le> ?N" for j using that N assms(8) by linarith
  have e: "entry_at c' (inodes t dp) ?k = new_entry name i" using t(5) [OF k16 [OF k]] by simp
  have u: "unat (ucast i :: u16) = unat i" using assms(14) by (simp add: unsigned_ucast_eq take_bit_eq_mod)
  have i: "ucast (ucast i :: u16) = i" "(ucast i :: u16) \<noteq> 0"
  proof -
    have "unat (ucast (ucast i :: u16) :: u32) = unat i" unfolding unsigned_ucast_eq using assms(14) by (simp add: take_bit_eq_mod unat_mod)
    then show "ucast (ucast i :: u16) = i" by (simp only: word_unat_eq_iff)
    show "(ucast i :: u16) \<noteq> 0" using u assms(15) by (metis unat_eq_zero)
  qed
  have old: "\<not> entry_match name (entry_at c ?x j)" if "j < ?N" for j
    using assms(11) that by (simp add: first_entry_def find_None_iff)
  have first: "first_entry (entry_match name) c' (inodes t dp) = Some ?k"
    unfolding first_entry_def t(4)
  proof (rule find_first)
    show "entry_match name (entry_at c' (inodes t dp) ?k)" using i(2) unfolding e by (simp add: entry_match_def new_entry_def new_entry_name)
    show "\<not> entry_match name (entry_at c' (inodes t dp) j)" if "j < ?k" for j using t(5) [of j] k16 [of j] old [of j] that k by simp
  qed simp
  have di: "ucast (de_inum (entry_at c' (inodes t dp) ?k)) = i" unfolding e new_entry_def using i(1) by simp
  obtain a where a: "tx_rep a d c' Map.empty" "frame t a" "dirlookup dp name t = kbind (iget 1 i a) (\<lambda>(ip, u). Done (Some (ip, of_nat (16 * ?k)), u))"
    using dirlookup_rep(2) [OF t(2) first] unfolding di by blast
  have Ma: "ref_rep a M" by (rule ref_rep_frame [OF t(3) a(2)])
  obtain jp where jp: "jp < NINODE" "iref (inodes s jp) = 0" using assms(13) by blast
  have "iref (inodes t jp) = iref (inodes s jp)" using t(6) [of jp] by auto
  then have "\<not> (\<forall>ip<NINODE. 0 < iref (inodes a ip))" using jp a(2) by (auto simp: frame_def)
  then obtain ip u where "iget 1 i a = Done (ip, u)" "find_inode 1 i u = Some ip" using iget_rep [OF Ma, of 1 i] by blast
  then show ?thesis using t a(3) find_inode_some [of 1 i u ip] by (intro exI [of _ t] exI [of _ u] exI [of _ c'] exI [of _ ip]) (simp add: dir_rep_def)
qed

text \<open>The root directory of the sample disk has room for a new name.\<close>

lemma cat_root:
  assumes fin: "finished cat_files m" and s: "tx_rep s (blk m) (blk m) Map.empty" "sb s = mk_sb" "\<forall>n. 32 \<le> n \<and> n < 1000 \<longrightarrow> loggable s n"
    "root_loaded m s 0"
  shows "dir_rep s (blk m) (blk m) 0" and "unat (isize (inodes s 0)) = 512" and "dinode_ok (dinode_of (inodes s 0))"
    and "first_entry (entry_match [110]) (blk m) (inodes s 0) = None" and "slot_for (blk m) (inodes s 0) = 3"
proof -
  let ?x = "inodes s 0"
  have c: "0 < length cat_files" "(2 + length cat_files) mod 32 \<noteq> 0" "cname [99, 97, 116] = cname (short_name (fst (cat_files ! 0)))" using cat_names by simp_all
  show R: "dir_rep s (blk m) (blk m) 0" by (rule image_root [OF cat_files(1) fin c(2) s(4,1,2,3) cat_names(1) c(1,3)])
  have h: "inode_header T_DIR 512 (din_at m 0)" and F: "files_rep m (din_at m) (map snd (disk_files cat_files))"
    using fin by (simp_all add: finished_def root_dir_length)
  have x: "dinode_of ?x = din_at m 0" using s(4) by (simp add: root_loaded_def)
  then show sz: "unat (isize ?x) = 512" using h unfolding inode_header_def x [symmetric] by (simp add: dinode_of_def)
  show "dinode_ok (dinode_of ?x)" unfolding x using h by (simp add: inode_header_def)
  have "addrs ?x = d_addrs (din_at m 0)" using x by (auto simp: dinode_of_def dest: arg_cong [of _ _ d_addrs])
  then have "slot_addr (blk m) ?x = slot_addr (blk m) (ino (din_at m 0))" by (simp add: slot_addr_def fun_eq_iff)
  then have fb: "fbyte (blk m) ?x = fbyte (blk m) (ino (din_at m 0))" by (simp add: fbyte_def file_addr_def fun_eq_iff)
  have "file_bytes (blk m) (din_at m 0) (snd (disk_files cat_files ! 0))" using F by (simp add: files_rep_def)
  then have "file_bytes (blk m) (din_at m 0) (root_dir (map fst cat_files))" by (simp add: disk_files_def)
  note e = root_entry_at [OF this fb]
  have e3: "entry_at (blk m) ?x j = root_entry (map fst cat_files) j" if "j < 3" for j using e(1) [of j] that by simp
  have z: "de_inum (entry_at (blk m) ?x j) = 0" if "3 \<le> j" "j < 32" for j using e(2) [of j] that by simp
  have nz: "de_inum (entry_at (blk m) ?x j) \<noteq> 0" if "j < 3" for j
    unfolding e3 [OF that] root_entry_def using inode_no_short(1) [of "j - 1"] that by simp
  have "\<not> entry_match [110] (entry_at (blk m) ?x j)" if j: "j < 32" for j
  proof (cases "j < 3")
    case True
    then consider "j = 0" | "j = 1" | "j = 2" by linarith
    then have "cname (root_names (map fst cat_files) ! j) \<noteq> cname [110]"
      by cases (simp_all add: root_names_def short_name_def cname_def DIRSIZ_def)
    then show ?thesis unfolding e3 [OF True] entry_match_def root_entry_def by (simp add: cname_pad)
  next
    case False
    then show ?thesis using z [of j] j by (simp add: entry_match_def)
  qed
  then show "first_entry (entry_match [110]) (blk m) ?x = None" by (simp add: first_entry_def find_None_iff sz)
  have "first_entry (\<lambda>e. de_inum e = 0) (blk m) ?x = Some 3"
    unfolding first_entry_def sz by (rule find_first) (use z nz in simp_all)
  then show "slot_for (blk m) ?x = 3" by (simp add: slot_for_def)
qed

lemma cat_blocks:
  assumes fin: "finished cat_files m" and s: "sb s = mk_sb" "\<forall>n. 32 \<le> n \<and> n < 1000 \<longrightarrow> loggable s n" "root_loaded m s 0" "inum (inodes s 0) = 1" "room 20 s"
  shows "bitmap_ok s (blk m)" and "block_ok s (blk m) (inode_block s 0)" and "inode_block s 0 \<notin> blocks (blk m) (inodes s 0)"
    and "room (int (card (bitmaps s)) + 8) s" and "3 < card (spare s (blk m))"
proof -
  let ?x = "inodes s 0"
  have F: "files_rep m (din_at m) (map snd (disk_files cat_files))" and iu: "\<forall>n. unat n < 1000 \<longrightarrow> in_use (blk m) mk_sb n = (n < freeblock m)"
    using fin by (simp_all add: finished_def)
  have W: "wf_image (blk m) (freeblock m) (din_at m) (length (map snd (disk_files cat_files)))" using F by (simp add: files_rep_def image_rep_def)
  have "unat (freeblock m) = 61" using F mkfs_fits(2) [OF cat_files(1)] cat_files(2) by (simp add: files_rep_def image_rep_def wf_image_def)
  then have fb: "freeblock m = 61" by (simp add: word_unat_eq_iff)
  have use: "in_use (blk m) mk_sb n \<longleftrightarrow> n < 61" if "n < 1000" for n using iu that by (simp add: fb word_less_nat_alt)
  have free: "32 \<le> n \<and> n \<noteq> 58" if "\<not> n < 61" for n :: u32 using that by (auto simp: word_less_nat_alt word_le_nat_alt)
  show "bitmap_ok s (blk m)" using s(1,2) use free bitmap_block by (auto simp: bitmap_ok_def)
  have ib: "inode_block s 0 = 32" using s(1,4) by (simp add: inode_block_def IBLOCK_def IPB_def)
  show "block_ok s (blk m) (inode_block s 0)" unfolding ib block_ok_def using s(1,2) use bitmap_block by simp
  have "dinode_of ?x = din_at m 0" using s(3) by (simp add: root_loaded_def)
  then have "addrs ?x = d_addrs (din_at m 0)" by (auto simp: dinode_of_def dest: arg_cong [of _ _ d_addrs])
  then have sl: "slot_addr (blk m) ?x k = ptr (blk m) (din_at m) (0, k)" for k by (simp add: slot_addr_def ptr_def)
  have "slot_addr (blk m) ?x k \<noteq> 32" if "k < 141" for k
  proof
    assume e: "slot_addr (blk m) ?x k = 32"
    have "(0, k) \<in> ptrs (length (map snd (disk_files cat_files)))" using that by (simp add: ptrs_def)
    from wf_ptr(1) [OF W this] show False using e unfolding sl by simp
  qed
  then show "inode_block s 0 \<notin> blocks (blk m) ?x" unfolding ib blocks_def by auto
  have "bitmaps s \<subseteq> {58}" using bitmap_block s(1) by (auto simp: bitmaps_def)
  then have "card (bitmaps s) \<le> 1" using card_mono [of "{58 :: u32}"] by fastforce
  then show "room (int (card (bitmaps s)) + 8) s" using room_less [OF s(5)] by simp
  have "{100, 101, 102, 103} \<subseteq> spare s (blk m)" using use s(1) by (simp add: spare_def)
  moreover have "finite (spare s (blk m))" by simp
  ultimately have "card {100, 101, 102, 103 :: u32} \<le> card (spare s (blk m))" by (intro card_mono)
  then show "3 < card (spare s (blk m))" by simp
qed

theorem dirlink_then_dirlookup_witness:
  "\<exists>s t u ip. dirlink 0 [110] 5 s = Done (0, t) \<and> dirlookup 0 [110] t = Done (Some (ip, 48), u) \<and> inum (inodes u ip) = 5"
proof -
  obtain m s where m: "finished cat_files m" and s: "tx_rep s (blk m) (blk m) Map.empty" "sb s = mk_sb" "\<forall>n. 32 \<le> n \<and> n < 1000 \<longrightarrow> loggable s n"
    "room 20 s" "ref_rep s {#(1, 1)#}" "root_loaded m s 0" "inum (inodes s 0) = 1" "\<forall>ip. ip \<noteq> 0 \<longrightarrow> iref (inodes s ip) = 0" using booted_cat by blast
  note R = cat_root [OF m s(1-3) s(6)] and B = cat_blocks [OF m s(2,3,6,7,4)]
  have free: "\<exists>jp<NINODE. iref (inodes s jp) = 0" using s(8) by (intro exI [of _ 1]) (simp add: NINODE_def)
  have "file_inv s (blk m) (blk m) 0" "all_mapped (blk m) (inodes s 0)" "itype (inodes s 0) = T_DIR"
    using R(1) B(1) by (simp_all add: dir_rep_def file_inv_def)
  from dirlink_then_dirlookup [OF this(1,2) R(3) B(2,3) this(3) _ _ B(4,5) R(4) s(5) free, of 5] R(2)
  obtain t u ip where "dirlink 0 [110] 5 s = Done (0, t)" "dirlookup 0 [110] t = Done (Some (ip, 48), u)" "key (inodes u ip) = (1, 5)"
    unfolding R(5) by auto
  then show ?thesis by (auto simp: key_def)
qed

end
