(* ===== verification/Spec2Isabelle.thy ===== *)
theory Spec2Isabelle
  imports Klist_Correct Core_Props Io_Props Sys_Props File_Props User_Props Umalloc Dir_Props
begin

text \<open>
  A model of the operating system under project4/: a teaching kernel for one or more x86 CPUs (xv6) with the additions of the
  course (a generic list library, page allocation and shared memory for user programs, semaphores, mutexes and condition
  variables), and some of its user programs.

  \<^bold>\<open>The program.\<close> A process enters the kernel by a system call (syscall.c dispatches on the number to sysproc.c and
  sysfile.c). These work on open files (file.c), which are pipes (pipe.c) or inodes (fs.c); inodes live in blocks, blocks in
  the buffer cache (bio.c), and every change of a block goes through the log (log.c), which makes a system call atomic
  against crashes. Under them all are the process table with sleep, wakeup and the scheduler (proc.c), spin locks
  (spinlock.c), page tables (vm.c), the page allocator (kalloc.c), and the console (console.c).

  \<^bold>\<open>The state.\<close> Theory Kernel holds one record \<open>kernel\<close> with a field for every global of the C code: physical memory as bytes
  (\<open>mem\<close>), \<open>cpus\<close>, the process table \<open>procs\<close>, \<open>locks\<close> by name, the buffers \<open>bufs\<close>, the disk, the log \<open>klog\<close>, the inode
  cache \<open>inodes\<close>, the open files, the pipes and the console. C structures are records with the names of their members;
  unsigned integers are 32-bit words and wrap; pointers into an array are indices into it, pointers into memory are addresses.

  \<^bold>\<open>Conventions.\<close> A kernel function maps a state to a \<open>kresult\<close>: \<open>Done\<close> with its result and the next state, \<open>Panic\<close> with
  the message of the source, \<open>Fault\<close> for a null or undefined access, \<open>Spin\<close> for a lock that another CPU has to release
  first (or a loop that never ends), \<open>Asleep\<close> for a call that has to wait in a place where no caller of the model resumes it.
  \<open>kbind\<close> sequences, \<open>kassert\<close> is \<open>if(...) panic\<close>, \<open>kloop\<close> and \<open>kwhile\<close> are loops with and without an early exit (over
  \<open>while_option\<close>, so non-termination is the value \<open>Spin\<close> and termination is proved with \<open>kloop_rule\<close>). A function that
  gives up the CPU is cut there: \<open>f_enter\<close> or \<open>f_call\<close> runs to the switch and answers \<open>Sleeps\<close> with what the stack keeps,
  \<open>f_resume\<close> goes on. The list library has its own heap of links, with loops as partial functions over \<open>option\<close>.

  \<^bold>\<open>Theories and sources.\<close>
  \<^item> Prelude: results and loops. Memory, Cstring: byte memory and string.c. Kernel, Layout: the headers, records and
    the formats on disk (fs.h, stat.h).
  \<^item> Klist (list.c), with Klist_Order, Klist_Refine, Klist_Sort, Klist_Unique: a heap list as a HOL list (\<open>dll\<close>), every
    operation refining the operation on lists; Fifo is the queue interface (locale) that list.c and pipes provide.
  \<^item> Spinlock (spinlock.c), also as a step relation of several CPUs. Kalloc (kalloc.c). Vm, Vm_Correct (vm.c).
  \<^item> Sched, Sched_Correct (proc.c: allocation, scheduling, sleep, wakeup, wait, kill). File and Sysfile continue proc.c with
    fork, exit and userinit.
  \<^item> Pipe (pipe.c). Console, Console_Correct (console.c, uart.c, procdump of proc.c). Keyboard (kbd.c, kbd.h): scan codes
    to characters. Trap (trap.c): the dispatch of traps and the way out of the kernel.
  \<^item> Block_Store: the interface of a block cache (locale), with the copy and update routines the log needs, proved once.
    Bio (bio.c, memide.c), Bio_Correct: the cache provides the interface. Log (log.c), Log_Correct (commit, recovery, crashes),
    Log_Tx (transactions).
  \<^item> Inode (fs.c below \<open>readi\<close>), Inode_Correct (bitmap, inodes on disk), Icache_Correct (reference counts). Fs (fs.c from
    \<open>readi\<close> on). Content, File_Data: a file as an array of bytes, through direct and indirect blocks. Directory: a directory as an
    array of entries.
  \<^item> File (file.c), Syscall (syscall.c, sysproc.c), Exec (exec.c), Sysfile (sysfile.c up to pipes), Shm, Shm_Correct (the
    calls of the course: palloc, shared memory, semaphores, mutexes, condition variables).
  \<^item> Grep (grep.c, wc.c), Shell (the parser of sh.c), Shell_Print (a printer for command trees), Umalloc (umalloc.c).
  \<^item> Mkfs (mkfs.c): the program that makes the first disk. Mkfs_Correct: pointers, their owners and the bytes of the files through
    every step; Mkfs_Files: its functions as operations on the list of the files, the space they need, the bitmap.
  \<^item> Klist_Correct, Core_Props, Io_Props, Sys_Props, Fs_Props, File_Props, User_Props, Mkfs_Props, Dir_Props state the results, with
    samples from Sample; those of the allocator are in Umalloc.

  \<^bold>\<open>What is shown.\<close> Lists: sorting, uniqueness, ordered insertion, reversal, queue behaviour. Locks: mutual exclusion for every
  interleaving of the memory accesses. Memory: pages are conserved, page tables map what was asked and nothing else changes.
  Processes: no process runs on two CPUs, wakeup wakes all sleepers, a timer tick preempts. Pipes and console: what goes in comes
  out, through the wrapping ring counters, for the console from the scan codes of the keyboard on. Storage: the cache is an array of blocks; a transaction writes exactly its updates; a crash before,
  between or after any two block writes of \<open>commit\<close> followed by recovery gives all or nothing; allocation and release of
  blocks; reference counts of inodes; files as arrays of bytes; directories and paths; the disk that mkfs writes is a file system, and what the
  kernel reads from it are the files of the host. Synchronisation: semaphores count, mutexes exclude.
  User programs: grep's matcher against a declarative reading of patterns; the shell's parser is total, typed and inverts printing;
  the allocator hands out disjoint blocks and loses none.

  \<^bold>\<open>Bounds and fuel.\<close> The shell's recursive descent gets \<open>4 * length s + 4\<close> units of fuel; \<open>parser_good\<close> shows that this
  is always enough. \<open>digits_loop\<close> stops on bases 0 and 1, which no caller passes. Everything else recurses over data or
  is a \<open>kloop\<close> with a measure. The crash model takes the write of one block as atomic.

  \<^bold>\<open>Choices.\<close> Buffers of user programs are passed by value. The disk is the in-memory driver memide.c. The serial port
  is present. \<open>exec\<close> of a file whose header cannot be read goes on with an uninitialised header in C; this is \<open>Fault\<close>.

  \<^bold>\<open>Findings.\<close> \<open>kill(0)\<close> marks an unused slot killed; \<open>cond_wait\<close> can lose a wakeup; grep drops the beginning of a line that
  arrives in two reads; mkfs can give the root directory a size that ends in a block it does not have; further ones (unchecked indices of shared pages, a second \<open>mmap_detach\<close>, the unsigned comparison in
  \<open>exec\<close>) are listed in the manifest.

  \<^bold>\<open>Not modelled.\<close> Assembly and start-up code, segment descriptors, interrupt controllers and timers, the IDE ports and
  multiprocessor tables have no state in the model. project3/ is an earlier copy of the same kernel. Programs that only test the
  system and the host programs of projects 1 and 2 are left out.
\<close>

end
